(* ===== verification/Prelude.thy ===== *)
theory Prelude
  imports Main "HOL-Library.Word"
begin

section \<open>Prelude: programs that stop, hang or return, and byte regions\<close>

text \<open>
  What every component of the development shares.

  \<^item> \<open>outcome\<close> and \<open>prog\<close>: a C routine is a function from the state of the process to an
    outcome. \<open>Ok x t\<close> is a return with value \<open>x\<close> in state \<open>t\<close>; \<open>Abort r t\<close> is a routine of the
    err or log family (or \<open>exit\<close>) ending the process in state \<open>t\<close>, for the reason \<open>r\<close>; \<open>Hang\<close> is a loop that
    never ends or a call that blocks for good.
  \<^item> \<open>bnd\<close>, \<open>ret\<close>, \<open>gets\<close>, \<open>modify\<close>, \<open>halt\<close>: sequencing, and the rules by which \<open>simp\<close> runs a
    routine symbolically (collection \<open>prog_simps\<close>).
  \<^item> \<open>keeps\<close>: routines that leave a view of the state alone (collection \<open>keeps_intros\<close>).
  \<^item> \<open>get_at\<close>, \<open>put_at\<close>: the bytes of a region of a file, and overwriting a region.
\<close>

named_theorems prog_simps \<open>symbolic execution of routines\<close>
named_theorems region_simps \<open>reading and overwriting regions of byte lists\<close>

type_synonym bytes = "char list"

subsection \<open>Why a process ended\<close>

datatype reason =
    Err_dump string  \<comment> \<open>err_dump: message, core dump\<close>
  | Err_sys string   \<comment> \<open>err_sys: message, exit status 1\<close>
  | Err_quit string  \<comment> \<open>err_quit: message, exit status 1\<close>
  | Err_exit string  \<comment> \<open>err_exit: message, exit status 1\<close>
  | Log_sys string   \<comment> \<open>log_sys: logged message, exit status 2\<close>
  | Log_quit string  \<comment> \<open>log_quit: logged message, exit status 2\<close>
  | Log_exit string  \<comment> \<open>log_exit: logged message, exit status 2\<close>
  | Exit int         \<comment> \<open>a direct call of exit\<close>
  | Undefined string \<comment> \<open>the C standard gives the execution no meaning\<close>

datatype ('a, 's) outcome = Ok 'a 's | Abort reason 's | Hang

type_synonym ('s, 'a) prog = "'s \<Rightarrow> ('a, 's) outcome"

subsection \<open>Sequencing\<close>

definition ret :: "'a \<Rightarrow> ('s, 'a) prog" where
  "ret x = (\<lambda>s. Ok x s)"

definition bnd :: "('s, 'a) prog \<Rightarrow> ('a \<Rightarrow> ('s, 'b) prog) \<Rightarrow> ('s, 'b) prog" where
  "bnd m f = (\<lambda>s. case m s of Ok x t \<Rightarrow> f x t | Abort r t \<Rightarrow> Abort r t | Hang \<Rightarrow> Hang)"

definition gets :: "('s \<Rightarrow> 'a) \<Rightarrow> ('s, 'a) prog" where
  "gets f = (\<lambda>s. Ok (f s) s)"

definition modify :: "('s \<Rightarrow> 's) \<Rightarrow> ('s, unit) prog" where
  "modify f = (\<lambda>s. Ok () (f s))"

definition halt :: "reason \<Rightarrow> ('s, 'a) prog" where
  "halt r = (\<lambda>s. Abort r s)"

definition hang :: "('s, 'a) prog" where
  "hang = (\<lambda>s. Hang)"

lemma ret_run [prog_simps, simp]: "ret x s = Ok x s"
  by (simp add: ret_def)

lemma gets_run [prog_simps, simp]: "gets f s = Ok (f s) s"
  by (simp add: gets_def)

lemma modify_run [prog_simps, simp]: "modify f s = Ok () (f s)"
  by (simp add: modify_def)

lemma halt_run [prog_simps, simp]: "halt r s = Abort r s"
  by (simp add: halt_def)

lemma hang_run [prog_simps, simp]: "hang s = Hang"
  by (simp add: hang_def)

lemma bnd_Ok [prog_simps]: "m s = Ok x t \<Longrightarrow> bnd m f s = f x t"
  by (simp add: bnd_def)

lemma bnd_Abort [prog_simps]: "m s = Abort r t \<Longrightarrow> bnd m f s = Abort r t"
  by (simp add: bnd_def)

lemma bnd_Hang [prog_simps]: "m s = Hang \<Longrightarrow> bnd m f s = Hang"
  by (simp add: bnd_def)

lemma bnd_ret [simp]: "bnd (ret x) f = f x"
  by (simp add: bnd_def fun_eq_iff)

lemma bnd_gets [simp]: "bnd (gets g) f s = f (g s) s"
  by (simp add: bnd_def)

lemma bnd_modify [simp]: "bnd (modify g) f s = f () (g s)"
  by (simp add: bnd_def)

lemma bnd_halt [simp]: "bnd (halt r) f = halt r"
  by (simp add: bnd_def fun_eq_iff)

lemma bnd_assoc: "bnd (bnd m f) g = bnd m (\<lambda>x. bnd (f x) g)"
  by (auto simp: bnd_def fun_eq_iff split: outcome.split)

lemma bnd_OkE:
  assumes "bnd m f s = Ok y u"
  obtains x t where "m s = Ok x t" and "f x t = Ok y u"
  using assms by (auto simp: bnd_def split: outcome.splits)

subsection \<open>Routines that keep a view of the state\<close>

text \<open>\<open>keeps f m\<close>: whenever \<open>m\<close> returns, the view \<open>f\<close> of the state is what it was. Shown by structure of \<open>m\<close>.\<close>

definition keeps :: "('s \<Rightarrow> 'v) \<Rightarrow> ('s, 'a) prog \<Rightarrow> bool" where
  "keeps f m \<longleftrightarrow> (\<forall>s x t. m s = Ok x t \<longrightarrow> f t = f s)"

named_theorems keeps_intros \<open>routines that keep a view of the state\<close>

lemma keepsD: "keeps f m \<Longrightarrow> m s = Ok x t \<Longrightarrow> f t = f s"
  unfolding keeps_def by blast

lemma keeps_ret [keeps_intros]: "keeps f (ret x)"
  by (simp add: keeps_def)

lemma keeps_halt [keeps_intros]: "keeps f (halt r)"
  by (simp add: keeps_def)

lemma keeps_hang [keeps_intros]: "keeps f hang"
  by (simp add: keeps_def)

lemma keeps_gets [keeps_intros]: "keeps f (gets g)"
  by (simp add: keeps_def)

lemma keeps_modify [keeps_intros]: "(\<And>s. f (g s) = f s) \<Longrightarrow> keeps f (modify g)"
  by (simp add: keeps_def)

lemma keeps_bnd [keeps_intros]:
  assumes "keeps f m" and "\<And>x. keeps f (n x)"
  shows "keeps f (bnd m n)"
  unfolding keeps_def
proof (intro allI impI)
  fix s y u assume "bnd m n s = Ok y u"
  then obtain x t where "m s = Ok x t" and "n x t = Ok y u" by (rule bnd_OkE)
  with assms show "f u = f s" by (metis keepsD)
qed

lemma keeps_if [keeps_intros]: "(b \<Longrightarrow> keeps f m) \<Longrightarrow> (\<not> b \<Longrightarrow> keeps f n) \<Longrightarrow> keeps f (if b then m else n)"
  by simp

lemma keeps_case_prod [keeps_intros]: "(\<And>x y. keeps f (g x y)) \<Longrightarrow> keeps f (case p of (x, y) \<Rightarrow> g x y)"
  by (simp split: prod.split)

lemma keeps_case_option [keeps_intros]: "keeps f a \<Longrightarrow> (\<And>x. keeps f (b x)) \<Longrightarrow> keeps f (case p of None \<Rightarrow> a | Some x \<Rightarrow> b x)"
  by (simp split: option.split)

subsection \<open>The reasons a routine may end the process for\<close>

definition ends_in :: "reason set \<Rightarrow> ('s, 'a) prog \<Rightarrow> bool" where
  "ends_in R m \<longleftrightarrow> (\<forall>s r t. m s = Abort r t \<longrightarrow> r \<in> R)"

named_theorems ends_intros \<open>routines that end the process for given reasons only\<close>

lemma ends_inD: "ends_in R m \<Longrightarrow> m s = Abort r t \<Longrightarrow> r \<in> R"
  unfolding ends_in_def by blast

lemma ends_basic [ends_intros]: "ends_in R (ret x)" "ends_in R (gets f)" "ends_in R (modify g)" "ends_in R hang" "r \<in> R \<Longrightarrow> ends_in R (halt r)"
  by (simp_all add: ends_in_def)

lemma ends_bnd [ends_intros]: "ends_in R m \<Longrightarrow> (\<And>x. ends_in R (n x)) \<Longrightarrow> ends_in R (bnd m n)"
  by (fastforce simp: ends_in_def bnd_def split: outcome.splits)

lemma ends_if [ends_intros]: "(b \<Longrightarrow> ends_in R m) \<Longrightarrow> (\<not> b \<Longrightarrow> ends_in R n) \<Longrightarrow> ends_in R (if b then m else n)"
  by simp

lemma ends_case_prod [ends_intros]: "(\<And>x y. ends_in R (g x y)) \<Longrightarrow> ends_in R (case p of (x, y) \<Rightarrow> g x y)"
  by (simp split: prod.split)

lemma ends_case_option [ends_intros]: "ends_in R a \<Longrightarrow> (\<And>x. ends_in R (b x)) \<Longrightarrow> ends_in R (case p of None \<Rightarrow> a | Some x \<Rightarrow> b x)"
  by (simp split: option.split)

subsection \<open>Mutexes\<close>

text \<open>A lock is a bit of the state; a thread that runs alone and finds it held waits for good.\<close>

definition mutex_lock :: "('s \<Rightarrow> bool) \<Rightarrow> ((bool \<Rightarrow> bool) \<Rightarrow> 's \<Rightarrow> 's) \<Rightarrow> ('s, unit) prog" where
  "mutex_lock held upd = (\<lambda>s. if held s then Hang else Ok () (upd (\<lambda>_. True) s))"

definition mutex_unlock :: "('s \<Rightarrow> bool) \<Rightarrow> ((bool \<Rightarrow> bool) \<Rightarrow> 's \<Rightarrow> 's) \<Rightarrow> ('s, unit) prog" where
  "mutex_unlock held upd = (\<lambda>s. if held s then Ok () (upd (\<lambda>_. False) s) else Abort (Undefined ''unlock of a free mutex'') s)"

subsection \<open>Sums over the threads or processes of a system\<close>

lemma sum_change:
  fixes f g :: "nat \<Rightarrow> 'b :: comm_monoid_add"
  assumes "t < n" and "\<And>u. u \<noteq> t \<Longrightarrow> g u = f u"
  shows "(\<Sum>u<n. g u) + f t = (\<Sum>u<n. f u) + g t"
proof -
  have "(\<Sum>u\<in>{..<n} - {t}. g u) = (\<Sum>u\<in>{..<n} - {t}. f u)" using assms(2) by (intro sum.cong) auto
  moreover have "(\<Sum>u<n. g u) = g t + (\<Sum>u\<in>{..<n} - {t}. g u)" "(\<Sum>u<n. f u) = f t + (\<Sum>u\<in>{..<n} - {t}. f u)"
    using assms(1) by (simp_all add: sum.remove)
  ultimately show ?thesis by (simp add: ac_simps)
qed

lemma sum_member:
  fixes f :: "nat \<Rightarrow> nat"
  assumes "t < n"
  shows "f t \<le> (\<Sum>u<n. f u)"
  using assms by (intro member_le_sum) auto

subsection \<open>Regions of byte lists\<close>

definition get_at :: "'a list \<Rightarrow> nat \<Rightarrow> nat \<Rightarrow> 'a list" where
  "get_at f p n = take n (drop p f)"

text \<open>Overwriting from position \<open>p\<close> on; a gap beyond the end is filled with zero bytes.\<close>

definition put_at :: "bytes \<Rightarrow> nat \<Rightarrow> bytes \<Rightarrow> bytes" where
  "put_at f p bs = take p f @ replicate (p - length f) (CHR 0x00) @ bs @ drop (p + length bs) f"

lemma length_get_at [region_simps]: "length (get_at f p n) = min n (length f - p)"
  by (simp add: get_at_def)

lemma length_put_at [region_simps]: "length (put_at f p bs) = max (length f) (p + length bs)"
  by (simp add: put_at_def)

lemma get_at_append_mid [region_simps]:
  "p = length a \<Longrightarrow> n = length b \<Longrightarrow> get_at (a @ b @ c) p n = b"
  by (simp add: get_at_def)

lemma get_at_0: "get_at f 0 n = take n f"
  by (simp add: get_at_def)

lemma put_at_append_mid [region_simps]:
  "p = length a \<Longrightarrow> length b' = length b \<Longrightarrow> put_at (a @ b @ c) p b' = a @ b' @ c"
  by (simp add: put_at_def)

lemma put_at_end [region_simps]: "p = length f \<Longrightarrow> put_at f p bs = f @ bs"
  by (simp add: put_at_def)

lemma put_at_Nil: "p \<le> length f \<Longrightarrow> put_at f p [] = f"
  by (simp add: put_at_def)

lemma get_put_same [region_simps]: "n = length bs \<Longrightarrow> get_at (put_at f p bs) p n = bs"
  by (simp add: get_at_def put_at_def min_def)

text \<open>A region is unchanged by a write to a disjoint one.\<close>

lemma get_put_other:
  assumes "q + n \<le> p \<or> p + length bs \<le> q" and "q + n \<le> length f"
  shows "get_at (put_at f p bs) q n = get_at f q n"
proof (rule nth_equalityI)
  show "length (get_at (put_at f p bs) q n) = length (get_at f q n)"
    using assms(2) by (simp add: length_get_at length_put_at)
next
  fix i
  assume "i < length (get_at (put_at f p bs) q n)"
  then have i: "i < n" by (simp add: length_get_at)
  from assms i have "put_at f p bs ! (q + i) = f ! (q + i)"
    by (auto simp: put_at_def nth_append min_def)
  then show "get_at (put_at f p bs) q n ! i = get_at f q n ! i"
    using assms(2) i by (simp add: get_at_def length_put_at)
qed

lemma get_at_split:
  assumes "p + n \<le> length f"
  shows "f = take p f @ get_at f p n @ drop (p + n) f"
  by (metis add.commute append_take_drop_id drop_drop get_at_def)

end
