(* ===== verification/C_Library.thy ===== *)
theory C_Library
  imports Prelude
begin

section \<open>The C library functions the sources use\<close>

text \<open>
  Strings, numbers in decimal and the conversions between them, as the C standard and POSIX
  define them: \<open>cstr\<close> (the string a buffer holds up to its null byte), \<open>strchr\<close>, \<open>isspace\<close>, \<open>isdigit\<close>,
  \<open>atol\<close>, \<open>atoi\<close>, and the \<open>sprintf\<close> conversions \<open>%ld\<close> and \<open>%*ld\<close> (\<open>fmt_d\<close>, \<open>fmt_wd\<close>).
  The main lemmas are the round trips \<open>atol_fmt_wd\<close> and \<open>atoi_fmt_wd\<close>.
  Characters are bytes; \<open>char\<close> is signed, as on the platforms the Makefiles name.
\<close>

abbreviation NUL :: char where
  "NUL \<equiv> CHR 0x00"

definition cstr :: "bytes \<Rightarrow> string" where
  "cstr b = takeWhile (\<lambda>c. c \<noteq> NUL) b"

lemma cstr_no_NUL [simp]: "NUL \<notin> set (cstr b)"
  by (auto simp: cstr_def dest: set_takeWhileD)

lemma cstr_id: "NUL \<notin> set b \<Longrightarrow> cstr b = b"
  by (auto simp: cstr_def takeWhile_eq_all_conv)

lemma cstr_append_NUL [simp]: "NUL \<notin> set a \<Longrightarrow> cstr (a @ NUL # b) = a"
  by (auto simp: cstr_def takeWhile_append)

text \<open>\<open>strchr\<close> as the offset of the first occurrence, looking no further than the null byte.\<close>

fun strchr :: "bytes \<Rightarrow> char \<Rightarrow> nat option" where
  "strchr [] c = None"
| "strchr (x # xs) c =
     (if x = c then Some 0 else if x = NUL then None else map_option Suc (strchr xs c))"

lemma strchr_found:
  "c \<notin> set a \<Longrightarrow> NUL \<notin> set a \<Longrightarrow> strchr (a @ c # b) c = Some (length a)"
  by (induction a) auto

lemma strchr_none: "c \<notin> set (cstr b) \<Longrightarrow> c \<noteq> NUL \<Longrightarrow> strchr b c = None"
  by (induction b) (auto simp: cstr_def)

subsection \<open>Character classes and decimal digits\<close>

definition isspace :: "char \<Rightarrow> bool" where
  "isspace c \<longleftrightarrow> c \<in> {CHR '' '', CHR 0x09, CHR 0x0A, CHR 0x0B, CHR 0x0C, CHR 0x0D}"

definition isdigit :: "char \<Rightarrow> bool" where
  "isdigit c \<longleftrightarrow> 48 \<le> (of_char c :: nat) \<and> (of_char c :: nat) \<le> 57"

definition digit_val :: "char \<Rightarrow> int" where
  "digit_val c = int (of_char c) - 48"

definition digit_char :: "nat \<Rightarrow> char" where
  "digit_char d = char_of (48 + d)"

lemma digit_char_isdigit: "d < 10 \<Longrightarrow> isdigit (digit_char d)"
  by (simp add: isdigit_def digit_char_def)

lemma digit_val_char: "d < 10 \<Longrightarrow> digit_val (digit_char d) = int d"
  by (simp add: digit_val_def digit_char_def)

lemma digit_not_space: "isdigit c \<Longrightarrow> \<not> isspace c"
  by (auto simp: isdigit_def isspace_def)

lemma digit_not_sign: "isdigit c \<Longrightarrow> c \<noteq> CHR ''-'' \<and> c \<noteq> CHR ''+''"
  by (auto simp: isdigit_def)

lemma digit_not_special:
  "isdigit c \<Longrightarrow> c \<noteq> CHR '':'' \<and> c \<noteq> NUL \<and> c \<noteq> CHR 0x0A \<and> c \<noteq> CHR '' ''"
  by (auto simp: isdigit_def)

subsection \<open>Printing in decimal\<close>

text \<open>\<open>fmt_u n\<close> is the digit string of \<open>n\<close>; \<open>fmt_d i\<close> is \<open>%ld\<close> and \<open>fmt_wd w i\<close> is \<open>%*ld\<close> with width \<open>w\<close>.\<close>

fun fmt_u :: "nat \<Rightarrow> string" where
  "fmt_u n = (if n < 10 then [digit_char n] else fmt_u (n div 10) @ [digit_char (n mod 10)])"

declare fmt_u.simps [simp del]

definition fmt_d :: "int \<Rightarrow> string" where
  "fmt_d i = (if i < 0 then CHR ''-'' # fmt_u (nat (- i)) else fmt_u (nat i))"

definition pad_left :: "nat \<Rightarrow> string \<Rightarrow> string" where
  "pad_left w t = replicate (w - length t) (CHR '' '') @ t"

definition fmt_wd :: "nat \<Rightarrow> int \<Rightarrow> string" where
  "fmt_wd w i = pad_left w (fmt_d i)"

lemma fmt_u_digits: "c \<in> set (fmt_u n) \<Longrightarrow> isdigit c"
proof (induction n arbitrary: c rule: fmt_u.induct)
  case (1 n)
  then show ?case
    by (subst (asm) (2) fmt_u.simps) (auto split: if_splits simp: digit_char_isdigit)
qed

lemma fmt_u_nonempty [simp]: "fmt_u n \<noteq> []"
  by (subst fmt_u.simps) simp

lemma fmt_u_length_pos [simp]: "0 < length (fmt_u n)"
  by simp

lemma length_fmt_u_le: "n < 10 ^ k \<Longrightarrow> 0 < k \<Longrightarrow> length (fmt_u n) \<le> k"
proof (induction n arbitrary: k rule: fmt_u.induct)
  case (1 n)
  show ?case
  proof (cases "n < 10")
    case True
    with "1.prems" show ?thesis by (subst fmt_u.simps) simp
  next
    case False
    with "1.prems" obtain j where k: "k = Suc j" and j: "0 < j"
      by (cases k; cases "k - 1") auto
    with "1.prems" have "n div 10 < 10 ^ j" by auto
    with "1.IH" False j have "length (fmt_u (n div 10)) \<le> j" by simp
    with False k show ?thesis by (subst fmt_u.simps) simp
  qed
qed

lemma length_fmt_d_nat: "n < 10 ^ k \<Longrightarrow> 0 < k \<Longrightarrow> length (fmt_d (int n)) \<le> k"
  by (simp add: fmt_d_def length_fmt_u_le)

lemma fmt_d_nat_digits: "c \<in> set (fmt_d (int n)) \<Longrightarrow> isdigit c"
  by (auto simp: fmt_d_def dest: fmt_u_digits)

lemma fmt_d_nat_nonempty [simp]: "fmt_d (int n) \<noteq> []"
  by (simp add: fmt_d_def)

lemma length_fmt_wd: "length (fmt_wd w i) = max w (length (fmt_d i))"
  by (simp add: fmt_wd_def pad_left_def max_def)

lemma length_fmt_wd_nat: "n < 10 ^ w \<Longrightarrow> 0 < w \<Longrightarrow> length (fmt_wd w (int n)) = w"
  using length_fmt_d_nat [of n w] by (simp add: length_fmt_wd)

subsection \<open>Reading decimals: \<open>atol\<close> and \<open>atoi\<close>\<close>

fun digits_from :: "int \<Rightarrow> string \<Rightarrow> int" where
  "digits_from a [] = a"
| "digits_from a (c # cs) = (if isdigit c then digits_from (10 * a + digit_val c) cs else a)"

text \<open>
  \<open>strtol\<close> in base 10: white space, an optional sign, digits; the value is clamped to the
  64-bit range. \<open>atol\<close> is \<open>strtol\<close>, and \<open>atoi\<close> its result converted to a 32-bit int.
\<close>

definition clamp64 :: "int \<Rightarrow> int" where
  "clamp64 i = max (- (2 ^ 63)) (min (2 ^ 63 - 1) i)"

definition strtol10 :: "string \<Rightarrow> int" where
  "strtol10 t = (case dropWhile isspace t of
      [] \<Rightarrow> 0
    | c # cs \<Rightarrow> clamp64 (if c = CHR ''-'' then - digits_from 0 cs
                        else if c = CHR ''+'' then digits_from 0 cs
                        else digits_from 0 (c # cs)))"

definition atol :: "bytes \<Rightarrow> int" where
  "atol b = strtol10 (cstr b)"

definition atoi :: "bytes \<Rightarrow> int" where
  "atoi b = signed_take_bit 31 (atol b)"

lemma digits_from_append:
  "\<forall>c \<in> set a. isdigit c \<Longrightarrow> digits_from v (a @ b) = digits_from (digits_from v a) b"
  by (induction a arbitrary: v) auto

lemma digits_from_fmt_u: "digits_from v (fmt_u n) = v * 10 ^ length (fmt_u n) + int n"
proof (induction n arbitrary: v rule: fmt_u.induct)
  case (1 n)
  show ?case
  proof (cases "n < 10")
    case True
    then show ?thesis
      by (simp add: fmt_u.simps [of n] digit_char_isdigit digit_val_char)
  next
    case False
    have nv: "int n = 10 * int (n div 10) + int (n mod 10)"
      by (metis div_mult_mod_eq mult.commute of_nat_add of_nat_mult of_nat_numeral)
    have "digits_from v (fmt_u n)
        = digits_from (digits_from v (fmt_u (n div 10))) [digit_char (n mod 10)]"
      using False by (simp add: fmt_u.simps [of n] digits_from_append fmt_u_digits)
    also have "\<dots> = 10 * (v * 10 ^ length (fmt_u (n div 10)) + int (n div 10)) + int (n mod 10)"
      using False "1.IH" by (simp add: digit_char_isdigit digit_val_char)
    also have "\<dots> = v * 10 ^ length (fmt_u n) + int n"
      using False nv by (simp add: fmt_u.simps [of n])
    finally show ?thesis .
  qed
qed

text \<open>A padded number reads back, whatever non-digit follows it.\<close>

lemma digits_from_stop:
  assumes "b = [] \<or> \<not> isdigit (hd b)"
  shows "digits_from 0 (fmt_u n @ b) = int n"
proof -
  have "digits_from 0 (fmt_u n @ b) = digits_from (int n) b"
    by (simp add: digits_from_append fmt_u_digits digits_from_fmt_u)
  also have "\<dots> = int n"
    using assms by (cases b) auto
  finally show ?thesis .
qed

lemma strtol10_fmt_u:
  assumes "n < 2 ^ 63" and "b = [] \<or> \<not> isdigit (hd b)" and "\<forall>c \<in> set sp. isspace c"
  shows "strtol10 (sp @ fmt_u n @ b) = int n"
proof -
  obtain c cs where cs: "fmt_u n = c # cs"
    by (cases "fmt_u n") auto
  have c: "isdigit c"
    using fmt_u_digits [of c n] cs by simp
  have "dropWhile isspace (sp @ fmt_u n @ b) = c # cs @ b"
    using assms(3) cs digit_not_space [OF c] by (simp add: dropWhile_append2)
  moreover have "digits_from 0 (c # cs @ b) = int n"
    using digits_from_stop [OF assms(2), of n] cs by simp
  moreover have "clamp64 (int n) = int n"
  proof -
    have "int n < 2 ^ 63" using assms(1) by (metis of_nat_less_iff of_nat_numeral of_nat_power)
    then show ?thesis by (simp add: clamp64_def)
  qed
  ultimately show ?thesis
    using digit_not_sign [OF c] by (simp add: strtol10_def)
qed

lemma cstr_fmt_u_append: "cstr (fmt_u n @ b) = fmt_u n @ cstr b"
  unfolding cstr_def
  by (subst takeWhile_append2) (use fmt_u_digits digit_not_special in blast)+

lemma atol_digits:
  assumes "n < 2 ^ 63" and "b = [] \<or> \<not> isdigit (hd b)" and "set sp \<subseteq> {CHR '' ''}"
  shows "atol (sp @ fmt_u n @ b) = int n"
proof -
  have "cstr (sp @ fmt_u n @ b) = sp @ fmt_u n @ cstr b"
    using assms(3) cstr_fmt_u_append [of n b] unfolding cstr_def
    by (subst takeWhile_append2) auto
  moreover have "cstr b = [] \<or> \<not> isdigit (hd (cstr b))"
    using assms(2) by (cases b) (auto simp: cstr_def)
  moreover have "\<forall>c \<in> set sp. isspace c"
    using assms(3) by (auto simp: isspace_def)
  ultimately show ?thesis
    using assms(1) by (simp add: atol_def strtol10_fmt_u)
qed

lemma atol_fmt_d:
  "n < 2 ^ 63 \<Longrightarrow> b = [] \<or> \<not> isdigit (hd b) \<Longrightarrow> atol (fmt_d (int n) @ b) = int n"
  using atol_digits [of n b "[]"] by (simp add: fmt_d_def)

lemma atol_fmt_wd:
  assumes "n < 2 ^ 63" and "b = [] \<or> \<not> isdigit (hd b)"
  shows "atol (fmt_wd w (int n) @ b) = int n"
proof -
  have "set (replicate (w - length (fmt_u n)) (CHR '' '')) \<subseteq> {CHR '' ''}"
    by auto
  from atol_digits [OF assms this] show ?thesis
    by (simp add: fmt_wd_def pad_left_def fmt_d_def)
qed

lemma signed_take_bit_31_id: "0 \<le> i \<Longrightarrow> i < 2 ^ 31 \<Longrightarrow> signed_take_bit 31 i = (i::int)"
  by (intro signed_take_bit_int_eq_self) auto

lemma atoi_fmt_wd:
  assumes "n < 2 ^ 31" and "b = [] \<or> \<not> isdigit (hd b)"
  shows "atoi (fmt_wd w (int n) @ b) = int n"
proof -
  have "n < 2 ^ 63" using assms(1) by (rule less_le_trans) simp
  then have "atol (fmt_wd w (int n) @ b) = int n" using assms(2) by (rule atol_fmt_wd)
  moreover have "int n < 2 ^ 31" using assms(1) by (metis of_nat_less_iff of_nat_numeral of_nat_power)
  ultimately show ?thesis by (simp add: atoi_def signed_take_bit_31_id)
qed

end
