(* ===== verification/Posix_Kernel.thy ===== *)
theory Posix_Kernel
  imports C_Library
begin

section \<open>The part of POSIX a process of the repository sees\<close>

text \<open>
  Record \<open>kern\<close> is the environment of one process: directory entries and file contents, open
  descriptors, the record locks this process holds and those other processes hold, \<open>errno\<close>, the
  text written to standard error, and a schedule of failures. The components extend this record
  with their own variables, so the calls below apply to their states as they are.

  Every call goes through \<open>syscall\<close>, which consults the schedule \<open>k_faults\<close>: an entry \<open>Some e\<close> makes
  the call fail with \<open>errno = e\<close>, an entry \<open>None\<close> lets it go ahead, and once the schedule is used up
  calls fail only for the reasons POSIX gives (a closed descriptor, a negative offset, an access
  mode, a missing file). With \<open>fault_safe\<close> a routine is shown to either end the process or behave as
  if no call had failed.

  Descriptors follow the lowest-free rule up to the limit \<open>k_maxfd\<close>; files are inodes, so a file
  stays readable through a descriptor after \<open>unlink\<close>; record locks are per byte, as \<open>fcntl\<close> has them.
\<close>

subsection \<open>Error numbers\<close>

abbreviation ENOENT :: int where "ENOENT \<equiv> 2"
abbreviation EINTR :: int where "EINTR \<equiv> 4"
abbreviation EIO :: int where "EIO \<equiv> 5"
abbreviation EBADF :: int where "EBADF \<equiv> 9"
abbreviation EAGAIN :: int where "EAGAIN \<equiv> 11"
abbreviation ENOMEM :: int where "ENOMEM \<equiv> 12"
abbreviation EINVAL :: int where "EINVAL \<equiv> 22"
abbreviation EMFILE :: int where "EMFILE \<equiv> 24"
abbreviation ETIME :: int where "ETIME \<equiv> 62"

subsection \<open>The environment of a process\<close>

datatype oflag = O_WRONLY | O_RDWR | O_CREAT | O_TRUNC

datatype whence = SEEK_SET | SEEK_CUR | SEEK_END

datatype lktype = F_RDLCK | F_WRLCK | F_UNLCK

datatype lkcmd = F_SETLK | F_SETLKW

record ofd =
  of_ino :: nat
  of_pos :: nat
  of_flags :: "oflag set"

record flock =
  l_type :: lktype
  l_start :: int
  l_whence :: whence
  l_len :: int

text \<open>A lock of another process: its owner, the inode, and the bytes from \<open>ol_from\<close> up to \<open>ol_to\<close> (\<open>None\<close>: all).\<close>

record olock =
  ol_pid :: int
  ol_ino :: nat
  ol_type :: lktype
  ol_from :: nat
  ol_to :: "nat option"

record kern =
  k_dir :: "string \<Rightarrow> nat option"
  k_data :: "nat \<Rightarrow> bytes"
  k_nino :: nat
  k_ofd :: "int \<Rightarrow> ofd option"
  k_maxfd :: nat
  k_lock :: "nat \<Rightarrow> nat \<Rightarrow> lktype"
  k_olocks :: "olock list"
  k_faults :: "int option list"
  k_errno :: int
  k_strerror :: "int \<Rightarrow> string"
  k_stderr :: string

subsection \<open>Calls that may fail\<close>

definition syscall :: "'r \<Rightarrow> ('z kern_scheme, 'r) prog \<Rightarrow> ('z kern_scheme, 'r) prog" where
  "syscall bad m = (\<lambda>s. case k_faults s of
      [] \<Rightarrow> m s
    | None # fs \<Rightarrow> m (s\<lparr>k_faults := fs\<rparr>)
    | Some e # fs \<Rightarrow> Ok bad (s\<lparr>k_faults := fs, k_errno := e\<rparr>))"

definition fail :: "int \<Rightarrow> 'r \<Rightarrow> ('z kern_scheme, 'r) prog" where
  "fail e r = (\<lambda>s. Ok r (s\<lparr>k_errno := e\<rparr>))"

definition readable :: "ofd \<Rightarrow> bool" where
  "readable d \<longleftrightarrow> O_WRONLY \<notin> of_flags d"

definition writable :: "ofd \<Rightarrow> bool" where
  "writable d \<longleftrightarrow> O_WRONLY \<in> of_flags d \<or> O_RDWR \<in> of_flags d"

subsection \<open>open, close, lseek, read, write\<close>

definition free_fd :: "'z kern_scheme \<Rightarrow> int option" where
  "free_fd s = map_option int (find (\<lambda>i. k_ofd s (int i) = None) [0..<k_maxfd s])"

definition sys_open :: "string \<Rightarrow> oflag set \<Rightarrow> ('z kern_scheme, int) prog" where
  "sys_open name flags = syscall (-1) (\<lambda>s.
     case free_fd s of
       None \<Rightarrow> fail EMFILE (-1) s
     | Some fd \<Rightarrow>
         (case k_dir s name of
            Some ino \<Rightarrow>
              Ok fd (s\<lparr>k_data := (if O_TRUNC \<in> flags then (k_data s)(ino := []) else k_data s),
                      k_ofd := (k_ofd s)(fd \<mapsto> \<lparr>of_ino = ino, of_pos = 0, of_flags = flags\<rparr>)\<rparr>)
          | None \<Rightarrow>
              if O_CREAT \<in> flags then
                Ok fd (s\<lparr>k_dir := (k_dir s)(name \<mapsto> k_nino s),
                        k_data := (k_data s)(k_nino s := []),
                        k_nino := Suc (k_nino s),
                        k_ofd := (k_ofd s)(fd \<mapsto> \<lparr>of_ino = k_nino s, of_pos = 0, of_flags = flags\<rparr>)\<rparr>)
              else fail ENOENT (-1) s))"

text \<open>Closing any descriptor of a file drops every record lock this process holds on the file.\<close>

definition sys_close :: "int \<Rightarrow> ('z kern_scheme, int) prog" where
  "sys_close fd = syscall (-1) (\<lambda>s.
     case k_ofd s fd of
       None \<Rightarrow> fail EBADF (-1) s
     | Some d \<Rightarrow> Ok 0 (s\<lparr>k_ofd := (k_ofd s)(fd := None),
                          k_lock := (k_lock s)(of_ino d := (\<lambda>_. F_UNLCK))\<rparr>))"

definition seek_base :: "'z kern_scheme \<Rightarrow> ofd \<Rightarrow> whence \<Rightarrow> int" where
  "seek_base s d w = (case w of
      SEEK_SET \<Rightarrow> 0
    | SEEK_CUR \<Rightarrow> int (of_pos d)
    | SEEK_END \<Rightarrow> int (length (k_data s (of_ino d))))"

definition sys_lseek :: "int \<Rightarrow> int \<Rightarrow> whence \<Rightarrow> ('z kern_scheme, int) prog" where
  "sys_lseek fd off w = syscall (-1) (\<lambda>s.
     case k_ofd s fd of
       None \<Rightarrow> fail EBADF (-1) s
     | Some d \<Rightarrow>
         (let p = seek_base s d w + off in
          if p < 0 then fail EINVAL (-1) s
          else Ok p (s\<lparr>k_ofd := (k_ofd s)(fd \<mapsto> d\<lparr>of_pos := nat p\<rparr>)\<rparr>)))"

text \<open>\<open>read\<close> gives the count it returns and the bytes it stored; \<open>readv\<close> fills its buffers in turn.\<close>

definition sys_read :: "int \<Rightarrow> nat \<Rightarrow> ('z kern_scheme, int \<times> bytes) prog" where
  "sys_read fd n = syscall (-1, []) (\<lambda>s.
     case k_ofd s fd of
       None \<Rightarrow> fail EBADF (-1, []) s
     | Some d \<Rightarrow>
         if \<not> readable d then fail EBADF (-1, []) s
         else let bs = get_at (k_data s (of_ino d)) (of_pos d) n in
              Ok (int (length bs), bs)
                 (s\<lparr>k_ofd := (k_ofd s)(fd \<mapsto> d\<lparr>of_pos := of_pos d + length bs\<rparr>)\<rparr>))"

definition sys_readv2 :: "int \<Rightarrow> nat \<Rightarrow> nat \<Rightarrow> ('z kern_scheme, int \<times> bytes \<times> bytes) prog" where
  "sys_readv2 fd n1 n2 =
     bnd (sys_read fd (n1 + n2)) (\<lambda>(i, bs). ret (i, take n1 bs, drop n1 bs))"

definition sys_write :: "int \<Rightarrow> bytes \<Rightarrow> ('z kern_scheme, int) prog" where
  "sys_write fd bs = syscall (-1) (\<lambda>s.
     case k_ofd s fd of
       None \<Rightarrow> fail EBADF (-1) s
     | Some d \<Rightarrow>
         if \<not> writable d then fail EBADF (-1) s
         else Ok (int (length bs))
                (s\<lparr>k_data := (k_data s)(of_ino d := put_at (k_data s (of_ino d)) (of_pos d) bs),
                   k_ofd := (k_ofd s)(fd \<mapsto> d\<lparr>of_pos := of_pos d + length bs\<rparr>)\<rparr>))"

definition sys_writev :: "int \<Rightarrow> bytes list \<Rightarrow> ('z kern_scheme, int) prog" where
  "sys_writev fd iov = sys_write fd (concat iov)"

text \<open>\<open>fstat\<close>, of which only the size is used.\<close>

definition sys_fstat_size :: "int \<Rightarrow> ('z kern_scheme, int) prog" where
  "sys_fstat_size fd = syscall (-1) (\<lambda>s.
     case k_ofd s fd of
       None \<Rightarrow> fail EBADF (-1) s
     | Some d \<Rightarrow> Ok (int (length (k_data s (of_ino d)))) s)"

definition sys_unlink :: "string \<Rightarrow> ('z kern_scheme, int) prog" where
  "sys_unlink name = syscall (-1) (\<lambda>s.
     case k_dir s name of
       None \<Rightarrow> fail ENOENT (-1) s
     | Some _ \<Rightarrow> Ok 0 (s\<lparr>k_dir := (k_dir s)(name := None)\<rparr>))"

subsection \<open>Record locks\<close>

text \<open>The bytes a lock request names: first byte and the byte after the last (\<open>None\<close>: no end).\<close>

definition lock_range :: "'z kern_scheme \<Rightarrow> ofd \<Rightarrow> flock \<Rightarrow> int \<times> int option" where
  "lock_range s d l =
     (let st = seek_base s d (l_whence l) + l_start l in
      if l_len l = 0 then (st, None)
      else if 0 < l_len l then (st, Some (st + l_len l))
      else (st + l_len l, Some st))"

definition in_range :: "int \<times> int option \<Rightarrow> nat \<Rightarrow> bool" where
  "in_range r b \<longleftrightarrow> fst r \<le> int b \<and> (case snd r of None \<Rightarrow> True | Some e \<Rightarrow> int b < e)"

definition set_range :: "int \<times> int option \<Rightarrow> lktype \<Rightarrow> (nat \<Rightarrow> lktype) \<Rightarrow> nat \<Rightarrow> lktype" where
  "set_range r ty f = (\<lambda>b. if in_range r b then ty else f b)"

definition range_meets :: "int \<times> int option \<Rightarrow> olock \<Rightarrow> bool" where
  "range_meets r o' \<longleftrightarrow>
     (case snd r of None \<Rightarrow> True | Some e \<Rightarrow> int (ol_from o') < e) \<and>
     (case ol_to o' of None \<Rightarrow> True | Some t \<Rightarrow> fst r < int t)"

definition conflicts :: "nat \<Rightarrow> lktype \<Rightarrow> int \<times> int option \<Rightarrow> olock \<Rightarrow> bool" where
  "conflicts ino ty r o' \<longleftrightarrow>
     ol_ino o' = ino \<and> (ty = F_WRLCK \<or> ol_type o' = F_WRLCK) \<and> range_meets r o'"

definition sys_fcntl_lock :: "int \<Rightarrow> lkcmd \<Rightarrow> flock \<Rightarrow> ('z kern_scheme, int) prog" where
  "sys_fcntl_lock fd cmd l = syscall (-1) (\<lambda>s.
     case k_ofd s fd of
       None \<Rightarrow> fail EBADF (-1) s
     | Some d \<Rightarrow>
         let r = lock_range s d l; ino = of_ino d;
             done = Ok 0 (s\<lparr>k_lock := (k_lock s)(ino := set_range r (l_type l) (k_lock s ino))\<rparr>) in
         if fst r < 0 then fail EINVAL (-1) s
         else if l_type l = F_UNLCK then done
         else if l_type l = F_RDLCK \<and> \<not> readable d \<or> l_type l = F_WRLCK \<and> \<not> writable d
           then fail EBADF (-1) s
         else if list_ex (conflicts ino (l_type l) r) (k_olocks s)
           then (if cmd = F_SETLKW then Hang else fail EAGAIN (-1) s)
         else done)"

text \<open>\<open>F_GETLK\<close>: the lock of another process that would stand in the way, if there is one.\<close>

definition sys_fcntl_getlk :: "int \<Rightarrow> flock \<Rightarrow> ('z kern_scheme, int \<times> olock option) prog" where
  "sys_fcntl_getlk fd l = syscall (-1, None) (\<lambda>s.
     case k_ofd s fd of
       None \<Rightarrow> fail EBADF (-1, None) s
     | Some d \<Rightarrow>
         if fst (lock_range s d l) < 0 then fail EINVAL (-1, None) s
         else Ok (0, find (conflicts (of_ino d) (l_type l) (lock_range s d l)) (k_olocks s)) s)"

subsection \<open>Calls without failures\<close>

lemma syscall_no_faults [simp]: "k_faults s = [] \<Longrightarrow> syscall bad m s = m s"
  by (simp add: syscall_def)

lemma fail_run [simp]: "fail e r s = Ok r (s\<lparr>k_errno := e\<rparr>)"
  by (simp add: fail_def)

lemma free_fd_Some:
  assumes "free_fd s = Some fd"
  shows "0 \<le> fd \<and> k_ofd s fd = None"
  using assms by (auto simp: free_fd_def find_Some_iff)

lemma free_fd_ex:
  assumes "\<exists>i < k_maxfd s. k_ofd s (int i) = None"
  obtains fd where "free_fd s = Some fd"
  using assms by (cases "find (\<lambda>i. k_ofd s (int i) = None) [0..<k_maxfd s]")
    (auto simp: free_fd_def find_None_iff)

lemma in_range_singleton [simp]: "in_range (p, Some (p + 1)) b \<longleftrightarrow> int b = p"
  by (auto simp: in_range_def)

subsection \<open>Routines that absorb every failure by ending the process\<close>

definition no_faults :: "'z kern_scheme \<Rightarrow> 'z kern_scheme" where
  "no_faults s = s\<lparr>k_faults := []\<rparr>"

definition fault_safe :: "('z kern_scheme, 'a) prog \<Rightarrow> bool" where
  "fault_safe m \<longleftrightarrow> (\<forall>s x t. m s = Ok x t \<longrightarrow> m (no_faults s) = Ok x (no_faults t))"

named_theorems fault_safe_intros \<open>routines that are fault safe\<close>
named_theorems fault_call_intros \<open>calls whose failure the caller turns into the end of the process\<close>

lemma fault_safeD: "fault_safe m \<Longrightarrow> m s = Ok x t \<Longrightarrow> m (no_faults s) = Ok x (no_faults t)"
  by (simp add: fault_safe_def)

lemma fault_safe_ret [fault_safe_intros]: "fault_safe (ret x)"
  by (simp add: fault_safe_def)

lemma fault_safe_halt [fault_safe_intros]: "fault_safe (halt r)"
  by (simp add: fault_safe_def)

lemma fault_safe_hang [fault_safe_intros]: "fault_safe hang"
  by (simp add: fault_safe_def)

lemma fault_safe_gets [fault_safe_intros]:
  "(\<And>s. f (no_faults s) = f s) \<Longrightarrow> fault_safe (gets f)"
  by (simp add: fault_safe_def)

lemma fault_safe_modify [fault_safe_intros]:
  "(\<And>s. f (no_faults s) = no_faults (f s)) \<Longrightarrow> fault_safe (modify f)"
  by (simp add: fault_safe_def)

lemma fault_safe_bnd [fault_safe_intros]:
  assumes "fault_safe m" and "\<And>x. fault_safe (f x)"
  shows "fault_safe (bnd m f)"
  unfolding fault_safe_def
proof (intro allI impI)
  fix s y u
  assume "bnd m f s = Ok y u"
  then obtain x t where m: "m s = Ok x t" and f: "f x t = Ok y u"
    by (rule bnd_OkE)
  from assms(1) m have "m (no_faults s) = Ok x (no_faults t)" by (rule fault_safeD)
  moreover from assms(2) f have "f x (no_faults t) = Ok y (no_faults u)" by (rule fault_safeD)
  ultimately show "bnd m f (no_faults s) = Ok y (no_faults u)"
    by (simp add: bnd_Ok)
qed

lemma fault_safe_if [fault_safe_intros]:
  "(b \<Longrightarrow> fault_safe m) \<Longrightarrow> (\<not> b \<Longrightarrow> fault_safe n) \<Longrightarrow> fault_safe (if b then m else n)"
  by simp

text \<open>A call whose failure value makes the caller end the process.\<close>

lemma fault_safe_syscall:
  assumes m: "fault_safe m" and f: "\<And>x. fault_safe (f x)"
    and bad: "\<And>t y u. f bad t \<noteq> Ok y u"
  shows "fault_safe (bnd (syscall bad m) f)"
  unfolding fault_safe_def
proof (intro allI impI)
  fix s y u
  assume run: "bnd (syscall bad m) f s = Ok y u"
  then obtain x t where sc: "syscall bad m s = Ok x t" and fx: "f x t = Ok y u"
    by (rule bnd_OkE)
  from sc fx bad obtain s' where s': "m s' = Ok x t" and same: "no_faults s' = no_faults s"
    by (auto simp: syscall_def no_faults_def split: list.splits option.splits)
  from m s' have "m (no_faults s) = Ok x (no_faults t)"
    unfolding same [symmetric] by (rule fault_safeD)
  moreover from f fx have "f x (no_faults t) = Ok y (no_faults u)" by (rule fault_safeD)
  ultimately show "bnd (syscall bad m) f (no_faults s) = Ok y (no_faults u)"
    by (simp add: bnd_Ok no_faults_def)
qed

lemma free_fd_no_faults [simp]: "free_fd (no_faults s) = free_fd s"
  by (simp add: free_fd_def no_faults_def)

lemma seek_base_no_faults [simp]: "seek_base (no_faults s) d w = seek_base s d w"
  by (cases w) (simp_all add: seek_base_def no_faults_def)

lemma lock_range_no_faults [simp]: "lock_range (no_faults s) d l = lock_range s d l"
  by (simp add: lock_range_def)

lemma no_faults_upd:
  "no_faults (s\<lparr>k_lock := x1\<rparr>) = (no_faults s)\<lparr>k_lock := x1\<rparr>"
  "no_faults (s\<lparr>k_errno := x2\<rparr>) = (no_faults s)\<lparr>k_errno := x2\<rparr>"
  "no_faults (s\<lparr>k_ofd := x3\<rparr>) = (no_faults s)\<lparr>k_ofd := x3\<rparr>"
  "no_faults (s\<lparr>k_data := x4\<rparr>) = (no_faults s)\<lparr>k_data := x4\<rparr>"
  by (simp_all add: no_faults_def)

lemma no_faults_sel [simp]:
  "k_faults (no_faults s) = []" "k_dir (no_faults s) = k_dir s" "k_data (no_faults s) = k_data s"
  "k_ofd (no_faults s) = k_ofd s" "k_lock (no_faults s) = k_lock s" "k_errno (no_faults s) = k_errno s"
  "k_olocks (no_faults s) = k_olocks s" "k_nino (no_faults s) = k_nino s"
  "k_maxfd (no_faults s) = k_maxfd s" "k_strerror (no_faults s) = k_strerror s"
  "k_stderr (no_faults s) = k_stderr s"
  by (simp_all add: no_faults_def)

lemma fault_safe_lseek [fault_call_intros]:
  assumes "\<And>x. fault_safe (f x)" and "\<And>t y u. f (-1) t \<noteq> Ok y u"
  shows "fault_safe (bnd (sys_lseek fd off w) f)"
  unfolding sys_lseek_def using _ assms
  by (rule fault_safe_syscall)
    (auto simp: fault_safe_def no_faults_upd Let_def split: option.splits if_splits)

lemma fault_safe_read [fault_call_intros]:
  assumes "\<And>x. fault_safe (f x)" and "\<And>t y u. f (-1, []) t \<noteq> Ok y u"
  shows "fault_safe (bnd (sys_read fd n) f)"
  unfolding sys_read_def using _ assms
  by (rule fault_safe_syscall)
    (auto simp: fault_safe_def no_faults_def Let_def split: option.splits if_splits)

lemma fault_safe_readv2 [fault_call_intros]:
  assumes "\<And>x. fault_safe (f x)" and "\<And>t y u. f (-1, [], []) t \<noteq> Ok y u"
  shows "fault_safe (bnd (sys_readv2 fd n1 n2) f)"
  unfolding sys_readv2_def bnd_assoc
  by (rule fault_safe_read) (use assms in \<open>auto split: prod.split\<close>)

lemma fault_safe_write [fault_call_intros]:
  assumes "\<And>x. fault_safe (f x)" and "\<And>t y u. f (-1) t \<noteq> Ok y u"
  shows "fault_safe (bnd (sys_write fd bs) f)"
  unfolding sys_write_def using _ assms
  by (rule fault_safe_syscall)
    (auto simp: fault_safe_def no_faults_def Let_def split: option.splits if_splits)

lemma fault_safe_writev [fault_call_intros]:
  assumes "\<And>x. fault_safe (f x)" and "\<And>t y u. f (-1) t \<noteq> Ok y u"
  shows "fault_safe (bnd (sys_writev fd iov) f)"
  unfolding sys_writev_def using assms by (rule fault_safe_write)

lemma fault_safe_fcntl_lock [fault_call_intros]:
  assumes "\<And>x. fault_safe (f x)" and "\<And>t y u. f (-1) t \<noteq> Ok y u"
  shows "fault_safe (bnd (sys_fcntl_lock fd cmd l) f)"
  unfolding sys_fcntl_lock_def using _ assms
  by (rule fault_safe_syscall)
    (auto simp: fault_safe_def no_faults_upd Let_def split: option.splits if_splits)

end
