(* ===== verification/Apue_Base.thy ===== *)
theory Apue_Base
  imports Posix_Kernel
begin

section \<open>Error routines and record locking: \<open>lib/error.c\<close>, \<open>lib/lockreg.c\<close>, \<open>lib/locktest.c\<close>\<close>

text \<open>
  The err family formats a message into a buffer of \<open>MAXLINE\<close> bytes, appends the text for the
  error number when asked to, and prints it; the fatal ones then end the process. A message is
  given here as its caller's arguments format it, the step \<open>vsnprintf\<close> does. The lock macros of
  \<open>apue.h\<close> are calls of \<open>lock_reg\<close>, which fills in a \<open>struct flock\<close> for \<open>fcntl\<close>.
\<close>

definition MAXLINE :: nat where
  "MAXLINE = 4096"

text \<open>What \<open>err_doit\<close> leaves in \<open>buf\<close>: \<open>vsnprintf\<close> and \<open>snprintf\<close> store one byte less than their size argument.\<close>

definition err_line :: "bool \<Rightarrow> string \<Rightarrow> string \<Rightarrow> string" where
  "err_line errnoflag errtext msg =
     (let b1 = take (MAXLINE - 1 - 1) msg;
          b2 = (if errnoflag
                then b1 @ take (MAXLINE - length b1 - 1 - 1) ('': '' @ errtext)
                else b1)
      in b2 @ [CHR 0x0A])"

definition err_doit :: "bool \<Rightarrow> int \<Rightarrow> string \<Rightarrow> ('z kern_scheme, unit) prog" where
  "err_doit errnoflag error msg =
     modify (\<lambda>s. s\<lparr>k_stderr := k_stderr s @ err_line errnoflag (k_strerror s error) msg\<rparr>)"

definition err_ret :: "string \<Rightarrow> ('z kern_scheme, unit) prog" where
  "err_ret msg = bnd (gets k_errno) (\<lambda>e. err_doit True e msg)"

definition err_sys :: "string \<Rightarrow> ('z kern_scheme, 'a) prog" where
  "err_sys msg = bnd (gets k_errno) (\<lambda>e. bnd (err_doit True e msg) (\<lambda>_. halt (Err_sys msg)))"

definition err_cont :: "int \<Rightarrow> string \<Rightarrow> ('z kern_scheme, unit) prog" where
  "err_cont error msg = err_doit True error msg"

definition err_exit :: "int \<Rightarrow> string \<Rightarrow> ('z kern_scheme, 'a) prog" where
  "err_exit error msg = bnd (err_doit True error msg) (\<lambda>_. halt (Err_exit msg))"

definition err_dump :: "string \<Rightarrow> ('z kern_scheme, 'a) prog" where
  "err_dump msg = bnd (gets k_errno) (\<lambda>e. bnd (err_doit True e msg) (\<lambda>_. halt (Err_dump msg)))"

definition err_msg :: "string \<Rightarrow> ('z kern_scheme, unit) prog" where
  "err_msg msg = err_doit False 0 msg"

definition err_quit :: "string \<Rightarrow> ('z kern_scheme, 'a) prog" where
  "err_quit msg = bnd (err_doit False 0 msg) (\<lambda>_. halt (Err_quit msg))"

definition lock_reg :: "int \<Rightarrow> lkcmd \<Rightarrow> lktype \<Rightarrow> int \<Rightarrow> whence \<Rightarrow> int \<Rightarrow> ('z kern_scheme, int) prog" where
  "lock_reg fd cmd type offset whence len =
     sys_fcntl_lock fd cmd \<lparr>l_type = type, l_start = offset, l_whence = whence, l_len = len\<rparr>"

definition read_lock :: "int \<Rightarrow> int \<Rightarrow> whence \<Rightarrow> int \<Rightarrow> ('z kern_scheme, int) prog" where
  "read_lock fd offset whence len = lock_reg fd F_SETLK F_RDLCK offset whence len"

definition readw_lock :: "int \<Rightarrow> int \<Rightarrow> whence \<Rightarrow> int \<Rightarrow> ('z kern_scheme, int) prog" where
  "readw_lock fd offset whence len = lock_reg fd F_SETLKW F_RDLCK offset whence len"

definition write_lock :: "int \<Rightarrow> int \<Rightarrow> whence \<Rightarrow> int \<Rightarrow> ('z kern_scheme, int) prog" where
  "write_lock fd offset whence len = lock_reg fd F_SETLK F_WRLCK offset whence len"

definition writew_lock :: "int \<Rightarrow> int \<Rightarrow> whence \<Rightarrow> int \<Rightarrow> ('z kern_scheme, int) prog" where
  "writew_lock fd offset whence len = lock_reg fd F_SETLKW F_WRLCK offset whence len"

definition un_lock :: "int \<Rightarrow> int \<Rightarrow> whence \<Rightarrow> int \<Rightarrow> ('z kern_scheme, int) prog" where
  "un_lock fd offset whence len = lock_reg fd F_SETLK F_UNLCK offset whence len"

definition lock_test :: "int \<Rightarrow> lktype \<Rightarrow> int \<Rightarrow> whence \<Rightarrow> int \<Rightarrow> ('z kern_scheme, int) prog" where
  "lock_test fd type offset whence len =
     bnd (sys_fcntl_getlk fd \<lparr>l_type = type, l_start = offset, l_whence = whence, l_len = len\<rparr>)
       (\<lambda>(r, l). if r < 0 then err_sys ''fcntl error''
                 else case l of
                        None \<Rightarrow> ret 0
                      | Some other \<Rightarrow> ret (ol_pid other))"

subsection \<open>Properties\<close>

lemma err_dump_run [simp]:
  "err_dump msg s = Abort (Err_dump msg)
     (s\<lparr>k_stderr := k_stderr s @ err_line True (k_strerror s (k_errno s)) msg\<rparr>)"
  by (simp add: err_dump_def err_doit_def)

lemma err_sys_run [simp]:
  "err_sys msg s = Abort (Err_sys msg)
     (s\<lparr>k_stderr := k_stderr s @ err_line True (k_strerror s (k_errno s)) msg\<rparr>)"
  by (simp add: err_sys_def err_doit_def)

lemma err_quit_run [simp]:
  "err_quit msg s = Abort (Err_quit msg)
     (s\<lparr>k_stderr := k_stderr s @ err_line False (k_strerror s 0) msg\<rparr>)"
  by (simp add: err_quit_def err_doit_def)

lemma fault_safe_err [fault_safe_intros]:
  "fault_safe (err_dump msg)" "fault_safe (err_sys msg)" "fault_safe (err_quit msg)"
  by (simp_all add: fault_safe_def)

lemma fault_safe_lock_reg [fault_call_intros]:
  assumes "\<And>x. fault_safe (f x)" and "\<And>t y u. f (-1) t \<noteq> Ok y u"
  shows "fault_safe (bnd (lock_reg fd cmd ty off w len) f)"
  unfolding lock_reg_def using assms by (rule fault_safe_fcntl_lock)

lemmas lock_macros = read_lock_def readw_lock_def write_lock_def writew_lock_def un_lock_def

text \<open>A lock request on an open descriptor, with no failure and no lock of another process on the file.\<close>

lemma lock_reg_ok:
  assumes "k_faults s = []" and "k_ofd s fd = Some d" and "0 \<le> off" and "0 \<le> len"
    and "\<And>o'. o' \<in> set (k_olocks s) \<Longrightarrow> ol_ino o' \<noteq> of_ino d"
    and "ty = F_RDLCK \<Longrightarrow> readable d" and "ty = F_WRLCK \<Longrightarrow> writable d"
  shows "lock_reg fd cmd ty off SEEK_SET len s =
    Ok 0 (s\<lparr>k_lock := (k_lock s)(of_ino d :=
       set_range (off, if len = 0 then None else Some (off + len)) ty (k_lock s (of_ino d)))\<rparr>)"
proof -
  have "\<not> list_ex (conflicts (of_ino d) ty r) (k_olocks s)" for r
    using assms(5) by (auto simp: list_ex_iff conflicts_def)
  then show ?thesis
    using assms by (cases ty)
      (auto simp: lock_reg_def sys_fcntl_lock_def Let_def lock_range_def seek_base_def)
qed

lemma un_lock_ok:
  assumes "k_faults s = []" and "k_ofd s fd = Some d" and "0 \<le> off" and "0 \<le> len"
  shows "un_lock fd off SEEK_SET len s =
    Ok 0 (s\<lparr>k_lock := (k_lock s)(of_ino d :=
       set_range (off, if len = 0 then None else Some (off + len)) F_UNLCK (k_lock s (of_ino d)))\<rparr>)"
  using assms by (auto simp: un_lock_def lock_reg_def sys_fcntl_lock_def Let_def lock_range_def seek_base_def)

text \<open>Locking a region this process holds no lock on, and unlocking it again, changes nothing.\<close>

lemma set_range_undo:
  assumes "\<And>b. in_range r b \<Longrightarrow> f b = F_UNLCK"
  shows "set_range r F_UNLCK (set_range r ty f) = f"
  using assms by (auto simp: set_range_def fun_eq_iff)

end
