(* ===== verification/Db_Model.thy ===== *)
theory Db_Model
  imports Apue_Base
begin

section \<open>The database library: \<open>db/db.c\<close>\<close>

text \<open>
  A database is an index file and a data file. Record \<open>DB\<close> is \<open>struct DB\<close> of the source on top of
  the environment of the process; each function of \<open>db.c\<close> is a routine on it, with the same checks
  and calls in the same order. \<open>size_t\<close> fields are integers reduced modulo \<open>2 ^ 64\<close>; the statistics
  counters are 64-bit words. \<open>idxbuf\<close> and \<open>datbuf\<close> are the bytes stored in the two buffers so far,
  null bytes included, and \<open>cstr\<close> reads the string at their front.

  The loops along a hash chain and along the free list take as fuel one more than the length of the
  index file. Each pass reads a record inside the file and the next offset depends on the file
  only, so a loop that uses up its fuel has met an offset twice and never ends: \<open>Hang\<close>.
\<close>

subsection \<open>Constants and the DB structure\<close>

definition IDXLEN_SZ :: nat where "IDXLEN_SZ = 4"
definition SEP :: char where "SEP = CHR '':''"
definition SPACE :: char where "SPACE = CHR '' ''"
definition NEWLINE :: char where "NEWLINE = CHR 0x0A"
definition PTR_SZ :: nat where "PTR_SZ = 7"
definition PTR_MAX :: int where "PTR_MAX = 9999999"
definition NHASH_DEF :: nat where "NHASH_DEF = 137"
definition FREE_OFF :: int where "FREE_OFF = 0"
definition HASH_OFF :: int where "HASH_OFF = int PTR_SZ"

definition DB_INSERT :: int where "DB_INSERT = 1"
definition DB_REPLACE :: int where "DB_REPLACE = 2"
definition DB_STORE :: int where "DB_STORE = 3"
definition IDXLEN_MIN :: int where "IDXLEN_MIN = 6"
definition IDXLEN_MAX :: int where "IDXLEN_MAX = 1024"
definition DATLEN_MIN :: int where "DATLEN_MIN = 2"
definition DATLEN_MAX :: int where "DATLEN_MAX = 1024"

record DB = kern +
  idxfd :: int
  datfd :: int
  idxbuf :: bytes
  datbuf :: bytes
  db_name :: string
  idxoff :: int
  idxlen :: int
  datoff :: int
  datlen :: int
  ptrval :: int
  ptroff :: int
  chainoff :: int
  hashoff :: int
  nhash :: nat
  cnt_delok :: "64 word"
  cnt_delerr :: "64 word"
  cnt_fetchok :: "64 word"
  cnt_fetcherr :: "64 word"
  cnt_nextrec :: "64 word"
  cnt_stor1 :: "64 word"
  cnt_stor2 :: "64 word"
  cnt_stor3 :: "64 word"
  cnt_stor4 :: "64 word"
  cnt_storerr :: "64 word"

definition size_t :: "int \<Rightarrow> int" where
  "size_t i = i mod 2 ^ 64"

definition sys_malloc :: "('z kern_scheme, bool) prog" where
  "sys_malloc = syscall False (ret True)"

subsection \<open>Allocating and freeing a handle\<close>

definition db_alloc :: "nat \<Rightarrow> (DB, bool) prog" where
  "db_alloc namelen =
     bnd sys_malloc (\<lambda>p. if \<not> p then err_dump ''_db_alloc: calloc error for DB'' else
     bnd (modify (\<lambda>s. s\<lparr>idxbuf := [], datbuf := [], db_name := [], idxoff := 0, idxlen := 0,
            datoff := 0, datlen := 0, ptrval := 0, ptroff := 0, chainoff := 0, hashoff := 0, nhash := 0,
            cnt_delok := 0, cnt_delerr := 0, cnt_fetchok := 0, cnt_fetcherr := 0, cnt_nextrec := 0,
            cnt_stor1 := 0, cnt_stor2 := 0, cnt_stor3 := 0, cnt_stor4 := 0, cnt_storerr := 0\<rparr>)) (\<lambda>_.
     bnd (modify (\<lambda>s. s\<lparr>idxfd := -1, datfd := -1\<rparr>)) (\<lambda>_.
     bnd sys_malloc (\<lambda>p. if \<not> p then err_dump ''_db_alloc: malloc error for name'' else
     bnd sys_malloc (\<lambda>p. if \<not> p then err_dump ''_db_alloc: malloc error for index buffer'' else
     bnd sys_malloc (\<lambda>p. if \<not> p then err_dump ''_db_alloc: malloc error for data buffer'' else
     ret True))))))"

definition db_free :: "(DB, unit) prog" where
  "db_free =
     bnd (gets idxfd) (\<lambda>fi.
     bnd (if 0 \<le> fi then sys_close fi else ret 0) (\<lambda>_.
     bnd (gets datfd) (\<lambda>fd.
     bnd (if 0 \<le> fd then sys_close fd else ret 0) (\<lambda>_.
     modify (\<lambda>s. s\<lparr>idxbuf := [], datbuf := [], db_name := []\<rparr>)))))"

definition db_close :: "(DB, unit) prog" where
  "db_close = db_free"

subsection \<open>Pointers and records in the index file\<close>

definition db_readptr :: "int \<Rightarrow> (DB, int) prog" where
  "db_readptr offset =
     bnd (gets idxfd) (\<lambda>fd.
     bnd (sys_lseek fd offset SEEK_SET) (\<lambda>r.
     if r = -1 then err_dump ''_db_readptr: lseek error to ptr field'' else
     bnd (sys_read fd PTR_SZ) (\<lambda>(n, asciiptr).
     if n \<noteq> int PTR_SZ then err_dump ''_db_readptr: read error of ptr field'' else
     ret (atol (asciiptr @ [NUL])))))"

text \<open>
  \<open>_db_readidx\<close>, in the source's two halves: reading the record (\<open>db_readidx\<close>) and taking the
  index record apart at its separators (\<open>db_parseidx\<close>).
\<close>

definition db_parseidx :: "(DB, int) prog" where
  "db_parseidx =
     bnd (gets idxbuf) (\<lambda>buf1.
     case strchr buf1 SEP of
       None \<Rightarrow> err_dump ''_db_readidx: missing first separator''
     | Some p \<Rightarrow>
         let buf2 = buf1[p := NUL]; ptr1 = Suc p in
         (case strchr (drop ptr1 buf2) SEP of
            None \<Rightarrow> err_dump ''_db_readidx: missing second separator''
          | Some q \<Rightarrow>
              let buf3 = buf2[ptr1 + q := NUL]; ptr2 = Suc (ptr1 + q) in
              if strchr (drop ptr2 buf3) SEP \<noteq> None
                then err_dump ''_db_readidx: too many separators'' else
              bnd (modify (\<lambda>s. s\<lparr>idxbuf := buf3, datoff := atol (drop ptr1 buf3)\<rparr>)) (\<lambda>_.
              if atol (drop ptr1 buf3) < 0 then err_dump ''_db_readidx: starting offset < 0'' else
              bnd (modify (\<lambda>s. s\<lparr>datlen := size_t (atol (drop ptr2 buf3))\<rparr>)) (\<lambda>_.
              if size_t (atol (drop ptr2 buf3)) \<le> 0 \<or> DATLEN_MAX < size_t (atol (drop ptr2 buf3))
                then err_dump ''_db_readidx: invalid length'' else
              gets ptrval))))"

definition db_readidx :: "int \<Rightarrow> (DB, int) prog" where
  "db_readidx offset =
     bnd (gets idxfd) (\<lambda>fd.
     bnd (sys_lseek fd offset (if offset = 0 then SEEK_CUR else SEEK_SET)) (\<lambda>r.
     bnd (modify (\<lambda>s. s\<lparr>idxoff := r\<rparr>)) (\<lambda>_.
     if r = -1 then err_dump ''_db_readidx: lseek error'' else
     bnd (sys_readv2 fd PTR_SZ IDXLEN_SZ) (\<lambda>(i, asciiptr, asciilen).
     if i \<noteq> int (PTR_SZ + IDXLEN_SZ) then
       (if i = 0 \<and> offset = 0 then ret (-1)
        else err_dump ''_db_readidx: readv error of index record'') else
     let len = size_t (atoi (asciilen @ [NUL])) in
     bnd (modify (\<lambda>s. s\<lparr>ptrval := atol (asciiptr @ [NUL]), idxlen := len\<rparr>)) (\<lambda>_.
     if len < IDXLEN_MIN \<or> IDXLEN_MAX < len then err_dump ''_db_readidx: invalid length'' else
     bnd (sys_read fd (nat len)) (\<lambda>(n, rec).
     bnd (modify (\<lambda>s. s\<lparr>idxbuf := put_at (idxbuf s) 0 rec\<rparr>)) (\<lambda>_.
     if n \<noteq> len then err_dump ''_db_readidx: read error of index record'' else
     bnd (gets idxbuf) (\<lambda>buf0.
     if buf0 ! nat (len - 1) \<noteq> NEWLINE then err_dump ''_db_readidx: missing newline'' else
     bnd (modify (\<lambda>s. s\<lparr>idxbuf := buf0[nat (len - 1) := NUL]\<rparr>)) (\<lambda>_.
     db_parseidx)))))))))"

definition db_readdat :: "(DB, string) prog" where
  "db_readdat =
     bnd (gets datfd) (\<lambda>fd.
     bnd (gets datoff) (\<lambda>off.
     bnd (gets datlen) (\<lambda>len.
     bnd (sys_lseek fd off SEEK_SET) (\<lambda>r.
     if r = -1 then err_dump ''_db_readdat: lseek error'' else
     bnd (sys_read fd (nat len)) (\<lambda>(n, dat).
     bnd (modify (\<lambda>s. s\<lparr>datbuf := put_at (datbuf s) 0 dat\<rparr>)) (\<lambda>_.
     if n \<noteq> size_t len then err_dump ''_db_readdat: read error'' else
     bnd (gets datbuf) (\<lambda>buf.
     if buf ! nat (len - 1) \<noteq> NEWLINE then err_dump ''_db_readdat: missing newline'' else
     bnd (modify (\<lambda>s. s\<lparr>datbuf := buf[nat (len - 1) := NUL]\<rparr>)) (\<lambda>_.
     gets (\<lambda>s. cstr (datbuf s))))))))))"

definition db_writeptr :: "int \<Rightarrow> int \<Rightarrow> (DB, unit) prog" where
  "db_writeptr offset ptr =
     (if ptr < 0 \<or> PTR_MAX < ptr then err_quit (''_db_writeptr: invalid ptr: '' @ fmt_d ptr) else
     bnd (gets idxfd) (\<lambda>fd.
     bnd (sys_lseek fd offset SEEK_SET) (\<lambda>r.
     if r = -1 then err_dump ''_db_writeptr: lseek error to ptr field'' else
     bnd (sys_write fd (fmt_wd PTR_SZ ptr)) (\<lambda>n.
     if n \<noteq> int PTR_SZ then err_dump ''_db_writeptr: write error of ptr field'' else
     ret ()))))"

definition db_writedat :: "string \<Rightarrow> int \<Rightarrow> whence \<Rightarrow> (DB, unit) prog" where
  "db_writedat data offset whence =
     bnd (gets datfd) (\<lambda>fd.
     bnd (if whence = SEEK_END then writew_lock fd 0 SEEK_SET 0 else ret 0) (\<lambda>r.
     if r < 0 then err_dump ''_db_writedat: writew_lock error'' else
     bnd (sys_lseek fd offset whence) (\<lambda>r.
     bnd (modify (\<lambda>s. s\<lparr>datoff := r\<rparr>)) (\<lambda>_.
     if r = -1 then err_dump ''_db_writedat: lseek error'' else
     bnd (modify (\<lambda>s. s\<lparr>datlen := int (length data) + 1\<rparr>)) (\<lambda>_.
     bnd (sys_writev fd [data, [NEWLINE]]) (\<lambda>n.
     if n \<noteq> int (length data) + 1 then err_dump ''_db_writedat: writev error of data record'' else
     bnd (if whence = SEEK_END then un_lock fd 0 SEEK_SET 0 else ret 0) (\<lambda>r.
     if r < 0 then err_dump ''_db_writedat: un_lock error'' else
     ret ())))))))"

text \<open>
  \<open>sprintf\<close> stores the record and a null byte in \<open>idxbuf\<close>, which has \<open>IDXLEN_MAX + 2\<close> bytes; only then
  is the length checked. A record that does not fit is undefined behaviour.
\<close>

definition db_writeidx :: "string \<Rightarrow> int \<Rightarrow> whence \<Rightarrow> int \<Rightarrow> (DB, unit) prog" where
  "db_writeidx key offset whence ptr =
     bnd (modify (\<lambda>s. s\<lparr>ptrval := ptr\<rparr>)) (\<lambda>_.
     if ptr < 0 \<or> PTR_MAX < ptr then err_quit (''_db_writeidx: invalid ptr: '' @ fmt_d ptr) else
     bnd (gets (\<lambda>s. key @ [SEP] @ fmt_d (datoff s) @ [SEP] @ fmt_d (datlen s) @ [NEWLINE])) (\<lambda>rec.
     if IDXLEN_MAX + 2 < int (length rec) + 1 then halt (Undefined ''_db_writeidx: idxbuf overflow'') else
     bnd (modify (\<lambda>s. s\<lparr>idxbuf := put_at (idxbuf s) 0 (rec @ [NUL])\<rparr>)) (\<lambda>_.
     let len = int (length rec) in
     if len < IDXLEN_MIN \<or> IDXLEN_MAX < len then err_dump ''_db_writeidx: invalid length'' else
     bnd (gets idxfd) (\<lambda>fd.
     bnd (gets (\<lambda>s. int ((nhash s + 1) * PTR_SZ + 1))) (\<lambda>recs.
     bnd (if whence = SEEK_END then writew_lock fd recs SEEK_SET 0 else ret 0) (\<lambda>r.
     if r < 0 then err_dump ''_db_writeidx: writew_lock error'' else
     bnd (sys_lseek fd offset whence) (\<lambda>r.
     bnd (modify (\<lambda>s. s\<lparr>idxoff := r\<rparr>)) (\<lambda>_.
     if r = -1 then err_dump ''_db_writeidx: lseek error'' else
     bnd (sys_writev fd [fmt_wd PTR_SZ ptr @ fmt_wd IDXLEN_SZ len, rec]) (\<lambda>n.
     if n \<noteq> int PTR_SZ + int IDXLEN_SZ + len then err_dump ''_db_writeidx: writev error of index record'' else
     bnd (if whence = SEEK_END then un_lock fd recs SEEK_SET 0 else ret 0) (\<lambda>r.
     if r < 0 then err_dump ''_db_writeidx: un_lock error'' else
     ret ()))))))))))"

subsection \<open>Finding a record\<close>

text \<open>A \<open>char\<close> is signed, its product with the position is added to an unsigned long.\<close>

definition schar :: "char \<Rightarrow> int" where
  "schar c = (if 128 \<le> (of_char c :: nat) then int (of_char c) - 256 else int (of_char c))"

fun db_hash_from :: "nat \<Rightarrow> string \<Rightarrow> 64 word \<Rightarrow> 64 word" where
  "db_hash_from i [] hval = hval"
| "db_hash_from i (c # cs) hval = db_hash_from (Suc i) cs (hval + word_of_int (schar c * int i))"

definition db_hash :: "nat \<Rightarrow> string \<Rightarrow> nat" where
  "db_hash n key = unat (db_hash_from 1 key 0) mod n"

definition idx_fuel :: "DB \<Rightarrow> nat" where
  "idx_fuel s = (case k_ofd s (idxfd s) of None \<Rightarrow> 1 | Some d \<Rightarrow> Suc (length (k_data s (of_ino d))))"

fun db_find_loop :: "nat \<Rightarrow> string \<Rightarrow> int \<Rightarrow> (DB, int) prog" where
  "db_find_loop 0 key offset = (if offset = 0 then ret 0 else hang)"
| "db_find_loop (Suc fuel) key offset =
     (if offset = 0 then ret 0 else
      bnd (db_readidx offset) (\<lambda>nextoffset.
      bnd (gets (\<lambda>s. cstr (idxbuf s))) (\<lambda>k.
      if k = key then ret offset else
      bnd (modify (\<lambda>s. s\<lparr>ptroff := offset\<rparr>)) (\<lambda>_.
      db_find_loop fuel key nextoffset))))"

definition db_find_and_lock :: "string \<Rightarrow> bool \<Rightarrow> (DB, int) prog" where
  "db_find_and_lock key writelock =
     bnd (modify (\<lambda>s. s\<lparr>chainoff := int (db_hash (nhash s) key * PTR_SZ) + hashoff s\<rparr>)) (\<lambda>_.
     bnd (modify (\<lambda>s. s\<lparr>ptroff := chainoff s\<rparr>)) (\<lambda>_.
     bnd (gets idxfd) (\<lambda>fd.
     bnd (gets chainoff) (\<lambda>off.
     bnd (if writelock then writew_lock fd off SEEK_SET 1 else readw_lock fd off SEEK_SET 1) (\<lambda>r.
     if r < 0 then err_dump (if writelock then ''_db_find_and_lock: writew_lock error''
                             else ''_db_find_and_lock: readw_lock error'') else
     bnd (gets ptroff) (\<lambda>p.
     bnd (db_readptr p) (\<lambda>offset.
     bnd (gets idx_fuel) (\<lambda>fuel.
     bnd (db_find_loop fuel key offset) (\<lambda>offset.
     ret (if offset = 0 then -1 else 0))))))))))"

definition unlock_chain :: "string \<Rightarrow> (DB, unit) prog" where
  "unlock_chain who =
     bnd (gets idxfd) (\<lambda>fd.
     bnd (gets chainoff) (\<lambda>off.
     bnd (un_lock fd off SEEK_SET 1) (\<lambda>r.
     if r < 0 then err_dump (who @ '': un_lock error'') else ret ())))"

subsection \<open>Fetching, deleting and storing\<close>

definition db_fetch :: "string \<Rightarrow> (DB, string option) prog" where
  "db_fetch key =
     bnd (db_find_and_lock key False) (\<lambda>r.
     bnd (if r < 0 then
            bnd (modify (\<lambda>s. s\<lparr>cnt_fetcherr := cnt_fetcherr s + 1\<rparr>)) (\<lambda>_. ret None)
          else
            bnd db_readdat (\<lambda>dat.
            bnd (modify (\<lambda>s. s\<lparr>cnt_fetchok := cnt_fetchok s + 1\<rparr>)) (\<lambda>_. ret (Some dat)))) (\<lambda>ptr.
     bnd (unlock_chain ''db_fetch'') (\<lambda>_.
     ret ptr)))"

definition db_dodelete :: "(DB, unit) prog" where
  "db_dodelete =
     bnd (modify (\<lambda>s. s\<lparr>datbuf := put_at (datbuf s) 0 (replicate (nat (datlen s - 1)) SPACE @ [NUL])\<rparr>)) (\<lambda>_.
     bnd (modify (\<lambda>s. s\<lparr>idxbuf := put_at (idxbuf s) 0 (replicate (length (cstr (idxbuf s))) SPACE)\<rparr>)) (\<lambda>_.
     bnd (gets idxfd) (\<lambda>fd.
     bnd (writew_lock fd FREE_OFF SEEK_SET 1) (\<lambda>r.
     if r < 0 then err_dump ''_db_dodelete: writew_lock error'' else
     bnd (gets (\<lambda>s. cstr (datbuf s))) (\<lambda>dat.
     bnd (gets datoff) (\<lambda>off.
     bnd (db_writedat dat off SEEK_SET) (\<lambda>_.
     bnd (db_readptr FREE_OFF) (\<lambda>freeptr.
     bnd (gets ptrval) (\<lambda>saveptr.
     bnd (gets (\<lambda>s. cstr (idxbuf s))) (\<lambda>key.
     bnd (gets idxoff) (\<lambda>off.
     bnd (db_writeidx key off SEEK_SET freeptr) (\<lambda>_.
     bnd (gets idxoff) (\<lambda>off.
     bnd (db_writeptr FREE_OFF off) (\<lambda>_.
     bnd (gets ptroff) (\<lambda>prev.
     bnd (db_writeptr prev saveptr) (\<lambda>_.
     bnd (un_lock fd FREE_OFF SEEK_SET 1) (\<lambda>r.
     if r < 0 then err_dump ''_db_dodelete: un_lock error'' else
     ret ())))))))))))))))))"

definition db_delete :: "string \<Rightarrow> (DB, int) prog" where
  "db_delete key =
     bnd (db_find_and_lock key True) (\<lambda>r.
     bnd (if r = 0 then
            bnd db_dodelete (\<lambda>_.
            bnd (modify (\<lambda>s. s\<lparr>cnt_delok := cnt_delok s + 1\<rparr>)) (\<lambda>_. ret 0))
          else
            bnd (modify (\<lambda>s. s\<lparr>cnt_delerr := cnt_delerr s + 1\<rparr>)) (\<lambda>_. ret (-1))) (\<lambda>rc.
     bnd (unlock_chain ''db_delete'') (\<lambda>_.
     ret rc)))"

text \<open>The loop of \<open>_db_findfree\<close>; it gives the record found (0 for none) and the pointer field that leads to it.\<close>

fun db_free_loop :: "nat \<Rightarrow> nat \<Rightarrow> int \<Rightarrow> int \<Rightarrow> int \<Rightarrow> (DB, int \<times> int) prog" where
  "db_free_loop 0 keylen dlen saveoffset offset =
     (if offset = 0 then ret (0, saveoffset) else hang)"
| "db_free_loop (Suc fuel) keylen dlen saveoffset offset =
     (if offset = 0 then ret (0, saveoffset) else
      bnd (db_readidx offset) (\<lambda>nextoffset.
      bnd (gets (\<lambda>s. length (cstr (idxbuf s)) = keylen \<and> datlen s = dlen)) (\<lambda>match.
      if match then ret (offset, saveoffset) else
      db_free_loop fuel keylen dlen offset nextoffset)))"

definition db_findfree :: "nat \<Rightarrow> int \<Rightarrow> (DB, int) prog" where
  "db_findfree keylen dlen =
     bnd (gets idxfd) (\<lambda>fd.
     bnd (writew_lock fd FREE_OFF SEEK_SET 1) (\<lambda>r.
     if r < 0 then err_dump ''_db_findfree: writew_lock error'' else
     bnd (db_readptr FREE_OFF) (\<lambda>offset.
     bnd (gets idx_fuel) (\<lambda>fuel.
     bnd (db_free_loop fuel keylen dlen FREE_OFF offset) (\<lambda>(offset, saveoffset).
     bnd (if offset = 0 then ret (-1)
          else bnd (gets ptrval) (\<lambda>p. bnd (db_writeptr saveoffset p) (\<lambda>_. ret 0))) (\<lambda>rc.
     bnd (un_lock fd FREE_OFF SEEK_SET 1) (\<lambda>r.
     if r < 0 then err_dump ''_db_findfree: un_lock error'' else
     ret rc)))))))"

text \<open>Putting a record at the end of both files, and at the front of its hash chain.\<close>

definition db_append :: "string \<Rightarrow> string \<Rightarrow> int \<Rightarrow> (DB, unit) prog" where
  "db_append key data ptr =
     bnd (db_writedat data 0 SEEK_END) (\<lambda>_.
     bnd (db_writeidx key 0 SEEK_END ptr) (\<lambda>_.
     bnd (gets chainoff) (\<lambda>chain.
     bnd (gets idxoff) (\<lambda>off.
     db_writeptr chain off))))"

definition db_store_new :: "string \<Rightarrow> string \<Rightarrow> (DB, unit) prog" where
  "db_store_new key data =
     bnd (gets chainoff) (\<lambda>chain.
     bnd (db_readptr chain) (\<lambda>ptr.
     bnd (db_findfree (length key) (int (length data) + 1)) (\<lambda>r.
     if r < 0 then
       bnd (db_append key data ptr) (\<lambda>_.
       modify (\<lambda>s. s\<lparr>cnt_stor1 := cnt_stor1 s + 1\<rparr>))
     else
       bnd (gets datoff) (\<lambda>doff.
       bnd (db_writedat data doff SEEK_SET) (\<lambda>_.
       bnd (gets idxoff) (\<lambda>ioff.
       bnd (db_writeidx key ioff SEEK_SET ptr) (\<lambda>_.
       bnd (gets idxoff) (\<lambda>ioff.
       bnd (db_writeptr chain ioff) (\<lambda>_.
       modify (\<lambda>s. s\<lparr>cnt_stor2 := cnt_stor2 s + 1\<rparr>)))))))))) "

definition db_store_over :: "string \<Rightarrow> string \<Rightarrow> (DB, unit) prog" where
  "db_store_over key data =
     bnd (gets datlen) (\<lambda>len.
     if int (length data) + 1 \<noteq> len then
       bnd db_dodelete (\<lambda>_.
       bnd (gets chainoff) (\<lambda>chain.
       bnd (db_readptr chain) (\<lambda>ptr.
       bnd (db_append key data ptr) (\<lambda>_.
       modify (\<lambda>s. s\<lparr>cnt_stor3 := cnt_stor3 s + 1\<rparr>)))))
     else
       bnd (gets datoff) (\<lambda>doff.
       bnd (db_writedat data doff SEEK_SET) (\<lambda>_.
       modify (\<lambda>s. s\<lparr>cnt_stor4 := cnt_stor4 s + 1\<rparr>))))"

definition db_store :: "string \<Rightarrow> string \<Rightarrow> int \<Rightarrow> (DB, int) prog" where
  "db_store key data flag =
     (if flag \<noteq> DB_INSERT \<and> flag \<noteq> DB_REPLACE \<and> flag \<noteq> DB_STORE then
        bnd (modify (\<lambda>s. s\<lparr>k_errno := EINVAL\<rparr>)) (\<lambda>_. ret (-1))
      else
      let dlen = int (length data) + 1 in
      if dlen < DATLEN_MIN \<or> DATLEN_MAX < dlen then err_dump ''db_store: invalid data length'' else
      bnd (db_find_and_lock key True) (\<lambda>r.
      bnd (if r < 0 then
             (if flag = DB_REPLACE then
                bnd (modify (\<lambda>s. s\<lparr>cnt_storerr := cnt_storerr s + 1, k_errno := ENOENT\<rparr>)) (\<lambda>_. ret (-1))
              else bnd (db_store_new key data) (\<lambda>_. ret 0))
           else
             (if flag = DB_INSERT then
                bnd (modify (\<lambda>s. s\<lparr>cnt_storerr := cnt_storerr s + 1\<rparr>)) (\<lambda>_. ret 1)
              else bnd (db_store_over key data) (\<lambda>_. ret 0))) (\<lambda>rc.
      bnd (unlock_chain ''db_store'') (\<lambda>_.
      ret rc))))"

subsection \<open>Opening, and stepping through the records\<close>

definition db_rewind :: "(DB, unit) prog" where
  "db_rewind =
     bnd (gets idxfd) (\<lambda>fd.
     bnd (gets (\<lambda>s. int ((nhash s + 1) * PTR_SZ))) (\<lambda>offset.
     bnd (sys_lseek fd (offset + 1) SEEK_SET) (\<lambda>r.
     bnd (modify (\<lambda>s. s\<lparr>idxoff := r\<rparr>)) (\<lambda>_.
     if r = -1 then err_dump ''db_rewind: lseek error'' else ret ()))))"

definition hash_init :: bytes where
  "hash_init = concat (replicate (NHASH_DEF + 1) (fmt_wd PTR_SZ 0)) @ [NEWLINE]"

definition db_init :: "(DB, unit) prog" where
  "db_init =
     bnd (gets idxfd) (\<lambda>fd.
     bnd (writew_lock fd 0 SEEK_SET 0) (\<lambda>r.
     if r < 0 then err_dump ''db_open: writew_lock error'' else
     bnd (sys_fstat_size fd) (\<lambda>size.
     if size < 0 then err_sys ''db_open: fstat error'' else
     bnd (if size = 0 then
            bnd (sys_write fd hash_init) (\<lambda>n.
            if n \<noteq> int (length hash_init) then err_dump ''db_open: index file init write error'' else ret ())
          else ret ()) (\<lambda>_.
     bnd (un_lock fd 0 SEEK_SET 0) (\<lambda>r.
     if r < 0 then err_dump ''db_open: un_lock error'' else ret ())))))"

text \<open>\<open>db_open\<close> returns whether it gives a handle; the mode argument only matters to the file system's permissions.\<close>

definition db_open :: "string \<Rightarrow> oflag set \<Rightarrow> (DB, bool) prog" where
  "db_open pathname oflag =
     bnd (db_alloc (length pathname)) (\<lambda>p.
     if \<not> p then err_dump ''db_open: _db_alloc error for DB'' else
     bnd (modify (\<lambda>s. s\<lparr>nhash := NHASH_DEF, hashoff := HASH_OFF, db_name := pathname @ ''.idx''\<rparr>)) (\<lambda>_.
     bnd (gets db_name) (\<lambda>n.
     bnd (sys_open n oflag) (\<lambda>fd.
     bnd (modify (\<lambda>s. s\<lparr>idxfd := fd, db_name := take (length pathname) (db_name s) @ ''.dat''\<rparr>)) (\<lambda>_.
     bnd (gets db_name) (\<lambda>n.
     bnd (sys_open n oflag) (\<lambda>fd.
     bnd (modify (\<lambda>s. s\<lparr>datfd := fd\<rparr>)) (\<lambda>_.
     bnd (gets (\<lambda>s. idxfd s < 0 \<or> datfd s < 0)) (\<lambda>bad.
     if bad then bnd db_free (\<lambda>_. ret False) else
     bnd (if {O_CREAT, O_TRUNC} \<subseteq> oflag then db_init else ret ()) (\<lambda>_.
     bnd db_rewind (\<lambda>_.
     ret True)))))))))))"

text \<open>The loop of \<open>db_nextrec\<close> reads on while the key is all blank: true at the end of file.\<close>

fun db_next_loop :: "nat \<Rightarrow> (DB, bool) prog" where
  "db_next_loop 0 = hang"
| "db_next_loop (Suc fuel) =
     bnd (db_readidx 0) (\<lambda>r.
     if r < 0 then ret True else
     bnd (gets (\<lambda>s. list_all (\<lambda>c. c = SPACE) (cstr (idxbuf s)))) (\<lambda>blank.
     if blank then db_next_loop fuel else ret False))"

definition db_nextrec :: "(DB, (string \<times> string) option) prog" where
  "db_nextrec =
     bnd (gets idxfd) (\<lambda>fd.
     bnd (readw_lock fd FREE_OFF SEEK_SET 1) (\<lambda>r.
     if r < 0 then err_dump ''db_nextrec: readw_lock error'' else
     bnd (gets idx_fuel) (\<lambda>fuel.
     bnd (db_next_loop fuel) (\<lambda>eof.
     bnd (if eof then ret None else
            bnd (gets (\<lambda>s. cstr (idxbuf s))) (\<lambda>key.
            bnd db_readdat (\<lambda>dat.
            bnd (modify (\<lambda>s. s\<lparr>cnt_nextrec := cnt_nextrec s + 1\<rparr>)) (\<lambda>_.
            ret (Some (key, dat)))))) (\<lambda>ptr.
     bnd (un_lock fd FREE_OFF SEEK_SET 1) (\<lambda>r.
     if r < 0 then err_dump ''db_nextrec: un_lock error'' else
     ret ptr))))))"

end
