(* ===== verification/Db_Format.thy ===== *)
theory Db_Format
  imports Db_Model
begin

section \<open>The layout of the index file\<close>

text \<open>
  The index file is a table of 138 pointer fields (the free list and 137 hash chains), a newline, and
  the index records one after the other. \<open>idx_bytes\<close> prints a table of pointers and a list of
  records in that layout; \<open>rheap\<close> gives the record at an offset, and \<open>cell\<close> the contents of the
  pointer field at an offset, whether it is an entry of the table or the front of a record. The lemmas
  say how reading and overwriting the bytes of a field or a record act on this view. They are the
  only place of the development where bytes of the index file are counted.
\<close>

lemmas db_consts = PTR_SZ_def IDXLEN_SZ_def NHASH_DEF_def FREE_OFF_def HASH_OFF_def PTR_MAX_def
  IDXLEN_MIN_def IDXLEN_MAX_def DATLEN_MIN_def DATLEN_MAX_def

record irec =
  ir_ptr :: nat
  ir_key :: string
  ir_doff :: nat
  ir_dlen :: nat

definition irec_body :: "irec \<Rightarrow> bytes" where
  "irec_body r = ir_key r @ [SEP] @ fmt_d (int (ir_doff r)) @ [SEP] @ fmt_d (int (ir_dlen r)) @ [NEWLINE]"

definition irec_bytes :: "irec \<Rightarrow> bytes" where
  "irec_bytes r = fmt_wd PTR_SZ (int (ir_ptr r)) @ fmt_wd IDXLEN_SZ (int (length (irec_body r))) @ irec_body r"

definition ptr_ok :: "nat \<Rightarrow> bool" where
  "ptr_ok p \<longleftrightarrow> int p \<le> PTR_MAX"

definition irec_ok :: "irec \<Rightarrow> bool" where
  "irec_ok r \<longleftrightarrow> ptr_ok (ir_ptr r) \<and> SEP \<notin> set (ir_key r) \<and> NUL \<notin> set (ir_key r) \<and>
     IDXLEN_MIN \<le> int (length (irec_body r)) \<and> int (length (irec_body r)) \<le> IDXLEN_MAX \<and>
     0 < ir_dlen r \<and> int (ir_dlen r) \<le> DATLEN_MAX \<and> ir_doff r < 2 ^ 63"

definition rlen :: "irec \<Rightarrow> nat" where
  "rlen r = PTR_SZ + IDXLEN_SZ + length (irec_body r)"

definition ntab :: nat where
  "ntab = NHASH_DEF + 1"

definition rec_base :: nat where
  "rec_base = ntab * PTR_SZ + 1"

definition tab_bytes :: "nat list \<Rightarrow> bytes" where
  "tab_bytes ps = concat (map (\<lambda>p. fmt_wd PTR_SZ (int p)) ps)"

definition recs_bytes :: "irec list \<Rightarrow> bytes" where
  "recs_bytes rs = concat (map irec_bytes rs)"

definition idx_bytes :: "nat list \<Rightarrow> irec list \<Rightarrow> bytes" where
  "idx_bytes ps rs = tab_bytes ps @ [NEWLINE] @ recs_bytes rs"

definition tab_ok :: "nat list \<Rightarrow> bool" where
  "tab_ok ps \<longleftrightarrow> length ps = ntab \<and> (\<forall>p \<in> set ps. ptr_ok p)"

definition recs_ok :: "irec list \<Rightarrow> bool" where
  "recs_ok rs \<longleftrightarrow> (\<forall>r \<in> set rs. irec_ok r)"

subsection \<open>Records by offset\<close>

fun placed :: "nat \<Rightarrow> irec list \<Rightarrow> (nat \<times> irec) list" where
  "placed b [] = []"
| "placed b (r # rs) = (b, r) # placed (b + rlen r) rs"

definition tlen :: "irec list \<Rightarrow> nat" where
  "tlen rs = sum_list (map rlen rs)"

definition rheap :: "irec list \<Rightarrow> nat \<Rightarrow> irec option" where
  "rheap rs = map_of (placed rec_base rs)"

definition cell :: "nat list \<Rightarrow> irec list \<Rightarrow> nat \<Rightarrow> nat" where
  "cell ps rs p = (if p < ntab * PTR_SZ \<and> PTR_SZ dvd p then ps ! (p div PTR_SZ)
                   else case rheap rs p of Some r \<Rightarrow> ir_ptr r | None \<Rightarrow> 0)"

text \<open>The offsets at which there is a pointer field.\<close>

definition is_cell :: "irec list \<Rightarrow> nat \<Rightarrow> bool" where
  "is_cell rs p \<longleftrightarrow> (\<exists>j < ntab. p = j * PTR_SZ) \<or> rheap rs p \<noteq> None"

lemma rlen_pos [simp]: "0 < rlen r"
  by (simp add: rlen_def db_consts)

lemma tlen_simps [simp]: "tlen [] = 0" "tlen (r # rs) = rlen r + tlen rs" "tlen (xs @ ys) = tlen xs + tlen ys"
  by (simp_all add: tlen_def)

lemma placed_append: "placed b (xs @ ys) = placed b xs @ placed (b + tlen xs) ys"
  by (induction xs arbitrary: b) (simp_all add: add.assoc)

lemma placed_bounds: "(p, r) \<in> set (placed b rs) \<Longrightarrow> b \<le> p \<and> p + rlen r \<le> b + tlen rs \<and> r \<in> set rs"
  by (induction rs arbitrary: b) fastforce+

lemma placed_offs_bounds: "p \<in> fst ` set (placed b rs) \<Longrightarrow> b \<le> p \<and> p < b + tlen rs"
proof -
  assume "p \<in> fst ` set (placed b rs)"
  then obtain r where "(p, r) \<in> set (placed b rs)" by auto
  from placed_bounds [OF this] rlen_pos [of r] show ?thesis by linarith
qed

lemma placed_distinct: "distinct (map fst (placed b rs))"
proof (induction rs arbitrary: b)
  case (Cons r rs)
  have "b \<notin> set (map fst (placed (b + rlen r) rs))"
    using placed_offs_bounds [of b "b + rlen r" rs] rlen_pos [of r] by auto
  with Cons show ?case by simp
qed simp

lemma placed_split:
  "map_of (placed b rs) p = Some r \<Longrightarrow> \<exists>xs ys. rs = xs @ r # ys \<and> p = b + tlen xs"
proof (induction rs arbitrary: b)
  case (Cons a rs)
  show ?case
  proof (cases "p = b")
    case True
    with Cons.prems show ?thesis by (intro exI [of _ "[]"] exI [of _ rs]) simp
  next
    case False
    with Cons.prems have "map_of (placed (b + rlen a) rs) p = Some r" by (simp split: if_splits)
    from Cons.IH [OF this] obtain xs ys where "rs = xs @ r # ys" "p = b + rlen a + tlen xs"
      by blast
    then show ?thesis by (intro exI [of _ "a # xs"] exI [of _ ys]) simp
  qed
qed simp

lemma rheap_split:
  assumes "rheap rs p = Some r"
  obtains xs ys where "rs = xs @ r # ys" and "p = rec_base + tlen xs"
  using placed_split [of rec_base rs p r] assms unfolding rheap_def by blast

lemma rheap_bounds: "rheap rs p = Some r \<Longrightarrow> rec_base \<le> p \<and> p + rlen r \<le> rec_base + tlen rs \<and> r \<in> set rs"
  unfolding rheap_def by (drule map_of_SomeD) (rule placed_bounds)

lemma rheap_disjoint:
  assumes "rheap rs p = Some r" and "rheap rs q = Some u" and "p < q"
  shows "p + rlen r \<le> q"
proof -
  from assms(1) obtain xs ys where rs: "rs = xs @ r # ys" and p: "p = rec_base + tlen xs"
    by (rule rheap_split)
  have "(q, u) \<in> set (placed rec_base rs)"
    using assms(2) by (simp add: rheap_def map_of_SomeD)
  then consider "(q, u) \<in> set (placed rec_base xs)" | "q = p" | "(q, u) \<in> set (placed (p + rlen r) ys)"
    by (auto simp: rs placed_append p)
  then show ?thesis
  proof cases
    case 1
    then have "q < p"
      using placed_bounds [OF 1] rlen_pos [of u] p by linarith
    with assms(3) show ?thesis by simp
  next
    case 2
    with assms(3) show ?thesis by simp
  next
    case 3
    from placed_bounds [OF this] show ?thesis by simp
  qed
qed

lemma rheap_append: "rheap (rs @ [r]) = (rheap rs)(rec_base + tlen rs \<mapsto> r)"
proof -
  have "rec_base + tlen rs \<notin> fst ` set (placed rec_base rs)"
    using placed_offs_bounds [of "rec_base + tlen rs" rec_base rs] by auto
  then have "map_of (placed rec_base rs) (rec_base + tlen rs) = None"
    by (simp add: map_of_eq_None_iff)
  then show ?thesis
    by (auto simp: rheap_def placed_append fun_eq_iff map_add_def split: option.splits)
qed

lemma rheap_replace:
  assumes rs: "rs = xs @ r # ys" and p: "p = rec_base + tlen xs" and len: "rlen r' = rlen r"
  shows "rheap (xs @ r' # ys) = (rheap rs)(p \<mapsto> r')"
proof -
  have "p \<notin> fst ` set (placed rec_base xs)"
    using placed_offs_bounds [of p rec_base xs] p by auto
  then have none: "map_of (placed rec_base xs) p = None"
    by (simp add: map_of_eq_None_iff)
  have "p \<notin> fst ` set (placed (p + rlen r) ys)"
    using placed_offs_bounds [of p "p + rlen r" ys] rlen_pos [of r] by auto
  then have none': "map_of (placed (p + rlen r) ys) p = None"
    by (simp add: map_of_eq_None_iff)
  show ?thesis
    unfolding rheap_def rs placed_append
    using none none' p len by (auto simp: fun_eq_iff map_add_def split: option.splits)
qed

subsection \<open>Lengths\<close>

lemma length_fmt_ptr: "ptr_ok p \<Longrightarrow> length (fmt_wd PTR_SZ (int p)) = PTR_SZ"
  by (rule length_fmt_wd_nat) (simp_all add: ptr_ok_def db_consts)

lemma length_fmt_len: "irec_ok r \<Longrightarrow> length (fmt_wd IDXLEN_SZ (int (length (irec_body r)))) = IDXLEN_SZ"
  by (rule length_fmt_wd_nat) (auto simp: irec_ok_def db_consts)

lemma length_irec_bytes: "irec_ok r \<Longrightarrow> length (irec_bytes r) = rlen r"
  by (simp add: irec_bytes_def rlen_def length_fmt_len length_fmt_ptr irec_ok_def [of r])

lemma length_tab_bytes: "\<forall>p \<in> set ps. ptr_ok p \<Longrightarrow> length (tab_bytes ps) = length ps * PTR_SZ"
  by (induction ps) (simp_all add: tab_bytes_def length_fmt_ptr)

lemma length_recs_bytes: "recs_ok rs \<Longrightarrow> length (recs_bytes rs) = tlen rs"
  by (induction rs) (simp_all add: recs_bytes_def recs_ok_def length_irec_bytes)

lemma length_idx_bytes: "tab_ok ps \<Longrightarrow> recs_ok rs \<Longrightarrow> length (idx_bytes ps rs) = rec_base + tlen rs"
  by (simp add: idx_bytes_def length_recs_bytes length_tab_bytes tab_ok_def rec_base_def)

lemma length_le_tlen: "length rs \<le> tlen rs"
proof (induction rs)
  case (Cons r rs)
  then show ?case using rlen_pos [of r] by (simp only: tlen_simps length_Cons)
qed simp

subsection \<open>Reading a pointer field and a record\<close>

lemma idx_bytes_at_tab:
  assumes "tab_ok ps" and "j < ntab"
  obtains a b where "idx_bytes ps rs = a @ fmt_wd PTR_SZ (int (ps ! j)) @ b" and "length a = j * PTR_SZ"
    and "\<forall>p'. idx_bytes (ps[j := p']) rs = a @ fmt_wd PTR_SZ (int p') @ b"
proof -
  have j: "j < length ps" using assms by (simp add: tab_ok_def)
  let ?a = "tab_bytes (take j ps)" and ?b = "tab_bytes (drop (Suc j) ps) @ [NEWLINE] @ recs_bytes rs"
  have split: "tab_bytes (ps[j := p']) = ?a @ fmt_wd PTR_SZ (int p') @ tab_bytes (drop (Suc j) ps)" for p'
    using j by (simp add: upd_conv_take_nth_drop tab_bytes_def)
  have "length ?a = j * PTR_SZ"
    using assms j by (subst length_tab_bytes) (auto simp: tab_ok_def dest: in_set_takeD)
  moreover have "idx_bytes ps rs = ?a @ fmt_wd PTR_SZ (int (ps ! j)) @ ?b"
    using split [of "ps ! j"] by (simp add: idx_bytes_def list_update_id)
  moreover have "idx_bytes (ps[j := p']) rs = ?a @ fmt_wd PTR_SZ (int p') @ ?b" for p'
    by (simp add: idx_bytes_def split)
  ultimately show ?thesis using that by blast
qed

lemma idx_bytes_at_rec:
  assumes "tab_ok ps" and "recs_ok rs" and rs: "rs = xs @ r # ys" and p: "p = rec_base + tlen xs"
  obtains a b where "length a = p" and "\<forall>r'. idx_bytes ps (xs @ r' # ys) = a @ irec_bytes r' @ b"
proof -
  have "length (tab_bytes ps @ [NEWLINE] @ recs_bytes xs) = p"
    using assms by (simp add: length_tab_bytes tab_ok_def rec_base_def length_recs_bytes recs_ok_def)
  moreover have "idx_bytes ps (xs @ r' # ys) =
      (tab_bytes ps @ [NEWLINE] @ recs_bytes xs) @ irec_bytes r' @ recs_bytes ys" for r'
    by (simp add: idx_bytes_def recs_bytes_def)
  ultimately show ?thesis using that by blast
qed

lemma rheap_ok: "recs_ok rs \<Longrightarrow> rheap rs p = Some r \<Longrightarrow> irec_ok r"
  using rheap_bounds [of rs p r] by (simp add: recs_ok_def)

lemma irec_ok_ptr: "irec_ok r \<Longrightarrow> ptr_ok (ir_ptr r)"
  by (simp add: irec_ok_def)

lemma cell_tab: "j < ntab \<Longrightarrow> cell ps rs (j * PTR_SZ) = ps ! j"
  by (simp add: cell_def PTR_SZ_def)

lemma cell_rec: "rheap rs p = Some r \<Longrightarrow> cell ps rs p = ir_ptr r"
  using rheap_bounds [of rs p r] by (simp add: cell_def rec_base_def)

text \<open>A pointer field holds the printed contents of its cell.\<close>

lemma read_cell:
  assumes "tab_ok ps" and "recs_ok rs" and "is_cell rs p"
  shows "get_at (idx_bytes ps rs) p PTR_SZ = fmt_wd PTR_SZ (int (cell ps rs p))"
    and "p + PTR_SZ \<le> length (idx_bytes ps rs)" and "ptr_ok (cell ps rs p)"
proof -
  have "get_at (idx_bytes ps rs) p PTR_SZ = fmt_wd PTR_SZ (int (cell ps rs p)) \<and>
        p + PTR_SZ \<le> length (idx_bytes ps rs) \<and> ptr_ok (cell ps rs p)"
    using assms(3) unfolding is_cell_def
  proof (elim disjE exE conjE)
    fix j assume j: "j < ntab" and p: "p = j * PTR_SZ"
    obtain a b where "idx_bytes ps rs = a @ fmt_wd PTR_SZ (int (ps ! j)) @ b" and "length a = j * PTR_SZ"
      using assms(1) j by (rule idx_bytes_at_tab)
    moreover have "ptr_ok (ps ! j)" using assms(1) j by (simp add: tab_ok_def)
    ultimately show ?thesis
      using p j by (simp add: cell_tab length_fmt_ptr get_at_append_mid)
  next
    assume "rheap rs p \<noteq> None"
    then obtain r where r: "rheap rs p = Some r" by blast
    from r obtain xs ys where rs: "rs = xs @ r # ys" and p: "p = rec_base + tlen xs"
      by (rule rheap_split)
    from assms(1,2) rs p obtain a b where a: "length a = p"
      and ab: "\<forall>r'. idx_bytes ps (xs @ r' # ys) = a @ irec_bytes r' @ b"
      by (rule idx_bytes_at_rec)
    have "ptr_ok (ir_ptr r)" using rheap_ok [OF assms(2) r] by (rule irec_ok_ptr)
    then show ?thesis
      using ab [rule_format, of r] a rs r by (simp add: cell_rec irec_bytes_def length_fmt_ptr get_at_append_mid)
  qed
  then show "get_at (idx_bytes ps rs) p PTR_SZ = fmt_wd PTR_SZ (int (cell ps rs p))"
    and "p + PTR_SZ \<le> length (idx_bytes ps rs)" and "ptr_ok (cell ps rs p)"
    by simp_all
qed

lemma read_record:
  assumes "tab_ok ps" and "recs_ok rs" and "rheap rs p = Some r"
  shows "get_at (idx_bytes ps rs) p (rlen r) = irec_bytes r"
    and "p + rlen r \<le> length (idx_bytes ps rs)"
proof -
  from assms(3) obtain xs ys where rs: "rs = xs @ r # ys" and p: "p = rec_base + tlen xs"
    by (rule rheap_split)
  from assms(1,2) rs p obtain a b where a: "length a = p"
    and ab: "\<forall>r'. idx_bytes ps (xs @ r' # ys) = a @ irec_bytes r' @ b"
    by (rule idx_bytes_at_rec)
  have "irec_ok r" using assms(2,3) by (rule rheap_ok)
  then show "get_at (idx_bytes ps rs) p (rlen r) = irec_bytes r"
    and "p + rlen r \<le> length (idx_bytes ps rs)"
    using ab [rule_format, of r] a rs by (simp_all add: length_irec_bytes get_at_append_mid)
qed

lemma get_at_get_at: "q + n \<le> m \<Longrightarrow> get_at (get_at f p m) q n = get_at f (p + q) n"
  by (simp add: get_at_def drop_take min_def add.commute)

lemma read_record_parts:
  assumes "tab_ok ps" and "recs_ok rs" and "rheap rs p = Some r"
  shows "get_at (idx_bytes ps rs) p (PTR_SZ + IDXLEN_SZ) =
      fmt_wd PTR_SZ (int (ir_ptr r)) @ fmt_wd IDXLEN_SZ (int (length (irec_body r)))"
    and "get_at (idx_bytes ps rs) (p + (PTR_SZ + IDXLEN_SZ)) (length (irec_body r)) = irec_body r"
proof -
  have r: "irec_ok r" using assms(2,3) by (rule rheap_ok)
  note len = length_fmt_ptr [OF irec_ok_ptr [OF r]] length_fmt_len [OF r]
  have "get_at (idx_bytes ps rs) p (PTR_SZ + IDXLEN_SZ) = get_at (irec_bytes r) 0 (PTR_SZ + IDXLEN_SZ)"
    unfolding read_record(1) [OF assms, symmetric] by (simp add: get_at_get_at rlen_def)
  then show "get_at (idx_bytes ps rs) p (PTR_SZ + IDXLEN_SZ) =
      fmt_wd PTR_SZ (int (ir_ptr r)) @ fmt_wd IDXLEN_SZ (int (length (irec_body r)))"
    using len by (simp add: irec_bytes_def get_at_def)
  have "get_at (idx_bytes ps rs) (p + (PTR_SZ + IDXLEN_SZ)) (length (irec_body r)) =
      get_at (irec_bytes r) (PTR_SZ + IDXLEN_SZ) (length (irec_body r))"
    unfolding read_record(1) [OF assms, symmetric] by (simp add: get_at_get_at rlen_def)
  then show "get_at (idx_bytes ps rs) (p + (PTR_SZ + IDXLEN_SZ)) (length (irec_body r)) = irec_body r"
    using len by (simp add: irec_bytes_def get_at_def)
qed

subsection \<open>Overwriting a pointer field and a record\<close>

text \<open>Everything about a record but its pointer.\<close>

definition info :: "irec list \<Rightarrow> nat \<Rightarrow> (string \<times> nat \<times> nat) option" where
  "info rs p = map_option (\<lambda>r. (ir_key r, ir_doff r, ir_dlen r)) (rheap rs p)"

lemma info_Some: "info rs p = Some (k, d, n) \<longleftrightarrow>
    (\<exists>r. rheap rs p = Some r \<and> ir_key r = k \<and> ir_doff r = d \<and> ir_dlen r = n)"
  by (auto simp: info_def)

lemma info_None: "info rs p = None \<longleftrightarrow> rheap rs p = None"
  by (simp add: info_def)

lemma rlen_ptr [simp]: "rlen (r\<lparr>ir_ptr := q\<rparr>) = rlen r" and body_ptr [simp]: "irec_body (r\<lparr>ir_ptr := q\<rparr>) = irec_body r"
  by (simp_all add: rlen_def irec_body_def)

lemma write_record:
  assumes "tab_ok ps" and "recs_ok rs" and "rheap rs p = Some r" and "irec_ok r'" and "rlen r' = rlen r"
  obtains rs' where "put_at (idx_bytes ps rs) p (irec_bytes r') = idx_bytes ps rs'" and "recs_ok rs'"
    and "rheap rs' = (rheap rs)(p \<mapsto> r')" and "tlen rs' = tlen rs"
proof -
  from assms(3) obtain xs ys where rs: "rs = xs @ r # ys" and p: "p = rec_base + tlen xs"
    by (rule rheap_split)
  from assms(1,2) rs p obtain a b where a: "length a = p"
    and ab: "\<forall>r'. idx_bytes ps (xs @ r' # ys) = a @ irec_bytes r' @ b"
    by (rule idx_bytes_at_rec)
  let ?rs = "xs @ r' # ys"
  have "irec_ok r" using assms(2,3) by (rule rheap_ok)
  then have "put_at (idx_bytes ps rs) p (irec_bytes r') = idx_bytes ps ?rs"
    using ab a rs assms(4,5) by (simp add: put_at_append_mid length_irec_bytes)
  moreover have "recs_ok ?rs" using assms(2,4) rs by (auto simp: recs_ok_def)
  moreover have "rheap ?rs = (rheap rs)(p \<mapsto> r')" using rs p assms(5) by (rule rheap_replace)
  moreover have "tlen ?rs = tlen rs" using rs assms(5) by simp
  ultimately show ?thesis by (rule that)
qed

lemma cell_upd_rec:
  "rheap rs p \<noteq> None \<Longrightarrow> rheap rs' = (rheap rs)(p \<mapsto> r') \<Longrightarrow>
    cell ps rs' = (cell ps rs)(p := ir_ptr r')"
  using rheap_bounds [of rs p] by (fastforce simp: cell_def fun_eq_iff rec_base_def)

lemma put_front:
  assumes "length a = p" and "length f' = length f"
  shows "put_at (a @ (f @ m) @ b) p f' = a @ (f' @ m) @ b"
  using assms put_at_append_mid [of p a f' f "m @ b"] by simp

lemma write_cell_tab:
  assumes ok: "tab_ok ps" and j: "j < ntab" and q: "ptr_ok q"
  shows "put_at (idx_bytes ps rs) (j * PTR_SZ) (fmt_wd PTR_SZ (int q)) = idx_bytes (ps[j := q]) rs"
    and "tab_ok (ps[j := q])" and "cell (ps[j := q]) rs = (cell ps rs)(j * PTR_SZ := q)"
proof -
  obtain a b where ab: "idx_bytes ps rs = a @ fmt_wd PTR_SZ (int (ps ! j)) @ b" and a: "length a = j * PTR_SZ"
    and upd: "\<forall>p'. idx_bytes (ps[j := p']) rs = a @ fmt_wd PTR_SZ (int p') @ b"
    using ok j by (rule idx_bytes_at_tab)
  have "ptr_ok (ps ! j)" using ok j by (simp add: tab_ok_def)
  then show "put_at (idx_bytes ps rs) (j * PTR_SZ) (fmt_wd PTR_SZ (int q)) = idx_bytes (ps[j := q]) rs"
    unfolding ab using upd q a by (simp add: put_at_append_mid length_fmt_ptr)
  show "tab_ok (ps[j := q])"
    using ok q by (auto simp: tab_ok_def dest!: set_update_subset_insert [THEN subsetD])
  show "cell (ps[j := q]) rs = (cell ps rs)(j * PTR_SZ := q)"
    using ok j by (auto simp: cell_def fun_eq_iff tab_ok_def PTR_SZ_def nth_list_update)
qed

text \<open>Overwriting a pointer field changes one cell and no record's information.\<close>

lemma write_cell:
  assumes ok: "tab_ok ps" "recs_ok rs" and p: "is_cell rs p" and q: "ptr_ok q"
  obtains ps' rs' where
    "put_at (idx_bytes ps rs) p (fmt_wd PTR_SZ (int q)) = idx_bytes ps' rs'"
    and "tab_ok ps'" and "recs_ok rs'" and "cell ps' rs' = (cell ps rs)(p := q)"
    and "info rs' = info rs" and "tlen rs' = tlen rs"
proof (cases "rheap rs p")
  case None
  with p obtain j where j: "j < ntab" and "p = j * PTR_SZ" by (auto simp: is_cell_def)
  with write_cell_tab [OF ok(1) j q] ok show ?thesis
    by (intro that [of "ps[j := q]" rs]) simp_all
next
  case (Some r)
  from Some obtain xs ys where rs: "rs = xs @ r # ys" and pos: "p = rec_base + tlen xs"
    by (rule rheap_split)
  from ok rs pos obtain a b where a: "length a = p"
    and ab: "\<forall>r'. idx_bytes ps (xs @ r' # ys) = a @ irec_bytes r' @ b"
    by (rule idx_bytes_at_rec)
  let ?r = "r\<lparr>ir_ptr := q\<rparr>"
  let ?rs = "xs @ ?r # ys"
  have r: "irec_ok r" using ok(2) Some by (rule rheap_ok)
  have heap: "rheap ?rs = (rheap rs)(p \<mapsto> ?r)" using rs pos by (rule rheap_replace) simp
  have "put_at (idx_bytes ps rs) p (fmt_wd PTR_SZ (int q)) = idx_bytes ps ?rs"
    using ab a r q unfolding rs
    by (simp add: irec_bytes_def put_front [simplified] length_fmt_ptr irec_ok_ptr)
  moreover have "recs_ok ?rs"
    using ok(2) q r rs by (auto simp: recs_ok_def irec_ok_def)
  moreover have "cell ps ?rs = (cell ps rs)(p := q)"
    using cell_upd_rec [OF _ heap] Some by simp
  moreover have "info ?rs = info rs"
    using heap Some by (auto simp: info_def fun_eq_iff)
  moreover have "tlen ?rs = tlen rs" using rs by simp
  ultimately show ?thesis using ok(1) by (intro that [of ps ?rs])
qed

lemma append_record:
  assumes "tab_ok ps" and "recs_ok rs" and "irec_ok r"
  shows "idx_bytes ps rs @ irec_bytes r = idx_bytes ps (rs @ [r])"
    and "recs_ok (rs @ [r])"
  using assms by (auto simp: idx_bytes_def recs_bytes_def recs_ok_def)

end
