(* ===== verification/Db_Ops.thy ===== *)
theory Db_Ops
  imports Db_Format
begin

section \<open>The primitives of \<open>db.c\<close> on the layout\<close>

text \<open>
  What each internal function of \<open>db.c\<close> that touches a file does, when no system call fails, in terms
  of the layout of \<open>Db_Format\<close>. \<open>dbenv i j s\<close> says that the handle is open for reading and writing on
  the inodes \<open>i\<close> (index) and \<open>j\<close> (data), and that no other process holds locks on them. Each lemma
  names the fields the function changes; that all others stay is part of the equation.
\<close>

lemma bnd_run: "bnd m f s = (case m s of Ok x t \<Rightarrow> f x t | Abort r t \<Rightarrow> Abort r t | Hang \<Rightarrow> Hang)"
  by (simp add: bnd_def)

definition fd_on :: "'z kern_scheme \<Rightarrow> int \<Rightarrow> nat \<Rightarrow> bool" where
  "fd_on s fd i \<longleftrightarrow> (\<exists>d. k_ofd s fd = Some d \<and> of_ino d = i \<and> readable d \<and> writable d)"

definition dbenv :: "nat \<Rightarrow> nat \<Rightarrow> DB \<Rightarrow> bool" where
  "dbenv i j s \<longleftrightarrow> k_faults s = [] \<and> idxfd s \<noteq> datfd s \<and> i \<noteq> j \<and>
     fd_on s (idxfd s) i \<and> fd_on s (datfd s) j \<and>
     (\<forall>o' \<in> set (k_olocks s). ol_ino o' \<noteq> i \<and> ol_ino o' \<noteq> j) \<and>
     nhash s = NHASH_DEF \<and> hashoff s = HASH_OFF"

lemma fd_onE:
  assumes "fd_on s fd i"
  obtains d where "k_ofd s fd = Some d" "of_ino d = i" "readable d" "writable d"
  using assms by (auto simp: fd_on_def)

lemma dbenv_idx:
  assumes "dbenv i j s"
  obtains d where "k_ofd s (idxfd s) = Some d" "of_ino d = i" "readable d" "writable d" "k_faults s = []"
  using assms by (auto simp: dbenv_def elim: fd_onE)

lemma dbenv_dat:
  assumes "dbenv i j s"
  obtains d where "k_ofd s (datfd s) = Some d" "of_ino d = j" "readable d" "writable d" "k_faults s = []"
  using assms by (auto simp: dbenv_def elim: fd_onE)

lemma access_pos [simp]: "readable (d\<lparr>of_pos := p\<rparr>) = readable d" "writable (d\<lparr>of_pos := p\<rparr>) = writable d"
  by (simp_all add: readable_def writable_def)

lemma dbenv_move:
  assumes "dbenv i j s" and "k_ofd s (idxfd s) = Some d"
  shows "dbenv i j (s\<lparr>k_ofd := (k_ofd s)(idxfd s \<mapsto> d\<lparr>of_pos := p\<rparr>)\<rparr>)"
  using assms by (auto simp: dbenv_def fd_on_def)

lemma dbenv_move_dat:
  assumes "dbenv i j s" and "k_ofd s (datfd s) = Some d"
  shows "dbenv i j (s\<lparr>k_ofd := (k_ofd s)(datfd s \<mapsto> d\<lparr>of_pos := p\<rparr>)\<rparr>)"
  using assms by (auto simp: dbenv_def fd_on_def)

lemma dbenv_frame [simp]:
  "dbenv i j (s\<lparr>k_data := y0\<rparr>) = dbenv i j s"
  "dbenv i j (s\<lparr>k_lock := y1\<rparr>) = dbenv i j s"
  "dbenv i j (s\<lparr>k_errno := y2\<rparr>) = dbenv i j s"
  "dbenv i j (s\<lparr>k_stderr := y3\<rparr>) = dbenv i j s"
  "dbenv i j (s\<lparr>idxbuf := y4\<rparr>) = dbenv i j s"
  "dbenv i j (s\<lparr>datbuf := y5\<rparr>) = dbenv i j s"
  "dbenv i j (s\<lparr>db_name := y6\<rparr>) = dbenv i j s"
  "dbenv i j (s\<lparr>idxoff := y7\<rparr>) = dbenv i j s"
  "dbenv i j (s\<lparr>idxlen := y8\<rparr>) = dbenv i j s"
  "dbenv i j (s\<lparr>datoff := y9\<rparr>) = dbenv i j s"
  "dbenv i j (s\<lparr>datlen := y10\<rparr>) = dbenv i j s"
  "dbenv i j (s\<lparr>ptrval := y11\<rparr>) = dbenv i j s"
  "dbenv i j (s\<lparr>ptroff := y12\<rparr>) = dbenv i j s"
  "dbenv i j (s\<lparr>chainoff := y13\<rparr>) = dbenv i j s"
  "dbenv i j (s\<lparr>cnt_delok := y14\<rparr>) = dbenv i j s"
  "dbenv i j (s\<lparr>cnt_delerr := y15\<rparr>) = dbenv i j s"
  "dbenv i j (s\<lparr>cnt_fetchok := y16\<rparr>) = dbenv i j s"
  "dbenv i j (s\<lparr>cnt_fetcherr := y17\<rparr>) = dbenv i j s"
  "dbenv i j (s\<lparr>cnt_nextrec := y18\<rparr>) = dbenv i j s"
  "dbenv i j (s\<lparr>cnt_stor1 := y19\<rparr>) = dbenv i j s"
  "dbenv i j (s\<lparr>cnt_stor2 := y20\<rparr>) = dbenv i j s"
  "dbenv i j (s\<lparr>cnt_stor3 := y21\<rparr>) = dbenv i j s"
  "dbenv i j (s\<lparr>cnt_stor4 := y22\<rparr>) = dbenv i j s"
  "dbenv i j (s\<lparr>cnt_storerr := y23\<rparr>) = dbenv i j s"
  by (simp_all add: dbenv_def fd_on_def)

text \<open>Updates of distinct fields of a handle, in one order.\<close>

lemma upd_order:
  fixes s :: DB
  shows
  "k_data_update f0 (k_ofd_update f1 s) = k_ofd_update f1 (k_data_update f0 s)"
  "k_data_update f0 (k_lock_update f2 s) = k_lock_update f2 (k_data_update f0 s)"
  "k_data_update f0 (k_errno_update f3 s) = k_errno_update f3 (k_data_update f0 s)"
  "k_data_update f0 (k_stderr_update f4 s) = k_stderr_update f4 (k_data_update f0 s)"
  "k_data_update f0 (idxbuf_update f5 s) = idxbuf_update f5 (k_data_update f0 s)"
  "k_data_update f0 (datbuf_update f6 s) = datbuf_update f6 (k_data_update f0 s)"
  "k_data_update f0 (idxoff_update f7 s) = idxoff_update f7 (k_data_update f0 s)"
  "k_data_update f0 (idxlen_update f8 s) = idxlen_update f8 (k_data_update f0 s)"
  "k_data_update f0 (datoff_update f9 s) = datoff_update f9 (k_data_update f0 s)"
  "k_data_update f0 (datlen_update f10 s) = datlen_update f10 (k_data_update f0 s)"
  "k_data_update f0 (ptrval_update f11 s) = ptrval_update f11 (k_data_update f0 s)"
  "k_data_update f0 (ptroff_update f12 s) = ptroff_update f12 (k_data_update f0 s)"
  "k_data_update f0 (chainoff_update f13 s) = chainoff_update f13 (k_data_update f0 s)"
  "k_ofd_update f1 (k_lock_update f2 s) = k_lock_update f2 (k_ofd_update f1 s)"
  "k_ofd_update f1 (k_errno_update f3 s) = k_errno_update f3 (k_ofd_update f1 s)"
  "k_ofd_update f1 (k_stderr_update f4 s) = k_stderr_update f4 (k_ofd_update f1 s)"
  "k_ofd_update f1 (idxbuf_update f5 s) = idxbuf_update f5 (k_ofd_update f1 s)"
  "k_ofd_update f1 (datbuf_update f6 s) = datbuf_update f6 (k_ofd_update f1 s)"
  "k_ofd_update f1 (idxoff_update f7 s) = idxoff_update f7 (k_ofd_update f1 s)"
  "k_ofd_update f1 (idxlen_update f8 s) = idxlen_update f8 (k_ofd_update f1 s)"
  "k_ofd_update f1 (datoff_update f9 s) = datoff_update f9 (k_ofd_update f1 s)"
  "k_ofd_update f1 (datlen_update f10 s) = datlen_update f10 (k_ofd_update f1 s)"
  "k_ofd_update f1 (ptrval_update f11 s) = ptrval_update f11 (k_ofd_update f1 s)"
  "k_ofd_update f1 (ptroff_update f12 s) = ptroff_update f12 (k_ofd_update f1 s)"
  "k_ofd_update f1 (chainoff_update f13 s) = chainoff_update f13 (k_ofd_update f1 s)"
  "k_lock_update f2 (k_errno_update f3 s) = k_errno_update f3 (k_lock_update f2 s)"
  "k_lock_update f2 (k_stderr_update f4 s) = k_stderr_update f4 (k_lock_update f2 s)"
  "k_lock_update f2 (idxbuf_update f5 s) = idxbuf_update f5 (k_lock_update f2 s)"
  "k_lock_update f2 (datbuf_update f6 s) = datbuf_update f6 (k_lock_update f2 s)"
  "k_lock_update f2 (idxoff_update f7 s) = idxoff_update f7 (k_lock_update f2 s)"
  "k_lock_update f2 (idxlen_update f8 s) = idxlen_update f8 (k_lock_update f2 s)"
  "k_lock_update f2 (datoff_update f9 s) = datoff_update f9 (k_lock_update f2 s)"
  "k_lock_update f2 (datlen_update f10 s) = datlen_update f10 (k_lock_update f2 s)"
  "k_lock_update f2 (ptrval_update f11 s) = ptrval_update f11 (k_lock_update f2 s)"
  "k_lock_update f2 (ptroff_update f12 s) = ptroff_update f12 (k_lock_update f2 s)"
  "k_lock_update f2 (chainoff_update f13 s) = chainoff_update f13 (k_lock_update f2 s)"
  "k_errno_update f3 (k_stderr_update f4 s) = k_stderr_update f4 (k_errno_update f3 s)"
  "k_errno_update f3 (idxbuf_update f5 s) = idxbuf_update f5 (k_errno_update f3 s)"
  "k_errno_update f3 (datbuf_update f6 s) = datbuf_update f6 (k_errno_update f3 s)"
  "k_errno_update f3 (idxoff_update f7 s) = idxoff_update f7 (k_errno_update f3 s)"
  "k_errno_update f3 (idxlen_update f8 s) = idxlen_update f8 (k_errno_update f3 s)"
  "k_errno_update f3 (datoff_update f9 s) = datoff_update f9 (k_errno_update f3 s)"
  "k_errno_update f3 (datlen_update f10 s) = datlen_update f10 (k_errno_update f3 s)"
  "k_errno_update f3 (ptrval_update f11 s) = ptrval_update f11 (k_errno_update f3 s)"
  "k_errno_update f3 (ptroff_update f12 s) = ptroff_update f12 (k_errno_update f3 s)"
  "k_errno_update f3 (chainoff_update f13 s) = chainoff_update f13 (k_errno_update f3 s)"
  "k_stderr_update f4 (idxbuf_update f5 s) = idxbuf_update f5 (k_stderr_update f4 s)"
  "k_stderr_update f4 (datbuf_update f6 s) = datbuf_update f6 (k_stderr_update f4 s)"
  "k_stderr_update f4 (idxoff_update f7 s) = idxoff_update f7 (k_stderr_update f4 s)"
  "k_stderr_update f4 (idxlen_update f8 s) = idxlen_update f8 (k_stderr_update f4 s)"
  "k_stderr_update f4 (datoff_update f9 s) = datoff_update f9 (k_stderr_update f4 s)"
  "k_stderr_update f4 (datlen_update f10 s) = datlen_update f10 (k_stderr_update f4 s)"
  "k_stderr_update f4 (ptrval_update f11 s) = ptrval_update f11 (k_stderr_update f4 s)"
  "k_stderr_update f4 (ptroff_update f12 s) = ptroff_update f12 (k_stderr_update f4 s)"
  "k_stderr_update f4 (chainoff_update f13 s) = chainoff_update f13 (k_stderr_update f4 s)"
  "idxbuf_update f5 (datbuf_update f6 s) = datbuf_update f6 (idxbuf_update f5 s)"
  "idxbuf_update f5 (idxoff_update f7 s) = idxoff_update f7 (idxbuf_update f5 s)"
  "idxbuf_update f5 (idxlen_update f8 s) = idxlen_update f8 (idxbuf_update f5 s)"
  "idxbuf_update f5 (datoff_update f9 s) = datoff_update f9 (idxbuf_update f5 s)"
  "idxbuf_update f5 (datlen_update f10 s) = datlen_update f10 (idxbuf_update f5 s)"
  "idxbuf_update f5 (ptrval_update f11 s) = ptrval_update f11 (idxbuf_update f5 s)"
  "idxbuf_update f5 (ptroff_update f12 s) = ptroff_update f12 (idxbuf_update f5 s)"
  "idxbuf_update f5 (chainoff_update f13 s) = chainoff_update f13 (idxbuf_update f5 s)"
  "datbuf_update f6 (idxoff_update f7 s) = idxoff_update f7 (datbuf_update f6 s)"
  "datbuf_update f6 (idxlen_update f8 s) = idxlen_update f8 (datbuf_update f6 s)"
  "datbuf_update f6 (datoff_update f9 s) = datoff_update f9 (datbuf_update f6 s)"
  "datbuf_update f6 (datlen_update f10 s) = datlen_update f10 (datbuf_update f6 s)"
  "datbuf_update f6 (ptrval_update f11 s) = ptrval_update f11 (datbuf_update f6 s)"
  "datbuf_update f6 (ptroff_update f12 s) = ptroff_update f12 (datbuf_update f6 s)"
  "datbuf_update f6 (chainoff_update f13 s) = chainoff_update f13 (datbuf_update f6 s)"
  "idxoff_update f7 (idxlen_update f8 s) = idxlen_update f8 (idxoff_update f7 s)"
  "idxoff_update f7 (datoff_update f9 s) = datoff_update f9 (idxoff_update f7 s)"
  "idxoff_update f7 (datlen_update f10 s) = datlen_update f10 (idxoff_update f7 s)"
  "idxoff_update f7 (ptrval_update f11 s) = ptrval_update f11 (idxoff_update f7 s)"
  "idxoff_update f7 (ptroff_update f12 s) = ptroff_update f12 (idxoff_update f7 s)"
  "idxoff_update f7 (chainoff_update f13 s) = chainoff_update f13 (idxoff_update f7 s)"
  "idxlen_update f8 (datoff_update f9 s) = datoff_update f9 (idxlen_update f8 s)"
  "idxlen_update f8 (datlen_update f10 s) = datlen_update f10 (idxlen_update f8 s)"
  "idxlen_update f8 (ptrval_update f11 s) = ptrval_update f11 (idxlen_update f8 s)"
  "idxlen_update f8 (ptroff_update f12 s) = ptroff_update f12 (idxlen_update f8 s)"
  "idxlen_update f8 (chainoff_update f13 s) = chainoff_update f13 (idxlen_update f8 s)"
  "datoff_update f9 (datlen_update f10 s) = datlen_update f10 (datoff_update f9 s)"
  "datoff_update f9 (ptrval_update f11 s) = ptrval_update f11 (datoff_update f9 s)"
  "datoff_update f9 (ptroff_update f12 s) = ptroff_update f12 (datoff_update f9 s)"
  "datoff_update f9 (chainoff_update f13 s) = chainoff_update f13 (datoff_update f9 s)"
  "datlen_update f10 (ptrval_update f11 s) = ptrval_update f11 (datlen_update f10 s)"
  "datlen_update f10 (ptroff_update f12 s) = ptroff_update f12 (datlen_update f10 s)"
  "datlen_update f10 (chainoff_update f13 s) = chainoff_update f13 (datlen_update f10 s)"
  "ptrval_update f11 (ptroff_update f12 s) = ptroff_update f12 (ptrval_update f11 s)"
  "ptrval_update f11 (chainoff_update f13 s) = chainoff_update f13 (ptrval_update f11 s)"
  "ptroff_update f12 (chainoff_update f13 s) = chainoff_update f13 (ptroff_update f12 s)"
  by simp_all

text \<open>Where the next sequential read of the index file starts.\<close>

definition idx_pos :: "DB \<Rightarrow> nat" where
  "idx_pos s = of_pos (the (k_ofd s (idxfd s)))"

lemmas db_calls = bnd_run sys_lseek_def sys_read_def sys_readv2_def sys_write_def sys_writev_def
  seek_base_def Let_def

subsection \<open>Pointer fields\<close>

lemma db_readptr_bytes:
  assumes env: "dbenv i j s" and "off + PTR_SZ \<le> length (k_data s i)"
  shows "\<exists>X. db_readptr (int off) s = Ok (atol (get_at (k_data s i) off PTR_SZ @ [NUL])) (s\<lparr>k_ofd := X\<rparr>) \<and>
    dbenv i j (s\<lparr>k_ofd := X\<rparr>)"
proof -
  from env obtain d where d: "k_ofd s (idxfd s) = Some d" "of_ino d = i" "readable d" "k_faults s = []"
    by (rule dbenv_idx)
  then show ?thesis
    using assms dbenv_move [OF env d(1), of "off + PTR_SZ"]
    by (intro exI [of _ "(k_ofd s)(idxfd s \<mapsto> d\<lparr>of_pos := off + PTR_SZ\<rparr>)"])
      (simp add: db_readptr_def db_calls length_get_at)
qed

lemma ptr_ok_64: "ptr_ok p \<Longrightarrow> p < 2 ^ 63"
proof -
  assume "ptr_ok p"
  then have "p \<le> 9999999" by (simp add: ptr_ok_def PTR_MAX_def)
  also have "\<dots> < 2 ^ 63" by simp
  finally show ?thesis .
qed

lemma atol_ptr: "ptr_ok p \<Longrightarrow> atol (fmt_wd w (int p) @ [NUL]) = int p"
  by (rule atol_fmt_wd [OF ptr_ok_64]) (simp_all add: isdigit_def)

lemma db_readptr_cell:
  assumes "dbenv i j s" and "k_data s i = idx_bytes ps rs" and "tab_ok ps" and "recs_ok rs" and "is_cell rs p"
  shows "\<exists>X. db_readptr (int p) s = Ok (int (cell ps rs p)) (s\<lparr>k_ofd := X\<rparr>) \<and> dbenv i j (s\<lparr>k_ofd := X\<rparr>)"
  using db_readptr_bytes [of i j s p] assms read_cell [OF assms(3-5)] by (simp add: atol_ptr)

lemma db_writeptr_bytes:
  assumes env: "dbenv i j s" and "off + PTR_SZ \<le> length (k_data s i)" and p: "ptr_ok p"
  shows "\<exists>X. db_writeptr (int off) (int p) s =
      Ok () (s\<lparr>k_ofd := X, k_data := (k_data s)(i := put_at (k_data s i) off (fmt_wd PTR_SZ (int p)))\<rparr>) \<and>
    dbenv i j (s\<lparr>k_ofd := X, k_data := (k_data s)(i := put_at (k_data s i) off (fmt_wd PTR_SZ (int p)))\<rparr>)"
proof -
  from env obtain d where d: "k_ofd s (idxfd s) = Some d" "of_ino d = i" "writable d" "k_faults s = []"
    by (rule dbenv_idx)
  from p have p': "int p \<le> PTR_MAX" by (simp add: ptr_ok_def)
  have "db_writeptr (int off) (int p) s =
      Ok () (s\<lparr>k_ofd := (k_ofd s)(idxfd s \<mapsto> d\<lparr>of_pos := off + PTR_SZ\<rparr>),
               k_data := (k_data s)(i := put_at (k_data s i) off (fmt_wd PTR_SZ (int p)))\<rparr>)"
    using d p p' assms(2) by (simp add: db_writeptr_def db_calls length_fmt_ptr)
  moreover have "dbenv i j (s\<lparr>k_ofd := (k_ofd s)(idxfd s \<mapsto> d\<lparr>of_pos := off + PTR_SZ\<rparr>),
               k_data := (k_data s)(i := put_at (k_data s i) off (fmt_wd PTR_SZ (int p)))\<rparr>)"
    using dbenv_move [OF env d(1), of "off + PTR_SZ"] by simp
  ultimately show ?thesis by blast
qed

lemma db_writeptr_cell:
  assumes "dbenv i j s" and "k_data s i = idx_bytes ps rs" and "tab_ok ps" and "recs_ok rs"
    and "is_cell rs p" and "ptr_ok q"
  obtains X ps' rs' where
    "db_writeptr (int p) (int q) s = Ok () (s\<lparr>k_ofd := X, k_data := (k_data s)(i := idx_bytes ps' rs')\<rparr>)"
    and "dbenv i j (s\<lparr>k_ofd := X, k_data := (k_data s)(i := idx_bytes ps' rs')\<rparr>)"
    and "tab_ok ps'" and "recs_ok rs'" and "cell ps' rs' = (cell ps rs)(p := q)"
    and "info rs' = info rs" and "tlen rs' = tlen rs"
proof -
  from assms(3-6) obtain ps' rs' where put: "put_at (idx_bytes ps rs) p (fmt_wd PTR_SZ (int q)) = idx_bytes ps' rs'"
    and rest: "tab_ok ps'" "recs_ok rs'" "cell ps' rs' = (cell ps rs)(p := q)" "info rs' = info rs" "tlen rs' = tlen rs"
    by (rule write_cell)
  have "p + PTR_SZ \<le> length (k_data s i)"
    unfolding assms(2) using assms(3-5) by (rule read_cell(2))
  from db_writeptr_bytes [OF assms(1) this assms(6)] show ?thesis
    unfolding assms(2) put using that rest by blast
qed

subsection \<open>Index records\<close>

lemma strchr_fmt_d: "c \<in> {SEP, NUL} \<Longrightarrow> c \<notin> set (fmt_d (int n))"
  using fmt_d_nat_digits [of c n] digit_not_special [of c] by (auto simp: SEP_def)

text \<open>Taking a well-formed record apart gives its key, data offset and data length back.\<close>

lemma db_parseidx_run:
  assumes r: "irec_ok r" and buf: "idxbuf s = butlast (irec_body r) @ NUL # rest"
  shows "\<exists>b. db_parseidx s =
      Ok (ptrval s) (s\<lparr>idxbuf := b, datoff := int (ir_doff r), datlen := int (ir_dlen r)\<rparr>) \<and>
    cstr b = ir_key r"
proof -
  define ds where "ds = fmt_d (int (ir_doff r))"
  define ls where "ls = fmt_d (int (ir_dlen r))"
  have body: "idxbuf s = ir_key r @ SEP # ds @ SEP # ls @ NUL # rest"
    using buf by (simp add: irec_body_def butlast_append ds_def ls_def)
  have SEP_NUL: "SEP \<noteq> NUL" by (simp add: SEP_def)
  have key: "SEP \<notin> set (ir_key r)" "NUL \<notin> set (ir_key r)"
    and len: "0 < ir_dlen r" "int (ir_dlen r) \<le> DATLEN_MAX" and off: "ir_doff r < 2 ^ 63"
    using r by (simp_all add: irec_ok_def)
  have nos: "SEP \<notin> set ds" "NUL \<notin> set ds" "SEP \<notin> set ls" "NUL \<notin> set ls"
    by (simp_all add: ds_def ls_def strchr_fmt_d)
  have s1: "strchr (ir_key r @ SEP # ds @ SEP # ls @ NUL # rest) SEP = Some (length (ir_key r))"
    using key by (rule strchr_found)
  have s2: "strchr (ds @ SEP # ls @ NUL # rest) SEP = Some (length ds)"
    using nos(1,2) by (rule strchr_found)
  have s3: "strchr (ls @ NUL # rest) SEP = None"
    using nos SEP_NUL by (intro strchr_none) simp_all
  have a1: "atol (ds @ NUL # ls @ NUL # rest) = int (ir_doff r)"
    unfolding ds_def using off by (rule atol_fmt_d) (simp add: isdigit_def)
  have "ir_dlen r < 2 ^ 63" using len(2) by (simp add: DATLEN_MAX_def)
  then have a2: "atol (ls @ NUL # rest) = int (ir_dlen r)"
    unfolding ls_def by (rule atol_fmt_d) (simp add: isdigit_def)
  have sz: "size_t (int (ir_dlen r)) = int (ir_dlen r)"
    using len(2) by (simp add: size_t_def DATLEN_MAX_def)
  define b where "b = ir_key r @ NUL # ds @ NUL # ls @ NUL # rest"
  have "db_parseidx s =
      Ok (ptrval s) (s\<lparr>idxbuf := b, datoff := int (ir_doff r), datlen := int (ir_dlen r)\<rparr>)"
    using len by (simp add: db_parseidx_def body s1 s2 s3 a1 a2 sz list_update_append Let_def b_def)
  moreover have "cstr b = ir_key r" using key(2) by (simp add: b_def)
  ultimately show ?thesis by blast
qed

lemma irec_body_last: "irec_body r \<noteq> []" "last (irec_body r) = NEWLINE"
  by (simp_all add: irec_body_def)

lemma butlast_update: "b \<noteq> [] \<Longrightarrow> (b @ c)[length b - Suc 0 := x] = butlast b @ x # c"
  by (induction b) (auto split: nat.splits)

lemma db_readidx_rec:
  assumes env: "dbenv i j s" and idx: "k_data s i = idx_bytes ps rs" and ok: "tab_ok ps" "recs_ok rs"
    and r: "rheap rs p = Some r" and at: "offset = int p \<or> offset = 0 \<and> idx_pos s = p"
  shows "\<exists>X L b. db_readidx offset s = Ok (int (ir_ptr r))
      (s\<lparr>k_ofd := X, idxoff := int p, ptrval := int (ir_ptr r), idxlen := L, idxbuf := b,
         datoff := int (ir_doff r), datlen := int (ir_dlen r)\<rparr>) \<and>
    cstr b = ir_key r \<and> dbenv i j (s\<lparr>k_ofd := X\<rparr>) \<and> idx_pos (s\<lparr>k_ofd := X\<rparr>) = p + rlen r"
proof -
  from env obtain d where d: "k_ofd s (idxfd s) = Some d" "of_ino d = i" "readable d" "k_faults s = []"
    by (rule dbenv_idx)
  let ?B = "irec_body r" and ?fd = "idxfd s"
  define L where "L = length ?B"
  have rok: "irec_ok r" using ok(2) r by (rule rheap_ok)
  have L: "IDXLEN_MIN \<le> int L" "int L \<le> IDXLEN_MAX" "L < 2 ^ 31" "0 < L"
    using rok by (auto simp: irec_ok_def L_def db_consts)
  note parts = read_record_parts [OF ok r, folded L_def]
  have p0: "p \<noteq> 0" using rheap_bounds [OF r] by (simp add: rec_base_def)
  have seek: "sys_lseek ?fd offset (if offset = 0 then SEEK_CUR else SEEK_SET) s =
      Ok (int p) (s\<lparr>k_ofd := (k_ofd s)(?fd \<mapsto> d\<lparr>of_pos := p\<rparr>)\<rparr>)"
    using at p0 d by (auto simp: sys_lseek_def seek_base_def Let_def idx_pos_def)
  have len: "atoi (fmt_wd IDXLEN_SZ (int L) @ [NUL]) = int L"
    using L(3) by (rule atoi_fmt_wd) (simp add: isdigit_def)
  have sz: "size_t (int L) = int L" using L by (simp add: size_t_def db_consts)
  have ptr: "atol (fmt_wd PTR_SZ (int (ir_ptr r)) @ [NUL]) = int (ir_ptr r)"
    using irec_ok_ptr [OF rok] by (rule atol_ptr)
  have fl: "length (fmt_wd PTR_SZ (int (ir_ptr r))) = PTR_SZ" "length (fmt_wd IDXLEN_SZ (int L)) = IDXLEN_SZ"
    using length_fmt_ptr [OF irec_ok_ptr [OF rok]] length_fmt_len [OF rok] by (simp_all add: L_def)
  define rest where "rest = drop L (idxbuf s)"
  have buf: "put_at (idxbuf s) 0 ?B = ?B @ rest" by (simp add: put_at_def rest_def L_def)
  have nl: "(?B @ rest) ! (L - Suc 0) = NEWLINE"
    using irec_body_last [of r] L(4) by (simp add: nth_append L_def last_conv_nth)
  have upd: "(?B @ rest)[L - Suc 0 := NUL] = butlast ?B @ NUL # rest"
    unfolding L_def by (rule butlast_update) (rule irec_body_last)
  define X where "X = (k_ofd s)(?fd \<mapsto> d\<lparr>of_pos := p + rlen r\<rparr>)"
  define s' where "s' = s\<lparr>k_ofd := X, idxoff := int p, ptrval := int (ir_ptr r), idxlen := int L,
      idxbuf := butlast ?B @ NUL # rest\<rparr>"
  have rl: "rlen r = PTR_SZ + IDXLEN_SZ + L" by (simp add: rlen_def L_def)
  have "db_readidx offset s = db_parseidx s'"
    using d idx parts L sz len ptr fl L_def [symmetric]
    by (simp add: db_readidx_def seek bnd_run sys_readv2_def sys_read_def Let_def buf nl upd nat_diff_distrib
        s'_def X_def rl add.assoc upd_order)
  moreover obtain b where "db_parseidx s' = Ok (ptrval s')
      (s'\<lparr>idxbuf := b, datoff := int (ir_doff r), datlen := int (ir_dlen r)\<rparr>)" and "cstr b = ir_key r"
    using db_parseidx_run [OF rok, of s' rest] by (auto simp: s'_def)
  moreover have "dbenv i j (s\<lparr>k_ofd := X\<rparr>)" and "idx_pos (s\<lparr>k_ofd := X\<rparr>) = p + rlen r"
    unfolding X_def using env d(1) by (simp_all add: dbenv_move idx_pos_def)
  ultimately show ?thesis
    by (intro exI [of _ X] exI [of _ "int L"] exI [of _ b]) (simp add: s'_def upd_order)
qed

subsection \<open>Data records\<close>

text \<open>Data \<open>dat\<close> is stored at offset \<open>q\<close> of the data file \<open>D\<close>, with its newline.\<close>

definition holds :: "bytes \<Rightarrow> nat \<Rightarrow> string \<Rightarrow> bool" where
  "holds D q dat \<longleftrightarrow> get_at D q (Suc (length dat)) = dat @ [NEWLINE] \<and> q + Suc (length dat) \<le> length D"

lemma holds_other:
  assumes "holds D q dat" and "q + Suc (length dat) \<le> p \<or> p + length bs \<le> q"
  shows "holds (put_at D p bs) q dat"
  using assms get_put_other [of q "Suc (length dat)" p bs D] by (auto simp: holds_def length_put_at)

lemma holds_same: "holds (put_at D q (dat @ [NEWLINE])) q dat"
  by (simp add: holds_def length_put_at get_put_same)

lemma db_readdat_ok:
  assumes env: "dbenv i j s" and off: "datoff s = int q" and len: "datlen s = int (Suc (length dat))"
    and dat: "holds (k_data s j) q dat" and nul: "NUL \<notin> set dat" and small: "int (Suc (length dat)) \<le> DATLEN_MAX"
  shows "\<exists>X b. db_readdat s = Ok dat (s\<lparr>k_ofd := X, datbuf := b\<rparr>) \<and> dbenv i j (s\<lparr>k_ofd := X\<rparr>) \<and>
    X (idxfd s) = k_ofd s (idxfd s)"
proof -
  from env obtain d where d: "k_ofd s (datfd s) = Some d" "of_ino d = j" "readable d" "k_faults s = []"
    by (rule dbenv_dat)
  define rest where "rest = drop (Suc (length dat)) (datbuf s)"
  have buf: "put_at (datbuf s) 0 (dat @ [NEWLINE]) = dat @ NEWLINE # rest"
    by (simp add: put_at_def rest_def)
  define X where "X = (k_ofd s)(datfd s \<mapsto> d\<lparr>of_pos := q + Suc (length dat)\<rparr>)"
  have size: "size_t (1 + int (length dat)) = 1 + int (length dat)" using small by (simp add: size_t_def DATLEN_MAX_def)
  have get: "get_at (k_data s j) q (Suc (length dat)) = dat @ [NEWLINE]"
    using dat by (simp add: holds_def)
  have "db_readdat s = Ok (cstr (dat @ NUL # rest)) (s\<lparr>k_ofd := X, datbuf := dat @ NUL # rest\<rparr>)"
    using d off len get size by (simp add: db_readdat_def db_calls X_def nat_add_distrib buf upd_order)
  moreover have "cstr (dat @ NUL # rest) = dat" using nul by simp
  moreover have "dbenv i j (s\<lparr>k_ofd := X\<rparr>)" unfolding X_def using env d(1) by (rule dbenv_move_dat)
  moreover have "X (idxfd s) = k_ofd s (idxfd s)" using env by (simp add: X_def dbenv_def)
  ultimately show ?thesis by auto
qed

lemma db_writedat_set:
  assumes env: "dbenv i j s"
  shows "\<exists>X. db_writedat data (int q) SEEK_SET s = Ok () (s\<lparr>k_ofd := X,
      k_data := (k_data s)(j := put_at (k_data s j) q (data @ [NEWLINE])),
      datoff := int q, datlen := int (Suc (length data))\<rparr>) \<and> dbenv i j (s\<lparr>k_ofd := X\<rparr>)"
proof -
  from env obtain d where d: "k_ofd s (datfd s) = Some d" "of_ino d = j" "writable d" "k_faults s = []"
    by (rule dbenv_dat)
  let ?X = "(k_ofd s)(datfd s \<mapsto> d\<lparr>of_pos := q + Suc (length data)\<rparr>)"
  have "db_writedat data (int q) SEEK_SET s = Ok () (s\<lparr>k_ofd := ?X,
      k_data := (k_data s)(j := put_at (k_data s j) q (data @ [NEWLINE])),
      datoff := int q, datlen := int (Suc (length data))\<rparr>)"
    using d by (simp add: db_writedat_def db_calls upd_order add.commute)
  then show ?thesis using dbenv_move_dat [OF env d(1)] by blast
qed

lemma set_range_all: "set_range (0, None) ty f = (\<lambda>_. ty)"
  by (simp add: set_range_def in_range_def)

lemma db_writedat_end:
  assumes env: "dbenv i j s" and lk: "k_lock s j = (\<lambda>_. F_UNLCK)"
  shows "\<exists>X. db_writedat data 0 SEEK_END s = Ok () (s\<lparr>k_ofd := X,
      k_data := (k_data s)(j := k_data s j @ data @ [NEWLINE]),
      datoff := int (length (k_data s j)), datlen := int (Suc (length data))\<rparr>) \<and> dbenv i j (s\<lparr>k_ofd := X\<rparr>)"
proof -
  from env obtain d where d: "k_ofd s (datfd s) = Some d" "of_ino d = j" "writable d" "k_faults s = []"
    by (rule dbenv_dat)
  have ol: "\<forall>o' \<in> set (k_olocks s). ol_ino o' \<noteq> of_ino d" using env d(2) by (auto simp: dbenv_def)
  have l: "writew_lock (datfd s) 0 SEEK_SET 0 s = Ok 0 (s\<lparr>k_lock := (k_lock s)(j := (\<lambda>_. F_WRLCK))\<rparr>)"
    using lock_reg_ok [of s "datfd s" d 0 0 F_WRLCK F_SETLKW] d ol
    by (simp add: writew_lock_def set_range_all)
  define X where "X = (k_ofd s)(datfd s \<mapsto> d\<lparr>of_pos := length (k_data s j) + Suc (length data)\<rparr>)"
  define t where "t = s\<lparr>k_lock := (k_lock s)(j := (\<lambda>_. F_WRLCK)), k_ofd := X,
      k_data := (k_data s)(j := k_data s j @ data @ [NEWLINE]),
      datoff := int (length (k_data s j)), datlen := int (Suc (length data))\<rparr>"
  have u: "un_lock (datfd s) 0 SEEK_SET 0 t = Ok 0 (t\<lparr>k_lock := k_lock s\<rparr>)"
    using un_lock_ok [of t "datfd s" "d\<lparr>of_pos := length (k_data s j) + Suc (length data)\<rparr>" 0 0] d lk
    by (simp add: t_def X_def set_range_all fun_upd_idem)
  have "db_writedat data 0 SEEK_END s = Ok () (t\<lparr>k_lock := k_lock s\<rparr>)"
    using d l u unfolding db_writedat_def
    by (simp add: db_calls upd_order add.commute put_at_end t_def X_def)
  moreover have "dbenv i j (s\<lparr>k_ofd := X\<rparr>)" unfolding X_def using env d(1) by (rule dbenv_move_dat)
  ultimately show ?thesis
    by (intro exI [of _ X]) (simp add: t_def upd_order)
qed

subsection \<open>Writing index records\<close>

definition mk_rec :: "string \<Rightarrow> nat \<Rightarrow> DB \<Rightarrow> irec" where
  "mk_rec key q s = \<lparr>ir_ptr = q, ir_key = key, ir_doff = nat (datoff s), ir_dlen = nat (datlen s)\<rparr>"

lemma mk_rec_body:
  assumes "0 \<le> datoff s" and "0 \<le> datlen s"
  shows "irec_body (mk_rec key q s) = key @ [SEP] @ fmt_d (datoff s) @ [SEP] @ fmt_d (datlen s) @ [NEWLINE]"
  using assms by (simp add: irec_body_def mk_rec_def)

lemma db_writeidx_set:
  assumes env: "dbenv i j s" and pos: "0 \<le> datoff s" "0 \<le> datlen s" and r: "irec_ok (mk_rec key q s)"
  shows "\<exists>X b. db_writeidx key (int p) SEEK_SET (int q) s = Ok () (s\<lparr>k_ofd := X,
      k_data := (k_data s)(i := put_at (k_data s i) p (irec_bytes (mk_rec key q s))),
      ptrval := int q, idxbuf := b, idxoff := int p\<rparr>) \<and> dbenv i j (s\<lparr>k_ofd := X\<rparr>)"
proof -
  from env obtain d where d: "k_ofd s (idxfd s) = Some d" "of_ino d = i" "writable d" "k_faults s = []"
    by (rule dbenv_idx)
  note body = mk_rec_body [OF pos, of key q]
  define rec where "rec = key @ [SEP] @ fmt_d (datoff s) @ [SEP] @ fmt_d (datlen s) @ [NEWLINE]"
  define L where "L = length rec"
  have L: "IDXLEN_MIN \<le> int L" "int L \<le> IDXLEN_MAX" "int q \<le> PTR_MAX"
    using r body by (auto simp: irec_ok_def rec_def L_def mk_rec_def ptr_ok_def)
  have fl: "length (fmt_wd PTR_SZ (int q)) = PTR_SZ" "length (fmt_wd IDXLEN_SZ (int L)) = IDXLEN_SZ"
    using length_fmt_ptr [OF irec_ok_ptr [OF r]] length_fmt_len [OF r] body
    by (simp_all add: L_def rec_def mk_rec_def)
  have bytes: "irec_bytes (mk_rec key q s) = fmt_wd PTR_SZ (int q) @ fmt_wd IDXLEN_SZ (int L) @ rec"
    using body by (simp add: irec_bytes_def L_def rec_def mk_rec_def)
  let ?X = "(k_ofd s)(idxfd s \<mapsto> d\<lparr>of_pos := p + (PTR_SZ + (IDXLEN_SZ + L))\<rparr>)"
  have "db_writeidx key (int p) SEEK_SET (int q) s = Ok () (s\<lparr>k_ofd := ?X,
      k_data := (k_data s)(i := put_at (k_data s i) p (irec_bytes (mk_rec key q s))),
      ptrval := int q, idxbuf := put_at (idxbuf s) 0 (rec @ [NUL]), idxoff := int p\<rparr>)"
    using d L fl unfolding db_writeidx_def bytes
    by (simp add: db_calls upd_order rec_def [symmetric, simplified] L_def [symmetric])
  then show ?thesis using dbenv_move [OF env d(1)] by blast
qed

lemma db_writeidx_end:
  assumes env: "dbenv i j s" and pos: "0 \<le> datoff s" "0 \<le> datlen s" and r: "irec_ok (mk_rec key q s)"
    and lk: "\<forall>b \<ge> rec_base. k_lock s i b = F_UNLCK"
  shows "\<exists>X b. db_writeidx key 0 SEEK_END (int q) s = Ok () (s\<lparr>k_ofd := X,
      k_data := (k_data s)(i := k_data s i @ irec_bytes (mk_rec key q s)),
      ptrval := int q, idxbuf := b, idxoff := int (length (k_data s i))\<rparr>) \<and> dbenv i j (s\<lparr>k_ofd := X\<rparr>)"
proof -
  from env obtain d where d: "k_ofd s (idxfd s) = Some d" "of_ino d = i" "writable d" "k_faults s = []"
    by (rule dbenv_idx)
  have ol: "\<forall>o' \<in> set (k_olocks s). ol_ino o' \<noteq> of_ino d" using env d(2) by (auto simp: dbenv_def)
  have base: "1 + (int PTR_SZ + int (nhash s) * int PTR_SZ) = int rec_base"
    using env by (simp add: rec_base_def ntab_def dbenv_def)
  note body = mk_rec_body [OF pos, of key q]
  define rec where "rec = key @ [SEP] @ fmt_d (datoff s) @ [SEP] @ fmt_d (datlen s) @ [NEWLINE]"
  define L where "L = length rec"
  have L: "IDXLEN_MIN \<le> int L" "int L \<le> IDXLEN_MAX" "int q \<le> PTR_MAX"
    using r body by (auto simp: irec_ok_def rec_def L_def mk_rec_def ptr_ok_def)
  have fl: "length (fmt_wd PTR_SZ (int q)) = PTR_SZ" "length (fmt_wd IDXLEN_SZ (int L)) = IDXLEN_SZ"
    using length_fmt_ptr [OF irec_ok_ptr [OF r]] length_fmt_len [OF r] body
    by (simp_all add: L_def rec_def mk_rec_def)
  have bytes: "irec_bytes (mk_rec key q s) = fmt_wd PTR_SZ (int q) @ fmt_wd IDXLEN_SZ (int L) @ rec"
    using body by (simp add: irec_bytes_def L_def rec_def mk_rec_def)
  let ?N = "length (k_data s i)" and ?B = "put_at (idxbuf s) 0 (rec @ [NUL])" and ?R = "(int rec_base, None)"
  define d' where "d' = d\<lparr>of_pos := ?N + (PTR_SZ + (IDXLEN_SZ + L))\<rparr>"
  define X where "X = (k_ofd s)(idxfd s \<mapsto> d')"
  define s1 where "s1 = s\<lparr>ptrval := int q, idxbuf := ?B\<rparr>"
  have l: "writew_lock (idxfd s) (int rec_base) SEEK_SET 0 s1 =
      Ok 0 (s1\<lparr>k_lock := (k_lock s)(i := set_range ?R F_WRLCK (k_lock s i))\<rparr>)"
    using lock_reg_ok [of s1 "idxfd s" d "int rec_base" 0 F_WRLCK F_SETLKW] d ol
    by (simp add: writew_lock_def s1_def)
  define t where "t = s\<lparr>k_ofd := X, k_data := (k_data s)(i := k_data s i @ irec_bytes (mk_rec key q s)),
      k_lock := (k_lock s)(i := set_range ?R F_WRLCK (k_lock s i)), ptrval := int q, idxbuf := ?B, idxoff := int ?N\<rparr>"
  have "set_range ?R F_UNLCK (set_range ?R F_WRLCK (k_lock s i)) = k_lock s i"
    by (rule set_range_undo) (use lk in \<open>simp add: in_range_def\<close>)
  then have u: "un_lock (idxfd s) (int rec_base) SEEK_SET 0 t = Ok 0 (t\<lparr>k_lock := k_lock s\<rparr>)"
    using un_lock_ok [of t "idxfd s" d' "int rec_base" 0] d by (simp add: t_def X_def d'_def fun_upd_idem)
  have "db_writeidx key 0 SEEK_END (int q) s = Ok () (t\<lparr>k_lock := k_lock s\<rparr>)"
    using d L fl u l base unfolding db_writeidx_def bytes t_def X_def d'_def s1_def
    by (simp add: db_calls upd_order rec_def [symmetric, simplified] L_def [symmetric] put_at_end)
  moreover have "dbenv i j (s\<lparr>k_ofd := X\<rparr>)" unfolding X_def d'_def using env d(1) by (rule dbenv_move)
  ultimately show ?thesis
    by (intro exI [of _ X] exI [of _ ?B]) (simp add: t_def upd_order)
qed

end
