(* ===== verification/Db_Chains.thy ===== *)
theory Db_Chains
  imports Db_Ops
begin

section \<open>Hash chains and the free list\<close>

text \<open>
  The pointer fields of the index file form singly linked lists. \<open>chain c p os\<close> says that the list
  whose first pointer field is at \<open>p\<close> links the records at the offsets \<open>os\<close>; the pointer field of
  a record is at the record's own offset, so the field that leads to a record (\<open>db->ptroff\<close>) is
  either a table entry or the record before it. \<open>linked c ch\<close> says that table entry \<open>n\<close> heads the
  chain \<open>ch n\<close> and that no record is on two chains. Unlinking a record and pushing one at the front of
  a chain keep it so. The two scanning loops of \<open>db.c\<close> are then followed along a chain.
\<close>

fun chain :: "(nat \<Rightarrow> nat) \<Rightarrow> nat \<Rightarrow> nat list \<Rightarrow> bool" where
  "chain c p [] \<longleftrightarrow> c p = 0"
| "chain c p (x # xs) \<longleftrightarrow> c p = x \<and> x \<noteq> 0 \<and> chain c x xs"

lemma chain_upd_other [simp]: "q \<noteq> p \<Longrightarrow> q \<notin> set xs \<Longrightarrow> chain (c(q := v)) p xs = chain c p xs"
  by (induction xs arbitrary: p) auto

lemma chain_at: "chain c p (xs @ x # ys) \<Longrightarrow> c (last (p # xs)) = x \<and> chain c x ys"
  by (induction xs arbitrary: p) auto

lemma chain_unlink_first:
  assumes "chain c p (x # ys)" and "p \<notin> set ys"
  shows "chain (c(p := c x)) p ys"
  using assms by (cases ys) auto

lemma chain_unlink:
  assumes "chain c p (xs @ x # ys)" and "distinct (p # xs @ x # ys)"
  shows "chain (c(last (p # xs) := c x)) p (xs @ ys)"
  using assms
proof (induction xs arbitrary: p)
  case Nil
  then have "chain (c(p := c x)) p ys" by (intro chain_unlink_first) simp_all
  then show ?case by (simp only: last.simps append_Nil if_True refl)
next
  case (Cons a xs)
  define q where "q = last (a # xs)"
  have tail: "chain (c(q := c x)) a (xs @ ys)"
    unfolding q_def using Cons.prems by (intro Cons.IH) auto
  have "q \<noteq> p" unfolding q_def using Cons.prems(2) last_in_set [of "a # xs"] by auto
  then have first: "(c(q := c x)) p = a" and a: "a \<noteq> 0" using Cons.prems(1) by simp_all
  have "last (p # a # xs) = q" by (simp add: q_def)
  then show ?case using tail first a by (simp only: append_Cons chain.simps simp_thms)
qed

lemma chain_push:
  assumes "chain c p xs" and "x \<noteq> p" and "x \<notin> set xs" and "p \<notin> set xs" and "x \<noteq> 0"
  shows "chain (c(x := c p, p := x)) p (x # xs)"
  using assms by (cases xs) auto

definition linked :: "(nat \<Rightarrow> nat) \<Rightarrow> (nat \<Rightarrow> nat list) \<Rightarrow> bool" where
  "linked c ch \<longleftrightarrow>
     (\<forall>n < ntab. chain c (n * PTR_SZ) (ch n) \<and> distinct (ch n) \<and> (\<forall>x \<in> set (ch n). rec_base \<le> x)) \<and>
     (\<forall>n < ntab. \<forall>k < ntab. n \<noteq> k \<longrightarrow> set (ch n) \<inter> set (ch k) = {})"

lemma PTR_SZ_pos [simp]: "0 < PTR_SZ"
  by (simp add: PTR_SZ_def)

lemma tab_cell_less: "n < ntab \<Longrightarrow> n * PTR_SZ < rec_base"
  by (simp add: rec_base_def PTR_SZ_def)

lemma linked_tab_notin: "linked c ch \<Longrightarrow> n < ntab \<Longrightarrow> k < ntab \<Longrightarrow> k * PTR_SZ \<notin> set (ch n)"
  using tab_cell_less [of k] by (fastforce simp: linked_def)

lemma linked_chain: "linked c ch \<Longrightarrow> n < ntab \<Longrightarrow> chain c (n * PTR_SZ) (ch n)"
  by (simp add: linked_def)

lemma linked_distinct: "linked c ch \<Longrightarrow> n < ntab \<Longrightarrow> distinct (n * PTR_SZ # ch n)"
  using linked_tab_notin by (auto simp: linked_def)

text \<open>The field that leads to a record on chain \<open>n\<close> belongs to no other chain.\<close>

lemma prev_cell_other:
  assumes l: "linked c ch" and n: "n < ntab" and ch: "ch n = xs @ x # ys" and k: "k < ntab" "k \<noteq> n"
  shows "last (n * PTR_SZ # xs) \<noteq> k * PTR_SZ" and "last (n * PTR_SZ # xs) \<notin> set (ch k)"
proof -
  have "last (n * PTR_SZ # xs) \<noteq> k * PTR_SZ \<and> last (n * PTR_SZ # xs) \<notin> set (ch k)"
  proof (cases "xs = []")
    case True
    with k linked_tab_notin [OF l k(1) n] show ?thesis by simp
  next
    case False
    then have m: "last xs \<in> set (ch n)" using ch by simp
    have "set (ch n) \<inter> set (ch k) = {}" using l n k by (simp add: linked_def)
    with m have "last xs \<notin> set (ch k)" by blast
    moreover have "last xs \<noteq> k * PTR_SZ" using linked_tab_notin [OF l n k(1)] m by metis
    ultimately show ?thesis using False by simp
  qed
  then show "last (n * PTR_SZ # xs) \<noteq> k * PTR_SZ" and "last (n * PTR_SZ # xs) \<notin> set (ch k)" by blast+
qed

lemma linked_unlink:
  assumes l: "linked c ch" and n: "n < ntab" and ch: "ch n = xs @ x # ys"
  shows "linked (c(last (n * PTR_SZ # xs) := c x)) (ch(n := xs @ ys))"
  unfolding linked_def
proof (intro conjI allI impI)
  fix k assume k: "k < ntab"
  show "chain (c(last (n * PTR_SZ # xs) := c x)) (k * PTR_SZ) ((ch(n := xs @ ys)) k)"
  proof (cases "k = n")
    case True
    with chain_unlink [of c "n * PTR_SZ" xs x ys] linked_chain [OF l n] linked_distinct [OF l n] ch
    show ?thesis by simp
  next
    case False
    with prev_cell_other [OF l n ch k] linked_chain [OF l k] show ?thesis by simp
  qed
  have "distinct (xs @ x # ys)" using linked_distinct [OF l n] ch by simp
  then show "distinct ((ch(n := xs @ ys)) k)" and "\<forall>y \<in> set ((ch(n := xs @ ys)) k). rec_base \<le> y"
    using l k n ch by (auto simp: linked_def)
next
  fix k k' assume "k < ntab" "k' < ntab" "k \<noteq> k'"
  with l n have "set (ch k) \<inter> set (ch k') = {}" by (simp add: linked_def)
  then show "set ((ch(n := xs @ ys)) k) \<inter> set ((ch(n := xs @ ys)) k') = {}"
    using ch by (auto simp: fun_upd_def)
qed

lemma linked_push:
  assumes l: "linked c ch" and n: "n < ntab" and x: "rec_base \<le> x" and new: "\<forall>k < ntab. x \<notin> set (ch k)"
  shows "linked (c(x := c (n * PTR_SZ), n * PTR_SZ := x)) (ch(n := x # ch n))"
  unfolding linked_def
proof (intro conjI allI impI)
  fix k assume k: "k < ntab"
  have xn: "x \<noteq> k * PTR_SZ" using tab_cell_less [OF k] x by simp
  have x0: "x \<noteq> 0" using x by (simp add: rec_base_def)
  show "chain (c(x := c (n * PTR_SZ), n * PTR_SZ := x)) (k * PTR_SZ) ((ch(n := x # ch n)) k)"
  proof (cases "k = n")
    case True
    with chain_push [OF linked_chain [OF l n] xn [unfolded True]] new linked_tab_notin [OF l n n] x0 n
    show ?thesis by simp
  next
    case False
    with linked_chain [OF l k] new k xn linked_tab_notin [OF l k n] show ?thesis by simp
  qed
  show "distinct ((ch(n := x # ch n)) k)" and "\<forall>y \<in> set ((ch(n := x # ch n)) k). rec_base \<le> y"
    using l k n new x by (auto simp: linked_def)
next
  fix k k' assume "k < ntab" "k' < ntab" "k \<noteq> k'"
  with l new show "set ((ch(n := x # ch n)) k) \<inter> set ((ch(n := x # ch n)) k') = {}"
    by (auto simp: linked_def)
qed

subsection \<open>What a scan changes\<close>

text \<open>Reading records along a chain changes the file offset and the fields that describe the last record read.\<close>

definition unscanned :: "DB \<Rightarrow> DB" where
  "unscanned s = s\<lparr>k_ofd := (\<lambda>_. None), idxoff := 0, ptrval := 0, idxlen := 0, idxbuf := [], datoff := 0,
     datlen := 0, ptroff := 0\<rparr>"

definition scanned :: "DB \<Rightarrow> DB \<Rightarrow> bool" where
  "scanned s t \<longleftrightarrow> unscanned s = unscanned t"

lemma scanned_refl [simp]: "scanned s s"
  by (simp add: scanned_def)

lemma scanned_trans: "scanned s t \<Longrightarrow> scanned t u \<Longrightarrow> scanned s u"
  by (simp add: scanned_def)

lemma scannedD:
  assumes "scanned s t"
  shows "k_data t = k_data s" "k_lock t = k_lock s" "chainoff t = chainoff s" "idxfd t = idxfd s"
    "datfd t = datfd s"
proof -
  have e: "f (unscanned t) = f (unscanned s)" for f :: "DB \<Rightarrow> 'b"
    using assms by (simp add: scanned_def)
  show "k_data t = k_data s" using e [of k_data] by (simp add: unscanned_def)
  show "k_lock t = k_lock s" using e [of k_lock] by (simp add: unscanned_def)
  show "chainoff t = chainoff s" using e [of chainoff] by (simp add: unscanned_def)
  show "idxfd t = idxfd s" using e [of idxfd] by (simp add: unscanned_def)
  show "datfd t = datfd s" using e [of datfd] by (simp add: unscanned_def)
qed

lemma scanned_record:
  "scanned s (s\<lparr>k_ofd := X, idxoff := a, ptrval := b, idxlen := c, idxbuf := d, datoff := e, datlen := f\<rparr>)"
  by (simp add: scanned_def unscanned_def upd_order)

lemma scanned_ofd: "scanned s (s\<lparr>k_ofd := X\<rparr>)" and scanned_ptroff: "scanned s (s\<lparr>ptroff := p\<rparr>)"
  by (simp_all add: scanned_def unscanned_def upd_order)

subsection \<open>Following a chain\<close>

text \<open>The index file holds the table \<open>ps\<close> and the records \<open>rs\<close>; the handle describes the record at \<open>x\<close>.\<close>

definition lay :: "nat \<Rightarrow> DB \<Rightarrow> nat list \<Rightarrow> irec list \<Rightarrow> bool" where
  "lay i s ps rs \<longleftrightarrow> k_data s i = idx_bytes ps rs \<and> tab_ok ps \<and> recs_ok rs"

definition at_rec :: "nat list \<Rightarrow> irec list \<Rightarrow> nat \<Rightarrow> string \<Rightarrow> nat \<Rightarrow> nat \<Rightarrow> DB \<Rightarrow> bool" where
  "at_rec ps rs x k d n t \<longleftrightarrow> idxoff t = int x \<and> ptrval t = int (cell ps rs x) \<and>
     cstr (idxbuf t) = k \<and> datoff t = int d \<and> datlen t = int n"

lemma at_rec_upd [simp]: "at_rec ps rs x k d n (t\<lparr>ptroff := q\<rparr>) = at_rec ps rs x k d n t"
  by (simp add: at_rec_def)

lemma info_small:
  assumes "lay i s ps rs" and "info rs x = Some (k, d, n)"
  shows "int n \<le> DATLEN_MAX"
proof -
  from assms(2) obtain r where r: "rheap rs x = Some r" "ir_dlen r = n" by (auto simp: info_Some)
  with assms(1) have "irec_ok r" by (auto simp: lay_def intro: rheap_ok)
  then show ?thesis using r(2) by (simp add: irec_ok_def)
qed

lemma lay_scanned: "scanned s t \<Longrightarrow> lay i t ps rs = lay i s ps rs"
  by (simp add: lay_def scannedD)

lemma db_readidx_info:
  assumes env: "dbenv i j s" and lay: "lay i s ps rs" and r: "info rs x = Some (k, d, n)"
    and at: "offset = int x \<or> offset = 0 \<and> idx_pos s = x"
  shows "\<exists>t. db_readidx offset s = Ok (int (cell ps rs x)) t \<and> scanned s t \<and> dbenv i j t \<and>
    at_rec ps rs x k d n t \<and> ptroff t = ptroff s \<and> idx_pos t = x + rlen (the (rheap rs x))"
proof -
  from r obtain u where u: "rheap rs x = Some u" "ir_key u = k" "ir_doff u = d" "ir_dlen u = n"
    by (auto simp: info_Some)
  have l: "k_data s i = idx_bytes ps rs" "tab_ok ps" "recs_ok rs" using lay by (simp_all add: lay_def)
  from db_readidx_rec [OF env l u(1) at] u obtain X L b where
    run: "db_readidx offset s = Ok (int (ir_ptr u)) (s\<lparr>k_ofd := X, idxoff := int x, ptrval := int (ir_ptr u),
      idxlen := L, idxbuf := b, datoff := int d, datlen := int n\<rparr>)"
    and b: "cstr b = k" and X: "dbenv i j (s\<lparr>k_ofd := X\<rparr>)" "idx_pos (s\<lparr>k_ofd := X\<rparr>) = x + rlen u"
    by auto
  let ?t = "s\<lparr>k_ofd := X, idxoff := int x, ptrval := int (ir_ptr u),
      idxlen := L, idxbuf := b, datoff := int d, datlen := int n\<rparr>"
  have "scanned s ?t" by (rule scanned_record)
  moreover have "at_rec ps rs x k d n ?t" using b u(1) by (simp add: at_rec_def cell_rec)
  moreover have "idx_pos ?t = x + rlen u" using X(2) by (simp add: idx_pos_def)
  ultimately show ?thesis using run X u(1) cell_rec [OF u(1), of ps] by auto
qed

definition chain_in :: "nat list \<Rightarrow> irec list \<Rightarrow> nat \<Rightarrow> nat list \<Rightarrow> bool" where
  "chain_in ps rs p xs \<longleftrightarrow> chain (cell ps rs) p xs \<and> set xs \<subseteq> dom (info rs)"

lemma chain_in_Cons:
  assumes "chain_in ps rs p (x # xs)"
  obtains k d n where "cell ps rs p = x" and "x \<noteq> 0" and "info rs x = Some (k, d, n)" and "chain_in ps rs x xs"
  using assms by (auto simp: chain_in_def)

definition key_at :: "irec list \<Rightarrow> nat \<Rightarrow> string" where
  "key_at rs x = fst (the (info rs x))"

text \<open>\<open>_db_find_and_lock\<close>'s loop, when no record of the chain has the key.\<close>

lemma db_find_loop_none:
  assumes "dbenv i j s" and "lay i s ps rs" and "chain_in ps rs p xs" and "length xs \<le> fuel"
    and "\<forall>x \<in> set xs. key_at rs x \<noteq> key"
  shows "\<exists>t. db_find_loop fuel key (int (cell ps rs p)) s = Ok 0 t \<and> scanned s t \<and> dbenv i j t"
  using assms
proof (induction xs arbitrary: p s fuel)
  case Nil
  then show ?case by (cases fuel) (simp_all add: chain_in_def)
next
  case (Cons x xs)
  from Cons.prems(3) obtain k d n where x: "cell ps rs p = x" "x \<noteq> 0" "info rs x = Some (k, d, n)"
    and xs: "chain_in ps rs x xs"
    by (rule chain_in_Cons)
  from Cons.prems(4) obtain f where f: "fuel = Suc f" "length xs \<le> f" by (cases fuel) auto
  obtain t where t: "db_readidx (int x) s = Ok (int (cell ps rs x)) t" "scanned s t" "dbenv i j t"
    "at_rec ps rs x k d n t"
    using db_readidx_info [OF Cons.prems(1,2) x(3)] by blast
  let ?t = "t\<lparr>ptroff := int x\<rparr>"
  have k: "k \<noteq> key" using Cons.prems(5) x(3) by (simp add: key_at_def)
  have sc: "scanned s ?t" using t(2) scanned_ptroff by (rule scanned_trans)
  have "\<exists>u. db_find_loop f key (int (cell ps rs x)) ?t = Ok 0 u \<and> scanned ?t u \<and> dbenv i j u"
    using Cons.prems(2,5) xs f(2) t(3) sc by (intro Cons.IH) (simp_all add: lay_scanned)
  then obtain u where u: "db_find_loop f key (int (cell ps rs x)) ?t = Ok 0 u" "scanned ?t u" "dbenv i j u"
    by blast
  have "db_find_loop fuel key (int (cell ps rs p)) s = Ok 0 u"
    using t(1,4) u(1) x(1,2) f(1) k by (simp add: bnd_run at_rec_def)
  with u sc show ?case by (blast intro: scanned_trans)
qed

text \<open>The loop, when the record at \<open>x\<close> is the first of the chain with the key.\<close>

lemma db_find_loop_found:
  assumes "dbenv i j s" and "lay i s ps rs" and "chain_in ps rs p (xs @ x # ys)" and "length xs < fuel"
    and "\<forall>y \<in> set xs. key_at rs y \<noteq> key" and "info rs x = Some (key, d, n)" and "ptroff s = int p"
  shows "\<exists>t. db_find_loop fuel key (int (cell ps rs p)) s = Ok (int x) t \<and> scanned s t \<and> dbenv i j t \<and>
    at_rec ps rs x key d n t \<and> ptroff t = int (last (p # xs))"
  using assms
proof (induction xs arbitrary: p s fuel)
  case Nil
  then obtain f where f: "fuel = Suc f" by (cases fuel) auto
  from Nil.prems(3) have x: "cell ps rs p = x" "x \<noteq> 0" by (auto elim: chain_in_Cons)
  obtain t where t: "db_readidx (int x) s = Ok (int (cell ps rs x)) t" "scanned s t" "dbenv i j t"
    "at_rec ps rs x key d n t" "ptroff t = ptroff s"
    using db_readidx_info [OF Nil.prems(1,2,6)] by blast
  have "db_find_loop fuel key (int (cell ps rs p)) s = Ok (int x) t"
    using t(1,4) x f by (simp add: bnd_run at_rec_def)
  with t Nil.prems(7) show ?case by simp
next
  case (Cons y xs)
  have "chain_in ps rs p (y # xs @ x # ys)" using Cons.prems(3) by simp
  then obtain k e m where y: "cell ps rs p = y" "y \<noteq> 0" "info rs y = Some (k, e, m)"
    and xs: "chain_in ps rs y (xs @ x # ys)"
    by (rule chain_in_Cons)
  from Cons.prems(4) obtain f where f: "fuel = Suc f" "length xs < f" by (cases fuel) auto
  obtain t where t: "db_readidx (int y) s = Ok (int (cell ps rs y)) t" "scanned s t" "dbenv i j t"
    "at_rec ps rs y k e m t"
    using db_readidx_info [OF Cons.prems(1,2) y(3)] by blast
  let ?t = "t\<lparr>ptroff := int y\<rparr>"
  have k: "k \<noteq> key" using Cons.prems(5) y(3) by (simp add: key_at_def)
  have sc: "scanned s ?t" using t(2) scanned_ptroff by (rule scanned_trans)
  have "\<exists>u. db_find_loop f key (int (cell ps rs y)) ?t = Ok (int x) u \<and> scanned ?t u \<and> dbenv i j u \<and>
    at_rec ps rs x key d n u \<and> ptroff u = int (last (y # xs))"
    using Cons.prems(2,5,6) xs f(2) t(3) sc by (intro Cons.IH) (simp_all add: lay_scanned)
  then obtain u where u: "db_find_loop f key (int (cell ps rs y)) ?t = Ok (int x) u" "scanned ?t u"
    "dbenv i j u" "at_rec ps rs x key d n u" "ptroff u = int (last (y # xs))"
    by blast
  have "db_find_loop fuel key (int (cell ps rs p)) s = Ok (int x) u"
    using t(1,4) u(1) y(1,2) f(1) k by (simp add: bnd_run at_rec_def)
  with u sc show ?case by (auto intro: scanned_trans)
qed

text \<open>\<open>_db_findfree\<close>'s loop looks for a record with keys and data of the given lengths.\<close>

definition fits :: "irec list \<Rightarrow> nat \<Rightarrow> nat \<Rightarrow> nat \<Rightarrow> bool" where
  "fits rs kl dl x \<longleftrightarrow> length (key_at rs x) = kl \<and> snd (snd (the (info rs x))) = dl"

lemma db_free_loop_none:
  assumes "dbenv i j s" and "lay i s ps rs" and "chain_in ps rs p xs" and "length xs \<le> fuel"
    and "\<forall>x \<in> set xs. \<not> fits rs kl dl x"
  shows "\<exists>t q. db_free_loop fuel kl (int dl) (int p) (int (cell ps rs p)) s = Ok (0, q) t \<and>
    scanned s t \<and> dbenv i j t"
  using assms
proof (induction xs arbitrary: p s fuel)
  case Nil
  then show ?case by (cases fuel) (simp_all add: chain_in_def)
next
  case (Cons x xs)
  from Cons.prems(3) obtain k d n where x: "cell ps rs p = x" "x \<noteq> 0" "info rs x = Some (k, d, n)"
    and xs: "chain_in ps rs x xs"
    by (rule chain_in_Cons)
  from Cons.prems(4) obtain f where f: "fuel = Suc f" "length xs \<le> f" by (cases fuel) auto
  obtain t where t: "db_readidx (int x) s = Ok (int (cell ps rs x)) t" "scanned s t" "dbenv i j t"
    "at_rec ps rs x k d n t"
    using db_readidx_info [OF Cons.prems(1,2) x(3)] by blast
  have no: "\<not> (length k = kl \<and> n = dl)" using Cons.prems(5) x(3) by (simp add: fits_def key_at_def)
  have "\<exists>u q. db_free_loop f kl (int dl) (int x) (int (cell ps rs x)) t = Ok (0, q) u \<and> scanned t u \<and> dbenv i j u"
    using Cons.prems(2,5) xs f(2) t(2,3) by (intro Cons.IH) (simp_all add: lay_scanned)
  then obtain u q where u: "db_free_loop f kl (int dl) (int x) (int (cell ps rs x)) t = Ok (0, q) u"
    "scanned t u" "dbenv i j u"
    by blast
  have "db_free_loop fuel kl (int dl) (int p) (int (cell ps rs p)) s = Ok (0, q) u"
    using t(1,4) u(1) x(1,2) f(1) no by (auto simp: bnd_run at_rec_def)
  with u t(2) show ?case by (blast intro: scanned_trans)
qed

lemma db_free_loop_found:
  assumes "dbenv i j s" and "lay i s ps rs" and "chain_in ps rs p (xs @ x # ys)" and "length xs < fuel"
    and "\<forall>y \<in> set xs. \<not> fits rs kl dl y" and "fits rs kl dl x" and "info rs x = Some (k, d, dl)"
  shows "\<exists>t. db_free_loop fuel kl (int dl) (int p) (int (cell ps rs p)) s = Ok (int x, int (last (p # xs))) t \<and>
    scanned s t \<and> dbenv i j t \<and> at_rec ps rs x k d dl t"
  using assms
proof (induction xs arbitrary: p s fuel)
  case Nil
  then obtain f where f: "fuel = Suc f" by (cases fuel) auto
  from Nil.prems(3) have x: "cell ps rs p = x" "x \<noteq> 0" by (auto elim: chain_in_Cons)
  obtain t where t: "db_readidx (int x) s = Ok (int (cell ps rs x)) t" "scanned s t" "dbenv i j t"
    "at_rec ps rs x k d dl t"
    using db_readidx_info [OF Nil.prems(1,2,7)] by blast
  have "length k = kl" using Nil.prems(6,7) by (simp add: fits_def key_at_def)
  then have "db_free_loop fuel kl (int dl) (int p) (int (cell ps rs p)) s = Ok (int x, int p) t"
    using t(1,4) x f by (simp add: bnd_run at_rec_def)
  with t show ?case by simp
next
  case (Cons y xs)
  have "chain_in ps rs p (y # xs @ x # ys)" using Cons.prems(3) by simp
  then obtain e m l where y: "cell ps rs p = y" "y \<noteq> 0" "info rs y = Some (e, m, l)"
    and xs: "chain_in ps rs y (xs @ x # ys)"
    by (rule chain_in_Cons)
  from Cons.prems(4) obtain f where f: "fuel = Suc f" "length xs < f" by (cases fuel) auto
  obtain t where t: "db_readidx (int y) s = Ok (int (cell ps rs y)) t" "scanned s t" "dbenv i j t"
    "at_rec ps rs y e m l t"
    using db_readidx_info [OF Cons.prems(1,2) y(3)] by blast
  have no: "\<not> (length e = kl \<and> l = dl)" using Cons.prems(5) y(3) by (simp add: fits_def key_at_def)
  have "\<exists>u. db_free_loop f kl (int dl) (int y) (int (cell ps rs y)) t = Ok (int x, int (last (y # xs))) u \<and>
    scanned t u \<and> dbenv i j u \<and> at_rec ps rs x k d dl u"
    using Cons.prems(2,5,6,7) xs f(2) t(2,3) by (intro Cons.IH) (simp_all add: lay_scanned)
  then obtain u where u: "db_free_loop f kl (int dl) (int y) (int (cell ps rs y)) t = Ok (int x, int (last (y # xs))) u"
    "scanned t u" "dbenv i j u" "at_rec ps rs x k d dl u"
    by blast
  have "db_free_loop fuel kl (int dl) (int p) (int (cell ps rs p)) s = Ok (int x, int (last (y # xs))) u"
    using t(1,4) u(1) y(1,2) f(1) no by (auto simp: bnd_run at_rec_def)
  with u t(2) show ?case by (auto intro: scanned_trans)
qed

end
