(* ===== verification/Db_Inv.thy ===== *)
theory Db_Inv
  imports Db_Chains
begin

section \<open>The invariant of a database and the map it represents\<close>

text \<open>
  \<open>db_inv c nf ch D m\<close> relates pointer cells \<open>c\<close>, the information \<open>nf\<close> of the index records, the
  chains \<open>ch\<close> and the data file \<open>D\<close> to the map \<open>m\<close> from keys to data that the database stands for:
  the chains are linked and share no record, every record is on a chain, every record on a hash
  chain has a key of that hash value and no key twice, records on the free list have blank keys,
  every record owns a region of the data file that ends in a newline, and \<open>m\<close> gives the data of the
  records on the hash chains. The lemmas state what the four changes \<open>db.c\<close> makes (deleting a
  record, appending one, reusing a free one, overwriting data of the same length) do to it. No
  byte of the index file occurs here.
\<close>

type_synonym rec_info = "nat \<Rightarrow> (string \<times> nat \<times> nat) option"

definition hb :: "string \<Rightarrow> nat" where
  "hb k = Suc (db_hash NHASH_DEF k)"

lemma hb_bounds [simp]: "0 < hb k" "hb k < ntab" "hb k \<noteq> 0"
  by (simp_all add: hb_def ntab_def db_hash_def NHASH_DEF_def)

definition good :: "bytes \<Rightarrow> nat \<Rightarrow> nat \<Rightarrow> bool" where
  "good D d n \<longleftrightarrow> 0 < n \<and> d + n \<le> length D \<and> get_at D d n = get_at D d (n - 1) @ [NEWLINE] \<and>
     NUL \<notin> set (get_at D d (n - 1))"

definition data_ok :: "rec_info \<Rightarrow> bytes \<Rightarrow> bool" where
  "data_ok nf D \<longleftrightarrow> (\<forall>x k d n. nf x = Some (k, d, n) \<longrightarrow> good D d n) \<and>
     (\<forall>x y k d n k' d' n'. x \<noteq> y \<longrightarrow> nf x = Some (k, d, n) \<longrightarrow> nf y = Some (k', d', n') \<longrightarrow>
        d + n \<le> d' \<or> d' + n' \<le> d)"

definition keyed :: "rec_info \<Rightarrow> (nat \<Rightarrow> nat list) \<Rightarrow> bool" where
  "keyed nf ch \<longleftrightarrow>
     (\<forall>h x k d n. 0 < h \<longrightarrow> h < ntab \<longrightarrow> x \<in> set (ch h) \<longrightarrow> nf x = Some (k, d, n) \<longrightarrow> h = hb k) \<and>
     (\<forall>x y k d n d' n'. x \<in> set (ch (hb k)) \<longrightarrow> y \<in> set (ch (hb k)) \<longrightarrow>
        nf x = Some (k, d, n) \<longrightarrow> nf y = Some (k, d', n') \<longrightarrow> x = y) \<and>
     (\<forall>x k d n. x \<in> set (ch 0) \<longrightarrow> nf x = Some (k, d, n) \<longrightarrow> set k \<subseteq> {SPACE})"

lemma keyedD:
  assumes "keyed nf ch"
  shows "0 < h \<Longrightarrow> h < ntab \<Longrightarrow> x \<in> set (ch h) \<Longrightarrow> nf x = Some (k, d, n) \<Longrightarrow> h = hb k"
    and "x \<in> set (ch (hb k)) \<Longrightarrow> y \<in> set (ch (hb k)) \<Longrightarrow> nf x = Some (k, d, n) \<Longrightarrow>
      nf y = Some (k, d', n') \<Longrightarrow> x = y"
    and "x \<in> set (ch 0) \<Longrightarrow> nf x = Some (k, d, n) \<Longrightarrow> set k \<subseteq> {SPACE}"
  using assms unfolding keyed_def by blast+

lemma keyedI:
  assumes "\<And>h x k d n. 0 < h \<Longrightarrow> h < ntab \<Longrightarrow> x \<in> set (ch h) \<Longrightarrow> nf x = Some (k, d, n) \<Longrightarrow> h = hb k"
    and "\<And>x y k d n d' n'. x \<in> set (ch (hb k)) \<Longrightarrow> y \<in> set (ch (hb k)) \<Longrightarrow> nf x = Some (k, d, n) \<Longrightarrow>
      nf y = Some (k, d', n') \<Longrightarrow> x = y"
    and "\<And>x k d n. x \<in> set (ch 0) \<Longrightarrow> nf x = Some (k, d, n) \<Longrightarrow> set k \<subseteq> {SPACE}"
  shows "keyed nf ch"
  using assms unfolding keyed_def by blast

definition owned :: "rec_info \<Rightarrow> (nat \<Rightarrow> nat list) \<Rightarrow> bool" where
  "owned nf ch \<longleftrightarrow> (\<forall>x. nf x \<noteq> None \<longleftrightarrow> (\<exists>h < ntab. x \<in> set (ch h)))"

definition means :: "rec_info \<Rightarrow> (nat \<Rightarrow> nat list) \<Rightarrow> bytes \<Rightarrow> (string \<rightharpoonup> string) \<Rightarrow> bool" where
  "means nf ch D m \<longleftrightarrow> (\<forall>k dat. m k = Some dat \<longleftrightarrow>
     (\<exists>x d n. x \<in> set (ch (hb k)) \<and> nf x = Some (k, d, n) \<and> dat = get_at D d (n - 1)))"

definition db_inv :: "(nat \<Rightarrow> nat) \<Rightarrow> rec_info \<Rightarrow> (nat \<Rightarrow> nat list) \<Rightarrow> bytes \<Rightarrow> (string \<rightharpoonup> string) \<Rightarrow> bool" where
  "db_inv c nf ch D m \<longleftrightarrow> linked c ch \<and> owned nf ch \<and> keyed nf ch \<and> data_ok nf D \<and> means nf ch D m"

lemma db_invD:
  assumes "db_inv c nf ch D m"
  shows "linked c ch" "owned nf ch" "keyed nf ch" "data_ok nf D" "means nf ch D m"
  using assms by (simp_all add: db_inv_def)

subsection \<open>The data file\<close>

lemma good_holds: "good D d n \<Longrightarrow> holds D d (get_at D d (n - 1)) \<and> n = Suc (length (get_at D d (n - 1)))"
  by (auto simp: good_def holds_def length_get_at)

lemma good_put_other:
  assumes "good D d n" and "d + n \<le> p \<or> p + length bs \<le> d"
  shows "good (put_at D p bs) d n" and "get_at (put_at D p bs) d (n - 1) = get_at D d (n - 1)"
proof -
  have n: "0 < n" "d + n \<le> length D" using assms(1) by (simp_all add: good_def)
  have a: "get_at (put_at D p bs) d (n - 1) = get_at D d (n - 1)"
    using assms(2) n by (intro get_put_other) auto
  moreover have "get_at (put_at D p bs) d n = get_at D d n"
    using assms(2) n by (intro get_put_other) auto
  ultimately show "good (put_at D p bs) d n" and "get_at (put_at D p bs) d (n - 1) = get_at D d (n - 1)"
    using assms(1) by (simp_all add: good_def length_put_at le_max_iff_disj)
qed

lemma good_put_same:
  assumes "NUL \<notin> set dat"
  shows "good (put_at D d (dat @ [NEWLINE])) d (Suc (length dat))"
    and "get_at (put_at D d (dat @ [NEWLINE])) d (length dat) = dat"
proof -
  have a: "get_at (put_at D d (dat @ [NEWLINE])) d (Suc (length dat)) = dat @ [NEWLINE]"
    by (rule get_put_same) simp
  have "get_at f d (length dat) = take (length dat) (get_at f d (Suc (length dat)))" for f :: bytes
    by (simp add: get_at_def min_def)
  then have b: "get_at (put_at D d (dat @ [NEWLINE])) d (length dat) = dat" using a by simp
  then show "get_at (put_at D d (dat @ [NEWLINE])) d (length dat) = dat" .
  show "good (put_at D d (dat @ [NEWLINE])) d (Suc (length dat))"
    using a b assms by (simp add: good_def length_put_at)
qed

text \<open>Writing the record that \<open>x\<close> owns, or a new one behind the end of the file.\<close>

definition fresh_region :: "rec_info \<Rightarrow> bytes \<Rightarrow> nat \<Rightarrow> nat \<Rightarrow> nat \<Rightarrow> bool" where
  "fresh_region nf D x d n \<longleftrightarrow>
     (\<forall>y k d' n'. y \<noteq> x \<longrightarrow> nf y = Some (k, d', n') \<longrightarrow> d + n \<le> d' \<or> d' + n' \<le> d)"

lemma fresh_own: "data_ok nf D \<Longrightarrow> nf x = Some (k, d, n) \<Longrightarrow> fresh_region nf D x d n"
  unfolding data_ok_def fresh_region_def by metis

lemma fresh_end: "data_ok nf D \<Longrightarrow> fresh_region nf D x (length D) n"
  unfolding data_ok_def fresh_region_def good_def by blast

lemma data_ok_put:
  assumes ok: "data_ok nf D" and fresh: "fresh_region nf D x d (Suc (length dat))" and nul: "NUL \<notin> set dat"
  shows "data_ok (nf(x \<mapsto> (k, d, Suc (length dat)))) (put_at D d (dat @ [NEWLINE]))"
proof -
  have other: "good (put_at D d (dat @ [NEWLINE])) d' n'"
    if "y \<noteq> x" "nf y = Some (k', d', n')" for y k' d' n'
    using that ok fresh by (intro good_put_other) (auto simp: data_ok_def fresh_region_def)
  show ?thesis
    unfolding data_ok_def
  proof (intro conjI allI impI)
    fix y k' d' n' assume "(nf(x \<mapsto> (k, d, Suc (length dat)))) y = Some (k', d', n')"
    then show "good (put_at D d (dat @ [NEWLINE])) d' n'"
      using other good_put_same(1) [OF nul, of D d] by (auto split: if_splits)
  next
    fix y z k1 d1 n1 k2 d2 n2
    assume "y \<noteq> z" "(nf(x \<mapsto> (k, d, Suc (length dat)))) y = Some (k1, d1, n1)"
      "(nf(x \<mapsto> (k, d, Suc (length dat)))) z = Some (k2, d2, n2)"
    then show "d1 + n1 \<le> d2 \<or> d2 + n2 \<le> d1"
      using ok fresh unfolding data_ok_def fresh_region_def
      by (auto split: if_splits)
  qed
qed

lemma get_put_rest:
  assumes "data_ok nf D" and "fresh_region nf D x d (Suc (length dat))"
    and "y \<noteq> x" and "nf y = Some (k', d', n')"
  shows "get_at (put_at D d (dat @ [NEWLINE])) d' (n' - 1) = get_at D d' (n' - 1)"
  using assms by (intro good_put_other(2)) (auto simp: data_ok_def fresh_region_def)

subsection \<open>The four changes\<close>

text \<open>Between two steps of a change, the record at \<open>x\<close> is on no chain.\<close>

definition loose :: "nat \<Rightarrow> (nat \<Rightarrow> nat) \<Rightarrow> rec_info \<Rightarrow> (nat \<Rightarrow> nat list) \<Rightarrow> bytes \<Rightarrow> (string \<rightharpoonup> string) \<Rightarrow> bool" where
  "loose x c nf ch D m \<longleftrightarrow> linked c ch \<and> rec_base \<le> x \<and> (\<forall>h < ntab. x \<notin> set (ch h)) \<and>
     (\<forall>y. y \<noteq> x \<longrightarrow> (nf y \<noteq> None \<longleftrightarrow> (\<exists>h < ntab. y \<in> set (ch h)))) \<and>
     keyed nf ch \<and> data_ok nf D \<and> means nf ch D m"

lemma ntab_pos [simp]: "0 < ntab"
  by (simp add: ntab_def)

lemma unlink_others:
  assumes "linked c ch" and "h < ntab" and "ch h = xs @ x # ys" and "g < ntab"
  shows "x \<notin> set ((ch(h := xs @ ys)) g)" and "y \<noteq> x \<Longrightarrow> y \<in> set ((ch(h := xs @ ys)) g) \<longleftrightarrow> y \<in> set (ch g)"
proof -
  have "distinct (ch h)" using linked_distinct [OF assms(1,2)] by simp
  moreover have "g \<noteq> h \<Longrightarrow> x \<notin> set (ch g)"
    using assms unfolding linked_def by (metis disjoint_iff in_set_conv_decomp)
  ultimately show "x \<notin> set ((ch(h := xs @ ys)) g)"
    and "y \<noteq> x \<Longrightarrow> y \<in> set ((ch(h := xs @ ys)) g) \<longleftrightarrow> y \<in> set (ch g)"
    using assms(3) by auto
qed

lemma keyed_sub:
  assumes "keyed nf ch" and "\<And>h. h < ntab \<Longrightarrow> set (ch' h) \<subseteq> set (ch h)"
  shows "keyed nf ch'"
  using assms unfolding keyed_def by (meson hb_bounds ntab_pos subsetD)

text \<open>Taking a record off its chain.\<close>

lemma inv_unlink:
  assumes inv: "db_inv c nf ch D m" and h: "h < ntab" and ch: "ch h = xs @ x # ys"
    and x: "nf x = Some (k, d, n)"
  shows "loose x (c(last (h * PTR_SZ # xs) := c x)) nf (ch(h := xs @ ys)) D (if h = 0 then m else m(k := None))"
proof -
  note l = db_invD [OF inv]
  note off = unlink_others [OF l(1) h ch]
  have xh: "x \<in> set (ch h)" using ch by simp
  have base: "rec_base \<le> x" using l(1) h xh by (auto simp: linked_def)
  have on: "y \<noteq> x \<longrightarrow> (nf y \<noteq> None \<longleftrightarrow> (\<exists>g < ntab. y \<in> set ((ch(h := xs @ ys)) g)))" for y
    using l(2) off(2) unfolding owned_def by blast
  have key: "keyed nf (ch(h := xs @ ys))"
    using l(3) by (rule keyed_sub) (use ch in auto)
  have hk: "0 < h \<Longrightarrow> h = hb k" using l(3) h xh x unfolding keyed_def by blast
  have only: "y = x" if "0 < h" "y \<in> set (ch (hb k))" "nf y = Some (k, d', n')" for y d' n'
    using that l(3) xh x hk unfolding keyed_def by metis
  have mean: "means nf (ch(h := xs @ ys)) D (if h = 0 then m else m(k := None))"
    unfolding means_def
  proof (intro allI)
    fix k' dat
    have m: "m k' = Some dat \<longleftrightarrow> (\<exists>y e p. y \<in> set (ch (hb k')) \<and> nf y = Some (k', e, p) \<and> dat = get_at D e (p - 1))"
      using l(5) by (simp add: means_def)
    have x_out: "x \<notin> set ((ch(h := xs @ ys)) (hb k'))" by (rule off(1)) simp
    have y_in: "y \<in> set ((ch(h := xs @ ys)) (hb k')) \<longleftrightarrow> y \<in> set (ch (hb k'))" if "y \<noteq> x" for y
      using off(2) [of "hb k'" y] that by simp
    have h0: "h \<noteq> 0" if "x \<in> set (ch (hb k'))"
      using l(1) xh that hb_bounds [of k'] h unfolding linked_def by (metis disjoint_iff)
    show "(if h = 0 then m else m(k := None)) k' = Some dat \<longleftrightarrow>
      (\<exists>y e p. y \<in> set ((ch(h := xs @ ys)) (hb k')) \<and> nf y = Some (k', e, p) \<and> dat = get_at D e (p - 1))"
      (is "?L \<longleftrightarrow> ?R")
    proof
      assume L: ?L
      then have "m k' = Some dat" and nk: "h = 0 \<or> k' \<noteq> k" by (auto split: if_splits)
      then obtain y e p where y: "y \<in> set (ch (hb k'))" "nf y = Some (k', e, p)" "dat = get_at D e (p - 1)"
        using m by blast
      have "y \<noteq> x" using y x nk h0 by auto
      with y y_in show ?R by blast
    next
      assume ?R
      then obtain y e p where y: "y \<in> set ((ch(h := xs @ ys)) (hb k'))" "nf y = Some (k', e, p)"
        "dat = get_at D e (p - 1)" by blast
      then have yx: "y \<noteq> x" using x_out by blast
      with y y_in have y': "y \<in> set (ch (hb k'))" by blast
      then have "m k' = Some dat" using m y by blast
      moreover have "h = 0 \<or> k' \<noteq> k" using only y y' yx by blast
      ultimately show ?L by auto
    qed
  qed
  show ?thesis
    unfolding loose_def using linked_unlink [OF l(1) h ch] base off(1) on key l(4) mean by blast
qed

text \<open>Putting a loose record at the front of a chain, with new contents.\<close>

lemma loose_link:
  assumes lo: "loose x c nf ch D m" and h: "h < ntab"
    and fr: "fresh_region nf D x d (Suc (length dat))" and nul: "NUL \<notin> set dat"
  shows "linked (c(x := c (h * PTR_SZ), h * PTR_SZ := x)) (ch(h := x # ch h))"
    and "owned (nf(x \<mapsto> (k, d, Suc (length dat)))) (ch(h := x # ch h))"
    and "data_ok (nf(x \<mapsto> (k, d, Suc (length dat)))) (put_at D d (dat @ [NEWLINE]))"
  using lo h fr nul by (auto simp: loose_def owned_def intro!: linked_push data_ok_put)

lemma means_link:
  assumes lo: "loose x c nf ch D m" and fr: "fresh_region nf D x d (Suc (length dat))"
    and y: "y \<in> set (ch (hb k'))"
  shows "y \<noteq> x" and "nf y = Some (k', e, p) \<Longrightarrow>
    get_at (put_at D d (dat @ [NEWLINE])) e (p - 1) = get_at D e (p - 1)"
proof -
  show n: "y \<noteq> x" using lo y by (auto simp: loose_def)
  show "nf y = Some (k', e, p) \<Longrightarrow> get_at (put_at D d (dat @ [NEWLINE])) e (p - 1) = get_at D e (p - 1)"
    using lo n by (intro get_put_rest [OF _ fr]) (simp_all add: loose_def)
qed

lemma inv_link_free:
  assumes lo: "loose x c nf ch D m" and fr: "fresh_region nf D x d (Suc (length dat))"
    and nul: "NUL \<notin> set dat" and b: "set b \<subseteq> {SPACE}"
  shows "db_inv (c(x := c 0, 0 := x)) (nf(x \<mapsto> (b, d, Suc (length dat)))) (ch(0 := x # ch 0))
    (put_at D d (dat @ [NEWLINE])) m"
proof -
  let ?nf = "nf(x \<mapsto> (b, d, Suc (length dat)))" and ?ch = "ch(0 := x # ch 0)"
  note ll = loose_link [OF lo ntab_pos fr nul]
  have lo': "keyed nf ch" "means nf ch D m" "\<forall>h < ntab. x \<notin> set (ch h)" using lo by (simp_all add: loose_def)
  have same: "?ch h = ch h \<and> (y \<in> set (ch h) \<longrightarrow> ?nf y = nf y)" if "0 < h" "h < ntab" for h y
    using lo'(3) that by auto
  have "keyed ?nf ?ch"
    using lo'(1) lo'(3) b unfolding keyed_def
    by (auto simp: same split: if_splits)
  moreover have "means ?nf ?ch (put_at D d (dat @ [NEWLINE])) m"
    unfolding means_def
  proof (intro allI)
    fix k' dat'
    have "(y \<in> set (?ch (hb k')) \<and> ?nf y = Some (k', e, p) \<and> dat' = get_at (put_at D d (dat @ [NEWLINE])) e (p - 1)) \<longleftrightarrow>
       (y \<in> set (ch (hb k')) \<and> nf y = Some (k', e, p) \<and> dat' = get_at D e (p - 1))" for y e p
      using same [of "hb k'" y] means_link(2) [OF lo fr, of y k' e p] by auto
    then show "m k' = Some dat' \<longleftrightarrow> (\<exists>y e p. y \<in> set (?ch (hb k')) \<and> ?nf y = Some (k', e, p) \<and>
        dat' = get_at (put_at D d (dat @ [NEWLINE])) e (p - 1))"
      using lo'(2) by (simp add: means_def)
  qed
  ultimately show ?thesis using ll by (simp add: db_inv_def)
qed

lemma inv_link_hash:
  assumes lo: "loose x c nf ch D m" and fr: "fresh_region nf D x d (Suc (length dat))"
    and nul: "NUL \<notin> set dat" and new: "m k = None"
  shows "db_inv (c(x := c (hb k * PTR_SZ), hb k * PTR_SZ := x)) (nf(x \<mapsto> (k, d, Suc (length dat))))
    (ch(hb k := x # ch (hb k))) (put_at D d (dat @ [NEWLINE])) (m(k \<mapsto> dat))"
proof -
  let ?nf = "nf(x \<mapsto> (k, d, Suc (length dat)))" and ?ch = "ch(hb k := x # ch (hb k))"
  let ?D = "put_at D d (dat @ [NEWLINE])"
  note ll = loose_link [OF lo hb_bounds(2) fr nul]
  have lo': "keyed nf ch" "means nf ch D m" "\<forall>h < ntab. x \<notin> set (ch h)" using lo by (simp_all add: loose_def)
  have old: "y \<in> set (?ch h) \<longleftrightarrow> y = x \<and> h = hb k \<or> y \<in> set (ch h)" for y h by simp
  have none: "nf y \<noteq> Some (k, e, p)" if "y \<in> set (ch (hb k))" for y e p
    using lo'(2) new that unfolding means_def by (metis option.distinct(1))
  have out: "y \<noteq> x" if "y \<in> set (ch h)" "h < ntab" for y h using lo'(3) that by blast
  have "keyed ?nf ?ch"
  proof (rule keyedI)
    fix h y k' e p assume a: "0 < h" "h < ntab" "y \<in> set (?ch h)" "?nf y = Some (k', e, p)"
    show "h = hb k'"
    proof (cases "y = x")
      case True
      with a out [OF _ a(2)] show ?thesis unfolding old by auto
    next
      case False
      with a keyedD(1) [OF lo'(1) a(1,2)] show ?thesis by (simp split: if_splits)
    qed
  next
    fix y z k' e p e' p' assume a: "y \<in> set (?ch (hb k'))" "z \<in> set (?ch (hb k'))"
      "?nf y = Some (k', e, p)" "?nf z = Some (k', e', p')"
    show "y = z"
    proof (cases "k' = k")
      case True
      have "y = x" if "y \<in> set (?ch (hb k))" "?nf y = Some (k, e, p)" for y e p
        using that none unfolding old by (auto split: if_splits)
      with a True show ?thesis by metis
    next
      case False
      then have n: "y \<noteq> x" "z \<noteq> x" using a by (auto split: if_splits)
      then have "y \<in> set (ch (hb k'))" "z \<in> set (ch (hb k'))" using a(1,2) unfolding old by simp_all
      then show ?thesis using a(3,4) n keyedD(2) [OF lo'(1)] by simp
    qed
  next
    fix y k' e p assume a: "y \<in> set (?ch 0)" "?nf y = Some (k', e, p)"
    then have "y \<in> set (ch 0)" using hb_bounds(3) [of k] unfolding old by simp
    then show "set k' \<subseteq> {SPACE}"
      using a keyedD(3) [OF lo'(1)] out [OF _ ntab_pos] by (auto split: if_splits)
  qed
  moreover have "means ?nf ?ch ?D (m(k \<mapsto> dat))"
    unfolding means_def
  proof (intro allI)
    fix k' dat'
    have "(y \<in> set (?ch (hb k')) \<and> ?nf y = Some (k', e, p) \<and> dat' = get_at ?D e (p - 1)) \<longleftrightarrow>
       y = x \<and> k' = k \<and> e = d \<and> p = Suc (length dat) \<and> dat' = dat \<or>
       (y \<in> set (ch (hb k')) \<and> nf y = Some (k', e, p) \<and> dat' = get_at D e (p - 1))" for y e p
      using means_link(2) [OF lo fr, of y k' e p] good_put_same(2) [OF nul, of D d] lo'(3)
      by (auto simp: old)
    then show "(m(k \<mapsto> dat)) k' = Some dat' \<longleftrightarrow> (\<exists>y e p. y \<in> set (?ch (hb k')) \<and> ?nf y = Some (k', e, p) \<and>
        dat' = get_at ?D e (p - 1))"
      using lo'(2) none by (auto simp: means_def)
  qed
  ultimately show ?thesis using ll by (simp add: db_inv_def)
qed

text \<open>A record behind the end of both files is loose; overwriting data of the same length.\<close>

lemma inv_new_loose:
  assumes "db_inv c nf ch D m" and "nf x = None" and "rec_base \<le> x"
  shows "loose x c nf ch D m"
proof -
  have "x \<notin> set (ch h)" if "h < ntab" for h
    using assms(1,2) that unfolding db_inv_def owned_def by blast
  then show ?thesis using assms by (simp add: db_inv_def loose_def owned_def)
qed

lemma inv_overwrite:
  assumes inv: "db_inv c nf ch D m" and x: "x \<in> set (ch (hb k))" "nf x = Some (k, d, Suc (length dat))"
    and nul: "NUL \<notin> set dat"
  shows "db_inv c nf ch (put_at D d (dat @ [NEWLINE])) (m(k \<mapsto> dat))"
proof -
  note l = db_invD [OF inv]
  let ?D = "put_at D d (dat @ [NEWLINE])"
  have fr: "fresh_region nf D x d (Suc (length dat))" using l(4) x(2) by (rule fresh_own)
  have "data_ok nf ?D" using data_ok_put [OF l(4) fr nul, of k] x(2) by (simp add: fun_upd_idem)
  moreover have "means nf ch ?D (m(k \<mapsto> dat))"
    unfolding means_def
  proof (intro allI)
    fix k' dat'
    have other: "get_at ?D e (p - 1) = get_at D e (p - 1)" if "y \<noteq> x" "nf y = Some (k', e, p)" for y e p
      using get_put_rest [OF l(4) fr that] .
    have only: "y = x" if "y \<in> set (ch (hb k))" "nf y = Some (k, e, p)" for y e p
      using l(3) that x unfolding keyed_def by blast
    have m: "m k' = Some dat' \<longleftrightarrow> (\<exists>y e p. y \<in> set (ch (hb k')) \<and> nf y = Some (k', e, p) \<and> dat' = get_at D e (p - 1))"
      using l(5) by (simp add: means_def)
    show "(m(k \<mapsto> dat)) k' = Some dat' \<longleftrightarrow> (\<exists>y e p. y \<in> set (ch (hb k')) \<and> nf y = Some (k', e, p) \<and>
        dat' = get_at ?D e (p - 1))"
    proof (cases "k' = k")
      case True
      have "(\<exists>y e p. y \<in> set (ch (hb k)) \<and> nf y = Some (k, e, p) \<and> dat' = get_at ?D e (p - 1)) \<longleftrightarrow>
          dat' = get_at ?D d (length dat)"
        using only x by fastforce
      then show ?thesis using True good_put_same(2) [OF nul, of D d] by auto
    next
      case False
      then have "nf y = Some (k', e, p) \<Longrightarrow> y \<noteq> x" for y e p using x(2) by auto
      with other m False show ?thesis by auto
    qed
  qed
  ultimately show ?thesis using l by (simp add: db_inv_def)
qed

text \<open>Looking a key up: the record with the key, and the ones before it on the chain.\<close>

lemma inv_lookup_None:
  assumes "db_inv c nf ch D m" and "m k = None" and "x \<in> set (ch (hb k))"
  shows "\<exists>k' d n. nf x = Some (k', d, n) \<and> k' \<noteq> k"
proof -
  note l = db_invD [OF assms(1)]
  have "nf x \<noteq> None" using l(2) assms(3) hb_bounds(2) unfolding owned_def by blast
  moreover have "nf x \<noteq> Some (k, d, n)" for d n
    using l(5) assms(2,3) unfolding means_def by (metis option.distinct(1))
  ultimately show ?thesis by auto
qed

lemma inv_lookup_Some:
  assumes "db_inv c nf ch D m" and "m k = Some dat"
  obtains x xs ys d where "ch (hb k) = xs @ x # ys" and "nf x = Some (k, d, Suc (length dat))"
    and "holds D d dat" and "NUL \<notin> set dat"
    and "\<And>y. y \<in> set xs \<Longrightarrow> \<exists>k' d n. nf y = Some (k', d, n) \<and> k' \<noteq> k"
proof -
  note l = db_invD [OF assms(1)]
  from l(5) assms(2) obtain x d n where x: "x \<in> set (ch (hb k))" "nf x = Some (k, d, n)"
    "dat = get_at D d (n - 1)" unfolding means_def by blast
  from x(1) obtain xs ys where ch: "ch (hb k) = xs @ x # ys" by (auto simp: in_set_conv_decomp)
  have g: "good D d n" using l(4) x(2) by (auto simp: data_ok_def)
  have "\<exists>k' d n. nf y = Some (k', d, n) \<and> k' \<noteq> k" if y: "y \<in> set xs" for y
  proof -
    have "distinct (ch (hb k))" using linked_distinct [OF l(1) hb_bounds(2)] by simp
    then have "y \<noteq> x" and in_ch: "y \<in> set (ch (hb k))" using ch y by auto
    then have "nf y \<noteq> Some (k, e, p)" for e p using l(3) x unfolding keyed_def by blast
    moreover have "nf y \<noteq> None" using l(2) in_ch hb_bounds(2) unfolding owned_def by blast
    ultimately show ?thesis by auto
  qed
  moreover have "NUL \<notin> set dat" using g x(3) by (simp add: good_def)
  ultimately show ?thesis using that ch good_holds [OF g] x by simp
qed

end
