(* ===== verification/Db_Rep.thy ===== *)
theory Db_Rep
  imports Db_Inv
begin

section \<open>A handle that represents a map, and finding records through it\<close>

text \<open>
  \<open>rep_at L i j ps rs ch s m\<close> ties everything together: the handle is open on the inodes \<open>i\<close> and \<open>j\<close>,
  this process holds exactly the locks \<open>L\<close> on the index file and none on the data file, the index file
  is the layout of \<open>ps\<close> and \<open>rs\<close>, and the invariant relates it to the map \<open>m\<close>. \<open>db_rep s m\<close> is the view
  of a client, between two calls: no locks are held. The lemmas follow \<open>_db_find_and_lock\<close>,
  \<open>_db_dodelete\<close> and \<open>_db_findfree\<close> on it.
\<close>

definition lk1 :: "nat \<Rightarrow> lktype \<Rightarrow> nat \<Rightarrow> lktype" where
  "lk1 p ty = (\<lambda>_. F_UNLCK)(p := ty)"

definition rep_at :: "(nat \<Rightarrow> lktype) \<Rightarrow> nat \<Rightarrow> nat \<Rightarrow> nat list \<Rightarrow> irec list \<Rightarrow> (nat \<Rightarrow> nat list) \<Rightarrow> DB \<Rightarrow>
    (string \<rightharpoonup> string) \<Rightarrow> bool" where
  "rep_at L i j ps rs ch s m \<longleftrightarrow> dbenv i j s \<and> k_lock s i = L \<and> k_lock s j = (\<lambda>_. F_UNLCK) \<and>
     lay i s ps rs \<and> db_inv (cell ps rs) (info rs) ch (k_data s j) m"

definition db_rep :: "DB \<Rightarrow> (string \<rightharpoonup> string) \<Rightarrow> bool" where
  "db_rep s m \<longleftrightarrow> (\<exists>i j ps rs ch. rep_at (\<lambda>_. F_UNLCK) i j ps rs ch s m)"

definition stats :: "DB \<Rightarrow> 64 word list" where
  "stats s = [cnt_delok s, cnt_delerr s, cnt_fetchok s, cnt_fetcherr s, cnt_nextrec s,
     cnt_stor1 s, cnt_stor2 s, cnt_stor3 s, cnt_stor4 s, cnt_storerr s]"

lemma db_repI: "rep_at (\<lambda>_. F_UNLCK) i j ps rs ch s m \<Longrightarrow> db_rep s m"
  unfolding db_rep_def by blast

lemma rep_atD:
  assumes "rep_at L i j ps rs ch s m"
  shows "dbenv i j s" "k_lock s i = L" "k_lock s j = (\<lambda>_. F_UNLCK)" "lay i s ps rs"
    "db_inv (cell ps rs) (info rs) ch (k_data s j) m" "i \<noteq> j"
  using assms by (simp_all add: rep_at_def dbenv_def)

lemma scanned_stats: "scanned s t \<Longrightarrow> stats t = stats s"
proof -
  assume "scanned s t"
  then have "stats (unscanned t) = stats (unscanned s)" by (simp add: scanned_def)
  then show ?thesis by (simp add: stats_def unscanned_def)
qed

lemma stats_frame [simp]:
  "stats (s\<lparr>k_data := y0\<rparr>) = stats s" "stats (s\<lparr>k_lock := y1\<rparr>) = stats s" "stats (s\<lparr>k_errno := y2\<rparr>) = stats s"
  "stats (s\<lparr>k_ofd := y3\<rparr>) = stats s" "stats (s\<lparr>idxbuf := y4\<rparr>) = stats s" "stats (s\<lparr>datbuf := y5\<rparr>) = stats s"
  "stats (s\<lparr>idxoff := y7\<rparr>) = stats s" "stats (s\<lparr>idxlen := y8\<rparr>) = stats s" "stats (s\<lparr>datoff := y9\<rparr>) = stats s"
  "stats (s\<lparr>datlen := y10\<rparr>) = stats s" "stats (s\<lparr>ptrval := y11\<rparr>) = stats s" "stats (s\<lparr>ptroff := y12\<rparr>) = stats s"
  "stats (s\<lparr>chainoff := y13\<rparr>) = stats s"
  by (simp_all add: stats_def)

lemma rep_scanned:
  assumes "rep_at L i j ps rs ch s m" and "scanned s t" and "dbenv i j t"
  shows "rep_at L i j ps rs ch t m"
  using assms by (simp add: rep_at_def scannedD lay_scanned)

lemma rep_frame:
  assumes "rep_at L i j ps rs ch s m" and "dbenv i j t" and "k_data t = k_data s" and "k_lock t = k_lock s"
  shows "rep_at L i j ps rs ch t m"
  using assms by (simp add: rep_at_def lay_def)

subsection \<open>The sizes of the two files\<close>

definition fd_bytes :: "DB \<Rightarrow> int \<Rightarrow> bytes" where
  "fd_bytes s fd = (case k_ofd s fd of None \<Rightarrow> [] | Some d \<Rightarrow> k_data s (of_ino d))"

definition idx_size :: "DB \<Rightarrow> nat" where
  "idx_size s = length (fd_bytes s (idxfd s))"

definition dat_size :: "DB \<Rightarrow> nat" where
  "dat_size s = length (fd_bytes s (datfd s))"

lemma env_sizes:
  assumes "dbenv i j s"
  shows "idx_size s = length (k_data s i)" and "dat_size s = length (k_data s j)"
  using assms by (auto simp: idx_size_def dat_size_def fd_bytes_def elim: dbenv_idx dbenv_dat)

lemma rep_sizes:
  assumes "rep_at L i j ps rs ch s m" and "rep_at L' i j ps rs ch t m'" and "k_data t j = k_data s j"
  shows "idx_size t = idx_size s" and "dat_size t = dat_size s"
  using assms env_sizes [OF rep_atD(1) [OF assms(1)]] env_sizes [OF rep_atD(1) [OF assms(2)]]
  by (simp_all add: rep_at_def lay_def)

subsection \<open>Locks on one byte of the index file\<close>

lemma set_range_1: "set_range (int p, Some (int p + 1)) ty f = f(p := ty)"
  by (auto simp: set_range_def in_range_def fun_eq_iff)

lemma dbenv_ol: "dbenv i j s \<Longrightarrow> o' \<in> set (k_olocks s) \<Longrightarrow> ol_ino o' \<noteq> i"
  by (auto simp: dbenv_def)

lemma idx_lock_1:
  assumes env: "dbenv i j s"
  shows "lock_reg (idxfd s) cmd ty (int p) SEEK_SET 1 s =
    Ok 0 (s\<lparr>k_lock := (k_lock s)(i := (k_lock s i)(p := ty))\<rparr>)"
proof -
  from env obtain d where d: "k_ofd s (idxfd s) = Some d" "of_ino d = i" "readable d" "writable d" "k_faults s = []"
    by (rule dbenv_idx)
  show ?thesis
    using lock_reg_ok [of s "idxfd s" d "int p" 1 ty cmd] d dbenv_ol [OF env] by (simp add: set_range_1)
qed

lemma unlock_chain_run:
  assumes rep: "rep_at (lk1 p ty) i j ps rs ch s m" and c: "chainoff s = int p"
  shows "\<exists>t. unlock_chain who s = Ok () t \<and> rep_at (\<lambda>_. F_UNLCK) i j ps rs ch t m \<and> stats t = stats s \<and>
    k_errno t = k_errno s \<and> k_data t = k_data s"
proof -
  note r = rep_atD [OF rep]
  let ?t = "s\<lparr>k_lock := (k_lock s)(i := (\<lambda>_. F_UNLCK))\<rparr>"
  have "unlock_chain who s = Ok () ?t"
    using idx_lock_1 [OF r(1), of F_SETLK F_UNLCK p] r(2) c
    by (simp add: unlock_chain_def bnd_run un_lock_def lk1_def fun_upd_idem)
  moreover have "rep_at (\<lambda>_. F_UNLCK) i j ps rs ch ?t m"
    using r by (simp add: rep_at_def lay_def)
  ultimately show ?thesis by auto
qed

subsection \<open>The number of records bounds the length of a chain\<close>

lemma placed_length [simp]: "length (placed b rs) = length rs"
  by (induction rs arbitrary: b) simp_all

lemma card_info: "finite (dom (info rs)) \<and> card (dom (info rs)) \<le> length rs"
proof -
  have d: "dom (info rs) = fst ` set (placed rec_base rs)"
    by (auto simp: info_def rheap_def dom_map_of_conv_image_fst [symmetric])
  have "card (fst ` set (placed rec_base rs)) \<le> length (map fst (placed rec_base rs))"
    using card_length [of "map fst (placed rec_base rs)"] by simp
  then show ?thesis unfolding d by simp
qed

lemma chain_bound:
  assumes env: "dbenv i j s" and lay: "lay i s ps rs" and d: "distinct xs" and "set xs \<subseteq> dom (info rs)"
  shows "length xs < idx_fuel s"
proof -
  have "length xs \<le> length rs"
    using d assms(4) card_info [of rs] card_mono [of "dom (info rs)" "set xs"] distinct_card [of xs] by simp
  also have "\<dots> \<le> length (k_data s i)"
    using lay length_idx_bytes [of ps rs] length_le_tlen [of rs] by (simp add: lay_def)
  also have "\<dots> < idx_fuel s"
    using env by (auto simp: idx_fuel_def elim: dbenv_idx)
  finally show ?thesis .
qed

lemma rep_chain:
  assumes rep: "rep_at L i j ps rs ch s m" and h: "h < ntab"
  shows "chain_in ps rs (h * PTR_SZ) (ch h)" and "length (ch h) < idx_fuel s"
proof -
  note r = rep_atD [OF rep] and l = db_invD [OF rep_atD(5) [OF rep]]
  have sub: "set (ch h) \<subseteq> dom (info rs)" using l(2) h unfolding owned_def by blast
  then show "chain_in ps rs (h * PTR_SZ) (ch h)"
    using linked_chain [OF l(1) h] by (simp add: chain_in_def)
  show "length (ch h) < idx_fuel s"
    using r(1,4) _ sub by (rule chain_bound) (use linked_distinct [OF l(1) h] in simp)
qed

lemma tab_is_cell: "h < ntab \<Longrightarrow> is_cell rs (h * PTR_SZ)" and is_cell_0: "is_cell rs 0"
  by (auto simp: is_cell_def intro: exI [of _ 0])

lemma info_is_cell: "info rs x = Some v \<Longrightarrow> is_cell rs x"
  by (auto simp: is_cell_def info_def)

lemma rep_readptr:
  assumes rep: "rep_at L i j ps rs ch s m" and p: "is_cell rs p"
  shows "\<exists>X. db_readptr (int p) s = Ok (int (cell ps rs p)) (s\<lparr>k_ofd := X\<rparr>) \<and>
    rep_at L i j ps rs ch (s\<lparr>k_ofd := X\<rparr>) m"
proof -
  note r = rep_atD [OF rep]
  from db_readptr_cell [OF r(1) _ _ _ p] r(4) obtain X where
    "db_readptr (int p) s = Ok (int (cell ps rs p)) (s\<lparr>k_ofd := X\<rparr>)" and "dbenv i j (s\<lparr>k_ofd := X\<rparr>)"
    unfolding lay_def by blast
  then show ?thesis using rep_frame [OF rep, of "s\<lparr>k_ofd := X\<rparr>"] by auto
qed

subsection \<open>\<open>_db_find_and_lock\<close>\<close>

definition lk_of :: "bool \<Rightarrow> lktype" where
  "lk_of w = (if w then F_WRLCK else F_RDLCK)"

text \<open>The chain is computed and locked, and the scan starts at its first record.\<close>

lemma find_start:
  assumes rep: "rep_at (\<lambda>_. F_UNLCK) i j ps rs ch s m"
  shows "\<exists>t. db_find_and_lock key w s =
      bnd (db_find_loop (idx_fuel t) key (int (cell ps rs (hb key * PTR_SZ)))) (\<lambda>offset. ret (if offset = 0 then -1 else 0)) t \<and>
    rep_at (lk1 (hb key * PTR_SZ) (lk_of w)) i j ps rs ch t m \<and> chainoff t = int (hb key * PTR_SZ) \<and>
    ptroff t = int (hb key * PTR_SZ) \<and> stats t = stats s \<and> k_data t = k_data s"
proof -
  note r = rep_atD [OF rep]
  let ?p = "hb key * PTR_SZ"
  have p: "int (db_hash (nhash s) key * PTR_SZ) + hashoff s = int ?p"
    using r(1) by (simp add: dbenv_def hb_def HASH_OFF_def)
  define s1 where "s1 = s\<lparr>chainoff := int ?p, ptroff := int ?p\<rparr>"
  define s2 where "s2 = s1\<lparr>k_lock := (k_lock s)(i := lk1 ?p (lk_of w))\<rparr>"
  have env1: "dbenv i j s1" using r(1) by (simp add: s1_def)
  have lk: "(if w then writew_lock (idxfd s1) (int ?p) SEEK_SET 1 else readw_lock (idxfd s1) (int ?p) SEEK_SET 1) s1 =
      Ok 0 s2"
    using idx_lock_1 [OF env1, of F_SETLKW "lk_of w" ?p] r(2)
    by (cases w) (simp_all add: lk_of_def writew_lock_def readw_lock_def s2_def s1_def lk1_def)
  have rep2: "rep_at (lk1 ?p (lk_of w)) i j ps rs ch s2 m"
    using r by (simp add: rep_at_def s2_def s1_def lay_def)
  obtain X where X: "db_readptr (int ?p) s2 = Ok (int (cell ps rs ?p)) (s2\<lparr>k_ofd := X\<rparr>)"
    and rep3: "rep_at (lk1 ?p (lk_of w)) i j ps rs ch (s2\<lparr>k_ofd := X\<rparr>) m"
    using rep_readptr [OF rep2 tab_is_cell [OF hb_bounds(2) [of key]]] by blast
  have p': "ptroff s2 = int ?p" by (simp add: s2_def s1_def)
  have "db_find_and_lock key w s =
      bnd (if w then writew_lock (idxfd s1) (int ?p) SEEK_SET 1 else readw_lock (idxfd s1) (int ?p) SEEK_SET 1) (\<lambda>r.
     if r < 0 then err_dump (if w then ''_db_find_and_lock: writew_lock error''
                             else ''_db_find_and_lock: readw_lock error'') else
     bnd (gets ptroff) (\<lambda>p.
     bnd (db_readptr p) (\<lambda>offset.
     bnd (gets idx_fuel) (\<lambda>fuel.
     bnd (db_find_loop fuel key offset) (\<lambda>offset.
     ret (if offset = 0 then -1 else 0)))))) s1"
    unfolding db_find_and_lock_def using p by (simp add: s1_def)
  also have "\<dots> = bnd (db_find_loop (idx_fuel (s2\<lparr>k_ofd := X\<rparr>)) key (int (cell ps rs ?p)))
      (\<lambda>offset. ret (if offset = 0 then -1 else 0)) (s2\<lparr>k_ofd := X\<rparr>)"
    unfolding bnd_run [of "if w then _ else _"] lk by (simp add: p' bnd_run X del: of_nat_mult)
  finally show ?thesis
    using rep3 by (intro exI [of _ "s2\<lparr>k_ofd := X\<rparr>"]) (simp add: s2_def s1_def)
qed

lemma find_none:
  assumes rep: "rep_at (\<lambda>_. F_UNLCK) i j ps rs ch s m" and none: "m key = None"
  shows "\<exists>t. db_find_and_lock key w s = Ok (-1) t \<and>
    rep_at (lk1 (hb key * PTR_SZ) (lk_of w)) i j ps rs ch t m \<and> chainoff t = int (hb key * PTR_SZ) \<and>
    stats t = stats s \<and> k_data t = k_data s"
proof -
  from find_start [OF rep, of key w] obtain t where t: "db_find_and_lock key w s =
      bnd (db_find_loop (idx_fuel t) key (int (cell ps rs (hb key * PTR_SZ)))) (\<lambda>offset. ret (if offset = 0 then -1 else 0)) t"
    "rep_at (lk1 (hb key * PTR_SZ) (lk_of w)) i j ps rs ch t m" "chainoff t = int (hb key * PTR_SZ)" "stats t = stats s"
    "k_data t = k_data s"
    by blast
  note r = rep_atD [OF t(2)] and c = rep_chain [OF t(2) hb_bounds(2), of key]
  have "\<forall>x \<in> set (ch (hb key)). key_at rs x \<noteq> key"
    using inv_lookup_None [OF r(5) none] by (fastforce simp: key_at_def)
  from db_find_loop_none [OF r(1,4) c(1) less_imp_le [OF c(2)] this] obtain u where
    "db_find_loop (idx_fuel t) key (int (cell ps rs (hb key * PTR_SZ))) t = Ok 0 u" and sc: "scanned t u" "dbenv i j u"
    by blast
  then have "db_find_and_lock key w s = Ok (-1) u" using t(1) by (simp add: bnd_Ok)
  then show ?thesis
    using rep_scanned [OF t(2) sc] scannedD(1,3) [OF sc(1)] scanned_stats [OF sc(1)] t(3-5) by auto
qed

lemma find_found:
  assumes rep: "rep_at (\<lambda>_. F_UNLCK) i j ps rs ch s m" and some: "m key = Some dat"
  obtains t x xs ys d where "db_find_and_lock key w s = Ok 0 t"
    and "rep_at (lk1 (hb key * PTR_SZ) (lk_of w)) i j ps rs ch t m" and "chainoff t = int (hb key * PTR_SZ)"
    and "stats t = stats s" and "ch (hb key) = xs @ x # ys" and "info rs x = Some (key, d, Suc (length dat))"
    and "at_rec ps rs x key d (Suc (length dat)) t" and "ptroff t = int (last (hb key * PTR_SZ # xs))"
    and "holds (k_data t j) d dat" and "NUL \<notin> set dat" and "k_data t = k_data s"
proof -
  from find_start [OF rep, of key w] obtain t where t: "db_find_and_lock key w s =
      bnd (db_find_loop (idx_fuel t) key (int (cell ps rs (hb key * PTR_SZ)))) (\<lambda>offset. ret (if offset = 0 then -1 else 0)) t"
    "rep_at (lk1 (hb key * PTR_SZ) (lk_of w)) i j ps rs ch t m" "chainoff t = int (hb key * PTR_SZ)"
    "ptroff t = int (hb key * PTR_SZ)" "stats t = stats s" "k_data t = k_data s"
    by blast
  note r = rep_atD [OF t(2)] and c = rep_chain [OF t(2) hb_bounds(2), of key]
  from r(5) some obtain x xs ys d where x: "ch (hb key) = xs @ x # ys" "info rs x = Some (key, d, Suc (length dat))"
    "holds (k_data t j) d dat" "NUL \<notin> set dat"
    and pre: "\<And>y. y \<in> set xs \<Longrightarrow> \<exists>k' d n. info rs y = Some (k', d, n) \<and> k' \<noteq> key"
    by (rule inv_lookup_Some) blast
  have "\<forall>y \<in> set xs. key_at rs y \<noteq> key" using pre by (fastforce simp: key_at_def)
  moreover have "length xs < idx_fuel t" using c(2) x(1) by simp
  ultimately obtain u where
    u: "db_find_loop (idx_fuel t) key (int (cell ps rs (hb key * PTR_SZ))) t = Ok (int x) u" "scanned t u" "dbenv i j u"
      "at_rec ps rs x key d (Suc (length dat)) u" "ptroff u = int (last (hb key * PTR_SZ # xs))"
    using db_find_loop_found [OF r(1,4) c(1) [unfolded x(1)] _ _ x(2) t(4)] by blast
  have "x \<noteq> 0" using x(2) rheap_bounds [of rs x] by (auto simp: info_def rec_base_def)
  then have "db_find_and_lock key w s = Ok 0 u" using t(1) u(1) by (simp add: bnd_Ok)
  then show ?thesis
    using rep_scanned [OF t(2) u(2,3)] scannedD(1,3) [OF u(2)] scanned_stats [OF u(2)] t(3,5,6) x u(4,5)
    by (intro that [of u xs x ys d]) simp_all
qed

end
