(* ===== verification/Db_Update.thy ===== *)
theory Db_Update
  imports Db_Rep
begin

section \<open>Fetching, deleting and storing on the representation\<close>

text \<open>
  \<open>db_fetch\<close> returns what the map holds; \<open>_db_dodelete\<close> moves a record to the free list, with blank key
  and data; \<open>_db_findfree\<close> takes a record of the right size off the free list; \<open>db_store\<close> writes a new
  record at the end of the files, or into a free record, or over the old data. Each lemma gives the
  outcome and the map the handle represents afterwards.
\<close>

lemma db_fetch_run:
  assumes "db_rep s m"
  shows "\<exists>t. db_fetch key s = Ok (m key) t \<and> db_rep t m \<and>
    stats t = (case m key of None \<Rightarrow> (stats s)[3 := cnt_fetcherr s + 1] | Some _ \<Rightarrow> (stats s)[2 := cnt_fetchok s + 1]) \<and>
    idx_size t = idx_size s \<and> dat_size t = dat_size s"
proof -
  from assms obtain i j ps rs ch where rep: "rep_at (\<lambda>_. F_UNLCK) i j ps rs ch s m"
    unfolding db_rep_def by blast
  let ?p = "hb key * PTR_SZ"
  show ?thesis
  proof (cases "m key")
    case None
    from find_none [OF rep None, of False] obtain t where t: "db_find_and_lock key False s = Ok (-1) t"
      "rep_at (lk1 ?p (lk_of False)) i j ps rs ch t m" "chainoff t = int ?p" "stats t = stats s"
      "k_data t = k_data s" by blast
    let ?t = "t\<lparr>cnt_fetcherr := cnt_fetcherr t + 1\<rparr>"
    have "rep_at (lk1 ?p (lk_of False)) i j ps rs ch ?t m" using rep_atD(1) [OF t(2)] by (intro rep_frame [OF t(2)]) simp_all
    then obtain u where u: "unlock_chain ''db_fetch'' ?t = Ok () u" "rep_at (\<lambda>_. F_UNLCK) i j ps rs ch u m"
      "stats u = stats ?t" "k_data u = k_data ?t"
      using unlock_chain_run [of ?p "lk_of False" i j ps rs ch ?t m "''db_fetch''"] t(3) by auto
    have "db_fetch key s = Ok None u" using t(1) u(1) by (simp add: db_fetch_def bnd_run)
    moreover have "stats u = (stats s)[3 := cnt_fetcherr s + 1]" using t(4) u(3) by (simp add: stats_def)
    ultimately show ?thesis using db_repI [OF u(2)] rep_sizes [OF rep u(2)] u(4) t(5) None by auto
  next
    case (Some dat)
    from find_found [OF rep Some, of False] obtain t x xs ys d where t: "db_find_and_lock key False s = Ok 0 t"
      "rep_at (lk1 ?p (lk_of False)) i j ps rs ch t m" "chainoff t = int ?p" "stats t = stats s"
      "at_rec ps rs x key d (Suc (length dat)) t" "holds (k_data t j) d dat" "NUL \<notin> set dat"
      "k_data t = k_data s" "info rs x = Some (key, d, Suc (length dat))" by metis
    have env: "dbenv i j t" using t(2) by (rule rep_atD)
    have "int (Suc (length dat)) \<le> DATLEN_MAX" using rep_atD(4) [OF t(2)] t(9) by (rule info_small)
    from db_readdat_ok [OF env _ _ t(6,7) this] t(5) obtain X b where
      rd: "db_readdat t = Ok dat (t\<lparr>k_ofd := X, datbuf := b\<rparr>)" and X: "dbenv i j (t\<lparr>k_ofd := X\<rparr>)"
      by (auto simp: at_rec_def)
    let ?t = "t\<lparr>k_ofd := X, datbuf := b, cnt_fetchok := cnt_fetchok t + 1\<rparr>"
    have "rep_at (lk1 ?p (lk_of False)) i j ps rs ch ?t m" using X by (intro rep_frame [OF t(2)]) simp_all
    then obtain u where u: "unlock_chain ''db_fetch'' ?t = Ok () u" "rep_at (\<lambda>_. F_UNLCK) i j ps rs ch u m"
      "stats u = stats ?t" "k_data u = k_data ?t"
      using unlock_chain_run [of ?p "lk_of False" i j ps rs ch ?t m "''db_fetch''"] t(3) by auto
    have "db_fetch key s = Ok (Some dat) u" using t(1) rd u(1) by (simp add: db_fetch_def bnd_run)
    moreover have "stats u = (stats s)[2 := cnt_fetchok s + 1]" using t(4) u(3) by (simp add: stats_def)
    ultimately show ?thesis using db_repI [OF u(2)] rep_sizes [OF rep u(2)] u(4) t(8) Some by auto
  qed
qed

subsection \<open>The primitives, without the bytes of the index file\<close>

text \<open>
  \<open>core c nf N D L i j s\<close>: the index file of \<open>N\<close> bytes has the pointer cells \<open>c\<close> and the record information
  \<open>nf\<close>, the data file is \<open>D\<close>, and \<open>L\<close> are the locks held on the index file. \<open>hv\<close> and \<open>ri\<close> collect the
  handle's fields: those none of the primitives changes, and those that describe the current record.
\<close>

definition core :: "(nat \<Rightarrow> nat) \<Rightarrow> rec_info \<Rightarrow> nat \<Rightarrow> bytes \<Rightarrow> (nat \<Rightarrow> lktype) \<Rightarrow> nat \<Rightarrow> nat \<Rightarrow> DB \<Rightarrow> bool" where
  "core c nf N D L i j s \<longleftrightarrow> dbenv i j s \<and> k_lock s i = L \<and> k_lock s j = (\<lambda>_. F_UNLCK) \<and> k_data s j = D \<and>
     (\<exists>ps rs. lay i s ps rs \<and> cell ps rs = c \<and> info rs = nf \<and> rec_base + tlen rs = N)"

definition hv :: "DB \<Rightarrow> int \<times> int \<times> int \<times> int \<times> 64 word list" where
  "hv s = (idxfd s, datfd s, chainoff s, ptroff s, stats s)"

definition ri :: "DB \<Rightarrow> int \<times> int \<times> int \<times> int" where
  "ri s = (idxoff s, ptrval s, datoff s, datlen s)"

definition cellp :: "rec_info \<Rightarrow> nat \<Rightarrow> bool" where
  "cellp nf p \<longleftrightarrow> (\<exists>h < ntab. p = h * PTR_SZ) \<or> nf p \<noteq> None"

lemma cellp_info [simp]: "cellp (info rs) = is_cell rs"
  by (simp add: cellp_def is_cell_def info_None fun_eq_iff)

lemma cellp_0 [simp]: "cellp nf 0" and cellp_tab [simp]: "h < ntab \<Longrightarrow> cellp nf (h * PTR_SZ)"
  by (auto simp: cellp_def intro: exI [of _ 0])

lemma cellp_mono: "cellp nf p \<Longrightarrow> cellp (nf(x \<mapsto> v)) p"
  unfolding cellp_def by (metis fun_upd_apply option.distinct(1))

lemma coreI:
  assumes "dbenv i j s" and "k_lock s i = L" and "k_lock s j = (\<lambda>_. F_UNLCK)" and "k_data s j = D"
    and "lay i s ps rs" and "cell ps rs = c" and "info rs = nf" and "rec_base + tlen rs = N"
  shows "core c nf N D L i j s"
  using assms unfolding core_def by blast

lemma coreE:
  assumes "core c nf N D L i j s"
  obtains ps rs where "dbenv i j s" "i \<noteq> j" "k_lock s i = L" "k_lock s j = (\<lambda>_. F_UNLCK)" "k_data s j = D"
    "k_data s i = idx_bytes ps rs" "tab_ok ps" "recs_ok rs" "cell ps rs = c" "info rs = nf" "rec_base + tlen rs = N"
  using assms unfolding core_def lay_def dbenv_def by blast

lemma rep_core:
  assumes "rep_at L i j ps rs ch s m"
  shows "core (cell ps rs) (info rs) (rec_base + tlen rs) (k_data s j) L i j s"
  using assms unfolding core_def rep_at_def by blast

lemma core_rep:
  assumes "core c nf N D L i j s" and "db_inv c nf ch D m"
  shows "\<exists>ps rs. rep_at L i j ps rs ch s m \<and> cell ps rs = c \<and> info rs = nf \<and> rec_base + tlen rs = N"
  using assms unfolding core_def rep_at_def by blast

lemma core_ptr_ok: "core c nf N D L i j s \<Longrightarrow> cellp nf p \<Longrightarrow> ptr_ok (c p)"
  unfolding core_def lay_def using read_cell(3) by auto

lemma core_lock:
  assumes "core c nf N D L i j s"
  shows "\<exists>t. lock_reg (idxfd s) cmd ty (int p) SEEK_SET 1 s = Ok 0 t \<and> core c nf N D (L(p := ty)) i j t \<and>
    hv t = hv s \<and> ri t = ri s \<and> idxbuf t = idxbuf s \<and> datbuf t = datbuf s"
proof -
  have env: "dbenv i j s" and ij: "i \<noteq> j" using assms by (auto simp: core_def dbenv_def)
  show ?thesis
    using idx_lock_1 [OF env, of cmd ty p] assms ij
    by (intro exI [of _ "s\<lparr>k_lock := (k_lock s)(i := (k_lock s i)(p := ty))\<rparr>"])
      (auto simp: core_def lay_def hv_def ri_def)
qed

lemma core_readptr:
  assumes "core c nf N D L i j s" and "cellp nf p"
  shows "\<exists>t. db_readptr (int p) s = Ok (int (c p)) t \<and> core c nf N D L i j t \<and>
    hv t = hv s \<and> ri t = ri s \<and> idxbuf t = idxbuf s \<and> datbuf t = datbuf s"
proof -
  from assms(1) obtain ps rs where e: "dbenv i j s" "lay i s ps rs" "cell ps rs = c" "info rs = nf"
    unfolding core_def by blast
  have "is_cell rs p" using assms(2) e(4) by auto
  from db_readptr_cell [OF e(1) _ _ _ this, of ps] e(2) obtain X where
    "db_readptr (int p) s = Ok (int (cell ps rs p)) (s\<lparr>k_ofd := X\<rparr>)" "dbenv i j (s\<lparr>k_ofd := X\<rparr>)"
    unfolding lay_def by blast
  then show ?thesis using assms(1) e(3) by (auto simp: core_def lay_def hv_def ri_def)
qed

lemma core_writeptr:
  assumes "core c nf N D L i j s" and "cellp nf p" and "ptr_ok q"
  shows "\<exists>t. db_writeptr (int p) (int q) s = Ok () t \<and> core (c(p := q)) nf N D L i j t \<and>
    hv t = hv s \<and> ri t = ri s \<and> idxbuf t = idxbuf s \<and> datbuf t = datbuf s"
proof -
  from assms(1) obtain ps rs where e: "dbenv i j s" "i \<noteq> j" "k_lock s i = L" "k_lock s j = (\<lambda>_. F_UNLCK)"
    "k_data s j = D" "k_data s i = idx_bytes ps rs" "tab_ok ps" "recs_ok rs"
    "cell ps rs = c" "info rs = nf" "rec_base + tlen rs = N"
    by (rule coreE)
  have p: "is_cell rs p" using assms(2) e(10) by auto
  from db_writeptr_cell [OF e(1,6,7,8) p assms(3)] obtain X ps' rs' where w:
    "db_writeptr (int p) (int q) s = Ok () (s\<lparr>k_ofd := X, k_data := (k_data s)(i := idx_bytes ps' rs')\<rparr>)"
    "dbenv i j (s\<lparr>k_ofd := X, k_data := (k_data s)(i := idx_bytes ps' rs')\<rparr>)"
    "tab_ok ps'" "recs_ok rs'" "cell ps' rs' = (cell ps rs)(p := q)" "info rs' = info rs" "tlen rs' = tlen rs"
    by metis
  let ?t = "s\<lparr>k_ofd := X, k_data := (k_data s)(i := idx_bytes ps' rs')\<rparr>"
  have "core (c(p := q)) nf N D L i j ?t"
    by (rule coreI [of _ _ _ _ _ ps' rs']) (use w(2-7) e in \<open>simp_all add: lay_def\<close>)
  then show ?thesis using w(1) by (auto simp: hv_def ri_def)
qed

lemma irec_ok_rekey:
  assumes "irec_ok r" and "length k = length (ir_key r)" and "SEP \<notin> set k" and "NUL \<notin> set k" and "ptr_ok q"
  shows "irec_ok \<lparr>ir_ptr = q, ir_key = k, ir_doff = ir_doff r, ir_dlen = ir_dlen r\<rparr>"
    and "rlen \<lparr>ir_ptr = q, ir_key = k, ir_doff = ir_doff r, ir_dlen = ir_dlen r\<rparr> = rlen r"
  using assms by (simp_all add: irec_ok_def rlen_def irec_body_def)

text \<open>Overwriting the record at \<open>x\<close> with another key of the same length and another pointer.\<close>

lemma core_rewrite:
  assumes "core c nf N D L i j s" and "nf x = Some (k0, d, n)"
    and k: "length k = length k0" "SEP \<notin> set k" "NUL \<notin> set k" and q: "ptr_ok q"
    and at: "datoff s = int d" "datlen s = int n"
  shows "\<exists>t. db_writeidx k (int x) SEEK_SET (int q) s = Ok () t \<and>
    core (c(x := q)) (nf(x \<mapsto> (k, d, n))) N D L i j t \<and> hv t = hv s \<and> ri t = (int x, int q, int d, int n)"
proof -
  from assms(1) obtain ps rs where e: "dbenv i j s" "i \<noteq> j" "k_lock s i = L" "k_lock s j = (\<lambda>_. F_UNLCK)"
    "k_data s j = D" "k_data s i = idx_bytes ps rs" "tab_ok ps" "recs_ok rs"
    "cell ps rs = c" "info rs = nf" "rec_base + tlen rs = N"
    by (rule coreE)
  from assms(2) e(10) obtain r where r: "rheap rs x = Some r" "ir_key r = k0" "ir_doff r = d" "ir_dlen r = n"
    by (auto simp: info_Some)
  have mk: "mk_rec k q s = \<lparr>ir_ptr = q, ir_key = k, ir_doff = ir_doff r, ir_dlen = ir_dlen r\<rparr>"
    using at r by (simp add: mk_rec_def)
  have kl: "length k = length (ir_key r)" using k(1) r(2) by simp
  note ok' = irec_ok_rekey [OF rheap_ok [OF e(8) r(1)] kl k(2,3) q, folded mk]
  obtain rs' where rs': "put_at (idx_bytes ps rs) x (irec_bytes (mk_rec k q s)) = idx_bytes ps rs'"
    "recs_ok rs'" "rheap rs' = (rheap rs)(x \<mapsto> mk_rec k q s)" "tlen rs' = tlen rs"
    using write_record [OF e(7,8) r(1) ok'] by metis
  obtain X b where X: "db_writeidx k (int x) SEEK_SET (int q) s = Ok () (s\<lparr>k_ofd := X,
      k_data := (k_data s)(i := put_at (k_data s i) x (irec_bytes (mk_rec k q s))),
      ptrval := int q, idxbuf := b, idxoff := int x\<rparr>)" "dbenv i j (s\<lparr>k_ofd := X\<rparr>)"
    using db_writeidx_set [OF e(1) _ _ ok'(1), of x] at by auto
  let ?t = "s\<lparr>k_ofd := X, k_data := (k_data s)(i := idx_bytes ps rs'), ptrval := int q, idxbuf := b, idxoff := int x\<rparr>"
  have cc: "cell ps rs' = c(x := q)" using cell_upd_rec [OF _ rs'(3)] r(1) e(9) by (simp add: mk)
  have ii: "info rs' = nf(x \<mapsto> (k, d, n))" using rs'(3) r e(10) by (auto simp: info_def fun_eq_iff mk)
  have "core (c(x := q)) (nf(x \<mapsto> (k, d, n))) N D L i j ?t"
    by (rule coreI [of _ _ _ _ _ ps rs']) (use X(2) rs' e cc ii in \<open>simp_all add: lay_def\<close>)
  then show ?thesis using X(1) rs'(1) e(6) at by (auto simp: hv_def ri_def)
qed

lemma rheap_end: "rheap rs (rec_base + tlen rs) = None"
proof (rule ccontr)
  assume "rheap rs (rec_base + tlen rs) \<noteq> None"
  then obtain r where "rheap rs (rec_base + tlen rs) = Some r" by blast
  from rheap_bounds [OF this] rlen_pos [of r] show False by simp
qed

lemma cell_append: "cell ps (rs @ [r]) = (cell ps rs)(rec_base + tlen rs := ir_ptr r)"
  unfolding cell_def rheap_append by (auto simp: fun_eq_iff rec_base_def)

lemma core_append:
  assumes "core c nf N D L i j s" and lk: "\<forall>b \<ge> rec_base. L b = F_UNLCK"
    and at: "datoff s = int d" "datlen s = int n"
    and ok: "irec_ok \<lparr>ir_ptr = q, ir_key = k, ir_doff = d, ir_dlen = n\<rparr>"
  shows "\<exists>t N'. db_writeidx k 0 SEEK_END (int q) s = Ok () t \<and>
    core (c(N := q)) (nf(N \<mapsto> (k, d, n))) N' D L i j t \<and> hv t = hv s \<and> ri t = (int N, int q, int d, int n) \<and>
    N' \<le> N + 1035"
    and "nf N = None" and "rec_base \<le> N"
proof -
  from assms(1) obtain ps rs where e: "dbenv i j s" "i \<noteq> j" "k_lock s i = L" "k_lock s j = (\<lambda>_. F_UNLCK)"
    "k_data s j = D" "k_data s i = idx_bytes ps rs" "tab_ok ps" "recs_ok rs"
    "cell ps rs = c" "info rs = nf" "rec_base + tlen rs = N"
    by (rule coreE)
  show "nf N = None" using rheap_end [of rs] e(10,11) by (auto simp: info_def)
  show "rec_base \<le> N" using e(11) by simp
  let ?r = "\<lparr>ir_ptr = q, ir_key = k, ir_doff = d, ir_dlen = n\<rparr>"
  have mk: "mk_rec k q s = ?r" using at by (simp add: mk_rec_def)
  have N: "length (k_data s i) = N" using length_idx_bytes [OF e(7,8)] e(6,11) by simp
  have lk': "\<forall>b \<ge> rec_base. k_lock s i b = F_UNLCK" using lk e(3) by simp
  obtain X b where X: "db_writeidx k 0 SEEK_END (int q) s = Ok () (s\<lparr>k_ofd := X,
      k_data := (k_data s)(i := k_data s i @ irec_bytes ?r), ptrval := int q, idxbuf := b, idxoff := int N\<rparr>)"
    "dbenv i j (s\<lparr>k_ofd := X\<rparr>)"
    using db_writeidx_end [OF e(1) _ _ _ lk', of k q] at ok N by (auto simp: mk)
  let ?t = "s\<lparr>k_ofd := X, k_data := (k_data s)(i := k_data s i @ irec_bytes ?r), ptrval := int q, idxbuf := b, idxoff := int N\<rparr>"
  note ap = append_record [OF e(7,8) ok]
  have ii: "info (rs @ [?r]) = nf(N \<mapsto> (k, d, n))"
    using e(10,11) unfolding info_def rheap_append by (auto simp: fun_eq_iff)
  have "core (c(N := q)) (nf(N \<mapsto> (k, d, n))) (rec_base + tlen (rs @ [?r])) D L i j ?t"
    by (rule coreI [of _ _ _ _ _ ps "rs @ [?r]"]) (use X(2) ap e ii in \<open>simp_all add: lay_def cell_append\<close>)
  moreover have "rlen ?r \<le> 1035" using ok by (simp add: irec_ok_def rlen_def db_consts)
  then have "rec_base + tlen (rs @ [?r]) \<le> N + 1035" using e(11) by simp
  ultimately show "\<exists>t N'. db_writeidx k 0 SEEK_END (int q) s = Ok () t \<and>
    core (c(N := q)) (nf(N \<mapsto> (k, d, n))) N' D L i j t \<and> hv t = hv s \<and> ri t = (int N, int q, int d, int n) \<and>
    N' \<le> N + 1035"
    using X(1) at by (intro exI [of _ ?t] exI [of _ "rec_base + tlen (rs @ [?r])"]) (auto simp: hv_def ri_def)
qed

lemma core_data_set:
  assumes "core c nf N D L i j s"
  shows "\<exists>t. db_writedat data (int d) SEEK_SET s = Ok () t \<and>
    core c nf N (put_at D d (data @ [NEWLINE])) L i j t \<and> hv t = hv s \<and>
    ri t = (idxoff s, ptrval s, int d, int (Suc (length data))) \<and> idxbuf t = idxbuf s"
proof -
  from assms obtain ps rs where e: "dbenv i j s" "i \<noteq> j" "k_lock s i = L" "k_lock s j = (\<lambda>_. F_UNLCK)"
    "k_data s j = D" "k_data s i = idx_bytes ps rs" "tab_ok ps" "recs_ok rs"
    "cell ps rs = c" "info rs = nf" "rec_base + tlen rs = N"
    by (rule coreE)
  from db_writedat_set [OF e(1)] obtain X where X: "db_writedat data (int d) SEEK_SET s = Ok () (s\<lparr>k_ofd := X,
      k_data := (k_data s)(j := put_at (k_data s j) d (data @ [NEWLINE])),
      datoff := int d, datlen := int (Suc (length data))\<rparr>)" "dbenv i j (s\<lparr>k_ofd := X\<rparr>)" by blast
  let ?t = "s\<lparr>k_ofd := X, k_data := (k_data s)(j := put_at (k_data s j) d (data @ [NEWLINE])),
      datoff := int d, datlen := int (Suc (length data))\<rparr>"
  have "core c nf N (put_at D d (data @ [NEWLINE])) L i j ?t"
    by (rule coreI [of _ _ _ _ _ ps rs]) (use X(2) e in \<open>simp_all add: lay_def\<close>)
  then show ?thesis using X(1) by (auto simp: hv_def ri_def)
qed

lemma core_data_end:
  assumes "core c nf N D L i j s"
  shows "\<exists>t. db_writedat data 0 SEEK_END s = Ok () t \<and>
    core c nf N (D @ data @ [NEWLINE]) L i j t \<and> hv t = hv s \<and>
    ri t = (idxoff s, ptrval s, int (length D), int (Suc (length data)))"
proof -
  from assms obtain ps rs where e: "dbenv i j s" "i \<noteq> j" "k_lock s i = L" "k_lock s j = (\<lambda>_. F_UNLCK)"
    "k_data s j = D" "k_data s i = idx_bytes ps rs" "tab_ok ps" "recs_ok rs"
    "cell ps rs = c" "info rs = nf" "rec_base + tlen rs = N"
    by (rule coreE)
  from db_writedat_end [OF e(1,4)] obtain X where X: "db_writedat data 0 SEEK_END s = Ok () (s\<lparr>k_ofd := X,
      k_data := (k_data s)(j := k_data s j @ data @ [NEWLINE]),
      datoff := int (length (k_data s j)), datlen := int (Suc (length data))\<rparr>)" "dbenv i j (s\<lparr>k_ofd := X\<rparr>)" by blast
  let ?t = "s\<lparr>k_ofd := X, k_data := (k_data s)(j := k_data s j @ data @ [NEWLINE]),
      datoff := int (length (k_data s j)), datlen := int (Suc (length data))\<rparr>"
  have "core c nf N (D @ data @ [NEWLINE]) L i j ?t"
    by (rule coreI [of _ _ _ _ _ ps rs]) (use X(2) e in \<open>simp_all add: lay_def\<close>)
  then show ?thesis using X(1) e(5) by (auto simp: hv_def ri_def)
qed

subsection \<open>\<open>_db_dodelete\<close>\<close>

lemma cstr_blank: "cstr (put_at b 0 (replicate (length (cstr b)) SPACE)) = replicate (length (cstr b)) SPACE"
proof -
  define c where "c = dropWhile (\<lambda>c. c \<noteq> NUL) b"
  have b: "b = cstr b @ c" by (simp add: cstr_def c_def)
  have c: "c = [] \<or> (\<exists>c'. c = NUL # c')"
    using dropWhile_eq_Cons_conv [of "\<lambda>c. c \<noteq> NUL" b] by (cases c) (auto simp: c_def)
  have "put_at b 0 (replicate (length (cstr b)) SPACE) = replicate (length (cstr b)) SPACE @ c"
    by (subst b) (simp add: put_at_def)
  moreover have "NUL \<notin> set (replicate (length (cstr b)) SPACE)" by (simp add: SPACE_def)
  ultimately show ?thesis using c cstr_id by (elim disjE exE) auto
qed

lemma cstr_put_NUL: "NUL \<notin> set a \<Longrightarrow> cstr (put_at b 0 (a @ [NUL])) = a"
  by (simp add: put_at_def)

text \<open>
  The cells after \<open>_db_dodelete\<close>: the record's own field, the head of the free list, the field that led to
  the record, in the order of the writes. The result is the record taken off its chain and then pushed
  on the free list.
\<close>

lemma delete_cells:
  assumes "prev \<noteq> x" and "prev \<noteq> 0" and "x \<noteq> (0::nat)"
  shows "c(x := c 0, 0 := x, prev := c x) = (c(prev := c x))(x := (c(prev := c x)) 0, 0 := x)"
  using assms by (auto simp: fun_eq_iff)

lemma prev_cell_neq:
  assumes l: "linked c ch" and h: "h < ntab" "0 < h" and ch: "ch h = xs @ x # ys"
  shows "last (h * PTR_SZ # xs) \<noteq> x" and "last (h * PTR_SZ # xs) \<noteq> 0" and "x \<noteq> 0"
proof -
  have d: "distinct (h * PTR_SZ # xs @ x # ys)" using linked_distinct [OF l h(1)] ch by simp
  then show "last (h * PTR_SZ # xs) \<noteq> x" by (cases "xs = []") auto
  have "rec_base \<le> y" if "y \<in> set (ch h)" for y using l h(1) that by (simp add: linked_def)
  then have nz: "y \<noteq> 0" if "y \<in> set (ch h)" for y using that by (fastforce simp: rec_base_def)
  then show "x \<noteq> 0" using ch by simp
  show "last (h * PTR_SZ # xs) \<noteq> 0"
    using h(2) nz ch by (cases "xs = []") auto
qed

lemma prev_cellp:
  assumes inv: "db_inv c nf ch D m" and h: "h < ntab" and ch: "ch h = xs @ x # ys"
  shows "cellp nf (last (h * PTR_SZ # xs))" and "c (last (h * PTR_SZ # xs)) = x"
proof -
  note l = db_invD [OF inv]
  show "c (last (h * PTR_SZ # xs)) = x" using chain_at [of c "h * PTR_SZ" xs x ys] linked_chain [OF l(1) h] ch by simp
  have "nf y \<noteq> None" if "y \<in> set (ch h)" for y using l(2) h that unfolding owned_def by blast
  then show "cellp nf (last (h * PTR_SZ # xs))"
    using h ch last_in_set [of xs] by (cases "xs = []") (auto simp: cellp_def)
qed

lemma inv_delete:
  assumes inv: "db_inv c nf ch D m" and ch: "ch (hb k) = xs @ x # ys" and x: "nf x = Some (k, d, n)"
  shows "db_inv (c(x := c 0, 0 := x, last (hb k * PTR_SZ # xs) := c x)) (nf(x \<mapsto> (replicate (length k) SPACE, d, n)))
    (ch(hb k := xs @ ys, 0 := x # ch 0)) (put_at D d (replicate (n - 1) SPACE @ [NEWLINE])) (m(k := None))"
proof -
  note l = db_invD [OF inv]
  define prev where "prev = last (hb k * PTR_SZ # xs)"
  let ?ch = "ch(hb k := xs @ ys)" and ?b = "replicate (length k) SPACE" and ?s = "replicate (n - 1) SPACE"
  have lo: "loose x (c(prev := c x)) nf ?ch D (m(k := None))"
    using inv_unlink [OF inv _ ch x] by (simp add: prev_def del: last.simps)
  have n: "Suc (length ?s) = n" using l(4) x by (auto simp: data_ok_def good_def)
  have fr: "fresh_region nf D x d (Suc (length ?s))" unfolding n using l(4) x by (rule fresh_own)
  have nul: "NUL \<notin> set ?s" by (simp add: SPACE_def)
  have cells: "c(x := c 0, 0 := x, prev := c x) = (c(prev := c x))(x := (c(prev := c x)) 0, 0 := x)"
    by (rule delete_cells) (use prev_cell_neq [OF l(1) _ _ ch] in \<open>simp_all add: prev_def del: last.simps\<close>)
  have chs: "?ch(0 := x # ?ch 0) = ch(hb k := xs @ ys, 0 := x # ch 0)"
    using hb_bounds(3) [of k] by simp
  have "db_inv ((c(prev := c x))(x := (c(prev := c x)) 0, 0 := x)) (nf(x \<mapsto> (?b, d, Suc (length ?s))))
      (?ch(0 := x # ?ch 0)) (put_at D d (?s @ [NEWLINE])) (m(k := None))"
    using lo fr nul by (rule inv_link_free) auto
  then show ?thesis by (simp only: prev_def [symmetric] cells chs n)
qed

lemma db_dodelete_run:
  assumes co: "core c nf N D L i j s" and inv: "db_inv c nf ch D m" and L: "L 0 = F_UNLCK"
    and ch: "ch (hb k) = xs @ x # ys" and x: "nf x = Some (k, d, n)"
    and rec: "ri s = (int x, int (c x), int d, int n)" "cstr (idxbuf s) = k"
    and prev: "ptroff s = int (last (hb k * PTR_SZ # xs))"
  obtains t c' nf' ch' where "db_dodelete s = Ok () t"
    and "core c' nf' N (put_at D d (replicate (n - 1) SPACE @ [NEWLINE])) L i j t"
    and "db_inv c' nf' ch' (put_at D d (replicate (n - 1) SPACE @ [NEWLINE])) (m(k := None))" and "hv t = hv s"
proof -
  note l = db_invD [OF inv]
  let ?b = "replicate (length k) SPACE" and ?s = "replicate (n - 1) SPACE"
  define q where "q = last (hb k * PTR_SZ # xs)"
  have ptr: "ptroff s = int q" using prev by (simp only: q_def)
  have n: "Suc (length ?s) = n" "nat (int n - 1) = n - 1" using l(4) x by (auto simp: data_ok_def good_def)
  define s0 where "s0 = s\<lparr>datbuf := put_at (datbuf s) 0 (?s @ [NUL]), idxbuf := put_at (idxbuf s) 0 ?b\<rparr>"
  have b0: "cstr (datbuf s0) = ?s" "cstr (idxbuf s0) = ?b" "hv s0 = hv s" "ri s0 = ri s" "idxfd s0 = idxfd s"
    using cstr_blank [of "idxbuf s"] rec(2)
    by (simp_all add: s0_def cstr_put_NUL SPACE_def hv_def ri_def)
  have "core c nf N D L i j s0" using co by (simp add: core_def lay_def s0_def)
  from core_lock [OF this, of F_SETLKW F_WRLCK 0] obtain s1 where s1:
    "lock_reg (idxfd s) F_SETLKW F_WRLCK 0 SEEK_SET 1 s0 = Ok 0 s1" "core c nf N D (L(0 := F_WRLCK)) i j s1"
    "hv s1 = hv s" "ri s1 = ri s" "cstr (idxbuf s1) = ?b" "cstr (datbuf s1) = ?s" using b0 by auto
  from core_data_set [OF s1(2), of ?s d] obtain s2 where s2: "db_writedat ?s (int d) SEEK_SET s1 = Ok () s2"
    "core c nf N (put_at D d (?s @ [NEWLINE])) (L(0 := F_WRLCK)) i j s2"
    "hv s2 = hv s" "ri s2 = ri s" "cstr (idxbuf s2) = ?b" using s1 rec(1) n by (auto simp: ri_def)
  from core_readptr [OF s2(2) cellp_0] obtain s3 where s3: "db_readptr 0 s2 = Ok (int (c 0)) s3"
    "core c nf N (put_at D d (?s @ [NEWLINE])) (L(0 := F_WRLCK)) i j s3"
    "hv s3 = hv s" "ri s3 = ri s" "cstr (idxbuf s3) = ?b" using s2 by auto
  have bl: "length ?b = length k" "SEP \<notin> set ?b" "NUL \<notin> set ?b" by (simp_all add: SEP_def SPACE_def)
  have cx: "cellp nf x" using x by (simp add: cellp_def)
  obtain s4 where s4: "db_writeidx ?b (int x) SEEK_SET (int (c 0)) s3 = Ok () s4"
    "core (c(x := c 0)) (nf(x \<mapsto> (?b, d, n))) N (put_at D d (?s @ [NEWLINE])) (L(0 := F_WRLCK)) i j s4"
    "hv s4 = hv s" "idxoff s4 = int x"
    using core_rewrite [OF s3(2) x bl core_ptr_ok [OF co cellp_0]] s3(3,4) rec(1) by (auto simp: ri_def)
  have q: "cellp nf q" "c q = x" unfolding q_def using prev_cellp [OF inv _ ch] by simp_all
  have px: "ptr_ok x" "ptr_ok (c x)" using core_ptr_ok [OF co q(1)] core_ptr_ok [OF co cx] q(2) by simp_all
  from core_writeptr [OF s4(2) cellp_0 px(1)] obtain s5 where s5: "db_writeptr 0 (int x) s4 = Ok () s5"
    "core (c(x := c 0, 0 := x)) (nf(x \<mapsto> (?b, d, n))) N (put_at D d (?s @ [NEWLINE])) (L(0 := F_WRLCK)) i j s5"
    "hv s5 = hv s" using s4(3) by auto
  from core_writeptr [OF s5(2) cellp_mono [OF q(1)] px(2)] obtain s6 where s6:
    "db_writeptr (int q) (int (c x)) s5 = Ok () s6"
    "core (c(x := c 0, 0 := x, q := c x)) (nf(x \<mapsto> (?b, d, n))) N (put_at D d (?s @ [NEWLINE])) (L(0 := F_WRLCK)) i j s6"
    "hv s6 = hv s" using s5(3) by auto
  from core_lock [OF s6(2), of F_SETLK F_UNLCK 0] obtain s7 where s7:
    "lock_reg (idxfd s6) F_SETLK F_UNLCK 0 SEEK_SET 1 s6 = Ok 0 s7"
    "core (c(x := c 0, 0 := x, q := c x)) (nf(x \<mapsto> (?b, d, n))) N (put_at D d (?s @ [NEWLINE])) (L(0 := F_UNLCK)) i j s7"
    "hv s7 = hv s" using s6(3) by auto
  have "db_dodelete s = Ok () s7"
  proof -
    have f: "datoff s = int d" "datlen s = int n" "idxoff s3 = int x" "ptrval s3 = int (c x)" "datoff s1 = int d"
      "ptroff s5 = int q" "idxfd s6 = idxfd s"
      using rec(1) s1(4) s3(4) s5(3) s6(3) ptr by (auto simp: ri_def hv_def)
    show ?thesis
      unfolding db_dodelete_def
      using s1(1,6) s2(1) s3(1,5) s4(1,4) s5(1) s6(1) s7(1) b0 f n rec(2)
      by (simp add: bnd_run writew_lock_def un_lock_def FREE_OFF_def s0_def)
  qed
  moreover have "L(0 := F_UNLCK) = L" using L by auto
  ultimately show ?thesis
    using that s7(2,3) inv_delete [OF inv ch x, folded q_def] by simp
qed

end
