(* ===== verification/Db_Store.thy ===== *)
theory Db_Store
  imports Db_Update
begin

section \<open>\<open>db_delete\<close> and \<open>db_store\<close>\<close>

text \<open>
  The two updating functions, on every branch: a key that is or is not there, a free record of the
  right size or none, old data of the same length or not, and the three flags of \<open>db_store\<close>.
  \<open>room\<close> is what the code needs to add a record: lengths its buffers and fields can hold, no separator in
  the key, and an index file small enough for the seven digits of a pointer.
\<close>

definition key_ok :: "string \<Rightarrow> bool" where
  "key_ok key \<longleftrightarrow> key \<noteq> [] \<and> SEP \<notin> set key \<and> NUL \<notin> set key"

definition dat_ok :: "string \<Rightarrow> bool" where
  "dat_ok dat \<longleftrightarrow> 0 < length dat \<and> length dat < 1024 \<and> NUL \<notin> set dat"

definition room :: "nat \<Rightarrow> nat \<Rightarrow> string \<Rightarrow> string \<Rightarrow> bool" where
  "room isz dsz key dat \<longleftrightarrow> int isz \<le> PTR_MAX \<and> dsz < 2 ^ 63 \<and>
     length key + length (fmt_u dsz) + length (fmt_u (Suc (length dat))) + 3 \<le> 1024"

lemma core_sizes:
  assumes "core c nf N D L i j s"
  shows "idx_size s = N" and "dat_size s = length D"
proof -
  from assms obtain ps rs where e: "dbenv i j s" "k_data s j = D" "k_data s i = idx_bytes ps rs" "tab_ok ps"
    "recs_ok rs" "rec_base + tlen rs = N"
    by (rule coreE)
  then show "idx_size s = N" and "dat_size s = length D"
    using env_sizes [OF e(1)] length_idx_bytes [OF e(4,5)] by simp_all
qed

lemma new_rec_ok:
  assumes "key_ok key" and "dat_ok dat" and "room isz dsz key dat" and "ptr_ok q"
  shows "irec_ok \<lparr>ir_ptr = q, ir_key = key, ir_doff = dsz, ir_dlen = Suc (length dat)\<rparr>"
proof -
  have "0 < length (fmt_u dsz)" "0 < length (fmt_u (Suc (length dat)))" by simp_all
  moreover have "0 < length key" using assms(1) by (simp add: key_ok_def)
  ultimately have "6 \<le> length key + length (fmt_u dsz) + length (fmt_u (Suc (length dat))) + 3" by linarith
  moreover have "length (irec_body \<lparr>ir_ptr = q, ir_key = key, ir_doff = dsz, ir_dlen = Suc (length dat)\<rparr>) =
      length key + length (fmt_u dsz) + length (fmt_u (Suc (length dat))) + 3"
    by (simp add: irec_body_def fmt_d_def del: of_nat_Suc)
  ultimately show ?thesis
    using assms unfolding irec_ok_def by (simp add: key_ok_def dat_ok_def room_def db_consts)
qed

text \<open>Starting from a client's view, and going back to it.\<close>

lemma rep_open:
  assumes "db_rep s m"
  obtains i j ps rs ch where "rep_at (\<lambda>_. F_UNLCK) i j ps rs ch s m"
    and "core (cell ps rs) (info rs) (idx_size s) (k_data s j) (\<lambda>_. F_UNLCK) i j s"
    and "length (k_data s j) = dat_size s"
proof -
  from assms obtain i j ps rs ch where rep: "rep_at (\<lambda>_. F_UNLCK) i j ps rs ch s m" unfolding db_rep_def by blast
  note co = rep_core [OF rep]
  show ?thesis using that [OF rep] co core_sizes [OF co] by simp
qed

lemma finish:
  assumes co: "core c nf N D (lk1 p ty) i j s" and inv: "db_inv c nf ch D m" and c: "chainoff s = int p"
  shows "\<exists>t. unlock_chain who s = Ok () t \<and> db_rep t m \<and> stats t = stats s \<and> k_errno t = k_errno s \<and>
    idx_size t = N \<and> dat_size t = length D"
proof -
  from core_rep [OF co inv] obtain ps rs where rep: "rep_at (lk1 p ty) i j ps rs ch s m" and
    eq: "cell ps rs = c" "info rs = nf" "rec_base + tlen rs = N" by blast
  from unlock_chain_run [OF rep c] obtain t where t: "unlock_chain who s = Ok () t"
    "rep_at (\<lambda>_. F_UNLCK) i j ps rs ch t m" "stats t = stats s" "k_errno t = k_errno s" "k_data t = k_data s" by blast
  note sz = core_sizes [OF rep_core [OF t(2)]] and D = core_def [of c nf N D "lk1 p ty" i j s]
  show ?thesis using t db_repI [OF t(2)] sz eq(3) co D by auto
qed

text \<open>A change of a counter or of \<open>errno\<close> is invisible to the representation.\<close>

lemma core_frame:
  assumes "core c nf N D L i j s" and "dbenv i j t" and "k_data t = k_data s" and "k_lock t = k_lock s"
  shows "core c nf N D L i j t"
  using assms by (simp add: core_def lay_def)

lemma core_env: "core c nf N D L i j s \<Longrightarrow> dbenv i j s"
  by (simp add: core_def)

lemma find_none_core:
  assumes "db_rep s m" and none: "m key = None"
  obtains t c nf D ch i j where "db_find_and_lock key True s = Ok (-1) t"
    and "core c nf (idx_size s) D (lk1 (hb key * PTR_SZ) F_WRLCK) i j t" and "db_inv c nf ch D m"
    and "chainoff t = int (hb key * PTR_SZ)" and "stats t = stats s" and "length D = dat_size s"
proof -
  from assms(1) obtain i j ps rs ch where rep: "rep_at (\<lambda>_. F_UNLCK) i j ps rs ch s m"
    and co: "core (cell ps rs) (info rs) (idx_size s) (k_data s j) (\<lambda>_. F_UNLCK) i j s"
    and dsz: "length (k_data s j) = dat_size s"
    by (rule rep_open)
  from find_none [OF rep none, of True] obtain t where t: "db_find_and_lock key True s = Ok (-1) t"
    "rep_at (lk1 (hb key * PTR_SZ) F_WRLCK) i j ps rs ch t m" "chainoff t = int (hb key * PTR_SZ)"
    "stats t = stats s" "k_data t = k_data s"
    by (auto simp: lk_of_def)
  have "rec_base + tlen rs = idx_size s"
    using core_sizes(1) [OF rep_core [OF rep]] by simp
  then show ?thesis
    using that [OF t(1) _ rep_atD(5) [OF t(2)]] rep_core [OF t(2)] t(3,4,5) dsz by simp
qed

lemma find_found_core:
  assumes "db_rep s m" and some: "m key = Some dat"
  obtains t c nf D ch i j x xs ys d where "db_find_and_lock key True s = Ok 0 t"
    and "core c nf (idx_size s) D (lk1 (hb key * PTR_SZ) F_WRLCK) i j t" and "db_inv c nf ch D m"
    and "chainoff t = int (hb key * PTR_SZ)" and "stats t = stats s" and "length D = dat_size s"
    and "ch (hb key) = xs @ x # ys" and "nf x = Some (key, d, Suc (length dat))"
    and "ri t = (int x, int (c x), int d, int (Suc (length dat)))" and "cstr (idxbuf t) = key"
    and "ptroff t = int (last (hb key * PTR_SZ # xs))"
proof -
  from assms(1) obtain i j ps rs ch where rep: "rep_at (\<lambda>_. F_UNLCK) i j ps rs ch s m"
    and co: "core (cell ps rs) (info rs) (idx_size s) (k_data s j) (\<lambda>_. F_UNLCK) i j s"
    and dsz: "length (k_data s j) = dat_size s"
    by (rule rep_open)
  from find_found [OF rep some, of True] obtain t x xs ys d where t: "db_find_and_lock key True s = Ok 0 t"
    "rep_at (lk1 (hb key * PTR_SZ) F_WRLCK) i j ps rs ch t m" "chainoff t = int (hb key * PTR_SZ)"
    "stats t = stats s" "ch (hb key) = xs @ x # ys" "info rs x = Some (key, d, Suc (length dat))"
    "at_rec ps rs x key d (Suc (length dat)) t" "ptroff t = int (last (hb key * PTR_SZ # xs))" "k_data t = k_data s"
    unfolding lk_of_def if_True by metis
  have "rec_base + tlen rs = idx_size s"
    using core_sizes(1) [OF rep_core [OF rep]] by simp
  then show ?thesis
    using that [OF t(1) _ rep_atD(5) [OF t(2)] t(3,4) _ t(5,6) _ _ t(8)] rep_core [OF t(2)] t(7,9) dsz
    by (simp add: at_rec_def ri_def)
qed

subsection \<open>\<open>db_delete\<close>\<close>

lemma db_delete_run:
  assumes "db_rep s m"
  shows "\<exists>t. db_delete key s = Ok (if m key = None then -1 else 0) t \<and> db_rep t (m(key := None)) \<and>
    stats t = (if m key = None then (stats s)[1 := cnt_delerr s + 1] else (stats s)[0 := cnt_delok s + 1]) \<and>
    idx_size t = idx_size s \<and> dat_size t = dat_size s"
proof (cases "m key")
  case None
  with assms obtain t c nf D ch i j where t: "db_find_and_lock key True s = Ok (-1) t"
    "core c nf (idx_size s) D (lk1 (hb key * PTR_SZ) F_WRLCK) i j t" "db_inv c nf ch D m"
    "chainoff t = int (hb key * PTR_SZ)" "stats t = stats s" "length D = dat_size s"
    by (rule find_none_core) blast
  let ?t = "t\<lparr>cnt_delerr := cnt_delerr t + 1\<rparr>"
  have "core c nf (idx_size s) D (lk1 (hb key * PTR_SZ) F_WRLCK) i j ?t"
    using core_env [OF t(2)] by (intro core_frame [OF t(2)]) simp_all
  from finish [OF this t(3)] t(4) obtain u where u: "unlock_chain ''db_delete'' ?t = Ok () u" "db_rep u m"
    "stats u = stats ?t" "idx_size u = idx_size s" "dat_size u = length D" by auto
  have "db_delete key s = Ok (-1) u" using t(1) u(1) by (simp add: db_delete_def bnd_run)
  moreover have "stats u = (stats s)[1 := cnt_delerr s + 1]" using u(3) t(5) by (simp add: stats_def)
  moreover have "m(key := None) = m" using None by auto
  ultimately show ?thesis using u(2,4,5) t(6) None by auto
next
  case (Some dat)
  with assms obtain t c nf D ch i j x xs ys d where t: "db_find_and_lock key True s = Ok 0 t"
    "core c nf (idx_size s) D (lk1 (hb key * PTR_SZ) F_WRLCK) i j t" "db_inv c nf ch D m"
    "chainoff t = int (hb key * PTR_SZ)" "stats t = stats s"
    "ch (hb key) = xs @ x # ys" "nf x = Some (key, d, Suc (length dat))"
    "ri t = (int x, int (c x), int d, int (Suc (length dat)))" "cstr (idxbuf t) = key"
    "ptroff t = int (last (hb key * PTR_SZ # xs))" "length D = dat_size s"
    by (rule find_found_core) blast
  have L: "lk1 (hb key * PTR_SZ) F_WRLCK 0 = F_UNLCK" by (simp add: lk1_def)
  define D' where "D' = put_at D d (replicate (length dat) SPACE @ [NEWLINE])"
  have D': "length D' = dat_size s"
    using db_invD(4) [OF t(3)] t(7,11) by (fastforce simp: D'_def data_ok_def good_def length_put_at)
  obtain v c' nf' ch' where v: "db_dodelete t = Ok () v"
    "core c' nf' (idx_size s) D' (lk1 (hb key * PTR_SZ) F_WRLCK) i j v"
    "db_inv c' nf' ch' D' (m(key := None))" "hv v = hv t"
    using db_dodelete_run [OF t(2,3) L t(6,7,8,9,10)] unfolding diff_Suc_1 D'_def by metis
  let ?v = "v\<lparr>cnt_delok := cnt_delok v + 1\<rparr>"
  have co: "core c' nf' (idx_size s) D' (lk1 (hb key * PTR_SZ) F_WRLCK) i j ?v"
    using core_env [OF v(2)] by (intro core_frame [OF v(2)]) simp_all
  have "chainoff ?v = int (hb key * PTR_SZ)" using v(4) t(4) by (simp add: hv_def)
  from finish [OF co v(3) this] obtain u where u: "unlock_chain ''db_delete'' ?v = Ok () u" "db_rep u (m(key := None))"
    "stats u = stats ?v" "idx_size u = idx_size s" "dat_size u = length D'" by blast
  have "db_delete key s = Ok 0 u" using t(1) v(1) u(1) by (simp add: db_delete_def bnd_run)
  moreover have "stats u = (stats s)[0 := cnt_delok s + 1]" using u(3) v(4) t(5) by (simp add: stats_def hv_def)
  ultimately show ?thesis using u(2,4,5) D' Some by auto
qed

subsection \<open>\<open>_db_findfree\<close>\<close>

definition suits :: "rec_info \<Rightarrow> nat \<Rightarrow> nat \<Rightarrow> nat \<Rightarrow> bool" where
  "suits nf kl dl x \<longleftrightarrow> (\<exists>k d. nf x = Some (k, d, dl) \<and> length k = kl)"

lemma fits_suits: "info rs x = Some v \<Longrightarrow> fits rs kl dl x \<longleftrightarrow> suits (info rs) kl dl x"
  by (cases v) (auto simp: fits_def suits_def key_at_def)

lemma scanned_core:
  assumes "rep_at L i j ps rs ch s m" and "scanned s t" and "dbenv i j t"
  shows "core (cell ps rs) (info rs) (rec_base + tlen rs) (k_data s j) L i j t"
    and "chainoff t = chainoff s" and "stats t = stats s" and "idxfd t = idxfd s"
  using rep_core [OF rep_scanned [OF assms]] scannedD [OF assms(2)] scanned_stats [OF assms(2)] by simp_all

lemma findfree_scan:
  assumes co: "core c nf N D L i j s" and inv: "db_inv c nf ch D m" and L: "L 0 = F_UNLCK"
  obtains t off sv where "core c nf N D (L(0 := F_WRLCK)) i j t" and "chainoff t = chainoff s" and "stats t = stats s"
    and "idxfd t = idxfd s"
    and "db_findfree kl (int dl) s = bnd (if off = 0 then ret (-1)
          else bnd (gets ptrval) (\<lambda>p. bnd (db_writeptr sv p) (\<lambda>_. ret 0))) (\<lambda>rc.
     bnd (un_lock (idxfd s) FREE_OFF SEEK_SET 1) (\<lambda>r.
     if r < 0 then err_dump ''_db_findfree: un_lock error'' else ret rc)) t"
    and "(off = 0 \<and> (\<forall>x \<in> set (ch 0). \<not> suits nf kl dl x)) \<or>
      (\<exists>xs x ys k d. ch 0 = xs @ x # ys \<and> nf x = Some (k, d, dl) \<and> length k = kl \<and>
        off = int x \<and> sv = int (last (0 # xs)) \<and> ri t = (int x, int (c x), int d, int dl))"
proof -
  from core_lock [OF co, of F_SETLKW F_WRLCK 0] obtain s1 where s1:
    "writew_lock (idxfd s) FREE_OFF SEEK_SET 1 s = Ok 0 s1" "core c nf N D (L(0 := F_WRLCK)) i j s1" "hv s1 = hv s"
    by (auto simp: writew_lock_def FREE_OFF_def)
  from core_readptr [OF s1(2) cellp_0] obtain s2 where s2: "db_readptr FREE_OFF s1 = Ok (int (c 0)) s2"
    "core c nf N D (L(0 := F_WRLCK)) i j s2" "hv s2 = hv s"
    using s1(3) by (auto simp: FREE_OFF_def)
  from core_rep [OF s2(2) inv] obtain ps rs where rep: "rep_at (L(0 := F_WRLCK)) i j ps rs ch s2 m"
    and eq: "cell ps rs = c" "info rs = nf" "rec_base + tlen rs = N" by blast
  note r = rep_atD [OF rep] and cc = rep_chain [OF rep ntab_pos]
  have D: "k_data s2 j = D" using s2(2) by (simp add: core_def)
  have fs: "fits rs kl dl x \<longleftrightarrow> suits nf kl dl x" if "x \<in> set (ch 0)" for x
    using cc(1) that fits_suits [of rs x] eq(2) unfolding chain_in_def by blast
  have start: "db_findfree kl (int dl) s = bnd (db_free_loop (idx_fuel s2) kl (int dl) 0 (int (c 0))) (\<lambda>(offset, saveoffset).
     bnd (if offset = 0 then ret (-1)
          else bnd (gets ptrval) (\<lambda>p. bnd (db_writeptr saveoffset p) (\<lambda>_. ret 0))) (\<lambda>rc.
     bnd (un_lock (idxfd s) FREE_OFF SEEK_SET 1) (\<lambda>r.
     if r < 0 then err_dump ''_db_findfree: un_lock error'' else ret rc))) s2"
    unfolding db_findfree_def by (simp add: bnd_run s1(1) s2(1)) (simp add: FREE_OFF_def)
  have h2: "chainoff s2 = chainoff s" "stats s2 = stats s" "idxfd s2 = idxfd s" using s2(3) by (simp_all add: hv_def)
  show ?thesis
  proof (cases "\<exists>x \<in> set (ch 0). suits nf kl dl x")
    case False
    then have "\<forall>x \<in> set (ch 0). \<not> fits rs kl dl x" using fs by blast
    from db_free_loop_none [OF r(1,4) cc(1) less_imp_le [OF cc(2)] this] obtain t q where
      t: "db_free_loop (idx_fuel s2) kl (int dl) 0 (int (c 0)) s2 = Ok (0, q) t" "scanned s2 t" "dbenv i j t"
      using eq(1) by auto
    show ?thesis
      using that [of t 0 q] scanned_core [OF rep t(2,3)] eq D h2 start False by (simp add: bnd_run t(1))
  next
    case True
    then obtain xs x ys where x: "ch 0 = xs @ x # ys" "suits nf kl dl x" "\<forall>y \<in> set xs. \<not> suits nf kl dl y"
      using split_list_first_prop [of "ch 0" "suits nf kl dl"] by blast
    from x(2) obtain k d where kd: "nf x = Some (k, d, dl)" "length k = kl" by (auto simp: suits_def)
    have f: "fits rs kl dl x" "\<forall>y \<in> set xs. \<not> fits rs kl dl y" "length xs < idx_fuel s2"
      using x fs cc(2) by auto
    have ch0: "chain_in ps rs 0 (xs @ x # ys)" and kd': "info rs x = Some (k, d, dl)" using cc(1) x(1) kd(1) eq(2) by simp_all
    from db_free_loop_found [OF r(1,4) ch0 f(3,2,1) kd'] obtain t where
      t: "db_free_loop (idx_fuel s2) kl (int dl) 0 (int (c 0)) s2 = Ok (int x, int (last (0 # xs))) t" "scanned s2 t"
        "dbenv i j t" "at_rec ps rs x k d dl t"
      using eq(1) by (auto simp del: last.simps)
    have "ri t = (int x, int (c x), int d, int dl)" using t(4) eq(1) by (simp add: at_rec_def ri_def)
    then show ?thesis
      using that [of t "int x" "int (last (0 # xs))"] scanned_core [OF rep t(2,3)] eq D h2 start x(1) kd
      by (auto simp: bnd_run t(1) simp del: last.simps)
  qed
qed

lemma findfree_none:
  assumes co: "core c nf N D L i j s" and inv: "db_inv c nf ch D m" and L: "L 0 = F_UNLCK"
    and none: "\<forall>x \<in> set (ch 0). \<not> suits nf kl dl x"
  shows "\<exists>t. db_findfree kl (int dl) s = Ok (-1) t \<and> core c nf N D L i j t \<and> chainoff t = chainoff s \<and> stats t = stats s"
proof -
  from co inv L obtain t off sv where t: "core c nf N D (L(0 := F_WRLCK)) i j t" "chainoff t = chainoff s"
    "stats t = stats s" "idxfd t = idxfd s" and run: "db_findfree kl (int dl) s = bnd (if off = 0 then ret (-1)
          else bnd (gets ptrval) (\<lambda>p. bnd (db_writeptr sv p) (\<lambda>_. ret 0))) (\<lambda>rc.
     bnd (un_lock (idxfd s) FREE_OFF SEEK_SET 1) (\<lambda>r.
     if r < 0 then err_dump ''_db_findfree: un_lock error'' else ret rc)) t"
    and alt: "(off = 0 \<and> (\<forall>x \<in> set (ch 0). \<not> suits nf kl dl x)) \<or>
      (\<exists>xs x ys k d. ch 0 = xs @ x # ys \<and> nf x = Some (k, d, dl) \<and> length k = kl \<and>
        off = int x \<and> sv = int (last (0 # xs)) \<and> ri t = (int x, int (c x), int d, int dl))"
    by (rule findfree_scan [where kl = kl and dl = dl])
  have off: "off = 0" using alt none by (auto simp: suits_def)
  from core_lock [OF t(1), of F_SETLK F_UNLCK 0] obtain u where u: "un_lock (idxfd s) FREE_OFF SEEK_SET 1 t = Ok 0 u"
    "core c nf N D L i j u" "hv u = hv t"
    using t(4) L by (auto simp: un_lock_def FREE_OFF_def fun_upd_idem)
  then show ?thesis using run off t(2,3) by (auto simp: bnd_run hv_def)
qed

lemma findfree_found:
  assumes co: "core c nf N D L i j s" and inv: "db_inv c nf ch D m" and L: "L 0 = F_UNLCK"
    and some: "\<exists>x \<in> set (ch 0). suits nf kl dl x"
  obtains t xs x ys k d p where "db_findfree kl (int dl) s = Ok 0 t" and "ch 0 = xs @ x # ys"
    and "nf x = Some (k, d, dl)" and "length k = kl" and "core (c(last (0 # xs) := c x)) nf N D L i j t"
    and "ri t = (int x, p, int d, int dl)" and "chainoff t = chainoff s" and "stats t = stats s"
proof -
  from co inv L obtain t off sv where t: "core c nf N D (L(0 := F_WRLCK)) i j t" "chainoff t = chainoff s"
    "stats t = stats s" "idxfd t = idxfd s" and run: "db_findfree kl (int dl) s = bnd (if off = 0 then ret (-1)
          else bnd (gets ptrval) (\<lambda>p. bnd (db_writeptr sv p) (\<lambda>_. ret 0))) (\<lambda>rc.
     bnd (un_lock (idxfd s) FREE_OFF SEEK_SET 1) (\<lambda>r.
     if r < 0 then err_dump ''_db_findfree: un_lock error'' else ret rc)) t"
    and alt: "(off = 0 \<and> (\<forall>x \<in> set (ch 0). \<not> suits nf kl dl x)) \<or>
      (\<exists>xs x ys k d. ch 0 = xs @ x # ys \<and> nf x = Some (k, d, dl) \<and> length k = kl \<and>
        off = int x \<and> sv = int (last (0 # xs)) \<and> ri t = (int x, int (c x), int d, int dl))"
    by (rule findfree_scan [where kl = kl and dl = dl])
  from alt some obtain xs x ys k d where x: "ch 0 = xs @ x # ys" "nf x = Some (k, d, dl)" "length k = kl"
    "off = int x" "sv = int (last (0 # xs))" "ri t = (int x, int (c x), int d, int dl)" by blast
  define q where "q = last (0 # xs)"
  have q: "cellp nf q" using prev_cellp(1) [OF inv ntab_pos x(1)] by (simp add: q_def del: last.simps)
  have "rec_base \<le> x" using db_invD(1) [OF inv] x(1) ntab_pos unfolding linked_def by (metis in_set_conv_decomp)
  then have x0: "x \<noteq> 0" by (simp add: rec_base_def)
  have "cellp nf x" using x(2) by (simp add: cellp_def)
  from core_writeptr [OF t(1) q core_ptr_ok [OF co this]] obtain v where v: "db_writeptr (int q) (int (c x)) t = Ok () v"
    "core (c(q := c x)) nf N D (L(0 := F_WRLCK)) i j v" "hv v = hv t" "ri v = ri t" by blast
  from core_lock [OF v(2), of F_SETLK F_UNLCK 0] obtain u where u: "un_lock (idxfd s) FREE_OFF SEEK_SET 1 v = Ok 0 u"
    "core (c(q := c x)) nf N D L i j u" "hv u = hv t" "ri u = ri t"
    using t(4) v(3,4) L by (auto simp: un_lock_def FREE_OFF_def fun_upd_idem hv_def)
  have "db_findfree kl (int dl) s = Ok 0 u"
    using run v(1) u(1) x(4-6) x0 by (simp add: bnd_run ri_def q_def [symmetric] del: last.simps)
  then show ?thesis
    using that [OF _ x(1-3), of u] u(2-4) x(6) t(2,3) by (simp add: hv_def q_def del: last.simps)
qed

subsection \<open>\<open>db_store\<close>\<close>

text \<open>The outcome of a branch of \<open>db_store\<close>: the chain is still locked, the handle represents \<open>m'\<close>, and the files
  have grown by at most one record.\<close>

definition stored :: "nat \<Rightarrow> nat \<Rightarrow> nat \<Rightarrow> nat \<Rightarrow> nat \<Rightarrow> 64 word list \<Rightarrow> (string \<rightharpoonup> string) \<Rightarrow> DB \<Rightarrow> bool" where
  "stored i j p isz dsz st m' t \<longleftrightarrow> (\<exists>c nf N D ch. core c nf N D (lk1 p F_WRLCK) i j t \<and> db_inv c nf ch D m' \<and>
     N \<le> isz + 1035 \<and> length D \<le> dsz + 1024) \<and> chainoff t = int p \<and> stats t = st"

lemma storedI:
  assumes "core c nf N D (lk1 p F_WRLCK) i j t" and "db_inv c nf ch D m'" and "chainoff t = int p" and "stats t = st"
    and "N \<le> isz + 1035" and "length D \<le> dsz + 1024"
  shows "stored i j p isz dsz st m' t"
  using assms unfolding stored_def by blast

lemma lk1_recs: "h < ntab \<Longrightarrow> \<forall>b \<ge> rec_base. lk1 (h * PTR_SZ) ty b = F_UNLCK"
  using tab_cell_less [of h] by (auto simp: lk1_def)

lemma lk1_free: "0 < h \<Longrightarrow> lk1 (h * PTR_SZ) ty 0 = F_UNLCK"
  by (simp add: lk1_def PTR_SZ_def)

lemma stored_upd:
  assumes "stored i j p isz dsz st m' s" and "dbenv i j s \<Longrightarrow> dbenv i j t" and "k_data t = k_data s" and "k_lock t = k_lock s"
    and "chainoff t = chainoff s"
  shows "stored i j p isz dsz (stats t) m' t"
  using assms core_frame core_env unfolding stored_def by metis

lemma stored_stats: "stored i j p isz dsz st m' s \<Longrightarrow> stats s = st"
  by (simp add: stored_def)

lemma db_append_run:
  assumes co: "core c nf N D (lk1 (hb key * PTR_SZ) F_WRLCK) i j s" and inv: "db_inv c nf ch D m"
    and new: "m key = None" and ok: "key_ok key" "dat_ok dat" "room N (length D) key dat"
    and c: "chainoff s = int (hb key * PTR_SZ)"
  shows "\<exists>t. db_append key dat (int (c (hb key * PTR_SZ))) s = Ok () t \<and>
    stored i j (hb key * PTR_SZ) N (length D) (stats s) (m(key \<mapsto> dat)) t"
proof -
  define p where "p = hb key * PTR_SZ"
  have cp: "cellp nf p" unfolding p_def by simp
  have pk: "ptr_ok (c p)" using co cp by (rule core_ptr_ok)
  from core_data_end [OF co, of dat] obtain s1 where s1: "db_writedat dat 0 SEEK_END s = Ok () s1"
    "core c nf N (D @ dat @ [NEWLINE]) (lk1 p F_WRLCK) i j s1" "hv s1 = hv s"
    "datoff s1 = int (length D)" "datlen s1 = int (Suc (length dat))"
    by (auto simp: ri_def p_def)
  have lk: "\<forall>b \<ge> rec_base. lk1 p F_WRLCK b = F_UNLCK" unfolding p_def by (rule lk1_recs) simp
  note ro = new_rec_ok [OF ok pk]
  from core_append(1) [OF s1(2) lk s1(4,5) ro] obtain s2 N' where s2: "db_writeidx key 0 SEEK_END (int (c p)) s1 = Ok () s2"
    "core (c(N := c p)) (nf(N \<mapsto> (key, length D, Suc (length dat)))) N' (D @ dat @ [NEWLINE]) (lk1 p F_WRLCK) i j s2"
    "hv s2 = hv s" "idxoff s2 = int N" "N' \<le> N + 1035"
    using s1(3) by (auto simp: ri_def)
  note N = core_append(2,3) [OF s1(2) lk s1(4,5) ro]
  have "ptr_ok N" using ok(3) by (simp add: room_def ptr_ok_def)
  from core_writeptr [OF s2(2) cellp_mono [OF cp] this] obtain s3 where s3: "db_writeptr (int p) (int N) s2 = Ok () s3"
    "core (c(N := c p, p := N)) (nf(N \<mapsto> (key, length D, Suc (length dat)))) N' (D @ dat @ [NEWLINE]) (lk1 p F_WRLCK) i j s3"
    "hv s3 = hv s"
    using s2(3) by auto
  have "db_append key dat (int (c p)) s = Ok () s3"
    using s1(1) s2(1,3,4) s3(1) c by (simp add: db_append_def bnd_run hv_def p_def)
  moreover have "db_inv (c(N := c p, p := N)) (nf(N \<mapsto> (key, length D, Suc (length dat)))) (ch(hb key := N # ch (hb key)))
      (D @ dat @ [NEWLINE]) (m(key \<mapsto> dat))"
    using inv_link_hash [OF inv_new_loose [OF inv N] fresh_end [OF db_invD(4) [OF inv]] _ new, of dat] ok(2)
    by (simp add: p_def dat_ok_def put_at_end)
  ultimately show ?thesis
    using storedI [OF s3(2)] s3(3) c s2(5) ok(2) by (auto simp: hv_def p_def dat_ok_def)
qed

text \<open>Writing into a record that has been taken off the free list.\<close>

lemma db_reuse_run:
  assumes co: "core c1 nf N D (lk1 (hb key * PTR_SZ) F_WRLCK) i j s" and lo: "loose x c1 nf ch1 D m"
    and x: "nf x = Some (k, d, Suc (length dat))" "length k = length key"
    and rec: "idxoff s = int x" "datoff s = int d" and px: "ptr_ok x"
    and new: "m key = None" and ok: "key_ok key" "dat_ok dat" and c: "chainoff s = int (hb key * PTR_SZ)"
  obtains s1 s2 s3 where "db_writedat dat (int d) SEEK_SET s = Ok () s1" and "idxoff s1 = int x"
    and "db_writeidx key (int x) SEEK_SET (int (c1 (hb key * PTR_SZ))) s1 = Ok () s2" and "idxoff s2 = int x"
    and "db_writeptr (int (hb key * PTR_SZ)) (int x) s2 = Ok () s3"
    and "stored i j (hb key * PTR_SZ) N (length D) (stats s) (m(key \<mapsto> dat)) s3"
proof -
  define p where "p = hb key * PTR_SZ"
  have cp: "cellp nf p" unfolding p_def by simp
  have pk: "ptr_ok (c1 p)" using co cp by (rule core_ptr_ok)
  from core_data_set [OF co, of dat d] obtain s1 where s1: "db_writedat dat (int d) SEEK_SET s = Ok () s1"
    "core c1 nf N (put_at D d (dat @ [NEWLINE])) (lk1 p F_WRLCK) i j s1" "hv s1 = hv s"
    "idxoff s1 = int x" "datoff s1 = int d" "datlen s1 = int (Suc (length dat))"
    using rec by (auto simp: ri_def p_def)
  have k: "length key = length k" "SEP \<notin> set key" "NUL \<notin> set key" using x(2) ok(1) by (simp_all add: key_ok_def)
  from core_rewrite [OF s1(2) x(1) k pk s1(5,6)] obtain s2 where s2:
    "db_writeidx key (int x) SEEK_SET (int (c1 p)) s1 = Ok () s2"
    "core (c1(x := c1 p)) (nf(x \<mapsto> (key, d, Suc (length dat)))) N (put_at D d (dat @ [NEWLINE])) (lk1 p F_WRLCK) i j s2"
    "hv s2 = hv s" "idxoff s2 = int x"
    using s1(3) by (auto simp: ri_def)
  from core_writeptr [OF s2(2) cellp_mono [OF cp] px] obtain s3 where s3: "db_writeptr (int p) (int x) s2 = Ok () s3"
    "core (c1(x := c1 p, p := x)) (nf(x \<mapsto> (key, d, Suc (length dat)))) N (put_at D d (dat @ [NEWLINE])) (lk1 p F_WRLCK) i j s3"
    "hv s3 = hv s"
    using s2(3) by auto
  have "data_ok nf D" using lo by (simp add: loose_def)
  then have good: "d + Suc (length dat) \<le> length D" using x(1) by (fastforce simp: data_ok_def good_def)
  have "data_ok nf D" using lo by (simp add: loose_def)
  from inv_link_hash [OF lo fresh_own [OF this x(1)] _ new] ok(2)
  have "db_inv (c1(x := c1 p, p := x)) (nf(x \<mapsto> (key, d, Suc (length dat)))) (ch1(hb key := x # ch1 (hb key)))
      (put_at D d (dat @ [NEWLINE])) (m(key \<mapsto> dat))"
    by (simp add: dat_ok_def p_def)
  from storedI [OF s3(2) this] s3(3) c good have "stored i j p N (length D) (stats s) (m(key \<mapsto> dat)) s3" by (simp add: hv_def p_def length_put_at)
  then show ?thesis using that s1(1,4) s2(1,4) s3(1) by (simp only: p_def)
qed

lemma db_store_new_run:
  assumes co: "core c nf N D (lk1 (hb key * PTR_SZ) F_WRLCK) i j s" and inv: "db_inv c nf ch D m"
    and new: "m key = None" and ok: "key_ok key" "dat_ok dat" "room N (length D) key dat"
    and c: "chainoff s = int (hb key * PTR_SZ)"
  shows "\<exists>t. db_store_new key dat s = Ok () t \<and>
    (stored i j (hb key * PTR_SZ) N (length D) ((stats s)[5 := cnt_stor1 s + 1]) (m(key \<mapsto> dat)) t \<or>
     stored i j (hb key * PTR_SZ) N (length D) ((stats s)[6 := cnt_stor2 s + 1]) (m(key \<mapsto> dat)) t)"
proof -
  define p where "p = hb key * PTR_SZ"
  define dl where "dl = Suc (length dat)"
  have cp: "cellp nf p" unfolding p_def by simp
  have pk: "ptr_ok (c p)" using co cp by (rule core_ptr_ok)
  have L: "lk1 p F_WRLCK 0 = F_UNLCK" unfolding p_def by (rule lk1_free) simp
  from core_readptr [OF co cp] obtain s1 where s1: "db_readptr (int p) s = Ok (int (c p)) s1"
    "core c nf N D (lk1 p F_WRLCK) i j s1" "hv s1 = hv s" by (auto simp: p_def)
  have h1: "chainoff s1 = int p" "stats s1 = stats s" using s1(3) c by (simp_all add: hv_def p_def)
  show ?thesis
  proof (cases "\<exists>x \<in> set (ch 0). suits nf (length key) dl x")
    case False
    from findfree_none [OF s1(2) inv L, of "length key" dl] False h1 obtain s2 where s2:
      "db_findfree (length key) (int dl) s1 = Ok (-1) s2" "core c nf N D (lk1 p F_WRLCK) i j s2"
      "chainoff s2 = int p" "stats s2 = stats s" by auto
    from db_append_run [OF s2(2) [unfolded p_def] inv new ok s2(3) [unfolded p_def]] obtain s3 where s3:
      "db_append key dat (int (c p)) s2 = Ok () s3" "stored i j p N (length D) (stats s2) (m(key \<mapsto> dat)) s3"
      unfolding p_def by blast
    let ?t = "s3\<lparr>cnt_stor1 := cnt_stor1 s3 + 1\<rparr>"
    have "db_store_new key dat s = Ok () ?t"
      using s1(1) s2(1) s3(1) c by (simp add: db_store_new_def bnd_run p_def dl_def add.commute)
    moreover have "stats ?t = (stats s)[5 := cnt_stor1 s + 1]"
      using stored_stats [OF s3(2)] s2(4) by (simp add: stats_def)
    ultimately show ?thesis using stored_upd [OF s3(2), of ?t] by (auto simp: p_def)
  next
    case True
    from s1(2) inv L True obtain s2 xs x ys k d q where s2: "db_findfree (length key) (int dl) s1 = Ok 0 s2"
      "ch 0 = xs @ x # ys" "nf x = Some (k, d, dl)" "length k = length key"
      "core (c(last (0 # xs) := c x)) nf N D (lk1 p F_WRLCK) i j s2" "ri s2 = (int x, q, int d, int dl)"
      "chainoff s2 = chainoff s1" "stats s2 = stats s1"
      by (rule findfree_found)
    have last: "last (0 # xs) \<noteq> p"
      using prev_cell_other(1) [OF db_invD(1) [OF inv] ntab_pos s2(2) hb_bounds(2,3), of key] by (simp add: p_def)
    have lo: "loose x (c(last (0 # xs) := c x)) nf (ch(0 := xs @ ys)) D m"
      using inv_unlink [OF inv ntab_pos s2(2,3)] by (simp del: last.simps)
    have px: "ptr_ok x"
      using core_ptr_ok [OF co prev_cellp(1) [OF inv ntab_pos s2(2)]] prev_cellp(2) [OF inv ntab_pos s2(2)] by simp
    have r2: "idxoff s2 = int x" "datoff s2 = int d" "chainoff s2 = int (hb key * PTR_SZ)"
      using s2(6,7) h1(1) by (simp_all add: ri_def p_def)
    from db_reuse_run [OF s2(5) [unfolded p_def] lo s2(3) [unfolded dl_def] s2(4) r2(1,2) px new ok(1,2) r2(3)]
    obtain s3 s4 s5 where s3: "db_writedat dat (int d) SEEK_SET s2 = Ok () s3" "idxoff s3 = int x"
      "db_writeidx key (int x) SEEK_SET (int ((c(last (0 # xs) := c x)) p)) s3 = Ok () s4" "idxoff s4 = int x"
      "db_writeptr (int p) (int x) s4 = Ok () s5" "stored i j p N (length D) (stats s2) (m(key \<mapsto> dat)) s5"
      unfolding p_def by blast
    let ?t = "s5\<lparr>cnt_stor2 := cnt_stor2 s5 + 1\<rparr>"
    have "(c(last (0 # xs) := c x)) p = c p" using last by (simp del: last.simps)
    then have "db_store_new key dat s = Ok () ?t"
      using s1(1) s2(1) s3 r2 c by (simp add: db_store_new_def bnd_run p_def dl_def add.commute)
    moreover have "stats ?t = (stats s)[6 := cnt_stor2 s + 1]"
      using stored_stats [OF s3(6)] s2(8) h1(2) by (simp add: stats_def)
    ultimately show ?thesis using stored_upd [OF s3(6), of ?t] by (auto simp: p_def)
  qed
qed

lemma db_store_over_run:
  assumes co: "core c nf N D (lk1 (hb key * PTR_SZ) F_WRLCK) i j s" and inv: "db_inv c nf ch D m"
    and old: "m key = Some dat0" and ok: "key_ok key" "dat_ok dat" "room N (length D) key dat"
    and c: "chainoff s = int (hb key * PTR_SZ)"
    and ch: "ch (hb key) = xs @ x # ys" and x: "nf x = Some (key, d, Suc (length dat0))"
    and rec: "ri s = (int x, int (c x), int d, int (Suc (length dat0)))" "cstr (idxbuf s) = key"
    and prev: "ptroff s = int (last (hb key * PTR_SZ # xs))"
  shows "\<exists>t. db_store_over key dat s = Ok () t \<and>
    stored i j (hb key * PTR_SZ) N (length D) (if length dat = length dat0 then (stats s)[8 := cnt_stor4 s + 1]
      else (stats s)[7 := cnt_stor3 s + 1]) (m(key \<mapsto> dat)) t"
proof (cases "length dat = length dat0")
  case True
  from core_data_set [OF co, of dat d] obtain s1 where s1: "db_writedat dat (int d) SEEK_SET s = Ok () s1"
    "core c nf N (put_at D d (dat @ [NEWLINE])) (lk1 (hb key * PTR_SZ) F_WRLCK) i j s1" "hv s1 = hv s"
    by blast
  let ?t = "s1\<lparr>cnt_stor4 := cnt_stor4 s1 + 1\<rparr>"
  have "core c nf N (put_at D d (dat @ [NEWLINE])) (lk1 (hb key * PTR_SZ) F_WRLCK) i j ?t"
    using core_env [OF s1(2)] by (intro core_frame [OF s1(2)]) simp_all
  moreover have "db_inv c nf ch (put_at D d (dat @ [NEWLINE])) (m(key \<mapsto> dat))"
    using inv_overwrite [OF inv, of x key d dat] ch x ok(2) True by (simp add: dat_ok_def)
  moreover have D1: "length (put_at D d (dat @ [NEWLINE])) = length D"
    using db_invD(4) [OF inv] x True by (fastforce simp: data_ok_def good_def length_put_at)
  ultimately have "stored i j (hb key * PTR_SZ) N (length D) ((stats s)[8 := cnt_stor4 s + 1]) (m(key \<mapsto> dat)) ?t"
    using s1(3) c D1 by (intro storedI) (auto simp: hv_def stats_def)
  moreover have "db_store_over key dat s = Ok () ?t"
    using s1(1) rec(1) True by (simp add: db_store_over_def bnd_run ri_def)
  ultimately show ?thesis using True by auto
next
  case False
  let ?D = "put_at D d (replicate (length dat0) SPACE @ [NEWLINE])"
  obtain s1 c' nf' ch' where s1: "db_dodelete s = Ok () s1" "core c' nf' N ?D (lk1 (hb key * PTR_SZ) F_WRLCK) i j s1"
    "db_inv c' nf' ch' ?D (m(key := None))" "hv s1 = hv s"
    using db_dodelete_run [OF co inv lk1_free [OF hb_bounds(1)] ch x rec prev] unfolding diff_Suc_1 by metis
  have D: "length ?D = length D"
    using db_invD(4) [OF inv] x by (fastforce simp: data_ok_def good_def length_put_at)
  from core_readptr [OF s1(2) cellp_tab [OF hb_bounds(2)], of key] obtain s2 where
    s2: "db_readptr (int (hb key * PTR_SZ)) s1 = Ok (int (c' (hb key * PTR_SZ))) s2"
      "core c' nf' N ?D (lk1 (hb key * PTR_SZ) F_WRLCK) i j s2" "hv s2 = hv s"
    using s1(4) by auto
  have c2: "chainoff s2 = int (hb key * PTR_SZ)" "chainoff s1 = int (hb key * PTR_SZ)"
    using s1(4) s2(3) c by (simp_all add: hv_def)
  from db_append_run [OF s2(2) s1(3) _ ok(1,2) _ c2(1)] ok(3) D obtain s3 where
    s3: "db_append key dat (int (c' (hb key * PTR_SZ))) s2 = Ok () s3"
      "stored i j (hb key * PTR_SZ) N (length D) (stats s2) (m(key \<mapsto> dat)) s3"
    by auto
  let ?t = "s3\<lparr>cnt_stor3 := cnt_stor3 s3 + 1\<rparr>"
  have "db_store_over key dat s = Ok () ?t"
    using s1(1) s2(1) s3(1) c2 rec(1) False by (simp add: db_store_over_def bnd_run ri_def)
  moreover have "stats ?t = (stats s)[7 := cnt_stor3 s + 1]"
    using stored_stats [OF s3(2)] s2(3) by (simp add: hv_def stats_def)
  then have "stored i j (hb key * PTR_SZ) N (length D) ((stats s)[7 := cnt_stor3 s + 1]) (m(key \<mapsto> dat)) ?t"
    using stored_upd [OF s3(2), of ?t] by simp
  ultimately show ?thesis using False by auto
qed

text \<open>What \<open>db_store\<close> promises: its return value and the map afterwards.\<close>

definition store_spec :: "int \<Rightarrow> string \<Rightarrow> string \<Rightarrow> (string \<rightharpoonup> string) \<Rightarrow> int \<times> (string \<rightharpoonup> string)" where
  "store_spec flag key dat m =
     (if m key = None then if flag = DB_REPLACE then (-1, m) else (0, m(key \<mapsto> dat))
      else if flag = DB_INSERT then (1, m) else (0, m(key \<mapsto> dat)))"

lemma stored_finish:
  assumes "stored i j p isz dsz st m' t"
  shows "\<exists>u. unlock_chain who t = Ok () u \<and> db_rep u m' \<and> stats u = st \<and> k_errno u = k_errno t \<and>
    idx_size u \<le> isz + 1035 \<and> dat_size u \<le> dsz + 1024"
  using assms finish unfolding stored_def by metis

lemma dat_ok_len: "dat_ok dat \<Longrightarrow> \<not> (int (length dat) + 1 < DATLEN_MIN \<or> DATLEN_MAX < int (length dat) + 1)"
  by (auto simp: dat_ok_def DATLEN_MIN_def DATLEN_MAX_def)

lemma db_store_none:
  assumes rep: "db_rep s m" and none: "m key = None" and ok: "key_ok key" "dat_ok dat"
    "room (idx_size s) (dat_size s) key dat" and flag: "flag = DB_INSERT \<or> flag = DB_REPLACE \<or> flag = DB_STORE"
  shows "\<exists>t. db_store key dat flag s = Ok (if flag = DB_REPLACE then -1 else 0) t \<and>
    db_rep t (if flag = DB_REPLACE then m else m(key \<mapsto> dat)) \<and> (flag = DB_REPLACE \<longrightarrow> k_errno t = ENOENT) \<and>
    idx_size t \<le> idx_size s + 1035 \<and> dat_size t \<le> dat_size s + 1024"
proof -
  from rep none obtain t c nf D ch i j where t: "db_find_and_lock key True s = Ok (-1) t"
    "core c nf (idx_size s) D (lk1 (hb key * PTR_SZ) F_WRLCK) i j t" "db_inv c nf ch D m"
    "chainoff t = int (hb key * PTR_SZ)" "stats t = stats s" "length D = dat_size s"
    by (rule find_none_core)
  show ?thesis
  proof (cases "flag = DB_REPLACE")
    case True
    let ?t = "t\<lparr>cnt_storerr := cnt_storerr t + 1, k_errno := ENOENT\<rparr>"
    have "core c nf (idx_size s) D (lk1 (hb key * PTR_SZ) F_WRLCK) i j ?t"
      using core_env [OF t(2)] by (intro core_frame [OF t(2)]) simp_all
    from finish [OF this t(3)] t(4) obtain u where "unlock_chain ''db_store'' ?t = Ok () u" "db_rep u m" "k_errno u = ENOENT"
      "idx_size u = idx_size s" "dat_size u = length D" by auto
    then show ?thesis
      using t(1,6) True flag dat_ok_len [OF ok(2)] by (auto simp: db_store_def bnd_run)
  next
    case False
    obtain v st where v: "db_store_new key dat t = Ok () v" "stored i j (hb key * PTR_SZ) (idx_size s) (length D) st (m(key \<mapsto> dat)) v"
      using db_store_new_run [OF t(2,3) none ok(1,2) _ t(4)] ok(3) t(6) by auto
    obtain u where "unlock_chain ''db_store'' v = Ok () u" "db_rep u (m(key \<mapsto> dat))"
      "idx_size u \<le> idx_size s + 1035" "dat_size u \<le> length D + 1024"
      using stored_finish [OF v(2)] by blast
    then show ?thesis
      using t(1,6) v(1) False flag dat_ok_len [OF ok(2)] by (auto simp: db_store_def bnd_run)
  qed
qed

lemma db_store_some:
  assumes rep: "db_rep s m" and some: "m key = Some dat0" and ok: "key_ok key" "dat_ok dat"
    "room (idx_size s) (dat_size s) key dat" and flag: "flag = DB_INSERT \<or> flag = DB_REPLACE \<or> flag = DB_STORE"
  shows "\<exists>t. db_store key dat flag s = Ok (if flag = DB_INSERT then 1 else 0) t \<and>
    db_rep t (if flag = DB_INSERT then m else m(key \<mapsto> dat)) \<and>
    idx_size t \<le> idx_size s + 1035 \<and> dat_size t \<le> dat_size s + 1024"
proof -
  from rep some obtain t c nf D ch i j x xs ys d where t: "db_find_and_lock key True s = Ok 0 t"
    "core c nf (idx_size s) D (lk1 (hb key * PTR_SZ) F_WRLCK) i j t" "db_inv c nf ch D m"
    "chainoff t = int (hb key * PTR_SZ)" "stats t = stats s" "length D = dat_size s"
    "ch (hb key) = xs @ x # ys" "nf x = Some (key, d, Suc (length dat0))"
    "ri t = (int x, int (c x), int d, int (Suc (length dat0)))" "cstr (idxbuf t) = key"
    "ptroff t = int (last (hb key * PTR_SZ # xs))"
    by (rule find_found_core)
  show ?thesis
  proof (cases "flag = DB_INSERT")
    case True
    let ?t = "t\<lparr>cnt_storerr := cnt_storerr t + 1\<rparr>"
    have "core c nf (idx_size s) D (lk1 (hb key * PTR_SZ) F_WRLCK) i j ?t"
      using core_env [OF t(2)] by (intro core_frame [OF t(2)]) simp_all
    from finish [OF this t(3)] t(4) obtain u where "unlock_chain ''db_store'' ?t = Ok () u" "db_rep u m"
      "idx_size u = idx_size s" "dat_size u = length D" by auto
    then show ?thesis
      using t(1,6) True dat_ok_len [OF ok(2)] by (auto simp: db_store_def bnd_run)
  next
    case False
    have ok3: "room (idx_size s) (length D) key dat" using ok(3) t(6) by simp
    obtain v st where v: "db_store_over key dat t = Ok () v" "stored i j (hb key * PTR_SZ) (idx_size s) (length D) st (m(key \<mapsto> dat)) v"
      using db_store_over_run [OF t(2,3) some ok(1,2) ok3 t(4,7-11)] by blast
    obtain u where "unlock_chain ''db_store'' v = Ok () u" "db_rep u (m(key \<mapsto> dat))"
      "idx_size u \<le> idx_size s + 1035" "dat_size u \<le> length D + 1024"
      using stored_finish [OF v(2)] by blast
    then show ?thesis
      using t(1,6) v(1) False flag dat_ok_len [OF ok(2)] by (auto simp: db_store_def bnd_run)
  qed
qed

lemma db_store_run:
  assumes "db_rep s m" and "key_ok key" and "dat_ok dat" and "room (idx_size s) (dat_size s) key dat"
    and "flag = DB_INSERT \<or> flag = DB_REPLACE \<or> flag = DB_STORE"
  shows "\<exists>t. db_store key dat flag s = Ok (fst (store_spec flag key dat m)) t \<and>
    db_rep t (snd (store_spec flag key dat m)) \<and>
    idx_size t \<le> idx_size s + 1035 \<and> dat_size t \<le> dat_size s + 1024"
proof (cases "m key")
  case None
  from db_store_none [OF assms(1) None assms(2-5)] None show ?thesis by (auto simp: store_spec_def)
next
  case (Some dat0)
  from db_store_some [OF assms(1) Some assms(2-5)] Some show ?thesis by (auto simp: store_spec_def)
qed

subsection \<open>Keys that do not fit\<close>

lemma writeidx_overflow:
  assumes "1021 \<le> length key" and "ptr_ok q"
  shows "\<exists>t. db_writeidx key off w (int q) s = Abort (Undefined ''_db_writeidx: idxbuf overflow'') t"
proof -
  have "fmt_d i \<noteq> []" for i by (simp add: fmt_d_def)
  then have "Suc 0 \<le> length (fmt_d i)" for i by (simp add: Suc_le_eq)
  from this [of "datoff s"] this [of "datlen s"] assms(1)
  have "IDXLEN_MAX + 2 < int (length (key @ [SEP] @ fmt_d (datoff s) @ [SEP] @ fmt_d (datlen s) @ [NEWLINE])) + 1"
    by (simp add: IDXLEN_MAX_def)
  then show ?thesis using assms(2) by (auto simp: db_writeidx_def ptr_ok_def)
qed

lemma no_long_record:
  assumes "core c nf N D L i j s" and "nf x = Some (k, d, n)"
  shows "length k < 1021"
proof -
  from assms(1) obtain ps rs where "recs_ok rs" "info rs = nf" by (rule coreE)
  with assms(2) obtain r where r: "irec_ok r" "ir_key r = k" using rheap_ok by (fastforce simp: info_Some)
  have "fmt_d i \<noteq> []" for i by (simp add: fmt_d_def)
  then have "Suc 0 \<le> length (fmt_d i)" for i by (simp add: Suc_le_eq)
  from this [of "int (ir_doff r)"] this [of "int (ir_dlen r)"] r show ?thesis
    by (simp add: irec_ok_def irec_body_def IDXLEN_MAX_def)
qed

lemma db_store_overflow:
  assumes rep: "db_rep s m" and new: "m key = None" and long: "1021 \<le> length key" and ok: "dat_ok dat"
  shows "\<exists>t. db_store key dat DB_INSERT s = Abort (Undefined ''_db_writeidx: idxbuf overflow'') t"
proof -
  from rep new obtain t c nf D ch i j where t: "db_find_and_lock key True s = Ok (-1) t"
    "core c nf (idx_size s) D (lk1 (hb key * PTR_SZ) F_WRLCK) i j t" "db_inv c nf ch D m"
    "chainoff t = int (hb key * PTR_SZ)"
    by (rule find_none_core) blast
  define p where "p = hb key * PTR_SZ"
  have cp: "cellp nf p" unfolding p_def by simp
  have L: "lk1 p F_WRLCK 0 = F_UNLCK" unfolding p_def by (rule lk1_free) simp
  from core_readptr [OF t(2) cp] obtain s1 where s1: "db_readptr (int p) t = Ok (int (c p)) s1"
    "core c nf (idx_size s) D (lk1 p F_WRLCK) i j s1" by (auto simp: p_def)
  have "\<forall>x \<in> set (ch 0). \<not> suits nf (length key) (Suc (length dat)) x"
    using no_long_record [OF t(2)] long by (fastforce simp: suits_def)
  from findfree_none [OF s1(2) t(3) L this] obtain s2 where s2: "db_findfree (length key) (int (Suc (length dat))) s1 = Ok (-1) s2"
    "core c nf (idx_size s) D (lk1 p F_WRLCK) i j s2" by blast
  from core_data_end [OF s2(2), of dat] obtain s3 where s3: "db_writedat dat 0 SEEK_END s2 = Ok () s3" by blast
  from writeidx_overflow [OF long core_ptr_ok [OF t(2) cp]] obtain u where
    u: "db_writeidx key 0 SEEK_END (int (c p)) s3 = Abort (Undefined ''_db_writeidx: idxbuf overflow'') u" by blast
  have "db_store_new key dat t = Abort (Undefined ''_db_writeidx: idxbuf overflow'') u"
    using s1(1) s2(1) s3 u t(4) by (simp add: db_store_new_def db_append_def bnd_run p_def add.commute)
  then show ?thesis
    using t(1) dat_ok_len [OF ok] by (simp add: db_store_def bnd_run DB_INSERT_def DB_REPLACE_def)
qed

subsection \<open>A handle on an empty index file\<close>

lemma db_fetch_no_index:
  assumes env: "dbenv i j s" and e: "k_data s i = []"
  shows "\<exists>u. db_fetch key s = Abort (Err_dump ''_db_readptr: read error of ptr field'') u"
proof -
  define p where "p = hb key * PTR_SZ"
  have p: "int (db_hash (nhash s) key * PTR_SZ) + hashoff s = int p"
    using env by (simp add: dbenv_def hb_def HASH_OFF_def p_def)
  define s1 where "s1 = s\<lparr>chainoff := int p, ptroff := int p\<rparr>"
  define s2 where "s2 = s1\<lparr>k_lock := (k_lock s1)(i := (k_lock s1 i)(p := F_RDLCK))\<rparr>"
  have env1: "dbenv i j s1" and env2: "dbenv i j s2" using env by (simp_all add: s1_def s2_def)
  have l: "readw_lock (idxfd s) (int p) SEEK_SET 1 s1 = Ok 0 s2"
    using idx_lock_1 [OF env1, of F_SETLKW F_RDLCK p] by (simp add: readw_lock_def s2_def) (simp add: s1_def)
  from env2 obtain d where d: "k_ofd s2 (idxfd s2) = Some d" "of_ino d = i" "readable d" "k_faults s2 = []"
    by (rule dbenv_idx)
  have e2: "k_data s2 i = []" using e by (simp add: s2_def s1_def)
  have "\<exists>u. db_readptr (int p) s2 = Abort (Err_dump ''_db_readptr: read error of ptr field'') u"
    using d e2 by (simp add: db_readptr_def db_calls get_at_def PTR_SZ_def)
  then obtain u where u: "db_readptr (int p) s2 = Abort (Err_dump ''_db_readptr: read error of ptr field'') u" by blast
  have "ptroff s2 = int p" by (simp add: s2_def s1_def)
  with l u p have "db_find_and_lock key False s = Abort (Err_dump ''_db_readptr: read error of ptr field'') u"
    by (simp add: db_find_and_lock_def bnd_run s1_def)
  then show ?thesis by (simp add: db_fetch_def bnd_run)
qed

end
