(* ===== verification/Db_Open.thy ===== *)
theory Db_Open
  imports Db_Store
begin

section \<open>\<open>db_open\<close>, \<open>db_close\<close>: creating a database and opening it again\<close>

text \<open>
  \<open>files_hold s path m\<close> is what is on disk: the two files of the database \<open>path\<close> hold a well-formed
  index and data for the map \<open>m\<close>. \<open>can_open s\<close> collects what opening needs of the process: two free
  descriptors, no locks, no failing calls. Opening existing files gives a handle for what they hold;
  creating gives a handle for the empty map; closing leaves the files as they are.
\<close>

definition files_hold :: "'z kern_scheme \<Rightarrow> string \<Rightarrow> (string \<rightharpoonup> string) \<Rightarrow> bool" where
  "files_hold s path m \<longleftrightarrow> (\<exists>i j ps rs ch. k_dir s (path @ ''.idx'') = Some i \<and> k_dir s (path @ ''.dat'') = Some j \<and>
     i \<noteq> j \<and> k_data s i = idx_bytes ps rs \<and> tab_ok ps \<and> recs_ok rs \<and>
     db_inv (cell ps rs) (info rs) ch (k_data s j) m)"

definition two_fds :: "'z kern_scheme \<Rightarrow> bool" where
  "two_fds s \<longleftrightarrow> (\<exists>a b. a < b \<and> b < k_maxfd s \<and> k_ofd s (int a) = None \<and> k_ofd s (int b) = None)"

definition can_open :: "'z kern_scheme \<Rightarrow> bool" where
  "can_open s \<longleftrightarrow> k_faults s = [] \<and> k_olocks s = [] \<and> (\<forall>i. k_lock s i = (\<lambda>_. F_UNLCK)) \<and>
     (\<forall>n i. k_dir s n = Some i \<longrightarrow> i < k_nino s) \<and> inj_on (k_dir s) (dom (k_dir s)) \<and> two_fds s"

definition open_ino :: "'z kern_scheme \<Rightarrow> string \<Rightarrow> nat" where
  "open_ino s n = (case k_dir s n of Some i \<Rightarrow> i | None \<Rightarrow> k_nino s)"

definition opened :: "'z kern_scheme \<Rightarrow> string \<Rightarrow> oflag set \<Rightarrow> int \<Rightarrow> 'z kern_scheme" where
  "opened s n flags fd = s\<lparr>k_dir := (k_dir s)(n \<mapsto> open_ino s n),
     k_data := (if k_dir s n = None \<or> O_TRUNC \<in> flags then (k_data s)(open_ino s n := []) else k_data s),
     k_nino := (if k_dir s n = None then Suc (k_nino s) else k_nino s),
     k_ofd := (k_ofd s)(fd \<mapsto> \<lparr>of_ino = open_ino s n, of_pos = 0, of_flags = flags\<rparr>)\<rparr>"

lemma sys_open_run:
  assumes "k_faults s = []" and "free_fd s = Some fd" and "k_dir s n \<noteq> None \<or> O_CREAT \<in> flags"
  shows "sys_open n flags s = Ok fd (opened s n flags fd)"
  using assms by (auto simp: sys_open_def opened_def open_ino_def fun_upd_idem split: option.split)

lemma two_free_fds:
  assumes "two_fds s"
  obtains fd where "free_fd s = Some fd" and "\<exists>fd'. free_fd (opened s n flags fd) = Some fd'"
proof -
  from assms obtain a b where ab: "a < b" "b < k_maxfd s" "k_ofd s (int a) = None" "k_ofd s (int b) = None"
    by (auto simp: two_fds_def)
  then obtain fd where fd: "free_fd s = Some fd" by (meson free_fd_ex less_trans)
  let ?s = "opened s n flags fd"
  have "\<exists>i < k_maxfd ?s. k_ofd ?s (int i) = None"
  proof (cases "fd = int a")
    case True
    then show ?thesis using ab by (intro exI [of _ b]) (simp add: opened_def)
  next
    case False
    then show ?thesis using ab by (intro exI [of _ a]) (simp add: opened_def)
  qed
  then show ?thesis using that fd free_fd_ex by metis
qed

lemma db_alloc_run:
  assumes "k_faults s = []"
  shows "db_alloc n s = Ok True (s\<lparr>idxbuf := [], datbuf := [], db_name := [], idxoff := 0, idxlen := 0,
            datoff := 0, datlen := 0, ptrval := 0, ptroff := 0, chainoff := 0, hashoff := 0, nhash := 0,
            cnt_delok := 0, cnt_delerr := 0, cnt_fetchok := 0, cnt_fetcherr := 0, cnt_nextrec := 0,
            cnt_stor1 := 0, cnt_stor2 := 0, cnt_stor3 := 0, cnt_stor4 := 0, cnt_storerr := 0,
            idxfd := -1, datfd := -1\<rparr>)"
  using assms by (simp add: db_alloc_def sys_malloc_def bnd_run)

text \<open>The part of \<open>db_open\<close> before the index file may have to be initialised.\<close>

definition fresh_handle :: "string \<Rightarrow> DB \<Rightarrow> DB" where
  "fresh_handle path s = s\<lparr>idxbuf := [], datbuf := [], db_name := path @ ''.idx'', idxoff := 0, idxlen := 0,
            datoff := 0, datlen := 0, ptrval := 0, ptroff := 0, chainoff := 0, hashoff := HASH_OFF, nhash := NHASH_DEF,
            cnt_delok := 0, cnt_delerr := 0, cnt_fetchok := 0, cnt_fetcherr := 0, cnt_nextrec := 0,
            cnt_stor1 := 0, cnt_stor2 := 0, cnt_stor3 := 0, cnt_stor4 := 0, cnt_storerr := 0,
            idxfd := -1, datfd := -1\<rparr>"

lemma fresh_handle_kern [simp]:
  "k_dir (fresh_handle path s) = k_dir s" "k_data (fresh_handle path s) = k_data s"
  "k_nino (fresh_handle path s) = k_nino s" "k_ofd (fresh_handle path s) = k_ofd s"
  "k_maxfd (fresh_handle path s) = k_maxfd s" "k_lock (fresh_handle path s) = k_lock s"
  "k_olocks (fresh_handle path s) = k_olocks s" "k_faults (fresh_handle path s) = k_faults s"
  by (simp_all add: fresh_handle_def)

lemma db_open_start:
  assumes can: "can_open s" and flags: "O_CREAT \<in> flags \<or> k_dir s (path @ ''.idx'') \<noteq> None \<and> k_dir s (path @ ''.dat'') \<noteq> None"
  obtains fd fd' s1 t where "s1 = (opened (fresh_handle path s) (path @ ''.idx'') flags fd)\<lparr>idxfd := fd, db_name := path @ ''.dat''\<rparr>"
    and "t = (opened s1 (path @ ''.dat'') flags fd')\<lparr>datfd := fd'\<rparr>"
    and "fd \<noteq> fd'" and "0 \<le> fd" and "0 \<le> fd'"
    and "db_open path flags s = bnd (if {O_CREAT, O_TRUNC} \<subseteq> flags then db_init else ret ()) (\<lambda>_.
       bnd db_rewind (\<lambda>_. ret True)) t"
proof -
  let ?s = "fresh_handle path s"
  have nf: "k_faults s = []" using can by (simp add: can_open_def)
  have "two_fds ?s" using can by (simp add: can_open_def two_fds_def)
  then obtain fd where fd: "free_fd ?s = Some fd" "\<exists>fd'. free_fd (opened ?s (path @ ''.idx'') flags fd) = Some fd'"
    by (rule two_free_fds)
  then obtain fd' where fd': "free_fd (opened ?s (path @ ''.idx'') flags fd) = Some fd'" by blast
  define s1 where "s1 = (opened ?s (path @ ''.idx'') flags fd)\<lparr>idxfd := fd, db_name := path @ ''.dat''\<rparr>"
  define t where "t = (opened s1 (path @ ''.dat'') flags fd')\<lparr>datfd := fd'\<rparr>"
  have free1: "free_fd s1 = Some fd'" using fd' by (simp add: s1_def free_fd_def)
  note f = free_fd_Some [OF fd(1)] free_fd_Some [OF fd']
  have neq: "fd \<noteq> fd'" using f by (auto simp: opened_def)
  have o1: "sys_open (path @ ''.idx'') flags ?s = Ok fd (opened ?s (path @ ''.idx'') flags fd)"
    using nf fd(1) flags by (intro sys_open_run) auto
  have o2: "sys_open (path @ ''.dat'') flags s1 = Ok fd' (opened s1 (path @ ''.dat'') flags fd')"
    using nf free1 flags by (intro sys_open_run) (auto simp: s1_def opened_def)
  have al: "db_alloc (length path) s = Ok True (?s\<lparr>db_name := [], hashoff := 0, nhash := 0\<rparr>)"
    using db_alloc_run [OF nf, of "length path"] by (simp add: fresh_handle_def)
  have e1: "(?s\<lparr>db_name := [], hashoff := 0, nhash := 0\<rparr>)\<lparr>nhash := NHASH_DEF, hashoff := HASH_OFF, db_name := path @ ''.idx''\<rparr> = ?s"
    by (simp add: fresh_handle_def)
  have names: "db_name ?s = path @ ''.idx''" "db_name (opened ?s (path @ ''.idx'') flags fd) = path @ ''.idx''"
    "db_name s1 = path @ ''.dat''"
    by (simp_all add: fresh_handle_def opened_def s1_def)
  have fds: "idxfd t = fd" "datfd t = fd'" by (simp_all add: opened_def s1_def t_def)
  define ini :: "(DB, unit) prog" where "ini = (if {O_CREAT, O_TRUNC} \<subseteq> flags then db_init else ret ())"
  have "db_open path flags s = bnd ini (\<lambda>_. bnd db_rewind (\<lambda>_. ret True)) t"
    unfolding db_open_def ini_def [symmetric]
    using o1 o2 f by (simp add: bnd_run al e1 [simplified] names fds s1_def [symmetric] t_def [symmetric])
  then show ?thesis using that [OF s1_def t_def neq] f unfolding ini_def by blast
qed

lemma opened_facts:
  assumes can: "can_open s" and flags: "O_RDWR \<in> flags" "O_WRONLY \<notin> flags" and fd: "fd \<noteq> fd'"
    and s1: "s1 = (opened (fresh_handle path s) (path @ ''.idx'') flags fd)\<lparr>idxfd := fd, db_name := path @ ''.dat''\<rparr>"
    and t: "t = (opened s1 (path @ ''.dat'') flags fd')\<lparr>datfd := fd'\<rparr>"
  defines "i \<equiv> open_ino s (path @ ''.idx'')" and "j \<equiv> open_ino s1 (path @ ''.dat'')"
  shows "dbenv i j t" and "k_lock t a = (\<lambda>_. F_UNLCK)" and "stats t = replicate 10 0" and "idx_pos t = 0"
    and "k_data t i = (if k_dir s (path @ ''.idx'') = None \<or> O_TRUNC \<in> flags then [] else k_data s i)"
    and "k_data t j = (if k_dir s (path @ ''.dat'') = None \<or> O_TRUNC \<in> flags then [] else k_data s j)"
    and "k_dir t (path @ ''.idx'') = Some i" and "k_dir t (path @ ''.dat'') = Some j"
proof -
  let ?x = "path @ ''.idx''" and ?d = "path @ ''.dat''"
  have c: "k_faults s = []" "k_olocks s = []" "\<And>a. k_lock s a = (\<lambda>_. F_UNLCK)" "\<And>n a. k_dir s n = Some a \<Longrightarrow> a < k_nino s"
    "inj_on (k_dir s) (dom (k_dir s))"
    using can by (auto simp: can_open_def)
  have i: "open_ino (fresh_handle path s) ?x = i" by (simp add: i_def open_ino_def split: option.split)
  have dir1: "k_dir s1 = (k_dir s)(?x \<mapsto> i)" using i by (simp add: s1 opened_def)
  have nino1: "i < k_nino s1" "k_nino s \<le> k_nino s1" using c(4) by (auto simp: s1 opened_def i_def open_ino_def split: option.split)
  have ij: "i \<noteq> j"
  proof (cases "k_dir s ?d")
    case None
    then show ?thesis using nino1(1) dir1 by (simp add: j_def open_ino_def)
  next
    case (Some b)
    then have "j = b" using dir1 by (simp add: j_def open_ino_def)
    moreover have "i \<noteq> b"
    proof (cases "k_dir s ?x")
      case None
      then show ?thesis using c(4) [OF Some] by (simp add: i_def open_ino_def)
    next
      case (Some a)
      then show ?thesis
        using \<open>k_dir s ?d = Some b\<close> inj_onD [OF c(5), of ?x ?d] by (auto simp: i_def open_ino_def)
    qed
    ultimately show ?thesis by simp
  qed
  have dir1d: "k_dir s1 ?d = k_dir s ?d" using dir1 by simp
  have jx: "k_dir s ?d \<noteq> None \<Longrightarrow> j = the (k_dir s ?d)" using dir1d by (auto simp: j_def open_ino_def)
  have d1: "k_data s1 = (if k_dir s ?x = None \<or> O_TRUNC \<in> flags then (k_data s)(i := []) else k_data s)"
    using i by (simp add: s1 opened_def)
  have dt: "k_data t = (if k_dir s ?d = None \<or> O_TRUNC \<in> flags then (k_data s1)(j := []) else k_data s1)"
    using dir1d by (simp add: t opened_def j_def)
  show "k_data t i = (if k_dir s ?x = None \<or> O_TRUNC \<in> flags then [] else k_data s i)" using ij by (simp add: dt d1)
  show "k_data t j = (if k_dir s ?d = None \<or> O_TRUNC \<in> flags then [] else k_data s j)" using ij by (simp add: dt d1)
  show "k_dir t ?x = Some i" "k_dir t ?d = Some j" using dir1 by (simp_all add: t opened_def j_def)
  show "k_lock t a = (\<lambda>_. F_UNLCK)" using c(3) by (simp add: t s1 opened_def)
  have ofd: "k_ofd t = (k_ofd s)(fd \<mapsto> \<lparr>of_ino = i, of_pos = 0, of_flags = flags\<rparr>, fd' \<mapsto> \<lparr>of_ino = j, of_pos = 0, of_flags = flags\<rparr>)"
    using i by (simp add: t s1 opened_def j_def)
  have h: "idxfd t = fd" "datfd t = fd'" "nhash t = NHASH_DEF" "hashoff t = HASH_OFF" "k_faults t = []" "k_olocks t = []"
    "stats t = replicate 10 0"
    using c by (simp_all add: t s1 opened_def fresh_handle_def stats_def eval_nat_numeral)
  show "stats t = replicate 10 0" by (rule h)
  show "idx_pos t = 0" using fd by (simp add: idx_pos_def h ofd)
  show "dbenv i j t" using h fd ij flags by (simp add: dbenv_def fd_on_def ofd readable_def writable_def)
qed

lemma db_rewind_run:
  assumes env: "dbenv i j s"
  shows "\<exists>X. db_rewind s = Ok () (s\<lparr>k_ofd := X, idxoff := int rec_base\<rparr>) \<and> dbenv i j (s\<lparr>k_ofd := X\<rparr>) \<and>
    idx_pos (s\<lparr>k_ofd := X\<rparr>) = rec_base"
proof -
  from env obtain d where d: "k_ofd s (idxfd s) = Some d" "of_ino d = i" "k_faults s = []" by (rule dbenv_idx)
  have base: "nhash s = NHASH_DEF" using env by (simp add: dbenv_def)
  have "db_rewind s = Ok () (s\<lparr>k_ofd := (k_ofd s)(idxfd s \<mapsto> d\<lparr>of_pos := rec_base\<rparr>), idxoff := int rec_base\<rparr>)"
    using d base by (simp add: db_rewind_def db_calls rec_base_def ntab_def NHASH_DEF_def PTR_SZ_def)
  then show ?thesis using dbenv_move [OF env d(1), of rec_base] by (auto simp: idx_pos_def)
qed

lemma hash_init_layout: "hash_init = idx_bytes (replicate ntab 0) []"
  by (simp add: hash_init_def idx_bytes_def tab_bytes_def recs_bytes_def ntab_def)

lemma db_init_run:
  assumes env: "dbenv i j s" and lk: "k_lock s i = (\<lambda>_. F_UNLCK)" and e: "k_data s i = []" "idx_pos s = 0"
  shows "\<exists>X. db_init s = Ok () (s\<lparr>k_ofd := X, k_data := (k_data s)(i := hash_init)\<rparr>) \<and> dbenv i j (s\<lparr>k_ofd := X\<rparr>)"
proof -
  from env obtain d where d: "k_ofd s (idxfd s) = Some d" "of_ino d = i" "readable d" "writable d" "k_faults s = []"
    by (rule dbenv_idx)
  have pos: "of_pos d = 0" using e(2) d(1) by (simp add: idx_pos_def)
  have l: "writew_lock (idxfd s) 0 SEEK_SET 0 s = Ok 0 (s\<lparr>k_lock := (k_lock s)(i := (\<lambda>_. F_WRLCK))\<rparr>)"
    using lock_reg_ok [of s "idxfd s" d 0 0 F_WRLCK F_SETLKW] d dbenv_ol [OF env]
    by (simp add: writew_lock_def set_range_all)
  define d' where "d' = d\<lparr>of_pos := length hash_init\<rparr>"
  define X where "X = (k_ofd s)(idxfd s \<mapsto> d')"
  define t where "t = s\<lparr>k_lock := (k_lock s)(i := (\<lambda>_. F_WRLCK)), k_ofd := X, k_data := (k_data s)(i := hash_init)\<rparr>"
  have u: "un_lock (idxfd s) 0 SEEK_SET 0 t = Ok 0 (t\<lparr>k_lock := k_lock s\<rparr>)"
    using un_lock_ok [of t "idxfd s" d' 0 0] d lk by (simp add: t_def X_def d'_def set_range_all fun_upd_idem)
  have "db_init s = Ok () (t\<lparr>k_lock := k_lock s\<rparr>)"
    using d l u e(1) pos unfolding db_init_def
    by (simp add: db_calls sys_fstat_size_def put_at_end t_def X_def d'_def upd_order)
  moreover have "dbenv i j (s\<lparr>k_ofd := X\<rparr>)" unfolding X_def d'_def using env d(1) by (rule dbenv_move)
  ultimately show ?thesis by (intro exI [of _ X]) (simp add: t_def upd_order)
qed

text \<open>The names of the two files lead to the files the handle is open on.\<close>

definition named :: "string \<Rightarrow> DB \<Rightarrow> bool" where
  "named path s \<longleftrightarrow> k_dir s (path @ ''.idx'') = map_option of_ino (k_ofd s (idxfd s)) \<and>
     k_dir s (path @ ''.dat'') = map_option of_ino (k_ofd s (datfd s))"

lemma named_env:
  assumes "dbenv i j s" and "k_dir s (path @ ''.idx'') = Some i" and "k_dir s (path @ ''.dat'') = Some j"
  shows "named path s"
proof -
  from assms(1) obtain d where "k_ofd s (idxfd s) = Some d" "of_ino d = i" by (rule dbenv_idx)
  moreover from assms(1) obtain d' where "k_ofd s (datfd s) = Some d'" "of_ino d' = j" by (rule dbenv_dat)
  ultimately show ?thesis using assms by (simp add: named_def)
qed

lemma empty_inv: "db_inv (cell (replicate ntab 0) []) (info []) (\<lambda>_. []) [] Map.empty"
proof -
  have "cell (replicate ntab 0) [] (h * PTR_SZ) = 0" if "h < ntab" for h using that by (simp add: cell_tab)
  then show ?thesis
    by (simp add: db_inv_def linked_def owned_def keyed_def data_ok_def means_def info_def rheap_def)
qed

lemma db_open_create_run:
  assumes can: "can_open s" and flags: "{O_RDWR, O_CREAT, O_TRUNC} \<subseteq> flags" "O_WRONLY \<notin> flags"
  shows "\<exists>t. db_open path flags s = Ok True t \<and> db_rep t Map.empty \<and> stats t = replicate 10 0 \<and> idx_pos t = rec_base \<and>
    named path t \<and> idx_size t = rec_base \<and> dat_size t = 0"
proof -
  have fl: "O_RDWR \<in> flags" "O_WRONLY \<notin> flags" "O_CREAT \<in> flags" "O_TRUNC \<in> flags" using flags by auto
  obtain fd fd' s1 t where s1: "s1 = (opened (fresh_handle path s) (path @ ''.idx'') flags fd)\<lparr>idxfd := fd, db_name := path @ ''.dat''\<rparr>"
    and t: "t = (opened s1 (path @ ''.dat'') flags fd')\<lparr>datfd := fd'\<rparr>" and neq: "fd \<noteq> fd'"
    and run: "db_open path flags s = bnd (if {O_CREAT, O_TRUNC} \<subseteq> flags then db_init else ret ()) (\<lambda>_.
       bnd db_rewind (\<lambda>_. ret True)) t"
    using db_open_start [OF can, of flags path] fl(3) by metis
  define i j where "i = open_ino s (path @ ''.idx'')" and "j = open_ino s1 (path @ ''.dat'')"
  note f = opened_facts [OF can fl(1,2) neq s1 t, folded i_def j_def]
  have e: "k_data t i = []" "k_data t j = []" using f(5,6) fl(4) by simp_all
  have ij: "i \<noteq> j" using f(1) by (simp add: dbenv_def)
  from db_init_run [OF f(1,2) e(1) f(4)] obtain X where X: "db_init t = Ok () (t\<lparr>k_ofd := X, k_data := (k_data t)(i := hash_init)\<rparr>)"
    "dbenv i j (t\<lparr>k_ofd := X\<rparr>)" by blast
  define t1 where "t1 = t\<lparr>k_ofd := X, k_data := (k_data t)(i := hash_init)\<rparr>"
  have env1: "dbenv i j t1" using X(2) by (simp add: t1_def)
  from db_rewind_run [OF env1] obtain Y where Y: "db_rewind t1 = Ok () (t1\<lparr>k_ofd := Y, idxoff := int rec_base\<rparr>)"
    "dbenv i j (t1\<lparr>k_ofd := Y\<rparr>)" "idx_pos (t1\<lparr>k_ofd := Y\<rparr>) = rec_base" by blast
  let ?u = "t1\<lparr>k_ofd := Y, idxoff := int rec_base\<rparr>"
  have "db_open path flags s = Ok True ?u"
    using run X(1) Y(1) fl by (simp add: bnd_run t1_def)
  moreover have "rep_at (\<lambda>_. F_UNLCK) i j (replicate ntab 0) [] (\<lambda>_. []) ?u Map.empty"
    using Y(2) f(2) e(2) ij empty_inv
    by (simp add: rep_at_def lay_def t1_def hash_init_layout tab_ok_def recs_ok_def ptr_ok_def PTR_MAX_def)
  moreover have "stats ?u = replicate 10 0" using f(3) by (simp add: t1_def)
  moreover have "named path ?u" using Y(2) f(7,8) by (intro named_env [of i j]) (simp_all add: t1_def)
  moreover have "idx_size ?u = rec_base" "dat_size ?u = 0"
    using env_sizes [of i j ?u] Y(2) e(2) ij length_idx_bytes [of "replicate ntab 0" "[]"]
    by (simp_all add: t1_def hash_init_layout tab_ok_def recs_ok_def ptr_ok_def PTR_MAX_def)
  ultimately show ?thesis using db_repI Y(3) by (auto simp: idx_pos_def)
qed

lemma db_open_existing_run:
  assumes can: "can_open s" and flags: "O_RDWR \<in> flags" "O_WRONLY \<notin> flags" "O_TRUNC \<notin> flags"
    and files: "files_hold s path m"
  shows "\<exists>t. db_open path flags s = Ok True t \<and> db_rep t m \<and> stats t = replicate 10 0 \<and> idx_pos t = rec_base \<and>
    named path t"
proof -
  from files obtain i j ps rs ch where fh: "k_dir s (path @ ''.idx'') = Some i" "k_dir s (path @ ''.dat'') = Some j"
    "k_data s i = idx_bytes ps rs" "tab_ok ps" "recs_ok rs" "db_inv (cell ps rs) (info rs) ch (k_data s j) m"
    unfolding files_hold_def by blast
  obtain fd fd' s1 t where s1: "s1 = (opened (fresh_handle path s) (path @ ''.idx'') flags fd)\<lparr>idxfd := fd, db_name := path @ ''.dat''\<rparr>"
    and t: "t = (opened s1 (path @ ''.dat'') flags fd')\<lparr>datfd := fd'\<rparr>" and neq: "fd \<noteq> fd'"
    and run: "db_open path flags s = bnd (if {O_CREAT, O_TRUNC} \<subseteq> flags then db_init else ret ()) (\<lambda>_.
       bnd db_rewind (\<lambda>_. ret True)) t"
    using db_open_start [OF can, of flags path] fh(1,2) by (metis option.distinct(1))
  have ij: "open_ino s (path @ ''.idx'') = i" "open_ino s1 (path @ ''.dat'') = j"
    using fh(1,2) by (simp_all add: open_ino_def s1 opened_def)
  note f = opened_facts [OF can flags(1,2) neq s1 t, unfolded ij]
  from db_rewind_run [OF f(1)] obtain Y where Y: "db_rewind t = Ok () (t\<lparr>k_ofd := Y, idxoff := int rec_base\<rparr>)"
    "dbenv i j (t\<lparr>k_ofd := Y\<rparr>)" "idx_pos (t\<lparr>k_ofd := Y\<rparr>) = rec_base" by blast
  let ?u = "t\<lparr>k_ofd := Y, idxoff := int rec_base\<rparr>"
  have "db_open path flags s = Ok True ?u" using run Y(1) flags(3) by (simp add: bnd_run)
  moreover have "rep_at (\<lambda>_. F_UNLCK) i j ps rs ch ?u m"
    using Y(2) f(2,5,6) fh flags(3) by (simp add: rep_at_def lay_def)
  moreover have "stats ?u = replicate 10 0" using f(3) by simp
  moreover have "named path ?u" using Y(2) f(7,8) by (intro named_env [of i j]) simp_all
  ultimately show ?thesis using db_repI Y(3) by (auto simp: idx_pos_def)
qed

end
