(* ===== verification/Db_Frame.thy ===== *)
theory Db_Frame
  imports Db_Model
begin

section \<open>What no operation of \<open>db.c\<close> changes, and what a failing call leads to\<close>

text \<open>
  Two facts about every operation on an open handle, for every state and every schedule of failures.
  \<open>keeps\<close>: the directory, the descriptors of the handle, the files they are open on, and the
  other open descriptors stay. \<open>fault_safe\<close>: an operation that returns has had no failing call,
  so it did what it does when none fails; any failure ends the process through \<open>err_dump\<close>.
\<close>

lemma keeps_err [keeps_intros]: "keeps f (err_dump msg)" "keeps f (err_sys msg)" "keeps f (err_quit msg)"
  by (simp_all add: keeps_def)

text \<open>The view that stays: directory, descriptors and what they are open on.\<close>

definition fds :: "'z kern_scheme \<Rightarrow> int \<Rightarrow> (nat \<times> oflag set) option" where
  "fds s fd = map_option (\<lambda>d. (of_ino d, of_flags d)) (k_ofd s fd)"

definition view :: "DB \<Rightarrow> (string \<Rightarrow> nat option) \<times> (int \<Rightarrow> (nat \<times> oflag set) option) \<times> int \<times> int \<times> nat \<times> nat \<times> olock list" where
  "view s = (k_dir s, fds s, idxfd s, datfd s, k_nino s, k_maxfd s, k_olocks s)"

lemma keeps_syscall:
  assumes "keeps view m"
  shows "keeps view (syscall bad m)"
proof -
  have "view (s\<lparr>k_faults := a\<rparr>) = view s" "view (s\<lparr>k_faults := a, k_errno := b\<rparr>) = view s" for s a b
    by (simp_all add: view_def fds_def fun_eq_iff)
  with assms show ?thesis
    unfolding keeps_def syscall_def by (auto split: list.splits option.splits)
qed

lemma fds_move: "k_ofd s fd = Some d \<Longrightarrow> fds (s\<lparr>k_ofd := (k_ofd s)(fd \<mapsto> d\<lparr>of_pos := p\<rparr>)\<rparr>) = fds s"
  by (auto simp: fds_def fun_eq_iff)

lemma view_upd [simp]:
  "view (s\<lparr>k_data := a\<rparr>) = view s" "view (s\<lparr>k_lock := b\<rparr>) = view s" "view (s\<lparr>k_errno := c\<rparr>) = view s"
  "view (s\<lparr>idxbuf := d\<rparr>) = view s" "view (s\<lparr>datbuf := e\<rparr>) = view s" "view (s\<lparr>idxoff := f\<rparr>) = view s"
  "view (s\<lparr>idxlen := g\<rparr>) = view s" "view (s\<lparr>datoff := h\<rparr>) = view s" "view (s\<lparr>datlen := i\<rparr>) = view s"
  "view (s\<lparr>ptrval := j\<rparr>) = view s" "view (s\<lparr>ptroff := k\<rparr>) = view s" "view (s\<lparr>chainoff := l\<rparr>) = view s"
  "view (s\<lparr>cnt_delok := w1\<rparr>) = view s" "view (s\<lparr>cnt_delerr := w2\<rparr>) = view s" "view (s\<lparr>cnt_fetchok := w3\<rparr>) = view s"
  "view (s\<lparr>cnt_fetcherr := w4\<rparr>) = view s" "view (s\<lparr>cnt_nextrec := w5\<rparr>) = view s" "view (s\<lparr>cnt_stor1 := w6\<rparr>) = view s"
  "view (s\<lparr>cnt_stor2 := w7\<rparr>) = view s" "view (s\<lparr>cnt_stor3 := w8\<rparr>) = view s" "view (s\<lparr>cnt_stor4 := w9\<rparr>) = view s"
  "view (s\<lparr>cnt_storerr := w10\<rparr>) = view s"
  by (simp_all add: view_def fds_def fun_eq_iff)

lemma view_move [simp]: "k_ofd s fd = Some d \<Longrightarrow> view (s\<lparr>k_ofd := (k_ofd s)(fd \<mapsto> d\<lparr>of_pos := p\<rparr>)\<rparr>) = view s"
  by (auto simp: view_def fds_def fun_eq_iff)

lemma view_write [simp]: "k_ofd s fd = Some d \<Longrightarrow> view (s\<lparr>k_data := D, k_ofd := (k_ofd s)(fd \<mapsto> d\<lparr>of_pos := p\<rparr>)\<rparr>) = view s"
  by (auto simp: view_def fds_def fun_eq_iff)

lemma keeps_calls [keeps_intros]:
  "keeps view (sys_lseek fd off w)" "keeps view (sys_read fd n)" "keeps view (sys_write fd bs)"
  "keeps view (sys_fcntl_lock fd cmd l)"
  unfolding sys_lseek_def sys_read_def sys_write_def sys_fcntl_lock_def
  by (rule keeps_syscall; auto simp: keeps_def Let_def split: option.splits if_splits)+

lemma keeps_calls2 [keeps_intros]:
  "keeps view (sys_readv2 fd n1 n2)" "keeps view (sys_writev fd iov)" "keeps view (lock_reg fd cmd ty off w len)"
  unfolding sys_readv2_def sys_writev_def lock_reg_def
  by (auto intro!: keeps_intros split: prod.split)

lemma keeps_locks [keeps_intros]:
  "keeps view (writew_lock fd off w len)" "keeps view (readw_lock fd off w len)" "keeps view (un_lock fd off w len)"
  by (simp_all add: lock_macros keeps_calls2)

lemma keeps_prims [keeps_intros]:
  "keeps view (db_readptr off)" "keeps view db_parseidx" "keeps view db_readdat"
  "keeps view (db_writeptr off p)" "keeps view (db_writedat dat off w)" "keeps view (db_writeidx key off w p)"
  unfolding db_readptr_def db_parseidx_def db_readdat_def db_writeptr_def db_writedat_def db_writeidx_def Let_def
  by (intro keeps_intros; simp)+

lemma keeps_readidx [keeps_intros]: "keeps view (db_readidx off)"
  unfolding db_readidx_def Let_def by (intro keeps_intros; simp)

lemma keeps_loops [keeps_intros]:
  "keeps view (db_find_loop n key off)" "keeps view (db_free_loop n kl dl sv off)" "keeps view (db_next_loop n)"
proof -
  show "keeps view (db_find_loop n key off)"
    by (induction n arbitrary: off) (auto intro!: keeps_intros)
  show "keeps view (db_free_loop n kl dl sv off)"
    by (induction n arbitrary: sv off) (auto intro!: keeps_intros)
  show "keeps view (db_next_loop n)"
    by (induction n) (simp_all only: db_next_loop.simps keeps_hang, intro keeps_intros)
qed

lemma keeps_mid [keeps_intros]:
  "keeps view (db_find_and_lock key w)" "keeps view (unlock_chain who)" "keeps view db_dodelete"
  "keeps view (db_findfree kl dl)" "keeps view (db_append key dat p)" "keeps view db_rewind"
  unfolding db_find_and_lock_def unlock_chain_def db_dodelete_def db_findfree_def db_append_def db_rewind_def
  by (intro keeps_intros; simp)+

lemma keeps_ops [keeps_intros]:
  "keeps view (db_fetch key)" "keeps view (db_delete key)" "keeps view (db_store_new key dat)"
  "keeps view (db_store_over key dat)" "keeps view db_nextrec"
  unfolding db_fetch_def db_delete_def db_store_new_def db_store_over_def db_nextrec_def
  by (intro keeps_intros; simp)+

lemma keeps_store [keeps_intros]: "keeps view (db_store key dat flag)"
  unfolding db_store_def Let_def by (intro keeps_intros; simp)

subsection \<open>Failing calls\<close>

lemma fault_safe_locks [fault_call_intros]:
  assumes "\<And>x. fault_safe (f x)" and "\<And>t y u. f (-1) t \<noteq> Ok y u"
  shows "fault_safe (bnd (writew_lock fd off w len) f)" and "fault_safe (bnd (readw_lock fd off w len) f)"
    and "fault_safe (bnd (un_lock fd off w len) f)"
  using assms by (simp_all add: lock_macros fault_safe_lock_reg)

text \<open>A lock that is taken only when the write goes to the end of the file, or one of two locks.\<close>

lemma fault_safe_cond [fault_call_intros]:
  assumes "fault_safe (bnd m f)" and "fault_safe (bnd n f)"
  shows "fault_safe (bnd (if b then m else n) f)"
  using assms by simp

lemma fault_safe_case_prod [fault_safe_intros]:
  "(\<And>x y. fault_safe (g x y)) \<Longrightarrow> fault_safe (case p of (x, y) \<Rightarrow> g x y)"
  by (simp split: prod.split)

lemma no_faults_db [simp]:
  "idxfd (no_faults s) = idxfd s" "datfd (no_faults s) = datfd s" "idxbuf (no_faults s) = idxbuf s"
  "datbuf (no_faults s) = datbuf s" "idxoff (no_faults s) = idxoff s" "idxlen (no_faults s) = idxlen s"
  "datoff (no_faults s) = datoff s" "datlen (no_faults s) = datlen s" "ptrval (no_faults s) = ptrval s"
  "ptroff (no_faults s) = ptroff s" "chainoff (no_faults s) = chainoff s" "hashoff (no_faults s) = hashoff s"
  "nhash (no_faults s) = nhash s" "db_name (no_faults s) = db_name s" "idx_fuel (no_faults s) = idx_fuel s"
  "cnt_delok (no_faults s) = cnt_delok s" "cnt_delerr (no_faults s) = cnt_delerr s"
  "cnt_fetchok (no_faults s) = cnt_fetchok s" "cnt_fetcherr (no_faults s) = cnt_fetcherr s"
  "cnt_nextrec (no_faults s) = cnt_nextrec s" "cnt_stor1 (no_faults s) = cnt_stor1 s"
  "cnt_stor2 (no_faults s) = cnt_stor2 s" "cnt_stor3 (no_faults s) = cnt_stor3 s"
  "cnt_stor4 (no_faults s) = cnt_stor4 s" "cnt_storerr (no_faults s) = cnt_storerr s"
  by (simp_all add: no_faults_def idx_fuel_def split: option.split)

lemma fault_safe_readptr [fault_safe_intros]: "fault_safe (db_readptr off)"
  unfolding db_readptr_def by (rule fault_call_intros | rule fault_safe_intros | simp; fail | simp add: no_faults_def; fail)+

lemma fault_safe_writeptr [fault_safe_intros]: "fault_safe (db_writeptr off p)"
  unfolding db_writeptr_def by (rule fault_call_intros | rule fault_safe_intros | simp; fail | simp add: no_faults_def; fail)+

lemma size_t_nonneg [simp]: "size_t n \<noteq> -1" "- 1 \<noteq> size_t n"
  using pos_mod_sign [of "2 ^ 64" n] by (auto simp: size_t_def)

lemma fault_safe_readdat [fault_safe_intros]: "fault_safe db_readdat"
  unfolding db_readdat_def by (rule fault_call_intros | rule fault_safe_intros | simp; fail | simp add: no_faults_def; fail)+

lemma fault_safe_writedat [fault_safe_intros]: "fault_safe (db_writedat dat off w)"
  unfolding db_writedat_def by (rule fault_call_intros | rule fault_safe_intros | simp; fail | simp add: no_faults_def; fail)+

lemma fault_safe_writeidx [fault_safe_intros]: "fault_safe (db_writeidx key off w p)"
  unfolding db_writeidx_def Let_def by (rule fault_call_intros | rule fault_safe_intros | simp; fail | simp add: no_faults_def; fail)+

lemma fault_safe_case_option [fault_safe_intros]:
  "fault_safe a \<Longrightarrow> (\<And>x. fault_safe (b x)) \<Longrightarrow> fault_safe (case p of None \<Rightarrow> a | Some x \<Rightarrow> b x)"
  by (simp split: option.split)

lemma fault_safe_parseidx [fault_safe_intros]: "fault_safe db_parseidx"
  unfolding db_parseidx_def Let_def
  by (rule fault_call_intros | rule fault_safe_intros | simp; fail | simp add: no_faults_def; fail)+

lemma fault_safe_readidx [fault_safe_intros]: "fault_safe (db_readidx off)"
  unfolding db_readidx_def Let_def
  by (rule fault_call_intros | rule fault_safe_intros | simp; fail | simp add: no_faults_def; fail)+

lemma fault_safe_loops [fault_safe_intros]:
  "fault_safe (db_find_loop n key off)" "fault_safe (db_free_loop n kl dl sv off)" "fault_safe (db_next_loop n)"
proof -
  show "fault_safe (db_find_loop n key off)"
    by (induction n arbitrary: off)
      (simp_all only: db_find_loop.simps,
       (rule fault_call_intros | assumption | rule fault_safe_intros | simp; fail | simp add: no_faults_def; fail)+)
  show "fault_safe (db_free_loop n kl dl sv off)"
    by (induction n arbitrary: sv off)
      (simp_all only: db_free_loop.simps,
       (rule fault_call_intros | assumption | rule fault_safe_intros | simp; fail | simp add: no_faults_def; fail)+)
  show "fault_safe (db_next_loop n)"
    by (induction n)
      (simp_all only: db_next_loop.simps,
       (rule fault_call_intros | assumption | rule fault_safe_intros | simp; fail | simp add: no_faults_def; fail)+)
qed

lemma fault_safe_mid [fault_safe_intros]:
  "fault_safe (db_find_and_lock key w)" "fault_safe (unlock_chain who)" "fault_safe db_dodelete"
  "fault_safe (db_findfree kl dl)" "fault_safe (db_append key dat p)" "fault_safe db_rewind"
  unfolding db_find_and_lock_def unlock_chain_def db_dodelete_def db_findfree_def db_append_def db_rewind_def
  by (rule fault_call_intros | rule fault_safe_intros | simp; fail | simp add: no_faults_def; fail)+

lemma fault_safe_ops [fault_safe_intros]:
  "fault_safe (db_fetch key)" "fault_safe (db_delete key)" "fault_safe (db_store_new key dat)"
  "fault_safe (db_store_over key dat)" "fault_safe db_nextrec"
  unfolding db_fetch_def db_delete_def db_store_new_def db_store_over_def db_nextrec_def
  by (rule fault_call_intros | rule fault_safe_intros | simp; fail | simp add: no_faults_def; fail)+

lemma fault_safe_store [fault_safe_intros]: "fault_safe (db_store key dat flag)"
  unfolding db_store_def Let_def
  by (rule fault_call_intros | rule fault_safe_intros | simp; fail | simp add: no_faults_def; fail)+

end
