(* ===== verification/Db_Client.thy ===== *)
theory Db_Client
  imports Db_Open Db_Frame
begin

section \<open>The database as a key-value store, and its clients\<close>

text \<open>
  Locale \<open>kv_store\<close> is the contract \<open>apue_db.h\<close> gives a client, as laws on a map: what a fetch returns,
  what a delete and a store return and leave behind, and how many more stores are sure to fit. What a
  client can conclude is proved once inside it, for any sequence of calls. The interpretation \<open>db\<close>
  discharges the laws for the model of \<open>db.c\<close>. The client of the repository, \<open>db/t4.c\<close>, is then run on it.
\<close>

datatype kv_cmd = Fetch string | Delete string | Store string string int

datatype kv_out = Got "string option" | Rc int

type_synonym kv_map = "string \<rightharpoonup> string"

definition flag_ok :: "int \<Rightarrow> bool" where
  "flag_ok f \<longleftrightarrow> f = DB_INSERT \<or> f = DB_REPLACE \<or> f = DB_STORE"

text \<open>A session: the calls of a client in order, with what each returned.\<close>

fun kv_run :: "(string \<Rightarrow> ('s, string option) prog) \<Rightarrow> (string \<Rightarrow> ('s, int) prog) \<Rightarrow>
    (string \<Rightarrow> string \<Rightarrow> int \<Rightarrow> ('s, int) prog) \<Rightarrow> kv_cmd list \<Rightarrow> ('s, kv_out list) prog" where
  "kv_run f d st [] = ret []"
| "kv_run f d st (Fetch k # cs) = bnd (f k) (\<lambda>r. bnd (kv_run f d st cs) (\<lambda>out. ret (Got r # out)))"
| "kv_run f d st (Delete k # cs) = bnd (d k) (\<lambda>r. bnd (kv_run f d st cs) (\<lambda>out. ret (Rc r # out)))"
| "kv_run f d st (Store k v fl # cs) = bnd (st k v fl) (\<lambda>r. bnd (kv_run f d st cs) (\<lambda>out. ret (Rc r # out)))"

text \<open>The same session on a map.\<close>

fun map_run :: "kv_cmd list \<Rightarrow> kv_map \<Rightarrow> kv_out list \<times> kv_map" where
  "map_run [] m = ([], m)"
| "map_run (Fetch k # cs) m = (Got (m k) # fst (map_run cs m), snd (map_run cs m))"
| "map_run (Delete k # cs) m =
     (Rc (if m k = None then -1 else 0) # fst (map_run cs (m(k := None))), snd (map_run cs (m(k := None))))"
| "map_run (Store k v fl # cs) m =
     (Rc (fst (store_spec fl k v m)) # fst (map_run cs (snd (store_spec fl k v m))),
      snd (map_run cs (snd (store_spec fl k v m))))"

definition cmd_ok :: "(string \<Rightarrow> string \<Rightarrow> bool) \<Rightarrow> kv_cmd \<Rightarrow> bool" where
  "cmd_ok adm c \<longleftrightarrow> (case c of Store k v f \<Rightarrow> adm k v \<and> flag_ok f | _ \<Rightarrow> True)"

locale kv_store =
  fixes rep :: "'s \<Rightarrow> kv_map \<Rightarrow> bool"
    and room_for :: "nat \<Rightarrow> 's \<Rightarrow> bool"
    and adm :: "string \<Rightarrow> string \<Rightarrow> bool"
    and fetch :: "string \<Rightarrow> ('s, string option) prog"
    and remove :: "string \<Rightarrow> ('s, int) prog"
    and put :: "string \<Rightarrow> string \<Rightarrow> int \<Rightarrow> ('s, int) prog"
  assumes fetch_law: "rep s m \<Longrightarrow> room_for n s \<Longrightarrow> \<exists>t. fetch k s = Ok (m k) t \<and> rep t m \<and> room_for n t"
    and remove_law: "rep s m \<Longrightarrow> room_for n s \<Longrightarrow>
      \<exists>t. remove k s = Ok (if m k = None then -1 else 0) t \<and> rep t (m(k := None)) \<and> room_for n t"
    and put_law: "rep s m \<Longrightarrow> room_for (Suc n) s \<Longrightarrow> adm k v \<Longrightarrow> flag_ok f \<Longrightarrow>
      \<exists>t. put k v f s = Ok (fst (store_spec f k v m)) t \<and> rep t (snd (store_spec f k v m)) \<and> room_for n t"
    and room_mono: "room_for (Suc n) s \<Longrightarrow> room_for n s"
begin

text \<open>A session returns what the map semantics says, and leaves a store for the map at its end.\<close>

lemma session:
  assumes "rep s m" and "room_for (length cs + n) s" and "list_all (cmd_ok adm) cs"
  shows "\<exists>t. kv_run fetch remove put cs s = Ok (fst (map_run cs m)) t \<and> rep t (snd (map_run cs m)) \<and> room_for n t"
  using assms
proof (induction cs arbitrary: s m)
  case Nil
  then show ?case by simp
next
  case (Cons c cs)
  have rm: "room_for (Suc (length cs + n)) s" using Cons.prems(2) by simp
  then have rm': "room_for (length cs + n) s" by (rule room_mono)
  have cs: "list_all (cmd_ok adm) cs" using Cons.prems(3) by simp
  show ?case
  proof (cases c)
    case (Fetch k)
    obtain t where t: "fetch k s = Ok (m k) t" "rep t m" "room_for (length cs + n) t"
      using fetch_law [OF Cons.prems(1) rm'] by blast
    from Cons.IH [OF t(2,3) cs] t(1) Fetch show ?thesis by (auto simp: bnd_def)
  next
    case (Delete k)
    obtain t where t: "remove k s = Ok (if m k = None then -1 else 0) t" "rep t (m(k := None))" "room_for (length cs + n) t"
      using remove_law [OF Cons.prems(1) rm'] by blast
    obtain u where u: "kv_run fetch remove put cs t = Ok (fst (map_run cs (m(k := None)))) u"
      "rep u (snd (map_run cs (m(k := None))))" "room_for n u"
      using Cons.IH [OF t(2,3) cs] by blast
    show ?thesis unfolding Delete using t(1) u by (intro exI [of _ u]) (simp add: bnd_Ok)
  next
    case (Store k v f)
    have "adm k v" "flag_ok f" using Cons.prems(3) Store by (simp_all add: cmd_ok_def)
    then obtain t where t: "put k v f s = Ok (fst (store_spec f k v m)) t" "rep t (snd (store_spec f k v m))"
      "room_for (length cs + n) t"
      using put_law [OF Cons.prems(1) rm] by blast
    from Cons.IH [OF t(2,3) cs] t(1) Store show ?thesis by (auto simp: bnd_def)
  qed
qed

text \<open>A stored record is fetched again, whatever other keys are stored or deleted in between.\<close>

lemma map_run_other:
  assumes "\<And>c. c \<in> set cs \<Longrightarrow> c \<noteq> Delete k \<and> (\<forall>v f. c \<noteq> Store k v f)"
  shows "snd (map_run cs m) k = m k"
  using assms
proof (induction cs arbitrary: m)
  case (Cons c cs)
  then have "c \<noteq> Delete k" "\<And>v f. c \<noteq> Store k v f" "\<And>m. snd (map_run cs m) k = m k" by auto
  then show ?case by (cases c) (auto simp: store_spec_def)
qed simp

lemma map_run_append:
  "map_run (as @ bs) m = (fst (map_run as m) @ fst (map_run bs (snd (map_run as m))), snd (map_run bs (snd (map_run as m))))"
proof (induction as arbitrary: m)
  case (Cons a as)
  show ?case by (cases a) (simp_all only: append_Cons map_run.simps Cons.IH fst_conv snd_conv)
qed simp

lemma store_survives:
  assumes "rep s m" and "room_for (length cs + 2 + n) s" and "list_all (cmd_ok adm) cs" and "adm k v"
    and other: "\<And>c. c \<in> set cs \<Longrightarrow> c \<noteq> Delete k \<and> (\<forall>v f. c \<noteq> Store k v f)"
  shows "\<exists>t out. kv_run fetch remove put (Store k v DB_STORE # cs @ [Fetch k]) s = Ok (Rc 0 # out @ [Got (Some v)]) t \<and>
    rep t (snd (map_run (Store k v DB_STORE # cs) m))"
proof -
  let ?cs = "Store k v DB_STORE # cs @ [Fetch k]"
  have ok: "list_all (cmd_ok adm) ?cs" using assms(3,4) by (simp add: cmd_ok_def flag_ok_def)
  have "room_for (length ?cs + n) s" using assms(2) by (simp add: add.commute)
  from session [OF assms(1) this ok] obtain t where
    t: "kv_run fetch remove put ?cs s = Ok (fst (map_run ?cs m)) t" "rep t (snd (map_run ?cs m))" by blast
  have sp: "store_spec DB_STORE k v m = (0, m(k \<mapsto> v))"
    by (simp add: store_spec_def DB_STORE_def DB_REPLACE_def DB_INSERT_def)
  have "snd (map_run cs (m(k \<mapsto> v))) k = Some v" using map_run_other [OF other] by simp
  then have "fst (map_run ?cs m) = Rc 0 # fst (map_run cs (m(k \<mapsto> v))) @ [Got (Some v)]"
    and "snd (map_run ?cs m) = snd (map_run (Store k v DB_STORE # cs) m)"
    by (simp_all add: sp map_run_append)
  with t show ?thesis by auto
qed

end

subsection \<open>The model of \<open>db.c\<close> keeps the contract\<close>

text \<open>
  Keys of up to 1000 bytes always fit an index record of a data file below \<open>10 ^ 10\<close> bytes; each store adds
  at most 1035 bytes to the index file, whose offsets have seven digits.
\<close>

definition db_adm :: "string \<Rightarrow> string \<Rightarrow> bool" where
  "db_adm key dat \<longleftrightarrow> key_ok key \<and> length key \<le> 1000 \<and> dat_ok dat"

definition db_room :: "nat \<Rightarrow> DB \<Rightarrow> bool" where
  "db_room n s \<longleftrightarrow> idx_size s + 1035 * n \<le> 9999999 + 1035 \<and> dat_size s + 1024 * n \<le> 10 ^ 10 + 1024"

lemma length_fmt_u: "n < 10 ^ Suc k \<Longrightarrow> length (fmt_u n) \<le> Suc k"
proof (induction k arbitrary: n)
  case 0
  then show ?case by (subst fmt_u.simps) simp
next
  case (Suc k)
  then have "n div 10 < 10 ^ Suc k" by simp
  from Suc.IH [OF this] show ?case by (subst fmt_u.simps) simp
qed

lemma db_room_room:
  assumes "db_room (Suc n) s" and "db_adm key dat"
  shows "room (idx_size s) (dat_size s) key dat"
proof -
  have r: "idx_size s \<le> 9999999" "dat_size s < 10 ^ Suc 10" using assms(1) by (simp_all add: db_room_def)
  have "length (fmt_u (dat_size s)) \<le> 11" using length_fmt_u [OF r(2)] by simp
  moreover have "length (fmt_u (Suc (length dat))) \<le> 4"
    using length_fmt_u [of "Suc (length dat)" 3] assms(2) by (simp add: db_adm_def dat_ok_def)
  ultimately show ?thesis using assms(2) r by (simp add: room_def db_adm_def PTR_MAX_def)
qed

interpretation db: kv_store db_rep db_room db_adm db_fetch db_delete db_store
proof unfold_locales
  fix s m n k assume "db_rep s m" "db_room n s"
  then show "\<exists>t. db_fetch k s = Ok (m k) t \<and> db_rep t m \<and> db_room n t"
    using db_fetch_run [of s m k] by (auto simp: db_room_def)
next
  fix s m n k assume "db_rep s m" "db_room n s"
  then show "\<exists>t. db_delete k s = Ok (if m k = None then -1 else 0) t \<and> db_rep t (m(k := None)) \<and> db_room n t"
    using db_delete_run [of s m k] by (auto simp: db_room_def)
next
  fix s m n k v f assume a: "db_rep s m" "db_room (Suc n) s" "db_adm k v" "flag_ok f"
  have "key_ok k" "dat_ok v" using a(3) by (simp_all add: db_adm_def)
  from db_store_run [OF a(1) this db_room_room [OF a(2,3)] a(4) [unfolded flag_ok_def]] obtain t where
    t: "db_store k v f s = Ok (fst (store_spec f k v m)) t" "db_rep t (snd (store_spec f k v m))"
      "idx_size t \<le> idx_size s + 1035" "dat_size t \<le> dat_size s + 1024" by blast
  moreover have "db_room n t" using a(2) t(3,4) by (simp add: db_room_def)
  ultimately show "\<exists>t. db_store k v f s = Ok (fst (store_spec f k v m)) t \<and> db_rep t (snd (store_spec f k v m)) \<and> db_room n t"
    by blast
next
  fix n s assume "db_room (Suc n) s"
  then show "db_room n s" by (simp add: db_room_def)
qed

lemma fault_safe_run: "fault_safe (kv_run db_fetch db_delete db_store cs)"
proof (induction cs)
  case Nil
  show ?case by (simp only: kv_run.simps fault_safe_ret)
next
  case (Cons c cs)
  then show ?case by (cases c) (auto intro!: fault_safe_bnd fault_safe_ops fault_safe_store fault_safe_ret)
qed

subsection \<open>Closing, and opening again\<close>

lemma db_close_run:
  assumes rep: "db_rep s m" and nm: "named path s"
  shows "\<exists>t. db_close s = Ok () t \<and> files_hold t path m \<and> k_dir t = k_dir s \<and> k_data t = k_data s \<and>
    (0 \<le> idxfd s \<longrightarrow> k_ofd t (idxfd s) = None) \<and> (0 \<le> datfd s \<longrightarrow> k_ofd t (datfd s) = None)"
proof -
  from rep obtain i j ps rs ch where r: "rep_at (\<lambda>_. F_UNLCK) i j ps rs ch s m" unfolding db_rep_def by blast
  note e = rep_atD [OF r]
  from e(1) obtain d where d: "k_ofd s (idxfd s) = Some d" "of_ino d = i" "k_faults s = []" by (rule dbenv_idx)
  from e(1) obtain d' where d': "k_ofd s (datfd s) = Some d'" "of_ino d' = j" by (rule dbenv_dat)
  have neq: "idxfd s \<noteq> datfd s" using e(1) by (simp add: dbenv_def)
  have fh: "files_hold t path m" if "k_dir t = k_dir s" "k_data t = k_data s" for t :: DB
    using nm e d d' that unfolding files_hold_def named_def lay_def by auto
  show ?thesis
    using d d' neq fh by (cases "0 \<le> idxfd s"; cases "0 \<le> datfd s")
      (auto simp: db_close_def db_free_def bnd_run sys_close_def)
qed

subsection \<open>\<open>db/t4.c\<close>\<close>

definition t4_main :: "(DB, unit) prog" where
  "t4_main =
     bnd (db_open ''db4'' {O_RDWR, O_CREAT, O_TRUNC}) (\<lambda>db.
     if \<not> db then err_sys ''db_open error'' else
     bnd (db_store ''Alpha'' ''data1'' DB_INSERT) (\<lambda>r.
     if r \<noteq> 0 then err_quit ''db_store error for alpha'' else
     bnd (db_store ''beta'' ''Data for beta'' DB_INSERT) (\<lambda>r.
     if r \<noteq> 0 then err_quit ''db_store error for beta'' else
     bnd (db_store ''gamma'' ''record3'' DB_INSERT) (\<lambda>r.
     if r \<noteq> 0 then err_quit ''db_store error for gamma'' else
     bnd db_close (\<lambda>_. halt (Exit 0))))))"

lemma named_keeps:
  assumes "keeps view m" and "m s = Ok x t"
  shows "named path t = named path s"
proof -
  have "view t = view s" using assms by (rule keepsD)
  then have "k_dir t = k_dir s" "idxfd t = idxfd s" "datfd t = datfd s" and f: "\<And>fd. fds t fd = fds s fd"
    by (simp_all add: view_def)
  moreover have "map_option of_ino (k_ofd t fd) = map_option of_ino (k_ofd s fd)" for fd
    using arg_cong [OF f [of fd], of "map_option fst"] by (simp add: fds_def option.map_comp comp_def)
  ultimately show ?thesis by (simp add: named_def)
qed

lemma t4_main_run:
  assumes "can_open s"
  shows "\<exists>t. t4_main s = Abort (Exit 0) t \<and>
    files_hold t ''db4'' [''Alpha'' \<mapsto> ''data1'', ''beta'' \<mapsto> ''Data for beta'', ''gamma'' \<mapsto> ''record3'']"
proof -
  obtain s0 where s0: "db_open ''db4'' {O_RDWR, O_CREAT, O_TRUNC} s = Ok True s0" "db_rep s0 Map.empty" "named ''db4'' s0"
    "db_room 3 s0"
    using db_open_create_run [OF assms, of "{O_RDWR, O_CREAT, O_TRUNC}" "''db4''"] by (auto simp: db_room_def rec_base_def ntab_def NHASH_DEF_def PTR_SZ_def)
  have ins: "store_spec DB_INSERT k v m = (0, m(k \<mapsto> v))" if "m k = None" for k v m
    using that by (simp add: store_spec_def DB_INSERT_def DB_REPLACE_def)
  have step: "\<exists>t. db_store k v DB_INSERT s = Ok 0 t \<and> db_rep t (m(k \<mapsto> v)) \<and> named ''db4'' t \<and> db_room n t"
    if "db_rep s m" "named ''db4'' s" "db_room (Suc n) s" "db_adm k v" "m k = None" for s m n k v
    using db.put_law [OF that(1,3,4), of DB_INSERT] ins [of m k v, OF that(5)] that(2) named_keeps [OF keeps_store]
    by (auto simp: flag_ok_def)
  have adm: "db_adm ''Alpha'' ''data1''" "db_adm ''beta'' ''Data for beta''" "db_adm ''gamma'' ''record3''"
    by (simp_all add: db_adm_def key_ok_def dat_ok_def SEP_def)
  obtain s1 where s1: "db_store ''Alpha'' ''data1'' DB_INSERT s0 = Ok 0 s1" "db_rep s1 [''Alpha'' \<mapsto> ''data1'']"
    "named ''db4'' s1" "db_room 2 s1"
    using step [OF s0(2,3) _ adm(1), of 2] s0(4) by (auto simp: numeral_3_eq_3)
  obtain s2 where s2: "db_store ''beta'' ''Data for beta'' DB_INSERT s1 = Ok 0 s2"
    "db_rep s2 [''Alpha'' \<mapsto> ''data1'', ''beta'' \<mapsto> ''Data for beta'']" "named ''db4'' s2" "db_room 1 s2"
    using step [OF s1(2,3) _ adm(2), of 1] s1(4) by (auto simp: numeral_2_eq_2)
  obtain s3 where s3: "db_store ''gamma'' ''record3'' DB_INSERT s2 = Ok 0 s3"
    "db_rep s3 [''Alpha'' \<mapsto> ''data1'', ''beta'' \<mapsto> ''Data for beta'', ''gamma'' \<mapsto> ''record3'']" "named ''db4'' s3"
    using step [OF s2(2,3) _ adm(3), of 0] s2(4) by auto
  from db_close_run [OF s3(2,3)] obtain t where t: "db_close s3 = Ok () t"
    "files_hold t ''db4'' [''Alpha'' \<mapsto> ''data1'', ''beta'' \<mapsto> ''Data for beta'', ''gamma'' \<mapsto> ''record3'']" by blast
  have "t4_main s = Abort (Exit 0) t"
    using s0(1) s1(1) s2(1) s3(1) t(1) by (simp add: t4_main_def bnd_run)
  with t(2) show ?thesis by blast
qed

end
