(* ===== verification/Db_Scan.thy ===== *)
theory Db_Scan
  imports Db_Open
begin

section \<open>\<open>db_rewind\<close> and \<open>db_nextrec\<close>\<close>

text \<open>
  \<open>db_nextrec\<close> reads the index file in the order of the records, skips records with an all-blank key,
  and returns key and data of the next one. \<open>db_dump\<close> is the client's loop around it. From the start
  of the file it gives every record of the map whose key is not all blank, each once.
\<close>

definition blank :: "string \<Rightarrow> bool" where
  "blank k \<longleftrightarrow> list_all (\<lambda>c. c = SPACE) k"

fun db_dump :: "nat \<Rightarrow> (DB, (string \<times> string) list) prog" where
  "db_dump 0 = hang"
| "db_dump (Suc n) = bnd db_nextrec (\<lambda>r. case r of
      None \<Rightarrow> ret []
    | Some p \<Rightarrow> bnd (db_dump n) (\<lambda>out. ret (p # out)))"

text \<open>The record in the middle of the list is the one at the sum of the lengths before it.\<close>

lemma rheap_at: "rheap (xs @ r # ys) (rec_base + tlen xs) = Some r"
proof -
  have "rec_base + tlen xs \<notin> fst ` set (placed rec_base xs)"
    using placed_offs_bounds [of "rec_base + tlen xs" rec_base xs] by auto
  then have "map_of (placed rec_base xs) (rec_base + tlen xs) = None" by (simp add: map_of_eq_None_iff)
  moreover have "map_of (placed (rec_base + tlen xs + rlen r) ys) (rec_base + tlen xs) = None"
    using placed_offs_bounds [of "rec_base + tlen xs" "rec_base + tlen xs + rlen r" ys] rlen_pos [of r]
    by (force simp: map_of_eq_None_iff)
  ultimately show ?thesis by (simp add: rheap_def placed_append map_add_def)
qed

lemma db_readidx_eof:
  assumes env: "dbenv i j s" and pos: "idx_pos s = length (k_data s i)"
  shows "\<exists>t. db_readidx 0 s = Ok (-1) t \<and> scanned s t \<and> dbenv i j t \<and> idx_pos t = idx_pos s"
proof -
  from env obtain d where d: "k_ofd s (idxfd s) = Some d" "of_ino d = i" "readable d" "k_faults s = []"
    by (rule dbenv_idx)
  have p: "of_pos d = length (k_data s i)" using pos d(1) by (simp add: idx_pos_def)
  let ?X = "(k_ofd s)(idxfd s \<mapsto> d\<lparr>of_pos := length (k_data s i)\<rparr>)"
  let ?t = "s\<lparr>k_ofd := ?X, idxoff := int (length (k_data s i))\<rparr>"
  have "db_readidx 0 s = Ok (-1) ?t"
    using d p by (simp add: db_readidx_def db_calls get_at_def PTR_SZ_def upd_order)
  moreover have "scanned s ?t" by (simp add: scanned_def unscanned_def upd_order)
  moreover have "dbenv i j ?t" using dbenv_move [OF env d(1)] by simp
  moreover have "idx_pos ?t = idx_pos s" using p d(1) by (simp add: idx_pos_def)
  ultimately show ?thesis by blast
qed

lemma next_loop:
  assumes "dbenv i j s" and "lay i s ps (xs @ ys)" and "idx_pos s = rec_base + tlen xs" and "length ys < fuel"
  shows "\<exists>t. scanned s t \<and> dbenv i j t \<and>
    (case dropWhile (\<lambda>r. blank (ir_key r)) ys of
       [] \<Rightarrow> db_next_loop fuel s = Ok True t
     | r # zs \<Rightarrow> db_next_loop fuel s = Ok False t \<and> cstr (idxbuf t) = ir_key r \<and> datoff t = int (ir_doff r) \<and>
         datlen t = int (ir_dlen r) \<and>
         idx_pos t = rec_base + tlen xs + tlen (takeWhile (\<lambda>r. blank (ir_key r)) ys) + rlen r)"
  using assms
proof (induction ys arbitrary: xs s fuel)
  case Nil
  then obtain f where f: "fuel = Suc f" by (cases fuel) auto
  have "idx_pos s = length (k_data s i)" using Nil.prems(2,3) length_idx_bytes [of ps xs] by (simp add: lay_def)
  from db_readidx_eof [OF Nil.prems(1) this] obtain t where t: "db_readidx 0 s = Ok (-1) t" "scanned s t" "dbenv i j t"
    by blast
  then show ?case using f by (intro exI [of _ t]) (simp add: bnd_run)
next
  case (Cons r ys)
  from Cons.prems(4) obtain f where f: "fuel = Suc f" "length ys < f" by (cases fuel) auto
  have h: "rheap (xs @ r # ys) (rec_base + tlen xs) = Some r" by (rule rheap_at)
  then have "info (xs @ r # ys) (rec_base + tlen xs) = Some (ir_key r, ir_doff r, ir_dlen r)" by (simp add: info_def)
  from db_readidx_info [OF Cons.prems(1,2) this, of 0] Cons.prems(3) h obtain t p where
    t: "db_readidx 0 s = Ok (int p) t" "scanned s t" "dbenv i j t" "cstr (idxbuf t) = ir_key r"
      "datoff t = int (ir_doff r)" "datlen t = int (ir_dlen r)" "idx_pos t = rec_base + tlen xs + rlen r"
    by (auto simp: at_rec_def)
  show ?case
  proof (cases "blank (ir_key r)")
    case False
    then show ?thesis using t f by (intro exI [of _ t]) (simp add: bnd_run blank_def)
  next
    case True
    have lay: "lay i t ps ((xs @ [r]) @ ys)" using Cons.prems(2) t(2) by (simp add: lay_scanned)
    from Cons.IH [OF t(3) lay _ f(2)] t(7) obtain u where u: "scanned t u" "dbenv i j u"
      "case dropWhile (\<lambda>r. blank (ir_key r)) ys of
       [] \<Rightarrow> db_next_loop f t = Ok True u
     | r' # zs \<Rightarrow> db_next_loop f t = Ok False u \<and> cstr (idxbuf u) = ir_key r' \<and> datoff u = int (ir_doff r') \<and>
         datlen u = int (ir_dlen r') \<and>
         idx_pos u = rec_base + tlen (xs @ [r]) + tlen (takeWhile (\<lambda>r. blank (ir_key r)) ys) + rlen r'"
      by auto
    have "db_next_loop fuel s = db_next_loop f t" using t(1,4) f(1) True by (simp add: bnd_run blank_def)
    then show ?thesis
      using u True scanned_trans [OF t(2) u(1)]
      by (intro exI [of _ u], cases "dropWhile (\<lambda>r. blank (ir_key r)) ys")
        (simp_all add: add.assoc del: dropWhile_eq_Nil_conv)
  qed
qed

definition rec_data :: "bytes \<Rightarrow> irec \<Rightarrow> string \<times> string" where
  "rec_data D r = (ir_key r, get_at D (ir_doff r) (ir_dlen r - 1))"

lemma scan_lock:
  assumes rep: "rep_at L i j ps rs ch s m"
  shows "lock_reg (idxfd s) cmd ty 0 SEEK_SET 1 s = Ok 0 (s\<lparr>k_lock := (k_lock s)(i := L(0 := ty))\<rparr>)"
    and "rep_at (L(0 := ty)) i j ps rs ch (s\<lparr>k_lock := (k_lock s)(i := L(0 := ty))\<rparr>) m"
  using rep idx_lock_1 [OF rep_atD(1) [OF rep], of cmd ty 0] rep_atD(6) [OF rep]
  by (simp_all add: rep_at_def lay_def)

lemma db_nextrec_run:
  assumes rep: "rep_at (\<lambda>_. F_UNLCK) i j ps rs ch s m" and rs: "rs = xs @ ys" and pos: "idx_pos s = rec_base + tlen xs"
  shows "\<exists>t. rep_at (\<lambda>_. F_UNLCK) i j ps rs ch t m \<and> k_data t = k_data s \<and>
    (case dropWhile (\<lambda>r. blank (ir_key r)) ys of
       [] \<Rightarrow> db_nextrec s = Ok None t
     | r # zs \<Rightarrow> db_nextrec s = Ok (Some (rec_data (k_data s j) r)) t \<and>
         idx_pos t = rec_base + tlen xs + tlen (takeWhile (\<lambda>r. blank (ir_key r)) ys) + rlen r)"
proof -
  define L where "L = (\<lambda>_::nat. F_UNLCK)(0 := F_RDLCK)"
  define s1 where "s1 = s\<lparr>k_lock := (k_lock s)(i := L)\<rparr>"
  have l1: "readw_lock (idxfd s) FREE_OFF SEEK_SET 1 s = Ok 0 s1" and rep1: "rep_at L i j ps rs ch s1 m"
    using scan_lock(1) [OF rep, of F_SETLKW F_RDLCK] scan_lock(2) [OF rep, of F_RDLCK] by (simp_all add: s1_def L_def readw_lock_def FREE_OFF_def)
  have pos1: "idx_pos s1 = rec_base + tlen xs" using pos by (simp add: s1_def idx_pos_def)
  have lay1: "lay i s1 ps (xs @ ys)" using rep_atD(4) [OF rep1] rs by simp
  have "length rs < idx_fuel s1"
    using rep_atD(1) [OF rep1] lay1 length_idx_bytes [of ps rs] length_le_tlen [of rs] rs
    by (auto simp: idx_fuel_def lay_def elim!: dbenv_idx)
  then have fuel: "length ys < idx_fuel s1" using rs by simp
  from next_loop [OF rep_atD(1) [OF rep1] lay1 pos1 fuel] obtain t where t: "scanned s1 t" "dbenv i j t"
    and run: "case dropWhile (\<lambda>r. blank (ir_key r)) ys of
       [] \<Rightarrow> db_next_loop (idx_fuel s1) s1 = Ok True t
     | r # zs \<Rightarrow> db_next_loop (idx_fuel s1) s1 = Ok False t \<and> cstr (idxbuf t) = ir_key r \<and> datoff t = int (ir_doff r) \<and>
         datlen t = int (ir_dlen r) \<and>
         idx_pos t = rec_base + tlen xs + tlen (takeWhile (\<lambda>r. blank (ir_key r)) ys) + rlen r" by blast
  have rep_t: "rep_at L i j ps rs ch t m" using rep1 t by (rule rep_scanned)
  have kd: "k_data t = k_data s" "idxfd t = idxfd s" using scannedD [OF t(1)] by (simp_all add: s1_def)
  have unl: "un_lock (idxfd s) FREE_OFF SEEK_SET 1 u = Ok 0 (u\<lparr>k_lock := (k_lock u)(i := (\<lambda>_. F_UNLCK))\<rparr>) \<and>
      rep_at (\<lambda>_. F_UNLCK) i j ps rs ch (u\<lparr>k_lock := (k_lock u)(i := (\<lambda>_. F_UNLCK))\<rparr>) m"
    if "rep_at L i j ps rs ch u m" "idxfd u = idxfd s" for u
    using scan_lock(1) [OF that(1), of F_SETLK F_UNLCK] scan_lock(2) [OF that(1), of F_UNLCK] that(2) by (simp add: un_lock_def FREE_OFF_def L_def fun_upd_idem)
  show ?thesis
  proof (cases "dropWhile (\<lambda>r. blank (ir_key r)) ys")
    case Nil
    let ?u = "t\<lparr>k_lock := (k_lock t)(i := (\<lambda>_. F_UNLCK))\<rparr>"
    have "db_nextrec s = Ok None ?u"
      using run Nil l1 unl [OF rep_t kd(2)] by (simp add: db_nextrec_def bnd_run)
    then show ?thesis
      using Nil unl [OF rep_t kd(2)] kd(1) by (intro exI [of _ ?u]) (simp del: dropWhile_eq_Nil_conv)
  next
    case (Cons r zs)
    have rin: "r \<in> set rs" using Cons rs set_dropWhileD [of r "\<lambda>r. blank (ir_key r)" ys] by simp
    then obtain as bs where "rs = as @ r # bs" by (meson in_set_conv_decomp)
    then have inf_r: "info rs (rec_base + tlen as) = Some (ir_key r, ir_doff r, ir_dlen r)"
      using rheap_at [of as r bs] by (simp add: info_def)
    define dat where "dat = get_at (k_data s j) (ir_doff r) (ir_dlen r - 1)"
    have g: "good (k_data s j) (ir_doff r) (ir_dlen r)"
      using db_invD(4) [OF rep_atD(5) [OF rep]] inf_r by (auto simp: data_ok_def)
    then have dl: "ir_dlen r = Suc (length dat)" "holds (k_data t j) (ir_doff r) dat" "NUL \<notin> set dat"
      using good_holds [OF g] kd(1) by (auto simp: dat_def good_def)
    have small: "int (Suc (length dat)) \<le> DATLEN_MAX" using info_small [OF rep_atD(4) [OF rep] inf_r] dl(1) by simp
    from run Cons have n: "db_next_loop (idx_fuel s1) s1 = Ok False t" "cstr (idxbuf t) = ir_key r"
      "datoff t = int (ir_doff r)" "datlen t = int (Suc (length dat))"
      "idx_pos t = rec_base + tlen xs + tlen (takeWhile (\<lambda>r. blank (ir_key r)) ys) + rlen r"
      using dl(1) by simp_all
    from db_readdat_ok [OF t(2) n(3,4) dl(2,3) small] obtain X b where X: "db_readdat t = Ok dat (t\<lparr>k_ofd := X, datbuf := b\<rparr>)"
      "dbenv i j (t\<lparr>k_ofd := X\<rparr>)" "X (idxfd t) = k_ofd t (idxfd t)" by blast
    let ?v = "t\<lparr>k_ofd := X, datbuf := b, cnt_nextrec := cnt_nextrec t + 1\<rparr>"
    let ?u = "?v\<lparr>k_lock := (k_lock ?v)(i := (\<lambda>_. F_UNLCK))\<rparr>"
    have rep_v: "rep_at L i j ps rs ch ?v m" using X(2) by (intro rep_frame [OF rep_t]) simp_all
    note uv = unl [OF rep_v]
    have "db_nextrec s = Ok (Some (ir_key r, dat)) ?u"
      using n(1,2) l1 X(1) uv kd(2) by (simp add: db_nextrec_def bnd_run)
    moreover have "idx_pos ?u = idx_pos t" using X(3) by (simp add: idx_pos_def)
    ultimately show ?thesis
      using Cons uv kd n(5) by (intro exI [of _ ?u]) (simp add: rec_data_def dat_def)
  qed
qed

text \<open>The client's loop returns the rest of the records that are not blank, in order.\<close>

lemma db_dump_run:
  assumes "rep_at (\<lambda>_. F_UNLCK) i j ps rs ch s m" and "rs = xs @ ys" and "idx_pos s = rec_base + tlen xs" and "length ys < n"
  shows "\<exists>t. db_dump n s = Ok (map (rec_data (k_data s j)) (filter (\<lambda>r. \<not> blank (ir_key r)) ys)) t \<and>
    rep_at (\<lambda>_. F_UNLCK) i j ps rs ch t m"
  using assms
proof (induction "length ys" arbitrary: xs ys s n rule: less_induct)
  case less
  from less.prems(4) obtain n' where n: "n = Suc n'" "length ys \<le> n'" by (cases n) auto
  let ?P = "\<lambda>r. blank (ir_key r)"
  from db_nextrec_run [OF less.prems(1-3)] obtain t where t: "rep_at (\<lambda>_. F_UNLCK) i j ps rs ch t m" "k_data t = k_data s"
    and run: "case dropWhile ?P ys of [] \<Rightarrow> db_nextrec s = Ok None t
     | r # zs \<Rightarrow> db_nextrec s = Ok (Some (rec_data (k_data s j) r)) t \<and>
         idx_pos t = rec_base + tlen xs + tlen (takeWhile ?P ys) + rlen r" by blast
  have ys: "ys = takeWhile ?P ys @ dropWhile ?P ys" by simp
  have skip: "filter (\<lambda>r. \<not> ?P r) ys = filter (\<lambda>r. \<not> ?P r) (dropWhile ?P ys)"
    by (subst ys, subst filter_append) (auto simp: filter_empty_conv dest: set_takeWhileD)
  show ?case
  proof (cases "dropWhile ?P ys")
    case Nil
    then show ?thesis using run t n(1) skip by (intro exI [of _ t]) (simp add: bnd_run del: dropWhile_eq_Nil_conv)
  next
    case (Cons r zs)
    let ?bs = "takeWhile ?P ys"
    have rs: "rs = (xs @ ?bs @ [r]) @ zs" using less.prems(2) ys Cons by (metis append.assoc append_Cons append_Nil)
    have len: "length zs < length ys" using arg_cong [OF ys, of length] Cons by simp
    have r: "\<not> ?P r" using Cons by (metis dropWhile_eq_Cons_conv)
    have pos: "idx_pos t = rec_base + tlen (xs @ ?bs @ [r])" using run Cons by (simp add: add.assoc)
    have "length zs < n'" using len n(2) by simp
    from less.hyps [OF len t(1) rs pos this] obtain u where
      u: "db_dump n' t = Ok (map (rec_data (k_data s j)) (filter (\<lambda>r. \<not> ?P r) zs)) u" "rep_at (\<lambda>_. F_UNLCK) i j ps rs ch u m"
      using t(2) by auto
    show ?thesis using run Cons u n(1) skip r by (intro exI [of _ u]) (simp add: bnd_run)
  qed
qed

subsection \<open>The records are those of the map\<close>

lemma blank_set: "blank k \<longleftrightarrow> set k \<subseteq> {SPACE}"
  by (auto simp: blank_def list_all_iff)

lemma distinct_filter_map:
  assumes "\<And>as r bs r' cs. rs = as @ r # bs @ r' # cs \<Longrightarrow> P r \<Longrightarrow> P r' \<Longrightarrow> f r \<noteq> f r'"
  shows "distinct (map f (filter P rs))"
  using assms
proof (induction rs)
  case (Cons a rs)
  have "distinct (map f (filter P rs))"
    by (rule Cons.IH) (metis Cons.prems append_Cons)
  moreover have "f a \<noteq> f r" if "P a" "r \<in> set rs" "P r" for r
  proof -
    from that(2) obtain bs cs where "rs = bs @ r # cs" by (meson in_set_conv_decomp)
    then show ?thesis using Cons.prems [of "[]" a bs r cs] that by simp
  qed
  ultimately show ?case by auto
qed simp

lemma live_record:
  assumes rep: "rep_at L i j ps rs ch s m" and x: "info rs x = Some (k, d, n)" and k: "\<not> blank k"
  shows "x \<in> set (ch (hb k))" and "m k = Some (get_at (k_data s j) d (n - 1))"
proof -
  note l = db_invD [OF rep_atD(5) [OF rep]]
  from l(2) x obtain h where h: "h < ntab" "x \<in> set (ch h)" unfolding owned_def by blast
  have "0 < h" using keyedD(3) [OF l(3) _ x] h(2) k by (cases h) (auto simp: blank_set)
  then have "h = hb k" using keyedD(1) [OF l(3) _ h x] by simp
  then show x': "x \<in> set (ch (hb k))" using h(2) by simp
  then show "m k = Some (get_at (k_data s j) d (n - 1))" using l(5) x unfolding means_def by blast
qed

lemma dump_records:
  assumes rep: "rep_at L i j ps rs ch s m"
  defines "out \<equiv> map (rec_data (k_data s j)) (filter (\<lambda>r. \<not> blank (ir_key r)) rs)"
  shows "distinct (map fst out)" and "set out = {(k, v). m k = Some v \<and> \<not> blank k}"
proof -
  note l = db_invD [OF rep_atD(5) [OF rep]]
  have info_at: "info rs (rec_base + tlen as) = Some (ir_key r, ir_doff r, ir_dlen r)" if "rs = as @ r # bs" for as r bs
    using that rheap_at [of as r bs] by (simp add: info_def)
  have "distinct (map ir_key (filter (\<lambda>r. \<not> blank (ir_key r)) rs))"
  proof (rule distinct_filter_map)
    fix as r bs r' cs assume rs: "rs = as @ r # bs @ r' # cs" and nb: "\<not> blank (ir_key r)" "\<not> blank (ir_key r')"
    note x = info_at [OF rs] and y = info_at [of "as @ r # bs" r' cs]
    have "rec_base + tlen as \<noteq> rec_base + tlen (as @ r # bs)" using rlen_pos [of r] by simp
    then show "ir_key r \<noteq> ir_key r'"
      using keyedD(2) [OF l(3)] live_record(1) [OF rep] x y rs nb by (metis append.assoc append_Cons)
  qed
  then show "distinct (map fst out)" by (simp add: out_def rec_data_def comp_def)
  show "set out = {(k, v). m k = Some v \<and> \<not> blank k}"
  proof (intro set_eqI iffI)
    fix p assume "p \<in> set out"
    then obtain r where r: "r \<in> set rs" "\<not> blank (ir_key r)" "p = rec_data (k_data s j) r" by (auto simp: out_def)
    from r(1) obtain as bs where "rs = as @ r # bs" by (meson in_set_conv_decomp)
    from live_record(2) [OF rep info_at [OF this] r(2)] r show "p \<in> {(k, v). m k = Some v \<and> \<not> blank k}"
      by (simp add: rec_data_def)
  next
    fix p assume "p \<in> {(k, v). m k = Some v \<and> \<not> blank k}"
    then obtain k v where p: "p = (k, v)" "m k = Some v" "\<not> blank k" by blast
    from l(5) p(2) obtain x d n where x: "info rs x = Some (k, d, n)" "v = get_at (k_data s j) d (n - 1)"
      unfolding means_def by blast
    then obtain r where "rheap rs x = Some r" "ir_key r = k" "ir_doff r = d" "ir_dlen r = n" by (auto simp: info_Some)
    moreover from this have "r \<in> set rs" using rheap_bounds by blast
    ultimately show "p \<in> set out" using p x by (auto simp: out_def rec_data_def intro!: image_eqI [of _ _ r])
  qed
qed

lemma db_scan_run:
  assumes "db_rep s m"
  shows "\<exists>out t. bnd db_rewind (\<lambda>_. db_dump (idx_fuel s)) s = Ok out t \<and> db_rep t m \<and>
    distinct (map fst out) \<and> set out = {(k, v). m k = Some v \<and> \<not> blank k}"
proof -
  from assms obtain i j ps rs ch where rep: "rep_at (\<lambda>_. F_UNLCK) i j ps rs ch s m" unfolding db_rep_def by blast
  from db_rewind_run [OF rep_atD(1) [OF rep]] obtain X where X: "db_rewind s = Ok () (s\<lparr>k_ofd := X, idxoff := int rec_base\<rparr>)"
    "dbenv i j (s\<lparr>k_ofd := X\<rparr>)" "idx_pos (s\<lparr>k_ofd := X\<rparr>) = rec_base" by blast
  let ?s = "s\<lparr>k_ofd := X, idxoff := int rec_base\<rparr>"
  have rep': "rep_at (\<lambda>_. F_UNLCK) i j ps rs ch ?s m" using X(2) by (intro rep_frame [OF rep]) simp_all
  have pos: "idx_pos ?s = rec_base + tlen []" using X(3) by (simp add: idx_pos_def)
  have "length rs < idx_fuel s"
    using rep_atD(1,4) [OF rep] length_idx_bytes [of ps rs] length_le_tlen [of rs]
    by (auto simp: idx_fuel_def lay_def elim!: dbenv_idx)
  from db_dump_run [OF rep' _ pos this] obtain t where
    "db_dump (idx_fuel s) ?s = Ok (map (rec_data (k_data s j)) (filter (\<lambda>r. \<not> blank (ir_key r)) rs)) t"
    "rep_at (\<lambda>_. F_UNLCK) i j ps rs ch t m" by auto
  then show ?thesis using X(1) dump_records [OF rep] db_repI by (auto simp: bnd_run)
qed

end
