(* ===== verification/Db_Props.thy ===== *)
theory Db_Props
  imports Db_Client Db_Scan
begin

section \<open>What \<open>db.c\<close> promises\<close>

text \<open>
  The properties of the database library, over the definitions of \<open>Db_Model\<close>, and for each one with
  hypotheses an instance on \<open>demo_db\<close>: the handle that \<open>db_open\<close> returns to a process in an empty
  directory.
\<close>

definition fresh_process :: DB where
  "fresh_process = \<lparr>k_dir = Map.empty, k_data = (\<lambda>_. []), k_nino = 0, k_ofd = Map.empty, k_maxfd = 8,
     k_lock = (\<lambda>_ _. F_UNLCK), k_olocks = [], k_faults = [], k_errno = 0, k_strerror = (\<lambda>_. []), k_stderr = [],
     idxfd = -1, datfd = -1, idxbuf = [], datbuf = [], db_name = [], idxoff = 0, idxlen = 0, datoff = 0, datlen = 0,
     ptrval = 0, ptroff = 0, chainoff = 0, hashoff = 0, nhash = 0,
     cnt_delok = 0, cnt_delerr = 0, cnt_fetchok = 0, cnt_fetcherr = 0, cnt_nextrec = 0,
     cnt_stor1 = 0, cnt_stor2 = 0, cnt_stor3 = 0, cnt_stor4 = 0, cnt_storerr = 0\<rparr>"

definition demo_db :: DB where
  "demo_db = (case db_open ''demo'' {O_RDWR, O_CREAT, O_TRUNC} fresh_process of Ok _ t \<Rightarrow> t | _ \<Rightarrow> fresh_process)"

lemma fresh_can_open: "can_open fresh_process"
proof -
  have "two_fds fresh_process" unfolding two_fds_def by (intro exI [of _ 0] exI [of _ 1]) (simp add: fresh_process_def)
  then show ?thesis by (simp add: can_open_def fresh_process_def)
qed

lemma demo_rep: "db_rep demo_db Map.empty" "named ''demo'' demo_db" "idx_size demo_db = 967" "dat_size demo_db = 0"
proof -
  have flags: "{O_RDWR, O_CREAT, O_TRUNC} \<subseteq> {O_RDWR, O_CREAT, O_TRUNC}" "O_WRONLY \<notin> {O_RDWR, O_CREAT, O_TRUNC}"
    by simp_all
  from db_open_create_run [OF fresh_can_open flags, of "''demo''"] obtain t where
    "db_open ''demo'' {O_RDWR, O_CREAT, O_TRUNC} fresh_process = Ok True t" "db_rep t Map.empty" "named ''demo'' t"
    "idx_size t = rec_base" "dat_size t = 0" by blast
  then show "db_rep demo_db Map.empty" "named ''demo'' demo_db" "idx_size demo_db = 967" "dat_size demo_db = 0"
    by (simp_all add: demo_db_def rec_base_def ntab_def NHASH_DEF_def PTR_SZ_def)
qed

lemma demo_room: "room (idx_size demo_db) (dat_size demo_db) ''k'' ''v''" "db_room 5 demo_db"
  "key_ok ''k''" "dat_ok ''v''" "db_adm ''k'' ''v''" "db_adm ''j'' ''w''"
proof -
  show ad: "db_adm ''k'' ''v''" "db_adm ''j'' ''w''" by (simp_all add: db_adm_def key_ok_def dat_ok_def SEP_def)
  then show "key_ok ''k''" "dat_ok ''v''" by (simp_all add: db_adm_def)
  show rm: "db_room 5 demo_db" by (simp add: db_room_def demo_rep)
  have "db_room (Suc 4) demo_db" using rm by simp
  then show "room (idx_size demo_db) (dat_size demo_db) ''k'' ''v''" using ad(1) by (rule db_room_room)
qed

subsection \<open>Fetching, storing, deleting\<close>

text \<open>
  C1. On a handle that represents the map \<open>m\<close>, \<open>db_store\<close> with any of its three flags returns 0, 1 or -1 as
  the flag and the presence of the key demand, and the handle then represents \<open>m\<close> with the record
  stored, or \<open>m\<close> unchanged when it refused. It always returns, with all locks released (\<open>db_rep\<close> includes
  that), and the files grow by at most one record. The hypotheses are what the code needs: a key without
  the separator, data between 1 and 1023 bytes, and index offsets of at most seven digits.
\<close>

theorem db_store_correct:
  assumes "db_rep s m" and "key_ok key" and "dat_ok dat" and "room (idx_size s) (dat_size s) key dat"
    and "flag = DB_INSERT \<or> flag = DB_REPLACE \<or> flag = DB_STORE"
  shows "\<exists>t. db_store key dat flag s = Ok (fst (store_spec flag key dat m)) t \<and>
    db_rep t (snd (store_spec flag key dat m)) \<and>
    idx_size t \<le> idx_size s + 1035 \<and> dat_size t \<le> dat_size s + 1024"
  using assms by (rule db_store_run)

theorem db_store_correct_witness:
  "\<exists>t. db_store ''k'' ''v'' DB_INSERT demo_db = Ok 0 t \<and> db_rep t [''k'' \<mapsto> ''v'']"
  using db_store_correct [OF demo_rep(1) demo_room(3,4,1), of DB_INSERT]
  by (auto simp: store_spec_def DB_INSERT_def DB_REPLACE_def)

text \<open>
  C2. \<open>db_fetch\<close> returns the data the map holds for the key, or none; the map and the sizes of the files
  stay, and the matching statistics counter goes up by one.
\<close>

theorem db_fetch_correct:
  assumes "db_rep s m"
  shows "\<exists>t. db_fetch key s = Ok (m key) t \<and> db_rep t m \<and>
    stats t = (case m key of None \<Rightarrow> (stats s)[3 := cnt_fetcherr s + 1] | Some _ \<Rightarrow> (stats s)[2 := cnt_fetchok s + 1]) \<and>
    idx_size t = idx_size s \<and> dat_size t = dat_size s"
  using assms by (rule db_fetch_run)

theorem db_fetch_correct_witness: "\<exists>t. db_fetch ''k'' demo_db = Ok None t \<and> db_rep t Map.empty"
  using db_fetch_correct [OF demo_rep(1), of "''k''"] by auto

text \<open>
  C3. \<open>db_delete\<close> returns 0 and removes the record when there is one, and returns -1 and changes nothing
  otherwise. The record is moved to the free list: neither file changes its size.
\<close>

theorem db_delete_correct:
  assumes "db_rep s m"
  shows "\<exists>t. db_delete key s = Ok (if m key = None then -1 else 0) t \<and> db_rep t (m(key := None)) \<and>
    stats t = (if m key = None then (stats s)[1 := cnt_delerr s + 1] else (stats s)[0 := cnt_delok s + 1]) \<and>
    idx_size t = idx_size s \<and> dat_size t = dat_size s"
  using assms by (rule db_delete_run)

theorem db_delete_correct_witness: "\<exists>t. db_delete ''k'' demo_db = Ok (-1) t \<and> db_rep t Map.empty"
  using db_delete_correct [OF demo_rep(1), of "''k''"] by auto

text \<open>
  C4. Refinement: any sequence of calls of \<open>db_fetch\<close>, \<open>db_delete\<close> and \<open>db_store\<close> returns exactly what the
  same sequence returns on a map, and ends with a handle for the resulting map.
\<close>

theorem db_session_refines:
  assumes "db_rep s m" and "db_room (length cs + n) s" and "list_all (cmd_ok db_adm) cs"
  shows "\<exists>t. kv_run db_fetch db_delete db_store cs s = Ok (fst (map_run cs m)) t \<and>
    db_rep t (snd (map_run cs m)) \<and> db_room n t"
  using assms by (rule db.session)

theorem db_session_refines_witness:
  "\<exists>t. kv_run db_fetch db_delete db_store
      [Store ''k'' ''v'' DB_INSERT, Store ''k'' ''w'' DB_INSERT, Fetch ''k'', Delete ''k'', Fetch ''k''] demo_db =
     Ok [Rc 0, Rc 1, Got (Some ''v''), Rc 0, Got None] t \<and> db_rep t Map.empty"
proof -
  let ?cs = "[Store ''k'' ''v'' DB_INSERT, Store ''k'' ''w'' DB_INSERT, Fetch ''k'', Delete ''k'', Fetch ''k'']"
  have "list_all (cmd_ok db_adm) ?cs"
    by (simp add: cmd_ok_def flag_ok_def db_adm_def key_ok_def dat_ok_def SEP_def)
  then have "\<exists>t. kv_run db_fetch db_delete db_store ?cs demo_db = Ok (fst (map_run ?cs Map.empty)) t \<and>
      db_rep t (snd (map_run ?cs Map.empty)) \<and> db_room 0 t"
    using demo_room(2) by (intro db_session_refines [OF demo_rep(1)]) (simp_all add: eval_nat_numeral)
  moreover have "map_run ?cs Map.empty = ([Rc 0, Rc 1, Got (Some ''v''), Rc 0, Got None], Map.empty)"
    by (simp add: store_spec_def DB_INSERT_def DB_REPLACE_def fun_eq_iff)
  ultimately show ?thesis by auto
qed

text \<open>
  C5. Round trip: a record stored with \<open>DB_STORE\<close> is fetched unchanged, whatever other records are fetched,
  stored and deleted in between.
\<close>

theorem db_store_survives:
  assumes "db_rep s m" and "db_room (length cs + 2 + n) s" and "list_all (cmd_ok db_adm) cs" and "db_adm k v"
    and "\<And>c. c \<in> set cs \<Longrightarrow> c \<noteq> Delete k \<and> (\<forall>v f. c \<noteq> Store k v f)"
  shows "\<exists>t out. kv_run db_fetch db_delete db_store (Store k v DB_STORE # cs @ [Fetch k]) s =
      Ok (Rc 0 # out @ [Got (Some v)]) t \<and> db_rep t (snd (map_run (Store k v DB_STORE # cs) m))"
  using assms by (rule db.store_survives)

theorem db_store_survives_witness:
  "\<exists>t out. kv_run db_fetch db_delete db_store [Store ''k'' ''v'' DB_STORE, Store ''j'' ''w'' DB_STORE, Delete ''j'', Fetch ''k'']
      demo_db = Ok (Rc 0 # out @ [Got (Some ''v'')]) t"
proof -
  let ?cs = "[Store ''j'' ''w'' DB_STORE, Delete ''j'']"
  have ok: "list_all (cmd_ok db_adm) ?cs" using demo_room(6) by (simp add: cmd_ok_def flag_ok_def)
  have room: "db_room (length ?cs + 2 + 1) demo_db" using demo_room(2) by (simp add: eval_nat_numeral)
  from db_store_survives [OF demo_rep(1) room ok demo_room(5)] show ?thesis by auto
qed

subsection \<open>Failures, opening and closing\<close>

text \<open>
  C6. Whatever system calls fail, a session either ends in the middle of a call, through one of the err
  routines, or every call had its full effect: if it returns, from a state with any schedule of failures,
  then it returns what the map semantics says and the handle represents the map at its end.
\<close>

theorem db_session_faults:
  assumes "db_rep (no_faults s) m" and "db_room (length cs) s" and "list_all (cmd_ok db_adm) cs"
    and "kv_run db_fetch db_delete db_store cs s = Ok out t"
  shows "out = fst (map_run cs m) \<and> db_rep (no_faults t) (snd (map_run cs m))"
proof -
  have room: "db_room (length cs + 0) (no_faults s)"
    using assms(2) by (simp add: db_room_def idx_size_def dat_size_def fd_bytes_def split: option.splits)
  have "kv_run db_fetch db_delete db_store cs (no_faults s) = Ok out (no_faults t)"
    using fault_safe_run assms(4) by (rule fault_safeD)
  with db.session [OF assms(1) room assms(3)] show ?thesis by auto
qed

theorem db_session_faults_witness:
  "\<exists>out t. kv_run db_fetch db_delete db_store [Store ''k'' ''v'' DB_INSERT, Fetch ''k''] demo_db = Ok out t \<and>
    out = [Rc 0, Got (Some ''v'')]"
proof -
  let ?cs = "[Store ''k'' ''v'' DB_INSERT, Fetch ''k'']"
  have ok: "list_all (cmd_ok db_adm) ?cs" using demo_room(5) by (simp add: cmd_ok_def flag_ok_def)
  have room: "db_room (length ?cs) demo_db" by (simp add: db_room_def demo_rep)
  have "db_room (length ?cs + 0) demo_db" using room by simp
  then obtain out t where run: "kv_run db_fetch db_delete db_store ?cs demo_db = Ok out t"
    using db.session [OF demo_rep(1) _ ok, of 0] by blast
  have "no_faults demo_db = demo_db"
    using demo_rep(1) by (auto simp: db_rep_def rep_at_def dbenv_def no_faults_def)
  then have "out = fst (map_run ?cs Map.empty)"
    using db_session_faults [OF _ room ok run, of Map.empty] demo_rep(1) by simp
  with run show ?thesis by (auto simp: store_spec_def DB_INSERT_def DB_REPLACE_def)
qed

text \<open>
  C7. \<open>db_open\<close> with \<open>O_RDWR | O_CREAT | O_TRUNC\<close> gives a handle for the empty map, whether or not the files
  existed, with the counters at zero and the handle rewound to the first record.
\<close>

theorem db_open_creates:
  assumes "can_open s" and "{O_RDWR, O_CREAT, O_TRUNC} \<subseteq> flags" and "O_WRONLY \<notin> flags"
  shows "\<exists>t. db_open path flags s = Ok True t \<and> db_rep t Map.empty \<and> stats t = replicate 10 0 \<and>
    idx_pos t = rec_base \<and> named path t \<and> idx_size t = rec_base \<and> dat_size t = 0"
  using assms by (rule db_open_create_run)

theorem db_open_creates_witness:
  "\<exists>t. db_open ''a'' {O_RDWR, O_CREAT, O_TRUNC} fresh_process = Ok True t \<and> db_rep t Map.empty"
  using db_open_creates [OF fresh_can_open, of "{O_RDWR, O_CREAT, O_TRUNC}" "''a''"] by auto

text \<open>
  C8. Persistence: closing a handle leaves files from which a later \<open>db_open\<close> without \<open>O_TRUNC\<close>, by any process
  that sees the same directory and file contents, gives a handle for the same map.
\<close>

theorem db_close_open:
  assumes "db_rep s m" and "named path s"
  shows "\<exists>t. db_close s = Ok () t \<and> (\<forall>u. can_open u \<and> k_dir u = k_dir t \<and> k_data u = k_data t \<longrightarrow>
    (\<exists>v. db_open path {O_RDWR} u = Ok True v \<and> db_rep v m \<and> named path v))"
proof -
  from db_close_run [OF assms] obtain t where t: "db_close s = Ok () t" "files_hold t path m" by blast
  have "\<exists>v. db_open path {O_RDWR} u = Ok True v \<and> db_rep v m \<and> named path v"
    if "can_open u" "k_dir u = k_dir t" "k_data u = k_data t" for u
  proof -
    have "files_hold u path m" using t(2) that(2,3) by (simp add: files_hold_def)
    from db_open_existing_run [OF that(1) _ _ _ this, of "{O_RDWR}"] show ?thesis by auto
  qed
  with t(1) show ?thesis by blast
qed

theorem db_close_open_witness: "\<exists>t. db_close demo_db = Ok () t"
  using db_close_open [OF demo_rep(1,2)] by blast

text \<open>
  C9. The program \<open>db/t4.c\<close>, started where it can open files, exits with status 0 and leaves a database
  with its three records.
\<close>

theorem t4_main_correct:
  assumes "can_open s"
  shows "\<exists>t. t4_main s = Abort (Exit 0) t \<and>
    files_hold t ''db4'' [''Alpha'' \<mapsto> ''data1'', ''beta'' \<mapsto> ''Data for beta'', ''gamma'' \<mapsto> ''record3'']"
  using assms by (rule t4_main_run)

theorem t4_main_correct_witness:
  "\<exists>t. t4_main fresh_process = Abort (Exit 0) t \<and>
    files_hold t ''db4'' [''Alpha'' \<mapsto> ''data1'', ''beta'' \<mapsto> ''Data for beta'', ''gamma'' \<mapsto> ''record3'']"
  using t4_main_correct [OF fresh_can_open] .

text \<open>
  Errors of \<open>db_store\<close> that are caught before any file is touched: an unknown flag gives -1 with
  \<open>errno\<close> set to \<open>EINVAL\<close> and nothing else changed; data shorter than one byte or longer than 1023 bytes ends the
  process, files and locks as they were.
\<close>

theorem db_store_rejects:
  "(flag \<noteq> DB_INSERT \<and> flag \<noteq> DB_REPLACE \<and> flag \<noteq> DB_STORE \<longrightarrow>
      db_store key dat flag s = Ok (-1) (s\<lparr>k_errno := EINVAL\<rparr>)) \<and>
   ((flag = DB_INSERT \<or> flag = DB_REPLACE \<or> flag = DB_STORE) \<and> (dat = [] \<or> 1023 < length dat) \<longrightarrow>
      (\<exists>t. db_store key dat flag s = Abort (Err_dump ''db_store: invalid data length'') t \<and>
         k_data t = k_data s \<and> k_lock t = k_lock s))"
  by (auto simp: db_store_def DATLEN_MIN_def DATLEN_MAX_def)

theorem db_store_rejects_witness:
  "db_store ''k'' ''v'' 7 demo_db = Ok (-1) (demo_db\<lparr>k_errno := EINVAL\<rparr>)"
  using db_store_rejects [of 7 "''k''" "''v''" demo_db] by (simp add: DB_INSERT_def DB_REPLACE_def DB_STORE_def)

subsection \<open>Enumerating the records\<close>

text \<open>
  C11. \<open>db_rewind\<close> followed by \<open>db_nextrec\<close> until it returns none gives every record of the map whose key is
  not all blank, each exactly once; the loop ends, and the map stays.
\<close>

theorem db_scan_complete:
  assumes "db_rep s m"
  shows "\<exists>out t. bnd db_rewind (\<lambda>_. db_dump (idx_fuel s)) s = Ok out t \<and> db_rep t m \<and>
    distinct (map fst out) \<and> set out = {(k, v). m k = Some v \<and> \<not> blank k}"
  using assms by (rule db_scan_run)

theorem db_scan_complete_witness:
  "\<exists>t. bnd db_rewind (\<lambda>_. db_dump (idx_fuel demo_db)) demo_db = Ok [] t \<and> db_rep t Map.empty"
  using db_scan_complete [OF demo_rep(1)] by auto

subsection \<open>Where the code does less than it should\<close>

text \<open>
  The comment in \<open>db_open\<close> says that a database that was created is initialised. The test is for
  \<open>O_CREAT | O_TRUNC\<close>: with \<open>O_RDWR | O_CREAT\<close> alone the files are created and a handle is returned, the
  index stays empty, and the first \<open>db_fetch\<close> ends the process.
\<close>

theorem db_open_uninitialised:
  assumes "can_open s" and "k_dir s (path @ ''.idx'') = None" and "k_dir s (path @ ''.dat'') = None"
  shows "\<exists>t u. db_open path {O_RDWR, O_CREAT} s = Ok True t \<and> idx_size t = 0 \<and>
    db_fetch key t = Abort (Err_dump ''_db_readptr: read error of ptr field'') u"
proof -
  let ?fl = "{O_RDWR, O_CREAT}"
  obtain fd fd' s1 t where s1: "s1 = (opened (fresh_handle path s) (path @ ''.idx'') ?fl fd)\<lparr>idxfd := fd, db_name := path @ ''.dat''\<rparr>"
    and t: "t = (opened s1 (path @ ''.dat'') ?fl fd')\<lparr>datfd := fd'\<rparr>" and neq: "fd \<noteq> fd'"
    and run: "db_open path ?fl s = bnd (if {O_CREAT, O_TRUNC} \<subseteq> ?fl then db_init else ret ()) (\<lambda>_.
       bnd db_rewind (\<lambda>_. ret True)) t"
    using db_open_start [OF assms(1), of ?fl path] by (metis insertCI)
  define i j where "i = open_ino s (path @ ''.idx'')" and "j = open_ino s1 (path @ ''.dat'')"
  note f = opened_facts [OF assms(1) _ _ neq s1 t, folded i_def j_def]
  have env: "dbenv i j t" and empty: "k_data t i = []" using f(1,5) assms(2) by simp_all
  from db_rewind_run [OF env] obtain X where X: "db_rewind t = Ok () (t\<lparr>k_ofd := X, idxoff := int rec_base\<rparr>)"
    "dbenv i j (t\<lparr>k_ofd := X\<rparr>)" by blast
  let ?t = "t\<lparr>k_ofd := X, idxoff := int rec_base\<rparr>"
  have open_t: "db_open path ?fl s = Ok True ?t" using run X(1) by (simp add: bnd_run)
  have env': "dbenv i j ?t" and e': "k_data ?t i = []" using X(2) empty by simp_all
  from db_fetch_no_index [OF env' e'] open_t env_sizes(1) [OF env'] e' show ?thesis by auto
qed

theorem db_open_uninitialised_witness:
  "\<exists>t u. db_open ''a'' {O_RDWR, O_CREAT} fresh_process = Ok True t \<and>
    db_fetch ''k'' t = Abort (Err_dump ''_db_readptr: read error of ptr field'') u"
  using db_open_uninitialised [OF fresh_can_open, of "''a''" "''k''"] by (auto simp: fresh_process_def)

text \<open>
  \<open>db_store\<close> never checks the length of a key. \<open>_db_writeidx\<close> formats the record into \<open>idxbuf\<close> before it
  checks the record's length, so inserting a key of 1021 bytes or more writes past the end of the buffer.
\<close>

theorem db_store_long_key_overflows:
  assumes "db_rep s m" and "m key = None" and "1021 \<le> length key" and "dat_ok dat"
  shows "\<exists>t. db_store key dat DB_INSERT s = Abort (Undefined ''_db_writeidx: idxbuf overflow'') t"
  using assms by (rule db_store_overflow)

theorem db_store_long_key_overflows_witness:
  "\<exists>t. db_store (replicate 1021 (CHR ''x'')) ''v'' DB_INSERT demo_db =
     Abort (Undefined ''_db_writeidx: idxbuf overflow'') t"
  using db_store_long_key_overflows [OF demo_rep(1) _ _ demo_room(4), of "replicate 1021 (CHR ''x'')"] by simp

end
