(* ===== verification/Error_Log.thy ===== *)
theory Error_Log
  imports Apue_Base
begin

section \<open>Messages of daemons: \<open>lib/errorlog.c\<close>\<close>

text \<open>
  The log family formats like the err family and then writes to standard error or to the system log,
  as the caller's variable \<open>log_to_stderr\<close> says. The line is the one of \<open>err_doit\<close>: the two files share
  these statements word for word. \<open>put_log\<close> is the change of state every routine of the file makes, and
  \<open>log_frame\<close> what it leaves alone.
\<close>

record logk = kern +
  log_to_stderr :: bool
  k_syslog :: "string list"

definition put_log :: "string \<Rightarrow> 'z logk_scheme \<Rightarrow> 'z logk_scheme" where
  "put_log l s = (if log_to_stderr s then s\<lparr>k_stderr := k_stderr s @ l\<rparr> else s\<lparr>k_syslog := k_syslog s @ [l]\<rparr>)"

definition log_doit :: "bool \<Rightarrow> int \<Rightarrow> string \<Rightarrow> ('z logk_scheme, unit) prog" where
  "log_doit errnoflag error msg =
     modify (\<lambda>s. put_log (err_line errnoflag (k_strerror s error) msg) s)"

definition log_ret :: "string \<Rightarrow> ('z logk_scheme, unit) prog" where
  "log_ret msg = bnd (gets k_errno) (\<lambda>e. log_doit True e msg)"

definition log_sys :: "string \<Rightarrow> ('z logk_scheme, 'a) prog" where
  "log_sys msg = bnd (gets k_errno) (\<lambda>e. bnd (log_doit True e msg) (\<lambda>_. halt (Log_sys msg)))"

definition log_msg :: "string \<Rightarrow> ('z logk_scheme, unit) prog" where
  "log_msg msg = log_doit False 0 msg"

definition log_quit :: "string \<Rightarrow> ('z logk_scheme, 'a) prog" where
  "log_quit msg = bnd (log_doit False 0 msg) (\<lambda>_. halt (Log_quit msg))"

definition log_exit :: "int \<Rightarrow> string \<Rightarrow> ('z logk_scheme, 'a) prog" where
  "log_exit error msg = bnd (log_doit True error msg) (\<lambda>_. halt (Log_exit msg))"

subsection \<open>What logging does\<close>

lemma log_run [simp]:
  "log_msg msg s = Ok () (put_log (err_line False (k_strerror s 0) msg) s)"
  "log_ret msg s = Ok () (put_log (err_line True (k_strerror s (k_errno s)) msg) s)"
  by (simp_all add: log_msg_def log_ret_def log_doit_def)

lemma log_halt [simp]:
  "log_sys msg s = Abort (Log_sys msg) (put_log (err_line True (k_strerror s (k_errno s)) msg) s)"
  "log_quit msg s = Abort (Log_quit msg) (put_log (err_line False (k_strerror s 0) msg) s)"
  "log_exit e msg s = Abort (Log_exit msg) (put_log (err_line True (k_strerror s e) msg) s)"
  by (simp_all add: log_sys_def log_quit_def log_exit_def log_doit_def)

lemma put_log_kern [simp]:
  "k_dir (put_log l s) = k_dir s" "k_data (put_log l s) = k_data s" "k_nino (put_log l s) = k_nino s"
  "k_ofd (put_log l s) = k_ofd s" "k_maxfd (put_log l s) = k_maxfd s" "k_lock (put_log l s) = k_lock s"
  "k_olocks (put_log l s) = k_olocks s" "k_faults (put_log l s) = k_faults s" "k_errno (put_log l s) = k_errno s"
  "k_strerror (put_log l s) = k_strerror s" "log_to_stderr (put_log l s) = log_to_stderr s"
  by (simp_all add: put_log_def)

text \<open>
  The line fits the buffer of \<open>MAXLINE\<close> bytes with its null byte, and ends with the newline, for every
  message and every error text.
\<close>

lemma err_line_bounds:
  "length (err_line f t msg) < MAXLINE" "last (err_line f t msg) = CHR 0x0A"
  by (auto simp: err_line_def Let_def MAXLINE_def min_def)

end
