(* ===== verification/Stream_IO.thy ===== *)
theory Stream_IO
  imports Error_Log
begin

section \<open>Sockets, and reading and writing whole records: \<open>lib/readn.c\<close>, \<open>lib/writen.c\<close>, \<open>printer/util.c\<close>\<close>

text \<open>
  A socket delivers what the peer sent in pieces of its own choice, may be quiet for a while, may fail, and
  ends; it takes what is written in pieces of its own choice too. Both are scripts of the state
  here, so a theorem about all states is one about all ways the network can cut up the data.
  \<open>readn\<close>, \<open>writen\<close> and \<open>treadn\<close> hide the pieces. Their loops have as fuel the number of bytes asked for: a
  pass that does not end the loop moves at least one byte.
\<close>

datatype recv =
    Data bytes   \<comment> \<open>bytes that arrive together; none: the peer has closed\<close>
  | Quiet        \<comment> \<open>nothing arrives within the time a timed read waits\<close>
  | Rd_err int   \<comment> \<open>the read fails\<close>

datatype sent =
    Takes nat    \<comment> \<open>at most so many bytes are taken\<close>
  | Wr_err int   \<comment> \<open>the write fails\<close>

record sock =
  sk_in :: "recv list"
  sk_wr :: "sent list"
  sk_out :: bytes

record net = logk +
  n_sock :: "int \<Rightarrow> sock option"
  n_closed :: "sock list"

subsection \<open>read, write and select on descriptors that may be sockets\<close>

text \<open>A blocking read waits through quiet times.\<close>

fun take_in :: "nat \<Rightarrow> recv list \<Rightarrow> (int + bytes) \<times> recv list" where
  "take_in n [] = (Inr [], [])"
| "take_in n (Quiet # r) = take_in n r"
| "take_in n (Rd_err e # r) = (Inl e, r)"
| "take_in n (Data bs # r) = (Inr (take n bs), if length bs \<le> n then r else Data (drop n bs) # r)"

definition net_read :: "int \<Rightarrow> nat \<Rightarrow> ('z net_scheme, int \<times> bytes) prog" where
  "net_read fd n = (\<lambda>s. case n_sock s fd of
      None \<Rightarrow> sys_read fd n s
    | Some k \<Rightarrow>
        (case take_in n (sk_in k) of
           (Inl e, r) \<Rightarrow> Ok (-1, []) (s\<lparr>n_sock := (n_sock s)(fd \<mapsto> k\<lparr>sk_in := r\<rparr>), k_errno := e\<rparr>)
         | (Inr bs, r) \<Rightarrow> Ok (int (length bs), bs) (s\<lparr>n_sock := (n_sock s)(fd \<mapsto> k\<lparr>sk_in := r\<rparr>)\<rparr>)))"

definition net_write :: "int \<Rightarrow> bytes \<Rightarrow> ('z net_scheme, int) prog" where
  "net_write fd bs = (\<lambda>s. case n_sock s fd of
      None \<Rightarrow> sys_write fd bs s
    | Some k \<Rightarrow>
        (case sk_wr k of
           [] \<Rightarrow> Ok (int (length bs)) (s\<lparr>n_sock := (n_sock s)(fd \<mapsto> k\<lparr>sk_out := sk_out k @ bs\<rparr>)\<rparr>)
         | Takes m # w \<Rightarrow> Ok (int (min m (length bs)))
             (s\<lparr>n_sock := (n_sock s)(fd \<mapsto> k\<lparr>sk_wr := w, sk_out := sk_out k @ take m bs\<rparr>)\<rparr>)
         | Wr_err e # w \<Rightarrow> Ok (-1) (s\<lparr>n_sock := (n_sock s)(fd \<mapsto> k\<lparr>sk_wr := w\<rparr>), k_errno := e\<rparr>)))"

text \<open>\<open>select\<close> on one descriptor for reading: 0 when it stays quiet. A file is always readable.\<close>

definition net_select :: "int \<Rightarrow> ('z net_scheme, int) prog" where
  "net_select fd = (\<lambda>s. case n_sock s fd of
      None \<Rightarrow> Ok 1 s
    | Some k \<Rightarrow>
        (case sk_in k of
           Quiet # r \<Rightarrow> Ok 0 (s\<lparr>n_sock := (n_sock s)(fd \<mapsto> k\<lparr>sk_in := r\<rparr>)\<rparr>)
         | _ \<Rightarrow> Ok 1 s))"

text \<open>A descriptor that is closed is no socket any more; \<open>n_closed\<close> keeps what went over the connection.\<close>

definition net_close :: "int \<Rightarrow> ('z net_scheme, int) prog" where
  "net_close fd =
     bnd (sys_close fd) (\<lambda>r.
     bnd (if r = 0
          then modify (\<lambda>s. s\<lparr>n_sock := (n_sock s)(fd := None),
                 n_closed := n_closed s @ (case n_sock s fd of None \<Rightarrow> [] | Some k \<Rightarrow> [k])\<rparr>)
          else ret ()) (\<lambda>_.
     ret r))"

definition net_writev :: "int \<Rightarrow> bytes list \<Rightarrow> ('z net_scheme, int) prog" where
  "net_writev fd iov = net_write fd (concat iov)"

definition sys_socket :: "('z net_scheme, int) prog" where
  "sys_socket = syscall (-1) (\<lambda>s.
     case free_fd s of
       None \<Rightarrow> fail EMFILE (-1) s
     | Some fd \<Rightarrow> Ok fd (s\<lparr>k_ofd := (k_ofd s)(fd \<mapsto> \<lparr>of_ino = k_nino s, of_pos = 0, of_flags = {O_RDWR}\<rparr>),
                            k_nino := Suc (k_nino s),
                            n_sock := (n_sock s)(fd \<mapsto> \<lparr>sk_in = [], sk_wr = [], sk_out = []\<rparr>)\<rparr>))"

subsection \<open>The routines\<close>

fun readn_loop :: "nat \<Rightarrow> int \<Rightarrow> nat \<Rightarrow> nat \<Rightarrow> bytes \<Rightarrow> ('z net_scheme, int \<times> bytes) prog" where
  "readn_loop 0 fd n nleft ptr = (if 0 < nleft then hang else ret (int (n - nleft), ptr))"
| "readn_loop (Suc fuel) fd n nleft ptr =
     (if 0 < nleft then
        bnd (net_read fd nleft) (\<lambda>(nread, bs).
        if nread < 0 then
          (if nleft = n then ret (-1, ptr) else ret (int (n - nleft), ptr))
        else if nread = 0 then ret (int (n - nleft), ptr)
        else readn_loop fuel fd n (nleft - nat nread) (ptr @ bs))
      else ret (int (n - nleft), ptr))"

definition readn :: "int \<Rightarrow> nat \<Rightarrow> ('z net_scheme, int \<times> bytes) prog" where
  "readn fd n = readn_loop n fd n n []"

fun writen_loop :: "nat \<Rightarrow> int \<Rightarrow> nat \<Rightarrow> bytes \<Rightarrow> ('z net_scheme, int) prog" where
  "writen_loop 0 fd n ptr = (if ptr \<noteq> [] then hang else ret (int (n - length ptr)))"
| "writen_loop (Suc fuel) fd n ptr =
     (if ptr \<noteq> [] then
        bnd (net_write fd ptr) (\<lambda>nwritten.
        if nwritten < 0 then
          (if length ptr = n then ret (-1) else ret (int (n - length ptr)))
        else if nwritten = 0 then ret (int (n - length ptr))
        else writen_loop fuel fd n (drop (nat nwritten) ptr))
      else ret (int (n - length ptr)))"

definition writen :: "int \<Rightarrow> bytes \<Rightarrow> ('z net_scheme, int) prog" where
  "writen fd ptr = writen_loop (length ptr) fd (length ptr) ptr"

definition tread :: "int \<Rightarrow> nat \<Rightarrow> ('z net_scheme, int \<times> bytes) prog" where
  "tread fd nbytes =
     bnd (net_select fd) (\<lambda>nfds.
     if nfds \<le> 0 then
       bnd (if nfds = 0 then modify (\<lambda>s. s\<lparr>k_errno := ETIME\<rparr>) else ret ()) (\<lambda>_. ret (-1, []))
     else net_read fd nbytes)"

fun treadn_loop :: "nat \<Rightarrow> int \<Rightarrow> nat \<Rightarrow> nat \<Rightarrow> bytes \<Rightarrow> ('z net_scheme, int \<times> bytes) prog" where
  "treadn_loop 0 fd n nleft buf = (if 0 < nleft then hang else ret (int (n - nleft), buf))"
| "treadn_loop (Suc fuel) fd n nleft buf =
     (if 0 < nleft then
        bnd (tread fd nleft) (\<lambda>(nread, bs).
        if nread < 0 then
          (if nleft = n then ret (-1, buf) else ret (int (n - nleft), buf))
        else if nread = 0 then ret (int (n - nleft), buf)
        else treadn_loop fuel fd n (nleft - nat nread) (buf @ bs))
      else ret (int (n - nleft), buf))"

definition treadn :: "int \<Rightarrow> nat \<Rightarrow> ('z net_scheme, int \<times> bytes) prog" where
  "treadn fd nbytes = treadn_loop nbytes fd nbytes nbytes []"

text \<open>
  Copying a file to a socket by blocks of \<open>bsz\<close> bytes, the loop of \<open>printer/print.c\<close> and of \<open>printer/printd.c\<close>, which
  differ in what they do when it stops early.
\<close>

datatype pump_end = Pumped | Read_failed | Short_write int int

fun pump :: "nat \<Rightarrow> nat \<Rightarrow> int \<Rightarrow> int \<Rightarrow> ('z net_scheme, pump_end) prog" where
  "pump bsz 0 fd sockfd = hang"
| "pump bsz (Suc fuel) fd sockfd =
     bnd (sys_read fd bsz) (\<lambda>(nr, buf).
     if nr = 0 then ret Pumped
     else if nr < 0 then ret Read_failed
     else
       bnd (writen sockfd buf) (\<lambda>nw.
       if nw \<noteq> nr then ret (Short_write nw nr)
       else pump bsz fuel fd sockfd))"

subsection \<open>Filling a buffer from pieces\<close>

text \<open>
  Locale \<open>reader\<close>: a read call on a source that still has the bytes \<open>src s\<close> to give. It gives some of them, at least
  one and at most as many as asked for; when there are none it reports the end, or a failure when \<open>bad s\<close>.
  \<open>fr s\<close> is the part of the state reading leaves alone. The loop of \<open>readn\<close> and \<open>treadn\<close> is the same over
  the two read calls, and is followed here once.
\<close>

fun fill_loop :: "(nat \<Rightarrow> ('s, int \<times> bytes) prog) \<Rightarrow> nat \<Rightarrow> nat \<Rightarrow> nat \<Rightarrow> bytes \<Rightarrow> ('s, int \<times> bytes) prog" where
  "fill_loop rd 0 n nleft buf = (if 0 < nleft then hang else ret (int (n - nleft), buf))"
| "fill_loop rd (Suc fuel) n nleft buf =
     (if 0 < nleft then
        bnd (rd nleft) (\<lambda>(nread, bs).
        if nread < 0 then
          (if nleft = n then ret (-1, buf) else ret (int (n - nleft), buf))
        else if nread = 0 then ret (int (n - nleft), buf)
        else fill_loop rd fuel n (nleft - nat nread) (buf @ bs))
      else ret (int (n - nleft), buf))"

lemma readn_fill: "readn_loop fuel fd n nleft buf = fill_loop (net_read fd) fuel n nleft buf"
  by (induction fuel arbitrary: nleft buf) (simp_all cong: if_cong)

lemma treadn_fill: "treadn_loop fuel fd n nleft buf = fill_loop (tread fd) fuel n nleft buf"
  by (induction fuel arbitrary: nleft buf) (simp_all cong: if_cong)

text \<open>What filling \<open>n\<close> bytes from a source gives: result, bytes, and how many are used up.\<close>

definition filled :: "nat \<Rightarrow> bytes \<Rightarrow> bool \<Rightarrow> int \<times> bytes" where
  "filled n src bad = (if n \<le> length src then (int n, take n src)
     else if bad \<and> src = [] then (-1, []) else (int (length src), src))"

locale reader =
  fixes rd :: "nat \<Rightarrow> ('s, int \<times> bytes) prog"
    and ready :: "'s \<Rightarrow> bool" and src :: "'s \<Rightarrow> bytes" and bad :: "'s \<Rightarrow> bool" and fr :: "'s \<Rightarrow> 'v"
  assumes data_law: "ready s \<Longrightarrow> src s \<noteq> [] \<Longrightarrow> 0 < n \<Longrightarrow> \<exists>k t. 0 < k \<and> k \<le> n \<and> k \<le> length (src s) \<and>
      rd n s = Ok (int k, take k (src s)) t \<and> ready t \<and> src t = drop k (src s) \<and> bad t = bad s \<and> fr t = fr s"
    and dry_law: "ready s \<Longrightarrow> src s = [] \<Longrightarrow> 0 < n \<Longrightarrow>
      \<exists>t. rd n s = Ok (if bad s then (-1, []) else (0, [])) t \<and> ready t \<and> fr t = fr s"
begin

lemma fill_more:
  assumes "ready s" and "m \<le> length (src s)" and "m \<le> n" and "m \<le> fuel"
  shows "\<exists>t. fill_loop rd fuel n m buf s = Ok (int n, buf @ take m (src s)) t \<and>
    ready t \<and> src t = drop m (src s) \<and> bad t = bad s \<and> fr t = fr s"
  using assms
proof (induction fuel arbitrary: m buf s)
  case 0
  then show ?case by simp
next
  case (Suc fuel)
  show ?case
  proof (cases "m = 0")
    case True
    then show ?thesis using Suc.prems by simp
  next
    case False
    then have "src s \<noteq> []" and m: "0 < m" using Suc.prems(2) by auto
    from data_law [OF Suc.prems(1) this] obtain k t where k: "0 < k" "k \<le> m" "k \<le> length (src s)"
      "rd m s = Ok (int k, take k (src s)) t" and t: "ready t" "src t = drop k (src s)" "bad t = bad s" "fr t = fr s" by blast
    have "\<exists>u. fill_loop rd fuel n (m - k) (buf @ take k (src s)) t = Ok (int n, (buf @ take k (src s)) @ take (m - k) (src t)) u \<and>
        ready u \<and> src u = drop (m - k) (src t) \<and> bad u = bad t \<and> fr u = fr t"
      using t(1,2) k Suc.prems by (intro Suc.IH) simp_all
    then obtain u where u: "fill_loop rd fuel n (m - k) (buf @ take k (src s)) t = Ok (int n, (buf @ take k (src s)) @ take (m - k) (src t)) u"
      "ready u" "src u = drop (m - k) (src t)" "bad u = bad t" "fr u = fr t" by blast
    have "take k (src s) @ take (m - k) (drop k (src s)) = take m (src s)" using k(2) by (metis le_add_diff_inverse take_add)
    then show ?thesis using u k m t by (intro exI [of _ u]) (simp add: bnd_def)
  qed
qed

lemma fill_less:
  assumes "ready s" and "length (src s) < m" and "m \<le> n" and "m \<le> fuel"
  shows "\<exists>t. fill_loop rd fuel n m buf s =
      Ok (if bad s \<and> src s = [] \<and> m = n then (-1, buf) else (int (n - m + length (src s)), buf @ src s)) t \<and>
    ready t \<and> fr t = fr s"
  using assms
proof (induction fuel arbitrary: m buf s)
  case 0
  then show ?case by simp
next
  case (Suc fuel)
  have m: "0 < m" using Suc.prems(2) by simp
  show ?case
  proof (cases "src s = []")
    case True
    from dry_law [OF Suc.prems(1) True m] obtain t where "rd m s = Ok (if bad s then (-1, []) else (0, [])) t" "ready t" "fr t = fr s"
      by blast
    then show ?thesis using True m by (intro exI [of _ t]) (simp add: bnd_def)
  next
    case False
    from data_law [OF Suc.prems(1) False m] obtain k t where k: "0 < k" "k \<le> m" "k \<le> length (src s)"
      "rd m s = Ok (int k, take k (src s)) t" and t: "ready t" "src t = drop k (src s)" "bad t = bad s" "fr t = fr s" by blast
    have "\<exists>u. fill_loop rd fuel n (m - k) (buf @ take k (src s)) t =
        Ok (if bad t \<and> src t = [] \<and> m - k = n then (-1, buf @ take k (src s))
            else (int (n - (m - k) + length (src t)), (buf @ take k (src s)) @ src t)) u \<and> ready u \<and> fr u = fr t"
      using t(1,2) k Suc.prems by (intro Suc.IH) auto
    then obtain u where "fill_loop rd fuel n (m - k) (buf @ take k (src s)) t =
        Ok (if bad t \<and> src t = [] \<and> m - k = n then (-1, buf @ take k (src s))
            else (int (n - (m - k) + length (src t)), (buf @ take k (src s)) @ src t)) u" "ready u" "fr u = fr t" by blast
    moreover have "n - (m - k) + length (src t) = n - m + length (src s)" "m - k \<noteq> n"
      using k t(2) Suc.prems(3) m by auto
    ultimately show ?thesis using k m t False by (intro exI [of _ u]) (simp add: bnd_def)
  qed
qed

lemma fill:
  assumes "ready s"
  shows "\<exists>t. fill_loop rd n n n [] s = Ok (filled n (src s) (bad s)) t \<and> ready t \<and> fr t = fr s \<and>
    (n \<le> length (src s) \<longrightarrow> src t = drop n (src s) \<and> bad t = bad s)"
  using fill_more [OF assms, of n n n "[]"] fill_less [OF assms, of n n n "[]"]
  by (cases "n \<le> length (src s)") (auto simp: filled_def)

end

subsection \<open>Sockets as sources\<close>

text \<open>
  The bytes a socket gives before it stops, and whether it stops with a failure; \<open>tm\<close> says that the
  read is timed, so that a quiet time stops it.
\<close>

fun avail :: "bool \<Rightarrow> recv list \<Rightarrow> bytes" where
  "avail tm [] = []"
| "avail tm (Quiet # r) = (if tm then [] else avail tm r)"
| "avail tm (Rd_err e # r) = []"
| "avail tm (Data bs # r) = (if bs = [] then [] else bs @ avail tm r)"

fun stops_bad :: "bool \<Rightarrow> recv list \<Rightarrow> bool" where
  "stops_bad tm [] = False"
| "stops_bad tm (Quiet # r) = (tm \<or> stops_bad tm r)"
| "stops_bad tm (Rd_err e # r) = True"
| "stops_bad tm (Data bs # r) = (bs \<noteq> [] \<and> stops_bad tm r)"

definition on_sock :: "int \<Rightarrow> 'z net_scheme \<Rightarrow> bool" where
  "on_sock fd s \<longleftrightarrow> n_sock s fd \<noteq> None"

definition sk_src :: "bool \<Rightarrow> int \<Rightarrow> 'z net_scheme \<Rightarrow> bytes" where
  "sk_src tm fd s = avail tm (sk_in (the (n_sock s fd)))"

definition sk_bad :: "bool \<Rightarrow> int \<Rightarrow> 'z net_scheme \<Rightarrow> bool" where
  "sk_bad tm fd s = stops_bad tm (sk_in (the (n_sock s fd)))"

definition but_input :: "int \<Rightarrow> 'z net_scheme \<Rightarrow> 'z net_scheme" where
  "but_input fd s = s\<lparr>k_errno := 0, n_sock := (n_sock s)(fd := map_option (\<lambda>k. k\<lparr>sk_in := []\<rparr>) (n_sock s fd))\<rparr>"

lemma but_input_upd [simp]:
  "n_sock s fd = Some k \<Longrightarrow> but_input fd (s\<lparr>n_sock := (n_sock s)(fd \<mapsto> k\<lparr>sk_in := r\<rparr>)\<rparr>) = but_input fd s"
  "n_sock s fd = Some k \<Longrightarrow> but_input fd (s\<lparr>n_sock := (n_sock s)(fd \<mapsto> k\<lparr>sk_in := r\<rparr>), k_errno := e\<rparr>) = but_input fd s"
  "but_input fd (s\<lparr>k_errno := e\<rparr>) = but_input fd s"
  by (simp_all add: but_input_def)

lemma take_in_data:
  assumes "avail tm r \<noteq> []" and "0 < n"
  shows "\<exists>k r'. 0 < k \<and> k \<le> n \<and> k \<le> length (avail tm r) \<and> take_in n r = (Inr (take k (avail tm r)), r') \<and>
    avail tm r' = drop k (avail tm r) \<and> stops_bad tm r' = stops_bad tm r"
  using assms(1)
proof (induction r)
  case (Cons e r)
  show ?case
  proof (cases e)
    case (Data bs)
    have bs: "bs \<noteq> []" using Cons.prems Data by (auto split: if_splits)
    then show ?thesis
      using Data assms(2) by (intro exI [of _ "min n (length bs)"] exI [of _ "snd (take_in n (e # r))"]) (auto simp: min_def)
  next
    case Quiet
    then show ?thesis using Cons by (auto split: if_splits)
  qed (use Cons.prems in auto)
qed simp

lemma take_in_dry:
  assumes "avail False r = []"
  shows "\<exists>r'. if stops_bad False r then \<exists>e. take_in n r = (Inl e, r') else take_in n r = (Inr [], r')"
  using assms
proof (induction r)
  case (Cons e r)
  then show ?case by (cases e) (auto split: if_splits)
qed simp

interpretation rd_sock: reader "net_read fd" "on_sock fd" "sk_src False fd" "sk_bad False fd" "but_input fd" for fd :: int
proof unfold_locales
  fix s :: "'a net_scheme" and n assume s: "on_sock fd s" and d: "sk_src False fd s \<noteq> []" and n: "(0::nat) < n"
  from s obtain k where k: "n_sock s fd = Some k" by (auto simp: on_sock_def)
  have "avail False (sk_in k) \<noteq> []" using d k by (simp add: sk_src_def)
  from take_in_data [OF this n] obtain i r where i: "0 < i" "i \<le> n" "i \<le> length (avail False (sk_in k))"
    "take_in n (sk_in k) = (Inr (take i (avail False (sk_in k))), r)" "avail False r = drop i (avail False (sk_in k))"
    "stops_bad False r = stops_bad False (sk_in k)" by blast
  let ?t = "s\<lparr>n_sock := (n_sock s)(fd \<mapsto> k\<lparr>sk_in := r\<rparr>)\<rparr>"
  have "net_read fd n s = Ok (int i, take i (sk_src False fd s)) ?t" using k i by (simp add: net_read_def sk_src_def)
  then show "\<exists>i t. 0 < i \<and> i \<le> n \<and> i \<le> length (sk_src False fd s) \<and> net_read fd n s = Ok (int i, take i (sk_src False fd s)) t \<and>
      on_sock fd t \<and> sk_src False fd t = drop i (sk_src False fd s) \<and> sk_bad False fd t = sk_bad False fd s \<and>
      but_input fd t = but_input fd s"
    using k i by (intro exI [of _ i] exI [of _ ?t]) (simp add: sk_src_def sk_bad_def on_sock_def)
next
  fix s :: "'a net_scheme" and n assume s: "on_sock fd s" and d: "sk_src False fd s = []" and n: "(0::nat) < n"
  from s obtain k where k: "n_sock s fd = Some k" by (auto simp: on_sock_def)
  have "avail False (sk_in k) = []" using d k by (simp add: sk_src_def)
  from take_in_dry [OF this, of n] obtain r where
    "if stops_bad False (sk_in k) then \<exists>e. take_in n (sk_in k) = (Inl e, r) else take_in n (sk_in k) = (Inr [], r)" by blast
  then show "\<exists>t. net_read fd n s = Ok (if sk_bad False fd s then (-1, []) else (0, [])) t \<and> on_sock fd t \<and> but_input fd t = but_input fd s"
    using k by (auto simp: net_read_def sk_bad_def on_sock_def split: if_splits)
qed

interpretation trd_sock: reader "tread fd" "on_sock fd" "sk_src True fd" "sk_bad True fd" "but_input fd" for fd :: int
proof unfold_locales
  fix s :: "'a net_scheme" and n assume s: "on_sock fd s" and d: "sk_src True fd s \<noteq> []" and n: "(0::nat) < n"
  from s obtain k where k: "n_sock s fd = Some k" by (auto simp: on_sock_def)
  have a: "avail True (sk_in k) \<noteq> []" using d k by (simp add: sk_src_def)
  then have sel: "net_select fd s = Ok 1 s" using k by (auto simp: net_select_def split: list.split recv.split)
  from take_in_data [OF a n] obtain i r where i: "0 < i" "i \<le> n" "i \<le> length (avail True (sk_in k))"
    "take_in n (sk_in k) = (Inr (take i (avail True (sk_in k))), r)" "avail True r = drop i (avail True (sk_in k))"
    "stops_bad True r = stops_bad True (sk_in k)" by blast
  let ?t = "s\<lparr>n_sock := (n_sock s)(fd \<mapsto> k\<lparr>sk_in := r\<rparr>)\<rparr>"
  have "tread fd n s = Ok (int i, take i (sk_src True fd s)) ?t"
    using k i sel by (simp add: tread_def bnd_def net_read_def sk_src_def)
  then show "\<exists>i t. 0 < i \<and> i \<le> n \<and> i \<le> length (sk_src True fd s) \<and> tread fd n s = Ok (int i, take i (sk_src True fd s)) t \<and>
      on_sock fd t \<and> sk_src True fd t = drop i (sk_src True fd s) \<and> sk_bad True fd t = sk_bad True fd s \<and>
      but_input fd t = but_input fd s"
    using k i by (intro exI [of _ i] exI [of _ ?t]) (simp add: sk_src_def sk_bad_def on_sock_def)
next
  fix s :: "'a net_scheme" and n assume s: "on_sock fd s" and d: "sk_src True fd s = []" and n: "(0::nat) < n"
  from s obtain k where k: "n_sock s fd = Some k" by (auto simp: on_sock_def)
  have "avail True (sk_in k) = []" using d k by (simp add: sk_src_def)
  then show "\<exists>t. tread fd n s = Ok (if sk_bad True fd s then (-1, []) else (0, [])) t \<and> on_sock fd t \<and> but_input fd t = but_input fd s"
    using k by (cases "sk_in k"; cases "hd (sk_in k)")
      (auto simp: tread_def bnd_def net_select_def net_read_def sk_bad_def on_sock_def split: if_splits)
qed

lemma readn_run:
  assumes "on_sock fd s"
  shows "\<exists>t. readn fd n s = Ok (filled n (sk_src False fd s) (sk_bad False fd s)) t \<and> on_sock fd t \<and>
    but_input fd t = but_input fd s \<and>
    (n \<le> length (sk_src False fd s) \<longrightarrow> sk_src False fd t = drop n (sk_src False fd s) \<and> sk_bad False fd t = sk_bad False fd s)"
  unfolding readn_def readn_fill using rd_sock.fill [OF assms] by simp

lemma treadn_run:
  assumes "on_sock fd s"
  shows "\<exists>t. treadn fd n s = Ok (filled n (sk_src True fd s) (sk_bad True fd s)) t \<and> on_sock fd t \<and>
    but_input fd t = but_input fd s \<and>
    (n \<le> length (sk_src True fd s) \<longrightarrow> sk_src True fd t = drop n (sk_src True fd s) \<and> sk_bad True fd t = sk_bad True fd s)"
  unfolding treadn_def treadn_fill using trd_sock.fill [OF assms] by simp

subsection \<open>Writing everything\<close>

definition smooth :: "sent list \<Rightarrow> bool" where
  "smooth w \<longleftrightarrow> (\<forall>e \<in> set w. \<exists>k. e = Takes k \<and> 0 < k)"

definition but_output :: "int \<Rightarrow> 'z net_scheme \<Rightarrow> 'z net_scheme" where
  "but_output fd s = s\<lparr>k_errno := 0, n_sock := (n_sock s)(fd := map_option (\<lambda>k. k\<lparr>sk_wr := [], sk_out := []\<rparr>) (n_sock s fd))\<rparr>"

lemma but_output_upd [simp]:
  "n_sock s fd = Some k \<Longrightarrow> but_output fd (s\<lparr>n_sock := (n_sock s)(fd \<mapsto> k\<lparr>sk_out := b\<rparr>)\<rparr>) = but_output fd s"
  "n_sock s fd = Some k \<Longrightarrow> but_output fd (s\<lparr>n_sock := (n_sock s)(fd \<mapsto> k\<lparr>sk_wr := w\<rparr>), k_errno := e\<rparr>) = but_output fd s"
  "n_sock s fd = Some k \<Longrightarrow> but_output fd (s\<lparr>n_sock := (n_sock s)(fd \<mapsto> k\<lparr>sk_wr := w, sk_out := b\<rparr>)\<rparr>) = but_output fd s"
  by (simp_all add: but_output_def)

lemma net_write_sock:
  assumes k: "n_sock s fd = Some k" and bs: "bs \<noteq> []"
  shows "\<exists>i t w. net_write fd bs s = Ok i t \<and> -1 \<le> i \<and> i \<le> int (length bs) \<and>
    n_sock t fd = Some (k\<lparr>sk_wr := w, sk_out := sk_out k @ take (nat i) bs\<rparr>) \<and> but_output fd t = but_output fd s \<and>
    (smooth (sk_wr k) \<longrightarrow> 0 < i \<and> smooth w)"
proof (cases "sk_wr k")
  case Nil
  then show ?thesis using k bs
    by (intro exI [of _ "int (length bs)"] exI [of _ "s\<lparr>n_sock := (n_sock s)(fd \<mapsto> k\<lparr>sk_out := sk_out k @ bs\<rparr>)\<rparr>"] exI [of _ "[]"])
      (simp add: net_write_def smooth_def)
next
  case (Cons e w)
  show ?thesis
  proof (cases e)
    case (Takes m)
    have "nat (int (min m (length bs))) = min m (length bs)" by simp
    moreover have "take (min m (length bs)) bs = take m bs" by (simp add: min_def)
    ultimately show ?thesis using k bs Cons Takes
      by (intro exI [of _ "int (min m (length bs))"]
          exI [of _ "s\<lparr>n_sock := (n_sock s)(fd \<mapsto> k\<lparr>sk_wr := w, sk_out := sk_out k @ take m bs\<rparr>)\<rparr>"] exI [of _ w])
        (auto simp: net_write_def smooth_def)
  next
    case (Wr_err e')
    then show ?thesis using k Cons
      by (intro exI [of _ "-1"] exI [of _ "s\<lparr>n_sock := (n_sock s)(fd \<mapsto> k\<lparr>sk_wr := w\<rparr>), k_errno := e'\<rparr>"] exI [of _ w])
        (auto simp: net_write_def smooth_def)
  qed
qed

lemma writen_loop_run:
  assumes "n_sock s fd = Some k" and "length ptr \<le> fuel" and "length ptr \<le> n"
  shows "\<exists>r t w. writen_loop fuel fd n ptr s = Ok r t \<and> (r = -1 \<and> length ptr = n \<or> int (n - length ptr) \<le> r \<and> r \<le> int n) \<and>
    n_sock t fd = Some (k\<lparr>sk_wr := w, sk_out := sk_out k @ take (nat r - (n - length ptr)) ptr\<rparr>) \<and>
    but_output fd t = but_output fd s \<and> (smooth (sk_wr k) \<longrightarrow> r = int n \<and> smooth w)"
  using assms
proof (induction fuel arbitrary: ptr s k)
  case 0
  then show ?case by (intro exI [of _ "int n"] exI [of _ s] exI [of _ "sk_wr k"]) simp
next
  case (Suc fuel)
  show ?case
  proof (cases "ptr = []")
    case True
    then show ?thesis using Suc.prems by (intro exI [of _ "int n"] exI [of _ s] exI [of _ "sk_wr k"]) simp
  next
    case False
    from net_write_sock [OF Suc.prems(1) False] obtain i t w where i: "net_write fd ptr s = Ok i t" "-1 \<le> i" "i \<le> int (length ptr)"
      "n_sock t fd = Some (k\<lparr>sk_wr := w, sk_out := sk_out k @ take (nat i) ptr\<rparr>)" "but_output fd t = but_output fd s"
      "smooth (sk_wr k) \<longrightarrow> 0 < i \<and> smooth w" by blast
    show ?thesis
    proof (cases "0 < i")
      case True
      let ?k = "k\<lparr>sk_wr := w, sk_out := sk_out k @ take (nat i) ptr\<rparr>"
      define q where "q = drop (nat i) ptr"
      have "0 < nat i" "0 < length ptr" using True False by simp_all
      then have "length q < length ptr" unfolding q_def length_drop by (intro diff_less)
      then have q: "length q \<le> fuel" "length q \<le> n" "length q < n" using Suc.prems(2,3) by linarith+
      from Suc.IH [OF i(4) q(1,2)] obtain r u w' where u: "writen_loop fuel fd n q t = Ok r u"
        "r = -1 \<and> length q = n \<or> int (n - length q) \<le> r \<and> r \<le> int n"
        "n_sock u fd = Some (?k\<lparr>sk_wr := w', sk_out := sk_out ?k @ take (nat r - (n - length q)) q\<rparr>)"
        "but_output fd u = but_output fd t" "smooth (sk_wr ?k) \<longrightarrow> r = int n \<and> smooth w'" by blast
      have r: "int (n - length q) \<le> r" "r \<le> int n" using u(2) q(3) by auto
      have len: "length q = length ptr - nat i" by (simp add: q_def)
      have "take (nat i) ptr @ take (nat r - (n - length q)) q = take (nat r - (n - length ptr)) ptr"
      proof -
        have "nat r - (n - length ptr) = nat i + (nat r - (n - length q))" using r len i(3) True Suc.prems(3) by linarith
        then show ?thesis unfolding q_def by (simp only: take_add)
      qed
      then have "n_sock u fd = Some (k\<lparr>sk_wr := w', sk_out := sk_out k @ take (nat r - (n - length ptr)) ptr\<rparr>)"
        using u(3) by simp
      moreover have "writen_loop (Suc fuel) fd n ptr s = Ok r u" using i(1) True False u(1) by (simp add: bnd_def q_def)
      moreover have "int (n - length ptr) \<le> r" using r(1) len by linarith
      ultimately show ?thesis using u(4,5) i(5,6) r(2) by (intro exI [of _ r] exI [of _ u] exI [of _ w']) auto
    next
      case False
      note i0 = False
      define r where "r = (if i < 0 \<and> length ptr = n then -1 else int (n - length ptr))"
      have "writen_loop (Suc fuel) fd n ptr s = Ok r t"
        using i(1) i0 \<open>ptr \<noteq> []\<close> by (auto simp: bnd_def r_def)
      moreover have "nat r - (n - length ptr) = 0" "nat i = 0" using i0 by (auto simp: r_def)
      ultimately show ?thesis
        using i i0 Suc.prems(3) by (intro exI [of _ r] exI [of _ t] exI [of _ w]) (auto simp: r_def)
    qed
  qed
qed

lemma writen_run:
  assumes "n_sock s fd = Some k"
  shows "\<exists>r t w. writen fd ptr s = Ok r t \<and> (r = -1 \<or> 0 \<le> r \<and> r \<le> int (length ptr)) \<and>
    n_sock t fd = Some (k\<lparr>sk_wr := w, sk_out := sk_out k @ take (nat r) ptr\<rparr>) \<and>
    but_output fd t = but_output fd s \<and> (smooth (sk_wr k) \<longrightarrow> r = int (length ptr) \<and> smooth w)"
  using writen_loop_run [OF assms, of ptr "length ptr" "length ptr"] by (auto simp: writen_def)

subsection \<open>The same, as updates of the state\<close>

lemma but_inputD:
  assumes "but_input fd t = but_input fd s" and "n_sock s fd = Some k"
  shows "\<exists>e r. t = s\<lparr>k_errno := e, n_sock := (n_sock s)(fd \<mapsto> k\<lparr>sk_in := r\<rparr>)\<rparr>"
proof -
  have n: "(n_sock t)(fd := map_option (\<lambda>k. k\<lparr>sk_in := []\<rparr>) (n_sock t fd)) =
      (n_sock s)(fd := Some (k\<lparr>sk_in := []\<rparr>))"
    using arg_cong [OF assms(1), of n_sock] assms(2) by (simp add: but_input_def)
  then obtain k' where k': "n_sock t fd = Some k'" "k'\<lparr>sk_in := []\<rparr> = k\<lparr>sk_in := []\<rparr>"
    by (metis (no_types, lifting) fun_upd_same map_option_eq_Some)
  have "k' = k\<lparr>sk_in := sk_in k'\<rparr>" using k'(2) by (cases k; cases k') simp
  moreover have "n_sock t = (n_sock s)(fd := n_sock t fd)"
    using n by (metis fun_upd_idem_iff fun_upd_upd)
  moreover have "t = s\<lparr>k_errno := k_errno t, n_sock := n_sock t\<rparr>"
    using assms(1) by (cases s; cases t) (simp add: but_input_def)
  ultimately show ?thesis using k'(1) by metis
qed

lemma but_outputD:
  assumes "but_output fd t = but_output fd s" and "n_sock s fd = Some k" and "n_sock t fd = Some k'"
  shows "\<exists>e. t = s\<lparr>k_errno := e, n_sock := (n_sock s)(fd \<mapsto> k')\<rparr>"
proof -
  have n: "(n_sock t)(fd := Some (k'\<lparr>sk_wr := [], sk_out := []\<rparr>)) = (n_sock s)(fd := Some (k\<lparr>sk_wr := [], sk_out := []\<rparr>))"
    using arg_cong [OF assms(1), of n_sock] assms(2,3) by (simp add: but_output_def)
  then have "n_sock t = (n_sock s)(fd := n_sock t fd)" by (metis fun_upd_triv fun_upd_upd)
  moreover have "t = s\<lparr>k_errno := k_errno t, n_sock := n_sock t\<rparr>"
    using assms(1) by (cases s; cases t) (simp add: but_output_def)
  ultimately show ?thesis using assms(3) by metis
qed

lemma treadn_whole:
  assumes "n_sock s fd = Some k" and "n \<le> length (avail True (sk_in k))"
  shows "\<exists>e r. treadn fd n s = Ok (int n, take n (avail True (sk_in k))) (s\<lparr>k_errno := e, n_sock := (n_sock s)(fd \<mapsto> k\<lparr>sk_in := r\<rparr>)\<rparr>) \<and>
    avail True r = drop n (avail True (sk_in k))"
proof -
  have "on_sock fd s" using assms(1) by (simp add: on_sock_def)
  from treadn_run [OF this, of n] assms obtain t where t: "treadn fd n s = Ok (int n, take n (avail True (sk_in k))) t"
    "but_input fd t = but_input fd s" "sk_src True fd t = drop n (avail True (sk_in k))"
    by (auto simp: sk_src_def filled_def)
  from but_inputD [OF t(2) assms(1)] obtain e r where "t = s\<lparr>k_errno := e, n_sock := (n_sock s)(fd \<mapsto> k\<lparr>sk_in := r\<rparr>)\<rparr>" by blast
  then show ?thesis using t by (intro exI [of _ e] exI [of _ r]) (auto simp: sk_src_def)
qed

lemma tread_piece:
  assumes "n_sock s fd = Some k" and "avail True (sk_in k) \<noteq> []" and "0 < n"
  shows "\<exists>i e r. 0 < i \<and> i \<le> n \<and> i \<le> length (avail True (sk_in k)) \<and>
    tread fd n s = Ok (int i, take i (avail True (sk_in k))) (s\<lparr>k_errno := e, n_sock := (n_sock s)(fd \<mapsto> k\<lparr>sk_in := r\<rparr>)\<rparr>) \<and>
    avail True r = drop i (avail True (sk_in k))"
proof -
  have "on_sock fd s" "sk_src True fd s \<noteq> []" using assms(1,2) by (simp_all add: on_sock_def sk_src_def)
  from trd_sock.data_law [OF this assms(3)] assms(1) obtain i t where t: "0 < i" "i \<le> n" "i \<le> length (avail True (sk_in k))"
    "tread fd n s = Ok (int i, take i (avail True (sk_in k))) t" "but_input fd t = but_input fd s"
    "sk_src True fd t = drop i (avail True (sk_in k))" by (auto simp: sk_src_def)
  from but_inputD [OF t(5) assms(1)] obtain e r where "t = s\<lparr>k_errno := e, n_sock := (n_sock s)(fd \<mapsto> k\<lparr>sk_in := r\<rparr>)\<rparr>" by blast
  then show ?thesis using t by (intro exI [of _ i] exI [of _ e] exI [of _ r]) (auto simp: sk_src_def)
qed

lemma tread_end:
  assumes "n_sock s fd = Some k" and "avail True (sk_in k) = []" and "0 < n"
  shows "\<exists>i e r. i \<le> 0 \<and> tread fd n s = Ok (i, []) (s\<lparr>k_errno := e, n_sock := (n_sock s)(fd \<mapsto> k\<lparr>sk_in := r\<rparr>)\<rparr>)"
proof -
  have "on_sock fd s" "sk_src True fd s = []" using assms(1,2) by (simp_all add: on_sock_def sk_src_def)
  from trd_sock.dry_law [OF this assms(3)] obtain t where t:
    "tread fd n s = Ok (if sk_bad True fd s then (-1, []) else (0, [])) t" "but_input fd t = but_input fd s" by blast
  from but_inputD [OF t(2) assms(1)] obtain e r where "t = s\<lparr>k_errno := e, n_sock := (n_sock s)(fd \<mapsto> k\<lparr>sk_in := r\<rparr>)\<rparr>" by blast
  then show ?thesis using t(1)
    by (intro exI [of _ "if sk_bad True fd s then -1 else 0"] exI [of _ e] exI [of _ r]) simp
qed

lemma writen_all:
  assumes "n_sock s fd = Some k" and "smooth (sk_wr k)"
  shows "\<exists>e w. writen fd bs s = Ok (int (length bs)) (s\<lparr>k_errno := e, n_sock := (n_sock s)(fd \<mapsto> k\<lparr>sk_wr := w, sk_out := sk_out k @ bs\<rparr>)\<rparr>) \<and>
    smooth w"
proof -
  from writen_run [OF assms(1), of bs] assms(2) obtain t w where t: "writen fd bs s = Ok (int (length bs)) t" "smooth w"
    "n_sock t fd = Some (k\<lparr>sk_wr := w, sk_out := sk_out k @ bs\<rparr>)" "but_output fd t = but_output fd s" by auto
  from but_outputD [OF t(4) assms(1) t(3)] t(1,2) show ?thesis by auto
qed

lemma pump_run:
  assumes "n_sock s sockfd = Some k" and "smooth (sk_wr k)" and "k_faults s = []" and "k_ofd s fd = Some d" and "readable d"
    and "length (k_data s (of_ino d)) - of_pos d < fuel" and bsz: "0 < bsz"
  shows "\<exists>e w p. pump bsz fuel fd sockfd s = Ok Pumped (s\<lparr>k_errno := e,
      n_sock := (n_sock s)(sockfd \<mapsto> k\<lparr>sk_wr := w, sk_out := sk_out k @ drop (of_pos d) (k_data s (of_ino d))\<rparr>),
      k_ofd := (k_ofd s)(fd \<mapsto> d\<lparr>of_pos := p\<rparr>)\<rparr>) \<and> smooth w"
  using assms(1-6)
proof (induction fuel arbitrary: s k d)
  case 0
  then show ?case by simp
next
  case (Suc fuel)
  define c where "c = drop (of_pos d) (k_data s (of_ino d))"
  define bs where "bs = take bsz c"
  define s1 where "s1 = s\<lparr>k_ofd := (k_ofd s)(fd \<mapsto> d\<lparr>of_pos := of_pos d + length bs\<rparr>)\<rparr>"
  have rd: "sys_read fd bsz s = Ok (int (length bs), bs) s1"
    using Suc.prems by (simp add: sys_read_def get_at_def Let_def bs_def c_def s1_def)
  show ?case
  proof (cases "bs = []")
    case True
    then have "c = []" using bsz by (simp add: bs_def)
    then have "s1 = s\<lparr>k_errno := k_errno s, n_sock := (n_sock s)(sockfd \<mapsto> k\<lparr>sk_wr := sk_wr k,
        sk_out := sk_out k @ drop (of_pos d) (k_data s (of_ino d))\<rparr>), k_ofd := (k_ofd s)(fd \<mapsto> d\<lparr>of_pos := of_pos d\<rparr>)\<rparr>"
      using Suc.prems True by (simp add: s1_def c_def fun_upd_idem)
    moreover have "pump bsz (Suc fuel) fd sockfd s = Ok Pumped s1" using rd True by (simp add: bnd_def)
    ultimately show ?thesis using Suc.prems(2) by metis
  next
    case False
    have k1: "n_sock s1 sockfd = Some k" using Suc.prems(1) by (simp add: s1_def)
    obtain e w where w: "writen sockfd bs s1 = Ok (int (length bs))
        (s1\<lparr>k_errno := e, n_sock := (n_sock s1)(sockfd \<mapsto> k\<lparr>sk_wr := w, sk_out := sk_out k @ bs\<rparr>)\<rparr>)" "smooth w"
      using writen_all [OF k1 Suc.prems(2)] by blast
    let ?k = "k\<lparr>sk_wr := w, sk_out := sk_out k @ bs\<rparr>" and ?d = "d\<lparr>of_pos := of_pos d + length bs\<rparr>"
    define t where "t = s1\<lparr>k_errno := e, n_sock := (n_sock s1)(sockfd \<mapsto> ?k)\<rparr>"
    have step: "pump bsz (Suc fuel) fd sockfd s = pump bsz fuel fd sockfd t"
      using rd w False by (simp add: bnd_def t_def)
    have pre: "n_sock t sockfd = Some ?k" "smooth (sk_wr ?k)" "k_faults t = []" "k_ofd t fd = Some ?d" "readable ?d"
      using Suc.prems w(2) by (simp_all add: t_def s1_def readable_def)
    have "0 < length bs" "length bs \<le> length (k_data s (of_ino d)) - of_pos d" using False by (simp_all add: bs_def c_def)
    then have "length (k_data s (of_ino d)) - (of_pos d + length bs) < fuel" using Suc.prems(6) by linarith
    then have "length (k_data t (of_ino ?d)) - of_pos ?d < fuel" by (simp add: t_def s1_def)
    from Suc.IH [OF pre this] obtain e' w' p where u: "pump bsz fuel fd sockfd t = Ok Pumped (t\<lparr>k_errno := e',
        n_sock := (n_sock t)(sockfd \<mapsto> ?k\<lparr>sk_wr := w', sk_out := sk_out ?k @ drop (of_pos ?d) (k_data t (of_ino ?d))\<rparr>),
        k_ofd := (k_ofd t)(fd \<mapsto> ?d\<lparr>of_pos := p\<rparr>)\<rparr>)" "smooth w'" by blast
    have "bs @ drop (of_pos d + length bs) (k_data s (of_ino d)) = c"
    proof -
      have "drop (of_pos d + length bs) (k_data s (of_ino d)) = drop (length bs) c" by (simp add: c_def add.commute)
      moreover have "bs @ drop (length bs) c = c" by (cases "length c \<le> bsz") (simp_all add: bs_def min_def)
      ultimately show ?thesis by simp
    qed
    then have "pump bsz (Suc fuel) fd sockfd s = Ok Pumped (s\<lparr>k_errno := e',
      n_sock := (n_sock s)(sockfd \<mapsto> k\<lparr>sk_wr := w', sk_out := sk_out k @ drop (of_pos d) (k_data s (of_ino d))\<rparr>),
      k_ofd := (k_ofd s)(fd \<mapsto> d\<lparr>of_pos := p\<rparr>)\<rparr>)"
      using step u(1) by (simp add: t_def s1_def c_def)
    then show ?thesis using u(2) by blast
  qed
qed

end
