(* ===== verification/Print_Base.thy ===== *)
theory Print_Base
  imports Stream_IO
begin

section \<open>What the print client and the print daemon share: \<open>printer/print.h\<close>, \<open>printer/util.c\<close>\<close>

text \<open>
  The two structures that travel between client and daemon, as records and as the bytes they are in memory
  (\<open>mem_printreq\<close>, \<open>mem_printresp\<close>: fields in order, no padding, least significant byte first as on the
  x86 machines the repository was built on), with the round trip; the byte order functions \<open>htonl\<close>, \<open>ntohl\<close>,
  \<open>htons\<close>, \<open>ntohs\<close>; the name service, connections, and the configuration file.

  Record \<open>pnet\<close> adds to the environment of a process: the answers of \<open>getaddrinfo\<close> (\<open>n_gai\<close>), the outcomes of the
  next connection attempts (\<open>n_conn\<close>), seconds slept, and the contents of uninitialised stack memory (\<open>junk\<close>),
  about which the theorems assume nothing. A socket occupies an entry of the descriptor table like a file.
\<close>

subsection \<open>Integers in memory and on the wire\<close>

fun le_bytes :: "nat \<Rightarrow> nat \<Rightarrow> bytes" where
  "le_bytes 0 n = []"
| "le_bytes (Suc k) n = char_of n # le_bytes k (n div 256)"

fun le_val :: "bytes \<Rightarrow> nat" where
  "le_val [] = 0"
| "le_val (c # cs) = of_char c + 256 * le_val cs"

definition mem32 :: "32 word \<Rightarrow> bytes" where
  "mem32 w = le_bytes 4 (unat w)"

definition of_mem32 :: "bytes \<Rightarrow> 32 word" where
  "of_mem32 bs = word_of_nat (le_val bs)"

definition mem16 :: "16 word \<Rightarrow> bytes" where
  "mem16 w = le_bytes 2 (unat w)"

definition of_mem16 :: "bytes \<Rightarrow> 16 word" where
  "of_mem16 bs = word_of_nat (le_val bs)"

definition htonl :: "32 word \<Rightarrow> 32 word" where
  "htonl w = of_mem32 (rev (mem32 w))"

definition ntohl :: "32 word \<Rightarrow> 32 word" where
  "ntohl w = of_mem32 (rev (mem32 w))"

definition htons :: "16 word \<Rightarrow> 16 word" where
  "htons w = of_mem16 (rev (mem16 w))"

definition ntohs :: "16 word \<Rightarrow> 16 word" where
  "ntohs w = of_mem16 (rev (mem16 w))"

lemma length_le_bytes [simp]: "length (le_bytes k n) = k"
  by (induction k arbitrary: n) auto

lemma le_val_bytes: "n < 256 ^ k \<Longrightarrow> le_val (le_bytes k n) = n"
proof (induction k arbitrary: n)
  case (Suc k)
  then have "n div 256 < 256 ^ k" by auto
  with Suc.IH have "le_val (le_bytes k (n div 256)) = n div 256" by simp
  then show ?case by simp
qed simp

lemma le_val_less: "le_val bs < 256 ^ length bs"
proof (induction bs)
  case (Cons c cs)
  have "(of_char c :: nat) < 256" by simp
  with Cons have "of_char c + 256 * le_val cs < 256 * 256 ^ length cs" by linarith
  then show ?case by simp
qed simp

lemma le_bytes_val: "le_bytes (length bs) (le_val bs) = bs"
proof (induction bs)
  case (Cons c cs)
  have c: "(of_char c :: nat) < 256" by simp
  have "char_of (of_char c + 256 * le_val cs) = (char_of (of_char c :: nat) :: char)"
    by (metis char_of_mod_256 mod_mult_self2)
  moreover have "(of_char c + 256 * le_val cs) div 256 = le_val cs" using c by simp
  ultimately show ?case using Cons by simp
qed simp

lemma length_mem [simp]: "length (mem32 w) = 4" "length (mem16 h) = 2"
  by (simp_all add: mem32_def mem16_def)

lemma of_mem32_mem32 [simp]: "of_mem32 (mem32 w) = w"
proof -
  have "unat w < 2 ^ LENGTH(32)" by (rule unsigned_less)
  then have "unat w < 256 ^ 4" by simp
  then show ?thesis by (simp add: of_mem32_def mem32_def le_val_bytes)
qed

lemma of_mem16_mem16 [simp]: "of_mem16 (mem16 h) = h"
proof -
  have "unat h < 2 ^ LENGTH(16)" by (rule unsigned_less)
  then have "unat h < 256 ^ 2" by simp
  then show ?thesis by (simp add: of_mem16_def mem16_def le_val_bytes)
qed

lemma mem32_of_mem32 [simp]:
  assumes "length bs = 4"
  shows "mem32 (of_mem32 bs) = bs"
proof -
  have "le_val bs < 2 ^ LENGTH(32)" using le_val_less [of bs] assms by simp
  then have "unat (of_mem32 bs) = le_val bs" unfolding of_mem32_def by (simp add: unat_of_nat)
  then show ?thesis using le_bytes_val [of bs] assms by (simp add: mem32_def)
qed

lemma mem16_of_mem16 [simp]:
  assumes "length bs = 2"
  shows "mem16 (of_mem16 bs) = bs"
proof -
  have "le_val bs < 2 ^ LENGTH(16)" using le_val_less [of bs] assms by simp
  then have "unat (of_mem16 bs) = le_val bs" unfolding of_mem16_def by (simp add: unat_of_nat)
  then show ?thesis using le_bytes_val [of bs] assms by (simp add: mem16_def)
qed

text \<open>Network order is most significant byte first, and going there and back changes nothing.\<close>

lemma mem_hton [simp]: "mem32 (htonl w) = rev (mem32 w)" "mem16 (htons h) = rev (mem16 h)"
  by (simp_all add: htonl_def htons_def)

lemma of_mem_rev [simp]: "of_mem32 (rev (mem32 w)) = htonl w" "of_mem16 (rev (mem16 h)) = htons h"
  by (simp_all add: htonl_def htons_def)

lemma ntoh_hton [simp]: "ntohl (htonl w) = w" "ntohs (htons h) = h"
  by (simp_all add: ntohl_def ntohs_def del: of_mem_rev)

subsection \<open>The structures\<close>

definition USERNM_MAX :: nat where "USERNM_MAX = 64"
definition JOBNM_MAX :: nat where "JOBNM_MAX = 256"
definition MSGLEN_MAX :: nat where "MSGLEN_MAX = 512"
definition FILENMSZ :: nat where "FILENMSZ = 64"
definition IOBUFSZ :: nat where "IOBUFSZ = 8192"
definition PR_TEXT :: "32 word" where "PR_TEXT = 1"

lemmas print_sizes = USERNM_MAX_def JOBNM_MAX_def MSGLEN_MAX_def FILENMSZ_def IOBUFSZ_def

record printreq =
  pr_size :: "32 word"
  pr_flags :: "32 word"
  pr_usernm :: bytes
  pr_jobnm :: bytes

record printresp =
  rs_retcode :: "32 word"
  rs_jobid :: "32 word"
  rs_msg :: bytes

definition sizeof_printreq :: nat where "sizeof_printreq = 4 + 4 + USERNM_MAX + JOBNM_MAX"
definition sizeof_printresp :: nat where "sizeof_printresp = 4 + 4 + MSGLEN_MAX"

lemmas print_layout = sizeof_printreq_def sizeof_printresp_def print_sizes

definition mem_printreq :: "printreq \<Rightarrow> bytes" where
  "mem_printreq r = mem32 (pr_size r) @ mem32 (pr_flags r) @ pr_usernm r @ pr_jobnm r"

definition of_mem_printreq :: "bytes \<Rightarrow> printreq" where
  "of_mem_printreq bs = \<lparr>pr_size = of_mem32 (get_at bs 0 4), pr_flags = of_mem32 (get_at bs 4 4),
     pr_usernm = get_at bs 8 USERNM_MAX, pr_jobnm = get_at bs (8 + USERNM_MAX) JOBNM_MAX\<rparr>"

definition mem_printresp :: "printresp \<Rightarrow> bytes" where
  "mem_printresp r = mem32 (rs_retcode r) @ mem32 (rs_jobid r) @ rs_msg r"

definition of_mem_printresp :: "bytes \<Rightarrow> printresp" where
  "of_mem_printresp bs = \<lparr>rs_retcode = of_mem32 (get_at bs 0 4), rs_jobid = of_mem32 (get_at bs 4 4),
     rs_msg = get_at bs 8 MSGLEN_MAX\<rparr>"

definition req_ok :: "printreq \<Rightarrow> bool" where
  "req_ok r \<longleftrightarrow> length (pr_usernm r) = USERNM_MAX \<and> length (pr_jobnm r) = JOBNM_MAX"

lemma length_mem_printreq [simp]: "req_ok r \<Longrightarrow> length (mem_printreq r) = sizeof_printreq"
  by (simp add: mem_printreq_def req_ok_def sizeof_printreq_def)

lemma of_mem_printreq_mem [simp]: "req_ok r \<Longrightarrow> of_mem_printreq (mem_printreq r) = r"
  by (simp add: of_mem_printreq_def mem_printreq_def req_ok_def get_at_def)

lemma req_ok_of_mem: "length bs = sizeof_printreq \<Longrightarrow> req_ok (of_mem_printreq bs)"
  by (simp add: req_ok_def of_mem_printreq_def print_layout get_at_def)

lemma mem_of_mem_printreq:
  assumes "length bs = sizeof_printreq"
  shows "mem_printreq (of_mem_printreq bs) = bs"
proof -
  have s: "get_at bs 4 4 @ drop 8 bs = drop 4 bs" "get_at bs 8 64 @ drop 72 bs = drop 8 bs"
    "take 4 bs @ drop 4 bs = bs" "get_at bs 72 256 = drop 72 bs"
    using assms append_take_drop_id [of 4 "drop 4 bs"] append_take_drop_id [of 64 "drop 8 bs"]
    by (simp_all add: get_at_def print_layout)
  then show ?thesis using assms
    by (simp add: mem_printreq_def of_mem_printreq_def print_sizes get_at_0 length_get_at print_layout)
qed

lemma length_mem_printresp [simp]: "length (rs_msg r) = MSGLEN_MAX \<Longrightarrow> length (mem_printresp r) = sizeof_printresp"
  by (simp add: mem_printresp_def sizeof_printresp_def)

lemma of_mem_printresp_mem [simp]: "length (rs_msg r) = MSGLEN_MAX \<Longrightarrow> of_mem_printresp (mem_printresp r) = r"
  by (simp add: of_mem_printresp_def mem_printresp_def get_at_def)

subsection \<open>The C library functions on fixed buffers\<close>

text \<open>\<open>strncpy\<close> writes exactly \<open>n\<close> bytes; \<open>into_buf\<close> is a string and its null byte stored into a buffer.\<close>

definition strncpy :: "string \<Rightarrow> nat \<Rightarrow> bytes" where
  "strncpy src n = take n (src @ replicate n NUL)"

definition into_buf :: "bytes \<Rightarrow> string \<Rightarrow> bytes" where
  "into_buf old t = t @ NUL # drop (Suc (length t)) old"

lemma length_strncpy [simp]: "length (strncpy t n) = n"
  by (simp add: strncpy_def)

lemma length_into_buf [simp]: "length t < length old \<Longrightarrow> length (into_buf old t) = length old"
  by (simp add: into_buf_def)

lemma cstr_into_buf [simp]: "NUL \<notin> set t \<Longrightarrow> cstr (into_buf old t) = t"
  by (simp add: into_buf_def)

subsection \<open>The environment: names, connections, uninitialised memory\<close>

record addrinfo =
  ai_addr :: string
  ai_canonname :: "string option"

record pnet = net +
  n_gai :: "string \<Rightarrow> string \<Rightarrow> int + addrinfo list"
  n_conn :: "(int + sock) list"
  n_slept :: nat
  junk :: bytes

definition sys_creat :: "string \<Rightarrow> ('z kern_scheme, int) prog" where
  "sys_creat name = sys_open name {O_WRONLY, O_CREAT, O_TRUNC}"

abbreviation ECONNREFUSED :: int where "ECONNREFUSED \<equiv> 111"

definition sys_connect :: "int \<Rightarrow> string \<Rightarrow> ('z pnet_scheme, int) prog" where
  "sys_connect fd addr = (\<lambda>s. case n_conn s of
      [] \<Rightarrow> fail ECONNREFUSED (-1) s
    | Inl e # cs \<Rightarrow> fail e (-1) (s\<lparr>n_conn := cs\<rparr>)
    | Inr k # cs \<Rightarrow> Ok 0 (s\<lparr>n_conn := cs, n_sock := (n_sock s)(fd \<mapsto> k)\<rparr>))"

definition sleep :: "nat \<Rightarrow> ('z pnet_scheme, unit) prog" where
  "sleep n = modify (\<lambda>s. s\<lparr>n_slept := n_slept s + n\<rparr>)"

subsection \<open>connect_retry: \<open>sockets/clconn2.c\<close>\<close>

definition MAXSLEEP :: nat where "MAXSLEEP = 128"

function connect_retry_from :: "nat \<Rightarrow> string \<Rightarrow> ('z pnet_scheme, int) prog" where
  "connect_retry_from numsec addr =
     (if 0 < numsec \<and> numsec \<le> MAXSLEEP then
        bnd sys_socket (\<lambda>fd.
        if fd < 0 then ret (-1)
        else
          bnd (sys_connect fd addr) (\<lambda>r.
          if r = 0 then ret fd
          else
            bnd (net_close fd) (\<lambda>_.
            bnd (if numsec \<le> MAXSLEEP div 2 then sleep numsec else ret ()) (\<lambda>_.
            connect_retry_from (2 * numsec) addr))))
      else ret (-1))"
  by auto
termination by (relation "measure (\<lambda>(n, a). Suc MAXSLEEP - n)") (auto simp: MAXSLEEP_def)

declare connect_retry_from.simps [simp del]

definition connect_retry :: "string \<Rightarrow> ('z pnet_scheme, int) prog" where
  "connect_retry addr = connect_retry_from 1 addr"

subsection \<open>getaddrlist, scan_configfile, get_printserver, get_printaddr\<close>

definition getaddrlist :: "string \<Rightarrow> string \<Rightarrow> ('z pnet_scheme, int + addrinfo list) prog" where
  "getaddrlist host service = gets (\<lambda>s. n_gai s host service)"

definition CONFIG_FILE :: string where "CONFIG_FILE = ''/etc/printer.conf''"
definition MAXCFGLINE :: nat where "MAXCFGLINE = 512"
definition MAXKWLEN :: nat where "MAXKWLEN = 16"

text \<open>
  \<open>fgets\<close> on what is left of a file: a line with its newline, at most \<open>n - 1\<close> bytes, and what is left then.
  \<open>sscanf2\<close> is \<open>sscanf\<close> with the pattern built there, two strings of limited width: \<open>Some\<close> when both are found.
\<close>

fun line_len :: "bytes \<Rightarrow> nat" where
  "line_len [] = 0"
| "line_len (c # cs) = (if c = CHR 0x0A then 1 else Suc (line_len cs))"

definition fgets :: "nat \<Rightarrow> bytes \<Rightarrow> bytes \<times> bytes" where
  "fgets n r = (take (min (n - 1) (line_len r)) r, drop (min (n - 1) (line_len r)) r)"

definition scan_word :: "nat \<Rightarrow> string \<Rightarrow> string \<times> string" where
  "scan_word w t =
     (let u = dropWhile isspace t; v = take w (takeWhile (\<lambda>c. \<not> isspace c) u)
      in (v, drop (length v) u))"

definition sscanf2 :: "nat \<Rightarrow> nat \<Rightarrow> string \<Rightarrow> (string \<times> string) option" where
  "sscanf2 w1 w2 t =
     (let (a, t1) = scan_word w1 t; (b, t2) = scan_word w2 t1
      in if a = [] \<or> b = [] then None else Some (a, b))"

lemma line_len_pos: "r \<noteq> [] \<Longrightarrow> 0 < line_len r"
  by (cases r) auto

function scan_lines :: "string \<Rightarrow> bytes \<Rightarrow> string option" where
  "scan_lines keyword r =
     (if r = [] then None
      else let (line, r') = fgets MAXCFGLINE r in
        (case sscanf2 (MAXKWLEN - 1) (MAXCFGLINE - 1) (cstr line) of
           Some (keybuf, valbuf) \<Rightarrow> if keyword = keybuf then Some valbuf else scan_lines keyword r'
         | None \<Rightarrow> scan_lines keyword r'))"
  by pat_completeness auto
termination
  by (relation "measure (\<lambda>(k, r). length r)")
    (auto simp: fgets_def MAXCFGLINE_def intro!: diff_less line_len_pos)

declare scan_lines.simps [simp del]

definition scan_configfile :: "string \<Rightarrow> ('z pnet_scheme, string option) prog" where
  "scan_configfile keyword =
     bnd (sys_open CONFIG_FILE {}) (\<lambda>fp.
     if fp < 0 then log_sys (''can't open '' @ CONFIG_FILE)
     else
       bnd (gets (\<lambda>s. case k_ofd s fp of None \<Rightarrow> 0 | Some d \<Rightarrow> length (k_data s (of_ino d)))) (\<lambda>n.
       bnd (sys_read fp n) (\<lambda>(nr, content).
       bnd (net_close fp) (\<lambda>_.
       ret (scan_lines keyword content)))))"

definition get_printserver :: "('z pnet_scheme, string option) prog" where
  "get_printserver = scan_configfile ''printserver''"

definition get_printaddr :: "('z pnet_scheme, addrinfo list option) prog" where
  "get_printaddr =
     bnd (scan_configfile ''printer'') (\<lambda>p.
     case p of
       Some h \<Rightarrow>
         bnd (getaddrlist h ''ipp'') (\<lambda>a.
         case a of
           Inl err \<Rightarrow> bnd (log_msg (''no address information for '' @ h)) (\<lambda>_. ret None)
         | Inr ailist \<Rightarrow> ret (Some ailist))
     | None \<Rightarrow> bnd (log_msg ''no printer address specified'') (\<lambda>_. ret None))"

subsection \<open>Properties\<close>

text \<open>A line that defines the keyword gives its value, whatever the lines before it define.\<close>

definition cfg_line :: "string \<Rightarrow> string \<Rightarrow> bytes" where
  "cfg_line k v = k @ '' '' @ v @ [CHR 0x0A]"

definition cfg_word :: "nat \<Rightarrow> string \<Rightarrow> bool" where
  "cfg_word n w \<longleftrightarrow> w \<noteq> [] \<and> length w < n \<and> (\<forall>c \<in> set w. \<not> isspace c \<and> c \<noteq> NUL)"

lemma scan_word_word:
  assumes "\<forall>c \<in> set w. \<not> isspace c" and "w \<noteq> []" and "length w \<le> n" and "t = [] \<or> isspace (hd t)"
  shows "scan_word n (w @ t) = (w, t)" and "scan_word n (CHR '' '' # w @ t) = (w, t)"
proof -
  have d: "dropWhile isspace (w @ t) = w @ t" using assms(1,2) by (cases w) auto
  have "takeWhile (\<lambda>c. \<not> isspace c) (w @ t) = w"
    using assms(1,4) by (subst takeWhile_append2) (auto, cases t, auto)
  then show 1: "scan_word n (w @ t) = (w, t)" using assms(3) by (simp add: scan_word_def d Let_def)
  have "isspace (CHR '' '')" by (simp add: isspace_def)
  then show "scan_word n (CHR '' '' # w @ t) = (w, t)" using 1 by (simp add: scan_word_def Let_def)
qed

lemma line_len_line: "CHR 0x0A \<notin> set a \<Longrightarrow> line_len (a @ CHR 0x0A # b) = Suc (length a)"
  by (induction a) auto

lemma scan_lines_step:
  assumes k: "cfg_word MAXKWLEN k" and v: "cfg_word MAXCFGLINE v" and len: "length k + length v + 2 < MAXCFGLINE"
  shows "scan_lines kw (cfg_line k v @ r) = (if k = kw then Some v else scan_lines kw r)"
proof -
  have nl: "CHR 0x0A \<notin> set (k @ '' '' @ v)" using k v by (auto simp: cfg_word_def isspace_def)
  have l: "line_len (cfg_line k v @ r) = Suc (length (k @ '' '' @ v))"
    using line_len_line [OF nl, of r] by (simp add: cfg_line_def)
  have "min (MAXCFGLINE - 1) (Suc (length (k @ '' '' @ v))) = length (cfg_line k v)"
    using len by (simp add: cfg_line_def)
  then have f: "fgets MAXCFGLINE (cfg_line k v @ r) = (cfg_line k v, r)" unfolding fgets_def l by simp
  have c: "cstr (cfg_line k v) = cfg_line k v"
    using k v by (intro cstr_id) (auto simp: cfg_line_def cfg_word_def)
  have sp: "isspace (CHR 0x0A)" "isspace (CHR '' '')" by (simp_all add: isspace_def)
  have k': "\<forall>c \<in> set k. \<not> isspace c" "k \<noteq> []" "length k \<le> MAXKWLEN - 1"
    and v': "\<forall>c \<in> set v. \<not> isspace c" "v \<noteq> []" "length v \<le> MAXCFGLINE - 1"
    using k v by (simp_all add: cfg_word_def MAXKWLEN_def MAXCFGLINE_def)
  have "scan_word (MAXKWLEN - 1) (cfg_line k v) = (k, '' '' @ v @ [CHR 0x0A])"
    using scan_word_word(1) [OF k', of "'' '' @ v @ [CHR 0x0A]"] sp by (simp add: cfg_line_def)
  moreover have "scan_word (MAXCFGLINE - 1) ('' '' @ v @ [CHR 0x0A]) = (v, [CHR 0x0A])"
    using scan_word_word(2) [OF v', of "[CHR 0x0A]"] sp by simp
  ultimately have "sscanf2 (MAXKWLEN - 1) (MAXCFGLINE - 1) (cfg_line k v) = Some (k, v)"
    using k v by (simp add: sscanf2_def cfg_word_def)
  moreover have "cfg_line k v @ r \<noteq> []" by (simp add: cfg_line_def)
  ultimately show ?thesis by (subst scan_lines.simps) (auto simp: f c simp del: append_is_Nil_conv One_nat_def)
qed

definition cfg_ok :: "string \<times> string \<Rightarrow> bool" where
  "cfg_ok kv \<longleftrightarrow> cfg_word MAXKWLEN (fst kv) \<and> cfg_word MAXCFGLINE (snd kv) \<and>
     length (fst kv) + length (snd kv) + 2 < MAXCFGLINE"

lemma scan_lines_file:
  assumes "\<forall>kv \<in> set kvs. cfg_ok kv"
  shows "scan_lines kw (concat (map (\<lambda>(k, v). cfg_line k v) kvs)) = map_of kvs kw"
  using assms
proof (induction kvs)
  case Nil
  then show ?case by (simp add: scan_lines.simps)
next
  case (Cons kv kvs)
  then show ?case by (cases kv) (auto simp: scan_lines_step cfg_ok_def)
qed

subsection \<open>How long \<open>connect_retry\<close> tries\<close>

text \<open>
  \<open>net_view\<close> is what a failed attempt leaves as it was; the attempts before the one that succeeds, \<open>j\<close> of them,
  cost \<open>2 ^ j - 1\<close> seconds, and after eight failures, or 127 seconds, it gives up.
\<close>

definition net_view :: "'z pnet_scheme \<Rightarrow> 'z pnet_scheme" where
  "net_view s = s\<lparr>k_nino := 0, k_lock := \<lambda>_ _. F_UNLCK, k_errno := 0, n_closed := [], n_conn := [], n_slept := 0\<rparr>"

definition free_slot :: "int \<Rightarrow> 'z net_scheme \<Rightarrow> bool" where
  "free_slot fd s \<longleftrightarrow> k_faults s = [] \<and> free_fd s = Some fd \<and> n_sock s fd = None"

lemma free_slot_view: "net_view t = net_view s \<Longrightarrow> free_slot fd t = free_slot fd s"
proof -
  assume v: "net_view t = net_view s"
  have "k_faults (net_view t) = k_faults t" "k_ofd (net_view t) = k_ofd t" "k_maxfd (net_view t) = k_maxfd t"
    "n_sock (net_view t) = n_sock t" for t :: "'a pnet_scheme" by (simp_all add: net_view_def)
  from this [of t] this [of s] show ?thesis by (simp add: v free_slot_def free_fd_def)
qed

lemma connect_fails:
  assumes "free_slot fd s" and "n_conn s = Inl e # cs" and "0 < n" and "n \<le> MAXSLEEP"
  obtains t where "connect_retry_from n addr s = connect_retry_from (2 * n) addr t" and "n_conn t = cs"
    and "n_slept t = n_slept s + (if n \<le> MAXSLEEP div 2 then n else 0)" and "net_view t = net_view s"
proof -
  have fd: "k_ofd s fd = None" "0 \<le> fd" using free_fd_Some [of s fd] assms(1) by (auto simp: free_slot_def)
  then have [simp]: "(k_ofd s)(fd := None) = k_ofd s" "(n_sock s)(fd := None) = n_sock s"
    using assms(1) by (auto simp: free_slot_def)
  define t where "t = s\<lparr>k_nino := Suc (k_nino s), n_conn := cs, k_errno := e, k_lock := (k_lock s)(k_nino s := \<lambda>_. F_UNLCK),
    n_closed := n_closed s @ [\<lparr>sk_in = [], sk_wr = [], sk_out = []\<rparr>], n_slept := n_slept s + (if n \<le> MAXSLEEP div 2 then n else 0)\<rparr>"
  have "connect_retry_from n addr s = connect_retry_from (2 * n) addr t"
    using assms fd by (subst connect_retry_from.simps)
      (simp add: free_slot_def bnd_def sys_socket_def sys_connect_def net_close_def sys_close_def sleep_def t_def)
  moreover have "n_conn t = cs" "n_slept t = n_slept s + (if n \<le> MAXSLEEP div 2 then n else 0)" "net_view t = net_view s"
    by (simp_all add: t_def net_view_def)
  ultimately show ?thesis by (rule that)
qed

lemma connect_succeeds:
  assumes "free_slot fd s" and "n_conn s = Inr k # cs" and "0 < n" and "n \<le> MAXSLEEP"
  shows "connect_retry_from n addr s = Ok fd (s\<lparr>k_ofd := (k_ofd s)(fd \<mapsto> \<lparr>of_ino = k_nino s, of_pos = 0, of_flags = {O_RDWR}\<rparr>),
      k_nino := Suc (k_nino s), n_sock := (n_sock s)(fd \<mapsto> k), n_conn := cs\<rparr>)"
proof -
  have "0 \<le> fd" using free_fd_Some [of s fd] assms(1) by (auto simp: free_slot_def)
  then show ?thesis using assms
    by (subst connect_retry_from.simps) (simp add: free_slot_def bnd_def sys_socket_def sys_connect_def)
qed

lemma connect_retry_tries:
  assumes "free_slot fd s" and "n_conn s = map Inl es @ cs" and "i + length es \<le> 7"
  shows "\<exists>t. connect_retry_from (2 ^ i) addr s = connect_retry_from (2 ^ (i + length es)) addr t \<and> n_conn t = cs \<and>
    n_slept t = n_slept s + (2 ^ (i + length es) - 2 ^ i) \<and> net_view t = net_view s"
  using assms
proof (induction es arbitrary: i s)
  case Nil
  then show ?case by auto
next
  case (Cons e es)
  have "(2::nat) ^ i \<le> 2 ^ 6" using Cons.prems(3) by (intro power_increasing) auto
  then have i: "0 < (2::nat) ^ i" "2 ^ i \<le> MAXSLEEP" "2 ^ i \<le> MAXSLEEP div 2" by (simp_all add: MAXSLEEP_def)
  have "n_conn s = Inl e # (map Inl es @ cs)" using Cons.prems(2) by simp
  from Cons.prems(1) this i(1,2) obtain t where t: "connect_retry_from (2 ^ i) addr s = connect_retry_from (2 * 2 ^ i) addr t"
    "n_conn t = map Inl es @ cs" "n_slept t = n_slept s + (if 2 ^ i \<le> MAXSLEEP div 2 then 2 ^ i else 0)" "net_view t = net_view s"
    by (rule connect_fails)
  have "free_slot fd t" using free_slot_view [OF t(4)] Cons.prems(1) by simp
  from Cons.IH [OF this t(2), of "Suc i"] Cons.prems(3) obtain u where u:
    "connect_retry_from (2 ^ Suc i) addr t = connect_retry_from (2 ^ (Suc i + length es)) addr u" "n_conn u = cs"
    "n_slept u = n_slept t + (2 ^ (Suc i + length es) - 2 ^ Suc i)" "net_view u = net_view t" by auto
  define a b :: nat where "a = 2 ^ i" and "b = 2 ^ (i + length es)"
  have "a \<le> b" unfolding a_def b_def by (intro power_increasing) auto
  moreover have "n_slept u = n_slept s + a + (2 * b - 2 * a)" using u(3) t(3) i(3) by (simp add: a_def b_def)
  ultimately have "n_slept u = n_slept s + (2 * b - a)" by linarith
  then have "n_slept u = n_slept s + (2 ^ (i + length (e # es)) - 2 ^ i)" by (simp add: a_def b_def)
  then show ?case using t(1,4) u by auto
qed

text \<open>The answer after \<open>j\<close> refusals, and after eight.\<close>

lemma connect_retry_run:
  assumes "free_slot fd s" and "n_conn s = map Inl es @ Inr k # cs" and "length es < 8"
  shows "\<exists>t. connect_retry addr s = Ok fd (t\<lparr>k_ofd := (k_ofd s)(fd \<mapsto> \<lparr>of_ino = k_nino t, of_pos = 0, of_flags = {O_RDWR}\<rparr>),
      k_nino := Suc (k_nino t), n_sock := (n_sock s)(fd \<mapsto> k), n_conn := cs\<rparr>) \<and> net_view t = net_view s \<and>
    n_slept t = n_slept s + (2 ^ length es - 1)"
proof -
  have "0 + length es \<le> 7" using assms(3) by simp
  from connect_retry_tries [OF assms(1,2) this] obtain t where t: "n_conn t = Inr k # cs"
    "connect_retry_from 1 addr s = connect_retry_from (2 ^ length es) addr t"
    "n_slept t = n_slept s + (2 ^ length es - 1)" and v: "net_view t = net_view s" by auto
  have "(2::nat) ^ length es \<le> 2 ^ 7" using assms(3) by (intro power_increasing) auto
  then have n: "0 < (2::nat) ^ length es" "2 ^ length es \<le> MAXSLEEP" by (simp_all add: MAXSLEEP_def)
  have f: "free_slot fd t" using free_slot_view [OF v] assms(1) by simp
  have "k_ofd t = k_ofd s" "n_sock t = n_sock s"
    using arg_cong [OF v, of k_ofd] arg_cong [OF v, of n_sock] by (simp_all add: net_view_def)
  then show ?thesis
    using connect_succeeds [OF f t(1) n, of addr] t(2,3) v unfolding connect_retry_def
    by (intro exI [of _ t]) auto
qed

lemma connect_retry_gives_up:
  assumes "free_slot fd s" and "n_conn s = map Inl es @ cs" and "length es = 8"
  shows "\<exists>t. connect_retry addr s = Ok (-1) t \<and> net_view t = net_view s \<and> n_conn t = cs \<and> n_slept t = n_slept s + 127"
proof -
  obtain es' e where es: "es = es' @ [e]" and len: "length es' = 7" using assms(3) by (cases es rule: rev_cases) auto
  have "n_conn s = map Inl es' @ Inl e # cs" "0 + length es' \<le> 7" using assms(2) es len by simp_all
  from connect_retry_tries [OF assms(1) this] obtain t where t: "n_conn t = Inl e # cs"
    "connect_retry_from 1 addr s = connect_retry_from 128 addr t" "n_slept t = n_slept s + 127" and v: "net_view t = net_view s"
    using len by auto
  have f: "free_slot fd t" using free_slot_view [OF v] assms(1) by simp
  obtain u where "connect_retry_from 128 addr t = connect_retry_from (2 * 128) addr u" "n_conn u = cs"
    "n_slept u = n_slept t" "net_view u = net_view t"
    using connect_fails [OF f t(1), of 128 addr] by (auto simp: MAXSLEEP_def)
  moreover have "connect_retry_from (2 * 128) addr u = Ok (-1) u"
    by (subst connect_retry_from.simps) (simp add: MAXSLEEP_def)
  ultimately show ?thesis using t v by (auto simp: connect_retry_def)
qed

end
