(* ===== verification/Linked_List.thy ===== *)
theory Linked_List
  imports Prelude
begin

section \<open>Doubly linked lists of structures with two link fields\<close>

text \<open>
  Several programs of the repository keep their work in a doubly linked list with a head and a tail
  pointer: the job list of \<open>printer/printd.c\<close> and the job queues of \<open>threads/queue.c\<close> and \<open>threads/rwlock.c\<close>.
  Locale \<open>links\<close> is what they share: a node type with a next and a previous field. Address 0 is \<open>NULL\<close>, a
  heap maps the addresses of allocated nodes to their contents, and a dereference of any other address
  has no meaning, which the operations of the programs report as \<open>None\<close>.

  \<open>dlist h hp tp xs\<close>: the nodes at the addresses \<open>xs\<close> are linked in this order, in both directions,
  between the head pointer \<open>hp\<close> and the tail pointer \<open>tp\<close>.
\<close>

type_synonym 'n heap = "nat \<Rightarrow> 'n option"

text \<open>Changing a field of the structure at an address.\<close>

definition at :: "nat \<Rightarrow> ('n \<Rightarrow> 'n) \<Rightarrow> 'n heap \<Rightarrow> 'n heap option" where
  "at a f h = (if a = 0 then None else map_option (\<lambda>n. h(a \<mapsto> f n)) (h a))"

lemma at_Some [simp]: "h a = Some n \<Longrightarrow> a \<noteq> 0 \<Longrightarrow> at a f h = Some (h(a \<mapsto> f n))"
  by (simp add: at_def)

locale links =
  fixes nx pv :: "'n \<Rightarrow> nat" and set_nx set_pv :: "nat \<Rightarrow> 'n \<Rightarrow> 'n"
  assumes nx_nx [simp]: "nx (set_nx a n) = a" and pv_nx [simp]: "pv (set_nx a n) = pv n"
    and nx_pv [simp]: "nx (set_pv a n) = nx n" and pv_pv [simp]: "pv (set_pv a n) = a"
begin

text \<open>\<open>seg h p a xs b l\<close>: the nodes \<open>xs\<close>, the first at \<open>a\<close> with \<open>p\<close> before it, the last at \<open>l\<close> with \<open>b\<close> after it.\<close>

fun seg :: "'n heap \<Rightarrow> nat \<Rightarrow> nat \<Rightarrow> nat list \<Rightarrow> nat \<Rightarrow> nat \<Rightarrow> bool" where
  "seg h p a [] b l \<longleftrightarrow> a = b \<and> l = p"
| "seg h p a (x # xs) b l \<longleftrightarrow> a = x \<and> x \<noteq> 0 \<and> (\<exists>n. h x = Some n \<and> pv n = p \<and> seg h x (nx n) xs b l)"

definition dlist :: "'n heap \<Rightarrow> nat \<Rightarrow> nat \<Rightarrow> nat list \<Rightarrow> bool" where
  "dlist h hp tp xs \<longleftrightarrow> seg h 0 hp xs 0 tp \<and> distinct xs"

lemma seg_append: "seg h p a (xs @ ys) b l \<longleftrightarrow> (\<exists>c m. seg h p a xs c m \<and> seg h m c ys b l)"
  by (induction xs arbitrary: p a) auto

lemma seg_upd [simp]: "x \<notin> set xs \<Longrightarrow> seg (h(x := v)) p a xs b l = seg h p a xs b l"
  by (induction xs arbitrary: p a) auto

lemma seg_last: "seg h p a xs b l \<Longrightarrow> l = (if xs = [] then p else last xs)"
  by (induction xs arbitrary: p a) auto

lemma seg_hd: "seg h p a xs b l \<Longrightarrow> a = (if xs = [] then b else hd xs)"
  by (cases xs) auto

lemma seg_alloc: "seg h p a xs b l \<Longrightarrow> x \<in> set xs \<Longrightarrow> x \<noteq> 0 \<and> h x \<noteq> None"
  by (induction xs arbitrary: p a) auto

lemma dlistD:
  assumes "dlist h hp tp xs"
  shows "xs = [] \<longleftrightarrow> hp = 0" "xs = [] \<longleftrightarrow> tp = 0" "x \<in> set xs \<Longrightarrow> x \<noteq> 0" "x \<in> set xs \<Longrightarrow> h x \<noteq> None" "distinct xs"
proof -
  have s: "seg h 0 hp xs 0 tp" using assms by (simp add: dlist_def)
  show "x \<in> set xs \<Longrightarrow> x \<noteq> 0" "x \<in> set xs \<Longrightarrow> h x \<noteq> None" using seg_alloc [OF s] by blast+
  show "xs = [] \<longleftrightarrow> hp = 0" using seg_hd [OF s] seg_alloc [OF s, of "hd xs"] by (cases xs) auto
  show "xs = [] \<longleftrightarrow> tp = 0" using seg_last [OF s] seg_alloc [OF s, of "last xs"] by (cases "xs = []") auto
  show "distinct xs" using assms by (simp add: dlist_def)
qed

lemma dlist_empty [simp]: "dlist h hp tp [] \<longleftrightarrow> hp = 0 \<and> tp = 0"
  by (auto simp: dlist_def)

lemma dlist_other: "x \<notin> set xs \<Longrightarrow> dlist (h(x := v)) hp tp xs = dlist h hp tp xs"
  by (simp add: dlist_def)

text \<open>A new node behind the last one.\<close>

lemma dlist_append:
  assumes d: "dlist h hp tp xs" and x: "x \<notin> set xs" "x \<noteq> 0" and n: "h x = Some n" "nx n = 0" "pv n = tp"
  shows "tp = 0 \<Longrightarrow> dlist h x x (xs @ [x])"
    and "tp \<noteq> 0 \<Longrightarrow> \<exists>m. h tp = Some m \<and> dlist (h(tp \<mapsto> set_nx x m)) hp x (xs @ [x])"
proof -
  have s: "seg h 0 hp xs 0 tp" and dist: "distinct xs" using d by (simp_all add: dlist_def)
  show "tp = 0 \<Longrightarrow> dlist h x x (xs @ [x])" using dlistD(2) [OF d] n x by (simp add: dlist_def)
  assume tp: "tp \<noteq> 0"
  then have "xs \<noteq> []" using dlistD(2) [OF d] by simp
  then obtain ys where ys: "xs = ys @ [tp]" using seg_last [OF s] by (metis append_butlast_last_id)
  from s obtain m where m: "h tp = Some m" "seg h 0 hp ys tp (pv m)" "nx m = 0"
    unfolding ys seg_append by auto
  have ntp: "tp \<notin> set ys" "x \<noteq> tp" using dist x(1) by (auto simp: ys)
  have "seg (h(tp \<mapsto> set_nx x m)) 0 hp (ys @ [tp] @ [x]) 0 x"
    unfolding seg_append using m ntp n x tp by auto
  then show "\<exists>m. h tp = Some m \<and> dlist (h(tp \<mapsto> set_nx x m)) hp x (xs @ [x])"
    using m(1) x(1) dist by (auto simp: dlist_def ys)
qed

text \<open>A new node before the first one.\<close>

lemma dlist_push:
  assumes d: "dlist h hp tp xs" and x: "x \<notin> set xs" "x \<noteq> 0" and n: "h x = Some n" "nx n = hp" "pv n = 0"
  shows "hp = 0 \<Longrightarrow> dlist h x x (x # xs)"
    and "hp \<noteq> 0 \<Longrightarrow> \<exists>m. h hp = Some m \<and> dlist (h(hp \<mapsto> set_pv x m)) x tp (x # xs)"
proof -
  have s: "seg h 0 hp xs 0 tp" and dist: "distinct xs" using d by (simp_all add: dlist_def)
  show "hp = 0 \<Longrightarrow> dlist h x x (x # xs)" using dlistD(1) [OF d] n x by (simp add: dlist_def)
  assume hp: "hp \<noteq> 0"
  then obtain ys where ys: "xs = hp # ys" using dlistD(1) [OF d] seg_hd [OF s] by (cases xs) auto
  from s obtain m where m: "h hp = Some m" "seg h hp (nx m) ys 0 tp" by (auto simp: ys)
  have nhp: "hp \<notin> set ys" "x \<noteq> hp" using dist x(1) by (auto simp: ys)
  have "seg (h(hp \<mapsto> set_pv x m)) 0 x (x # hp # ys) 0 tp" using m nhp n x hp by auto
  then show "\<exists>m. h hp = Some m \<and> dlist (h(hp \<mapsto> set_pv x m)) x tp (x # xs)"
    using m(1) x(1) dist by (auto simp: dlist_def ys)
qed

text \<open>Taking a node out: its neighbours, and the four cases of which of them exist.\<close>

lemma dlist_node:
  assumes d: "dlist h hp tp (as @ x # bs)"
  obtains n where "h x = Some n" and "x \<noteq> 0" and "pv n = (if as = [] then 0 else last as)"
    and "nx n = (if bs = [] then 0 else hd bs)" and "seg h 0 hp as x (pv n)" and "seg h x (nx n) bs 0 tp"
proof -
  have s: "seg h 0 hp (as @ x # bs) 0 tp" using d by (simp add: dlist_def)
  then obtain c m n where s1: "seg h 0 hp as c m" and c: "c = x" and n: "h x = Some n" "x \<noteq> 0" "pv n = m"
    and s2: "seg h x (nx n) bs 0 tp" unfolding seg_append by auto
  show ?thesis
    using that [OF n(1,2)] seg_last [OF s1] seg_hd [OF s2] s1 c n s2 by simp
qed

lemma seg_relink_prev:
  assumes "seg h p (hd bs) bs b l" and "bs \<noteq> []" and "distinct bs" and "h (hd bs) = Some m"
  shows "seg (h(hd bs \<mapsto> set_pv q m)) q (hd bs) bs b l"
  using assms by (cases bs) auto

lemma seg_relink_next:
  assumes "seg h p a as b l" and "as \<noteq> []" and "distinct as" and "h (last as) = Some m"
  shows "seg (h(last as \<mapsto> set_nx y m)) p a as y l"
proof -
  define x where "x = last as"
  obtain cs where cs: "as = cs @ [x]" using assms(2) unfolding x_def by (metis append_butlast_last_id)
  show ?thesis using assms(1,3,4) unfolding x_def [symmetric] unfolding cs seg_append by auto
qed

lemma dlist_remove:
  assumes d: "dlist h hp tp (as @ x # bs)" and n: "h x = Some n"
  shows "as = [] \<Longrightarrow> bs = [] \<Longrightarrow> nx n = 0 \<and> pv n = 0 \<and> hp = x \<and> tp = x"
    and "as = [] \<Longrightarrow> bs \<noteq> [] \<Longrightarrow> nx n \<noteq> 0 \<and> nx n \<noteq> x \<and> pv n = 0 \<and> hp = x \<and> tp \<noteq> x \<and>
      (\<exists>m. h (nx n) = Some m \<and> dlist (h(nx n \<mapsto> set_pv 0 m)) (nx n) tp bs)"
    and "as \<noteq> [] \<Longrightarrow> bs = [] \<Longrightarrow> nx n = 0 \<and> pv n \<noteq> 0 \<and> pv n \<noteq> x \<and> tp = x \<and> hp \<noteq> x \<and>
      (\<exists>m. h (pv n) = Some m \<and> dlist (h(pv n \<mapsto> set_nx 0 m)) hp (pv n) as)"
    and "as \<noteq> [] \<Longrightarrow> bs \<noteq> [] \<Longrightarrow> nx n \<noteq> 0 \<and> pv n \<noteq> 0 \<and> nx n \<noteq> x \<and> pv n \<noteq> x \<and> nx n \<noteq> pv n \<and> hp \<noteq> x \<and> tp \<noteq> x \<and>
      (\<exists>ma mb. h (pv n) = Some ma \<and> h (nx n) = Some mb \<and>
        dlist (h(pv n \<mapsto> set_nx (nx n) ma, nx n \<mapsto> set_pv (pv n) mb)) hp tp (as @ bs))"
proof -
  from d obtain n' where n': "h x = Some n'" "x \<noteq> 0" "pv n' = (if as = [] then 0 else last as)"
    "nx n' = (if bs = [] then 0 else hd bs)" "seg h 0 hp as x (pv n')" "seg h x (nx n') bs 0 tp"
    by (rule dlist_node)
  have [simp]: "n' = n" using n n'(1) by simp
  note pvn = n'(3) [simplified] and nxn = n'(4) [simplified] and sa = n'(5) [simplified] and sb = n'(6) [simplified]
  have dist: "distinct as" "distinct bs" "x \<notin> set as" "x \<notin> set bs" "set as \<inter> set bs = {}"
    using dlistD(5) [OF d] by auto
  note hda = seg_hd [OF sa] and lastb = seg_last [OF sb]
  have la: "as \<noteq> [] \<Longrightarrow> last as \<in> set as \<and> hd as \<in> set as" and lb: "bs \<noteq> [] \<Longrightarrow> last bs \<in> set bs \<and> hd bs \<in> set bs" by simp_all
  have al: "as \<noteq> [] \<Longrightarrow> last as \<noteq> 0 \<and> (\<exists>m. h (last as) = Some m)" using seg_alloc [OF sa] la by blast
  have bl: "bs \<noteq> [] \<Longrightarrow> hd bs \<noteq> 0 \<and> (\<exists>m. h (hd bs) = Some m)" using seg_alloc [OF sb] lb by blast
  show "as = [] \<Longrightarrow> bs = [] \<Longrightarrow> nx n = 0 \<and> pv n = 0 \<and> hp = x \<and> tp = x"
    using pvn nxn hda lastb by simp
  { assume e: "as = []" "bs \<noteq> []"
    obtain m where m: "h (hd bs) = Some m" using bl e by blast
    have "seg h x (hd bs) bs 0 tp" using sb nxn e by simp
    from seg_relink_prev [OF this e(2) dist(2) m, of 0]
    show "nx n \<noteq> 0 \<and> nx n \<noteq> x \<and> pv n = 0 \<and> hp = x \<and> tp \<noteq> x \<and>
      (\<exists>m. h (nx n) = Some m \<and> dlist (h(nx n \<mapsto> set_pv 0 m)) (nx n) tp bs)"
      using pvn nxn hda lastb e bl dist lb m by (auto simp: dlist_def) }
  { assume e: "as \<noteq> []" "bs = []"
    obtain m where m: "h (last as) = Some m" using al e by blast
    have "seg h 0 hp as x (last as)" using sa pvn e by simp
    from seg_relink_next [OF this e(1) dist(1) m, of 0]
    show "nx n = 0 \<and> pv n \<noteq> 0 \<and> pv n \<noteq> x \<and> tp = x \<and> hp \<noteq> x \<and>
      (\<exists>m. h (pv n) = Some m \<and> dlist (h(pv n \<mapsto> set_nx 0 m)) hp (pv n) as)"
      using pvn nxn hda lastb e al dist la m by (auto simp: dlist_def) }
  { assume e: "as \<noteq> []" "bs \<noteq> []"
    obtain ma mb where m: "h (last as) = Some ma" "h (hd bs) = Some mb" using al bl e by blast
    have ne: "last as \<noteq> hd bs" "last as \<notin> set bs" "hd bs \<notin> set as" using la lb e dist(5) by (metis disjoint_iff)+
    have "seg h 0 hp as x (last as)" "seg h x (hd bs) bs 0 tp" using sa sb pvn nxn e by simp_all
    from seg_relink_next [OF this(1) e(1) dist(1) m(1), of "hd bs"] seg_relink_prev [OF this(2) e(2) dist(2) m(2), of "last as"]
    have "seg (h(last as \<mapsto> set_nx (hd bs) ma, hd bs \<mapsto> set_pv (last as) mb)) 0 hp as (hd bs) (last as)"
      and "seg (h(hd bs \<mapsto> set_pv (last as) mb, last as \<mapsto> set_nx (hd bs) ma)) (last as) (hd bs) bs 0 tp"
      using ne by simp_all
    then have "dlist (h(last as \<mapsto> set_nx (hd bs) ma, hd bs \<mapsto> set_pv (last as) mb)) hp tp (as @ bs)"
      unfolding dlist_def seg_append using dist ne by (auto simp: fun_upd_twist)
    then show "nx n \<noteq> 0 \<and> pv n \<noteq> 0 \<and> nx n \<noteq> x \<and> pv n \<noteq> x \<and> nx n \<noteq> pv n \<and> hp \<noteq> x \<and> tp \<noteq> x \<and>
      (\<exists>ma mb. h (pv n) = Some ma \<and> h (nx n) = Some mb \<and>
        dlist (h(pv n \<mapsto> set_nx (nx n) ma, nx n \<mapsto> set_pv (pv n) mb)) hp tp (as @ bs))"
      using pvn nxn hda lastb e al bl dist la lb ne m by (auto simp: fun_upd_twist) }
qed

text \<open>Following the list from its head.\<close>

lemma dlist_first:
  assumes "dlist h hp tp (x # xs)"
  shows "hp = x"
  using assms by (simp add: dlist_def)

end

subsection \<open>Singly linked chains\<close>

text \<open>
  The buckets of the hash tables of \<open>threads/mutex2.c\<close>, \<open>mutex3.c\<close> and \<open>spinlock.c\<close> are chains with one link field, ended by \<open>NULL\<close>.
\<close>

locale chained =
  fixes nx :: "'n \<Rightarrow> nat" and set_nx :: "nat \<Rightarrow> 'n \<Rightarrow> 'n"
  assumes nx_set [simp]: "nx (set_nx a n) = a"
begin

fun chain :: "'n heap \<Rightarrow> nat \<Rightarrow> nat list \<Rightarrow> bool" where
  "chain h a [] \<longleftrightarrow> a = 0"
| "chain h a (x # xs) \<longleftrightarrow> a = x \<and> x \<noteq> 0 \<and> (\<exists>n. h x = Some n \<and> chain h (nx n) xs)"

lemma chain_fun: "chain h a xs \<Longrightarrow> chain h a ys \<Longrightarrow> xs = ys"
proof (induction xs arbitrary: a ys)
  case Nil
  then show ?case by (cases ys) auto
next
  case (Cons x xs)
  then show ?case by (cases ys) auto
qed

lemma chain_suffix: "chain h a (xs @ y # ys) \<Longrightarrow> chain h y (y # ys)"
  by (induction xs arbitrary: a) auto

lemma chain_distinct: "chain h a xs \<Longrightarrow> distinct xs"
proof (induction xs arbitrary: a)
  case (Cons x xs)
  from Cons.prems obtain n where n: "h x = Some n" "chain h (nx n) xs" "chain h x (x # xs)" by auto
  have "x \<notin> set xs"
  proof
    assume "x \<in> set xs"
    then obtain us vs where "xs = us @ x # vs" by (auto dest: split_list)
    then have "chain h x (x # vs)" using chain_suffix n(2) by metis
    from chain_fun [OF n(3) this] \<open>xs = us @ x # vs\<close> show False by simp
  qed
  then show ?case using Cons.IH [OF n(2)] by simp
qed simp

lemma chain_alloc: "chain h a xs \<Longrightarrow> x \<in> set xs \<Longrightarrow> x \<noteq> 0 \<and> h x \<noteq> None"
  by (induction xs arbitrary: a) auto

lemma chain_0: "chain h 0 xs \<longleftrightarrow> xs = []"
  by (cases xs) auto

lemma chain_head: "chain h a xs \<Longrightarrow> a \<noteq> 0 \<Longrightarrow> \<exists>ys. xs = a # ys"
  by (cases xs) auto

lemma chain_other [simp]: "x \<notin> set xs \<Longrightarrow> chain (h(x := v)) a xs = chain h a xs"
  by (induction xs arbitrary: a) auto

lemma chain_field:
  assumes "h x = Some n" and "nx n' = nx n"
  shows "chain (h(x \<mapsto> n')) a xs = chain h a xs"
  using assms by (induction xs arbitrary: a) auto

lemma chain_node:
  assumes "chain h a (xs @ x # ys)"
  obtains n where "h x = Some n" and "x \<noteq> 0" and "nx n = (if ys = [] then 0 else hd ys)"
  using chain_suffix [OF assms] by (cases ys) auto

lemma chain_skip:
  assumes "chain h a (xs @ p # x # ys)" and "h p = Some m" and "h x = Some n"
  shows "chain (h(p \<mapsto> set_nx (nx n) m)) a (xs @ p # ys)"
  using assms
proof (induction xs arbitrary: a)
  case Nil
  have p: "p \<notin> set ys" "p \<noteq> 0" using chain_distinct [OF Nil(1)] Nil(1) by simp_all
  have "chain h (nx n) ys" using Nil by auto
  then have "chain (h(p \<mapsto> set_nx (nx n) m)) (nx n) ys" using chain_other [OF p(1)] by blast
  then show ?case using Nil(1) p by (simp del: chain_other fun_upd_apply add: fun_upd_same)
next
  case (Cons u us)
  have "u \<noteq> p" using chain_distinct [OF Cons.prems(1)] by auto
  moreover obtain k where k: "h u = Some k" "u \<noteq> 0" "a = u" "chain h (nx k) (us @ p # x # ys)" using Cons.prems(1) by auto
  ultimately show ?case using Cons.IH [OF k(4) Cons.prems(2,3)] by simp
qed

end

end
