(* ===== verification/Print_Jobs.thy ===== *)
theory Print_Jobs
  imports Print_Base Linked_List
begin

section \<open>The print daemon's job numbers and job list: \<open>printer/printd.c\<close>\<close>

text \<open>
  Record \<open>printd\<close> has the global variables of the daemon beside its environment: the job list in a heap of
  \<open>struct job\<close>, the worker list in a heap of \<open>struct worker_thread\<close>, the job counter, the three mutexes, the printer
  address. \<open>malloc\<close> gives a fresh address or, when the schedule of failures says so, \<open>NULL\<close>. Locking a mutex that is held
  does not return; a dereference of a freed or null address has no meaning (\<open>Undefined\<close>).

  The job list is an interpretation of locale \<open>links\<close>; \<open>queue s js\<close> says that the list holds the jobs \<open>js\<close> (number and
  request) in this order. \<open>add_job\<close> appends, \<open>replace_job\<close> puts back in front, \<open>remove_job\<close> of the head
  takes the first.
\<close>

record job =
  j_next :: nat
  j_prev :: nat
  j_jobid :: "32 word"
  j_req :: printreq

record worker_thread =
  w_next :: nat
  w_prev :: nat
  w_tid :: nat
  w_sockfd :: int

record printd = pnet +
  jobs :: "job heap"
  wthreads :: "worker_thread heap"
  brk :: nat
  junk_job :: job
  junk_worker :: worker_thread
  jobhead :: nat
  jobtail :: nat
  jobfd :: int
  nextjob :: "32 word"
  joblock :: bool
  jobwait :: nat
  workers :: nat
  workerlock :: bool
  cancelled :: "nat list"
  configlock :: bool
  reread :: bool
  printer :: "addrinfo list option"
  printer_name :: "string option"
  req_entries :: "string list option"

subsection \<open>Mutexes, memory\<close>

abbreviation lock_joblock :: "('z printd_scheme, unit) prog" where "lock_joblock \<equiv> mutex_lock joblock joblock_update"
abbreviation unlock_joblock :: "('z printd_scheme, unit) prog" where "unlock_joblock \<equiv> mutex_unlock joblock joblock_update"
abbreviation lock_workerlock :: "('z printd_scheme, unit) prog" where "lock_workerlock \<equiv> mutex_lock workerlock workerlock_update"
abbreviation unlock_workerlock :: "('z printd_scheme, unit) prog" where "unlock_workerlock \<equiv> mutex_unlock workerlock workerlock_update"
abbreviation lock_configlock :: "('z printd_scheme, unit) prog" where "lock_configlock \<equiv> mutex_lock configlock configlock_update"
abbreviation unlock_configlock :: "('z printd_scheme, unit) prog" where "unlock_configlock \<equiv> mutex_unlock configlock configlock_update"

definition malloc_job :: "('z printd_scheme, nat) prog" where
  "malloc_job = syscall 0 (\<lambda>s. Ok (brk s) (s\<lparr>brk := Suc (brk s), jobs := (jobs s)(brk s \<mapsto> junk_job s)\<rparr>))"

definition malloc_worker :: "('z printd_scheme, nat) prog" where
  "malloc_worker = syscall 0 (\<lambda>s. Ok (brk s) (s\<lparr>brk := Suc (brk s), wthreads := (wthreads s)(brk s \<mapsto> junk_worker s)\<rparr>))"

definition free_job :: "nat \<Rightarrow> ('z printd_scheme, unit) prog" where
  "free_job a = modify (\<lambda>s. s\<lparr>jobs := (jobs s)(a := None)\<rparr>)"

definition free_worker :: "nat \<Rightarrow> ('z printd_scheme, unit) prog" where
  "free_worker a = modify (\<lambda>s. s\<lparr>wthreads := (wthreads s)(a := None)\<rparr>)"

definition job_get :: "nat \<Rightarrow> (job \<Rightarrow> 'a) \<Rightarrow> ('z printd_scheme, 'a) prog" where
  "job_get a f = (\<lambda>s. case if a = 0 then None else jobs s a of
      None \<Rightarrow> Abort (Undefined ''job dereference'') s | Some j \<Rightarrow> Ok (f j) s)"

definition job_set :: "nat \<Rightarrow> (job \<Rightarrow> job) \<Rightarrow> ('z printd_scheme, unit) prog" where
  "job_set a f = (\<lambda>s. case at a f (jobs s) of
      None \<Rightarrow> Abort (Undefined ''job dereference'') s | Some h \<Rightarrow> Ok () (s\<lparr>jobs := h\<rparr>))"

definition worker_get :: "nat \<Rightarrow> (worker_thread \<Rightarrow> 'a) \<Rightarrow> ('z printd_scheme, 'a) prog" where
  "worker_get a f = (\<lambda>s. case if a = 0 then None else wthreads s a of
      None \<Rightarrow> Abort (Undefined ''worker dereference'') s | Some j \<Rightarrow> Ok (f j) s)"

definition worker_set :: "nat \<Rightarrow> (worker_thread \<Rightarrow> worker_thread) \<Rightarrow> ('z printd_scheme, unit) prog" where
  "worker_set a f = (\<lambda>s. case at a f (wthreads s) of
      None \<Rightarrow> Abort (Undefined ''worker dereference'') s | Some h \<Rightarrow> Ok () (s\<lparr>wthreads := h\<rparr>))"

text \<open>A signal on the condition wakes one waiting thread, and does nothing when none waits.\<close>

definition cond_signal_jobwait :: "('z printd_scheme, unit) prog" where
  "cond_signal_jobwait = modify (\<lambda>s. s\<lparr>jobwait := jobwait s - 1\<rparr>)"

subsection \<open>The job file\<close>

definition SPOOLDIR :: string where "SPOOLDIR = ''/var/spool/printer''"
definition JOBFILE :: string where "JOBFILE = ''jobno''"
definition DATADIR :: string where "DATADIR = ''data''"
definition REQDIR :: string where "REQDIR = ''reqs''"

text \<open>\<open>sprintf\<close> into a buffer of \<open>n\<close> bytes.\<close>

definition sprintf_buf :: "nat \<Rightarrow> string \<Rightarrow> ('s, string) prog" where
  "sprintf_buf n t = (if length t < n then ret t else halt (Undefined ''sprintf past the end of its buffer''))"

definition jobfile_name :: string where
  "jobfile_name = SPOOLDIR @ ''/'' @ JOBFILE"

definition init_request :: "('z printd_scheme, unit) prog" where
  "init_request =
     bnd (sprintf_buf FILENMSZ jobfile_name) (\<lambda>nm.
     bnd (sys_open nm {O_CREAT, O_RDWR}) (\<lambda>fd.
     bnd (modify (\<lambda>s. s\<lparr>jobfd := fd\<rparr>)) (\<lambda>_.
     bnd (write_lock fd 0 SEEK_SET 0) (\<lambda>r.
     if r < 0 then log_quit ''daemon already running''
     else
       bnd (sys_read fd FILENMSZ) (\<lambda>(n, bs).
       if n < 0 then log_sys ''can't read job file''
       else if n = 0 then modify (\<lambda>s. s\<lparr>nextjob := 1\<rparr>)
       else modify (\<lambda>s. s\<lparr>nextjob := word_of_int (atol (put_at (into_buf (take FILENMSZ (junk s)) nm) 0 bs))\<rparr>))))))"

definition update_jobno :: "('z printd_scheme, unit) prog" where
  "update_jobno =
     bnd (gets jobfd) (\<lambda>fd.
     bnd (sys_lseek fd 0 SEEK_SET) (\<lambda>r.
     if r = -1 then log_sys ''can't seek in job file''
     else
       bnd (gets (\<lambda>s. fmt_d (sint (nextjob s)))) (\<lambda>buf.
       bnd (sys_write fd buf) (\<lambda>w.
       if w < 0 then log_sys ''can't update job file'' else ret ()))))"

definition get_newjobno :: "('z printd_scheme, 32 word) prog" where
  "get_newjobno =
     bnd lock_joblock (\<lambda>_.
     bnd (gets nextjob) (\<lambda>jobid.
     bnd (modify (\<lambda>s. s\<lparr>nextjob := nextjob s + 1\<rparr>)) (\<lambda>_.
     bnd (gets (\<lambda>s. sint (nextjob s))) (\<lambda>n.
     bnd (if n \<le> 0 then modify (\<lambda>s. s\<lparr>nextjob := 1\<rparr>) else ret ()) (\<lambda>_.
     bnd unlock_joblock (\<lambda>_.
     ret jobid))))))"

subsection \<open>The job list\<close>

definition add_job :: "printreq \<Rightarrow> 32 word \<Rightarrow> ('z printd_scheme, unit) prog" where
  "add_job reqp jobid =
     bnd malloc_job (\<lambda>jp.
     if jp = 0 then log_sys ''malloc failed''
     else
       bnd (job_set jp (\<lambda>j. j\<lparr>j_req := reqp\<rparr>)) (\<lambda>_.
       bnd (job_set jp (\<lambda>j. j\<lparr>j_jobid := jobid\<rparr>)) (\<lambda>_.
       bnd (job_set jp (\<lambda>j. j\<lparr>j_next := 0\<rparr>)) (\<lambda>_.
       bnd lock_joblock (\<lambda>_.
       bnd (gets jobtail) (\<lambda>tl.
       bnd (job_set jp (\<lambda>j. j\<lparr>j_prev := tl\<rparr>)) (\<lambda>_.
       bnd (if tl = 0 then modify (\<lambda>s. s\<lparr>jobhead := jp\<rparr>) else job_set tl (\<lambda>j. j\<lparr>j_next := jp\<rparr>)) (\<lambda>_.
       bnd (modify (\<lambda>s. s\<lparr>jobtail := jp\<rparr>)) (\<lambda>_.
       bnd unlock_joblock (\<lambda>_.
       cond_signal_jobwait))))))))))"

definition replace_job :: "nat \<Rightarrow> ('z printd_scheme, unit) prog" where
  "replace_job jp =
     bnd lock_joblock (\<lambda>_.
     bnd (job_set jp (\<lambda>j. j\<lparr>j_prev := 0\<rparr>)) (\<lambda>_.
     bnd (gets jobhead) (\<lambda>hd.
     bnd (job_set jp (\<lambda>j. j\<lparr>j_next := hd\<rparr>)) (\<lambda>_.
     bnd (if hd = 0 then modify (\<lambda>s. s\<lparr>jobtail := jp\<rparr>) else job_set hd (\<lambda>j. j\<lparr>j_prev := jp\<rparr>)) (\<lambda>_.
     bnd (modify (\<lambda>s. s\<lparr>jobhead := jp\<rparr>)) (\<lambda>_.
     unlock_joblock))))))"

definition remove_job :: "nat \<Rightarrow> ('z printd_scheme, unit) prog" where
  "remove_job target =
     bnd (job_get target j_next) (\<lambda>nx.
     bnd (if nx \<noteq> 0
          then bnd (job_get target j_prev) (\<lambda>pv. job_set nx (\<lambda>j. j\<lparr>j_prev := pv\<rparr>))
          else bnd (job_get target j_prev) (\<lambda>pv. modify (\<lambda>s. s\<lparr>jobtail := pv\<rparr>))) (\<lambda>_.
     bnd (job_get target j_prev) (\<lambda>pv.
     if pv \<noteq> 0
     then bnd (job_get target j_next) (\<lambda>nx. job_set pv (\<lambda>j. j\<lparr>j_next := nx\<rparr>))
     else bnd (job_get target j_next) (\<lambda>nx. modify (\<lambda>s. s\<lparr>jobhead := nx\<rparr>)))))"

subsection \<open>Properties of the list operations\<close>

interpretation jl: links j_next j_prev "\<lambda>a j. j\<lparr>j_next := a\<rparr>" "\<lambda>a j. j\<lparr>j_prev := a\<rparr>"
  by unfold_locales simp_all

definition content :: "job heap \<Rightarrow> nat \<Rightarrow> (32 word \<times> printreq) option" where
  "content h a = map_option (\<lambda>j. (j_jobid j, j_req j)) (h a)"

text \<open>\<open>linked s xs\<close>: the list is at the addresses \<open>xs\<close>; \<open>queue s js\<close>: it holds \<open>js\<close>.\<close>

definition linked :: "'z printd_scheme \<Rightarrow> nat list \<Rightarrow> bool" where
  "linked s xs \<longleftrightarrow> jl.dlist (jobs s) (jobhead s) (jobtail s) xs"

definition queue :: "'z printd_scheme \<Rightarrow> (32 word \<times> printreq) list \<Rightarrow> bool" where
  "queue s js \<longleftrightarrow> (\<exists>xs. linked s xs \<and> map (content (jobs s)) xs = map Some js)"

text \<open>\<open>mem_ok\<close>: the next address \<open>malloc\<close> gives is fresh.\<close>

definition mem_ok :: "'z printd_scheme \<Rightarrow> bool" where
  "mem_ok s \<longleftrightarrow> 0 < brk s \<and> (\<forall>a. brk s \<le> a \<longrightarrow> jobs s a = None \<and> wthreads s a = None)"

text \<open>What the list operations leave as it was.\<close>

definition job_frame :: "'z printd_scheme \<Rightarrow> 'z printd_scheme" where
  "job_frame s = s\<lparr>jobs := \<lambda>_. None, brk := 0, jobhead := 0, jobtail := 0, jobwait := 0\<rparr>"

lemma job_get_run [simp]: "jobs s a = Some j \<Longrightarrow> a \<noteq> 0 \<Longrightarrow> job_get a f s = Ok (f j) s"
  by (simp add: job_get_def)

lemma job_set_run [simp]: "jobs s a = Some j \<Longrightarrow> a \<noteq> 0 \<Longrightarrow> job_set a f s = Ok () (s\<lparr>jobs := (jobs s)(a \<mapsto> f j)\<rparr>)"
  by (simp add: job_set_def)

lemma content_simps:
  "content (h(a \<mapsto> j)) b = (if a = b then Some (j_jobid j, j_req j) else content h b)"
  by (simp add: content_def)

lemma content_relink:
  assumes "h a = Some j" and "j_jobid j' = j_jobid j" and "j_req j' = j_req j"
  shows "content (h(a \<mapsto> j')) = content h"
  using assms by (auto simp: content_def fun_eq_iff)

lemma linked_alloc: "linked s xs \<Longrightarrow> mem_ok s \<Longrightarrow> a \<in> set xs \<Longrightarrow> a < brk s"
  using jl.dlistD(4) [of "jobs s" "jobhead s" "jobtail s" xs a]
  by (metis linked_def mem_ok_def not_le)

lemma queue_empty: "queue s [] \<longleftrightarrow> jobhead s = 0 \<and> jobtail s = 0"
  by (auto simp: queue_def linked_def)

lemma queue_head:
  assumes "queue s js"
  shows "jobhead s = 0 \<longleftrightarrow> js = []"
proof -
  from assms obtain xs where "linked s xs" "map (content (jobs s)) xs = map Some js" by (auto simp: queue_def)
  then show ?thesis using jl.dlistD(1) [of "jobs s" "jobhead s" "jobtail s" xs] by (auto simp: linked_def)
qed

text \<open>Appending.\<close>

lemma add_job_links:
  assumes "k_faults s = []" and "\<not> joblock s" and m: "mem_ok s" and l: "linked s xs"
  shows "\<exists>h. add_job r i s = Ok () (s\<lparr>brk := Suc (brk s), jobs := h, jobtail := brk s,
      jobhead := if xs = [] then brk s else jobhead s, jobwait := jobwait s - 1\<rparr>) \<and>
    jl.dlist h (if xs = [] then brk s else jobhead s) (brk s) (xs @ [brk s]) \<and>
    content h = (content (jobs s))(brk s \<mapsto> (i, r)) \<and> (\<forall>a. brk s < a \<longrightarrow> h a = None)"
proof -
  have nb: "brk s \<notin> set xs" "brk s \<noteq> 0" using linked_alloc [OF l m] m by (auto simp: mem_ok_def)
  define n where "n = (junk_job s)\<lparr>j_req := r, j_jobid := i, j_next := 0, j_prev := jobtail s\<rparr>"
  define h where "h = (jobs s)(brk s \<mapsto> n)"
  have n: "h (brk s) = Some n" "j_next n = 0" "j_prev n = jobtail s" by (simp_all add: h_def n_def)
  have d: "jl.dlist h (jobhead s) (jobtail s) xs" using l nb(1) by (simp add: linked_def h_def jl.dlist_other)
  have e: "xs = [] \<longleftrightarrow> jobtail s = 0" by (rule jl.dlistD(2) [OF d])
  have free: "\<forall>a. brk s < a \<longrightarrow> h a = None" using m by (simp add: h_def mem_ok_def)
  have c: "content h = (content (jobs s))(brk s \<mapsto> (i, r))" by (simp add: content_def h_def n_def fun_eq_iff)
  note run = add_job_def malloc_job_def mutex_lock_def mutex_unlock_def cond_signal_jobwait_def bnd_def
  show ?thesis
  proof (cases "jobtail s = 0")
    case True
    have "add_job r i s = Ok () (s\<lparr>brk := Suc (brk s), jobs := h, jobtail := brk s, jobhead := brk s, jobwait := jobwait s - 1\<rparr>)"
      using assms(1,2) nb(2) True by (simp add: run h_def n_def fun_upd_twist)
    then show ?thesis using jl.dlist_append(1) [OF d nb n True] True e c free by (intro exI [of _ h]) simp
  next
    case False
    from jl.dlist_append(2) [OF d nb n False] obtain t where t: "h (jobtail s) = Some t"
      "jl.dlist (h(jobtail s \<mapsto> t\<lparr>j_next := brk s\<rparr>)) (jobhead s) (brk s) (xs @ [brk s])" by blast
    let ?h = "h(jobtail s \<mapsto> t\<lparr>j_next := brk s\<rparr>)"
    have tl: "jobtail s < brk s" using t(1) free False e linked_alloc [OF l m] jl.seg_last [of "jobs s" 0 "jobhead s" xs 0 "jobtail s"] l
      by (auto simp: linked_def jl.dlist_def)
    have "add_job r i s = Ok () (s\<lparr>brk := Suc (brk s), jobs := ?h, jobtail := brk s, jobwait := jobwait s - 1\<rparr>)"
      using assms(1,2) nb(2) False t(1) tl by (simp add: run h_def n_def)
    moreover have "content ?h = content h" by (rule content_relink) (use t(1) in simp_all)
    ultimately show ?thesis using t(2) False e c free tl by (intro exI [of _ ?h]) simp
  qed
qed

lemma add_job_queue:
  assumes "k_faults s = []" and "\<not> joblock s" and m: "mem_ok s" and q: "queue s js"
  shows "\<exists>t. add_job r i s = Ok () t \<and> queue t (js @ [(i, r)]) \<and> mem_ok t \<and> job_frame t = job_frame s"
proof -
  from q obtain xs where xs: "linked s xs" "map (content (jobs s)) xs = map Some js" by (auto simp: queue_def)
  have nb: "brk s \<notin> set xs" using linked_alloc [OF xs(1) m] by auto
  from add_job_links [OF assms(1,2) m xs(1)] obtain h where h:
    "add_job r i s = Ok () (s\<lparr>brk := Suc (brk s), jobs := h, jobtail := brk s,
      jobhead := if xs = [] then brk s else jobhead s, jobwait := jobwait s - 1\<rparr>)"
    "jl.dlist h (if xs = [] then brk s else jobhead s) (brk s) (xs @ [brk s])"
    "content h = (content (jobs s))(brk s \<mapsto> (i, r))" "\<forall>a. brk s < a \<longrightarrow> h a = None" by blast
  have "map (content h) (xs @ [brk s]) = map Some (js @ [(i, r)])" using xs(2) nb by (simp add: h(3))
  then show ?thesis using h m
    by (intro exI [of _ "s\<lparr>brk := Suc (brk s), jobs := h, jobtail := brk s,
      jobhead := if xs = [] then brk s else jobhead s, jobwait := jobwait s - 1\<rparr>"])
      (auto simp: queue_def linked_def mem_ok_def job_frame_def intro!: exI [of _ "xs @ [brk s]"])
qed

text \<open>
  Taking the head off leaves the rest linked and the job itself allocated; putting it back in front restores the queue.
\<close>

definition holds_job :: "'z printd_scheme \<Rightarrow> nat \<Rightarrow> 32 word \<times> printreq \<Rightarrow> (32 word \<times> printreq) list \<Rightarrow> bool" where
  "holds_job s a j js \<longleftrightarrow> a \<noteq> 0 \<and> content (jobs s) a = Some j \<and>
     (\<exists>xs. linked s xs \<and> a \<notin> set xs \<and> map (content (jobs s)) xs = map Some js)"

lemma remove_job_queue:
  assumes q: "queue s (j # js)"
  shows "\<exists>t. remove_job (jobhead s) s = Ok () t \<and> holds_job t (jobhead s) j js \<and> (mem_ok s \<longrightarrow> mem_ok t) \<and>
    job_frame t = job_frame s \<and> joblock t = joblock s \<and> jobwait t = jobwait s"
proof -
  from q obtain x xs where xs: "linked s (x # xs)" "content (jobs s) x = Some j" "map (content (jobs s)) xs = map Some js"
    by (auto simp: queue_def map_eq_Cons_conv)
  have d: "jl.dlist (jobs s) (jobhead s) (jobtail s) ([] @ x # xs)" using xs(1) by (simp add: linked_def)
  then have hd: "jobhead s = x" using jl.dlist_first by simp
  from d obtain n where n: "jobs s x = Some n" "x \<noteq> 0" by (rule jl.dlist_node)
  have nx: "x \<notin> set xs" using jl.dlistD(5) [OF d] by simp
  note run = remove_job_def bnd_def
  show ?thesis
  proof (cases "xs = []")
    case True
    with jl.dlist_remove(1) [OF d n(1)] have e: "j_next n = 0" "j_prev n = 0" by simp_all
    have "remove_job x s = Ok () (s\<lparr>jobtail := 0, jobhead := 0\<rparr>)" using n e by (simp add: run)
    then show ?thesis using hd n True xs
      by (intro exI [of _ "s\<lparr>jobtail := 0, jobhead := 0\<rparr>"])
        (auto simp: holds_job_def linked_def mem_ok_def job_frame_def)
  next
    case False
    with jl.dlist_remove(2) [OF d n(1)] obtain m where e: "j_next n \<noteq> 0" "j_prev n = 0" "j_next n \<noteq> x"
      "jobs s (j_next n) = Some m" "jl.dlist ((jobs s)(j_next n \<mapsto> m\<lparr>j_prev := 0\<rparr>)) (j_next n) (jobtail s) xs" by auto
    let ?h = "(jobs s)(j_next n \<mapsto> m\<lparr>j_prev := 0\<rparr>)"
    have c: "content ?h = content (jobs s)" by (rule content_relink) (use e(4) in simp_all)
    have "remove_job x s = Ok () (s\<lparr>jobs := ?h, jobhead := j_next n\<rparr>)" using n e by (simp add: run)
    then show ?thesis using hd n xs e nx c
      by (intro exI [of _ "s\<lparr>jobs := ?h, jobhead := j_next n\<rparr>"])
        (auto simp: holds_job_def linked_def mem_ok_def job_frame_def)
  qed
qed

lemma replace_job_queue:
  assumes "\<not> joblock s" and h: "holds_job s a j js"
  shows "\<exists>t. replace_job a s = Ok () t \<and> queue t (j # js) \<and> (mem_ok s \<longrightarrow> mem_ok t) \<and> job_frame t = job_frame s \<and>
    jobwait t = jobwait s"
proof -
  from h obtain xs m where a: "a \<noteq> 0" "content (jobs s) a = Some j" and xs: "linked s xs" "a \<notin> set xs"
    "map (content (jobs s)) xs = map Some js" and m: "jobs s a = Some m" by (auto simp: holds_job_def content_def)
  define n where "n = m\<lparr>j_prev := 0, j_next := jobhead s\<rparr>"
  define h where "h = (jobs s)(a \<mapsto> n)"
  have n: "h a = Some n" "j_next n = jobhead s" "j_prev n = 0" by (simp_all add: h_def n_def)
  have d: "jl.dlist h (jobhead s) (jobtail s) xs" using xs by (simp add: linked_def h_def jl.dlist_other)
  have c: "content h = content (jobs s)" unfolding h_def by (rule content_relink) (use m in \<open>simp_all add: n_def\<close>)
  note run = replace_job_def mutex_lock_def mutex_unlock_def bnd_def
  show ?thesis
  proof (cases "jobhead s = 0")
    case True
    have "replace_job a s = Ok () (s\<lparr>jobs := h, jobtail := a, jobhead := a\<rparr>)"
      using assms(1) True a(1) m by (simp add: run h_def n_def)
    moreover have "mem_ok s \<longrightarrow> mem_ok (s\<lparr>jobs := h, jobtail := a, jobhead := a\<rparr>)"
      using m by (auto simp: mem_ok_def h_def split: if_splits)
    ultimately show ?thesis using jl.dlist_push(1) [OF d xs(2) a(1) n True] c a xs(3) True
      by (intro exI [of _ "s\<lparr>jobs := h, jobtail := a, jobhead := a\<rparr>"])
        (auto simp: queue_def linked_def job_frame_def intro!: exI [of _ "a # xs"])
  next
    case False
    from jl.dlist_push(2) [OF d xs(2) a(1) n False] obtain k where k: "h (jobhead s) = Some k"
      "jl.dlist (h(jobhead s \<mapsto> k\<lparr>j_prev := a\<rparr>)) a (jobtail s) (a # xs)" by blast
    let ?h = "h(jobhead s \<mapsto> k\<lparr>j_prev := a\<rparr>)"
    have c': "content ?h = content (jobs s)" using content_relink [of h "jobhead s" k "k\<lparr>j_prev := a\<rparr>"] k(1) c by simp
    have "replace_job a s = Ok () (s\<lparr>jobs := ?h, jobhead := a\<rparr>)"
      using assms(1) False a(1) m k(1) by (simp add: run h_def n_def)
    moreover have "mem_ok s \<longrightarrow> mem_ok (s\<lparr>jobs := ?h, jobhead := a\<rparr>)"
      using m k(1) by (auto simp: mem_ok_def h_def split: if_splits)
    ultimately show ?thesis using k(2) c' a xs(3)
      by (intro exI [of _ "s\<lparr>jobs := ?h, jobhead := a\<rparr>"])
        (auto simp: queue_def linked_def job_frame_def intro!: exI [of _ "a # xs"])
  qed
qed

subsection \<open>Job numbers\<close>

definition next_no :: "32 word \<Rightarrow> 32 word" where
  "next_no w = (if sint (w + 1) \<le> 0 then 1 else w + 1)"

lemma get_newjobno_run:
  "\<not> joblock s \<Longrightarrow> get_newjobno s = Ok (nextjob s) (s\<lparr>nextjob := next_no (nextjob s)\<rparr>)"
  by (simp add: get_newjobno_def mutex_lock_def mutex_unlock_def bnd_def next_no_def)

text \<open>Positive numbers count from 1 to \<open>2 ^ 31 - 1\<close> and start again at 1.\<close>

lemma sint_next_no:
  assumes "0 < sint w"
  shows "sint (next_no w) = 1 + sint w mod (2 ^ 31 - 1)"
proof -
  have b: "sint w < 2 ^ 31" using sint_lt [of w] by simp
  have "w + 1 = word_of_int (sint w + 1)" by simp
  then have "sint (w + 1) = sint (word_of_int (sint w + 1) :: 32 word)" by (rule arg_cong)
  then have s1: "sint (w + 1) = signed_take_bit 31 (sint w + 1)" unfolding sint_sbintrunc' by simp
  show ?thesis
  proof (cases "sint w = 2 ^ 31 - 1")
    case True
    then have "sint (w + 1) = - (2 ^ 31)" using s1 by simp
    then show ?thesis using True by (simp add: next_no_def)
  next
    case False
    then have "sint (w + 1) = sint w + 1" using s1 b assms signed_take_bit_31_id [of "sint w + 1"] by simp
    then show ?thesis using False b assms by (simp add: next_no_def)
  qed
qed

text \<open>Consecutive calls.\<close>

fun new_jobnos :: "nat \<Rightarrow> ('z printd_scheme, 32 word list) prog" where
  "new_jobnos 0 = ret []"
| "new_jobnos (Suc k) = bnd get_newjobno (\<lambda>i. bnd (new_jobnos k) (\<lambda>is. ret (i # is)))"

definition nth_no :: "int \<Rightarrow> nat \<Rightarrow> int" where
  "nth_no n i = 1 + (n - 1 + int i) mod (2 ^ 31 - 1)"

lemma nth_no_Suc: "nth_no (1 + n mod (2 ^ 31 - 1)) i = nth_no n (Suc i)"
  by (simp add: nth_no_def mod_add_right_eq add.commute)

lemma new_jobnos_run:
  assumes "\<not> joblock s" and "0 < sint (nextjob s)"
  shows "\<exists>is. new_jobnos k s = Ok is (s\<lparr>nextjob := (next_no ^^ k) (nextjob s)\<rparr>) \<and>
    map sint is = map (nth_no (sint (nextjob s))) [0..<k]"
  using assms
proof (induction k arbitrary: s)
  case 0
  then show ?case by simp
next
  case (Suc k)
  let ?t = "s\<lparr>nextjob := next_no (nextjob s)\<rparr>"
  have s1: "sint (next_no (nextjob s)) = 1 + sint (nextjob s) mod (2 ^ 31 - 1)" by (rule sint_next_no [OF Suc.prems(2)])
  then have pos: "0 < sint (nextjob ?t)" by (simp add: add_pos_nonneg)
  from Suc.IH [of ?t] Suc.prems(1) pos obtain js where js: "new_jobnos k ?t = Ok js (?t\<lparr>nextjob := (next_no ^^ k) (nextjob ?t)\<rparr>)"
    "map sint js = map (nth_no (sint (nextjob ?t))) [0..<k]" by auto
  have "map sint (nextjob s # js) = map (nth_no (sint (nextjob s))) [0..<Suc k]"
  proof -
    have "sint (nextjob s) = nth_no (sint (nextjob s)) 0"
      using Suc.prems(2) sint_lt [of "nextjob s"] by (simp add: nth_no_def)
    moreover have "map (nth_no (sint (nextjob ?t))) [0..<k] = map (nth_no (sint (nextjob s)) \<circ> Suc) [0..<k]"
      using nth_no_Suc [of "sint (nextjob s)"] s1 by simp
    ultimately show ?thesis using js(2) by (simp only: upt_conv_Cons_Cons [symmetric] upt_rec [of 0 "Suc k"] map_Suc_upt [symmetric] list.map zero_less_Suc if_True map_map)
  qed
  then show ?case using get_newjobno_run [OF Suc.prems(1)] js(1)
    by (intro exI [of _ "nextjob s # js"]) (simp add: bnd_def funpow_swap1)
qed

lemma nth_no_distinct:
  assumes "k \<le> 2 ^ 31 - 1"
  shows "distinct (map (nth_no n) [0..<k])"
proof -
  have "i = j" if "nth_no n i = nth_no n j" "i < k" "j < k" for i j
  proof -
    have "(n - 1 + int i) mod (2 ^ 31 - 1) = (n - 1 + int j) mod (2 ^ 31 - 1)" using that(1) by (simp add: nth_no_def)
    then have "(2 ^ 31 - 1) dvd (int i - int j)" by (simp add: mod_eq_dvd_iff)
    moreover have "\<bar>int i - int j\<bar> < 2 ^ 31 - 1" using that(2,3) assms by simp
    ultimately show ?thesis using zdvd_imp_le [of "2 ^ 31 - 1" "\<bar>int i - int j\<bar>"] by auto
  qed
  then show ?thesis by (auto simp: distinct_map inj_on_def)
qed

subsection \<open>The job file\<close>

lemma update_jobno_run:
  assumes "k_faults s = []" and "k_ofd s (jobfd s) = Some d" and "writable d"
  shows "update_jobno s = Ok () (s\<lparr>
    k_data := (k_data s)(of_ino d := put_at (k_data s (of_ino d)) 0 (fmt_d (sint (nextjob s)))),
    k_ofd := (k_ofd s)(jobfd s \<mapsto> d\<lparr>of_pos := length (fmt_d (sint (nextjob s)))\<rparr>)\<rparr>)"
  using assms by (simp add: update_jobno_def bnd_def sys_lseek_def seek_base_def sys_write_def writable_def)

definition no_locks :: "nat \<Rightarrow> 'z kern_scheme \<Rightarrow> bool" where
  "no_locks ino s \<longleftrightarrow> (\<forall>l \<in> set (k_olocks s). ol_ino l \<noteq> ino)"

text \<open>What \<open>init_request\<close> makes of the bytes of the job file.\<close>

definition jobno_of :: "bytes \<Rightarrow> bytes \<Rightarrow> 32 word" where
  "jobno_of g bs = (if bs = [] then 1
     else word_of_int (atol (put_at (into_buf (take FILENMSZ g) jobfile_name) 0 (take FILENMSZ bs))))"

lemma jobfile_name_fits [simp]: "length jobfile_name < FILENMSZ"
  by (simp add: jobfile_name_def SPOOLDIR_def JOBFILE_def FILENMSZ_def)

lemma init_request_run:
  assumes "k_faults s = []" and "free_fd s = Some fd" and "k_dir s jobfile_name = Some ino" and "no_locks ino s"
  shows "\<exists>t. init_request s = Ok () t \<and> jobfd t = fd \<and> nextjob t = jobno_of (junk s) (k_data s ino) \<and>
    k_data t = k_data s \<and> k_dir t = k_dir s \<and> (\<forall>b. k_lock t ino b = F_WRLCK) \<and>
    (\<exists>d. k_ofd t fd = Some d \<and> of_ino d = ino \<and> writable d)"
proof -
  let ?d = "\<lparr>of_ino = ino, of_pos = 0, of_flags = {O_CREAT, O_RDWR}\<rparr>"
  let ?s = "s\<lparr>k_ofd := (k_ofd s)(fd \<mapsto> ?d), jobfd := fd\<rparr>"
  let ?L = "(k_lock s)(ino := set_range (0, None) F_WRLCK (k_lock s ino))"
  let ?bs = "take FILENMSZ (k_data s ino)"
  have op: "bnd (sys_open jobfile_name {O_CREAT, O_RDWR}) f s = f fd (s\<lparr>k_ofd := (k_ofd s)(fd \<mapsto> ?d)\<rparr>)" for f
    using assms by (simp add: bnd_def sys_open_def)
  have lk: "write_lock fd 0 SEEK_SET 0 ?s = Ok 0 (?s\<lparr>k_lock := ?L\<rparr>)"
    unfolding write_lock_def by (subst lock_reg_ok [of _ _ ?d]) (use assms(1,4) in \<open>auto simp: no_locks_def readable_def writable_def\<close>)
  have rd: "sys_read fd FILENMSZ (?s\<lparr>k_lock := ?L\<rparr>) = Ok (int (length ?bs), ?bs)
      (?s\<lparr>k_lock := ?L, k_ofd := (k_ofd s)(fd \<mapsto> ?d\<lparr>of_pos := length ?bs\<rparr>)\<rparr>)"
    using assms(1) by (simp add: sys_read_def readable_def get_at_0 Let_def)
  have e: "length ?bs = 0 \<longleftrightarrow> k_data s ino = []" by (auto simp: FILENMSZ_def min_def)
  define t where "t = ?s\<lparr>k_lock := ?L, k_ofd := (k_ofd s)(fd \<mapsto> ?d\<lparr>of_pos := length ?bs\<rparr>), nextjob := jobno_of (junk s) (k_data s ino)\<rparr>"
  have "init_request s = Ok () t"
    unfolding init_request_def sprintf_buf_def
    using e by (simp add: op lk rd bnd_Ok jobno_of_def t_def)
  then show ?thesis
    by (intro exI [of _ t]) (simp add: t_def set_range_def in_range_def writable_def)
qed

text \<open>A second daemon finds the lock taken and ends, with the file as it was.\<close>

lemma init_request_locked:
  assumes "k_faults s = []" and "free_fd s = Some fd" and "k_dir s jobfile_name = Some ino"
    and "l \<in> set (k_olocks s)" and "ol_ino l = ino" and "ol_to l = None \<or> ol_to l = Some (Suc b)"
  shows "\<exists>t. init_request s = Abort (Log_quit ''daemon already running'') t \<and> k_data t = k_data s \<and> k_dir t = k_dir s"
proof -
  let ?d = "\<lparr>of_ino = ino, of_pos = 0, of_flags = {O_CREAT, O_RDWR}\<rparr>"
  let ?s = "s\<lparr>k_ofd := (k_ofd s)(fd \<mapsto> ?d), jobfd := fd\<rparr>"
  have op: "bnd (sys_open jobfile_name {O_CREAT, O_RDWR}) f s = f fd (s\<lparr>k_ofd := (k_ofd s)(fd \<mapsto> ?d)\<rparr>)" for f
    using assms by (simp add: bnd_def sys_open_def)
  have "list_ex (conflicts ino F_WRLCK (0, None)) (k_olocks s)"
    using assms(4-6) by (auto simp: list_ex_iff conflicts_def range_meets_def)
  then have lk: "write_lock fd 0 SEEK_SET 0 ?s = Ok (-1) (?s\<lparr>k_errno := EAGAIN\<rparr>)"
    using assms(1) by (simp add: write_lock_def lock_reg_def sys_fcntl_lock_def lock_range_def seek_base_def writable_def Let_def)
  show ?thesis
    unfolding init_request_def sprintf_buf_def by (simp add: op lk bnd_Ok)
qed

text \<open>A number written by \<open>update_jobno\<close> reads back, when no digit of an older number is left behind it.\<close>

lemma jobno_of_fmt:
  assumes "n < 2 ^ 31" and "r = [] \<or> \<not> isdigit (hd r)"
  shows "jobno_of g (fmt_d (int n) @ r) = word_of_int (int n)"
proof -
  let ?f = "fmt_d (int n)" and ?buf = "into_buf (take FILENMSZ g) jobfile_name"
  have l: "length ?f \<le> 10" "0 < length ?f" using assms(1) by (auto intro!: length_fmt_d_nat)
  have b: "put_at ?buf 0 (take FILENMSZ (?f @ r)) = ?f @ take (FILENMSZ - length ?f) r @ drop (length (take FILENMSZ (?f @ r))) ?buf"
    using l by (simp add: put_at_def FILENMSZ_def)
  have "\<not> isdigit (hd (drop (length ?f) ?buf))"
  proof -
    have "\<forall>c \<in> set jobfile_name. \<not> isdigit c"
      by (simp add: jobfile_name_def SPOOLDIR_def JOBFILE_def isdigit_def)
    moreover have "length ?f < length jobfile_name" using l by (simp add: jobfile_name_def SPOOLDIR_def JOBFILE_def)
    ultimately show ?thesis by (simp add: into_buf_def hd_append hd_drop_conv_nth)
  qed
  moreover have "take (FILENMSZ - length ?f) r = [] \<longleftrightarrow> r = []" using l by (simp add: FILENMSZ_def)
  ultimately have nd: "\<not> isdigit (hd (take (FILENMSZ - length ?f) r @ drop (length (take FILENMSZ (?f @ r))) ?buf))"
    using assms(2) l by (cases r) (auto simp: FILENMSZ_def min_def)
  have "n < 2 ^ 63" using assms(1) by (rule less_le_trans) simp
  then have "atol (put_at ?buf 0 (take FILENMSZ (?f @ r))) = int n"
    unfolding b using nd by (intro atol_fmt_d) auto
  then show ?thesis by (simp add: jobno_of_def)
qed

end
