(* ===== verification/Print_Spool.thy ===== *)
theory Print_Spool
  imports Print_Jobs
begin

unbundle bit_operations_syntax

section \<open>Spooling: the threads that take jobs from clients (\<open>printer/printd.c\<close>)\<close>

text \<open>
  \<open>client_thread\<close> reads a request and a document from its socket, stores the document under \<open>data/\<close> and the
  request under \<open>reqs/\<close>, answers, and puts the job on the queue; every failure answers with an error and removes what was
  stored. \<open>build_qonstart\<close> puts the jobs found under \<open>reqs/\<close> on the queue when the daemon starts. The worker list
  (\<open>add_worker\<close>, \<open>client_cleanup\<close>, \<open>kill_workers\<close>) and \<open>signal_thread\<close> complete the side of the daemon that faces clients.

  A thread that calls \<open>pthread_exit\<close> or pops its cleanup handler runs \<open>client_cleanup\<close>; the body
  of \<open>client_thread\<close> is a routine with the exit code as its result, run before the handler. The loop that copies the document has as
  fuel one more than the number of bytes the socket still gives.
\<close>

definition spool_name :: "string \<Rightarrow> 32 word \<Rightarrow> string" where
  "spool_name dir jobid = SPOOLDIR @ ''/'' @ dir @ ''/'' @ fmt_d (sint jobid)"

subsection \<open>Answers\<close>

definition reject_res :: "(int \<Rightarrow> string) \<Rightarrow> int \<Rightarrow> printresp" where
  "reject_res strerr err =
     (let rc = htonl (word_of_int err)
      in \<lparr>rs_retcode = rc, rs_jobid = 0, rs_msg = strncpy (strerr (sint rc)) MSGLEN_MAX\<rparr>)"

definition send_reject :: "int \<Rightarrow> int \<Rightarrow> ('z printd_scheme, unit) prog" where
  "send_reject sockfd err =
     bnd (gets k_strerror) (\<lambda>strerr.
     bnd (writen sockfd (mem_printresp (reject_res strerr err))) (\<lambda>_. ret ()))"

definition log_reject :: "string \<Rightarrow> int \<Rightarrow> ('z printd_scheme, unit) prog" where
  "log_reject msg err =
     bnd (gets k_strerror) (\<lambda>strerr.
     log_msg (msg @ '': '' @ strerr (sint (htonl (word_of_int err)))))"

definition accept_res :: "bytes \<Rightarrow> 32 word \<Rightarrow> printresp" where
  "accept_res g jobid = \<lparr>rs_retcode = 0, rs_jobid = htonl jobid,
     rs_msg = into_buf (take MSGLEN_MAX g) (''request ID '' @ fmt_d (sint jobid))\<rparr>"

subsection \<open>Storing the document\<close>

text \<open>The first four bytes of the buffer, of which the read may have filled fewer.\<close>

definition looks_ps :: "bytes \<Rightarrow> bytes \<Rightarrow> bool" where
  "looks_ps g bs \<longleftrightarrow> take 4 (bs @ drop (length bs) g) = ''%!PS''"

fun store_loop :: "nat \<Rightarrow> int \<Rightarrow> int \<Rightarrow> bool \<Rightarrow> 32 word \<Rightarrow> ('z printd_scheme, 32 word \<times> int option) prog" where
  "store_loop 0 sockfd fd first flags = hang"
| "store_loop (Suc fuel) sockfd fd first flags =
     bnd (tread sockfd IOBUFSZ) (\<lambda>(nr, buf).
     if 0 < nr then
       bnd (gets junk) (\<lambda>g.
       bnd (ret (if first \<and> \<not> looks_ps g buf then flags OR PR_TEXT else flags)) (\<lambda>flags.
       bnd (sys_write fd buf) (\<lambda>nw.
       if nw \<noteq> nr then
         (if nw < 0 then bnd (gets k_errno) (\<lambda>e. ret (flags, Some e)) else ret (flags, Some EIO))
       else store_loop fuel sockfd fd False flags)))
     else ret (flags, None))"

definition pending :: "int \<Rightarrow> 'z net_scheme \<Rightarrow> nat" where
  "pending fd s = (case n_sock s fd of
      Some k \<Rightarrow> length (avail True (sk_in k))
    | None \<Rightarrow> (case k_ofd s fd of None \<Rightarrow> 0 | Some d \<Rightarrow> length (k_data s (of_ino d)) - of_pos d))"

subsection \<open>client_thread\<close>

definition store_control :: "int \<Rightarrow> printreq \<Rightarrow> 32 word \<Rightarrow> ('z printd_scheme, int) prog" where
  "store_control sockfd req jobid =
     (let nm = spool_name REQDIR jobid; datanm = spool_name DATADIR jobid in
     bnd (sys_creat nm) (\<lambda>fd.
     if fd < 0 then
       bnd (gets k_errno) (\<lambda>e.
       bnd (log_reject (''client_thread: can't create '' @ nm) e) (\<lambda>_.
       bnd (send_reject sockfd e) (\<lambda>_.
       bnd (sys_unlink datanm) (\<lambda>_.
       ret 1))))
     else
       bnd (sys_write fd (mem_printreq req)) (\<lambda>nw.
       if nw \<noteq> int sizeof_printreq then
         bnd (if nw < 0 then gets k_errno else ret EIO) (\<lambda>e.
         bnd (log_reject (''client_thread: can't write '' @ nm) e) (\<lambda>_.
         bnd (net_close fd) (\<lambda>_.
         bnd (send_reject sockfd e) (\<lambda>_.
         bnd (sys_unlink nm) (\<lambda>_.
         bnd (sys_unlink datanm) (\<lambda>_.
         ret 1))))))
       else
         bnd (net_close fd) (\<lambda>_.
         bnd (gets (\<lambda>s. accept_res (junk s) jobid)) (\<lambda>res.
         bnd (writen sockfd (mem_printresp res)) (\<lambda>_.
         bnd (log_msg (''adding job '' @ fmt_d (sint jobid) @ '' to queue'')) (\<lambda>_.
         bnd (add_job req jobid) (\<lambda>_.
         ret 0))))))))"

definition store_data :: "int \<Rightarrow> printreq \<Rightarrow> ('z printd_scheme, int) prog" where
  "store_data sockfd req =
     bnd get_newjobno (\<lambda>jobid.
     let nm = spool_name DATADIR jobid in
     bnd (sys_creat nm) (\<lambda>fd.
     if fd < 0 then
       bnd (gets k_errno) (\<lambda>e.
       bnd (log_reject (''client_thread: can't create '' @ nm) e) (\<lambda>_.
       bnd (send_reject sockfd e) (\<lambda>_.
       ret 1)))
     else
       bnd (gets (pending sockfd)) (\<lambda>n.
       bnd (store_loop (Suc n) sockfd fd True (pr_flags req)) (\<lambda>(flags, err).
       case err of
         Some e \<Rightarrow>
           bnd (log_reject (''client_thread: can't write '' @ nm) e) (\<lambda>_.
           bnd (net_close fd) (\<lambda>_.
           bnd (send_reject sockfd e) (\<lambda>_.
           bnd (sys_unlink nm) (\<lambda>_.
           ret 1))))
       | None \<Rightarrow>
           bnd (net_close fd) (\<lambda>_.
           store_control sockfd (req\<lparr>pr_flags := flags\<rparr>) jobid)))))"

definition client_body :: "int \<Rightarrow> ('z printd_scheme, int) prog" where
  "client_body sockfd =
     bnd (treadn sockfd sizeof_printreq) (\<lambda>(n, bs).
     if n \<noteq> int sizeof_printreq then
       bnd (if n < 0 then gets k_errno else ret EIO) (\<lambda>e.
       bnd (send_reject sockfd e) (\<lambda>_.
       ret 1))
     else
       (let r = of_mem_printreq bs
        in store_data sockfd (r\<lparr>pr_size := ntohl (pr_size r), pr_flags := ntohl (pr_flags r)\<rparr>)))"

text \<open>The worker list; \<open>False\<close>: the thread ends here.\<close>

definition add_worker :: "nat \<Rightarrow> int \<Rightarrow> ('z printd_scheme, bool) prog" where
  "add_worker tid sockfd =
     bnd malloc_worker (\<lambda>wtp.
     if wtp = 0 then bnd (log_ret ''add_worker: can't malloc'') (\<lambda>_. ret False)
     else
       bnd (worker_set wtp (\<lambda>w. w\<lparr>w_tid := tid\<rparr>)) (\<lambda>_.
       bnd (worker_set wtp (\<lambda>w. w\<lparr>w_sockfd := sockfd\<rparr>)) (\<lambda>_.
       bnd lock_workerlock (\<lambda>_.
       bnd (worker_set wtp (\<lambda>w. w\<lparr>w_prev := 0\<rparr>)) (\<lambda>_.
       bnd (gets workers) (\<lambda>ws.
       bnd (worker_set wtp (\<lambda>w. w\<lparr>w_next := ws\<rparr>)) (\<lambda>_.
       bnd (if ws = 0 then modify (\<lambda>s. s\<lparr>workers := wtp\<rparr>) else worker_set ws (\<lambda>w. w\<lparr>w_prev := wtp\<rparr>)) (\<lambda>_.
       bnd unlock_workerlock (\<lambda>_.
       ret True)))))))))"

text \<open>Following the list: fuel bounds the number of nodes visited, by the addresses given out so far.\<close>

fun find_worker :: "nat \<Rightarrow> nat \<Rightarrow> nat \<Rightarrow> ('z printd_scheme, nat) prog" where
  "find_worker 0 wtp tid = (if wtp = 0 then ret 0 else hang)"
| "find_worker (Suc fuel) wtp tid =
     (if wtp = 0 then ret 0
      else
        bnd (worker_get wtp w_tid) (\<lambda>t.
        if t = tid then ret wtp
        else bnd (worker_get wtp w_next) (\<lambda>nx. find_worker fuel nx tid)))"

definition client_cleanup :: "nat \<Rightarrow> ('z printd_scheme, unit) prog" where
  "client_cleanup tid =
     bnd lock_workerlock (\<lambda>_.
     bnd (gets workers) (\<lambda>ws.
     bnd (gets brk) (\<lambda>n.
     bnd (find_worker n ws tid) (\<lambda>wtp.
     bnd (if wtp = 0 then ret ()
          else
            bnd (worker_get wtp w_next) (\<lambda>nx.
            bnd (worker_get wtp w_prev) (\<lambda>pv.
            bnd (if nx \<noteq> 0 then worker_set nx (\<lambda>w. w\<lparr>w_prev := pv\<rparr>) else ret ()) (\<lambda>_.
            if pv \<noteq> 0 then worker_set pv (\<lambda>w. w\<lparr>w_next := nx\<rparr>)
            else modify (\<lambda>s. s\<lparr>workers := nx\<rparr>))))) (\<lambda>_.
     bnd unlock_workerlock (\<lambda>_.
     if wtp \<noteq> 0 then
       bnd (worker_get wtp w_sockfd) (\<lambda>fd.
       bnd (net_close fd) (\<lambda>_.
       free_worker wtp))
     else ret ()))))))"

fun cancel_workers :: "nat \<Rightarrow> nat \<Rightarrow> ('z printd_scheme, unit) prog" where
  "cancel_workers 0 wtp = (if wtp = 0 then ret () else hang)"
| "cancel_workers (Suc fuel) wtp =
     (if wtp = 0 then ret ()
      else
        bnd (worker_get wtp w_tid) (\<lambda>t.
        bnd (modify (\<lambda>s. s\<lparr>cancelled := cancelled s @ [t]\<rparr>)) (\<lambda>_.
        bnd (worker_get wtp w_next) (\<lambda>nx. cancel_workers fuel nx))))"

definition kill_workers :: "('z printd_scheme, unit) prog" where
  "kill_workers =
     bnd lock_workerlock (\<lambda>_.
     bnd (gets workers) (\<lambda>ws.
     bnd (gets brk) (\<lambda>n.
     bnd (cancel_workers n ws) (\<lambda>_.
     unlock_workerlock))))"

definition client_thread :: "nat \<Rightarrow> int \<Rightarrow> ('z printd_scheme, int) prog" where
  "client_thread tid sockfd =
     bnd (bnd (add_worker tid sockfd) (\<lambda>go. if go then client_body sockfd else ret 1)) (\<lambda>rc.
     bnd (client_cleanup tid) (\<lambda>_.
     ret rc))"

subsection \<open>signal_thread\<close>

datatype signo = SIGHUP | SIGTERM | Other_sig nat

text \<open>One pass of the loop, with the result of \<open>sigwait\<close>: an error number or a signal.\<close>

definition signal_pass :: "int + signo \<Rightarrow> string \<Rightarrow> ('z printd_scheme, unit) prog" where
  "signal_pass r strsig = (case r of
      Inl err \<Rightarrow> bnd (gets k_strerror) (\<lambda>se. log_quit (''sigwait failed: '' @ se err))
    | Inr SIGHUP \<Rightarrow>
        bnd lock_configlock (\<lambda>_.
        bnd (modify (\<lambda>s. s\<lparr>reread := True\<rparr>)) (\<lambda>_.
        unlock_configlock))
    | Inr SIGTERM \<Rightarrow>
        bnd kill_workers (\<lambda>_.
        bnd (log_msg (''terminate with signal '' @ strsig)) (\<lambda>_.
        halt (Exit 0)))
    | Inr (Other_sig n) \<Rightarrow>
        bnd kill_workers (\<lambda>_.
        log_quit (''unexpected signal '' @ fmt_d (int n))))"

fun signal_thread :: "((int + signo) \<times> string) list \<Rightarrow> ('z printd_scheme, unit) prog" where
  "signal_thread [] = hang"
| "signal_thread ((r, strsig) # rs) = bnd (signal_pass r strsig) (\<lambda>_. signal_thread rs)"

subsection \<open>build_qonstart\<close>

definition req_path :: "string \<Rightarrow> string \<Rightarrow> string" where
  "req_path dir d_name = SPOOLDIR @ ''/'' @ dir @ ''/'' @ d_name"

definition qonstart_entry :: "string \<Rightarrow> ('z printd_scheme, unit) prog" where
  "qonstart_entry d_name =
     (if d_name = ''.'' \<or> d_name = ''..'' then ret ()
      else
        bnd (sprintf_buf FILENMSZ (req_path REQDIR d_name)) (\<lambda>fname.
        bnd (sys_open fname {}) (\<lambda>fd.
        if fd < 0 then ret ()
        else
          bnd (sys_read fd sizeof_printreq) (\<lambda>(nr, bs).
          if nr \<noteq> int sizeof_printreq then
            bnd (if nr < 0 then gets k_errno else ret EIO) (\<lambda>err.
            bnd (net_close fd) (\<lambda>_.
            bnd (gets k_strerror) (\<lambda>se.
            bnd (log_msg (''build_qonstart: can't read '' @ fname @ '': '' @ se err)) (\<lambda>_.
            bnd (sys_unlink fname) (\<lambda>_.
            bnd (sprintf_buf FILENMSZ (req_path DATADIR d_name)) (\<lambda>fname.
            bnd (sys_unlink fname) (\<lambda>_.
            ret ())))))))
          else
            bnd (ret (word_of_int (atol d_name))) (\<lambda>jobid.
            bnd (log_msg (''adding job '' @ fmt_d (sint jobid) @ '' to queue'')) (\<lambda>_.
            add_job (of_mem_printreq bs) jobid))))))"

fun qonstart_loop :: "string list \<Rightarrow> ('z printd_scheme, unit) prog" where
  "qonstart_loop [] = ret ()"
| "qonstart_loop (d # ds) = bnd (qonstart_entry d) (\<lambda>_. qonstart_loop ds)"

definition build_qonstart :: "('z printd_scheme, unit) prog" where
  "build_qonstart =
     bnd (gets req_entries) (\<lambda>dir.
     case dir of None \<Rightarrow> ret () | Some entries \<Rightarrow> qonstart_loop entries)"

subsection \<open>Running the calls\<close>

lemma put_log_printd [simp]:
  fixes s :: "'z printd_scheme"
  shows "n_sock (put_log l s) = n_sock s" "n_closed (put_log l s) = n_closed s" "junk (put_log l s) = junk s"
    "jobs (put_log l s) = jobs s" "wthreads (put_log l s) = wthreads s" "brk (put_log l s) = brk s"
    "jobhead (put_log l s) = jobhead s" "jobtail (put_log l s) = jobtail s" "joblock (put_log l s) = joblock s"
    "workers (put_log l s) = workers s" "workerlock (put_log l s) = workerlock s" "nextjob (put_log l s) = nextjob s"
    "n_conn (put_log l s) = n_conn s" "jobfd (put_log l s) = jobfd s" "n_gai (put_log l s) = n_gai s"
    "configlock (put_log l s) = configlock s" "reread (put_log l s) = reread s"
    "printer (put_log l s) = printer s" "printer_name (put_log l s) = printer_name s" "jobwait (put_log l s) = jobwait s"
  by (simp_all add: put_log_def)

lemma put_log_queue [simp]:
  fixes s :: "'z printd_scheme"
  shows "queue (put_log l s) js = queue s js" "mem_ok (put_log l s) = mem_ok s"
  by (simp_all add: queue_def linked_def mem_ok_def)

lemma job_frameD:
  assumes "job_frame t = job_frame s"
  shows "k_dir t = k_dir s" "k_data t = k_data s" "k_nino t = k_nino s" "k_ofd t = k_ofd s" "k_maxfd t = k_maxfd s"
    "k_faults t = k_faults s" "n_sock t = n_sock s" "n_closed t = n_closed s" "wthreads t = wthreads s" "workers t = workers s"
    "workerlock t = workerlock s" "joblock t = joblock s" "nextjob t = nextjob s" "jobfd t = jobfd s" "junk t = junk s"
    "k_strerror t = k_strerror s"
  using assms by (cases s; cases t; simp add: job_frame_def)+

lemma free_fd_cong: "k_ofd t = k_ofd s \<Longrightarrow> k_maxfd t = k_maxfd s \<Longrightarrow> free_fd t = free_fd s"
  by (simp add: free_fd_def)

lemma sys_creat_new:
  assumes "k_faults s = []" and "free_fd s = Some fd" and "k_dir s nm = None"
  shows "sys_creat nm s = Ok fd (s\<lparr>k_dir := (k_dir s)(nm \<mapsto> k_nino s), k_data := (k_data s)(k_nino s := []),
    k_nino := Suc (k_nino s), k_ofd := (k_ofd s)(fd \<mapsto> \<lparr>of_ino = k_nino s, of_pos = 0, of_flags = {O_WRONLY, O_CREAT, O_TRUNC}\<rparr>)\<rparr>)"
  using assms by (simp add: sys_creat_def sys_open_def)

lemma net_close_file:
  assumes "k_faults s = []" and "k_ofd s fd = Some d" and "n_sock s fd = None"
  shows "net_close fd s = Ok 0 (s\<lparr>k_ofd := (k_ofd s)(fd := None), k_lock := (k_lock s)(of_ino d := (\<lambda>_. F_UNLCK))\<rparr>)"
proof -
  have "(n_sock s)(fd := None) = n_sock s" using assms(3) by auto
  then show ?thesis using assms by (simp add: net_close_def sys_close_def bnd_def)
qed

lemma sys_write_end:
  assumes "k_faults s = []" and "k_ofd s fd = Some d" and "writable d" and "of_pos d = length (k_data s (of_ino d))"
  shows "sys_write fd bs s = Ok (int (length bs)) (s\<lparr>k_data := (k_data s)(of_ino d := k_data s (of_ino d) @ bs),
    k_ofd := (k_ofd s)(fd \<mapsto> d\<lparr>of_pos := of_pos d + length bs\<rparr>)\<rparr>)"
  using assms by (simp add: sys_write_def put_at_end)

subsection \<open>The document arrives whole\<close>

definition text_flag :: "bytes \<Rightarrow> bytes \<Rightarrow> nat \<Rightarrow> 32 word \<Rightarrow> 32 word" where
  "text_flag g data i flags = (if data \<noteq> [] \<and> \<not> looks_ps g (take i data) then flags OR PR_TEXT else flags)"

lemma store_loop_run:
  assumes "n_sock s sockfd = Some k" and "k_faults s = []" and "k_ofd s fd = Some d" and "writable d"
    and "of_pos d = length (k_data s (of_ino d))" and "length (avail True (sk_in k)) < fuel"
  shows "\<exists>i e r. store_loop fuel sockfd fd first flags s =
    Ok (if first then text_flag (junk s) (avail True (sk_in k)) i flags else flags, None)
      (s\<lparr>k_errno := e, n_sock := (n_sock s)(sockfd \<mapsto> k\<lparr>sk_in := r\<rparr>),
         k_data := (k_data s)(of_ino d := k_data s (of_ino d) @ avail True (sk_in k)),
         k_ofd := (k_ofd s)(fd \<mapsto> d\<lparr>of_pos := of_pos d + length (avail True (sk_in k))\<rparr>)\<rparr>) \<and>
    (avail True (sk_in k) \<noteq> [] \<longrightarrow> 0 < i)"
  using assms
proof (induction fuel arbitrary: s k d first flags)
  case 0
  then show ?case by simp
next
  case (Suc fuel)
  have io: "0 < IOBUFSZ" by (simp add: IOBUFSZ_def)
  show ?case
  proof (cases "avail True (sk_in k) = []")
    case True
    from tread_end [OF Suc.prems(1) True io] obtain j e r where
      "tread sockfd IOBUFSZ s = Ok (j, []) (s\<lparr>k_errno := e, n_sock := (n_sock s)(sockfd \<mapsto> k\<lparr>sk_in := r\<rparr>)\<rparr>)" "j \<le> 0" by blast
    moreover have "(k_ofd s)(fd \<mapsto> d) = k_ofd s" using Suc.prems(3) by auto
    ultimately show ?thesis using True
      by (intro exI [of _ "0::nat"] exI [of _ e] exI [of _ r]) (simp add: bnd_def text_flag_def, simp add: fun_upd_def)
  next
    case False
    from tread_piece [OF Suc.prems(1) False io] obtain i e r where i: "0 < i" "i \<le> length (avail True (sk_in k))"
      "avail True r = drop i (avail True (sk_in k))" and
      rd: "tread sockfd IOBUFSZ s = Ok (int i, take i (avail True (sk_in k))) (s\<lparr>k_errno := e, n_sock := (n_sock s)(sockfd \<mapsto> k\<lparr>sk_in := r\<rparr>)\<rparr>)"
      by blast
    define a where "a = avail True (sk_in k)"
    define fl where "fl = (if first \<and> \<not> looks_ps (junk s) (take i a) then flags OR PR_TEXT else flags)"
    define t where "t = s\<lparr>k_errno := e, n_sock := (n_sock s)(sockfd \<mapsto> k\<lparr>sk_in := r\<rparr>),
      k_data := (k_data s)(of_ino d := k_data s (of_ino d) @ take i a),
      k_ofd := (k_ofd s)(fd \<mapsto> d\<lparr>of_pos := of_pos d + i\<rparr>)\<rparr>"
    have step: "store_loop (Suc fuel) sockfd fd first flags s = store_loop fuel sockfd fd False fl t"
      using rd i Suc.prems sys_write_end [of "s\<lparr>k_errno := e, n_sock := (n_sock s)(sockfd \<mapsto> k\<lparr>sk_in := r\<rparr>)\<rparr>" fd d "take i a"]
      by (simp add: bnd_def fl_def t_def a_def)
    have "\<exists>i' e' r'. store_loop fuel sockfd fd False fl t =
      Ok (if False then text_flag (junk t) (avail True (sk_in (k\<lparr>sk_in := r\<rparr>))) i' fl else fl, None)
      (t\<lparr>k_errno := e', n_sock := (n_sock t)(sockfd \<mapsto> k\<lparr>sk_in := r\<rparr>\<lparr>sk_in := r'\<rparr>),
         k_data := (k_data t)(of_ino (d\<lparr>of_pos := of_pos d + i\<rparr>) := k_data t (of_ino (d\<lparr>of_pos := of_pos d + i\<rparr>)) @ avail True (sk_in (k\<lparr>sk_in := r\<rparr>))),
         k_ofd := (k_ofd t)(fd \<mapsto> d\<lparr>of_pos := of_pos d + i\<rparr>\<lparr>of_pos := of_pos (d\<lparr>of_pos := of_pos d + i\<rparr>) + length (avail True (sk_in (k\<lparr>sk_in := r\<rparr>)))\<rparr>)\<rparr>) \<and>
      (avail True (sk_in (k\<lparr>sk_in := r\<rparr>)) \<noteq> [] \<longrightarrow> 0 < i')"
      using Suc.prems i by (intro Suc.IH) (simp_all add: t_def writable_def a_def)
    then obtain e' r' where u: "store_loop fuel sockfd fd False fl t = Ok (fl, None)
      (t\<lparr>k_errno := e', n_sock := (n_sock t)(sockfd \<mapsto> k\<lparr>sk_in := r'\<rparr>),
         k_data := (k_data t)(of_ino d := k_data t (of_ino d) @ drop i a),
         k_ofd := (k_ofd t)(fd \<mapsto> d\<lparr>of_pos := of_pos d + i + length (drop i a)\<rparr>)\<rparr>)"
      using i(3) by (auto simp: a_def)
    have "of_pos d + i + length (drop i a) = of_pos d + length a" using i(2) by (simp add: a_def)
    then have "store_loop fuel sockfd fd False fl t = Ok (fl, None)
      (s\<lparr>k_errno := e', n_sock := (n_sock s)(sockfd \<mapsto> k\<lparr>sk_in := r'\<rparr>),
         k_data := (k_data s)(of_ino d := k_data s (of_ino d) @ a),
         k_ofd := (k_ofd s)(fd \<mapsto> d\<lparr>of_pos := of_pos d + length a\<rparr>)\<rparr>)"
      unfolding u by (simp add: t_def)
    moreover have "fl = (if first then text_flag (junk s) a i flags else flags)"
      using False by (simp add: fl_def text_flag_def a_def)
    ultimately have "store_loop (Suc fuel) sockfd fd first flags s =
      Ok (if first then text_flag (junk s) (avail True (sk_in k)) i flags else flags, None)
      (s\<lparr>k_errno := e', n_sock := (n_sock s)(sockfd \<mapsto> k\<lparr>sk_in := r'\<rparr>),
         k_data := (k_data s)(of_ino d := k_data s (of_ino d) @ avail True (sk_in k)),
         k_ofd := (k_ofd s)(fd \<mapsto> d\<lparr>of_pos := of_pos d + length (avail True (sk_in k))\<rparr>)\<rparr>)"
      using step unfolding a_def by simp
    then show ?thesis using i(1) by blast
  qed
qed

subsection \<open>A job is accepted\<close>

definition spool_ok :: "int \<Rightarrow> sock \<Rightarrow> int \<Rightarrow> 'z printd_scheme \<Rightarrow> bool" where
  "spool_ok sockfd k f s \<longleftrightarrow> n_sock s sockfd = Some k \<and> smooth (sk_wr k) \<and> free_slot f s \<and> \<not> joblock s \<and> mem_ok s"

definition worker_view :: "'z printd_scheme \<Rightarrow> worker_thread heap \<times> nat \<times> bool \<times> bool \<times> int option list \<times> sock list" where
  "worker_view s = (wthreads s, workers s, workerlock s, joblock s, k_faults s, n_closed s)"

lemma queue_cong: "jobs t = jobs s \<Longrightarrow> jobhead t = jobhead s \<Longrightarrow> jobtail t = jobtail s \<Longrightarrow> queue t js = queue s js"
  by (simp add: queue_def linked_def)

lemma mem_ok_cong: "jobs t = jobs s \<Longrightarrow> wthreads t = wthreads s \<Longrightarrow> brk t = brk s \<Longrightarrow> mem_ok t = mem_ok s"
  by (simp add: mem_ok_def)

lemma store_control_run:
  assumes sp: "spool_ok sockfd k f s" and q: "queue s js" and r: "req_ok req" and new: "k_dir s (spool_name REQDIR i) = None"
  shows "\<exists>t w. store_control sockfd req i s = Ok 0 t \<and> queue t (js @ [(i, req)]) \<and> mem_ok t \<and>
    k_dir t = (k_dir s)(spool_name REQDIR i \<mapsto> k_nino s) \<and> k_data t = (k_data s)(k_nino s := mem_printreq req) \<and>
    n_sock t = (n_sock s)(sockfd \<mapsto> k\<lparr>sk_wr := w, sk_out := sk_out k @ mem_printresp (accept_res (junk s) i)\<rparr>) \<and>
    k_ofd t = k_ofd s \<and> worker_view t = worker_view s \<and> nextjob t = nextjob s"
proof -
  let ?nm = "spool_name REQDIR i" and ?d = "\<lparr>of_ino = k_nino s, of_pos = 0, of_flags = {O_WRONLY, O_CREAT, O_TRUNC}\<rparr>"
  let ?res = "mem_printresp (accept_res (junk s) i)"
  from sp have k: "n_sock s sockfd = Some k" "smooth (sk_wr k)" and f: "k_faults s = []" "free_fd s = Some f" "n_sock s f = None"
    and jl: "\<not> joblock s" and m: "mem_ok s" by (simp_all add: spool_ok_def free_slot_def)
  have fd: "k_ofd s f = None" "0 \<le> f" using free_fd_Some [OF f(2)] by simp_all
  define s2 where "s2 = s\<lparr>k_dir := (k_dir s)(?nm \<mapsto> k_nino s), k_data := (k_data s)(k_nino s := mem_printreq req),
    k_nino := Suc (k_nino s), k_ofd := (k_ofd s)(f \<mapsto> ?d\<lparr>of_pos := sizeof_printreq\<rparr>)\<rparr>"
  define s3 where "s3 = s2\<lparr>k_ofd := k_ofd s, k_lock := (k_lock s)(k_nino s := (\<lambda>_. F_UNLCK))\<rparr>"
  have wr: "bnd (sys_creat ?nm) (\<lambda>fd. bnd (sys_write fd (mem_printreq req)) (\<lambda>n. ret (fd, n))) s = Ok (f, int sizeof_printreq) s2"
    using f new r by (simp add: bnd_def sys_creat_new sys_write_def writable_def put_at_def s2_def)
  have bk: "(k_ofd s)(f := None) = k_ofd s" using fd(1) by auto
  have cl: "net_close f s2 = Ok 0 s3"
    using f net_close_file [of s2 f "?d\<lparr>of_pos := sizeof_printreq\<rparr>"] bk by (simp add: s2_def s3_def)
  have k3: "n_sock s3 sockfd = Some k" "junk s3 = junk s" using k by (simp_all add: s3_def s2_def)
  obtain e w where w: "writen sockfd ?res s3 = Ok (int (length ?res))
      (s3\<lparr>k_errno := e, n_sock := (n_sock s3)(sockfd \<mapsto> k\<lparr>sk_wr := w, sk_out := sk_out k @ ?res\<rparr>)\<rparr>)"
    using writen_all [OF k3(1) k(2)] by blast
  define s5 where "s5 = put_log (err_line False (k_strerror s 0) (''adding job '' @ fmt_d (sint i) @ '' to queue''))
      (s3\<lparr>k_errno := e, n_sock := (n_sock s3)(sockfd \<mapsto> k\<lparr>sk_wr := w, sk_out := sk_out k @ ?res\<rparr>)\<rparr>)"
  have s5: "k_faults s5 = []" "\<not> joblock s5" "mem_ok s5" "queue s5 js"
    using f jl m q by (simp_all add: s5_def s3_def s2_def mem_ok_def queue_def linked_def)
  from add_job_queue [OF s5] obtain t where t: "add_job req i s5 = Ok () t" "queue t (js @ [(i, req)])" "mem_ok t"
    "job_frame t = job_frame s5" by blast
  have "store_control sockfd req i s = Ok 0 t"
    using wr cl w t(1) f new r fd(2) unfolding store_control_def Let_def
    by (auto simp: bnd_def s5_def k3 sys_creat_new s3_def s2_def split: outcome.splits)
  moreover note t(2,3) job_frameD [OF t(4)]
  moreover have "worker_view t = worker_view s" using job_frameD [OF t(4)] by (simp add: worker_view_def s5_def s3_def s2_def)
  ultimately show ?thesis by (intro exI [of _ t] exI [of _ w]) (simp add: s5_def s3_def s2_def)
qed

lemma spool_name_neq: "spool_name DATADIR i \<noteq> spool_name REQDIR i"
  by (simp add: spool_name_def DATADIR_def REQDIR_def)

lemma store_data_run:
  fixes s :: "'z printd_scheme"
  defines "i \<equiv> nextjob s"
  assumes sp: "spool_ok sockfd k f s" and q: "queue s js" and r: "req_ok req"
    and new: "k_dir s (spool_name DATADIR i) = None" "k_dir s (spool_name REQDIR i) = None"
  defines "data \<equiv> avail True (sk_in k)"
  shows "\<exists>t w j u. store_data sockfd req s = Ok 0 t \<and> (data \<noteq> [] \<longrightarrow> 0 < j) \<and>
    queue t (js @ [(i, req\<lparr>pr_flags := text_flag (junk s) data j (pr_flags req)\<rparr>)]) \<and> mem_ok t \<and>
    k_dir t = (k_dir s)(spool_name DATADIR i \<mapsto> k_nino s, spool_name REQDIR i \<mapsto> Suc (k_nino s)) \<and>
    k_data t = (k_data s)(k_nino s := data,
      Suc (k_nino s) := mem_printreq (req\<lparr>pr_flags := text_flag (junk s) data j (pr_flags req)\<rparr>)) \<and>
    n_sock t = (n_sock s)(sockfd \<mapsto> k\<lparr>sk_in := u, sk_wr := w, sk_out := sk_out k @ mem_printresp (accept_res (junk s) i)\<rparr>) \<and>
    k_ofd t = k_ofd s \<and> worker_view t = worker_view s \<and> nextjob t = next_no i"
proof -
  let ?d = "\<lparr>of_ino = k_nino s, of_pos = 0, of_flags = {O_WRONLY, O_CREAT, O_TRUNC}\<rparr>"
  from sp have k: "n_sock s sockfd = Some k" "smooth (sk_wr k)" and f: "k_faults s = []" "free_fd s = Some f" "n_sock s f = None"
    and jl: "\<not> joblock s" and m: "mem_ok s" by (simp_all add: spool_ok_def free_slot_def)
  have fd: "k_ofd s f = None" "0 \<le> f" "f \<noteq> sockfd" using free_fd_Some [OF f(2)] f(3) k(1) by auto
  define s2 where "s2 = s\<lparr>nextjob := next_no i, k_dir := (k_dir s)(spool_name DATADIR i \<mapsto> k_nino s),
    k_data := (k_data s)(k_nino s := []), k_nino := Suc (k_nino s), k_ofd := (k_ofd s)(f \<mapsto> ?d)\<rparr>"
  have cr: "sys_creat (spool_name DATADIR i) (s\<lparr>nextjob := next_no i\<rparr>) = Ok f s2"
    using f new(1) free_fd_cong [of "s\<lparr>nextjob := next_no i\<rparr>" s] by (subst sys_creat_new) (simp_all add: s2_def)
  have s2: "n_sock s2 sockfd = Some k" "k_faults s2 = []" "k_ofd s2 f = Some ?d" "writable ?d"
    "of_pos ?d = length (k_data s2 (of_ino ?d))" "length (avail True (sk_in k)) < Suc (pending sockfd s2)"
    using k f by (simp_all add: s2_def writable_def pending_def)
  from store_loop_run [OF s2, of True "pr_flags req"] obtain j e u where lp:
    "store_loop (Suc (pending sockfd s2)) sockfd f True (pr_flags req) s2 =
      Ok (text_flag (junk s) data j (pr_flags req), None)
      (s2\<lparr>k_errno := e, n_sock := (n_sock s)(sockfd \<mapsto> k\<lparr>sk_in := u\<rparr>), k_data := (k_data s)(k_nino s := data),
         k_ofd := (k_ofd s)(f \<mapsto> ?d\<lparr>of_pos := length data\<rparr>)\<rparr>)" and j: "data \<noteq> [] \<longrightarrow> 0 < j"
    unfolding data_def by (auto simp: s2_def)
  define s3 where "s3 = s2\<lparr>k_errno := e, n_sock := (n_sock s)(sockfd \<mapsto> k\<lparr>sk_in := u\<rparr>), k_data := (k_data s)(k_nino s := data),
         k_ofd := (k_ofd s)(f \<mapsto> ?d\<lparr>of_pos := length data\<rparr>)\<rparr>"
  have bk: "(k_ofd s)(f := None) = k_ofd s" using fd(1) by auto
  define s4 where "s4 = s3\<lparr>k_ofd := k_ofd s, k_lock := (k_lock s)(k_nino s := (\<lambda>_. F_UNLCK))\<rparr>"
  have cl: "net_close f s3 = Ok 0 s4"
    using f fd net_close_file [of s3 f "?d\<lparr>of_pos := length data\<rparr>"] bk by (simp add: s2_def s3_def s4_def)
  define req' where "req' = req\<lparr>pr_flags := text_flag (junk s) data j (pr_flags req)\<rparr>"
  have run: "store_data sockfd req s = store_control sockfd req' i s4"
    unfolding store_data_def Let_def
    by (simp add: bnd_def get_newjobno_run [OF jl] i_def [symmetric] cr leD [OF fd(2)] lp [unfolded s3_def [symmetric]] cl req'_def
        del: store_loop.simps)
  have "free_fd s4 = free_fd s" by (intro free_fd_cong) (simp_all add: s4_def s3_def s2_def)
  moreover have "mem_ok s4 = mem_ok s" by (intro mem_ok_cong) (simp_all add: s4_def s3_def s2_def)
  ultimately have sp4: "spool_ok sockfd (k\<lparr>sk_in := u\<rparr>) f s4" "queue s4 js" "req_ok req'" "k_dir s4 (spool_name REQDIR i) = None"
    using k f fd jl m q r new spool_name_neq [of i]
    by (auto simp: spool_ok_def free_slot_def s4_def s3_def s2_def queue_def linked_def req_ok_def req'_def)
  have v: "worker_view s4 = worker_view s" "k_nino s4 = Suc (k_nino s)" "junk s4 = junk s"
    by (simp_all add: worker_view_def s4_def s3_def s2_def)
  from store_control_run [OF sp4] obtain t w where t: "store_control sockfd req' i s4 = Ok 0 t" "queue t (js @ [(i, req')])" "mem_ok t"
    "k_dir t = (k_dir s4)(spool_name REQDIR i \<mapsto> k_nino s4)" "k_data t = (k_data s4)(k_nino s4 := mem_printreq req')"
    "n_sock t = (n_sock s4)(sockfd \<mapsto> k\<lparr>sk_in := u\<rparr>\<lparr>sk_wr := w, sk_out := sk_out (k\<lparr>sk_in := u\<rparr>) @ mem_printresp (accept_res (junk s4) i)\<rparr>)"
    "k_ofd t = k_ofd s4" "worker_view t = worker_view s4" "nextjob t = nextjob s4" by blast
  show ?thesis using run t v j unfolding req'_def
    by (intro exI [of _ t] exI [of _ w] exI [of _ j] exI [of _ u]) (auto simp: s4_def s3_def s2_def)
qed

lemma client_body_run:
  fixes s :: "'z printd_scheme"
  defines "i \<equiv> nextjob s"
  assumes sp: "spool_ok sockfd k f s" and q: "queue s js" and r: "req_ok req"
    and new: "k_dir s (spool_name DATADIR i) = None" "k_dir s (spool_name REQDIR i) = None"
    and sent: "avail True (sk_in k) = mem_printreq (req\<lparr>pr_size := htonl (pr_size req), pr_flags := htonl (pr_flags req)\<rparr>) @ data"
  shows "\<exists>t w j u. client_body sockfd s = Ok 0 t \<and> (data \<noteq> [] \<longrightarrow> 0 < j) \<and>
    queue t (js @ [(i, req\<lparr>pr_flags := text_flag (junk s) data j (pr_flags req)\<rparr>)]) \<and> mem_ok t \<and>
    k_dir t = (k_dir s)(spool_name DATADIR i \<mapsto> k_nino s, spool_name REQDIR i \<mapsto> Suc (k_nino s)) \<and>
    k_data t = (k_data s)(k_nino s := data,
      Suc (k_nino s) := mem_printreq (req\<lparr>pr_flags := text_flag (junk s) data j (pr_flags req)\<rparr>)) \<and>
    n_sock t = (n_sock s)(sockfd \<mapsto> k\<lparr>sk_in := u, sk_wr := w, sk_out := sk_out k @ mem_printresp (accept_res (junk s) i)\<rparr>) \<and>
    k_ofd t = k_ofd s \<and> worker_view t = worker_view s \<and> nextjob t = next_no i"
proof -
  let ?net = "req\<lparr>pr_size := htonl (pr_size req), pr_flags := htonl (pr_flags req)\<rparr>"
  have ok: "req_ok ?net" using r by (simp add: req_ok_def)
  then have len: "length (mem_printreq ?net) = sizeof_printreq" by simp
  have k: "n_sock s sockfd = Some k" using sp by (simp add: spool_ok_def)
  from treadn_whole [OF k, of sizeof_printreq] sent len obtain e u where rd:
    "treadn sockfd sizeof_printreq s = Ok (int sizeof_printreq, mem_printreq ?net) (s\<lparr>k_errno := e, n_sock := (n_sock s)(sockfd \<mapsto> k\<lparr>sk_in := u\<rparr>)\<rparr>)"
    "avail True u = data" by auto
  define s1 where "s1 = s\<lparr>k_errno := e, n_sock := (n_sock s)(sockfd \<mapsto> k\<lparr>sk_in := u\<rparr>)\<rparr>"
  have run: "client_body sockfd s = store_data sockfd req s1"
    unfolding client_body_def using rd(1) ok by (simp add: bnd_def s1_def Let_def)
  have "free_fd s1 = free_fd s" by (intro free_fd_cong) (simp_all add: s1_def)
  then have sp1: "spool_ok sockfd (k\<lparr>sk_in := u\<rparr>) f s1" "queue s1 js" "nextjob s1 = i"
    "k_dir s1 (spool_name DATADIR i) = None" "k_dir s1 (spool_name REQDIR i) = None"
    using sp q new by (auto simp: spool_ok_def free_slot_def s1_def mem_ok_def queue_def linked_def i_def)
  show ?thesis
    using store_data_run [OF sp1(1,2) r] sp1(3-5) rd(2) unfolding run
    by (simp add: s1_def worker_view_def)
qed

subsection \<open>A whole client thread\<close>

lemma worker_get_run [simp]: "wthreads s a = Some w \<Longrightarrow> a \<noteq> 0 \<Longrightarrow> worker_get a g s = Ok (g w) s"
  by (simp add: worker_get_def)

lemma worker_set_run [simp]:
  "wthreads s a = Some w \<Longrightarrow> a \<noteq> 0 \<Longrightarrow> worker_set a g s = Ok () (s\<lparr>wthreads := (wthreads s)(a \<mapsto> g w)\<rparr>)"
  by (simp add: worker_set_def)

lemmas worker_run = mutex_lock_def mutex_unlock_def bnd_def malloc_worker_def free_worker_def

lemma add_worker_run:
  assumes "k_faults s = []" and "mem_ok s" and "workers s = 0" and "\<not> workerlock s"
  shows "\<exists>w. add_worker tid fd s = Ok True (s\<lparr>brk := Suc (brk s), wthreads := (wthreads s)(brk s \<mapsto> w), workers := brk s\<rparr>) \<and>
    w_tid w = tid \<and> w_sockfd w = fd \<and> w_next w = 0 \<and> w_prev w = 0"
  using assms
  by (intro exI [of _ "(junk_worker s)\<lparr>w_tid := tid, w_sockfd := fd, w_prev := 0, w_next := 0\<rparr>"])
    (simp add: add_worker_def worker_run mem_ok_def)

lemma client_cleanup_run:
  assumes "k_faults s = []" and "\<not> workerlock s" and "workers s = a" and "a \<noteq> 0" and "0 < brk s"
    and "wthreads s a = Some w" and "w_tid w = tid" and "w_next w = 0" and "w_prev w = 0"
    and "w_sockfd w = fd" and "n_sock s fd = Some k" and "k_ofd s fd = Some d"
  shows "client_cleanup tid s = Ok () (s\<lparr>workers := 0, wthreads := (wthreads s)(a := None), k_ofd := (k_ofd s)(fd := None),
    k_lock := (k_lock s)(of_ino d := (\<lambda>_. F_UNLCK)), n_sock := (n_sock s)(fd := None), n_closed := n_closed s @ [k]\<rparr>)"
proof -
  obtain n where n: "brk s = Suc n" using assms(5) by (cases "brk s") auto
  show ?thesis using assms n
    by (simp add: client_cleanup_def worker_run net_close_def sys_close_def)
qed

lemma free_slot_cong: "k_faults t = k_faults s \<Longrightarrow> k_ofd t = k_ofd s \<Longrightarrow> k_maxfd t = k_maxfd s \<Longrightarrow> n_sock t f = n_sock s f \<Longrightarrow>
    free_slot f t = free_slot f s"
  by (simp add: free_slot_def free_fd_def)

lemma client_thread_run:
  fixes s :: "'z printd_scheme"
  defines "i \<equiv> nextjob s"
  assumes sp: "spool_ok sockfd k f s" and q: "queue s js" and r: "req_ok req"
    and new: "k_dir s (spool_name DATADIR i) = None" "k_dir s (spool_name REQDIR i) = None"
    and sent: "avail True (sk_in k) = mem_printreq (req\<lparr>pr_size := htonl (pr_size req), pr_flags := htonl (pr_flags req)\<rparr>) @ data"
    and alone: "workers s = 0" "\<not> workerlock s" and op: "k_ofd s sockfd = Some d"
  shows "\<exists>t w j u. client_thread tid sockfd s = Ok 0 t \<and> (data \<noteq> [] \<longrightarrow> 0 < j) \<and>
    queue t (js @ [(i, req\<lparr>pr_flags := text_flag (junk s) data j (pr_flags req)\<rparr>)]) \<and> mem_ok t \<and>
    k_dir t = (k_dir s)(spool_name DATADIR i \<mapsto> k_nino s, spool_name REQDIR i \<mapsto> Suc (k_nino s)) \<and>
    k_data t = (k_data s)(k_nino s := data,
      Suc (k_nino s) := mem_printreq (req\<lparr>pr_flags := text_flag (junk s) data j (pr_flags req)\<rparr>)) \<and>
    n_closed t = n_closed s @ [k\<lparr>sk_in := u, sk_wr := w, sk_out := sk_out k @ mem_printresp (accept_res (junk s) i)\<rparr>] \<and>
    k_ofd t = (k_ofd s)(sockfd := None) \<and> n_sock t = (n_sock s)(sockfd := None) \<and>
    workers t = 0 \<and> \<not> workerlock t \<and> \<not> joblock t \<and> k_faults t = [] \<and> nextjob t = next_no i"
proof -
  have f: "k_faults s = []" and m: "mem_ok s" and b: "0 < brk s"
    using sp by (auto simp: spool_ok_def free_slot_def mem_ok_def)
  from add_worker_run [OF f m alone, of tid sockfd] obtain wk where wk:
    "add_worker tid sockfd s = Ok True (s\<lparr>brk := Suc (brk s), wthreads := (wthreads s)(brk s \<mapsto> wk), workers := brk s\<rparr>)"
    "w_tid wk = tid" "w_sockfd wk = sockfd" "w_next wk = 0" "w_prev wk = 0" by blast
  define s1 where "s1 = s\<lparr>brk := Suc (brk s), wthreads := (wthreads s)(brk s \<mapsto> wk), workers := brk s\<rparr>"
  have "free_slot f s1 = free_slot f s" by (intro free_slot_cong) (simp_all add: s1_def)
  moreover have "mem_ok s1" using m by (auto simp: mem_ok_def s1_def)
  ultimately have sp1: "spool_ok sockfd k f s1" "queue s1 js" "nextjob s1 = i"
    "k_dir s1 (spool_name DATADIR i) = None" "k_dir s1 (spool_name REQDIR i) = None"
    using sp q new by (simp_all add: spool_ok_def s1_def queue_def linked_def i_def)
  have "\<exists>t w j u. client_body sockfd s1 = Ok 0 t \<and> (data \<noteq> [] \<longrightarrow> 0 < j) \<and>
    queue t (js @ [(i, req\<lparr>pr_flags := text_flag (junk s1) data j (pr_flags req)\<rparr>)]) \<and> mem_ok t \<and>
    k_dir t = (k_dir s1)(spool_name DATADIR i \<mapsto> k_nino s1, spool_name REQDIR i \<mapsto> Suc (k_nino s1)) \<and>
    k_data t = (k_data s1)(k_nino s1 := data,
      Suc (k_nino s1) := mem_printreq (req\<lparr>pr_flags := text_flag (junk s1) data j (pr_flags req)\<rparr>)) \<and>
    n_sock t = (n_sock s1)(sockfd \<mapsto> k\<lparr>sk_in := u, sk_wr := w, sk_out := sk_out k @ mem_printresp (accept_res (junk s1) i)\<rparr>) \<and>
    k_ofd t = k_ofd s1 \<and> worker_view t = worker_view s1 \<and> nextjob t = next_no i"
    using client_body_run [of sockfd k f s1 js req data] sp1 r sent by simp
  then obtain t w j u where t: "client_body sockfd s1 = Ok 0 t" "data \<noteq> [] \<longrightarrow> 0 < j"
    "queue t (js @ [(i, req\<lparr>pr_flags := text_flag (junk s) data j (pr_flags req)\<rparr>)])" "mem_ok t"
    "k_dir t = (k_dir s)(spool_name DATADIR i \<mapsto> k_nino s, spool_name REQDIR i \<mapsto> Suc (k_nino s))"
    "k_data t = (k_data s)(k_nino s := data,
      Suc (k_nino s) := mem_printreq (req\<lparr>pr_flags := text_flag (junk s) data j (pr_flags req)\<rparr>))"
    "n_sock t = (n_sock s)(sockfd \<mapsto> k\<lparr>sk_in := u, sk_wr := w, sk_out := sk_out k @ mem_printresp (accept_res (junk s) i)\<rparr>)"
    "k_ofd t = k_ofd s" and v: "worker_view t = worker_view s1" and nj: "nextjob t = next_no i"
    unfolding s1_def by auto
  have wt: "wthreads t (brk s) = Some wk" "workers t = brk s" "\<not> workerlock t" "\<not> joblock t" "k_faults t = []" "n_closed t = n_closed s"
    using v alone sp by (simp_all add: worker_view_def s1_def spool_ok_def f)
  have bt: "0 < brk t" using t(4) by (simp add: mem_ok_def)
  let ?k = "k\<lparr>sk_in := u, sk_wr := w, sk_out := sk_out k @ mem_printresp (accept_res (junk s) i)\<rparr>"
  have "client_cleanup tid t = Ok () (t\<lparr>workers := 0, wthreads := (wthreads t)(brk s := None), k_ofd := (k_ofd t)(sockfd := None),
    k_lock := (k_lock t)(of_ino d := (\<lambda>_. F_UNLCK)), n_sock := (n_sock t)(sockfd := None), n_closed := n_closed t @ [?k]\<rparr>)"
    using wt bt b wk t op by (intro client_cleanup_run) simp_all
  moreover define t' where "t' = t\<lparr>workers := 0, wthreads := (wthreads t)(brk s := None), k_ofd := (k_ofd t)(sockfd := None),
    k_lock := (k_lock t)(of_ino d := (\<lambda>_. F_UNLCK)), n_sock := (n_sock t)(sockfd := None), n_closed := n_closed t @ [?k]\<rparr>"
  ultimately have run: "client_thread tid sockfd s = Ok 0 t'"
    using wk(1) t(1) by (simp add: client_thread_def bnd_def s1_def)
  have "mem_ok t'" using t(4) by (simp add: mem_ok_def t'_def)
  moreover have "queue t' js' = queue t js'" for js' by (simp add: queue_def linked_def t'_def)
  ultimately show ?thesis using run t(2-8) wt nj
    by (intro exI [of _ t'] exI [of _ w] exI [of _ j] exI [of _ u]) (simp add: t'_def)
qed

text \<open>
  Two clients at once: the second is never on the list, and when the first leaves, the list head keeps pointing to its freed
  entry, which the second then follows.
\<close>

lemma two_workers_dangle:
  assumes "k_faults s = []" and "mem_ok s" and "workers s = 0" and "\<not> workerlock s" and "tid1 \<noteq> tid2" and "k_ofd s fd1 \<noteq> None"
  shows "\<exists>t. bnd (add_worker tid1 fd1) (\<lambda>_. bnd (add_worker tid2 fd2) (\<lambda>_.
    bnd (client_cleanup tid1) (\<lambda>_. client_cleanup tid2))) s = Abort (Undefined ''worker dereference'') t"
proof -
  from assms(6) obtain d where d: "k_ofd s fd1 = Some d" by auto
  have b: "0 < brk s" and fr: "wthreads s (Suc (brk s)) = None" using assms(2) by (auto simp: mem_ok_def)
  obtain n where n: "brk s = Suc n" using b by (cases "brk s") auto
  show ?thesis using assms d b
    by (simp add: add_worker_def client_cleanup_def worker_run net_close_def sys_close_def n worker_get_def)
qed

end
