(* ===== verification/Print_Ipp.thy ===== *)
theory Print_Ipp
  imports Print_Spool
begin

section \<open>Printing: the thread that talks to the printer (\<open>printer/printd.c\<close>, \<open>printer/ipp.h\<close>)\<close>

text \<open>
  \<open>printer_thread\<close> takes the job at the head of the list, sends it to the printer as an IPP print request over HTTP, reads the
  answer with \<open>printer_status\<close>, and removes the job's files, or puts the job back in front and sleeps. \<open>printer_pass\<close> is one pass of
  its endless loop. A pass that finds the list empty ends in \<open>pthread_cond_wait\<close>: the mutex is released and one more thread waits;
  when it is woken the test is made again, which is the next pass.

  The header buffers have their sizes: a store past the end of one has no meaning. The buffer of \<open>printer_status\<close> is a list
  of bytes of its allocated length, what was not read into it being arbitrary (\<open>junk\<close>); an access past its end has no meaning. The loop that looks for
  the end of the HTTP header changes nothing once it stands on the last two bytes, so it then runs forever (\<open>Hang\<close>).
\<close>

subsection \<open>Status codes\<close>

definition STATCLASS_OK :: "int \<Rightarrow> bool" where "STATCLASS_OK x \<longleftrightarrow> 0x0000 \<le> x \<and> x \<le> 0x00ff"
definition STATCLASS_INFO :: "int \<Rightarrow> bool" where "STATCLASS_INFO x \<longleftrightarrow> 0x0100 \<le> x \<and> x \<le> 0x01ff"
definition STATCLASS_REDIR :: "int \<Rightarrow> bool" where "STATCLASS_REDIR x \<longleftrightarrow> 0x0300 \<le> x \<and> x \<le> 0x03ff"
definition STATCLASS_CLIERR :: "int \<Rightarrow> bool" where "STATCLASS_CLIERR x \<longleftrightarrow> 0x0400 \<le> x \<and> x \<le> 0x04ff"
definition STATCLASS_SRVERR :: "int \<Rightarrow> bool" where "STATCLASS_SRVERR x \<longleftrightarrow> 0x0500 \<le> x \<and> x \<le> 0x05ff"
definition HTTP_INFO :: "int \<Rightarrow> bool" where "HTTP_INFO x \<longleftrightarrow> 100 \<le> x \<and> x \<le> 199"
definition HTTP_SUCCESS :: "int \<Rightarrow> bool" where "HTTP_SUCCESS x \<longleftrightarrow> 200 \<le> x \<and> x \<le> 299"

definition OP_PRINT_JOB :: "16 word" where "OP_PRINT_JOB = 2"
definition TAG_OPERATION_ATTR :: nat where "TAG_OPERATION_ATTR = 0x01"
definition TAG_END_OF_ATTR :: nat where "TAG_END_OF_ATTR = 0x03"
definition TAG_NAMEWOLANG :: nat where "TAG_NAMEWOLANG = 0x42"
definition TAG_URI :: nat where "TAG_URI = 0x45"
definition TAG_CHARSET :: nat where "TAG_CHARSET = 0x47"
definition TAG_NATULANG :: nat where "TAG_NATULANG = 0x48"
definition TAG_MIMETYPE :: nat where "TAG_MIMETYPE = 0x49"
definition IBUFSZ :: nat where "IBUFSZ = 512"
definition HBUFSZ :: nat where "HBUFSZ = 512"
definition IPP_PORT :: int where "IPP_PORT = 631"

subsection \<open>The headers\<close>

text \<open>
  \<open>add_option sz buf tag nm v\<close>: the bytes written so far and the option after them; \<open>strcpy\<close> also stores
  a null byte behind the value, so that much must fit into the \<open>sz\<close> bytes of the buffer.
\<close>

definition add_option :: "nat \<Rightarrow> bytes \<Rightarrow> nat \<Rightarrow> string \<Rightarrow> string \<Rightarrow> bytes option" where
  "add_option sz buf tag optname optval =
     (let b = buf @ [char_of tag] @ mem16 (htons (word_of_nat (length optname))) @ optname
                  @ mem16 (htons (word_of_nat (length optval))) @ optval
      in if length b < sz then Some b else None)"

fun add_options :: "nat \<Rightarrow> bytes \<Rightarrow> (nat \<times> string \<times> string) list \<Rightarrow> bytes option" where
  "add_options sz buf [] = Some buf"
| "add_options sz buf ((tag, nm, v) # os) = Option.bind (add_option sz buf tag nm v) (\<lambda>b. add_options sz b os)"

definition doc_format :: "printreq \<Rightarrow> string" where
  "doc_format req = (if pr_flags req AND PR_TEXT \<noteq> 0 then ''text/plain'' else ''application/postscript'')"

definition ipp_options :: "string \<Rightarrow> string \<Rightarrow> string \<Rightarrow> printreq \<Rightarrow> (nat \<times> string \<times> string) list" where
  "ipp_options uri usernm jobnm req =
     [(TAG_CHARSET, ''attributes-charset'', ''utf-8''),
      (TAG_NATULANG, ''attributes-natural-language'', ''en-us''),
      (TAG_URI, ''printer-uri'', uri),
      (TAG_NAMEWOLANG, ''requesting-user-name'', usernm),
      (TAG_NAMEWOLANG, ''job-name'', jobnm),
      (TAG_MIMETYPE, ''document-format'', doc_format req)]"

definition ipp_start :: "32 word \<Rightarrow> bytes" where
  "ipp_start jobid = [CHR 0x01, CHR 0x01] @ mem16 (htons OP_PRINT_JOB) @ mem32 (htonl jobid) @ [char_of TAG_OPERATION_ATTR]"

text \<open>A string that must end inside its array.\<close>

definition array_str :: "bytes \<Rightarrow> string option" where
  "array_str b = (if NUL \<in> set b then Some (cstr b) else None)"

definition printer_uri :: "string \<Rightarrow> string" where
  "printer_uri prname = ''http://'' @ prname @ ''/ipp''"

definition ipp_header :: "string \<Rightarrow> 32 word \<Rightarrow> printreq \<Rightarrow> bytes option" where
  "ipp_header prname jobid req =
     (let uri = printer_uri prname in
      if 64 \<le> length uri then None
      else
        Option.bind (array_str (pr_usernm req)) (\<lambda>usernm.
        Option.bind (array_str (pr_jobnm req)) (\<lambda>jobnm.
        Option.bind (add_options IBUFSZ (ipp_start jobid) (ipp_options uri usernm jobnm req)) (\<lambda>b.
        if length b < IBUFSZ then Some (b @ [char_of TAG_END_OF_ATTR]) else None))))"

definition CRLF :: string where "CRLF = [CHR 0x0D, CHR 0x0A]"

definition http_header :: "string \<Rightarrow> int \<Rightarrow> bytes option" where
  "http_header prname clen =
     (let h = ''POST /ipp HTTP/1.1'' @ CRLF
            @ ''Content-Length: '' @ fmt_d clen @ CRLF
            @ ''Content-Type: application/ipp'' @ CRLF
            @ ''Host: '' @ prname @ '':'' @ fmt_d IPP_PORT @ CRLF
      in if length h + 2 \<le> HBUFSZ then Some (h @ CRLF) else None)"

definition or_ub :: "string \<Rightarrow> 'a option \<Rightarrow> ('s, 'a) prog" where
  "or_ub what o' = (case o' of None \<Rightarrow> halt (Undefined what) | Some x \<Rightarrow> ret x)"

subsection \<open>The answer of the printer\<close>

text \<open>Moving along a buffer while the bytes satisfy \<open>P\<close>; \<open>None\<close>: past the end.\<close>

definition skip :: "(char \<Rightarrow> bool) \<Rightarrow> bytes \<Rightarrow> nat \<Rightarrow> nat option" where
  "skip P b i = (let n = length (takeWhile P (drop i b)) in if i + n < length b then Some (i + n) else None)"

definition store :: "bytes \<Rightarrow> nat \<Rightarrow> char \<Rightarrow> bytes option" where
  "store b i c = (if i < length b then Some (b[i := c]) else None)"

definition str_at :: "bytes \<Rightarrow> nat \<Rightarrow> string option" where
  "str_at b i = array_str (drop i b)"

definition to_lower :: "char \<Rightarrow> char" where
  "to_lower c = (if 65 \<le> (of_char c :: nat) \<and> (of_char c :: nat) \<le> 90 then char_of (of_char c + 32 :: nat) else c)"

text \<open>\<open>strncasecmp\<close> against \<open>pat\<close>, reading up to the first difference.\<close>

fun case_match :: "string \<Rightarrow> bytes \<Rightarrow> bool option" where
  "case_match [] b = Some True"
| "case_match (p # ps) [] = None"
| "case_match (p # ps) (c # cs) = (if to_lower p = to_lower c then case_match ps cs else Some False)"

fun lit_match :: "string \<Rightarrow> bytes \<Rightarrow> bool option" where
  "lit_match [] b = Some True"
| "lit_match (p # ps) [] = None"
| "lit_match (p # ps) (c # cs) = (if p = c then lit_match ps cs else Some False)"

definition past_end :: string where "past_end = ''access past the end of the response buffer''"

definition readmore :: "int \<Rightarrow> bytes \<Rightarrow> nat \<Rightarrow> ('z printd_scheme, int \<times> bytes) prog" where
  "readmore sockfd b off =
     bnd (if length b \<le> off
          then
            bnd (syscall False (ret True)) (\<lambda>got.
            if \<not> got then log_sys ''readmore: can't allocate bigger read buffer''
            else gets (\<lambda>s. b @ take IOBUFSZ (junk s @ replicate IOBUFSZ NUL)))
          else ret b) (\<lambda>b.
     if length b < off then halt (Undefined past_end)
     else
       bnd (tread sockfd (length b - off)) (\<lambda>(nr, bs).
       if 0 < nr then ret (int off + nr, put_at b off bs) else ret (-1, b)))"

text \<open>
  The three searches. Each gives the buffer, the index reached and the end of the data, or \<open>None\<close> for the jump to \<open>out\<close> when no
  more can be read; \<open>find_length\<close> also gives the number after \<open>Content-Length:\<close>.
\<close>

definition more_header :: "int \<Rightarrow> bytes \<Rightarrow> nat \<Rightarrow> nat \<Rightarrow> ('z printd_scheme, (bytes \<times> nat) option) prog" where
  "more_header sfd b i datsz =
     bnd (readmore sfd b i) (\<lambda>(nr, b).
     if nr < 0 then ret None else ret (Some (b, datsz + nat nr)))"

text \<open>The first C or c before the end of the data, or the end; the byte there is read.\<close>

definition next_c :: "bytes \<Rightarrow> nat \<Rightarrow> nat \<Rightarrow> nat option" where
  "next_c b i datsz =
     (let j = i + length (takeWhile (\<lambda>c. c \<noteq> CHR ''C'' \<and> c \<noteq> CHR ''c'') (get_at b i (datsz - i)))
      in if j < length b then Some j else None)"

fun find_length :: "nat \<Rightarrow> int \<Rightarrow> bytes \<Rightarrow> nat \<Rightarrow> nat \<Rightarrow> ('z printd_scheme, (bytes \<times> nat \<times> nat \<times> int) option) prog" where
  "find_length 0 sfd b i datsz = hang"
| "find_length (Suc fuel) sfd b i datsz =
     bnd (or_ub past_end (next_c b i datsz)) (\<lambda>i.
     bnd (if datsz \<le> i then more_header sfd b i datsz else ret (Some (b, datsz))) (\<lambda>r.
     case r of
       None \<Rightarrow> ret None
     | Some (b, datsz) \<Rightarrow>
         bnd (or_ub past_end (case_match ''Content-Length:'' (drop i b))) (\<lambda>eq.
         if eq then
           bnd (or_ub past_end (skip isspace b (i + 15))) (\<lambda>n.
           bnd (or_ub past_end (skip isdigit b n)) (\<lambda>e.
           bnd (or_ub past_end (store b e NUL)) (\<lambda>b.
           ret (Some (b, Suc e, datsz, atoi (drop n b))))))
         else find_length fuel sfd b (Suc i) datsz)))"

definition HEADER_END :: string where "HEADER_END = [CHR 0x0A, CHR 0x0D, CHR 0x0A]"

fun find_end :: "nat \<Rightarrow> int \<Rightarrow> bytes \<Rightarrow> nat \<Rightarrow> nat \<Rightarrow> ('z printd_scheme, (bytes \<times> nat \<times> nat) option) prog" where
  "find_end 0 sfd b i datsz = hang"
| "find_end (Suc fuel) sfd b i datsz =
     (if i + 2 < datsz then
        bnd (or_ub past_end (lit_match HEADER_END (drop i b))) (\<lambda>eq.
        if eq then
          bnd (if datsz \<le> i + 3 then more_header sfd b (i + 3) datsz else ret (Some (b, datsz))) (\<lambda>r.
          case r of None \<Rightarrow> ret None | Some (b, datsz) \<Rightarrow> ret (Some (b, i + 3, datsz)))
        else find_end fuel sfd b (Suc i) datsz)
      else if datsz \<le> i then
        bnd (more_header sfd b i datsz) (\<lambda>r.
        case r of None \<Rightarrow> ret None | Some (b, datsz) \<Rightarrow> find_end fuel sfd b i datsz)
      else hang)"

text \<open>
  Fuel: every pass of these loops moves the index, which stays inside the buffer, or reads at least one byte; the buffer
  grows by \<open>IOBUFSZ\<close> at most once per byte that arrives.
\<close>

definition scan_fuel :: "int \<Rightarrow> bytes \<Rightarrow> 'z net_scheme \<Rightarrow> nat" where
  "scan_fuel sfd b s = Suc (Suc (length b + (IOBUFSZ + 1) * Suc (pending sfd s)))"

definition check_ipp :: "bytes \<Rightarrow> nat \<Rightarrow> 32 word \<Rightarrow> ('z printd_scheme, bool) prog" where
  "check_ipp b i jobid =
     (if length b < i + 8 then halt (Undefined past_end)
      else
        let st = uint (ntohs (of_mem16 (get_at b (i + 2) 2))); id = ntohl (of_mem32 (get_at b (i + 4) 4)) in
        if id \<noteq> jobid then
          bnd (log_msg (''jobid '' @ fmt_d (sint id) @ '' status code '' @ fmt_d st)) (\<lambda>_. ret False)
        else ret (STATCLASS_OK st))"

text \<open>After a success code: the body of the loop from the search for the length on; \<open>None\<close> is the jump to \<open>out\<close>.\<close>

definition read_ipp :: "int \<Rightarrow> bytes \<Rightarrow> nat \<Rightarrow> nat \<Rightarrow> 32 word \<Rightarrow> ('z printd_scheme, bool option) prog" where
  "read_ipp sfd b i datsz jobid =
     bnd (gets (scan_fuel sfd b)) (\<lambda>n.
     bnd (find_length n sfd b i datsz) (\<lambda>r.
     case r of
       None \<Rightarrow> ret None
     | Some (b, i, datsz, len) \<Rightarrow>
         bnd (if datsz \<le> i then more_header sfd b i datsz else ret (Some (b, datsz))) (\<lambda>r.
         case r of
           None \<Rightarrow> ret None
         | Some (b, datsz) \<Rightarrow>
             bnd (gets (scan_fuel sfd b)) (\<lambda>n.
             bnd (find_end n sfd b i datsz) (\<lambda>r.
             case r of
               None \<Rightarrow> ret None
             | Some (b, i, datsz) \<Rightarrow>
                 bnd (if int datsz - int i < len then more_header sfd b i datsz else ret (Some (b, datsz))) (\<lambda>r.
                 case r of
                   None \<Rightarrow> ret None
                 | Some (b, datsz) \<Rightarrow> bnd (check_ipp b i jobid) (\<lambda>ok. ret (Some ok))))))))"

definition read_failed :: "('z printd_scheme, unit) prog" where
  "read_failed =
     bnd (gets (\<lambda>s. ''jobid '' @ fmt_d (sint (of_mem32 (take 4 (junk s)))) @ '': error reading printer response: ''
                    @ k_strerror s (k_errno s))) log_msg"

text \<open>\<open>log_msg(bp)\<close>: the buffer is the format.\<close>

definition log_buffer :: "bytes \<Rightarrow> ('z printd_scheme, unit) prog" where
  "log_buffer b =
     bnd (or_ub past_end (str_at b 0)) (\<lambda>fmt.
     if CHR ''%'' \<in> set fmt then halt (Undefined ''conversion without an argument'') else log_msg fmt)"

fun status_loop :: "nat \<Rightarrow> int \<Rightarrow> bytes \<Rightarrow> 32 word \<Rightarrow> ('z printd_scheme, bool) prog" where
  "status_loop 0 sfd b jobid = hang"
| "status_loop (Suc fuel) sfd b jobid =
     bnd (tread sfd (length b)) (\<lambda>(nr, bs).
     if nr \<le> 0 then bnd (if nr < 0 then read_failed else ret ()) (\<lambda>_. ret False)
     else
       let b = put_at b 0 bs; datsz = nat nr in
       bnd (or_ub past_end (skip isspace b 8)) (\<lambda>statcode.
       bnd (or_ub past_end (skip isdigit b statcode)) (\<lambda>cp.
       if cp = statcode then bnd (log_buffer b) (\<lambda>_. status_loop fuel sfd b jobid)
       else
         bnd (or_ub past_end (store b cp NUL)) (\<lambda>b.
         bnd (or_ub past_end (skip (\<lambda>c. c \<noteq> CHR 0x0D \<and> c \<noteq> CHR 0x0A) b (Suc cp))) (\<lambda>e.
         bnd (or_ub past_end (store b e NUL)) (\<lambda>b.
         let code = atoi (drop statcode b) in
         if HTTP_INFO code then status_loop fuel sfd b jobid
         else if \<not> HTTP_SUCCESS code then
           bnd (or_ub past_end (store b datsz NUL)) (\<lambda>b.
           bnd (or_ub past_end (str_at b (Suc cp))) (\<lambda>reason.
           bnd (log_msg (''error: '' @ reason)) (\<lambda>_.
           ret False)))
         else
           bnd (read_ipp sfd b e datsz jobid) (\<lambda>r.
           case r of
             Some ok \<Rightarrow> ret ok
           | None \<Rightarrow> bnd read_failed (\<lambda>_. ret False))))))))"

definition printer_status :: "int \<Rightarrow> nat \<Rightarrow> ('z printd_scheme, bool) prog" where
  "printer_status sfd jp =
     bnd (syscall False (ret True)) (\<lambda>got.
     if \<not> got then log_sys ''printer_status: can't allocate read buffer''
     else
       bnd (gets (\<lambda>s. take IOBUFSZ (junk s @ replicate IOBUFSZ NUL))) (\<lambda>b.
       bnd (job_get jp j_jobid) (\<lambda>jobid.
       bnd (gets (\<lambda>s. Suc (pending sfd s))) (\<lambda>n.
       status_loop n sfd b jobid))))"

subsection \<open>init_printer, and a change of the configuration\<close>

definition init_printer :: "('z printd_scheme, unit) prog" where
  "init_printer =
     bnd get_printaddr (\<lambda>r.
     case r of
       None \<Rightarrow> bnd (modify (\<lambda>s. s\<lparr>printer := None\<rparr>)) (\<lambda>_. halt (Exit 1))
     | Some [] \<Rightarrow> bnd (modify (\<lambda>s. s\<lparr>printer := None\<rparr>)) (\<lambda>_. halt (Exit 1))
     | Some (ai # ais) \<Rightarrow>
         let nm = (case ai_canonname ai of None \<Rightarrow> ''printer'' | Some c \<Rightarrow> c) in
         bnd (modify (\<lambda>s. s\<lparr>printer := Some (ai # ais), printer_name := Some nm\<rparr>)) (\<lambda>_.
         log_msg (''printer is '' @ nm)))"

definition check_reread :: "('z printd_scheme, unit) prog" where
  "check_reread =
     bnd lock_configlock (\<lambda>_.
     bnd (gets reread) (\<lambda>r.
     if r then
       bnd (modify (\<lambda>s. s\<lparr>printer := None, printer_name := None, reread := False\<rparr>)) (\<lambda>_.
       bnd unlock_configlock (\<lambda>_.
       init_printer))
     else unlock_configlock))"

subsection \<open>printer_thread\<close>

text \<open>Getting a job; \<open>None\<close>: the list is empty and the thread waits.\<close>

definition take_job :: "('z printd_scheme, nat option) prog" where
  "take_job =
     bnd lock_joblock (\<lambda>_.
     bnd (gets jobhead) (\<lambda>jp.
     if jp = 0 then
       bnd (log_msg ''printer_thread: waiting...'') (\<lambda>_.
       bnd unlock_joblock (\<lambda>_.
       bnd (modify (\<lambda>s. s\<lparr>jobwait := Suc (jobwait s)\<rparr>)) (\<lambda>_.
       ret None)))
     else
       bnd (remove_job jp) (\<lambda>_.
       bnd (job_get jp j_jobid) (\<lambda>jobid.
       bnd (log_msg (''printer_thread: picked up job '' @ fmt_d (sint jobid))) (\<lambda>_.
       bnd unlock_joblock (\<lambda>_.
       ret (Some jp)))))))"

fun copy_loop :: "nat \<Rightarrow> int \<Rightarrow> int \<Rightarrow> string \<Rightarrow> ('z printd_scheme, bool) prog" where
  "copy_loop 0 fd sockfd nm = hang"
| "copy_loop (Suc fuel) fd sockfd nm =
     bnd (sys_read fd IOBUFSZ) (\<lambda>(nr, buf).
     if 0 < nr then
       bnd (writen sockfd buf) (\<lambda>nw.
       if nw \<noteq> nr then
         bnd (if nw < 0 then log_ret ''can't write to printer''
              else log_msg (''short write ('' @ fmt_d nw @ ''/'' @ fmt_d nr @ '') to printer'')) (\<lambda>_.
         ret False)
       else copy_loop fuel fd sockfd nm)
     else if nr < 0 then bnd (log_ret (''can't read '' @ nm)) (\<lambda>_. ret False)
     else ret True)"

definition is_text :: "printreq \<Rightarrow> bool" where
  "is_text req \<longleftrightarrow> pr_flags req AND PR_TEXT \<noteq> 0"

text \<open>
  From the IPP header to the answer: \<open>False\<close> for a jump to \<open>defer\<close> or an answer that is no success. After a success
  the two files of the job are removed and it is freed.
\<close>

definition transmit :: "int \<Rightarrow> int \<Rightarrow> int \<Rightarrow> nat \<Rightarrow> 32 word \<Rightarrow> printreq \<Rightarrow> string \<Rightarrow> ('z printd_scheme, bool) prog" where
  "transmit fd st_size sockfd jp jobid req prname =
     (let extra = (if is_text req then 1 else 0) in
     bnd (or_ub ''store past the end of a header buffer'' (ipp_header prname jobid req)) (\<lambda>ibuf.
     bnd (or_ub ''store past the end of a header buffer''
            (http_header prname (st_size + int (length ibuf) + extra))) (\<lambda>hbuf.
     bnd (net_writev sockfd [hbuf, ibuf]) (\<lambda>n.
     if n \<noteq> int (length hbuf + length ibuf) then
       bnd (log_ret ''can't write to printer'') (\<lambda>_. ret False)
     else
       bnd (if is_text req then net_write sockfd [CHR 0x08] else ret 1) (\<lambda>n.
       if n \<noteq> 1 then bnd (log_ret ''can't write to printer'') (\<lambda>_. ret False)
       else
         bnd (gets (\<lambda>s. case k_ofd s fd of None \<Rightarrow> 0 | Some d \<Rightarrow> length (k_data s (of_ino d)) - of_pos d)) (\<lambda>m.
         bnd (copy_loop (Suc m) fd sockfd (spool_name DATADIR jobid)) (\<lambda>sent.
         if \<not> sent then ret False
         else printer_status sockfd jp)))))))"

definition send_job :: "int \<Rightarrow> int \<Rightarrow> int \<Rightarrow> nat \<Rightarrow> 32 word \<Rightarrow> printreq \<Rightarrow> string \<Rightarrow> ('z printd_scheme, bool) prog" where
  "send_job fd st_size sockfd jp jobid req prname =
     bnd (transmit fd st_size sockfd jp jobid req prname) (\<lambda>printed.
     if printed then
       bnd (sys_unlink (spool_name DATADIR jobid)) (\<lambda>_.
       bnd (sys_unlink (spool_name REQDIR jobid)) (\<lambda>_.
       bnd (free_job jp) (\<lambda>_.
       ret True)))
     else ret False)"

definition errno_text :: "('z printd_scheme, string) prog" where
  "errno_text = gets (\<lambda>s. k_strerror s (k_errno s))"

definition job_text :: "32 word \<Rightarrow> string" where
  "job_text jobid = ''job '' @ fmt_d (sint jobid)"

definition cancel_job :: "nat \<Rightarrow> 32 word \<Rightarrow> string \<Rightarrow> ('z printd_scheme, unit) prog" where
  "cancel_job jp jobid why =
     bnd errno_text (\<lambda>e.
     bnd (log_msg (job_text jobid @ '' canceled - '' @ why @ spool_name DATADIR jobid @ '': '' @ e)) (\<lambda>_.
     free_job jp))"

text \<open>From the connection on, with the part behind the label \<open>defer\<close>.\<close>

definition deliver :: "int \<Rightarrow> int \<Rightarrow> nat \<Rightarrow> 32 word \<Rightarrow> printreq \<Rightarrow> string \<Rightarrow> string \<Rightarrow> ('z printd_scheme, unit) prog" where
  "deliver fd st_size jp jobid req addr prname =
     bnd (connect_retry addr) (\<lambda>sockfd.
     bnd (if sockfd < 0 then
            bnd errno_text (\<lambda>e.
            bnd (log_msg (job_text jobid @ '' deferred - can't contact printer: '' @ e)) (\<lambda>_.
            ret False))
          else send_job fd st_size sockfd jp jobid req prname) (\<lambda>printed.
     bnd (net_close fd) (\<lambda>_.
     bnd (if 0 \<le> sockfd then net_close sockfd else ret 0) (\<lambda>_.
     if printed then ret ()
     else
       bnd (replace_job jp) (\<lambda>_.
       sleep 60)))))"

definition print_job :: "nat \<Rightarrow> ('z printd_scheme, unit) prog" where
  "print_job jp =
     bnd (job_get jp j_jobid) (\<lambda>jobid.
     bnd (job_get jp j_req) (\<lambda>req.
     bnd (sys_open (spool_name DATADIR jobid) {}) (\<lambda>fd.
     if fd < 0 then cancel_job jp jobid ''can't open ''
     else
       bnd (sys_fstat_size fd) (\<lambda>st_size.
       if st_size < 0 then
         bnd (cancel_job jp jobid ''can't fstat '') (\<lambda>_.
         bnd (net_close fd) (\<lambda>_.
         ret ()))
       else
         bnd (gets (\<lambda>s. (printer s, printer_name s))) (\<lambda>pr.
         case pr of
           (Some (ai # ais), Some prname) \<Rightarrow> deliver fd st_size jp jobid req (ai_addr ai) prname
         | _ \<Rightarrow> halt (Undefined ''no printer address''))))))"

definition printer_pass :: "('z printd_scheme, unit) prog" where
  "printer_pass =
     bnd take_job (\<lambda>o'.
     case o' of
       None \<Rightarrow> ret ()
     | Some jp \<Rightarrow>
         bnd update_jobno (\<lambda>_.
         bnd check_reread (\<lambda>_.
         print_job jp)))"

fun printer_thread :: "nat \<Rightarrow> ('z printd_scheme, unit) prog" where
  "printer_thread 0 = ret ()"
| "printer_thread (Suc passes) = bnd printer_pass (\<lambda>_. printer_thread passes)"

end
