(* ===== verification/Print_Keep.thy ===== *)
theory Print_Keep
  imports Print_Ipp
begin

section \<open>No job is lost while printing\<close>

text \<open>
  A pass of the printer thread over any printer, any network and any schedule of failing calls, as long as it returns: the job it took is
  back at the head of the list, or it has been printed, which takes an answer of the printer that \<open>printer_status\<close> accepts, or
  its document could not be opened. \<open>core\<close> is the part of the state the list and the spool directory are in;
  what the network calls keep of it is shown by structure (\<open>keeps\<close>).
\<close>

type_synonym core = "job heap \<times> nat \<times> nat \<times> bool \<times> nat \<times> worker_thread heap \<times> (string \<Rightarrow> nat option) \<times> (nat \<Rightarrow> bytes)"

definition core :: "'z printd_scheme \<Rightarrow> core" where
  "core s = (jobs s, jobhead s, jobtail s, joblock s, brk s, wthreads s, k_dir s, k_data s)"

text \<open>The same, as long as the descriptor is a socket.\<close>

definition sview :: "int \<Rightarrow> 'z printd_scheme \<Rightarrow> core option" where
  "sview fd s = (if on_sock fd s then Some (core s) else None)"

lemma core_upd [simp]:
  fixes s :: "'z printd_scheme"
  shows "core (s\<lparr>k_faults := v1\<rparr>) = core s" "core (s\<lparr>k_errno := v2\<rparr>) = core s" "core (s\<lparr>n_sock := v3\<rparr>) = core s"
    "core (s\<lparr>k_ofd := v4\<rparr>) = core s" "core (s\<lparr>k_lock := v5\<rparr>) = core s" "core (s\<lparr>n_closed := v6\<rparr>) = core s"
    "core (s\<lparr>n_conn := v7\<rparr>) = core s" "core (s\<lparr>n_slept := v8\<rparr>) = core s" "core (s\<lparr>k_nino := v9\<rparr>) = core s"
    "core (put_log l s) = core s" "core (s\<lparr>configlock := v10\<rparr>) = core s" "core (s\<lparr>reread := v11\<rparr>) = core s"
    "core (s\<lparr>printer := v12\<rparr>) = core s" "core (s\<lparr>printer_name := v13\<rparr>) = core s" "core (s\<lparr>jobwait := v14\<rparr>) = core s"
    "core (s\<lparr>nextjob := v15\<rparr>) = core s" "core (s\<lparr>jobfd := v16\<rparr>) = core s"
  by (simp_all add: core_def)

lemma sview_upd [simp]:
  fixes s :: "'z printd_scheme"
  shows "sview fd (s\<lparr>k_faults := v1\<rparr>) = sview fd s" "sview fd (s\<lparr>k_errno := v2\<rparr>) = sview fd s"
    "sview fd (s\<lparr>k_ofd := v4\<rparr>) = sview fd s" "sview fd (put_log l s) = sview fd s"
    "n_sock s a \<noteq> None \<Longrightarrow> sview fd (s\<lparr>n_sock := (n_sock s)(a \<mapsto> v)\<rparr>) = sview fd s"
  by (auto simp: sview_def on_sock_def)

lemma keeps_syscall_core [keeps_intros]: "keeps core m \<Longrightarrow> keeps core (syscall bad m)"
  unfolding keeps_def syscall_def by (auto split: list.splits option.splits)

lemma keeps_syscall_sview [keeps_intros]: "keeps (sview fd) m \<Longrightarrow> keeps (sview fd) (syscall bad m)"
  unfolding keeps_def syscall_def by (auto split: list.splits option.splits)

lemma keeps_log [keeps_intros]:
  "keeps core (log_msg m)" "keeps core (log_ret m)" "keeps f (log_sys m)" "keeps f (log_quit m)"
  "keeps (sview fd) (log_msg m)" "keeps (sview fd) (log_ret m)"
  by (simp_all add: keeps_def)

lemma keeps_or_ub [keeps_intros]: "keeps f (or_ub w x)"
  by (simp add: or_ub_def keeps_intros split: option.split)

lemma keeps_let: "(\<And>x. keeps f (g x)) \<Longrightarrow> keeps f (let x = a in g x)"
  by simp

subsection \<open>Calls\<close>

lemma keeps_core_calls [keeps_intros]:
  "keeps core (sys_read fd n)" "keeps core (sys_open nm {})" "keeps core (sys_close fd)" "keeps core (sys_fstat_size fd)"
  "keeps core sys_socket" "keeps core (sys_connect fd addr)" "keeps core (sleep n)"
  unfolding sys_read_def sys_open_def sys_close_def sys_fstat_size_def sys_socket_def sys_connect_def sleep_def
  by (auto intro!: keeps_intros) (auto simp: keeps_def fail_def Let_def split: option.splits list.splits sum.splits if_splits)

lemma keeps_net_close [keeps_intros]: "keeps core (net_close fd)"
  unfolding net_close_def by (intro keeps_intros) (simp add: core_upd)

lemma keeps_connect [keeps_intros]: "keeps core (connect_retry_from n addr)"
proof (induction n addr rule: connect_retry_from.induct)
  case (1 n addr)
  then show ?case by (subst connect_retry_from.simps) (auto intro!: keeps_intros)
qed

lemma keeps_sview_calls [keeps_intros]:
  "keeps (sview sockfd) (sys_read fd n)" "keeps (sview sockfd) (net_select fd)"
  unfolding sys_read_def net_select_def
  by (auto intro!: keeps_intros) (auto simp: keeps_def fail_def Let_def split: option.splits list.splits if_splits recv.splits)

lemma keeps_net_read [keeps_intros]: "keeps (sview sockfd) (net_read fd n)"
proof -
  have "keeps (sview sockfd) (sys_read fd n :: ('z printd_scheme, _) prog)" by (intro keeps_intros)
  then show ?thesis unfolding keeps_def net_read_def
    by (auto split: option.splits prod.splits sum.splits)
qed

text \<open>A write to the socket itself.\<close>

lemma keeps_net_write [keeps_intros]: "keeps (sview fd) (net_write fd bs)"
  unfolding keeps_def
proof (intro allI impI)
  fix s x and t :: "'z printd_scheme" assume r: "net_write fd bs s = Ok x t"
  show "sview fd t = sview fd s"
  proof (cases "n_sock s fd")
    case None
    have "n_sock t fd = None" using r None
      by (auto simp: net_write_def sys_write_def syscall_def fail_def split: option.splits list.splits if_splits)
    then show ?thesis using None by (simp add: sview_def on_sock_def)
  next
    case (Some k)
    then show ?thesis using r by (auto simp: net_write_def split: list.splits sent.splits)
  qed
qed

lemma keeps_writen [keeps_intros]: "keeps (sview fd) (writen fd bs)"
proof -
  have "keeps (sview fd) (writen_loop fuel fd n p)" for fuel n p
    by (induction fuel arbitrary: p) (auto intro!: keeps_intros)
  then show ?thesis by (simp add: writen_def)
qed

lemma keeps_tread [keeps_intros]: "keeps (sview sockfd) (tread fd n)"
  unfolding tread_def by (intro keeps_intros) simp

subsection \<open>The answer, and the whole job\<close>

lemma keeps_readmore [keeps_intros]: "keeps (sview sockfd) (more_header fd b i n)"
  unfolding more_header_def readmore_def by (intro keeps_intros)

lemma keeps_find_length [keeps_intros]: "keeps (sview sockfd) (find_length fuel fd b i n)"
  by (induction fuel arbitrary: b i n) (auto intro!: keeps_intros)

lemma keeps_find_end [keeps_intros]: "keeps (sview sockfd) (find_end fuel fd b i n)"
  by (induction fuel arbitrary: b i n) (auto intro!: keeps_intros)

lemma keeps_read_ipp [keeps_intros]: "keeps (sview sockfd) (read_ipp fd b i n jobid)"
  unfolding read_ipp_def check_ipp_def by (intro keeps_intros keeps_let)

lemma keeps_read_failed [keeps_intros]: "keeps (sview sockfd) read_failed" "keeps (sview sockfd) (log_buffer b)"
  unfolding read_failed_def log_buffer_def by (auto intro!: keeps_intros)

lemma keeps_job_get [keeps_intros]: "keeps f (job_get a g)"
  by (auto simp: keeps_def job_get_def split: option.splits if_splits)

lemma keeps_status_loop [keeps_intros]: "keeps (sview sockfd) (status_loop fuel fd b jobid)"
  by (induction fuel arbitrary: b) (auto intro!: keeps_intros keeps_let simp del: Let_def)

lemma keeps_printer_status [keeps_intros]: "keeps (sview sockfd) (printer_status fd jp)"
  unfolding printer_status_def by (intro keeps_intros)

lemma keeps_copy_loop [keeps_intros]: "keeps (sview sockfd) (copy_loop fuel fd sockfd nm)"
proof (induction fuel)
  case 0
  show ?case by (simp add: keeps_def)
next
  case (Suc fuel)
  then show ?case unfolding copy_loop.simps by (intro keeps_intros)
qed

lemma keeps_writev [keeps_intros]: "keeps (sview fd) (net_writev fd iov)"
  by (simp add: net_writev_def keeps_intros)

text \<open>Names other than the two of a job.\<close>

definition only_names :: "32 word \<Rightarrow> 'z kern_scheme \<Rightarrow> 'z kern_scheme \<Rightarrow> bool" where
  "only_names jobid s t \<longleftrightarrow> (\<forall>nm. nm \<noteq> spool_name DATADIR jobid \<longrightarrow> nm \<noteq> spool_name REQDIR jobid \<longrightarrow> k_dir t nm = k_dir s nm)"

definition list_part :: "'z printd_scheme \<Rightarrow> nat \<times> nat \<times> bool \<times> nat \<times> worker_thread heap \<times> (nat \<Rightarrow> bytes)" where
  "list_part s = (jobhead s, jobtail s, joblock s, brk s, wthreads s, k_data s)"

lemma sys_unlink_part:
  fixes s :: "'z printd_scheme"
  assumes "sys_unlink nm s = Ok r t"
  shows "list_part t = list_part s" and "jobs t = jobs s" and "nm' \<noteq> nm \<Longrightarrow> k_dir t nm' = k_dir s nm'"
  using assms by (auto simp: sys_unlink_def syscall_def list_part_def fail_def split: list.splits option.splits)

lemma keeps_transmit [keeps_intros]: "keeps (sview sockfd) (transmit fd sz sockfd jp jobid req prname)"
  unfolding transmit_def Let_def by (intro keeps_intros)

text \<open>What a job sent to the printer leaves of list and directory, printed (\<open>r\<close>) or not.\<close>

definition after_send :: "bool \<Rightarrow> nat \<Rightarrow> 32 word \<Rightarrow> 'z printd_scheme \<Rightarrow> 'z printd_scheme \<Rightarrow> bool" where
  "after_send r jp jobid s t \<longleftrightarrow>
     (if r then list_part t = list_part s \<and> jobs t = (jobs s)(jp := None) \<and> only_names jobid s t else core t = core s)"

lemma send_job_part:
  fixes s :: "'z printd_scheme"
  assumes run: "send_job fd sz sockfd jp jobid req prname s = Ok r t" and on: "on_sock sockfd s"
  shows "after_send r jp jobid s t"
proof -
  from run obtain ok u where m: "transmit fd sz sockfd jp jobid req prname s = Ok ok u"
    and tr: "(if ok then bnd (sys_unlink (spool_name DATADIR jobid)) (\<lambda>_. bnd (sys_unlink (spool_name REQDIR jobid)) (\<lambda>_.
       bnd (free_job jp) (\<lambda>_. ret True))) else ret False) u = Ok r t"
    unfolding send_job_def by (rule bnd_OkE)
  have "sview sockfd u = sview sockfd s" by (rule keepsD [OF keeps_transmit m])
  then have cu: "core u = core s" using on by (auto simp: sview_def split: if_splits)
  show ?thesis
  proof (cases ok)
    case True
    with tr obtain r1 u1 r2 u2 where u: "sys_unlink (spool_name DATADIR jobid) u = Ok r1 u1"
      "sys_unlink (spool_name REQDIR jobid) u1 = Ok r2 u2" "r" "t = u2\<lparr>jobs := (jobs u2)(jp := None)\<rparr>"
      by (auto elim!: bnd_OkE simp: free_job_def)
    then show ?thesis using sys_unlink_part [OF u(1)] sys_unlink_part [OF u(2)] cu
      by (simp add: after_send_def list_part_def core_def only_names_def)
  next
    case False
    then show ?thesis using tr cu by (auto simp: after_send_def)
  qed
qed

subsection \<open>The list\<close>

lemma after_send_holds:
  assumes "after_send r jp (fst j) s t" and "holds_job s jp j js" and "mem_ok s"
  shows "if r then queue t js else holds_job t jp j js" and "mem_ok t" and "joblock t = joblock s"
    and "only_names (fst j) s t" and "k_data t = k_data s"
proof -
  show "joblock t = joblock s" "only_names (fst j) s t" "k_data t = k_data s" "mem_ok t"
    using assms by (auto simp: after_send_def list_part_def core_def only_names_def mem_ok_def split: if_splits)
  show "if r then queue t js else holds_job t jp j js"
  proof (cases r)
    case True
    from assms(2) obtain xs where xs: "linked s xs" "jp \<notin> set xs" "map (content (jobs s)) xs = map Some js"
      by (auto simp: holds_job_def)
    have "linked t xs" using assms(1) True xs(1,2) by (simp add: after_send_def list_part_def linked_def jl.dlist_other)
    moreover have "map (content (jobs t)) xs = map (content (jobs s)) xs"
      using assms(1) True xs(2) by (auto simp: after_send_def content_def)
    ultimately show ?thesis using True xs(3) by (auto simp: queue_def)
  next
    case False
    then show ?thesis using assms(1,2) by (simp add: after_send_def core_def holds_job_def linked_def)
  qed
qed

lemma core_holds:
  assumes "core t = core s"
  shows "holds_job t jp j js = holds_job s jp j js" "mem_ok t = mem_ok s" "joblock t = joblock s" "queue t js = queue s js"
    "k_dir t = k_dir s" "k_data t = k_data s" "jobs t = jobs s"
  using assms by (simp_all add: core_def holds_job_def linked_def mem_ok_def queue_def)

lemma connect_on_sock: "connect_retry_from n addr s = Ok fd t \<Longrightarrow> 0 \<le> fd \<Longrightarrow> on_sock fd t"
proof (induction n addr arbitrary: s rule: connect_retry_from.induct)
  case (1 n addr)
  show ?case
  proof (cases "0 < n \<and> n \<le> MAXSLEEP")
    case False
    then have "connect_retry_from n addr s = Ok (-1) s" by (subst connect_retry_from.simps) (simp only: if_False ret_run)
    then show ?thesis using "1.prems" by simp
  next
    case True
    from "1.prems"(1) True obtain f u where u: "sys_socket s = Ok f u"
      "(if f < 0 then ret (-1) else bnd (sys_connect f addr) (\<lambda>r. if r = 0 then ret f
          else bnd (net_close f) (\<lambda>_. bnd (if n \<le> MAXSLEEP div 2 then sleep n else ret ()) (\<lambda>_.
            connect_retry_from (2 * n) addr)))) u = Ok fd t"
      by (subst (asm) connect_retry_from.simps) (auto elim!: bnd_OkE)
    have f: "\<not> f < 0" using u(2) "1.prems"(2) by (auto split: if_splits)
    with u(2) obtain r v where v: "sys_connect f addr u = Ok r v"
      "(if r = 0 then ret f else bnd (net_close f) (\<lambda>_. bnd (if n \<le> MAXSLEEP div 2 then sleep n else ret ()) (\<lambda>_.
            connect_retry_from (2 * n) addr))) v = Ok fd t" by (auto elim!: bnd_OkE)
    show ?thesis
    proof (cases "r = 0")
      case True
      then have "fd = f" "t = v" using v(2) by auto
      then show ?thesis using v(1) True by (auto simp: sys_connect_def on_sock_def fail_def split: list.splits sum.splits)
    next
      case False
      with v(2) obtain w where "connect_retry_from (2 * n) addr w = Ok fd t" by (auto elim!: bnd_OkE)
      then show ?thesis using "1.IH" [OF True f False] "1.prems"(2) by blast
    qed
  qed
qed

text \<open>Why a job may be gone from the list: it was printed, or its document could not be opened.\<close>

definition printed_off :: "nat \<Rightarrow> 32 word \<times> printreq \<Rightarrow> 'z printd_scheme \<Rightarrow> bool" where
  "printed_off jp j s \<longleftrightarrow> (\<exists>fd sz sockfd prname (u :: 'z printd_scheme) v.
     core u = core s \<and> on_sock sockfd u \<and> transmit fd sz sockfd jp (fst j) (snd j) prname u = Ok True v)"

definition unreadable :: "32 word \<times> printreq \<Rightarrow> 'z printd_scheme \<Rightarrow> bool" where
  "unreadable j s \<longleftrightarrow> (\<exists>fd u. sys_open (spool_name DATADIR (fst j)) {} s = Ok fd u \<and>
     (fd < 0 \<or> (\<exists>sz v. sys_fstat_size fd u = Ok sz v \<and> sz < 0)))"

definition safe_after :: "nat \<Rightarrow> 32 word \<times> printreq \<Rightarrow> (32 word \<times> printreq) list \<Rightarrow> 'z printd_scheme \<Rightarrow> 'z printd_scheme \<Rightarrow> bool" where
  "safe_after jp j js s t \<longleftrightarrow> mem_ok t \<and> \<not> joblock t \<and> k_data t = k_data s \<and>
     (queue t (j # js) \<and> k_dir t = k_dir s \<or>
      queue t js \<and> only_names (fst j) s t \<and> printed_off jp j s \<or>
      queue t js \<and> k_dir t = k_dir s \<and> unreadable j s)"

lemma freed_queue:
  assumes "holds_job s jp j js" and "mem_ok s"
  shows "queue (s\<lparr>jobs := (jobs s)(jp := None)\<rparr>) js" and "mem_ok (s\<lparr>jobs := (jobs s)(jp := None)\<rparr>)"
proof -
  have "after_send True jp (fst j) s (s\<lparr>jobs := (jobs s)(jp := None)\<rparr>)"
    by (simp add: after_send_def list_part_def only_names_def)
  from after_send_holds [OF this assms] show "queue (s\<lparr>jobs := (jobs s)(jp := None)\<rparr>) js" "mem_ok (s\<lparr>jobs := (jobs s)(jp := None)\<rparr>)"
    by simp_all
qed

lemma cancel_job_part:
  assumes "cancel_job jp jobid why s = Ok x t"
  shows "\<exists>u. core u = core s \<and> t = u\<lparr>jobs := (jobs u)(jp := None)\<rparr>"
proof -
  from assms obtain e where "t = (put_log (err_line False (k_strerror s 0) e) s)\<lparr>jobs := (jobs s)(jp := None)\<rparr>"
    unfolding cancel_job_def errno_text_def free_job_def by (auto simp: bnd_def)
  then show ?thesis by (intro exI [of _ "put_log (err_line False (k_strerror s 0) e) s"]) simp
qed

lemma cancel_job_safe:
  fixes s :: "'z printd_scheme"
  assumes h: "holds_job s jp j js" and m: "mem_ok s" and jl: "\<not> joblock s" and c: "core u = core s" and u: "unreadable j s"
    and run: "cancel_job jp jobid why u = Ok x v" and t: "core t = core v"
  shows "safe_after jp j js s t"
proof -
  from cancel_job_part [OF run] obtain w where w: "core w = core u" "v = w\<lparr>jobs := (jobs w)(jp := None)\<rparr>" by blast
  then have cw: "core w = core s" using c by simp
  note hw = core_holds [OF cw] and ht = core_holds [OF t]
  have "holds_job w jp j js" "mem_ok w" using hw h m by simp_all
  from freed_queue [OF this] show ?thesis using hw ht jl u w(2) by (simp add: safe_after_def)
qed

lemma deliver_safe:
  fixes s :: "'z printd_scheme"
  assumes h: "holds_job s jp j js" and m: "mem_ok s" and jl: "\<not> joblock s"
    and run: "deliver fd sz jp (fst j) (snd j) addr prname s = Ok x t"
  shows "mem_ok t \<and> \<not> joblock t \<and> k_data t = k_data s \<and>
     (queue t (j # js) \<and> k_dir t = k_dir s \<or> queue t js \<and> only_names (fst j) s t \<and> printed_off jp j s)"
proof -
  define A where "A = (\<lambda>sockfd. if sockfd < 0 then bnd errno_text (\<lambda>e.
      bnd (log_msg (job_text (fst j) @ '' deferred - can't contact printer: '' @ e)) (\<lambda>_. ret False))
    else (send_job fd sz sockfd jp (fst j) (snd j) prname :: ('z printd_scheme, bool) prog))"
  define B where "B = (\<lambda>p. if p then ret () else (bnd (replace_job jp) (\<lambda>_. sleep 60) :: ('z printd_scheme, unit) prog))"
  have deq: "deliver fd sz jp (fst j) (snd j) addr prname = bnd (connect_retry addr) (\<lambda>sockfd. bnd (A sockfd) (\<lambda>p.
      bnd (net_close fd) (\<lambda>_. bnd (if 0 \<le> sockfd then net_close sockfd else ret 0) (\<lambda>_. B p))))"
    by (simp only: deliver_def A_def B_def)
  from run obtain sockfd s1 p u s2 s3 r2 r3 where s1: "connect_retry addr s = Ok sockfd s1" and p: "A sockfd s1 = Ok p u"
    and s2: "net_close fd u = Ok r2 s2" and s3: "(if 0 \<le> sockfd then net_close sockfd else ret 0) s2 = Ok r3 s3"
    and B: "B p s3 = Ok x t"
    unfolding deq by (auto elim!: bnd_OkE)
  have c1: "core s1 = core s" using s1 unfolding connect_retry_def by (rule keepsD [OF keeps_connect])
  have on: "0 \<le> sockfd \<Longrightarrow> on_sock sockfd s1" using s1 connect_on_sock unfolding connect_retry_def by blast
  note h1 = core_holds [OF c1]
  have as: "after_send p jp (fst j) s1 u"
  proof (cases "sockfd < 0")
    case True
    then show ?thesis using p by (auto simp: A_def after_send_def errno_text_def bnd_def)
  next
    case False
    then show ?thesis using p on send_job_part [of fd sz sockfd jp "fst j" "snd j" prname s1 p u] by (simp add: A_def)
  qed
  have c3: "core s3 = core u"
    using keepsD [OF keeps_net_close s2] s3 by (auto split: if_splits dest: keepsD [OF keeps_net_close])
  note hu = after_send_holds [OF as] and h3 = core_holds [OF c3]
  have hs1: "holds_job s1 jp j js" "mem_ok s1" using h1 h m by simp_all
  note hu = after_send_holds [OF as hs1]
  show ?thesis
  proof (cases p)
    case True
    have t: "t = s3" using B True by (simp add: B_def)
    have nn: "\<not> sockfd < 0" using p True by (auto simp: A_def errno_text_def bnd_def)
    then obtain v where v: "transmit fd sz sockfd jp (fst j) (snd j) prname s1 = Ok True v"
      using p True by (auto simp: A_def send_job_def elim!: bnd_OkE split: if_splits)
    have "printed_off jp j s" unfolding printed_off_def using v c1 on nn by (metis not_less)
    then show ?thesis using True t hu h3 h1 jl by (auto simp: only_names_def)
  next
    case False
    have h3': "holds_job s3 jp j js" "\<not> joblock s3" "mem_ok s3" using False hu h3 h1 jl by simp_all
    from replace_job_queue [OF h3'(2,1)] obtain w where w: "replace_job jp s3 = Ok () w" "queue w (j # js)" "mem_ok w"
      "job_frame w = job_frame s3" using h3'(3) by auto
    have t: "t = w\<lparr>n_slept := n_slept w + 60\<rparr>" using B False w(1) by (simp add: B_def bnd_def sleep_def)
    have "core u = core s1" using as False by (simp add: after_send_def)
    then have "k_dir s3 = k_dir s" "k_data s3 = k_data s" using c1 h3 by (simp_all add: core_def)
    then show ?thesis using t w h3'(2) job_frameD [OF w(4)] by (simp add: queue_def linked_def mem_ok_def)
  qed
qed

lemma print_job_safe:
  fixes s :: "'z printd_scheme"
  assumes h: "holds_job s jp j js" and m: "mem_ok s" and jl: "\<not> joblock s" and run: "print_job jp s = Ok x t"
  shows "safe_after jp j js s t"
proof -
  from h have c: "content (jobs s) jp = Some j" "jp \<noteq> 0" by (simp_all add: holds_job_def)
  from c(1) obtain n where "jobs s jp = Some n" "(j_jobid n, j_req n) = j" unfolding content_def by blast
  then have n: "jobs s jp = Some n" "jp \<noteq> 0" "j_jobid n = fst j" "j_req n = snd j" using c(2) by auto
  define B where "B = (\<lambda>fd sz. if sz < 0 then bnd (cancel_job jp (fst j) ''can't fstat '') (\<lambda>_. bnd (net_close fd) (\<lambda>_. ret ()))
    else (bnd (gets (\<lambda>s. (printer s, printer_name s))) (\<lambda>pr. case pr of
        (Some (ai # ais), Some prname) \<Rightarrow> deliver fd sz jp (fst j) (snd j) (ai_addr ai) prname
      | _ \<Rightarrow> halt (Undefined ''no printer address'')) :: ('z printd_scheme, unit) prog))"
  have "bnd (sys_open (spool_name DATADIR (fst j)) {}) (\<lambda>fd.
      if fd < 0 then cancel_job jp (fst j) ''can't open '' else bnd (sys_fstat_size fd) (B fd)) s = Ok x t"
    using n run unfolding print_job_def B_def by (simp add: bnd_def)
  then obtain fd u where u: "sys_open (spool_name DATADIR (fst j)) {} s = Ok fd u"
    and r1: "(if fd < 0 then cancel_job jp (fst j) ''can't open '' else bnd (sys_fstat_size fd) (B fd)) u = Ok x t"
    by (rule bnd_OkE)
  have cu: "core u = core s" by (rule keepsD [OF keeps_core_calls(2) u])
  show ?thesis
  proof (cases "fd < 0")
    case True
    have "unreadable j s" using u True by (auto simp: unreadable_def)
    then show ?thesis using cancel_job_safe [OF h m jl cu] r1 True by simp
  next
    case False
    with r1 obtain sz v where v: "sys_fstat_size fd u = Ok sz v" and r2: "B fd sz v = Ok x t" by (auto elim!: bnd_OkE)
    have cv: "core v = core s" using keepsD [OF keeps_core_calls(4) v] cu by simp
    show ?thesis
    proof (cases "sz < 0")
      case True
      have un: "unreadable j s" using u v True by (auto simp: unreadable_def)
      from r2 True obtain y w r where w: "cancel_job jp (fst j) ''can't fstat '' v = Ok y w" "net_close fd w = Ok r t"
        by (auto simp: B_def elim!: bnd_OkE)
      from cancel_job_safe [OF h m jl cv un w(1) keepsD [OF keeps_net_close w(2)]] show ?thesis .
    next
      case False
      note hv = core_holds [OF cv]
      from r2 False obtain addr prname where d: "deliver fd sz jp (fst j) (snd j) addr prname v = Ok x t"
        by (auto simp: B_def split: option.splits list.splits)
      have "holds_job v jp j js" "mem_ok v" "\<not> joblock v" using hv h m jl by simp_all
      from deliver_safe [OF this d] have "mem_ok t \<and> \<not> joblock t \<and> k_data t = k_data v \<and>
         (queue t (j # js) \<and> k_dir t = k_dir v \<or> queue t js \<and> only_names (fst j) v t \<and> printed_off jp j v)" .
      moreover have "printed_off jp j v = printed_off jp j s" by (simp add: printed_off_def cv)
      ultimately show ?thesis using hv by (auto simp: safe_after_def only_names_def)
    qed
  qed
qed

subsection \<open>A pass of the loop\<close>

lemma job_getD: "holds_job s a j js \<Longrightarrow> job_get a j_jobid s = Ok (fst j) s"
  by (auto simp: holds_job_def content_def job_get_def)

lemma holds_job_cong:
  "jobs t = jobs s \<Longrightarrow> jobhead t = jobhead s \<Longrightarrow> jobtail t = jobtail s \<Longrightarrow> holds_job t a j js = holds_job s a j js"
  by (simp add: holds_job_def linked_def)

definition pview :: "'z printd_scheme \<Rightarrow> _" where
  "pview s = (k_faults s, k_maxfd s, n_sock s, n_conn s, printer s, printer_name s, reread s, configlock s, nextjob s)"

lemma pview_frame: "pview (job_frame s) = pview s" "pview (put_log l s) = pview s" "pview (s\<lparr>joblock := b\<rparr>) = pview s"
  by (simp_all add: pview_def job_frame_def put_log_def)

lemma take_job_run:
  assumes q: "queue s (j # js)" and jl: "\<not> joblock s" and m: "mem_ok s"
  shows "\<exists>t. take_job s = Ok (Some (jobhead s)) t \<and> holds_job t (jobhead s) j js \<and> mem_ok t \<and> \<not> joblock t \<and>
    k_dir t = k_dir s \<and> k_data t = k_data s \<and> k_ofd t = k_ofd s \<and> jobfd t = jobfd s \<and> pview t = pview s"
proof -
  let ?s = "s\<lparr>joblock := True\<rparr>"
  have nz: "jobhead s \<noteq> 0" using queue_head [OF q] by simp
  have "queue ?s (j # js)" using q by (simp add: queue_def linked_def)
  from remove_job_queue [OF this] obtain u where u: "remove_job (jobhead s) ?s = Ok () u" "holds_job u (jobhead s) j js"
    "mem_ok ?s \<longrightarrow> mem_ok u" "job_frame u = job_frame ?s" "joblock u" by auto
  define v where "v = put_log (err_line False (k_strerror u 0) (''printer_thread: picked up job '' @ fmt_d (sint (fst j)))) u"
  define t where "t = v\<lparr>joblock := False\<rparr>"
  have "joblock v" using u(5) by (simp add: v_def)
  then have "take_job s = Ok (Some (jobhead s)) t"
    using jl nz u(1) job_getD [OF u(2)] unfolding take_job_def
    by (simp add: bnd_def mutex_lock_def mutex_unlock_def v_def t_def)
  moreover have "holds_job t (jobhead s) j js"
    using u(2) by (subst holds_job_cong [of _ u]) (simp_all add: t_def v_def)
  moreover have "mem_ok t" using u(3) m by (simp add: mem_ok_def t_def v_def)
  moreover have "pview u = pview s" using arg_cong [OF u(4), of pview] by (simp add: pview_frame)
  ultimately show ?thesis using job_frameD [OF u(4)] by (auto simp: t_def v_def pview_frame)
qed

definition lview :: "'z printd_scheme \<Rightarrow> job heap \<times> nat \<times> nat \<times> bool \<times> nat \<times> worker_thread heap \<times> (string \<Rightarrow> nat option)" where
  "lview s = (jobs s, jobhead s, jobtail s, joblock s, brk s, wthreads s, k_dir s)"

lemma lview_holds:
  assumes "lview t = lview s"
  shows "holds_job t jp j js = holds_job s jp j js" "mem_ok t = mem_ok s" "joblock t = joblock s" "k_dir t = k_dir s"
  using assms by (simp_all add: lview_def holds_job_def linked_def mem_ok_def)

lemma keeps_update_jobno: "keeps lview update_jobno"
proof -
  have sys: "keeps lview (syscall bad m :: ('z printd_scheme, 'b) prog)" if "keeps lview m" for bad m
    using that unfolding keeps_def syscall_def by (auto simp: lview_def split: list.splits option.splits)
  have "keeps lview (sys_lseek fd off w :: ('z printd_scheme, _) prog)" "keeps lview (sys_write fd bs :: ('z printd_scheme, _) prog)" for fd off w bs
    unfolding sys_lseek_def sys_write_def
    by (auto intro!: sys) (auto simp: keeps_def lview_def fail_def Let_def split: option.splits if_splits)
  then show ?thesis unfolding update_jobno_def by (intro keeps_intros)
qed

lemma keeps_mutex_config [keeps_intros]: "keeps core lock_configlock" "keeps core unlock_configlock"
  by (auto simp: keeps_def mutex_lock_def mutex_unlock_def split: if_splits)

lemma keeps_case_list [keeps_intros]: "keeps f a \<Longrightarrow> (\<And>x xs. keeps f (b x xs)) \<Longrightarrow> keeps f (case l of [] \<Rightarrow> a | x # xs \<Rightarrow> b x xs)"
  by (simp split: list.split)

lemma keeps_case_sum [keeps_intros]: "(\<And>x. keeps f (a x)) \<Longrightarrow> (\<And>x. keeps f (b x)) \<Longrightarrow> keeps f (case l of Inl x \<Rightarrow> a x | Inr x \<Rightarrow> b x)"
  by (simp split: sum.split)

lemma keeps_check_reread: "keeps core check_reread"
proof -
  have "keeps core (get_printaddr :: ('z printd_scheme, _) prog)"
    unfolding get_printaddr_def scan_configfile_def getaddrlist_def by (intro keeps_intros)
  then have "keeps core (init_printer :: ('z printd_scheme, _) prog)"
    unfolding init_printer_def Let_def by (intro keeps_intros) simp_all
  then show ?thesis unfolding check_reread_def by (intro keeps_intros) simp_all
qed

lemma printer_pass_safe:
  assumes q: "queue s (j # js)" and m: "mem_ok s" and jl: "\<not> joblock s" and run: "printer_pass s = Ok x t"
  shows "\<exists>u. k_dir u = k_dir s \<and> safe_after (jobhead s) j js u t"
proof -
  from take_job_run [OF q jl m] obtain s1 where s1: "take_job s = Ok (Some (jobhead s)) s1" "holds_job s1 (jobhead s) j js"
    "mem_ok s1" "\<not> joblock s1" "k_dir s1 = k_dir s" by blast
  from run s1(1) obtain s2 s3 where s2: "update_jobno s1 = Ok () s2" and s3: "check_reread s2 = Ok () s3"
    and pj: "print_job (jobhead s) s3 = Ok x t"
    unfolding printer_pass_def by (auto elim!: bnd_OkE)
  note h2 = lview_holds [OF keepsD [OF keeps_update_jobno s2]] and h3 = core_holds [OF keepsD [OF keeps_check_reread s3]]
  have "safe_after (jobhead s) j js s3 t" by (rule print_job_safe [OF _ _ _ pj]) (use s1 h2 h3 in simp_all)
  then show ?thesis using s1(5) h2(4) h3(5) by auto
qed

lemma printer_pass_waits:
  assumes "queue s []" and "\<not> joblock s"
  shows "\<exists>t. printer_pass s = Ok () t \<and> queue t [] \<and> \<not> joblock t \<and> jobwait t = Suc (jobwait s) \<and> k_dir t = k_dir s \<and> k_data t = k_data s"
proof -
  have "jobhead s = 0" using assms(1) by (simp add: queue_empty)
  then show ?thesis using assms
    by (auto simp: printer_pass_def take_job_def bnd_def mutex_lock_def mutex_unlock_def queue_empty put_log_def)
qed

end
