(* ===== verification/Print_Wire.thy ===== *)
theory Print_Wire
  imports Print_Keep
begin

section \<open>What goes to the printer, and what its answer means\<close>

text \<open>
  The bytes of a print request are read back by a decoder of the IPP encoding (RFC 2910: a tag, the length and text of a name, the length and
  text of a value, until the end-of-attributes tag); the number announced as \<open>Content-Length\<close> is the number of bytes that follow the
  HTTP header. \<open>printer_status\<close> of an answer that arrives in one piece is the IPP status in it.
\<close>

subsection \<open>Decoding IPP\<close>

definition be16 :: "bytes \<Rightarrow> nat" where
  "be16 bs = unat (ntohs (of_mem16 bs))"

fun ipp_attrs :: "nat \<Rightarrow> bytes \<Rightarrow> ((nat \<times> string \<times> string) list \<times> bytes) option" where
  "ipp_attrs 0 b = None"
| "ipp_attrs (Suc fuel) [] = None"
| "ipp_attrs (Suc fuel) (c # b) =
     (if of_char c = TAG_END_OF_ATTR then Some ([], b)
      else
        let n = be16 (take 2 b); nm = get_at b 2 n; b' = drop (2 + n) b;
            m = be16 (take 2 b'); v = get_at b' 2 m; b'' = drop (2 + m) b' in
        map_option (\<lambda>(os, r). ((of_char c, nm, v) # os, r)) (ipp_attrs fuel b''))"

record ipp_request =
  iq_version :: "nat \<times> nat"
  iq_op :: "16 word"
  iq_id :: "32 word"
  iq_attrs :: "(nat \<times> string \<times> string) list"
  iq_data :: bytes

definition ipp_decode :: "bytes \<Rightarrow> ipp_request option" where
  "ipp_decode b =
     (if length b < 9 \<or> of_char (b ! 8) \<noteq> TAG_OPERATION_ATTR then None
      else map_option (\<lambda>(os, r). \<lparr>iq_version = (of_char (b ! 0), of_char (b ! 1)), iq_op = ntohs (of_mem16 (get_at b 2 2)),
              iq_id = ntohl (of_mem32 (get_at b 4 4)), iq_attrs = os, iq_data = r\<rparr>)
            (ipp_attrs (length b) (drop 9 b)))"

definition enc_attr :: "nat \<times> string \<times> string \<Rightarrow> bytes" where
  "enc_attr a = (case a of (tag, nm, v) \<Rightarrow> [char_of tag] @ mem16 (htons (word_of_nat (length nm))) @ nm
     @ mem16 (htons (word_of_nat (length v))) @ v)"

definition attr_ok :: "nat \<times> string \<times> string \<Rightarrow> bool" where
  "attr_ok a \<longleftrightarrow> fst a < 256 \<and> fst a \<noteq> TAG_END_OF_ATTR \<and> length (fst (snd a)) < 65536 \<and> length (snd (snd a)) < 65536"

lemma be16_len [simp]: "n < 65536 \<Longrightarrow> be16 (mem16 (htons (word_of_nat n))) = n"
  by (simp add: be16_def unat_of_nat)

lemma rev_mem16_len: "n < 65536 \<Longrightarrow> be16 (rev (mem16 (word_of_nat n))) = n"
  using be16_len [of n] by simp

lemma ipp_attrs_enc:
  assumes "\<forall>a \<in> set os. attr_ok a" and "length os < fuel"
  shows "ipp_attrs fuel (concat (map enc_attr os) @ char_of TAG_END_OF_ATTR # r) = Some (os, r)"
  using assms
proof (induction os arbitrary: fuel)
  case Nil
  then obtain f where "fuel = Suc f" by (cases fuel) auto
  then show ?case by (simp add: TAG_END_OF_ATTR_def)
next
  case (Cons a os)
  obtain tag nm v where a: "a = (tag, nm, v)" by (cases a)
  obtain f where f: "fuel = Suc f" "length os < f" using Cons.prems(2) by (cases fuel) auto
  have ok: "tag < 256" "tag \<noteq> TAG_END_OF_ATTR" "length nm < 65536" "length v < 65536"
    using Cons.prems(1) a by (simp_all add: attr_ok_def)
  let ?R = "concat (map enc_attr os) @ char_of TAG_END_OF_ATTR # r"
  let ?N = "mem16 (htons (word_of_nat (length nm)))" and ?V = "mem16 (htons (word_of_nat (length v)))"
  have e: "concat (map enc_attr (a # os)) @ char_of TAG_END_OF_ATTR # r = char_of tag # ?N @ nm @ ?V @ v @ ?R"
    by (simp add: a enc_attr_def)
  have l: "length ?N = 2" "length ?V = 2" by (simp_all only: length_mem)
  have n: "be16 (take 2 (?N @ nm @ ?V @ v @ ?R)) = length nm" "get_at (?N @ nm @ ?V @ v @ ?R) 2 (length nm) = nm"
    "drop (2 + length nm) (?N @ nm @ ?V @ v @ ?R) = ?V @ v @ ?R"
    using l ok(3) by (simp_all add: get_at_def rev_mem16_len)
  have m: "be16 (take 2 (?V @ v @ ?R)) = length v" "get_at (?V @ v @ ?R) 2 (length v) = v" "drop (2 + length v) (?V @ v @ ?R) = ?R"
    using l ok(4) by (simp_all add: get_at_def rev_mem16_len)
  have "of_char (char_of tag) = tag" using ok(1) by simp
  then show ?case unfolding e f(1) ipp_attrs.simps Let_def n m using ok(2) Cons.IH [of f] Cons.prems(1) f(2) a by simp
qed

subsection \<open>The header of a job\<close>

lemma add_options_enc: "add_options sz buf os = Some b \<Longrightarrow> b = buf @ concat (map enc_attr os)"
proof (induction os arbitrary: buf)
  case (Cons a os)
  obtain tag nm v where a: "a = (tag, nm, v)" by (cases a)
  from Cons.prems obtain c where c: "add_option sz buf tag nm v = Some c" "add_options sz c os = Some b"
    by (auto simp: a bind_eq_Some_conv)
  have "c = buf @ enc_attr a" using c(1) by (simp add: add_option_def enc_attr_def a Let_def split: if_splits)
  then show ?case using Cons.IH [OF c(2)] by simp
qed simp

lemma add_options_fits:
  "length buf + length (concat (map enc_attr os)) < sz \<Longrightarrow> add_options sz buf os = Some (buf @ concat (map enc_attr os))"
proof (induction os arbitrary: buf)
  case (Cons a os)
  obtain tag nm v where a: "a = (tag, nm, v)" by (cases a)
  have "add_option sz buf tag nm v = Some (buf @ enc_attr a)" using Cons.prems by (simp add: add_option_def enc_attr_def a)
  then show ?case using Cons by (simp add: a)
qed simp

lemma add_options_overflow:
  assumes "os \<noteq> []" and "sz \<le> length buf + length (concat (map enc_attr os))"
  shows "add_options sz buf os = None"
  using assms
proof (induction os arbitrary: buf)
  case (Cons a os)
  obtain tag nm v where a: "a = (tag, nm, v)" by (cases a)
  show ?case
  proof (cases "length (buf @ enc_attr a) < sz")
    case True
    then have "os \<noteq> []" "add_option sz buf tag nm v = Some (buf @ enc_attr a)"
      using Cons.prems by (auto simp: add_option_def enc_attr_def a)
    then show ?thesis using Cons.IH [of "buf @ enc_attr a"] Cons.prems(2) by (simp add: a)
  next
    case False
    then show ?thesis by (simp add: a add_option_def enc_attr_def)
  qed
qed simp

definition job_attrs :: "string \<Rightarrow> printreq \<Rightarrow> (nat \<times> string \<times> string) list" where
  "job_attrs prname req = ipp_options (printer_uri prname) (cstr (pr_usernm req)) (cstr (pr_jobnm req)) req"

lemma ipp_header_eq:
  assumes "ipp_header prname jobid req = Some b"
  shows "b = ipp_start jobid @ concat (map enc_attr (job_attrs prname req)) @ [char_of TAG_END_OF_ATTR]" and "length b \<le> IBUFSZ"
  using assms
  by (auto simp: ipp_header_def Let_def array_str_def job_attrs_def bind_eq_Some_conv dest!: add_options_enc split: if_splits)

lemma length_enc_attr: "length (enc_attr (tag, nm, v)) = 5 + length nm + length v"
  by (simp add: enc_attr_def)

lemma length_printer_uri: "length (printer_uri prname) = 11 + length prname"
  by (simp add: printer_uri_def)

lemma length_job_attrs:
  "length (concat (map enc_attr (job_attrs prname req))) =
    150 + length prname + length (cstr (pr_usernm req)) + length (cstr (pr_jobnm req)) + length (doc_format req)"
  by (simp add: job_attrs_def ipp_options_def length_enc_attr length_printer_uri)

text \<open>Exactly when the header fits its buffers.\<close>

lemma ipp_header_fits:
  "ipp_header prname jobid req \<noteq> None \<longleftrightarrow>
    length prname \<le> 52 \<and> NUL \<in> set (pr_usernm req) \<and> NUL \<in> set (pr_jobnm req) \<and>
    length prname + length (cstr (pr_usernm req)) + length (cstr (pr_jobnm req)) + length (doc_format req) < 353"
proof -
  have st: "length (ipp_start jobid) = 9" by (simp add: ipp_start_def)
  let ?os = "job_attrs prname req"
  have ne: "?os \<noteq> []" by (simp add: job_attrs_def ipp_options_def)
  have "add_options IBUFSZ (ipp_start jobid) ?os =
      (if length (ipp_start jobid) + length (concat (map enc_attr ?os)) < IBUFSZ then Some (ipp_start jobid @ concat (map enc_attr ?os)) else None)"
    using add_options_fits [of "ipp_start jobid" ?os IBUFSZ] add_options_overflow [OF ne, of IBUFSZ "ipp_start jobid"] by auto
  note fits = this [unfolded length_job_attrs st, unfolded job_attrs_def]
  note len = length_job_attrs [of prname req, unfolded job_attrs_def]
  show ?thesis by (auto simp: ipp_header_def Let_def array_str_def length_printer_uri fits len st IBUFSZ_def [symmetric]) (auto simp: IBUFSZ_def)
qed

lemma job_attrs_ok:
  assumes "length b \<le> IBUFSZ" and "b = ipp_start jobid @ concat (map enc_attr (job_attrs prname req)) @ [char_of TAG_END_OF_ATTR]"
  shows "\<forall>a \<in> set (job_attrs prname req). attr_ok a"
proof -
  have "length prname + length (cstr (pr_usernm req)) + length (cstr (pr_jobnm req)) + length (doc_format req) < 512"
    using assms length_job_attrs [of prname req] by (simp add: IBUFSZ_def)
  then show ?thesis
    by (auto simp: job_attrs_def ipp_options_def attr_ok_def length_printer_uri TAG_CHARSET_def TAG_NATULANG_def TAG_URI_def
        TAG_NAMEWOLANG_def TAG_MIMETYPE_def TAG_END_OF_ATTR_def)
qed

lemma ipp_decode_header:
  assumes "ipp_header prname jobid req = Some b"
  shows "ipp_decode (b @ doc) = Some \<lparr>iq_version = (1, 1), iq_op = OP_PRINT_JOB, iq_id = jobid,
    iq_attrs = job_attrs prname req, iq_data = doc\<rparr>"
proof -
  note b = ipp_header_eq [OF assms]
  let ?os = "job_attrs prname req"
  have st: "ipp_start jobid = [CHR 0x01, CHR 0x01] @ rev (mem16 OP_PRINT_JOB) @ rev (mem32 jobid) @ [char_of TAG_OPERATION_ATTR]"
    by (simp add: ipp_start_def)
  have len: "length (ipp_start jobid) = 9" by (simp add: ipp_start_def)
  have nth: "(b @ doc) ! 8 = char_of TAG_OPERATION_ATTR" "(b @ doc) ! 0 = CHR 0x01" "(b @ doc) ! 1 = CHR 0x01"
    "get_at (b @ doc) 2 2 = rev (mem16 OP_PRINT_JOB)" "get_at (b @ doc) 4 4 = rev (mem32 jobid)"
    by (simp_all add: b(1) st nth_append nth_Cons' get_at_def)
  have dr: "drop 9 (b @ doc) = concat (map enc_attr ?os) @ char_of TAG_END_OF_ATTR # doc" using len by (simp add: b(1))
  have "length ?os < length (b @ doc)" using len by (simp add: b(1) job_attrs_def ipp_options_def)
  then have "ipp_attrs (length (b @ doc)) (drop 9 (b @ doc)) = Some (?os, doc)"
    unfolding dr by (intro ipp_attrs_enc job_attrs_ok [OF b(2,1)])
  moreover have "\<not> length (b @ doc) < 9" using len by (simp add: b(1))
  ultimately show ?thesis unfolding ipp_decode_def nth by (simp add: TAG_OPERATION_ATTR_def)
qed

subsection \<open>The stream to the printer\<close>

lemma http_header_fits:
  assumes "length prname \<le> 52" and "n < 10 ^ 19"
  shows "\<exists>h. http_header prname (int n) = Some h"
proof -
  have "length (fmt_d (int n)) \<le> 19" using assms(2) by (intro length_fmt_d_nat) auto
  moreover have "length (fmt_d IPP_PORT) = 3" by (simp add: IPP_PORT_def fmt_d_def fmt_u.simps)
  ultimately show ?thesis using assms(1) by (simp add: http_header_def Let_def CRLF_def HBUFSZ_def)
qed

lemma copy_loop_pump:
  "copy_loop fuel fd sockfd nm = bnd (pump IOBUFSZ fuel fd sockfd) (\<lambda>r. case r of
      Pumped \<Rightarrow> ret True
    | Read_failed \<Rightarrow> bnd (log_ret (''can't read '' @ nm)) (\<lambda>_. ret False)
    | Short_write nw nr \<Rightarrow> bnd (if nw < 0 then log_ret ''can't write to printer''
              else log_msg (''short write ('' @ fmt_d nw @ ''/'' @ fmt_d nr @ '') to printer'')) (\<lambda>_. ret False))"
proof (induction fuel)
  case 0
  show ?case by (simp add: bnd_def fun_eq_iff)
next
  case (Suc fuel)
  show ?case
    by (rule ext) (auto simp: Suc bnd_def split: outcome.split prod.split)
qed

definition text_mark :: "printreq \<Rightarrow> bytes" where
  "text_mark req = (if is_text req then [CHR 0x08] else [])"

lemma transmit_sends:
  assumes k: "n_sock s sockfd = Some k" "sk_wr k = []" and f: "k_faults s = []" and d: "k_ofd s fd = Some d" "readable d" "of_pos d = 0"
    and ih: "ipp_header prname jobid req = Some ibuf" and hh: "http_header prname (sz + int (length ibuf + length (text_mark req))) = Some hbuf"
  defines "doc \<equiv> k_data s (of_ino d)"
  shows "\<exists>e p w. transmit fd sz sockfd jp jobid req prname s = printer_status sockfd jp
    (s\<lparr>k_errno := e, n_sock := (n_sock s)(sockfd \<mapsto> k\<lparr>sk_wr := w, sk_out := sk_out k @ hbuf @ ibuf @ text_mark req @ doc\<rparr>),
       k_ofd := (k_ofd s)(fd \<mapsto> d\<lparr>of_pos := p\<rparr>)\<rparr>)"
proof -
  define s1 where "s1 = s\<lparr>n_sock := (n_sock s)(sockfd \<mapsto> k\<lparr>sk_out := sk_out k @ hbuf @ ibuf\<rparr>)\<rparr>"
  have w1: "net_writev sockfd [hbuf, ibuf] s = Ok (int (length hbuf + length ibuf)) s1"
    using k by (simp add: net_writev_def net_write_def s1_def)
  let ?k2 = "k\<lparr>sk_out := sk_out k @ hbuf @ ibuf @ text_mark req\<rparr>"
  define s2 where "s2 = s\<lparr>n_sock := (n_sock s)(sockfd \<mapsto> ?k2)\<rparr>"
  have w2: "(if is_text req then net_write sockfd [CHR 0x08] else ret 1) s1 = Ok 1 s2"
    using k by (simp add: net_write_def s1_def s2_def text_mark_def)
  have pre: "n_sock s2 sockfd = Some ?k2" "smooth (sk_wr ?k2)" "k_faults s2 = []" "k_ofd s2 fd = Some d" "readable d"
    "length (k_data s2 (of_ino d)) - of_pos d < Suc (length doc)" "0 < IOBUFSZ"
    using k f d by (simp_all add: s2_def smooth_def doc_def IOBUFSZ_def)
  from pump_run [OF pre] obtain e w p where pm: "pump IOBUFSZ (Suc (length doc)) fd sockfd s2 = Ok Pumped (s2\<lparr>k_errno := e,
      n_sock := (n_sock s2)(sockfd \<mapsto> ?k2\<lparr>sk_wr := w, sk_out := sk_out ?k2 @ drop (of_pos d) (k_data s2 (of_ino d))\<rparr>),
      k_ofd := (k_ofd s2)(fd \<mapsto> d\<lparr>of_pos := p\<rparr>)\<rparr>)" by blast
  define s3 where "s3 = s\<lparr>k_errno := e, n_sock := (n_sock s)(sockfd \<mapsto> k\<lparr>sk_wr := w, sk_out := sk_out k @ hbuf @ ibuf @ text_mark req @ doc\<rparr>),
       k_ofd := (k_ofd s)(fd \<mapsto> d\<lparr>of_pos := p\<rparr>)\<rparr>"
  have cp: "copy_loop (Suc (length doc)) fd sockfd nm s2 = Ok True s3" for nm
    unfolding copy_loop_pump using pm d(3) by (simp add: bnd_def s2_def s3_def doc_def)
  have m: "(case k_ofd s2 fd of None \<Rightarrow> 0 | Some d \<Rightarrow> length (k_data s2 (of_ino d)) - of_pos d) = length doc"
    using d by (simp add: s2_def doc_def)
  have x: "(if is_text req then 1 else 0) = int (length (text_mark req))" by (simp add: text_mark_def)
  have "transmit fd sz sockfd jp jobid req prname s = printer_status sockfd jp s3"
    unfolding transmit_def Let_def x or_ub_def ih
    using hh w1 w2 cp m by (simp add: bnd_def add.assoc del: copy_loop.simps)
  then show ?thesis unfolding s3_def by blast
qed

subsection \<open>Searching the answer\<close>

lemma skip_at: "\<forall>x \<in> set a. P x \<Longrightarrow> \<not> P c \<Longrightarrow> skip P (pre @ a @ c # r) (length pre) = Some (length pre + length a)"
  by (simp add: skip_def takeWhile_tail)

lemma store_at: "store (pre @ c # r) (length pre) x = Some (pre @ x # r)"
  by (simp add: store_def)

definition CL :: string where "CL = ''Content-Length:''"

lemma to_lower_c: "to_lower c = CHR ''c'' \<Longrightarrow> c = CHR ''C'' \<or> c = CHR ''c''"
proof -
  assume a: "to_lower c = CHR ''c''"
  show ?thesis
  proof (cases "65 \<le> (of_char c :: nat) \<and> (of_char c :: nat) \<le> 90")
    case True
    then have "char_of (of_char c + 32 :: nat) = CHR ''c''" using a by (simp add: to_lower_def)
    then have "(of_char (char_of (of_char c + 32 :: nat)) :: nat) = of_char (CHR ''c'')" by simp
    moreover have "(of_char (CHR ''c'') :: nat) = 99" "(of_char (CHR ''C'') :: nat) = 67" by code_simp+
    ultimately have "(of_char c :: nat) = of_char (CHR ''C'')" using True by simp
    then show ?thesis by (simp only: of_char_eq_iff simp_thms)
  next
    case False
    then show ?thesis using a by (auto simp: to_lower_def split: if_splits)
  qed
qed

lemma case_match_eq: "map to_lower cl = map to_lower p \<Longrightarrow> case_match p (cl @ r) = Some True"
proof (induction p arbitrary: cl)
  case (Cons x p)
  then show ?case by (cases cl) auto
qed simp

lemma next_c_at:
  assumes "\<forall>x \<in> set a. x \<noteq> CHR ''C'' \<and> x \<noteq> CHR ''c''" and "c = CHR ''C'' \<or> c = CHR ''c''" and "length pre + length a < datsz"
  shows "next_c (pre @ a @ c # r) (length pre) datsz = Some (length pre + length a)"
proof -
  obtain m where m: "datsz - length pre = length a + Suc m" using assms(3) by (metis add.commute add_Suc_right less_diff_conv less_imp_Suc_add)
  have "takeWhile (\<lambda>c. c \<noteq> CHR ''C'' \<and> c \<noteq> CHR ''c'') (get_at (pre @ a @ c # r) (length pre) (datsz - length pre)) = a"
    using assms(1,2) by (auto simp: get_at_def m takeWhile_tail)
  then show ?thesis by (simp add: next_c_def)
qed

text \<open>\<open>find_length\<close> passes over header lines that are not the one looked for.\<close>

lemma find_length_run:
  assumes cl: "map to_lower cl = map to_lower CL" and ds: "\<forall>x \<in> set sp. isspace x" "\<forall>x \<in> set ds. isdigit x" "ds \<noteq> []" "\<not> isdigit e"
    and no: "\<forall>j < length h. case_match CL (drop j h @ cl @ sp @ ds @ e # r) = Some False"
    and fuel: "length h < fuel" and in_data: "length pre + length h < datsz"
  shows "find_length fuel sfd (pre @ h @ cl @ sp @ ds @ e # r) (length pre) datsz s =
    Ok (Some (pre @ h @ cl @ sp @ ds @ NUL # r, Suc (length pre + length h + 15 + length sp + length ds), datsz, atoi (ds @ NUL # r))) s"
  using no fuel in_data
proof (induction "length h" arbitrary: pre h fuel rule: less_induct)
  case less
  obtain f where f: "fuel = Suc f" using less.prems(2) by (cases fuel) auto
  let ?rest = "cl @ sp @ ds @ e # r"
  obtain c cs where c: "cl = c # cs" using cl by (cases cl) (auto simp: CL_def)
  have "to_lower (CHR ''C'') = CHR ''c''" by code_simp
  then have "to_lower c = CHR ''c''" using cl c by (simp add: CL_def)
  then have cc: "c = CHR ''C'' \<or> c = CHR ''c''" by (rule to_lower_c)
  show ?case
  proof (cases "\<forall>x \<in> set h. x \<noteq> CHR ''C'' \<and> x \<noteq> CHR ''c''")
    case True
    have nc: "next_c (pre @ h @ ?rest) (length pre) datsz = Some (length pre + length h)"
      unfolding c using next_c_at [OF True cc less.prems(3), of "cs @ sp @ ds @ e # r"] by simp
    have len: "length cl = 15" using arg_cong [OF cl, of length] by (simp add: CL_def)
    have m: "case_match ''Content-Length:'' ?rest = Some True"
      using case_match_eq [OF cl, of "sp @ ds @ e # r"] by (simp add: CL_def)
    obtain d ds' where d: "ds = d # ds'" using ds(3) by (cases ds) auto
    have nd: "\<not> isspace d" using ds(2) d digit_not_space by simp
    have s1: "skip isspace (pre @ h @ ?rest) (length pre + length h + 15) = Some (length pre + length h + 15 + length sp)"
      using skip_at [of sp isspace d "pre @ h @ cl" "ds' @ e # r"] ds(1) nd len by (simp add: d add.assoc)
    have s2: "skip isdigit (pre @ h @ ?rest) (length pre + length h + 15 + length sp) = Some (length pre + length h + 15 + length sp + length ds)"
      using skip_at [of ds isdigit e "pre @ h @ cl @ sp" r] ds(2,4) len by (simp add: add.assoc)
    have s3: "store (pre @ h @ ?rest) (length pre + length h + 15 + length sp + length ds) NUL = Some (pre @ h @ cl @ sp @ ds @ NUL # r)"
      using store_at [of "pre @ h @ cl @ sp @ ds" e r NUL] len by (simp add: add.assoc)
    show ?thesis unfolding f find_length.simps or_ub_def
      using less.prems(3) by (simp add: bnd_def nc m s1 s2 s3 len)
  next
    case False
    then have "\<exists>x \<in> set h. x = CHR ''C'' \<or> x = CHR ''c''" by blast
    from split_list_first_prop [OF this] obtain a x b where h: "h = a @ x # b"
      and a: "\<forall>y \<in> set a. y \<noteq> CHR ''C'' \<and> y \<noteq> CHR ''c''" and x: "x = CHR ''C'' \<or> x = CHR ''c''" by blast
    have nc: "next_c (pre @ h @ ?rest) (length pre) datsz = Some (length pre + length a)"
      unfolding h using next_c_at [OF a x, of pre datsz "b @ ?rest"] less.prems(3) h by simp
    have m: "case_match ''Content-Length:'' (drop (length pre + length a) (pre @ h @ ?rest)) = Some False"
      using less.prems(1) [rule_format, of "length a"] h by (simp add: CL_def)
    have step: "find_length fuel sfd (pre @ h @ ?rest) (length pre) datsz s =
        find_length f sfd ((pre @ a @ [x]) @ b @ ?rest) (length (pre @ a @ [x])) datsz s"
      unfolding f find_length.simps or_ub_def using less.prems(3) h nc m by (simp add: bnd_def)
    have "\<forall>j < length b. case_match CL (drop j b @ ?rest) = Some False"
    proof (intro allI impI)
      fix j assume "j < length b"
      then show "case_match CL (drop j b @ ?rest) = Some False"
        using less.prems(1) [rule_format, of "length a + Suc j"] h by simp
    qed
    from less.hyps [OF _ this, of f "pre @ a @ [x]"] show ?thesis
      unfolding step using less.prems(2,3) h f by (simp add: add.assoc)
  qed
qed

lemma find_end_run:
  assumes no: "\<forall>j < length h. lit_match HEADER_END (drop j h @ HEADER_END @ r) = Some False"
    and fuel: "length h < fuel" and in_data: "length pre + length h + 3 < datsz"
  shows "find_end fuel sfd (pre @ h @ HEADER_END @ r) (length pre) datsz s =
    Ok (Some (pre @ h @ HEADER_END @ r, length pre + length h + 3, datsz)) s"
  using assms
proof (induction h arbitrary: pre fuel)
  case Nil
  then obtain f where "fuel = Suc f" by (cases fuel) auto
  then show ?case using Nil.prems(3) by (simp add: HEADER_END_def or_ub_def bnd_def)
next
  case (Cons x h)
  then obtain f where f: "fuel = Suc f" "length h < f" by (cases fuel) auto
  have m: "lit_match HEADER_END (x # h @ HEADER_END @ r) = Some False" using Cons.prems(1) by fastforce
  have no: "\<forall>j < length h. lit_match HEADER_END (drop j h @ HEADER_END @ r) = Some False"
  proof (intro allI impI)
    fix j assume "j < length h"
    then show "lit_match HEADER_END (drop j h @ HEADER_END @ r) = Some False" using Cons.prems(1) [rule_format, of "Suc j"] by simp
  qed
  have "find_end fuel sfd (pre @ (x # h) @ HEADER_END @ r) (length pre) datsz s =
      find_end f sfd ((pre @ [x]) @ h @ HEADER_END @ r) (length (pre @ [x])) datsz s"
    unfolding f(1) find_end.simps or_ub_def using Cons.prems(3) m by (simp add: bnd_def)
  then show ?case using Cons.IH [OF no f(2), of "pre @ [x]"] Cons.prems(3) by simp
qed

subsection \<open>The status of an answer\<close>

text \<open>
  \<open>http_answer resp code len ipp\<close>: an HTTP response with this status code and this \<open>Content-Length\<close>, whose body is \<open>ipp\<close>: eight bytes
  of version, the code, a reason, header lines of which the first that reads \<open>Content-Length:\<close>, in any case, gives the length, and the first empty line before
  the body.
\<close>

definition http_answer :: "bytes \<Rightarrow> nat \<Rightarrow> nat \<Rightarrow> bytes \<Rightarrow> bool" where
  "http_answer resp code len ipp \<longleftrightarrow> (\<exists>vers sp c reason e h cl sp2 c2 h2.
     resp = vers @ sp @ fmt_u code @ c # reason @ e # h @ cl @ sp2 @ fmt_u len @ c2 # h2 @ HEADER_END @ ipp \<and>
     length vers = 8 \<and> (\<forall>x \<in> set sp. isspace x) \<and> \<not> isdigit c \<and>
     (\<forall>x \<in> set reason. x \<noteq> CHR 0x0D \<and> x \<noteq> CHR 0x0A) \<and> (e = CHR 0x0D \<or> e = CHR 0x0A) \<and>
     map to_lower cl = map to_lower CL \<and> (\<forall>x \<in> set sp2. isspace x) \<and> \<not> isdigit c2 \<and>
     (\<forall>j < length h. case_match CL (drop j h @ cl @ sp2 @ fmt_u len @ c2 # h2 @ HEADER_END @ ipp) = Some False) \<and>
     (\<forall>j < length h2. lit_match HEADER_END (drop j h2 @ HEADER_END @ ipp) = Some False))"

definition ipp_status :: "bytes \<Rightarrow> int" where
  "ipp_status ipp = uint (ntohs (of_mem16 (get_at ipp 2 2)))"

definition ipp_id :: "bytes \<Rightarrow> 32 word" where
  "ipp_id ipp = ntohl (of_mem32 (get_at ipp 4 4))"

lemma case_match_more: "case_match p a = Some x \<Longrightarrow> case_match p (a @ b) = Some x"
proof (induction p arbitrary: a)
  case (Cons y p)
  then show ?case by (cases a) (auto split: if_splits)
qed simp

lemma lit_match_more: "lit_match p a = Some x \<Longrightarrow> lit_match p (a @ b) = Some x"
proof (induction p arbitrary: a)
  case (Cons y p)
  then show ?case by (cases a) (auto split: if_splits)
qed simp

lemma fmt_u_first:
  obtains d ds where "fmt_u n = d # ds" and "isdigit d" and "\<forall>x \<in> set ds. isdigit x"
  using fmt_u_digits [of _ n] by (cases "fmt_u n") auto

lemma atoi_fmt_u: "n < 2 ^ 31 \<Longrightarrow> b = [] \<or> \<not> isdigit (hd b) \<Longrightarrow> atoi (fmt_u n @ b) = int n"
  using atoi_fmt_wd [of n b 0] by (simp add: fmt_wd_def pad_left_def fmt_d_def)

lemma check_ipp_run:
  assumes "8 \<le> length ipp"
  shows "\<exists>t. check_ipp (pre @ ipp @ z) (length pre) jobid s = Ok (ipp_id ipp = jobid \<and> STATCLASS_OK (ipp_status ipp)) t \<and>
    (t = s \<or> (\<exists>l. t = put_log l s))"
proof -
  have "get_at (pre @ ipp @ z) (length pre + 2) 2 = get_at ipp 2 2" "get_at (pre @ ipp @ z) (length pre + 4) 4 = get_at ipp 4 4"
    using assms by (simp_all add: get_at_def)
  then show ?thesis using assms by (auto simp: check_ipp_def Let_def ipp_status_def ipp_id_def bnd_def)
qed

text \<open>The search behind a success code, in a buffer that has the whole answer.\<close>

lemma read_ipp_run:
  assumes cl: "map to_lower cl = map to_lower CL" and sp: "\<forall>x \<in> set sp2. isspace x" and c2: "\<not> isdigit c2"
    and no: "\<forall>j < length h. case_match CL (drop j h @ cl @ sp2 @ fmt_u len @ c2 # h2 @ HEADER_END @ ipp) = Some False"
    and no2: "\<forall>j < length h2. lit_match HEADER_END (drop j h2 @ HEADER_END @ ipp) = Some False"
    and ipp: "8 \<le> length ipp" "len \<le> length ipp" "len < 2 ^ 31"
    and dz: "datsz = length (pre @ NUL # h @ cl @ sp2 @ fmt_u len @ c2 # h2 @ HEADER_END @ ipp)"
  shows "\<exists>t. read_ipp sfd (pre @ NUL # h @ cl @ sp2 @ fmt_u len @ c2 # h2 @ HEADER_END @ ipp @ z) (length pre) datsz jobid s =
      Ok (Some (ipp_id ipp = jobid \<and> STATCLASS_OK (ipp_status ipp))) t \<and> (t = s \<or> (\<exists>l. t = put_log l s))"
proof -
  let ?h = "NUL # h" and ?r = "h2 @ HEADER_END @ ipp @ z"
  let ?b = "pre @ ?h @ cl @ sp2 @ fmt_u len @ c2 # ?r"
  have lcl: "length cl = 15" using arg_cong [OF cl, of length] by (simp add: CL_def)
  have no': "\<forall>j < length ?h. case_match CL (drop j ?h @ cl @ sp2 @ fmt_u len @ c2 # ?r) = Some False"
  proof (intro allI impI)
    fix j assume j: "j < length ?h"
    show "case_match CL (drop j ?h @ cl @ sp2 @ fmt_u len @ c2 # ?r) = Some False"
    proof (cases j)
      case 0
      have "to_lower (CHR ''C'') \<noteq> to_lower NUL" by code_simp
      then show ?thesis using 0 by (simp add: CL_def)
    next
      case (Suc i)
      then show ?thesis using no [rule_format, of i] j
          case_match_more [of CL "drop i h @ cl @ sp2 @ fmt_u len @ c2 # h2 @ HEADER_END @ ipp" False z] by simp
    qed
  qed
  have fl: "find_length (scan_fuel sfd ?b s) sfd ?b (length pre) datsz s = Ok (Some (pre @ ?h @ cl @ sp2 @ fmt_u len @ NUL # ?r,
      Suc (length pre + length ?h + 15 + length sp2 + length (fmt_u len)), datsz, atoi (fmt_u len @ NUL # ?r))) s"
    by (rule find_length_run [OF cl sp _ _ c2 no']) (use fmt_u_digits dz in \<open>auto simp: scan_fuel_def\<close>)
  have at: "atoi (fmt_u len @ NUL # ?r) = int len" using ipp(3) by (intro atoi_fmt_u) (auto simp: isdigit_def)
  let ?p = "pre @ ?h @ cl @ sp2 @ fmt_u len @ [NUL]"
  have lp: "Suc (length pre + length ?h + 15 + length sp2 + length (fmt_u len)) = length ?p" using lcl by simp
  have b2: "pre @ ?h @ cl @ sp2 @ fmt_u len @ NUL # ?r = ?p @ h2 @ HEADER_END @ ipp @ z" by simp
  have he: "length HEADER_END = 3" by (simp add: HEADER_END_def)
  have no2': "\<forall>j < length h2. lit_match HEADER_END (drop j h2 @ HEADER_END @ ipp @ z) = Some False"
    using no2 lit_match_more [of HEADER_END _ False z] by (metis append.assoc)
  have fe: "find_end (scan_fuel sfd (?p @ h2 @ HEADER_END @ ipp @ z) s) sfd (?p @ h2 @ HEADER_END @ ipp @ z) (length ?p) datsz s =
      Ok (Some (?p @ h2 @ HEADER_END @ ipp @ z, length ?p + length h2 + 3, datsz)) s"
    by (rule find_end_run [OF no2']) (use dz lcl he ipp in \<open>auto simp: scan_fuel_def\<close>)
  have i: "length ?p + length h2 + 3 = length (?p @ h2 @ HEADER_END)" using he by simp
  have nd: "\<not> datsz \<le> length ?p" "\<not> int datsz - int (length (?p @ h2 @ HEADER_END)) < int len" using dz lcl he ipp by simp_all
  from check_ipp_run [OF ipp(1), of "?p @ h2 @ HEADER_END" z jobid s] obtain t where
    t: "check_ipp ((?p @ h2 @ HEADER_END) @ ipp @ z) (length (?p @ h2 @ HEADER_END)) jobid s = Ok (ipp_id ipp = jobid \<and> STATCLASS_OK (ipp_status ipp)) t"
      "t = s \<or> (\<exists>l. t = put_log l s)" by blast
  have b3: "(?p @ h2 @ HEADER_END) @ ipp @ z = ?p @ h2 @ HEADER_END @ ipp @ z" by simp
  have "read_ipp sfd ?b (length pre) datsz jobid s = Ok (Some (ipp_id ipp = jobid \<and> STATCLASS_OK (ipp_status ipp))) t"
    unfolding read_ipp_def bnd_gets using fe [unfolded i] nd t(1) [unfolded b3]
    by (simp only: bnd_def fl outcome.case option.case prod.case at lp b2 ret_def bnd_gets if_False i simp_thms)
  then show ?thesis using t(2) by auto
qed


definition status_line :: "bytes \<Rightarrow> nat \<Rightarrow> bytes \<Rightarrow> bytes \<Rightarrow> bool" where
  "status_line resp code reason rest \<longleftrightarrow> (\<exists>vers sp c e. resp = vers @ sp @ fmt_u code @ c # reason @ e # rest \<and>
     length vers = 8 \<and> (\<forall>x \<in> set sp. isspace x) \<and> \<not> isdigit c \<and>
     (\<forall>x \<in> set reason. x \<noteq> CHR 0x0D \<and> x \<noteq> CHR 0x0A) \<and> (e = CHR 0x0D \<or> e = CHR 0x0A))"

text \<open>A success code leads to the search in the rest of the buffer.\<close>

lemma printer_status_success:
  assumes k: "n_sock s sfd = Some k" "sk_in k = Data resp # r" and f: "k_faults s = []" and j: "jp \<noteq> 0" "jobs s jp = Some jb"
    and sz: "length resp \<le> IOBUFSZ" and st: "status_line resp code reason rest" and code: "200 \<le> code" "code \<le> 299"
  obtains pre z s' where "printer_status sfd jp s = bnd (read_ipp sfd (pre @ NUL # rest @ z) (length pre) (length resp) (j_jobid jb))
      (\<lambda>r. case r of Some ok \<Rightarrow> ret ok | None \<Rightarrow> bnd read_failed (\<lambda>_. ret False)) s'"
    and "length resp = length (pre @ NUL # rest)" and "s' = s\<lparr>n_sock := (n_sock s)(sfd \<mapsto> k\<lparr>sk_in := r\<rparr>)\<rparr>"
proof -
  from st obtain vers sp c e where resp: "resp = vers @ sp @ fmt_u code @ c # reason @ e # rest"
    and v: "length vers = 8" "\<forall>x \<in> set sp. isspace x" "\<not> isdigit c" "\<forall>x \<in> set reason. x \<noteq> CHR 0x0D \<and> x \<noteq> CHR 0x0A"
      "e = CHR 0x0D \<or> e = CHR 0x0A" unfolding status_line_def by blast
  define b where "b = take IOBUFSZ (junk s @ replicate IOBUFSZ NUL)"
  have lb: "length b = IOBUFSZ" by (simp add: b_def)
  define s' where "s' = s\<lparr>n_sock := (n_sock s)(sfd \<mapsto> k\<lparr>sk_in := r\<rparr>)\<rparr>"
  define z where "z = drop (length resp) b"
  have tr: "tread sfd (length b) s = Ok (int (length resp), resp) s'"
    using k sz by (simp add: tread_def net_select_def net_read_def bnd_def lb s'_def)
  have b1: "put_at b 0 resp = vers @ sp @ fmt_u code @ c # reason @ e # rest @ z" by (simp add: put_at_def z_def resp)
  obtain d ds where d: "fmt_u code = d # ds" "isdigit d" "\<forall>x \<in> set ds. isdigit x" by (rule fmt_u_first)
  let ?sc = "length (vers @ sp)" and ?cp = "length (vers @ sp @ fmt_u code)"
  have k1: "skip isspace (vers @ sp @ fmt_u code @ c # reason @ e # rest @ z) 8 = Some ?sc"
    using skip_at [of sp isspace d vers "ds @ c # reason @ e # rest @ z"] v(1,2) d digit_not_space by simp
  have k2: "skip isdigit (vers @ sp @ fmt_u code @ c # reason @ e # rest @ z) ?sc = Some ?cp"
    using skip_at [of "fmt_u code" isdigit c "vers @ sp" "reason @ e # rest @ z"] v(3) d by (simp add: add.assoc)
  have ne: "?cp \<noteq> ?sc" using d by simp
  have k3: "store (vers @ sp @ fmt_u code @ c # reason @ e # rest @ z) ?cp NUL = Some (vers @ sp @ fmt_u code @ NUL # reason @ e # rest @ z)"
    using store_at [of "vers @ sp @ fmt_u code" c "reason @ e # rest @ z" NUL] by (simp add: add.assoc)
  let ?pre = "vers @ sp @ fmt_u code @ NUL # reason"
  have k4: "skip (\<lambda>c. c \<noteq> CHR 0x0D \<and> c \<noteq> CHR 0x0A) (vers @ sp @ fmt_u code @ NUL # reason @ e # rest @ z) (Suc ?cp) = Some (length ?pre)"
    using skip_at [of reason "\<lambda>c. c \<noteq> CHR 0x0D \<and> c \<noteq> CHR 0x0A" e "vers @ sp @ fmt_u code @ [NUL]" "rest @ z"] v(4,5)
    by (simp add: add.assoc)
  have k5: "store (vers @ sp @ fmt_u code @ NUL # reason @ e # rest @ z) (length ?pre) NUL = Some (?pre @ NUL # rest @ z)"
    using store_at [of ?pre e "rest @ z" NUL] by (simp add: add.assoc)
  have at: "atoi (drop ?sc (?pre @ NUL # rest @ z)) = int code"
    using atoi_fmt_u [of code "NUL # reason @ NUL # rest @ z"] code by (simp add: isdigit_def)
  have cl: "\<not> HTTP_INFO (int code)" "HTTP_SUCCESS (int code)" using code by (simp_all add: HTTP_INFO_def HTTP_SUCCESS_def)
  have pos: "\<not> int (length resp) \<le> 0" by (simp add: resp)
  have sl: "status_loop (Suc n) sfd b (j_jobid jb) s = bnd (read_ipp sfd (?pre @ NUL # rest @ z) (length ?pre) (length resp) (j_jobid jb))
      (\<lambda>r. case r of Some ok \<Rightarrow> ret ok | None \<Rightarrow> bnd read_failed (\<lambda>_. ret False)) s'" for n
    by (simp only: status_loop.simps bnd_def tr outcome.case prod.case pos if_False Let_def nat_int b1 k1 k2 k3 k4 k5 or_ub_def option.case
        ret_def ne at cl if_True simp_thms) (auto simp: ret_def split: outcome.split option.split)
  have "printer_status sfd jp s = status_loop (Suc (pending sfd s)) sfd b (j_jobid jb) s"
    using f j by (simp add: printer_status_def syscall_def bnd_def job_get_def b_def del: status_loop.simps)
  then show thesis using sl by (intro that [of ?pre z s']) (simp_all add: resp s'_def)
qed

lemma printer_status_run:
  assumes k: "n_sock s sfd = Some k" "sk_in k = Data resp # r" and f: "k_faults s = []" and j: "jp \<noteq> 0" "jobs s jp = Some jb"
    and sz: "length resp \<le> IOBUFSZ" and a: "http_answer resp code len ipp" and code: "200 \<le> code" "code \<le> 299"
    and ipp: "8 \<le> length ipp" "len \<le> length ipp"
  shows "\<exists>t u. printer_status sfd jp s = Ok (ipp_id ipp = j_jobid jb \<and> STATCLASS_OK (ipp_status ipp)) t \<and>
    u = s\<lparr>n_sock := (n_sock s)(sfd \<mapsto> k\<lparr>sk_in := r\<rparr>)\<rparr> \<and> (t = u \<or> (\<exists>l. t = put_log l u))"
proof -
  from a obtain vers sp c reason e h cl sp2 c2 h2 where
    resp: "resp = vers @ sp @ fmt_u code @ c # reason @ e # h @ cl @ sp2 @ fmt_u len @ c2 # h2 @ HEADER_END @ ipp"
    and v: "length vers = 8" "\<forall>x \<in> set sp. isspace x" "\<not> isdigit c" "\<forall>x \<in> set reason. x \<noteq> CHR 0x0D \<and> x \<noteq> CHR 0x0A"
      "e = CHR 0x0D \<or> e = CHR 0x0A"
    and w: "map to_lower cl = map to_lower CL" "\<forall>x \<in> set sp2. isspace x" "\<not> isdigit c2"
      "\<forall>j < length h. case_match CL (drop j h @ cl @ sp2 @ fmt_u len @ c2 # h2 @ HEADER_END @ ipp) = Some False"
      "\<forall>j < length h2. lit_match HEADER_END (drop j h2 @ HEADER_END @ ipp) = Some False"
    unfolding http_answer_def by blast
  let ?rest = "h @ cl @ sp2 @ fmt_u len @ c2 # h2 @ HEADER_END @ ipp"
  have "status_line resp code reason ?rest" unfolding status_line_def using resp v by blast
  from printer_status_success [OF k f j sz this code] obtain pre z s' where
    ps: "printer_status sfd jp s = bnd (read_ipp sfd (pre @ NUL # ?rest @ z) (length pre) (length resp) (j_jobid jb))
      (\<lambda>r. case r of Some ok \<Rightarrow> ret ok | None \<Rightarrow> bnd read_failed (\<lambda>_. ret False)) s'"
    and dz: "length resp = length (pre @ NUL # ?rest)" and s': "s' = s\<lparr>n_sock := (n_sock s)(sfd \<mapsto> k\<lparr>sk_in := r\<rparr>)\<rparr>" by metis
  have "len < 2 ^ 31" using ipp(2) sz resp by (simp add: IOBUFSZ_def)
  from read_ipp_run [OF w ipp this dz, of sfd z "j_jobid jb" s'] obtain t where
    "read_ipp sfd (pre @ NUL # ?rest @ z) (length pre) (length resp) (j_jobid jb) s' =
      Ok (Some (ipp_id ipp = j_jobid jb \<and> STATCLASS_OK (ipp_status ipp))) t" "t = s' \<or> (\<exists>l. t = put_log l s')" by auto
  then show ?thesis unfolding ps s' [symmetric] by (simp add: bnd_def)
qed

text \<open>
  An answer whose first piece ends before the empty line: the inner loop stops two bytes before the end of the data, the test for more data
  asks for the end itself, and the search never moves again, whatever else the printer sends.
\<close>

lemma drop_mid: "length p \<le> j \<Longrightarrow> j \<le> length p + length a \<Longrightarrow> drop j (p @ a @ z) = drop (j - length p) a @ z"
  by simp

lemma find_end_hang:
  assumes "\<forall>j. i \<le> j \<and> j + 2 < datsz \<longrightarrow> lit_match HEADER_END (drop j b) = Some False" and "i < datsz"
  shows "find_end fuel sfd b i datsz s = Hang"
  using assms
proof (induction fuel arbitrary: i)
  case (Suc fuel)
  then show ?case by (auto simp: or_ub_def bnd_def)
qed simp

lemma printer_status_hang:
  assumes k: "n_sock s sfd = Some k" "sk_in k = Data resp # r" and f: "k_faults s = []" and j: "jp \<noteq> 0" "jobs s jp = Some jb"
    and sz: "length resp \<le> IOBUFSZ" and st: "status_line resp code reason (h @ CL @ fmt_u len @ c # h2)" and code: "200 \<le> code" "code \<le> 299"
    and c: "\<not> isdigit c" "h2 \<noteq> []"
    and no: "\<forall>j < length h. case_match CL (drop j h @ CL @ fmt_u len @ c # h2) = Some False"
    and no2: "\<forall>j. j + 2 < length h2 \<longrightarrow> lit_match HEADER_END (drop j h2) = Some False"
  shows "printer_status sfd jp s = Hang"
proof -
  let ?rest = "h @ CL @ fmt_u len @ c # h2"
  from printer_status_success [OF k f j sz st code] obtain pre z s' where
    ps: "printer_status sfd jp s = bnd (read_ipp sfd (pre @ NUL # ?rest @ z) (length pre) (length resp) (j_jobid jb))
      (\<lambda>r. case r of Some ok \<Rightarrow> ret ok | None \<Rightarrow> bnd read_failed (\<lambda>_. ret False)) s'"
    and dz: "length resp = length (pre @ NUL # ?rest)" by metis
  let ?h = "NUL # h" and ?b = "pre @ NUL # ?rest @ z" and ?p = "pre @ NUL # h @ CL @ fmt_u len @ [NUL]"
  have no': "\<forall>j < length ?h. case_match CL (drop j ?h @ CL @ [] @ fmt_u len @ c # h2 @ z) = Some False"
  proof (intro allI impI)
    fix j assume j: "j < length ?h"
    show "case_match CL (drop j ?h @ CL @ [] @ fmt_u len @ c # h2 @ z) = Some False"
    proof (cases j)
      case 0
      have "to_lower (CHR ''C'') \<noteq> to_lower NUL" by code_simp
      then show ?thesis using 0 by (simp add: CL_def)
    next
      case (Suc i)
      then show ?thesis using no [rule_format, of i] j case_match_more [of CL "drop i h @ CL @ fmt_u len @ c # h2" False z] by simp
    qed
  qed
  have fl: "find_length (scan_fuel sfd ?b s') sfd (pre @ ?h @ CL @ [] @ fmt_u len @ c # h2 @ z) (length pre) (length resp) s' =
      Ok (Some (pre @ ?h @ CL @ [] @ fmt_u len @ NUL # h2 @ z, Suc (length pre + length ?h + 15 + length ([] :: bytes) + length (fmt_u len)),
        length resp, atoi (fmt_u len @ NUL # h2 @ z))) s'"
    by (rule find_length_run [OF refl _ _ _ c(1) no']) (use fmt_u_digits dz in \<open>auto simp: scan_fuel_def\<close>)
  have lp: "Suc (length pre + length ?h + 15 + length ([] :: bytes) + length (fmt_u len)) = length ?p" by (simp add: CL_def)
  have b2: "pre @ ?h @ CL @ [] @ fmt_u len @ NUL # h2 @ z = ?p @ h2 @ z" by simp
  have b1: "pre @ ?h @ CL @ [] @ fmt_u len @ c # h2 @ z = ?b" by simp
  have lt: "length ?p < length resp" "length resp = length ?p + length h2" using dz c(2) by simp_all
  have "find_end fuel sfd (?p @ h2 @ z) (length ?p) (length resp) s' = Hang" for fuel
  proof (rule find_end_hang [OF _ lt(1)], intro allI impI)
    fix j assume j: "length ?p \<le> j \<and> j + 2 < length resp"
    then have "lit_match HEADER_END (drop (j - length ?p) h2) = Some False" using no2 lt(2) by auto
    moreover have "drop j (?p @ h2 @ z) = drop (j - length ?p) h2 @ z" using j lt(2) by (intro drop_mid) auto
    ultimately show "lit_match HEADER_END (drop j (?p @ h2 @ z)) = Some False" by (simp only: lit_match_more)
  qed
  note fe = this
  have nl: "\<not> length resp \<le> length ?p" using lt(1) by (simp only: not_le)
  have "read_ipp sfd ?b (length pre) (length resp) (j_jobid jb) s' = Hang"
    unfolding read_ipp_def bnd_gets
    by (simp only: bnd_def fl [unfolded b1 b2 lp] fe outcome.case option.case prod.case ret_def bnd_gets nl if_False simp_thms)
  then show ?thesis unfolding ps by (simp add: bnd_def)
qed

end
