(* ===== verification/Print_Deliver.thy ===== *)
theory Print_Deliver
  imports Print_Wire
begin

section \<open>A job that is printed\<close>

text \<open>
  The pass of \<open>printer_thread\<close> over a job whose printer takes the connection and answers with success: what the printer received, and what is left
  of the job.
\<close>

definition answered :: "sock \<Rightarrow> 32 word \<Rightarrow> bool" where
  "answered k jobid \<longleftrightarrow> sk_wr k = [] \<and> (\<exists>resp r code len ipp. sk_in k = Data resp # r \<and> length resp \<le> IOBUFSZ \<and>
     http_answer resp code len ipp \<and> 200 \<le> code \<and> code \<le> 299 \<and> 8 \<le> length ipp \<and> len \<le> length ipp \<and>
     ipp_id ipp = jobid \<and> STATCLASS_OK (ipp_status ipp))"

definition request_stream :: "string \<Rightarrow> 32 word \<Rightarrow> printreq \<Rightarrow> bytes \<Rightarrow> bytes \<Rightarrow> bool" where
  "request_stream prname jobid req doc bs \<longleftrightarrow> (\<exists>hbuf body. bs = hbuf @ body \<and> http_header prname (int (length body)) = Some hbuf \<and>
     ipp_decode body = Some \<lparr>iq_version = (1, 1), iq_op = OP_PRINT_JOB, iq_id = jobid, iq_attrs = job_attrs prname req,
       iq_data = text_mark req @ doc\<rparr>)"

lemma transmit_run:
  fixes s :: "'z printd_scheme"
  assumes k: "n_sock s sockfd = Some k" "answered k i" and f: "k_faults s = []" and d: "k_ofd s fd = Some d" "readable d" "of_pos d = 0"
    and ih: "ipp_header prname i req \<noteq> None" and sz: "length (k_data s (of_ino d)) < 2 ^ 62" and j: "jp \<noteq> 0" "jobs s jp = Some jb" "j_jobid jb = i"
    and ne: "fd \<noteq> sockfd"
  defines "doc \<equiv> k_data s (of_ino d)"
  shows "\<exists>t k' bs e. transmit fd (int (length doc)) sockfd jp i req prname s = Ok True t \<and> n_sock t sockfd = Some k' \<and>
    sk_out k' = sk_out k @ bs \<and> request_stream prname i req doc bs \<and> k_faults t = [] \<and> n_closed t = n_closed s \<and>
    k_ofd t sockfd = k_ofd s sockfd \<and> k_ofd t fd = Some e \<and> (\<forall>a. a \<noteq> sockfd \<longrightarrow> n_sock t a = n_sock s a)"
proof -
  from ih obtain ibuf where ib: "ipp_header prname i req = Some ibuf" by auto
  have fit: "length prname \<le> 52" using ih unfolding ipp_header_fits by simp
  have lb: "length ibuf \<le> IBUFSZ" by (rule ipp_header_eq(2) [OF ib])
  have tm: "length (text_mark req) \<le> 1" by (simp add: text_mark_def)
  obtain hbuf where hb: "http_header prname (int (length (ibuf @ text_mark req @ doc))) = Some hbuf"
    using http_header_fits [OF fit, of "length (ibuf @ text_mark req @ doc)"] lb tm sz by (auto simp: IBUFSZ_def doc_def)
  then have hb': "http_header prname (int (length doc) + int (length ibuf + length (text_mark req))) = Some hbuf"
    by (simp add: algebra_simps)
  from k(2) have wr: "sk_wr k = []" by (simp add: answered_def)
  from transmit_sends [OF k(1) wr f d ib hb', of jp, folded doc_def] obtain e p w where
    tr: "transmit fd (int (length doc)) sockfd jp i req prname s = printer_status sockfd jp
      (s\<lparr>k_errno := e, n_sock := (n_sock s)(sockfd \<mapsto> k\<lparr>sk_wr := w, sk_out := sk_out k @ hbuf @ ibuf @ text_mark req @ doc\<rparr>),
       k_ofd := (k_ofd s)(fd \<mapsto> d\<lparr>of_pos := p\<rparr>)\<rparr>)" by blast
  define k1 where "k1 = k\<lparr>sk_wr := w, sk_out := sk_out k @ hbuf @ ibuf @ text_mark req @ doc\<rparr>"
  define s1 where "s1 = s\<lparr>k_errno := e, n_sock := (n_sock s)(sockfd \<mapsto> k1), k_ofd := (k_ofd s)(fd \<mapsto> d\<lparr>of_pos := p\<rparr>)\<rparr>"
  from k(2) obtain resp r code len ipp where a: "sk_in k = Data resp # r" "length resp \<le> IOBUFSZ" "http_answer resp code len ipp"
    "200 \<le> code" "code \<le> 299" "8 \<le> length ipp" "len \<le> length ipp" "ipp_id ipp = i" "STATCLASS_OK (ipp_status ipp)"
    by (auto simp: answered_def)
  have pre: "n_sock s1 sockfd = Some k1" "sk_in k1 = Data resp # r" "k_faults s1 = []" "jp \<noteq> 0" "jobs s1 jp = Some jb"
    using a(1) f j by (simp_all add: s1_def k1_def)
  from printer_status_run [OF pre a(2-7)] a(8,9) j(3) obtain t where t: "printer_status sockfd jp s1 = Ok True t"
    "t = s1\<lparr>n_sock := (n_sock s1)(sockfd \<mapsto> k1\<lparr>sk_in := r\<rparr>)\<rparr> \<or> (\<exists>l. t = put_log l (s1\<lparr>n_sock := (n_sock s1)(sockfd \<mapsto> k1\<lparr>sk_in := r\<rparr>)\<rparr>))"
    by auto
  have rs: "request_stream prname i req doc (hbuf @ ibuf @ text_mark req @ doc)"
    unfolding request_stream_def using hb ipp_decode_header [OF ib] by blast
  have ok: "transmit fd (int (length doc)) sockfd jp i req prname s = Ok True t" using tr t(1) by (simp add: s1_def k1_def)
  have n: "n_sock t = (n_sock s)(sockfd \<mapsto> k1\<lparr>sk_in := r\<rparr>)" "k_faults t = []" "n_closed t = n_closed s"
    "k_ofd t = (k_ofd s)(fd \<mapsto> d\<lparr>of_pos := p\<rparr>)" using t(2) f by (auto simp: s1_def)
  show ?thesis
    by (intro exI [of _ t] exI [of _ "k1\<lparr>sk_in := r\<rparr>"] exI [of _ "hbuf @ ibuf @ text_mark req @ doc"] exI [of _ "d\<lparr>of_pos := p\<rparr>"])
      (use ok n rs ne in \<open>simp add: k1_def\<close>)
qed

lemma sys_unlink_gone:
  fixes s :: "'z printd_scheme"
  assumes "k_faults s = []"
  shows "\<exists>r e. sys_unlink nm s = Ok r (s\<lparr>k_errno := e, k_dir := (k_dir s)(nm := None)\<rparr>)"
proof (cases "k_dir s nm")
  case None
  have "s\<lparr>k_errno := ENOENT, k_dir := (k_dir s)(nm := None)\<rparr> = s\<lparr>k_errno := ENOENT\<rparr>"
    using None by (simp add: fun_upd_idem)
  then show ?thesis using assms None
    by (intro exI [of _ "-1"] exI [of _ ENOENT]) (simp add: sys_unlink_def fail_def)
next
  case (Some i)
  then show ?thesis using assms
    by (intro exI [of _ "0 :: int"] exI [of _ "k_errno s"]) (simp add: sys_unlink_def)
qed

definition without_job :: "32 word \<Rightarrow> (string \<Rightarrow> nat option) \<Rightarrow> string \<Rightarrow> nat option" where
  "without_job i m = m(spool_name DATADIR i := None, spool_name REQDIR i := None)"

lemma send_job_run:
  fixes s :: "'z printd_scheme"
  assumes tr: "transmit fd sz sockfd jp i req prname s = Ok True t" and f: "k_faults t = []" and on: "on_sock sockfd s"
  shows "\<exists>u e. send_job fd sz sockfd jp i req prname s = Ok True u \<and>
    u = t\<lparr>k_errno := e, k_dir := without_job i (k_dir s), jobs := (jobs t)(jp := None)\<rparr> \<and> core t = core s"
proof -
  have "sview sockfd t = sview sockfd s" by (rule keepsD [OF keeps_transmit tr])
  then have c: "core t = core s" using on by (auto simp: sview_def split: if_splits)
  from sys_unlink_gone [OF f] obtain r1 e1 where u1: "sys_unlink (spool_name DATADIR i) t =
      Ok r1 (t\<lparr>k_errno := e1, k_dir := (k_dir t)(spool_name DATADIR i := None)\<rparr>)" by blast
  let ?t1 = "t\<lparr>k_errno := e1, k_dir := (k_dir t)(spool_name DATADIR i := None)\<rparr>"
  have "k_faults ?t1 = []" using f by simp
  from sys_unlink_gone [OF this] obtain r2 e2 where u2: "sys_unlink (spool_name REQDIR i) ?t1 =
      Ok r2 (?t1\<lparr>k_errno := e2, k_dir := (k_dir ?t1)(spool_name REQDIR i := None)\<rparr>)" by blast
  have "k_dir t = k_dir s" using c by (simp add: core_def)
  then show ?thesis using tr u1 u2 c
    by (intro exI [of _ "t\<lparr>k_errno := e2, k_dir := without_job i (k_dir s), jobs := (jobs t)(jp := None)\<rparr>"] exI [of _ e2])
      (simp add: send_job_def bnd_def free_job_def without_job_def)
qed

lemma net_close_run:
  assumes "k_faults s = []" and "k_ofd s fd = Some d"
  shows "net_close fd s = Ok 0 (s\<lparr>k_ofd := (k_ofd s)(fd := None), k_lock := (k_lock s)(of_ino d := (\<lambda>_. F_UNLCK)),
    n_sock := (n_sock s)(fd := None), n_closed := n_closed s @ (case n_sock s fd of None \<Rightarrow> [] | Some k \<Rightarrow> [k])\<rparr>)"
  using assms by (simp add: net_close_def sys_close_def bnd_def)

text \<open>What is left when a job was printed.\<close>

definition printed :: "string \<Rightarrow> 32 word \<times> printreq \<Rightarrow> (32 word \<times> printreq) list \<Rightarrow> bytes \<Rightarrow> sock \<Rightarrow> 'z printd_scheme \<Rightarrow> 'z printd_scheme \<Rightarrow> bool" where
  "printed prname j js doc k s t \<longleftrightarrow> queue t js \<and> mem_ok t \<and> \<not> joblock t \<and> k_dir t = without_job (fst j) (k_dir s) \<and> k_data t = k_data s \<and>
     (\<exists>k' bs. last (n_closed t) = k' \<and> n_closed t \<noteq> [] \<and> sk_out k' = sk_out k @ bs \<and> request_stream prname (fst j) (snd j) doc bs)"

lemma holds_job_node:
  assumes "holds_job s jp j js"
  obtains n where "jobs s jp = Some n" and "j_jobid n = fst j" and "j_req n = snd j" and "jp \<noteq> 0"
proof -
  from assms have c: "content (jobs s) jp = Some j" "jp \<noteq> 0" by (simp_all add: holds_job_def)
  from c(1) obtain n where "jobs s jp = Some n" "(j_jobid n, j_req n) = j" unfolding content_def by blast
  then show thesis using c(2) that by auto
qed

lemma deliver_run:
  fixes s :: "'z printd_scheme"
  assumes h: "holds_job s jp j js" "mem_ok s" "\<not> joblock s" and fs: "free_slot sockfd s"
    and conn: "n_conn s = map Inl es @ Inr k # cs" "length es < 8" and ans: "answered k (fst j)"
    and d: "k_ofd s fd = Some d" "readable d" "of_pos d = 0" "n_sock s fd = None"
    and ih: "ipp_header prname (fst j) (snd j) \<noteq> None" and sz: "length (k_data s (of_ino d)) < 2 ^ 62"
  shows "\<exists>t. deliver fd (int (length (k_data s (of_ino d)))) jp (fst j) (snd j) addr prname s = Ok () t \<and>
    printed prname j js (k_data s (of_ino d)) k s t"
proof -
  from connect_retry_run [OF fs conn, of addr] obtain w where w: "connect_retry addr s = Ok sockfd (w\<lparr>k_ofd := (k_ofd s)(sockfd \<mapsto>
      \<lparr>of_ino = k_nino w, of_pos = 0, of_flags = {O_RDWR}\<rparr>), k_nino := Suc (k_nino w), n_sock := (n_sock s)(sockfd \<mapsto> k), n_conn := cs\<rparr>)"
    "net_view w = net_view s" by blast
  let ?sd = "\<lparr>of_ino = k_nino w, of_pos = 0, of_flags = {O_RDWR}\<rparr>"
  define s1 where "s1 = w\<lparr>k_ofd := (k_ofd s)(sockfd \<mapsto> ?sd), k_nino := Suc (k_nino w), n_sock := (n_sock s)(sockfd \<mapsto> k), n_conn := cs\<rparr>"
  have cr: "connect_retry addr s = Ok sockfd s1" using w(1) by (simp add: s1_def)
  have c1: "core s1 = core s" using keepsD [OF keeps_connect, of 1 addr s sockfd s1] cr by (simp add: connect_retry_def)
  have "k_faults w = k_faults s" using arg_cong [OF w(2), of k_faults] by (simp add: net_view_def)
  moreover have fr: "free_fd s = Some sockfd" "k_faults s = []" using fs by (simp_all add: free_slot_def)
  ultimately have f1: "k_faults s1 = []" by (simp add: s1_def)
  from fr(1) have "k_ofd s sockfd = None" "0 \<le> sockfd" by (auto simp: free_fd_def find_Some_iff)
  then have ne: "fd \<noteq> sockfd" "\<not> sockfd < 0" using d(1) by auto
  obtain jb where jb: "jobs s1 jp = Some jb" "j_jobid jb = fst j" "jp \<noteq> 0"
    using holds_job_node [OF h(1)] core_holds(7) [OF c1] by metis
  note h1 = core_holds [OF c1]
  have pre: "n_sock s1 sockfd = Some k" "k_ofd s1 fd = Some d" "length (k_data s1 (of_ino d)) < 2 ^ 62" "on_sock sockfd s1"
    using d(1) ne sz h1(6) by (simp_all add: s1_def on_sock_def)
  from transmit_run [OF pre(1) ans f1 pre(2) d(2,3) ih pre(3) jb(3,1,2) ne(1)] obtain t k' bs e where
    t: "transmit fd (int (length (k_data s1 (of_ino d)))) sockfd jp (fst j) (snd j) prname s1 = Ok True t" "n_sock t sockfd = Some k'"
      "sk_out k' = sk_out k @ bs" "request_stream prname (fst j) (snd j) (k_data s1 (of_ino d)) bs" "k_faults t = []"
      "k_ofd t sockfd = k_ofd s1 sockfd" "k_ofd t fd = Some e" "\<forall>a. a \<noteq> sockfd \<longrightarrow> n_sock t a = n_sock s1 a" by blast
  from send_job_run [OF t(1,5) pre(4)] obtain u e' where u: "send_job fd (int (length (k_data s1 (of_ino d)))) sockfd jp (fst j) (snd j) prname s1 = Ok True u"
    "u = t\<lparr>k_errno := e', k_dir := without_job (fst j) (k_dir s1), jobs := (jobs t)(jp := None)\<rparr>" "core t = core s1" by blast
  have uf: "k_faults u = []" "k_ofd u fd = Some e" using u(2) t by simp_all
  define v where "v = u\<lparr>k_ofd := (k_ofd u)(fd := None), k_lock := (k_lock u)(of_ino e := (\<lambda>_. F_UNLCK)), n_sock := (n_sock u)(fd := None)\<rparr>"
  have "n_sock u fd = None" using u(2) t(8) ne d(4) by (simp add: s1_def)
  then have cl1: "net_close fd u = Ok 0 v" using net_close_run [OF uf] by (simp add: v_def)
  have vf: "k_faults v = []" "k_ofd v sockfd = Some ?sd" "n_sock v sockfd = Some k'" using uf(1) u(2) t(2,6) ne by (simp_all add: v_def s1_def)
  define x where "x = v\<lparr>k_ofd := (k_ofd v)(sockfd := None), k_lock := (k_lock v)(k_nino w := (\<lambda>_. F_UNLCK)),
      n_sock := (n_sock v)(sockfd := None), n_closed := n_closed v @ [k']\<rparr>"
  have cl2: "net_close sockfd v = Ok 0 x" using net_close_run [OF vf(1,2)] vf(3) by (simp add: x_def)
  have run: "deliver fd (int (length (k_data s (of_ino d)))) jp (fst j) (snd j) addr prname s = Ok () x"
    unfolding deliver_def using cr ne(2) u(1) cl1 cl2 h1(6) by (simp add: bnd_def)
  have "after_send True jp (fst j) s u"
    using send_job_part [OF u(1) pre(4)] c1 by (simp add: after_send_def list_part_def core_def only_names_def)
  from after_send_holds [OF this h(1,2)] have q: "queue u js" "mem_ok u" "joblock u = joblock s" "k_data u = k_data s" by simp_all
  have xu: "queue x js = queue u js" "mem_ok x = mem_ok u" "joblock x = joblock u" "k_dir x = k_dir u" "k_data x = k_data u"
    by (simp_all add: x_def v_def queue_def linked_def mem_ok_def)
  have "printed prname j js (k_data s (of_ino d)) k s x"
    unfolding printed_def xu using q h(3) t(3,4) u(2) h1(5,6) by (simp add: x_def)
  then show ?thesis using run by blast
qed

lemma print_job_prints:
  fixes s :: "'z printd_scheme"
  assumes h: "holds_job s jp j js" "mem_ok s" "\<not> joblock s" and fs: "free_slot fd s"
    and fs2: "free_fd (s\<lparr>k_ofd := (k_ofd s)(fd \<mapsto> d)\<rparr>) = Some sockfd" "n_sock s sockfd = None"
    and conn: "n_conn s = map Inl es @ Inr k # cs" "length es < 8" and ans: "answered k (fst j)"
    and ino: "k_dir s (spool_name DATADIR (fst j)) = Some ino" and pr: "printer s = Some (ai # ais)" "printer_name s = Some prname"
    and ih: "ipp_header prname (fst j) (snd j) \<noteq> None" and sz: "length (k_data s ino) < 2 ^ 62"
  shows "\<exists>t. print_job jp s = Ok () t \<and> printed prname j js (k_data s ino) k s t"
proof -
  let ?d = "\<lparr>of_ino = ino, of_pos = 0, of_flags = {}\<rparr>"
  define s1 where "s1 = s\<lparr>k_ofd := (k_ofd s)(fd \<mapsto> ?d)\<rparr>"
  have fr: "k_faults s = []" "free_fd s = Some fd" "n_sock s fd = None" using fs by (simp_all add: free_slot_def)
  have op: "sys_open (spool_name DATADIR (fst j)) {} s = Ok fd s1" using fr ino by (simp add: sys_open_def s1_def)
  have nn: "\<not> fd < 0" using fr(2) by (auto simp: free_fd_def)
  have st: "sys_fstat_size fd s1 = Ok (int (length (k_data s ino))) s1" using fr(1) by (simp add: sys_fstat_size_def s1_def)
  have "free_fd s1 = free_fd (s\<lparr>k_ofd := (k_ofd s)(fd \<mapsto> d)\<rparr>)" by (simp add: free_fd_def s1_def)
  then have fs1: "free_slot sockfd s1" using fs2 fr(1) by (simp add: free_slot_def s1_def)
  have c1: "core s1 = core s" by (simp add: s1_def)
  note h1 = core_holds [OF c1]
  have pre: "holds_job s1 jp j js" "mem_ok s1" "\<not> joblock s1" "n_conn s1 = map Inl es @ Inr k # cs" "k_ofd s1 fd = Some ?d"
    "readable ?d" "of_pos ?d = 0" "n_sock s1 fd = None" "length (k_data s1 (of_ino ?d)) < 2 ^ 62"
    using h h1 conn(1) fr(3) sz by (simp_all add: s1_def readable_def)
  from deliver_run [OF pre(1-3) fs1 pre(4) conn(2) ans pre(5-8) ih pre(9), of "ai_addr ai"] obtain t where
    t: "deliver fd (int (length (k_data s ino))) jp (fst j) (snd j) (ai_addr ai) prname s1 = Ok () t" "printed prname j js (k_data s ino) k s1 t"
    by (auto simp: h1(6))
  obtain jb where jb: "jobs s jp = Some jb" "j_jobid jb = fst j" "j_req jb = snd j" "jp \<noteq> 0"
    by (rule holds_job_node [OF h(1)])
  have pr1: "printer s1 = Some (ai # ais)" "printer_name s1 = Some prname" using pr by (simp_all add: s1_def)
  have g: "job_get jp j_jobid s = Ok (fst j) s" "job_get jp j_req s = Ok (snd j) s" using jb by simp_all
  have ns: "\<not> int (length (k_data s ino)) < 0" by simp
  have "print_job jp s = Ok () t"
    by (simp only: print_job_def bnd_def g op nn st ns if_False outcome.case gets_run pr1 prod.case option.case list.case t(1))
  moreover have "printed prname j js (k_data s ino) k s t" using t(2) h1(5,6) by (simp add: printed_def)
  ultimately show ?thesis by blast
qed

text \<open>The whole pass: the job file has the next number, the rest is as \<open>printed\<close> says.\<close>

lemma free_fd_same:
  assumes "\<And>i. (k_ofd t i = None) = (k_ofd s i = None)" and "k_maxfd t = k_maxfd s"
  shows "free_fd t = free_fd s"
  unfolding free_fd_def assms ..

lemma printer_pass_prints:
  fixes s :: "'z printd_scheme"
  assumes q: "queue s (j # js)" "mem_ok s" "\<not> joblock s" and jf: "k_ofd s (jobfd s) = Some jd" "writable jd" "of_ino jd \<noteq> ino"
    and rr: "\<not> reread s" "\<not> configlock s" and fs: "free_slot fd s"
    and fs2: "free_fd (s\<lparr>k_ofd := (k_ofd s)(fd \<mapsto> d)\<rparr>) = Some sockfd" "n_sock s sockfd = None"
    and conn: "n_conn s = map Inl es @ Inr k # cs" "length es < 8" and ans: "answered k (fst j)"
    and ino: "k_dir s (spool_name DATADIR (fst j)) = Some ino" and pr: "printer s = Some (ai # ais)" "printer_name s = Some prname"
    and ih: "ipp_header prname (fst j) (snd j) \<noteq> None" and sz: "length (k_data s ino) < 2 ^ 62"
  shows "\<exists>t u. printer_pass s = Ok () t \<and> printed prname j js (k_data s ino) k u t \<and> k_dir u = k_dir s \<and>
    k_data u = (k_data s)(of_ino jd := put_at (k_data s (of_ino jd)) 0 (fmt_d (sint (nextjob s))))"
proof -
  from take_job_run [OF q(1,3,2)] obtain s1 where s1: "take_job s = Ok (Some (jobhead s)) s1" "holds_job s1 (jobhead s) j js" "mem_ok s1"
    "\<not> joblock s1" "k_dir s1 = k_dir s" "k_data s1 = k_data s" "k_ofd s1 = k_ofd s" "jobfd s1 = jobfd s" "pview s1 = pview s" by blast
  have f: "k_faults s = []" "free_fd s = Some fd" "n_sock s fd = None" using fs by (simp_all add: free_slot_def)
  have v1: "k_faults s1 = []" "k_maxfd s1 = k_maxfd s" "n_sock s1 = n_sock s" "n_conn s1 = n_conn s" "printer s1 = printer s"
    "printer_name s1 = printer_name s" "\<not> reread s1" "\<not> configlock s1" "nextjob s1 = nextjob s"
    using s1(9) f(1) rr by (simp_all add: pview_def)
  define s2 where "s2 = s1\<lparr>k_data := (k_data s)(of_ino jd := put_at (k_data s (of_ino jd)) 0 (fmt_d (sint (nextjob s)))),
    k_ofd := (k_ofd s)(jobfd s \<mapsto> jd\<lparr>of_pos := length (fmt_d (sint (nextjob s)))\<rparr>)\<rparr>"
  have up: "update_jobno s1 = Ok () s2" using update_jobno_run [OF v1(1), of jd] jf s1(6-8) v1(9) by (simp add: s2_def)
  have rd: "check_reread s2 = Ok () s2" using v1(7,8) by (simp add: check_reread_def bnd_def mutex_lock_def mutex_unlock_def s2_def)
  have "jobfd s \<noteq> fd" using f(2) jf(1) by (auto simp: free_fd_def find_Some_iff)
  moreover have "free_fd s2 = free_fd s" "free_fd (s2\<lparr>k_ofd := (k_ofd s2)(fd \<mapsto> d)\<rparr>) = free_fd (s\<lparr>k_ofd := (k_ofd s)(fd \<mapsto> d)\<rparr>)"
    using jf(1) v1(2) by (auto intro!: free_fd_same simp: s2_def split: if_splits)
  ultimately have fd2: "free_fd s2 = Some fd" "free_fd (s2\<lparr>k_ofd := (k_ofd s2)(fd \<mapsto> d)\<rparr>) = Some sockfd"
    using f(2) fs2(1) by simp_all
  have h2: "holds_job s2 (jobhead s) j js" "mem_ok s2" "\<not> joblock s2"
    using s1(2-4) by (simp_all add: s2_def holds_job_def linked_def mem_ok_def)
  have "free_slot fd s2" using fd2(1) v1(1,3) f(3) by (simp add: free_slot_def s2_def)
  note fs' = this
  have e: "n_sock s2 sockfd = None" "n_conn s2 = map Inl es @ Inr k # cs" "k_dir s2 (spool_name DATADIR (fst j)) = Some ino"
    "printer s2 = Some (ai # ais)" "printer_name s2 = Some prname" "k_data s2 ino = k_data s ino"
    using fs2(2) conn(1) ino pr jf(3) v1 s1(5) by (simp_all add: s2_def)
  have sz': "length (k_data s2 ino) < 2 ^ 62" using sz e(6) by simp
  from print_job_prints [OF h2 fs' fd2(2) e(1,2) conn(2) ans e(3-5) ih sz'] obtain t where
    "print_job (jobhead s) s2 = Ok () t" "printed prname j js (k_data s ino) k s2 t" unfolding e(6) by blast
  then show ?thesis using s1(1,5) up rd
    by (intro exI [of _ t] exI [of _ s2]) (simp add: printer_pass_def bnd_def s2_def)
qed

end
