(* ===== verification/Print_Restart.thy ===== *)
theory Print_Restart
  imports Print_Spool
begin

section \<open>The queue after a restart: \<open>build_qonstart\<close> of \<open>printer/printd.c\<close>\<close>

text \<open>
  The request files survive the daemon. \<open>recovered s d\<close> is what directory entry \<open>d\<close> stands for: a job, if the
  file holds a whole \<open>struct printreq\<close>, and nothing otherwise. \<open>build_qonstart\<close> queues exactly these, in the order of the directory,
  and removes the files of requests that are cut short. It keeps a descriptor open for every job it finds, so the theorems ask for
  as many free descriptors as there are entries.
\<close>

definition is_dot :: "string \<Rightarrow> bool" where
  "is_dot d \<longleftrightarrow> d = ''.'' \<or> d = ''..''"

definition req_file :: "'z kern_scheme \<Rightarrow> string \<Rightarrow> bytes option" where
  "req_file s d = (if is_dot d then None else map_option (k_data s) (k_dir s (req_path REQDIR d)))"

definition recovered :: "'z kern_scheme \<Rightarrow> string \<Rightarrow> (32 word \<times> printreq) list" where
  "recovered s d = (case req_file s d of
      None \<Rightarrow> []
    | Some bs \<Rightarrow> if sizeof_printreq \<le> length bs then [(word_of_int (atol d), of_mem_printreq (take sizeof_printreq bs))] else [])"

definition cut_short :: "'z kern_scheme \<Rightarrow> string \<Rightarrow> bool" where
  "cut_short s d \<longleftrightarrow> (\<exists>bs. req_file s d = Some bs \<and> length bs < sizeof_printreq)"

definition free_fds :: "'z kern_scheme \<Rightarrow> nat set" where
  "free_fds s = {i. i < k_maxfd s \<and> k_ofd s (int i) = None}"

definition drop_names :: "string \<Rightarrow> (string \<Rightarrow> nat option) \<Rightarrow> string \<Rightarrow> nat option" where
  "drop_names d m = m(req_path REQDIR d := None, req_path DATADIR d := None)"

lemma finite_free_fds [simp]: "finite (free_fds s)"
  by (simp add: free_fds_def)

lemma free_fds_ex:
  assumes "0 < card (free_fds s)"
  obtains i where "free_fd s = Some (int i)" and "i \<in> free_fds s"
proof -
  from assms obtain j where "j \<in> free_fds s" by (metis card.empty ex_in_conv less_irrefl)
  then have "\<exists>i < k_maxfd s. k_ofd s (int i) = None" by (auto simp: free_fds_def)
  then obtain fd where fd: "free_fd s = Some fd" by (rule free_fd_ex)
  then obtain i where "fd = int i" "i \<in> free_fds s" by (auto simp: free_fd_def find_Some_iff free_fds_def)
  then show ?thesis using that fd by simp
qed

lemma req_path_inj [simp]: "req_path D a = req_path D b \<longleftrightarrow> a = b"
  by (simp add: req_path_def)

lemma req_path_data [simp]: "req_path DATADIR a \<noteq> req_path REQDIR b" "req_path REQDIR b \<noteq> req_path DATADIR a"
  by (simp_all add: req_path_def DATADIR_def REQDIR_def)

lemma length_req_path [simp]: "length (req_path REQDIR d) = 24 + length d" "length (req_path DATADIR d) = 24 + length d"
  by (simp_all add: req_path_def DATADIR_def REQDIR_def SPOOLDIR_def)

text \<open>Opening and reading a request file, or finding none.\<close>

lemma open_read:
  assumes f: "k_faults s = []" and fd: "free_fd s = Some fd" and ino: "k_dir s nm = Some ino"
  shows "sys_open nm {} s = Ok fd (s\<lparr>k_ofd := (k_ofd s)(fd \<mapsto> \<lparr>of_ino = ino, of_pos = 0, of_flags = {}\<rparr>)\<rparr>)"
    and "sys_read fd n (s\<lparr>k_ofd := (k_ofd s)(fd \<mapsto> \<lparr>of_ino = ino, of_pos = 0, of_flags = {}\<rparr>)\<rparr>) =
      Ok (int (min n (length (k_data s ino))), take n (k_data s ino))
        (s\<lparr>k_ofd := (k_ofd s)(fd \<mapsto> \<lparr>of_ino = ino, of_pos = min n (length (k_data s ino)), of_flags = {}\<rparr>)\<rparr>)"
  using assms by (simp_all add: sys_open_def sys_read_def readable_def get_at_0 Let_def min.commute)

definition restart_ok :: "'z printd_scheme \<Rightarrow> (32 word \<times> printreq) list \<Rightarrow> nat \<Rightarrow> bool" where
  "restart_ok s js n \<longleftrightarrow> k_faults s = [] \<and> \<not> joblock s \<and> mem_ok s \<and> queue s js \<and> n \<le> card (free_fds s) \<and>
     (\<forall>i. k_ofd s i = None \<longrightarrow> n_sock s i = None)"

lemma entry_skipped:
  assumes "restart_ok s js (Suc n)" and "req_file s d = None" and "length d < 40"
  shows "\<exists>t. qonstart_entry d s = Ok () t \<and> restart_ok t js n \<and> k_dir t = k_dir s \<and> k_data t = k_data s"
proof (cases "is_dot d")
  case True
  then show ?thesis using assms by (auto simp: qonstart_entry_def is_dot_def restart_ok_def)
next
  case False
  from assms(1) have "0 < card (free_fds s)" by (simp add: restart_ok_def)
  then obtain i where fd: "free_fd s = Some (int i)" by (rule free_fds_ex)
  have none: "k_dir s (req_path REQDIR d) = None" using assms(2) False by (simp add: req_file_def)
  have "qonstart_entry d s = Ok () (s\<lparr>k_errno := ENOENT\<rparr>)"
    using False none assms(1,3) fd
    by (auto simp: qonstart_entry_def is_dot_def sprintf_buf_def FILENMSZ_def sys_open_def bnd_def restart_ok_def)
  then show ?thesis using assms(1)
    by (auto simp: restart_ok_def mem_ok_def queue_def linked_def free_fds_def)
qed

lemma entry_queued:
  assumes ok: "restart_ok s js (Suc n)" and rf: "req_file s d = Some bs" and len: "sizeof_printreq \<le> length bs" "length d < 40"
  shows "\<exists>t. qonstart_entry d s = Ok () t \<and>
    restart_ok t (js @ [(word_of_int (atol d), of_mem_printreq (take sizeof_printreq bs))]) n \<and> k_dir t = k_dir s \<and> k_data t = k_data s"
proof -
  from ok have k: "k_faults s = []" "\<not> joblock s" "mem_ok s" "queue s js" "Suc n \<le> card (free_fds s)"
    "\<forall>i. k_ofd s i = None \<longrightarrow> n_sock s i = None" by (simp_all add: restart_ok_def)
  from k(5) have "0 < card (free_fds s)" by simp
  then obtain i where fd: "free_fd s = Some (int i)" and i: "i \<in> free_fds s" by (rule free_fds_ex)
  from rf obtain ino where nd: "\<not> is_dot d" and ino: "k_dir s (req_path REQDIR d) = Some ino" "k_data s ino = bs"
    by (auto simp: req_file_def split: if_splits)
  let ?J = "word_of_int (atol d) :: 32 word" and ?R = "of_mem_printreq (take sizeof_printreq bs)"
  define s2 where "s2 = s\<lparr>k_ofd := (k_ofd s)(int i \<mapsto> \<lparr>of_ino = ino, of_pos = min sizeof_printreq (length bs), of_flags = {}\<rparr>)\<rparr>"
  define s3 where "s3 = put_log (err_line False (k_strerror s 0) (''adding job '' @ fmt_d (sint ?J) @ '' to queue'')) s2"
  have s3: "k_faults s3 = []" "\<not> joblock s3" "mem_ok s3" "queue s3 js"
    using k by (simp_all add: s3_def s2_def mem_ok_def queue_def linked_def)
  from add_job_queue [OF s3] obtain t where t: "add_job ?R ?J s3 = Ok () t" "queue t (js @ [(?J, ?R)])" "mem_ok t" "job_frame t = job_frame s3"
    by blast
  note fr = job_frameD [OF t(4)]
  have "qonstart_entry d s = Ok () t"
    using nd len t(1) open_read [OF k(1) fd ino(1)] ino(2) unfolding qonstart_entry_def is_dot_def [symmetric] sprintf_buf_def
    by (simp add: bnd_def FILENMSZ_def s2_def s3_def min_def)
  moreover have "free_fds t = free_fds s - {i}" using i by (auto simp: free_fds_def fr s3_def s2_def)
  then have "n \<le> card (free_fds t)" using k(5) i by simp
  then have "restart_ok t (js @ [(?J, ?R)]) n"
    using t k s3 fr by (auto simp: restart_ok_def s3_def s2_def)
  ultimately show ?thesis using fr by (auto simp: s3_def s2_def)
qed

lemma sys_unlink_run:
  "k_faults s = [] \<Longrightarrow> \<exists>r e. sys_unlink nm s = Ok r (s\<lparr>k_errno := e, k_dir := (k_dir s)(nm := None)\<rparr>)"
proof (cases "k_dir s nm")
  case None
  then have "(k_dir s)(nm := None) = k_dir s" by auto
  then show "k_faults s = [] \<Longrightarrow> ?thesis" using None by (auto simp: sys_unlink_def)
next
  case (Some ino)
  then show "k_faults s = [] \<Longrightarrow> ?thesis" by (auto simp: sys_unlink_def intro!: exI [of _ "k_errno s"])
qed

lemma entry_removed:
  assumes ok: "restart_ok s js (Suc n)" and cs: "cut_short s d" and len: "length d < 40"
  shows "\<exists>t. qonstart_entry d s = Ok () t \<and> restart_ok t js n \<and> k_dir t = drop_names d (k_dir s) \<and> k_data t = k_data s"
proof -
  from ok have k: "k_faults s = []" "\<not> joblock s" "mem_ok s" "queue s js" "Suc n \<le> card (free_fds s)"
    "\<forall>i. k_ofd s i = None \<longrightarrow> n_sock s i = None" by (simp_all add: restart_ok_def)
  from k(5) have "0 < card (free_fds s)" by simp
  then obtain i where fd: "free_fd s = Some (int i)" and i: "i \<in> free_fds s" by (rule free_fds_ex)
  from cs obtain ino where nd: "\<not> is_dot d" and ino: "k_dir s (req_path REQDIR d) = Some ino" "length (k_data s ino) < sizeof_printreq"
    by (auto simp: cut_short_def req_file_def split: if_splits)
  let ?d = "\<lparr>of_ino = ino, of_pos = length (k_data s ino), of_flags = {}\<rparr>"
  define s2 where "s2 = s\<lparr>k_ofd := (k_ofd s)(int i \<mapsto> ?d)\<rparr>"
  define s3 where "s3 = s2\<lparr>k_ofd := k_ofd s, k_lock := (k_lock s)(ino := (\<lambda>_. F_UNLCK))\<rparr>"
  have ni: "k_ofd s (int i) = None" "n_sock s (int i) = None" using i k(6) by (auto simp: free_fds_def)
  then have bk: "(k_ofd s)(int i := None) = k_ofd s" by auto
  have cl: "net_close (int i) s2 = Ok 0 s3"
    using net_close_file [of s2 "int i" ?d] k(1) ni bk by (simp add: s2_def s3_def)
  define s4 where "s4 = put_log (err_line False (k_strerror s 0)
    (''build_qonstart: can't read '' @ req_path REQDIR d @ '': '' @ k_strerror s EIO)) s3"
  have f4: "k_faults s4 = []" using k(1) by (simp add: s4_def s3_def s2_def)
  from sys_unlink_run [OF f4, of "req_path REQDIR d"] obtain r e where u1:
    "sys_unlink (req_path REQDIR d) s4 = Ok r (s4\<lparr>k_errno := e, k_dir := (k_dir s4)(req_path REQDIR d := None)\<rparr>)" by blast
  define s5 where "s5 = s4\<lparr>k_errno := e, k_dir := (k_dir s4)(req_path REQDIR d := None)\<rparr>"
  have "k_faults s5 = []" using f4 by (simp add: s5_def)
  from sys_unlink_run [OF this, of "req_path DATADIR d"] obtain r' e' where u2:
    "sys_unlink (req_path DATADIR d) s5 = Ok r' (s5\<lparr>k_errno := e', k_dir := (k_dir s5)(req_path DATADIR d := None)\<rparr>)" by blast
  define t where "t = s5\<lparr>k_errno := e', k_dir := (k_dir s5)(req_path DATADIR d := None)\<rparr>"
  have run: "qonstart_entry d s = Ok () t"
    using nd len open_read(1) [OF k(1) fd ino(1)] open_read(2) [OF k(1) fd ino(1), of sizeof_printreq] ino(2) cl u1 u2
    unfolding qonstart_entry_def is_dot_def [symmetric] sprintf_buf_def
    by (simp add: bnd_def FILENMSZ_def min_absorb2 less_imp_le s2_def [symmetric])
      (simp add: s3_def s2_def s4_def [unfolded s3_def s2_def, simplified] s5_def t_def)
  have "free_fds t = free_fds s" by (simp add: free_fds_def t_def s5_def s4_def s3_def s2_def)
  then have "restart_ok t js n" using k
    by (simp add: restart_ok_def mem_ok_def queue_def linked_def t_def s5_def s4_def s3_def s2_def)
  then show ?thesis using run by (intro exI [of _ t]) (simp add: t_def s5_def s4_def s3_def s2_def drop_names_def)
qed

subsection \<open>The whole directory\<close>

lemma recovered_cong:
  assumes "k_data t = k_data s" and "k_dir t (req_path REQDIR d) = k_dir s (req_path REQDIR d)"
  shows "recovered t d = recovered s d" and "cut_short t d = cut_short s d"
  using assms by (simp_all add: recovered_def cut_short_def req_file_def)

lemma drop_names_other: "a \<noteq> d \<Longrightarrow> drop_names d m (req_path REQDIR a) = m (req_path REQDIR a)"
  by (simp add: drop_names_def)

lemma qonstart_entry_run:
  assumes "restart_ok s js (Suc n)" and "length d < 40"
  shows "\<exists>t. qonstart_entry d s = Ok () t \<and> restart_ok t (js @ recovered s d) n \<and> k_data t = k_data s \<and>
    k_dir t = (if cut_short s d then drop_names d (k_dir s) else k_dir s)"
proof (cases "req_file s d")
  case None
  then show ?thesis using entry_skipped [OF assms(1) None assms(2)] by (auto simp: recovered_def cut_short_def)
next
  case (Some bs)
  show ?thesis
  proof (cases "sizeof_printreq \<le> length bs")
    case True
    then show ?thesis using entry_queued [OF assms(1) Some True assms(2)] Some by (auto simp: recovered_def cut_short_def)
  next
    case False
    then have "cut_short s d" using Some by (auto simp: cut_short_def)
    then show ?thesis using entry_removed [OF assms(1) _ assms(2)] Some False by (auto simp: recovered_def)
  qed
qed

fun cleaned :: "'z kern_scheme \<Rightarrow> string list \<Rightarrow> (string \<Rightarrow> nat option) \<Rightarrow> string \<Rightarrow> nat option" where
  "cleaned s [] m = m"
| "cleaned s (d # ds) m = cleaned s ds (if cut_short s d then drop_names d m else m)"

lemma cleaned_cong: "(\<And>d. d \<in> set ds \<Longrightarrow> cut_short t d = cut_short s d) \<Longrightarrow> cleaned t ds m = cleaned s ds m"
  by (induction ds arbitrary: m) auto

lemma qonstart_loop_run:
  assumes "restart_ok s js (length ds)" and "distinct ds" and "\<forall>d \<in> set ds. length d < 40"
  shows "\<exists>t. qonstart_loop ds s = Ok () t \<and> restart_ok t (js @ concat (map (recovered s) ds)) 0 \<and> k_data t = k_data s \<and>
    k_dir t = cleaned s ds (k_dir s)"
  using assms
proof (induction ds arbitrary: s js)
  case Nil
  then show ?case by simp
next
  case (Cons d ds)
  from qonstart_entry_run [of s js "length ds" d] Cons.prems obtain u where u: "qonstart_entry d s = Ok () u"
    "restart_ok u (js @ recovered s d) (length ds)" "k_data u = k_data s"
    "k_dir u = (if cut_short s d then drop_names d (k_dir s) else k_dir s)" by auto
  have same: "recovered u a = recovered s a" "cut_short u a = cut_short s a" if "a \<in> set ds" for a
  proof -
    have "a \<noteq> d" using that Cons.prems(2) by auto
    then have "k_dir u (req_path REQDIR a) = k_dir s (req_path REQDIR a)" using u(4) by (simp add: drop_names_other)
    then show "recovered u a = recovered s a" "cut_short u a = cut_short s a" by (rule recovered_cong [OF u(3)])+
  qed
  from Cons.IH [OF u(2)] Cons.prems obtain t where t: "qonstart_loop ds u = Ok () t"
    "restart_ok t ((js @ recovered s d) @ concat (map (recovered u) ds)) 0" "k_data t = k_data u" "k_dir t = cleaned u ds (k_dir u)" by auto
  have rec: "map (recovered u) ds = map (recovered s) ds" using same by simp
  have "cleaned u ds m = cleaned s ds m" for m using same by (intro cleaned_cong) auto
  then show ?case using u t(1,3,4) t(2) [unfolded rec] by (auto simp: bnd_def)
qed

end
