(* ===== verification/Print_Client.thy ===== *)
theory Print_Client
  imports Print_Base
begin

section \<open>The print command: \<open>printer/print.c\<close>\<close>

text \<open>
  Record \<open>pclient\<close> adds to the environment the name \<open>getpwuid\<close> gives for the user, which files are regular, and
  standard output. \<open>submit_file\<close> builds the request, sends it and the file, and reads the answer; \<open>print_main\<close> is \<open>main\<close>,
  with the command line after the program's name as its argument and the options read as \<open>getopt\<close> of POSIX does.
  The loop that sends the file has as fuel one more than the number of bytes of the file.
\<close>

record pclient = pnet +
  c_pwname :: "string option"
  c_regular :: "nat \<Rightarrow> bool"
  c_stdout :: string

subsection \<open>submit_file\<close>

text \<open>The name fields of the request: what \<open>strcpy\<close>, \<open>strncpy\<close> and \<open>strncat\<close> leave in the uninitialised structure.\<close>

definition req_usernm :: "bytes \<Rightarrow> string option \<Rightarrow> bytes" where
  "req_usernm g pwd = (case pwd of
      None \<Rightarrow> into_buf (get_at g 8 USERNM_MAX) ''unknown''
    | Some nm \<Rightarrow> strncpy nm (USERNM_MAX - 1) @ [NUL])"

definition job_name :: "string \<Rightarrow> string" where
  "job_name fname = (if JOBNM_MAX \<le> length fname then ''... '' @ drop (length fname - JOBNM_MAX + 5) fname else fname)"

definition req_jobnm :: "bytes \<Rightarrow> string \<Rightarrow> bytes" where
  "req_jobnm g fname = into_buf (get_at g (8 + USERNM_MAX) JOBNM_MAX) (job_name fname)"

definition build_req :: "bytes \<Rightarrow> string option \<Rightarrow> string \<Rightarrow> nat \<Rightarrow> bool \<Rightarrow> printreq" where
  "build_req g pwd fname nbytes text =
     \<lparr>pr_size = htonl (word_of_nat nbytes), pr_flags = (if text then htonl PR_TEXT else 0),
      pr_usernm = req_usernm g pwd, pr_jobnm = req_jobnm g fname\<rparr>"

definition short_write :: "int \<Rightarrow> int \<Rightarrow> ('z pclient_scheme, 'a) prog" where
  "short_write nw n =
     (if nw < 0 then err_sys ''can't write to print server''
      else err_quit (''short write ('' @ fmt_d nw @ ''/'' @ fmt_d n @ '') to print server''))"

fun send_loop :: "nat \<Rightarrow> int \<Rightarrow> int \<Rightarrow> ('z pclient_scheme, unit) prog" where
  "send_loop 0 fd sockfd = hang"
| "send_loop (Suc fuel) fd sockfd =
     bnd (sys_read fd IOBUFSZ) (\<lambda>(nr, buf).
     if nr = 0 then ret ()
     else if nr < 0 then halt (Undefined ''writen of a negative length'')
     else
       bnd (writen sockfd buf) (\<lambda>nw.
       if nw \<noteq> nr then short_write nw nr
       else send_loop fuel fd sockfd))"

definition print_out :: "string \<Rightarrow> ('z pclient_scheme, unit) prog" where
  "print_out t = modify (\<lambda>s. s\<lparr>c_stdout := c_stdout s @ t\<rparr>)"

definition file_left :: "int \<Rightarrow> 'z kern_scheme \<Rightarrow> nat" where
  "file_left fd s = (case k_ofd s fd of None \<Rightarrow> 0 | Some d \<Rightarrow> length (k_data s (of_ino d)) - of_pos d)"

definition submit_file :: "int \<Rightarrow> int \<Rightarrow> string \<Rightarrow> nat \<Rightarrow> bool \<Rightarrow> ('z pclient_scheme, unit) prog" where
  "submit_file fd sockfd fname nbytes text =
     bnd (gets (\<lambda>s. build_req (junk s) (c_pwname s) fname nbytes text)) (\<lambda>req.
     bnd (writen sockfd (mem_printreq req)) (\<lambda>nw.
     if nw \<noteq> int sizeof_printreq then short_write nw (int sizeof_printreq)
     else
       bnd (gets (file_left fd)) (\<lambda>n.
       bnd (send_loop (Suc n) fd sockfd) (\<lambda>_.
       bnd (readn sockfd sizeof_printresp) (\<lambda>(nr, bs).
       if nr \<noteq> int sizeof_printresp then err_sys ''can't read response from server''
       else
         let res = of_mem_printresp bs in
         if rs_retcode res \<noteq> 0 then
           bnd (print_out (''rejected: '' @ cstr (rs_msg res) @ [CHR 0x0A])) (\<lambda>_. halt (Exit 1))
         else print_out (''job ID '' @ fmt_d (uint (ntohl (rs_jobid res))) @ [CHR 0x0A]))))))"

subsection \<open>main\<close>

fun opt_chars :: "string \<Rightarrow> bool \<times> bool \<Rightarrow> bool \<times> bool" where
  "opt_chars [] te = te"
| "opt_chars (c # cs) (text, err) = opt_chars cs (if c = CHR ''t'' then (True, err) else (text, True))"

fun getopt_t :: "string list \<Rightarrow> bool \<times> bool \<Rightarrow> (bool \<times> bool) \<times> string list" where
  "getopt_t [] te = (te, [])"
| "getopt_t (a # as) te =
     (if a = ''--'' then (te, as)
      else if length a > 1 \<and> hd a = CHR ''-'' then getopt_t as (opt_chars (tl a) te)
      else (te, a # as))"

fun try_addrs :: "int \<Rightarrow> string \<Rightarrow> nat \<Rightarrow> bool \<Rightarrow> addrinfo list \<Rightarrow> int \<Rightarrow> ('z pclient_scheme, int) prog" where
  "try_addrs fd fname n text [] err = ret err"
| "try_addrs fd fname n text (aip # as) err =
     bnd (connect_retry (ai_addr aip)) (\<lambda>sfd.
     if sfd < 0 then bnd (gets k_errno) (\<lambda>e. try_addrs fd fname n text as e)
     else
       bnd (submit_file fd sfd fname n text) (\<lambda>_.
       halt (Exit 0)))"

definition print_main :: "(int \<Rightarrow> string) \<Rightarrow> string list \<Rightarrow> ('z pclient_scheme, 'a) prog" where
  "print_main gai_strerror argv1 =
     (let ((text, err), rest) = getopt_t argv1 (False, False) in
      if err \<or> length rest \<noteq> 1 then err_quit ''usage: print [-t] filename''
      else
        let fname = hd rest in
        bnd (sys_open fname {}) (\<lambda>fd.
        if fd < 0 then err_sys (''print: can't open '' @ fname)
        else
          bnd (sys_fstat_size fd) (\<lambda>st_size.
          if st_size < 0 then err_sys (''print: can't stat '' @ fname)
          else
            bnd (gets (\<lambda>s. case k_ofd s fd of None \<Rightarrow> False | Some d \<Rightarrow> c_regular s (of_ino d))) (\<lambda>isreg.
            if \<not> isreg then err_quit (''print: '' @ fname @ '' must be a regular file'')
            else
              bnd get_printserver (\<lambda>host.
              case host of
                None \<Rightarrow> err_quit ''print: no print server defined''
              | Some h \<Rightarrow>
                  bnd (getaddrlist h ''print'') (\<lambda>r.
                  case r of
                    Inl e \<Rightarrow> err_quit (''print: getaddrinfo error: '' @ gai_strerror e)
                  | Inr ailist \<Rightarrow>
                      bnd (try_addrs fd fname (nat st_size) text ailist 0) (\<lambda>e.
                      err_exit e (''print: can't contact '' @ h))))))))"

subsection \<open>The request fits its structure\<close>

definition junk_ok :: "bytes \<Rightarrow> bool" where
  "junk_ok g \<longleftrightarrow> IOBUFSZ \<le> length g"

text \<open>A job name of \<open>JOBNM_MAX\<close> bytes or more loses its front, and is 255 bytes long then.\<close>

lemma length_job_name: "length (job_name fname) < JOBNM_MAX"
  by (simp add: job_name_def JOBNM_MAX_def)

lemma job_name_long: "JOBNM_MAX \<le> length fname \<Longrightarrow>
    length (job_name fname) = JOBNM_MAX - 1 \<and> job_name fname = ''... '' @ drop (length fname - 251) fname"
  by (simp add: job_name_def JOBNM_MAX_def)

lemma build_req_ok: "junk_ok g \<Longrightarrow> req_ok (build_req g pwd fname n text)"
  using length_job_name [of fname]
  by (auto simp: req_ok_def build_req_def req_usernm_def req_jobnm_def junk_ok_def length_get_at print_sizes split: option.split)

lemma build_req_names:
  assumes "NUL \<notin> set fname" and "\<And>nm. pwd = Some nm \<Longrightarrow> NUL \<notin> set nm"
  shows "cstr (pr_jobnm (build_req g pwd fname n text)) = job_name fname"
    and "cstr (pr_usernm (build_req g pwd fname n text)) = (case pwd of None \<Rightarrow> ''unknown'' | Some nm \<Rightarrow> take 63 nm)"
proof -
  have "NUL \<notin> set (job_name fname)" using assms(1) by (auto simp: job_name_def dest: in_set_dropD)
  then show "cstr (pr_jobnm (build_req g pwd fname n text)) = job_name fname" by (simp add: build_req_def req_jobnm_def)
  show "cstr (pr_usernm (build_req g pwd fname n text)) = (case pwd of None \<Rightarrow> ''unknown'' | Some nm \<Rightarrow> take 63 nm)"
  proof (cases pwd)
    case None
    then show ?thesis by (simp add: build_req_def req_usernm_def)
  next
    case (Some nm)
    have "NUL \<notin> set (take 63 nm)" using assms(2) [OF Some] by (auto dest: in_set_takeD)
    moreover have "strncpy nm 63 @ [NUL] = take 63 nm @ NUL # replicate (63 - length nm) NUL"
      by (simp add: strncpy_def replicate_append_same)
    ultimately have "cstr (strncpy nm 63 @ [NUL]) = take 63 nm" using cstr_append_NUL [of "take 63 nm"] by simp
    then show ?thesis using Some by (simp add: build_req_def req_usernm_def USERNM_MAX_def)
  qed
qed

subsection \<open>The file is sent whole\<close>

lemma send_loop_pump:
  "send_loop fuel fd sockfd = bnd (pump IOBUFSZ fuel fd sockfd) (\<lambda>r. case r of
      Pumped \<Rightarrow> ret ()
    | Read_failed \<Rightarrow> halt (Undefined ''writen of a negative length'')
    | Short_write nw nr \<Rightarrow> short_write nw nr)"
proof (induction fuel)
  case 0
  show ?case by (simp add: bnd_def fun_eq_iff)
next
  case (Suc fuel)
  show ?case
    by (rule ext) (simp add: Suc bnd_def fun_eq_iff split: outcome.split prod.split)
qed

lemma send_loop_run:
  assumes "n_sock s sockfd = Some k" and "smooth (sk_wr k)" and "k_faults s = []" and "k_ofd s fd = Some d" and "readable d"
    and "length (k_data s (of_ino d)) - of_pos d < fuel"
  shows "\<exists>e w p. send_loop fuel fd sockfd s = Ok () (s\<lparr>k_errno := e,
      n_sock := (n_sock s)(sockfd \<mapsto> k\<lparr>sk_wr := w, sk_out := sk_out k @ drop (of_pos d) (k_data s (of_ino d))\<rparr>),
      k_ofd := (k_ofd s)(fd \<mapsto> d\<lparr>of_pos := p\<rparr>)\<rparr>) \<and> smooth w"
proof -
  have "0 < IOBUFSZ" by (simp add: IOBUFSZ_def)
  from pump_run [OF assms this] obtain e w p where "pump IOBUFSZ fuel fd sockfd s = Ok Pumped (s\<lparr>k_errno := e,
      n_sock := (n_sock s)(sockfd \<mapsto> k\<lparr>sk_wr := w, sk_out := sk_out k @ drop (of_pos d) (k_data s (of_ino d))\<rparr>),
      k_ofd := (k_ofd s)(fd \<mapsto> d\<lparr>of_pos := p\<rparr>)\<rparr>)" "smooth w" by blast
  then show ?thesis unfolding send_loop_pump by (intro exI [of _ e] exI [of _ w] exI [of _ p]) (simp add: bnd_def)
qed

text \<open>What the client sends, and what it makes of the answer.\<close>

definition answer_text :: "printresp \<Rightarrow> string" where
  "answer_text res = (if rs_retcode res \<noteq> 0 then ''rejected: '' @ cstr (rs_msg res) @ [CHR 0x0A]
     else ''job ID '' @ fmt_d (uint (ntohl (rs_jobid res))) @ [CHR 0x0A])"

lemma readn_whole:
  assumes "n_sock s fd = Some k" and "n \<le> length (avail False (sk_in k))"
  shows "\<exists>e r. readn fd n s = Ok (int n, take n (avail False (sk_in k))) (s\<lparr>k_errno := e, n_sock := (n_sock s)(fd \<mapsto> k\<lparr>sk_in := r\<rparr>)\<rparr>)"
proof -
  have "on_sock fd s" using assms(1) by (simp add: on_sock_def)
  from readn_run [OF this, of n] assms obtain t where t: "readn fd n s = Ok (int n, take n (avail False (sk_in k))) t"
    "but_input fd t = but_input fd s" by (auto simp: sk_src_def filled_def)
  from but_inputD [OF t(2) assms(1)] t(1) show ?thesis by auto
qed

lemma submit_file_run:
  assumes k: "n_sock s sockfd = Some k" and sm: "smooth (sk_wr k)" and f: "k_faults s = []" and d: "k_ofd s fd = Some d" "readable d"
    and g: "junk_ok (junk s)" and ans: "avail False (sk_in k) = mem_printresp res @ tail" "length (rs_msg res) = MSGLEN_MAX"
  shows "\<exists>t r w. (if rs_retcode res = 0 then submit_file fd sockfd fname n text s = Ok () t
      else submit_file fd sockfd fname n text s = Abort (Exit 1) t) \<and>
    n_sock t sockfd = Some (k\<lparr>sk_in := r, sk_wr := w, sk_out := sk_out k @
      mem_printreq (build_req (junk s) (c_pwname s) fname n text) @ drop (of_pos d) (k_data s (of_ino d))\<rparr>) \<and>
    c_stdout t = c_stdout s @ answer_text res \<and> k_data t = k_data s \<and> k_dir t = k_dir s"
proof -
  let ?req = "build_req (junk s) (c_pwname s) fname n text"
  have len: "length (mem_printreq ?req) = sizeof_printreq" using build_req_ok [OF g] by simp
  obtain e w where w: "writen sockfd (mem_printreq ?req) s = Ok (int sizeof_printreq)
      (s\<lparr>k_errno := e, n_sock := (n_sock s)(sockfd \<mapsto> k\<lparr>sk_wr := w, sk_out := sk_out k @ mem_printreq ?req\<rparr>)\<rparr>)" "smooth w"
    using writen_all [OF k sm, of "mem_printreq ?req"] len by auto
  let ?k1 = "k\<lparr>sk_wr := w, sk_out := sk_out k @ mem_printreq ?req\<rparr>"
  define s1 where "s1 = s\<lparr>k_errno := e, n_sock := (n_sock s)(sockfd \<mapsto> ?k1)\<rparr>"
  have pre: "n_sock s1 sockfd = Some ?k1" "smooth (sk_wr ?k1)" "k_faults s1 = []" "k_ofd s1 fd = Some d" "readable d"
    "length (k_data s1 (of_ino d)) - of_pos d < Suc (file_left fd s1)"
    using w(2) f d by (simp_all add: s1_def file_left_def)
  from send_loop_run [OF pre] obtain e' w' p where lp: "send_loop (Suc (file_left fd s1)) fd sockfd s1 = Ok () (s1\<lparr>k_errno := e',
      n_sock := (n_sock s1)(sockfd \<mapsto> ?k1\<lparr>sk_wr := w', sk_out := sk_out ?k1 @ drop (of_pos d) (k_data s1 (of_ino d))\<rparr>),
      k_ofd := (k_ofd s1)(fd \<mapsto> d\<lparr>of_pos := p\<rparr>)\<rparr>)" by blast
  let ?k2 = "k\<lparr>sk_wr := w', sk_out := sk_out k @ mem_printreq ?req @ drop (of_pos d) (k_data s (of_ino d))\<rparr>"
  define s2 where "s2 = s\<lparr>k_errno := e', n_sock := (n_sock s)(sockfd \<mapsto> ?k2), k_ofd := (k_ofd s)(fd \<mapsto> d\<lparr>of_pos := p\<rparr>)\<rparr>"
  have lp2: "send_loop (Suc (file_left fd s1)) fd sockfd s1 = Ok () s2" unfolding lp by (simp add: s2_def s1_def)
  have "n_sock s2 sockfd = Some ?k2" "sizeof_printresp \<le> length (avail False (sk_in ?k2))" using ans by (simp_all add: s2_def)
  from readn_whole [OF this] ans obtain e2 r where rd: "readn sockfd sizeof_printresp s2 = Ok (int sizeof_printresp, mem_printresp res)
      (s2\<lparr>k_errno := e2, n_sock := (n_sock s2)(sockfd \<mapsto> ?k2\<lparr>sk_in := r\<rparr>)\<rparr>)" by auto
  define t where "t = s2\<lparr>k_errno := e2, n_sock := (n_sock s2)(sockfd \<mapsto> ?k2\<lparr>sk_in := r\<rparr>), c_stdout := c_stdout s @ answer_text res\<rparr>"
  have "if rs_retcode res = 0 then submit_file fd sockfd fname n text s = Ok () t
      else submit_file fd sockfd fname n text s = Abort (Exit 1) t"
    using w(1) lp2 rd ans(2) unfolding submit_file_def
    by (simp add: bnd_def s1_def [symmetric] Let_def print_out_def answer_text_def t_def del: send_loop.simps)
      (simp add: s2_def)
  then show ?thesis by (intro exI [of _ t] exI [of _ r] exI [of _ w']) (simp add: t_def s2_def)
qed

end
