(* ===== verification/Print_Props.thy ===== *)
theory Print_Props
  imports Print_Deliver Print_Restart Print_Client
begin

section \<open>What the print spooler promises\<close>

text \<open>
  The properties of \<open>printd.c\<close>, \<open>print.c\<close> and \<open>util.c\<close>, with instances on \<open>idle_printd\<close>: a daemon with an empty list, its job file open as
  descriptor 3 and job number 7 as the next one.
\<close>

definition demo_req :: printreq where
  "demo_req = \<lparr>pr_size = 3, pr_flags = 0, pr_usernm = strncpy ''u'' USERNM_MAX, pr_jobnm = strncpy ''f'' JOBNM_MAX\<rparr>"

definition idle_printd :: printd where
  "idle_printd = \<lparr>k_dir = [jobfile_name \<mapsto> 0], k_data = (\<lambda>_. []), k_nino = 5,
     k_ofd = [3 \<mapsto> \<lparr>of_ino = 0, of_pos = 0, of_flags = {O_RDWR}\<rparr>], k_maxfd = 8,
     k_lock = (\<lambda>_ _. F_UNLCK), k_olocks = [], k_faults = [], k_errno = 0, k_strerror = (\<lambda>_. []), k_stderr = [],
     log_to_stderr = False, k_syslog = [], n_sock = Map.empty, n_closed = [], n_gai = (\<lambda>_ _. Inl 0), n_conn = [], n_slept = 0,
     junk = replicate 8192 NUL, jobs = Map.empty, wthreads = Map.empty, brk = 1,
     junk_job = \<lparr>j_next = 0, j_prev = 0, j_jobid = 0, j_req = demo_req\<rparr>, junk_worker = \<lparr>w_next = 0, w_prev = 0, w_tid = 0, w_sockfd = 0\<rparr>,
     jobhead = 0, jobtail = 0, jobfd = 3, nextjob = 7, joblock = False, jobwait = 0, workers = 0, workerlock = False, cancelled = [],
     configlock = False, reread = False, printer = Some [\<lparr>ai_addr = ''a'', ai_canonname = Some ''p''\<rparr>], printer_name = Some ''p'',
     req_entries = None\<rparr>"

lemma demo_req_ok: "req_ok demo_req"
  by (simp add: req_ok_def demo_req_def)

lemma idle_ok: "mem_ok idle_printd" "queue idle_printd []" "\<not> joblock idle_printd" "k_faults idle_printd = []"
  by (simp_all add: idle_printd_def mem_ok_def queue_def linked_def)

lemma demo_next: "nextjob idle_printd = 7" "sint (7 :: 32 word) = 7"
  by (simp_all add: idle_printd_def)

lemma jobfile_other: "spool_name DATADIR i \<noteq> jobfile_name" "spool_name REQDIR i \<noteq> jobfile_name"
  by (simp_all add: spool_name_def jobfile_name_def SPOOLDIR_def DATADIR_def REQDIR_def JOBFILE_def)

subsection \<open>From the client to the list of jobs\<close>

text \<open>
  C14. \<open>client_thread\<close>: whatever pieces the header and the document arrive in, the data file of the new job holds exactly the document, the
  request file the header in host byte order with the text flag set unless the first piece looks like PostScript, the job is the
  last of the list, the client gets its number, its socket is closed, and no worker and no lock stays behind.
\<close>

theorem client_thread_stores:
  fixes s :: "'z printd_scheme"
  assumes "spool_ok sockfd k f s" and "queue s js" and "req_ok req"
    and "k_dir s (spool_name DATADIR (nextjob s)) = None" and "k_dir s (spool_name REQDIR (nextjob s)) = None"
    and "avail True (sk_in k) = mem_printreq (req\<lparr>pr_size := htonl (pr_size req), pr_flags := htonl (pr_flags req)\<rparr>) @ data"
    and "workers s = 0" and "\<not> workerlock s" and "k_ofd s sockfd = Some d"
  shows "\<exists>t w j u. client_thread tid sockfd s = Ok 0 t \<and> (data \<noteq> [] \<longrightarrow> 0 < j) \<and>
    queue t (js @ [(nextjob s, req\<lparr>pr_flags := text_flag (junk s) data j (pr_flags req)\<rparr>)]) \<and> mem_ok t \<and>
    k_dir t = (k_dir s)(spool_name DATADIR (nextjob s) \<mapsto> k_nino s, spool_name REQDIR (nextjob s) \<mapsto> Suc (k_nino s)) \<and>
    k_data t = (k_data s)(k_nino s := data,
      Suc (k_nino s) := mem_printreq (req\<lparr>pr_flags := text_flag (junk s) data j (pr_flags req)\<rparr>)) \<and>
    n_closed t = n_closed s @ [k\<lparr>sk_in := u, sk_wr := w, sk_out := sk_out k @ mem_printresp (accept_res (junk s) (nextjob s))\<rparr>] \<and>
    k_ofd t = (k_ofd s)(sockfd := None) \<and> n_sock t = (n_sock s)(sockfd := None) \<and>
    workers t = 0 \<and> \<not> workerlock t \<and> \<not> joblock t \<and> k_faults t = [] \<and> nextjob t = next_no (nextjob s)"
  by (rule client_thread_run [OF assms])

definition demo_sent :: bytes where
  "demo_sent = mem_printreq (demo_req\<lparr>pr_size := htonl 3, pr_flags := htonl 0\<rparr>)"

definition demo_sock :: sock where
  "demo_sock = \<lparr>sk_in = [Data (take 100 demo_sent), Data (drop 100 demo_sent), Data ''a'', Data ''bc'', Quiet], sk_wr = [Takes 7], sk_out = []\<rparr>"

definition demo_spool :: printd where
  "demo_spool = idle_printd\<lparr>n_sock := [0 \<mapsto> demo_sock], k_ofd := (k_ofd idle_printd)(0 \<mapsto> \<lparr>of_ino = 4, of_pos = 0, of_flags = {O_RDWR}\<rparr>)\<rparr>"

lemma length_demo_sent: "length demo_sent = 328"
  using length_mem_printreq [of "demo_req\<lparr>pr_size := htonl 3, pr_flags := htonl 0\<rparr>"] demo_req_ok
  by (simp add: demo_sent_def req_ok_def print_layout)

lemma demo_avail: "avail True (sk_in demo_sock) = demo_sent @ ''abc''"
  using length_demo_sent by (auto simp: demo_sock_def)

lemma demo_spool_ok: "spool_ok 0 demo_sock 1 demo_spool" "queue demo_spool []"
  by (simp_all add: spool_ok_def demo_spool_def idle_printd_def demo_sock_def smooth_def free_slot_def free_fd_def upt_rec mem_ok_def
      queue_def linked_def)

lemma demo_spool_prems:
  "req_ok demo_req" "k_dir demo_spool (spool_name DATADIR (nextjob demo_spool)) = None"
  "k_dir demo_spool (spool_name REQDIR (nextjob demo_spool)) = None"
  "avail True (sk_in demo_sock) = mem_printreq (demo_req\<lparr>pr_size := htonl (pr_size demo_req), pr_flags := htonl (pr_flags demo_req)\<rparr>) @ ''abc''"
  "workers demo_spool = 0" "\<not> workerlock demo_spool" "k_ofd demo_spool 0 = Some \<lparr>of_ino = 4, of_pos = 0, of_flags = {O_RDWR}\<rparr>"
  "nextjob demo_spool = 7" "junk demo_spool = replicate 8192 NUL" "k_nino demo_spool = 5" "pr_flags demo_req = 0"
  using demo_req_ok demo_avail jobfile_other
  by (simp_all add: demo_spool_def idle_printd_def demo_sent_def demo_req_def)

theorem client_thread_stores_witness:
  "\<exists>t j. client_thread 9 0 demo_spool = Ok 0 t \<and> queue t [(7, demo_req\<lparr>pr_flags := text_flag (replicate 8192 NUL) ''abc'' j 0\<rparr>)] \<and>
    k_data t 5 = ''abc'' \<and> 0 < j"
proof -
  from client_thread_stores [OF demo_spool_ok demo_spool_prems(1-7), of 9] obtain t j where t: "client_thread 9 0 demo_spool = Ok 0 t" "0 < j"
    "queue t ([] @ [(nextjob demo_spool, demo_req\<lparr>pr_flags := text_flag (junk demo_spool) ''abc'' j (pr_flags demo_req)\<rparr>)])"
    "k_data t = (k_data demo_spool)(k_nino demo_spool := ''abc'', Suc (k_nino demo_spool) :=
      mem_printreq (demo_req\<lparr>pr_flags := text_flag (junk demo_spool) ''abc'' j (pr_flags demo_req)\<rparr>))" by blast
  then show ?thesis by (intro exI [of _ t] exI [of _ j]) (simp add: demo_spool_prems(8-11))
qed

lemma hton_ntoh: "htonl (ntohl w) = w"
  by (simp add: htonl_def ntohl_def del: of_mem_rev)

lemma length_fmt_d32: "length (fmt_d (sint (i :: 32 word))) \<le> 11"
proof -
  have "- (2 ^ 31) \<le> sint i" "sint i < 2 ^ 31" using sint_ge [of i] sint_lt [of i] by simp_all
  then have "nat \<bar>sint i\<bar> < 10 ^ 10" by auto
  then have "length (fmt_u (nat \<bar>sint i\<bar>)) \<le> 10" by (rule length_fmt_u_le) simp
  then show ?thesis by (auto simp: fmt_d_def)
qed

lemma accept_res_msg: "512 \<le> length g \<Longrightarrow> length (rs_msg (accept_res g i)) = MSGLEN_MAX"
  using length_fmt_d32 [of i] by (simp add: accept_res_def MSGLEN_MAX_def)

text \<open>
  C15. \<open>print\<close> and \<open>printd\<close> together: when the bytes \<open>submit_file\<close> wrote reach \<open>client_thread\<close>, in whatever pieces, and its answer
  the client, then \<open>print\<close> ends with the job number on its output, and the job at the end of the daemon's list has the file name (cut to
  its last 251 bytes behind three dots when it is long) and the user's name, with the whole file as its document.
\<close>

theorem print_reaches_spool:
  fixes c :: "'c pclient_scheme" and s :: "'z printd_scheme"
  assumes "n_sock c cfd = Some kc" and "smooth (sk_wr kc)" and "sk_out kc = []" and "k_faults c = []" and "k_ofd c ffd = Some d"
    and "readable d" and "of_pos d = 0" and "junk_ok (junk c)" and "NUL \<notin> set fname" and "c_pwname c = Some user" and "NUL \<notin> set user"
    and "spool_ok sockfd k f s" and "queue s js" and "k_dir s (spool_name DATADIR (nextjob s)) = None"
    and "k_dir s (spool_name REQDIR (nextjob s)) = None" and "workers s = 0" and "\<not> workerlock s" and "k_ofd s sockfd = Some d'"
    and "512 \<le> length (junk s)"
    and "avail False (sk_in kc) = mem_printresp (accept_res (junk s) (nextjob s))"
    and "avail True (sk_in k) = mem_printreq (build_req (junk c) (c_pwname c) fname n plain) @ k_data c (of_ino d)"
  shows "(\<exists>ct kc'. submit_file ffd cfd fname n plain c = Ok () ct \<and> n_sock ct cfd = Some kc' \<and> sk_out kc' = avail True (sk_in k) \<and>
      c_stdout ct = c_stdout c @ ''job ID '' @ fmt_d (uint (nextjob s)) @ [CHR 0x0A]) \<and>
    (\<exists>t req. client_thread tid sockfd s = Ok 0 t \<and> queue t (js @ [(nextjob s, req)]) \<and>
      cstr (pr_jobnm req) = job_name fname \<and> cstr (pr_usernm req) = take 63 user \<and> pr_size req = word_of_nat n \<and>
      k_data t (k_nino s) = k_data c (of_ino d) \<and> k_dir t (spool_name DATADIR (nextjob s)) = Some (k_nino s))"
proof -
  let ?req = "build_req (junk c) (c_pwname c) fname n plain" and ?doc = "k_data c (of_ino d)"
  have "avail False (sk_in kc) = mem_printresp (accept_res (junk s) (nextjob s)) @ []" using assms(20) by simp
  note run = submit_file_run [OF assms(1,2,4-6,8) this accept_res_msg]
  from run [OF assms(19), of fname n plain] obtain ct r w where
    ct: "submit_file ffd cfd fname n plain c = Ok () ct" "n_sock ct cfd = Some (kc\<lparr>sk_in := r, sk_wr := w, sk_out := mem_printreq ?req @ ?doc\<rparr>)"
      "c_stdout ct = c_stdout c @ answer_text (accept_res (junk s) (nextjob s))"
    using assms(3,7) by (auto simp: accept_res_def)
  define req where "req = ?req\<lparr>pr_size := ntohl (pr_size ?req), pr_flags := ntohl (pr_flags ?req)\<rparr>"
  have rq: "req\<lparr>pr_size := htonl (pr_size req), pr_flags := htonl (pr_flags req)\<rparr> = ?req" by (simp add: req_def hton_ntoh)
  have ro: "req_ok req" using build_req_ok [OF assms(8)] by (simp add: req_def req_ok_def)
  have nm: "cstr (pr_jobnm req) = job_name fname" "cstr (pr_usernm req) = take 63 user" "pr_size req = word_of_nat n"
    using build_req_names [OF assms(9), of "c_pwname c"] assms(10,11) by (simp_all add: req_def) (simp add: build_req_def)
  have av: "avail True (sk_in k) = mem_printreq (req\<lparr>pr_size := htonl (pr_size req), pr_flags := htonl (pr_flags req)\<rparr>) @ ?doc"
    using assms(21) rq by simp
  from client_thread_run [OF assms(12,13) ro assms(14,15) av assms(16-18), of tid] obtain t j where t: "client_thread tid sockfd s = Ok 0 t"
    "queue t (js @ [(nextjob s, req\<lparr>pr_flags := text_flag (junk s) ?doc j (pr_flags req)\<rparr>)])"
    "k_dir t = (k_dir s)(spool_name DATADIR (nextjob s) \<mapsto> k_nino s, spool_name REQDIR (nextjob s) \<mapsto> Suc (k_nino s))"
    "k_data t = (k_data s)(k_nino s := ?doc, Suc (k_nino s) := mem_printreq (req\<lparr>pr_flags := text_flag (junk s) ?doc j (pr_flags req)\<rparr>))"
    by blast
  have "\<exists>t req. client_thread tid sockfd s = Ok 0 t \<and> queue t (js @ [(nextjob s, req)]) \<and>
      cstr (pr_jobnm req) = job_name fname \<and> cstr (pr_usernm req) = take 63 user \<and> pr_size req = word_of_nat n \<and>
      k_data t (k_nino s) = ?doc \<and> k_dir t (spool_name DATADIR (nextjob s)) = Some (k_nino s)"
    using t nm spool_name_neq by (intro exI [of _ t] exI [of _ "req\<lparr>pr_flags := text_flag (junk s) ?doc j (pr_flags req)\<rparr>"]) simp
  then show ?thesis using ct assms(21)
    by (intro conjI exI [of _ ct] exI [of _ "kc\<lparr>sk_in := r, sk_wr := w, sk_out := mem_printreq ?req @ ?doc\<rparr>"])
      (simp_all add: answer_text_def accept_res_def)
qed

definition demo_wire :: bytes where
  "demo_wire = mem_printreq (build_req (replicate 8192 NUL) (Some ''u'') ''f'' 3 False) @ ''abc''"

definition wire_sock :: sock where
  "wire_sock = \<lparr>sk_in = [Data (take 10 demo_wire), Data (drop 10 demo_wire), Quiet], sk_wr = [], sk_out = []\<rparr>"

definition wire_spool :: printd where
  "wire_spool = demo_spool\<lparr>n_sock := [0 \<mapsto> wire_sock]\<rparr>"

definition demo_client :: pclient where
  "demo_client = \<lparr>k_dir = Map.empty, k_data = (\<lambda>_. ''abc''), k_nino = 1, k_ofd = [1 \<mapsto> \<lparr>of_ino = 0, of_pos = 0, of_flags = {}\<rparr>], k_maxfd = 8,
     k_lock = (\<lambda>_ _. F_UNLCK), k_olocks = [], k_faults = [], k_errno = 0, k_strerror = (\<lambda>_. []), k_stderr = [],
     log_to_stderr = True, k_syslog = [],
     n_sock = [0 \<mapsto> \<lparr>sk_in = [Data (mem_printresp (accept_res (replicate 8192 NUL) 7))], sk_wr = [], sk_out = []\<rparr>],
     n_closed = [], n_gai = (\<lambda>_ _. Inl 0), n_conn = [], n_slept = 0, junk = replicate 8192 NUL,
     c_pwname = Some ''u'', c_regular = (\<lambda>_. True), c_stdout = []\<rparr>"

lemma wire_avail: "avail True (sk_in wire_sock) = demo_wire"
proof -
  have "req_ok (build_req (replicate 8192 NUL) (Some ''u'') ''f'' 3 False)" by (rule build_req_ok) (simp add: junk_ok_def IOBUFSZ_def)
  then have "length demo_wire = 331" by (simp add: demo_wire_def print_layout)
  then have "take 10 demo_wire \<noteq> []" "drop 10 demo_wire \<noteq> []" by auto
  then show ?thesis by (simp add: wire_sock_def)
qed

lemma wire_spool_ok: "spool_ok 0 wire_sock 1 wire_spool" "queue wire_spool []"
  using demo_spool_ok
  by (auto simp: spool_ok_def wire_spool_def wire_sock_def smooth_def free_slot_def free_fd_def mem_ok_def queue_def linked_def demo_spool_def)

theorem print_reaches_spool_witness:
  "(\<exists>ct. submit_file 1 0 ''f'' 3 False demo_client = Ok () ct \<and> c_stdout ct = ''job ID 7'' @ [CHR 0x0A]) \<and>
   (\<exists>t req. client_thread 9 0 wire_spool = Ok 0 t \<and> queue t [(7, req)] \<and> cstr (pr_jobnm req) = ''f'' \<and> cstr (pr_usernm req) = ''u'' \<and>
     k_data t 5 = ''abc'')"
proof -
  let ?kc = "\<lparr>sk_in = [Data (mem_printresp (accept_res (replicate 8192 NUL) 7))], sk_wr = [], sk_out = []\<rparr> :: sock"
  let ?d = "\<lparr>of_ino = 0, of_pos = 0, of_flags = {}\<rparr> :: ofd"
  have c: "n_sock demo_client 0 = Some ?kc" "smooth (sk_wr ?kc)" "sk_out ?kc = []" "k_faults demo_client = []" "k_ofd demo_client 1 = Some ?d"
    "readable ?d" "of_pos ?d = 0" "junk_ok (junk demo_client)" "NUL \<notin> set ''f''" "c_pwname demo_client = Some ''u''" "NUL \<notin> set ''u''"
    by (simp_all add: demo_client_def smooth_def readable_def junk_ok_def IOBUFSZ_def)
  have n: "nextjob wire_spool = 7" "junk wire_spool = replicate 8192 NUL" "k_nino wire_spool = 5"
    by (simp_all add: wire_spool_def demo_spool_def idle_printd_def)
  have s: "k_dir wire_spool (spool_name DATADIR (nextjob wire_spool)) = None" "k_dir wire_spool (spool_name REQDIR (nextjob wire_spool)) = None"
    "workers wire_spool = 0" "\<not> workerlock wire_spool" "k_ofd wire_spool 0 = Some \<lparr>of_ino = 4, of_pos = 0, of_flags = {O_RDWR}\<rparr>"
    using jobfile_other by (simp_all add: wire_spool_def demo_spool_def idle_printd_def)
  have w: "512 \<le> length (junk wire_spool)" by (simp add: n)
  have a: "avail False (sk_in ?kc) = mem_printresp (accept_res (junk wire_spool) (nextjob wire_spool))"
    using arg_cong [OF length_mem_printresp [OF accept_res_msg [OF w, of 7]], of "\<lambda>n. 0 < n"] n
    by (auto simp: print_layout)
  have b: "avail True (sk_in wire_sock) = mem_printreq (build_req (junk demo_client) (c_pwname demo_client) ''f'' 3 False) @
      k_data demo_client (of_ino ?d)" unfolding wire_avail by (simp add: demo_wire_def demo_client_def)
  have "digit_char 7 = CHR ''7''" by code_simp
  then have e: "c_stdout demo_client = []" "k_data demo_client (of_ino ?d) = ''abc''" "fmt_d (uint (7 :: 32 word)) = ''7''" "job_name ''f'' = ''f''"
    by (simp_all add: demo_client_def job_name_def JOBNM_MAX_def fmt_d_def fmt_u.simps)
  from print_reaches_spool [OF c wire_spool_ok s w a b, of 9] show ?thesis unfolding n e by auto
qed

subsection \<open>The list of jobs\<close>

text \<open>
  C16. The doubly linked list of jobs is a queue with a put-back: \<open>add_job\<close> appends, \<open>remove_job\<close> of the head gives the first job and leaves the
  others, \<open>replace_job\<close> puts it in front again. None of them touches a freed or unallocated node, and nothing else changes.
\<close>

theorem job_list_queue:
  assumes "k_faults s = []" and "\<not> joblock s" and "mem_ok s" and "queue s js"
  shows "(\<exists>t. add_job r i s = Ok () t \<and> queue t (js @ [(i, r)]) \<and> mem_ok t \<and> job_frame t = job_frame s) \<and>
    (js \<noteq> [] \<longrightarrow> (\<exists>t u. remove_job (jobhead s) s = Ok () t \<and> holds_job t (jobhead s) (hd js) (tl js) \<and> mem_ok t \<and> job_frame t = job_frame s \<and>
       replace_job (jobhead s) t = Ok () u \<and> queue u js \<and> mem_ok u \<and> job_frame u = job_frame s))"
proof (rule conjI [OF add_job_queue [OF assms]], rule impI)
  assume "js \<noteq> []"
  then have "queue s (hd js # tl js)" using assms(4) by simp
  from remove_job_queue [OF this] obtain t where t: "remove_job (jobhead s) s = Ok () t" "holds_job t (jobhead s) (hd js) (tl js)"
    "mem_ok s \<longrightarrow> mem_ok t" "job_frame t = job_frame s" "joblock t = joblock s" by blast
  with assms(2) have "\<not> joblock t" by simp
  from replace_job_queue [OF this t(2)] show "\<exists>t u. remove_job (jobhead s) s = Ok () t \<and> holds_job t (jobhead s) (hd js) (tl js) \<and>
       mem_ok t \<and> job_frame t = job_frame s \<and>
       replace_job (jobhead s) t = Ok () u \<and> queue u js \<and> mem_ok u \<and> job_frame u = job_frame s"
    using t assms(3) \<open>js \<noteq> []\<close> by auto
qed

theorem job_list_queue_witness: "\<exists>t. add_job demo_req 7 idle_printd = Ok () t \<and> queue t [(7, demo_req)] \<and> mem_ok t"
  using job_list_queue [OF idle_ok(4,3,1,2), of demo_req 7] by auto

subsection \<open>Printing\<close>


text \<open>A daemon with one job, and a printer that answers it with success.\<close>

definition demo_ipp :: bytes where
  "demo_ipp = [CHR 0x01, CHR 0x01] @ rev (mem16 0) @ rev (mem32 7) @ [CHR 0x03]"

definition demo_answer :: bytes where
  "demo_answer = ''HTTP/1.1'' @ '' '' @ fmt_u 200 @ CHR '' '' # ''OK'' @ CHR 0x0D # [CHR 0x0A] @ CL @ '' '' @ fmt_u 9 @ CHR 0x0D # [] @ HEADER_END @ demo_ipp"

definition demo_printer :: sock where
  "demo_printer = \<lparr>sk_in = [Data demo_answer], sk_wr = [], sk_out = []\<rparr>"

definition demo_print :: printd where
  "demo_print = idle_printd\<lparr>jobs := [1 \<mapsto> \<lparr>j_next = 0, j_prev = 0, j_jobid = 7, j_req = demo_req\<rparr>], brk := 2, jobhead := 1, jobtail := 1,
     k_dir := (k_dir idle_printd)(spool_name DATADIR 7 \<mapsto> 1, spool_name REQDIR 7 \<mapsto> 2), k_data := (\<lambda>_. [])(1 := ''abc''),
     n_conn := [Inl ECONNREFUSED, Inr demo_printer]\<rparr>"



lemma demo_print_ok:
  "queue demo_print [(7, demo_req)]" "mem_ok demo_print" "\<not> joblock demo_print" "k_ofd demo_print (jobfd demo_print) = Some \<lparr>of_ino = 0, of_pos = 0, of_flags = {O_RDWR}\<rparr>"
  "\<not> reread demo_print" "\<not> configlock demo_print" "free_slot 0 demo_print" "free_fd (demo_print\<lparr>k_ofd := (k_ofd demo_print)(0 \<mapsto> d)\<rparr>) = Some 1"
  "n_sock demo_print 1 = None" "n_conn demo_print = map Inl [ECONNREFUSED] @ Inr demo_printer # []"
  "k_dir demo_print (spool_name DATADIR 7) = Some 1" "printer demo_print = Some (\<lparr>ai_addr = ''a'', ai_canonname = Some ''p''\<rparr> # [])"
  "printer_name demo_print = Some ''p''" "ipp_header ''p'' 7 demo_req \<noteq> None" "k_data demo_print 1 = ''abc''"
proof -
  have "jl.dlist (jobs demo_print) (jobhead demo_print) (jobtail demo_print) [1]"
    unfolding jl.dlist_def by (simp add: demo_print_def idle_printd_def)
  moreover have "map (content (jobs demo_print)) [1] = map Some [(7, demo_req)]" by (simp add: demo_print_def content_def)
  ultimately show "queue demo_print [(7, demo_req)]" unfolding queue_def linked_def by blast
  show "ipp_header ''p'' 7 demo_req \<noteq> None" unfolding ipp_header_fits
    by (simp add: demo_req_def doc_format_def strncpy_def print_sizes cstr_def)
qed (use spool_name_neq [of 7] in \<open>simp_all add: demo_print_def idle_printd_def queue_def linked_def mem_ok_def free_slot_def free_fd_def upt_rec\<close>)





subsection \<open>Restart, and job numbers\<close>






text \<open>
  The job number survives a restart: after \<open>update_jobno\<close>, \<open>init_request\<close> of a new daemon (no other process holding a lock on the job file) sets
  \<open>nextjob\<close> to the number written, provided the file held nothing or an earlier number of at most as many digits.
\<close>

theorem jobno_survives:
  fixes s :: "'z printd_scheme" and v :: "'y printd_scheme"
  assumes "k_faults s = []" and "k_ofd s (jobfd s) = Some d" and "writable d" and "0 < sint (nextjob s)"
    and "length (k_data s (of_ino d)) \<le> length (fmt_d (sint (nextjob s)))"
    and "k_faults v = []" and "free_fd v = Some fd" and "k_dir v jobfile_name = Some (of_ino d)" and "no_locks (of_ino d) v"
  shows "\<exists>t. update_jobno s = Ok () t \<and> (k_data v = k_data t \<longrightarrow>
    (\<exists>u. init_request v = Ok () u \<and> nextjob u = nextjob s \<and> (\<forall>b. k_lock u (of_ino d) b = F_WRLCK)))"
proof -
  let ?n = "fmt_d (sint (nextjob s))"
  obtain n where n: "sint (nextjob s) = int n" "n < 2 ^ 31" using assms(4) sint_lt [of "nextjob s"] that [of "nat (sint (nextjob s))"] by simp
  from update_jobno_run [OF assms(1-3)] obtain t where t: "update_jobno s = Ok () t"
    "k_data t = (k_data s)(of_ino d := put_at (k_data s (of_ino d)) 0 ?n)" by simp
  have "put_at (k_data s (of_ino d)) 0 ?n = ?n" using assms(5) by (simp add: put_at_def)
  then have "jobno_of (junk v) (k_data t (of_ino d)) = nextjob s"
    using jobno_of_fmt [OF n(2), of "[]" "junk v"] t(2) by (simp add: n(1) [symmetric])
  then show ?thesis using t(1) init_request_run [OF assms(6-9)] by auto
qed

theorem jobno_survives_witness:
  "\<exists>t u. update_jobno idle_printd = Ok () t \<and> init_request (idle_printd\<lparr>k_data := k_data t\<rparr>) = Ok () u \<and> nextjob u = 7"
proof -
  let ?d = "\<lparr>of_ino = 0, of_pos = 0, of_flags = {O_RDWR}\<rparr> :: ofd"
  from update_jobno_run [of idle_printd ?d] obtain t where t: "update_jobno idle_printd = Ok () t"
    by (auto simp: idle_printd_def writable_def)
  let ?v = "idle_printd\<lparr>k_data := k_data t\<rparr>"
  have "k_faults idle_printd = []" "k_ofd idle_printd (jobfd idle_printd) = Some ?d" "writable ?d" "0 < sint (nextjob idle_printd)"
    "length (k_data idle_printd (of_ino ?d)) \<le> length (fmt_d (sint (nextjob idle_printd)))"
    "k_faults ?v = []" "free_fd ?v = Some 0" "k_dir ?v jobfile_name = Some (of_ino ?d)" "no_locks (of_ino ?d) ?v"
    by (simp_all add: idle_printd_def writable_def free_fd_def upt_rec no_locks_def)
  from jobno_survives [OF this] t show ?thesis by (auto simp: demo_next)
qed

text \<open>
  One daemon at a time: while another process holds a lock on the job file, \<open>init_request\<close> ends with the message that the daemon is already running,
  and has changed no file.
\<close>

theorem second_daemon_refused:
  assumes "k_faults s = []" and "free_fd s = Some fd" and "k_dir s jobfile_name = Some ino"
    and "l \<in> set (k_olocks s)" and "ol_ino l = ino" and "ol_to l = None \<or> ol_to l = Some (Suc b)"
  shows "\<exists>t. init_request s = Abort (Log_quit ''daemon already running'') t \<and> k_data t = k_data s \<and> k_dir t = k_dir s"
  by (rule init_request_locked [OF assms])

theorem second_daemon_refused_witness:
  "\<exists>t. init_request (idle_printd\<lparr>k_olocks := [\<lparr>ol_pid = 4, ol_ino = 0, ol_type = F_WRLCK, ol_from = 0, ol_to = None\<rparr>]\<rparr>) =
     Abort (Log_quit ''daemon already running'') t"
proof -
  let ?l = "\<lparr>ol_pid = 4, ol_ino = 0, ol_type = F_WRLCK, ol_from = 0, ol_to = None\<rparr> :: olock"
  have "k_faults (idle_printd\<lparr>k_olocks := [?l]\<rparr>) = []" "free_fd (idle_printd\<lparr>k_olocks := [?l]\<rparr>) = Some 0"
    "k_dir (idle_printd\<lparr>k_olocks := [?l]\<rparr>) jobfile_name = Some 0" "?l \<in> set (k_olocks (idle_printd\<lparr>k_olocks := [?l]\<rparr>))" "ol_ino ?l = 0"
    "ol_to ?l = None \<or> ol_to ?l = Some (Suc 0)" by (simp_all add: idle_printd_def free_fd_def upt_rec)
  from second_daemon_refused [OF this] show ?thesis by blast
qed

text \<open>
  What \<open>client_thread\<close> does not do is write the number to the job file: a daemon that ends after it accepted a job, and before the printer thread took one,
  gives the number of that job to the next job after the restart, whose data file then replaces the accepted one's.
\<close>

theorem jobno_reused_after_crash:
  fixes s :: "'z printd_scheme" and v :: "'y printd_scheme"
  assumes "spool_ok sockfd k f s" and "queue s js" and "req_ok req"
    and "k_dir s (spool_name DATADIR (nextjob s)) = None" and "k_dir s (spool_name REQDIR (nextjob s)) = None"
    and "avail True (sk_in k) = mem_printreq (req\<lparr>pr_size := htonl (pr_size req), pr_flags := htonl (pr_flags req)\<rparr>) @ data"
    and "workers s = 0" and "\<not> workerlock s" and "k_ofd s sockfd = Some d" and "0 < sint (nextjob s)"
    and "k_dir s jobfile_name = Some ino" and "k_data s ino = fmt_d (sint (nextjob s))" and "ino < k_nino s"
    and "k_faults v = []" and "free_fd v = Some fd" and "no_locks ino v" and "client_thread tid sockfd s = Ok 0 t"
    and "k_dir v = k_dir t" and "k_data v = k_data t"
  shows "\<exists>u. init_request v = Ok () u \<and> nextjob u = nextjob s \<and> k_dir u (spool_name DATADIR (nextjob u)) = Some (k_nino s) \<and>
    k_data u (k_nino s) = data"
proof -
  from client_thread_run [OF assms(1-9), of tid] assms(17) obtain j where t:
    "k_dir t = (k_dir s)(spool_name DATADIR (nextjob s) \<mapsto> k_nino s, spool_name REQDIR (nextjob s) \<mapsto> Suc (k_nino s))"
    "k_data t = (k_data s)(k_nino s := data, Suc (k_nino s) := mem_printreq (req\<lparr>pr_flags := text_flag (junk s) data j (pr_flags req)\<rparr>))"
    by auto
  obtain n where n: "sint (nextjob s) = int n" "n < 2 ^ 31" using assms(10) sint_lt [of "nextjob s"] that [of "nat (sint (nextjob s))"] by simp
  have dir: "k_dir v jobfile_name = Some ino" using assms(11,18) t(1) jobfile_other [symmetric] by simp
  have "k_data v ino = fmt_d (sint (nextjob s))" using assms(12,13,19) t(2) by simp
  then have "jobno_of (junk v) (k_data v ino) = nextjob s"
    using jobno_of_fmt [OF n(2), of "[]" "junk v"] by (simp add: n(1) [symmetric])
  with init_request_run [OF assms(14,15) dir assms(16)] obtain u where "init_request v = Ok () u" "nextjob u = nextjob s"
    "k_data u = k_data v" "k_dir u = k_dir v" by auto
  then show ?thesis using assms(18,19) t spool_name_neq by simp
qed

definition crash_spool :: printd where
  "crash_spool = demo_spool\<lparr>k_data := (\<lambda>_. [])(0 := fmt_d 7)\<rparr>"

theorem jobno_reused_after_crash_witness:
  "\<exists>t u. client_thread 9 0 crash_spool = Ok 0 t \<and> init_request (idle_printd\<lparr>k_dir := k_dir t, k_data := k_data t\<rparr>) = Ok () u \<and>
     nextjob u = nextjob crash_spool \<and> k_data u 5 = ''abc''"
proof -
  have s: "spool_ok 0 demo_sock 1 crash_spool" "queue crash_spool []"
    using demo_spool_ok by (simp_all add: spool_ok_def crash_spool_def free_slot_def free_fd_def mem_ok_def queue_def linked_def)
  have c: "nextjob crash_spool = nextjob demo_spool" "k_dir crash_spool = k_dir demo_spool" "workers crash_spool = workers demo_spool"
    "workerlock crash_spool = workerlock demo_spool" "k_ofd crash_spool = k_ofd demo_spool" by (simp_all add: crash_spool_def)
  note p = demo_spool_prems(1-7) [folded c]
  from client_thread_run [OF s p, of 9] obtain t where t: "client_thread 9 0 crash_spool = Ok 0 t" by blast
  let ?v = "idle_printd\<lparr>k_dir := k_dir t, k_data := k_data t\<rparr>"
  have e: "0 < sint (nextjob crash_spool)" "k_dir crash_spool jobfile_name = Some 0" "k_data crash_spool 0 = fmt_d (sint (nextjob crash_spool))"
    "0 < k_nino crash_spool" "k_faults ?v = []" "free_fd ?v = Some 0" "no_locks 0 ?v" "k_dir ?v = k_dir t" "k_data ?v = k_data t"
    by (simp_all add: crash_spool_def demo_spool_def idle_printd_def free_fd_def upt_rec no_locks_def)
  have "k_nino crash_spool = 5" using demo_spool_prems(10) by (simp add: crash_spool_def)
  then show ?thesis using t jobno_reused_after_crash [OF s p e(1-7) t e(8,9)] by auto
qed

subsection \<open>The printer's side\<close>

text \<open>
  C24. Exactly when the IPP header of a job fits its buffers (\<open>ibuf\<close> of 512 bytes, \<open>str\<close> of 64): the printer's name has at most 52 bytes, the names in the request are terminated,
  and together they stay below 353 bytes; so a user name and a file name that \<open>print\<close> itself sends can overflow \<open>ibuf\<close>.
\<close>

theorem ipp_header_bound:
  "(ipp_header prname jobid req \<noteq> None \<longleftrightarrow>
      length prname \<le> 52 \<and> NUL \<in> set (pr_usernm req) \<and> NUL \<in> set (pr_jobnm req) \<and>
      length prname + length (cstr (pr_usernm req)) + length (cstr (pr_jobnm req)) + length (doc_format req) < 353) \<and>
   ipp_header (replicate 40 CHR ''p'') jobid (build_req (replicate 8192 NUL) (Some (replicate 63 CHR ''u'')) (replicate 255 CHR ''f'') n False) = None"
proof -
  let ?r = "build_req (replicate 8192 NUL) (Some (replicate 63 CHR ''u'')) (replicate 255 CHR ''f'') n False"
  have "cstr (pr_jobnm ?r) = replicate 255 CHR ''f''" "cstr (pr_usernm ?r) = replicate 63 CHR ''u''"
    using build_req_names [of "replicate 255 CHR ''f''" "Some (replicate 63 CHR ''u'')"] by (simp_all add: job_name_def JOBNM_MAX_def)
  then have "\<not> length (replicate 40 CHR ''p'') + length (cstr (pr_usernm ?r)) + length (cstr (pr_jobnm ?r)) + length (doc_format ?r) < 353"
    by simp
  then have "ipp_header (replicate 40 CHR ''p'') jobid ?r = None"
    using ipp_header_fits [of "replicate 40 CHR ''p''" jobid ?r] by blast
  then show ?thesis using ipp_header_fits by blast
qed


definition asking :: "sock \<Rightarrow> printd" where
  "asking k = demo_print\<lparr>n_sock := [0 \<mapsto> k]\<rparr>"

lemma asking_ok: "n_sock (asking k) 0 = Some k" "k_faults (asking k) = []" "(1 :: nat) \<noteq> 0"
  "jobs (asking k) 1 = Some \<lparr>j_next = 0, j_prev = 0, j_jobid = 7, j_req = demo_req\<rparr>"
  by (simp_all add: asking_def demo_print_def idle_printd_def)


text \<open>
  When the first piece of a successful answer ends behind the \<open>Content-Length\<close> line and before the empty line, \<open>printer_status\<close> never returns, whatever the printer sends
  afterwards (\<open>r\<close>): the printer thread is lost, with every job behind this one.
\<close>

theorem printer_status_stuck:
  assumes "n_sock s sfd = Some k" and "sk_in k = Data resp # r" and "k_faults s = []" and "jp \<noteq> 0" and "jobs s jp = Some jb"
    and "length resp \<le> IOBUFSZ" and "status_line resp code reason (h @ CL @ fmt_u len @ c # h2)" and "200 \<le> code" and "code \<le> 299"
    and "\<not> isdigit c" and "h2 \<noteq> []" and "\<forall>j < length h. case_match CL (drop j h @ CL @ fmt_u len @ c # h2) = Some False"
    and "\<forall>j. j + 2 < length h2 \<longrightarrow> lit_match HEADER_END (drop j h2) = Some False"
  shows "printer_status sfd jp s = Hang"
  by (rule printer_status_hang [OF assms])

definition half_answer :: bytes where
  "half_answer = ''HTTP/1.1'' @ '' '' @ fmt_u 200 @ CHR '' '' # ''OK'' @ CHR 0x0D # [] @ CL @ fmt_u 9 @ CHR 0x0D # [CHR 0x0A]"

theorem printer_status_stuck_witness:
  "printer_status 0 1 (asking \<lparr>sk_in = Data half_answer # [Data [CHR 0x0D, CHR 0x0A]], sk_wr = [], sk_out = []\<rparr>) = Hang"
proof -
  let ?k = "\<lparr>sk_in = Data half_answer # [Data [CHR 0x0D, CHR 0x0A]], sk_wr = [], sk_out = []\<rparr> :: sock"
  have ch: "isspace (CHR '' '')" "\<not> isdigit (CHR '' '')" "\<not> isdigit (CHR 0x0D)" by code_simp+
  have l: "length half_answer \<le> IOBUFSZ"
    using length_fmt_u_le [of 200 3] length_fmt_u_le [of 9 1] by (simp add: half_answer_def CL_def IOBUFSZ_def)
  have st: "status_line half_answer 200 ''OK'' ([] @ CL @ fmt_u 9 @ CHR 0x0D # [CHR 0x0A])"
    unfolding status_line_def half_answer_def
    by (rule exI [of _ "''HTTP/1.1''"], rule exI [of _ "'' ''"], rule exI [of _ "CHR '' ''"], rule exI [of _ "CHR 0x0D"]) (use ch in simp)
  have n: "(200 :: nat) \<le> 200" "(200 :: nat) \<le> 299" "[CHR 0x0A] \<noteq> []"
    "\<forall>j < length []. case_match CL (drop j [] @ CL @ fmt_u 9 @ CHR 0x0D # [CHR 0x0A]) = Some False"
    "\<forall>j. j + 2 < length [CHR 0x0A] \<longrightarrow> lit_match HEADER_END (drop j [CHR 0x0A]) = Some False" by simp_all
  have i: "sk_in ?k = Data half_answer # [Data [CHR 0x0D, CHR 0x0A]]" by simp
  show ?thesis by (rule printer_status_stuck [OF asking_ok(1) i asking_ok(2,3,4) l st n(1,2) ch(3) n(3-5)])
qed

subsection \<open>Workers, connections, configuration\<close>

text \<open>
  Two clients at once: \<open>add_worker\<close> links a second worker in front of the first without making it the head of the list, so when the first thread ends the second entry is unreachable
  and the head is the freed node's successor; the cleanup of the two threads, in the order they came, goes through freed memory.
\<close>

theorem second_worker_dangles:
  assumes "k_faults s = []" and "mem_ok s" and "workers s = 0" and "\<not> workerlock s" and "tid1 \<noteq> tid2" and "k_ofd s fd1 \<noteq> None"
  shows "\<exists>t. bnd (add_worker tid1 fd1) (\<lambda>_. bnd (add_worker tid2 fd2) (\<lambda>_.
    bnd (client_cleanup tid1) (\<lambda>_. client_cleanup tid2))) s = Abort (Undefined ''worker dereference'') t"
  by (rule two_workers_dangle [OF assms])

theorem second_worker_dangles_witness:
  "\<exists>t. bnd (add_worker 1 0) (\<lambda>_. bnd (add_worker 2 5) (\<lambda>_. bnd (client_cleanup 1) (\<lambda>_. client_cleanup 2))) demo_spool =
     Abort (Undefined ''worker dereference'') t"
proof -
  have "k_faults demo_spool = []" "mem_ok demo_spool" using demo_spool_ok(1) by (simp_all add: spool_ok_def free_slot_def)
  from second_worker_dangles [OF this demo_spool_prems(5,6), of 1 2 0 5] demo_spool_prems(7) show ?thesis by simp
qed

text \<open>
  C28. \<open>connect_retry\<close> ends: with the connection that succeeds after fewer than eight refusals, having slept \<open>2\<^sup>j - 1\<close> seconds for \<open>j\<close> of them, or with -1 after eight and 127 seconds; either way every
  descriptor it opened in between is closed again.
\<close>

theorem connect_retry_bounded:
  assumes "free_slot fd s" and "n_conn s = map Inl es @ cs"
  shows "(length es = 8 \<longrightarrow> (\<exists>t. connect_retry addr s = Ok (-1) t \<and> net_view t = net_view s \<and> n_conn t = cs \<and> n_slept t = n_slept s + 127)) \<and>
    (length es < 8 \<and> cs = Inr k # cs' \<longrightarrow> (\<exists>t. connect_retry addr s = Ok fd t \<and> n_sock t = (n_sock s)(fd \<mapsto> k) \<and> n_conn t = cs' \<and>
       (\<forall>i. i \<noteq> fd \<longrightarrow> k_ofd t i = k_ofd s i) \<and> n_slept t = n_slept s + (2 ^ length es - 1)))"
proof (intro conjI impI)
  assume "length es = 8"
  from connect_retry_gives_up [OF assms this] show "\<exists>t. connect_retry addr s = Ok (-1) t \<and> net_view t = net_view s \<and> n_conn t = cs \<and> n_slept t = n_slept s + 127" .
next
  assume a: "length es < 8 \<and> cs = Inr k # cs'"
  then have "n_conn s = map Inl es @ Inr k # cs'" "length es < 8" using assms(2) by simp_all
  from connect_retry_run [OF assms(1) this, of addr] obtain t where
    "connect_retry addr s = Ok fd (t\<lparr>k_ofd := (k_ofd s)(fd \<mapsto> \<lparr>of_ino = k_nino t, of_pos = 0, of_flags = {O_RDWR}\<rparr>),
      k_nino := Suc (k_nino t), n_sock := (n_sock s)(fd \<mapsto> k), n_conn := cs'\<rparr>)" "n_slept t = n_slept s + (2 ^ length es - 1)" by blast
  then show "\<exists>t. connect_retry addr s = Ok fd t \<and> n_sock t = (n_sock s)(fd \<mapsto> k) \<and> n_conn t = cs' \<and>
       (\<forall>i. i \<noteq> fd \<longrightarrow> k_ofd t i = k_ofd s i) \<and> n_slept t = n_slept s + (2 ^ length es - 1)" by auto
qed

theorem connect_retry_bounded_witness:
  "\<exists>t. connect_retry ''a'' (demo_print\<lparr>n_conn := map Inl (replicate 8 ECONNREFUSED) @ [Inr demo_printer]\<rparr>) = Ok (-1) t \<and> n_slept t = 127"
proof -
  let ?s = "demo_print\<lparr>n_conn := map Inl (replicate 8 ECONNREFUSED) @ [Inr demo_printer]\<rparr>"
  have "free_slot 0 ?s" "n_conn ?s = map Inl (replicate 8 ECONNREFUSED) @ [Inr demo_printer]"
    using demo_print_ok(7) by (simp_all add: free_slot_def free_fd_def)
  moreover have "n_slept ?s = 0" by (simp add: demo_print_def idle_printd_def)
  ultimately show ?thesis using connect_retry_bounded [of 0 ?s "replicate 8 ECONNREFUSED" "[Inr demo_printer]" "''a''"] by fastforce
qed

text \<open>
  C29. \<open>scan_configfile\<close> reads the configuration file as a table: on a file of lines of a keyword (at most 15 bytes) and a word, it finds for each keyword what \<open>map_of\<close> of the lines does, the first entry;
  and it leaves the descriptor table and every file as they were.
\<close>

theorem config_lookup:
  fixes s :: "'z pnet_scheme"
  assumes "\<forall>kv \<in> set kvs. cfg_ok kv" and "k_faults s = []" and "k_dir s CONFIG_FILE = Some ino" and "free_fd s = Some fd"
    and "k_data s ino = concat (map (\<lambda>(k, v). cfg_line k v) kvs)"
  shows "\<exists>t. scan_configfile kw s = Ok (map_of kvs kw) t \<and> k_data t = k_data s \<and> k_dir t = k_dir s \<and> k_ofd t = k_ofd s"
proof -
  have nn: "\<not> fd < 0" "k_ofd s fd = None" using assms(4) by (auto simp: free_fd_def find_Some_iff)
  let ?d = "\<lparr>of_ino = ino, of_pos = 0, of_flags = {}\<rparr>" and ?n = "length (k_data s ino)"
  define s1 where "s1 = s\<lparr>k_ofd := (k_ofd s)(fd \<mapsto> ?d)\<rparr>"
  have op: "sys_open CONFIG_FILE {} s = Ok fd s1" using assms by (simp add: sys_open_def s1_def)
  let ?e = "\<lparr>of_ino = ino, of_pos = ?n, of_flags = {}\<rparr>"
  define s2 where "s2 = s\<lparr>k_ofd := (k_ofd s)(fd \<mapsto> ?e)\<rparr>"
  have rd: "sys_read fd ?n s1 = Ok (int ?n, k_data s ino) s2"
    using assms by (simp add: sys_read_def s1_def s2_def readable_def get_at_def Let_def)
  have "k_faults s2 = []" "k_ofd s2 fd = Some ?e" using assms by (simp_all add: s2_def)
  from net_close_run [OF this] obtain t where t: "net_close fd s2 = Ok 0 t" "k_data t = k_data s" "k_dir t = k_dir s" "k_ofd t = (k_ofd s2)(fd := None)"
    by (auto simp: s2_def)
  have "k_ofd t = k_ofd s" using t(4) nn(2) by (auto simp: s2_def)
  moreover have "scan_lines kw (k_data s ino) = map_of kvs kw" unfolding assms(5) by (rule scan_lines_file [OF assms(1)])
  moreover have m: "(case k_ofd s1 fd of None \<Rightarrow> 0 | Some d \<Rightarrow> length (k_data s1 (of_ino d))) = ?n" by (simp add: s1_def)
  ultimately show ?thesis using op rd t(1-3) nn(1) by (simp add: scan_configfile_def bnd_def)
qed

theorem config_lookup_witness:
  "\<exists>t. scan_configfile ''printer'' (idle_printd\<lparr>k_dir := [CONFIG_FILE \<mapsto> 1], k_data := (\<lambda>_. cfg_line ''printserver'' ''h'' @ cfg_line ''printer'' ''p'')\<rparr>) =
     Ok (Some ''p'') t"
proof -
  let ?kvs = "[(''printserver'', ''h''), (''printer'', ''p'')]"
  let ?s = "idle_printd\<lparr>k_dir := [CONFIG_FILE \<mapsto> 1], k_data := (\<lambda>_. cfg_line ''printserver'' ''h'' @ cfg_line ''printer'' ''p'')\<rparr>"
  have "\<forall>kv \<in> set ?kvs. cfg_ok kv" by (simp add: cfg_ok_def cfg_word_def MAXKWLEN_def MAXCFGLINE_def isspace_def)
  moreover have "k_faults ?s = []" "k_dir ?s CONFIG_FILE = Some 1" "free_fd ?s = Some 0" "k_data ?s 1 = concat (map (\<lambda>(k, v). cfg_line k v) ?kvs)"
    by (simp_all add: idle_printd_def free_fd_def upt_rec)
  ultimately show ?thesis using config_lookup [of ?kvs ?s 1 0 "''printer''"] by auto
qed

text \<open>
  C30. \<open>readn\<close>, \<open>treadn\<close> and \<open>writen\<close> on a socket: however the bytes come in pieces, \<open>readn\<close> and \<open>treadn\<close> return the first \<open>n\<close>
  when that many arrive before the end, a failure or (timed) a quiet time, otherwise what there was, and -1 only for a failure before the first byte; \<open>writen\<close>
  writes everything to a peer that takes some bytes at every call.
\<close>

theorem stream_routines:
  assumes "n_sock s fd = Some k"
  shows "(\<exists>t. readn fd n s = Ok (filled n (avail False (sk_in k)) (stops_bad False (sk_in k))) t \<and> but_input fd t = but_input fd s) \<and>
    (\<exists>t. treadn fd n s = Ok (filled n (avail True (sk_in k)) (stops_bad True (sk_in k))) t \<and> but_input fd t = but_input fd s) \<and>
    (smooth (sk_wr k) \<longrightarrow> (\<exists>e w. writen fd bs s =
       Ok (int (length bs)) (s\<lparr>k_errno := e, n_sock := (n_sock s)(fd \<mapsto> k\<lparr>sk_wr := w, sk_out := sk_out k @ bs\<rparr>)\<rparr>)))"
proof (intro conjI impI)
  have on: "on_sock fd s" using assms by (simp add: on_sock_def)
  have src: "sk_src b fd s = avail b (sk_in k)" "sk_bad b fd s = stops_bad b (sk_in k)" for b using assms by (simp_all add: sk_src_def sk_bad_def)
  show "\<exists>t. readn fd n s = Ok (filled n (avail False (sk_in k)) (stops_bad False (sk_in k))) t \<and> but_input fd t = but_input fd s"
    using readn_run [OF on, of n] unfolding src by blast
  show "\<exists>t. treadn fd n s = Ok (filled n (avail True (sk_in k)) (stops_bad True (sk_in k))) t \<and> but_input fd t = but_input fd s"
    using treadn_run [OF on, of n] unfolding src by blast
  show "smooth (sk_wr k) \<Longrightarrow> \<exists>e w. writen fd bs s =
       Ok (int (length bs)) (s\<lparr>k_errno := e, n_sock := (n_sock s)(fd \<mapsto> k\<lparr>sk_wr := w, sk_out := sk_out k @ bs\<rparr>)\<rparr>)"
    using writen_all [OF assms, of bs] by blast
qed

theorem stream_routines_witness:
  "(\<exists>t. readn 0 4 (asking \<lparr>sk_in = [Data ''ab'', Quiet, Data ''cde''], sk_wr = [Takes 1], sk_out = []\<rparr>) = Ok (4, ''abcd'') t) \<and>
   (\<exists>t. treadn 0 4 (asking \<lparr>sk_in = [Data ''ab'', Quiet, Data ''cde''], sk_wr = [Takes 1], sk_out = []\<rparr>) = Ok (2, ''ab'') t)"
  using stream_routines [OF asking_ok(1) [of "\<lparr>sk_in = [Data ''ab'', Quiet, Data ''cde''], sk_wr = [Takes 1], sk_out = []\<rparr>"], of 4 "[]"]
  by (auto simp: filled_def)

end
