(* ===== verification/Mem_Stream.thy ===== *)
theory Mem_Stream
  imports Posix_Kernel
begin

section \<open>Streams in memory: \<open>exercises/fmemopen.c\<close>\<close>

text \<open>
  \<open>fmemopen\<close> makes a stream of a buffer, its own or the caller's; the four routines it hands to \<open>funopen\<close> read, write, position and close it.
  \<open>mspace\<close> is the memory: buffers and stream structures at addresses, address 0 being \<open>NULL\<close>; \<open>denied\<close> says for each coming call of \<open>malloc\<close> or \<open>funopen\<close>
  whether it fails. \<open>size_t\<close> values are naturals below \<open>2\<^sup>6\<^sup>4\<close>, conversions between them and \<open>int\<close> are written out, and an access outside a buffer is undefined
  behaviour.

  The lemmas show that a stream is a bounded file: a content of at most \<open>rsize\<close> bytes and a position in it.
\<close>

unbundle bit_operations_syntax

definition MS_READ :: "32 word" where "MS_READ = 0x01"
definition MS_WRITE :: "32 word" where "MS_WRITE = 0x02"
definition MS_APPEND :: "32 word" where "MS_APPEND = 0x04"
definition MS_TRUNCATE :: "32 word" where "MS_TRUNCATE = 0x08"
definition MS_MYBUF :: "32 word" where "MS_MYBUF = 0x10"

lemmas ms_flag_defs = MS_READ_def MS_WRITE_def MS_APPEND_def MS_TRUNCATE_def MS_MYBUF_def

record memstream =
  ms_buf :: nat
  ms_rsize :: nat
  ms_vsize :: nat
  ms_curpos :: nat
  ms_flags :: "32 word"

record mspace =
  bufs :: "nat \<Rightarrow> bytes option"
  streams :: "nat \<Rightarrow> memstream option"
  mem_top :: nat
  denied :: "bool list"
  rubbish :: bytes
  m_errno :: int

subsection \<open>Conversions and memory\<close>

definition size_of_int :: "int \<Rightarrow> nat" where
  "size_of_int i = nat (i mod 2 ^ 64)"

definition int_of_size :: "nat \<Rightarrow> int" where
  "int_of_size n = signed_take_bit 31 (int n)"

definition mem_fail :: "int \<Rightarrow> 'a \<Rightarrow> (mspace, 'a) prog" where
  "mem_fail e r = (\<lambda>s. Ok r (s\<lparr>m_errno := e\<rparr>))"

definition granted :: "(mspace, bool) prog" where
  "granted = (\<lambda>s. case denied s of [] \<Rightarrow> Ok True s | d # ds \<Rightarrow> Ok (\<not> d) (s\<lparr>denied := ds\<rparr>))"

text \<open>A fresh address, or \<open>NULL\<close>.\<close>

definition mem_alloc :: "(mspace, nat) prog" where
  "mem_alloc = bnd granted (\<lambda>ok. if ok then (\<lambda>s. Ok (mem_top s) (s\<lparr>mem_top := Suc (mem_top s)\<rparr>)) else ret 0)"

definition malloc_buf :: "nat \<Rightarrow> (mspace, nat) prog" where
  "malloc_buf sz =
     bnd mem_alloc (\<lambda>a.
     if a = 0 then ret 0
     else bnd (modify (\<lambda>s. s\<lparr>bufs := (bufs s)(a \<mapsto> take sz (rubbish s @ replicate sz (CHR 0x00)))\<rparr>)) (\<lambda>_. ret a))"

definition buf_at :: "nat \<Rightarrow> (mspace, bytes) prog" where
  "buf_at a = (\<lambda>s. case bufs s a of None \<Rightarrow> Abort (Undefined ''buffer dereference'') s | Some b \<Rightarrow> Ok b s)"

definition free_buf :: "nat \<Rightarrow> (mspace, unit) prog" where
  "free_buf a = bnd (buf_at a) (\<lambda>_. modify (\<lambda>s. s\<lparr>bufs := (bufs s)(a := None)\<rparr>))"

definition ms_get :: "nat \<Rightarrow> (mspace, memstream) prog" where
  "ms_get a = (\<lambda>s. case streams s a of None \<Rightarrow> Abort (Undefined ''stream dereference'') s | Some m \<Rightarrow> Ok m s)"

definition ms_set :: "nat \<Rightarrow> memstream \<Rightarrow> (mspace, unit) prog" where
  "ms_set a m = modify (\<lambda>s. s\<lparr>streams := (streams s)(a \<mapsto> m)\<rparr>)"

text \<open>\<open>memcpy\<close> out of and into a buffer, at an offset that may be negative.\<close>

definition buf_read :: "nat \<Rightarrow> int \<Rightarrow> nat \<Rightarrow> (mspace, bytes) prog" where
  "buf_read a off n =
     bnd (buf_at a) (\<lambda>b.
     if off < 0 \<or> int (length b) < off + int n then halt (Undefined ''read outside a buffer'')
     else ret (get_at b (nat off) n))"

definition buf_write :: "nat \<Rightarrow> int \<Rightarrow> bytes \<Rightarrow> (mspace, unit) prog" where
  "buf_write a off bs =
     bnd (buf_at a) (\<lambda>b.
     if off < 0 \<or> int (length b) < off + int (length bs) then halt (Undefined ''write outside a buffer'')
     else modify (\<lambda>s. s\<lparr>bufs := (bufs s)(a \<mapsto> put_at b (nat off) bs)\<rparr>))"

subsection \<open>type_to_flags, find_end\<close>

fun type_to_flags :: "32 word \<Rightarrow> string \<Rightarrow> 32 word" where
  "type_to_flags flags [] = flags"
| "type_to_flags flags (c # cp) =
     (if c = CHR ''r'' then (if flags \<noteq> 0 then 0 else type_to_flags (flags OR MS_READ) cp)
      else if c = CHR ''w'' then (if flags \<noteq> 0 then 0 else type_to_flags (flags OR (MS_WRITE OR MS_TRUNCATE)) cp)
      else if c = CHR ''a'' then (if flags \<noteq> 0 then 0 else type_to_flags (flags OR MS_APPEND) cp)
      else if c = CHR ''+'' then (if flags = 0 then 0 else type_to_flags (flags OR (MS_READ OR MS_WRITE)) cp)
      else if c = CHR ''b'' then (if flags = 0 then 0 else type_to_flags flags cp)
      else 0)"

definition find_end_off :: "nat \<Rightarrow> nat \<Rightarrow> (mspace, nat) prog" where
  "find_end_off a len =
     bnd (buf_at a) (\<lambda>b.
     let off = length (takeWhile (\<lambda>c. c \<noteq> CHR 0x00) (take len b)) in
     if off < len \<and> length b \<le> off then halt (Undefined ''read outside a buffer'') else ret off)"

subsection \<open>fmemopen\<close>

text \<open>The buffer, the flags and the position to start with; \<open>None\<close> for an error return.\<close>

definition choose_buf :: "nat \<Rightarrow> nat \<Rightarrow> 32 word \<Rightarrow> (mspace, (nat \<times> 32 word \<times> nat) option) prog" where
  "choose_buf buf sz flags =
     (if buf = 0 then
        if flags AND (MS_READ OR MS_WRITE) \<noteq> (MS_READ OR MS_WRITE) then mem_fail EINVAL None
        else
          bnd (malloc_buf sz) (\<lambda>b.
          if b = 0 then mem_fail ENOMEM None else ret (Some (b, flags OR MS_MYBUF, 0)))
      else
        bnd (if flags AND MS_APPEND \<noteq> 0 then find_end_off buf sz else ret 0) (\<lambda>p.
        ret (Some (buf, flags, p))))"

definition fmemopen :: "nat \<Rightarrow> nat \<Rightarrow> string \<Rightarrow> (mspace, nat) prog" where
  "fmemopen buf sz type =
     (if sz = 0 then mem_fail EINVAL 0
      else
        bnd mem_alloc (\<lambda>ms.
        if ms = 0 then mem_fail ENOMEM 0
        else
          let flags = type_to_flags 0 type in
          if flags = 0 then mem_fail EINVAL 0
          else
            bnd (choose_buf buf sz flags) (\<lambda>r.
            case r of
              None \<Rightarrow> ret 0
            | Some (b, flags, curpos) \<Rightarrow>
                let vsize = (if flags AND MS_APPEND \<noteq> 0 then curpos else if flags AND MS_TRUNCATE \<noteq> 0 then 0 else sz) in
                bnd granted (\<lambda>ok.
                if \<not> ok then bnd (if flags AND MS_MYBUF \<noteq> 0 then free_buf b else ret ()) (\<lambda>_. ret 0)
                else
                  bnd (ms_set ms \<lparr>ms_buf = b, ms_rsize = sz, ms_vsize = vsize, ms_curpos = curpos, ms_flags = flags\<rparr>) (\<lambda>_.
                  ret ms)))))"

subsection \<open>The routines of the stream\<close>

definition mstream_read :: "nat \<Rightarrow> int \<Rightarrow> (mspace, int \<times> bytes) prog" where
  "mstream_read cookie len =
     bnd (ms_get cookie) (\<lambda>ms.
     if ms_flags ms AND MS_READ = 0 then mem_fail EBADF (-1, [])
     else if ms_vsize ms \<le> ms_curpos ms then ret (0, [])
     else
       let nr = int_of_size (min (size_of_int len) (ms_vsize ms - ms_curpos ms)) in
       bnd (buf_read (ms_buf ms) (int (ms_curpos ms)) (size_of_int nr)) (\<lambda>bs.
       bnd (ms_set cookie (ms\<lparr>ms_curpos := size_of_int (int (ms_curpos ms) + nr)\<rparr>)) (\<lambda>_.
       ret (nr, bs))))"

definition mstream_write :: "nat \<Rightarrow> bytes \<Rightarrow> int \<Rightarrow> (mspace, int) prog" where
  "mstream_write cookie buf len =
     bnd (ms_get cookie) (\<lambda>ms.
     if ms_flags ms AND (MS_APPEND OR MS_WRITE) = 0 then mem_fail EBADF (-1)
     else
       let off = int_of_size (if ms_flags ms AND MS_APPEND \<noteq> 0 then ms_vsize ms else ms_curpos ms);
           nw = int_of_size (min (size_of_int len) (size_of_int (int (ms_rsize ms) - off)));
           curpos = size_of_int (off + nw) in
       if length buf < size_of_int nw then halt (Undefined ''read outside a buffer'')
       else
         bnd (buf_write (ms_buf ms) off (take (size_of_int nw) buf)) (\<lambda>_.
         bnd (if ms_vsize ms < curpos \<and> ms_flags ms AND (MS_READ OR MS_WRITE) = (MS_READ OR MS_WRITE) \<and> curpos < ms_rsize ms
              then buf_write (ms_buf ms) (int curpos) [CHR 0x00] else ret ()) (\<lambda>_.
         bnd (if ms_flags ms AND (MS_WRITE OR MS_APPEND) \<noteq> 0 \<and> ms_flags ms AND MS_READ = 0
              then
                if curpos < ms_rsize ms then buf_write (ms_buf ms) (int curpos) [CHR 0x00]
                else buf_write (ms_buf ms) (int (ms_rsize ms) - 1) [CHR 0x00]
              else ret ()) (\<lambda>_.
         bnd (ms_set cookie (ms\<lparr>ms_curpos := curpos, ms_vsize := max (ms_vsize ms) curpos\<rparr>)) (\<lambda>_.
         ret nw)))))"

definition mstream_seek :: "nat \<Rightarrow> int \<Rightarrow> whence \<Rightarrow> (mspace, int) prog" where
  "mstream_seek cookie pos wh =
     bnd (ms_get cookie) (\<lambda>ms.
     let off = int_of_size (size_of_int (case wh of
            SEEK_SET \<Rightarrow> pos | SEEK_END \<Rightarrow> int (ms_vsize ms) + pos | SEEK_CUR \<Rightarrow> int (ms_curpos ms) + pos)) in
     if off < 0 \<or> ms_vsize ms < size_of_int off then mem_fail EINVAL (-1)
     else
       bnd (ms_set cookie (ms\<lparr>ms_curpos := size_of_int off\<rparr>)) (\<lambda>_.
       ret off))"

definition mstream_close :: "nat \<Rightarrow> (mspace, int) prog" where
  "mstream_close cookie =
     bnd (ms_get cookie) (\<lambda>ms.
     bnd (if ms_flags ms AND MS_MYBUF \<noteq> 0 then free_buf (ms_buf ms) else ret ()) (\<lambda>_.
     bnd (modify (\<lambda>s. s\<lparr>streams := (streams s)(cookie := None)\<rparr>)) (\<lambda>_.
     ret 0)))"

subsection \<open>A bounded file\<close>

datatype mop = Rd nat | Wr bytes | Sk int whence

definition can_read :: "32 word \<Rightarrow> bool" where "can_read fl \<longleftrightarrow> fl AND MS_READ \<noteq> 0"
definition can_write :: "32 word \<Rightarrow> bool" where "can_write fl \<longleftrightarrow> fl AND (MS_APPEND OR MS_WRITE) \<noteq> 0"
definition appends :: "32 word \<Rightarrow> bool" where "appends fl \<longleftrightarrow> fl AND MS_APPEND \<noteq> 0"

text \<open>
  The content and the position after a call, and its result with the bytes read. A stream that cannot be read is kept a string: the byte behind
  the position is zero, the last byte of the buffer when the position is at its end.
\<close>

definition ends_at :: "nat \<Rightarrow> nat \<Rightarrow> bytes \<Rightarrow> bytes" where
  "ends_at cap q c = c[(if q < cap then q else cap - 1) := CHR 0x00]"

fun bf_op :: "32 word \<Rightarrow> nat \<Rightarrow> mop \<Rightarrow> bytes \<times> nat \<Rightarrow> (int \<times> bytes) \<times> bytes \<times> nat" where
  "bf_op fl cap (Rd n) (c, p) =
     (if can_read fl then let r = take n (drop p c) in ((int (length r), r), c, p + length r) else ((-1, []), c, p))"
| "bf_op fl cap (Wr bs) (c, p) =
     (if can_write fl then
        let off = (if appends fl then length c else p); w = take (cap - off) bs; c' = put_at c off w; q = off + length w in
        ((int (length w), []), if can_read fl then c' else ends_at cap q c', q)
      else ((-1, []), c, p))"
| "bf_op fl cap (Sk i wh) (c, p) =
     (let off = (case wh of SEEK_SET \<Rightarrow> i | SEEK_END \<Rightarrow> int (length c) + i | SEEK_CUR \<Rightarrow> int p + i) in
      if off < 0 \<or> int (length c) < off then ((-1, []), c, p) else ((off, []), c, nat off))"

definition ms_op :: "nat \<Rightarrow> mop \<Rightarrow> (mspace, int \<times> bytes) prog" where
  "ms_op a op = (case op of
      Rd n \<Rightarrow> mstream_read a (int n)
    | Wr bs \<Rightarrow> bnd (mstream_write a bs (int (length bs))) (\<lambda>r. ret (r, []))
    | Sk i wh \<Rightarrow> bnd (mstream_seek a i wh) (\<lambda>r. ret (r, [])))"

text \<open>Arguments that are values of \<open>int\<close>.\<close>

definition mop_ok :: "nat \<Rightarrow> mop \<Rightarrow> bool" where
  "mop_ok cap op \<longleftrightarrow> (case op of Rd n \<Rightarrow> n < 2 ^ 31 | Wr bs \<Rightarrow> length bs < 2 ^ 31 | Sk i wh \<Rightarrow> - (2 ^ 31) \<le> i \<and> i + int cap < 2 ^ 31)"

definition ms_rep :: "mspace \<Rightarrow> nat \<Rightarrow> 32 word \<Rightarrow> nat \<Rightarrow> bytes \<times> nat \<Rightarrow> bool" where
  "ms_rep s a fl cap cp \<longleftrightarrow> (\<exists>m b. streams s a = Some m \<and> bufs s (ms_buf m) = Some b \<and> ms_flags m = fl \<and> ms_rsize m = cap \<and>
     cap \<le> length b \<and> ms_vsize m = length (fst cp) \<and> take (length (fst cp)) b = fst cp \<and> ms_curpos m = snd cp \<and>
     snd cp \<le> length (fst cp) \<and> length (fst cp) \<le> cap \<and> 0 < cap \<and> cap < 2 ^ 31)"

lemma size_of_int_nat [simp]: "n < 2 ^ 64 \<Longrightarrow> size_of_int (int n) = n"
  by (simp add: size_of_int_def)

lemma int_of_size_nat [simp]: "n < 2 ^ 31 \<Longrightarrow> int_of_size n = int n"
  by (simp add: int_of_size_def signed_take_bit_int_eq_self)

lemma size_of_nat_diff [simp]: "m \<le> n \<Longrightarrow> n < 2 ^ 64 \<Longrightarrow> size_of_int (int n - int m) = n - m"
  using size_of_int_nat [of "n - m"] by (simp add: of_nat_diff)

lemma size_of_nat_add [simp]: "m + n < 2 ^ 64 \<Longrightarrow> size_of_int (int m + int n) = m + n"
  using size_of_int_nat [of "m + n"] by simp

lemma int_of_size_of_int:
  assumes "- (2 ^ 31) \<le> x" and "x < 2 ^ 31"
  shows "int_of_size (size_of_int x) = x"
proof -
  have "signed_take_bit 31 (x mod 2 ^ 64) = signed_take_bit 31 x"
    using signed_take_bit_take_bit [of 31 64 x] by (simp add: take_bit_eq_mod)
  then show ?thesis using assms by (simp add: int_of_size_def size_of_int_def signed_take_bit_int_eq_self)
qed

lemma ms_rep_errno [simp]: "ms_rep (s\<lparr>m_errno := e\<rparr>) a fl cap cp = ms_rep s a fl cap cp"
  by (simp add: ms_rep_def)

lemma mstream_read_run:
  assumes "ms_rep s a fl cap (c, p)" and "n < 2 ^ 31"
  shows "\<exists>t. mstream_read a (int n) s = Ok (fst (bf_op fl cap (Rd n) (c, p))) t \<and> ms_rep t a fl cap (snd (bf_op fl cap (Rd n) (c, p)))"
proof -
  from assms(1) obtain m b where m: "streams s a = Some m" "bufs s (ms_buf m) = Some b" "ms_flags m = fl" "ms_rsize m = cap" "cap \<le> length b"
    "ms_vsize m = length c" "take (length c) b = c" "ms_curpos m = p" "p \<le> length c" "length c \<le> cap" "0 < cap" "cap < 2 ^ 31"
    by (auto simp: ms_rep_def)
  have g: "get_at b p k = take k (drop p c)" if "k \<le> length c - p" for k
  proof -
    have "take k (drop p (take (length c) b)) = take k (drop p b)" using that by (simp add: drop_take min_def)
    then show ?thesis using m(7) by (simp add: get_at_def)
  qed
  have k: "min n (length c - p) < 2 ^ 31" "min n (length c - p) < 2 ^ 64" using assms(2) by auto
  show ?thesis
  proof (cases "can_read fl \<and> p < length c")
    case True
    let ?k = "min n (length c - p)"
    have "mstream_read a (int n) s = Ok (int ?k, get_at b p ?k) (s\<lparr>streams := (streams s)(a \<mapsto> m\<lparr>ms_curpos := p + ?k\<rparr>)\<rparr>)"
      using True m assms(2) k unfolding mstream_read_def
      by (auto simp: can_read_def ms_get_def buf_read_def buf_at_def ms_set_def Let_def bnd_def)
    moreover have "get_at b p ?k = take n (drop p c)" using g [of ?k] by (simp add: min_def)
    moreover have "ms_rep (s\<lparr>streams := (streams s)(a \<mapsto> m\<lparr>ms_curpos := p + ?k\<rparr>)\<rparr>) a fl cap (c, p + ?k)"
      unfolding ms_rep_def using m by (intro exI [of _ "m\<lparr>ms_curpos := p + ?k\<rparr>"] exI [of _ b]) simp
    ultimately show ?thesis using True by (simp add: Let_def min.commute)
  next
    case False
    then have "mstream_read a (int n) s = (if can_read fl then Ok (0, []) s else Ok (-1, []) (s\<lparr>m_errno := EBADF\<rparr>))"
      using m(1,3,6,8,9) by (auto simp: mstream_read_def can_read_def ms_get_def mem_fail_def bnd_def)
    then show ?thesis using False assms(1) m(9) by auto
  qed
qed

lemma mstream_seek_run:
  assumes "ms_rep s a fl cap (c, p)" and "mop_ok cap (Sk i wh)"
  shows "\<exists>t. mstream_seek a i wh s = Ok (fst (fst (bf_op fl cap (Sk i wh) (c, p)))) t \<and> ms_rep t a fl cap (snd (bf_op fl cap (Sk i wh) (c, p)))"
proof -
  from assms(1) obtain m b where m: "streams s a = Some m" "bufs s (ms_buf m) = Some b" "ms_flags m = fl" "ms_rsize m = cap" "cap \<le> length b"
    "ms_vsize m = length c" "take (length c) b = c" "ms_curpos m = p" "p \<le> length c" "length c \<le> cap" "0 < cap" "cap < 2 ^ 31"
    by (auto simp: ms_rep_def)
  define off where "off = (case wh of SEEK_SET \<Rightarrow> i | SEEK_END \<Rightarrow> int (length c) + i | SEEK_CUR \<Rightarrow> int p + i)"
  have "int_of_size (size_of_int off) = off"
    using assms(2) m(9,10,12) by (intro int_of_size_of_int) (auto simp: off_def mop_ok_def split: whence.splits)
  moreover have "size_of_int off = nat off" if "0 \<le> off" using that assms(2) m(9,10,12)
    by (auto simp: size_of_int_def off_def mop_ok_def split: whence.splits)
  ultimately have z: "int_of_size (size_of_int off) = off" "0 \<le> off \<Longrightarrow> size_of_int off = nat off" by simp_all
  have o: "(case wh of SEEK_SET \<Rightarrow> i | SEEK_END \<Rightarrow> int (ms_vsize m) + i | SEEK_CUR \<Rightarrow> int (ms_curpos m) + i) = off"
    using m(6,8) by (cases wh) (simp_all add: off_def)
  show ?thesis
  proof (cases "off < 0 \<or> int (length c) < off")
    case True
    then have "off < 0 \<or> ms_vsize m < size_of_int off" using z(2) m(6) by (cases "off < 0") auto
    then have "mstream_seek a i wh s = Ok (-1) (s\<lparr>m_errno := EINVAL\<rparr>)"
      using m(1) by (simp add: mstream_seek_def ms_get_def bnd_def o z(1) mem_fail_def Let_def)
    then show ?thesis using True assms(1) by (simp add: off_def [symmetric] ms_rep_def)
  next
    case False
    then have c: "\<not> (off < 0 \<or> ms_vsize m < size_of_int off)" "size_of_int off = nat off" using z(2) m(6) by auto
    have "mstream_seek a i wh s = Ok off (s\<lparr>streams := (streams s)(a \<mapsto> m\<lparr>ms_curpos := nat off\<rparr>)\<rparr>)"
      using c z(1) [unfolded c(2)] by (simp add: mstream_seek_def ms_get_def bnd_def m(1) o Let_def ms_set_def)
    moreover have "nat off \<le> length c" using False by linarith
    ultimately show ?thesis using False m by (simp add: off_def [symmetric] ms_rep_def)
  qed
qed

text \<open>Writing: what the three stores leave in the buffer.\<close>

lemma buf_write_run:
  assumes "bufs s a = Some b" and "n + length bs \<le> length b"
  shows "buf_write a (int n) bs s = Ok () (s\<lparr>bufs := (bufs s)(a \<mapsto> put_at b n bs)\<rparr>)"
  using assms by (simp add: buf_write_def buf_at_def bnd_def)

lemma take_put_at:
  assumes "off \<le> length c" and "take (length c) b = c" and "off + length w \<le> length b"
  shows "take (max (length c) (off + length w)) (put_at b off w) = put_at c off w"
proof -
  have lc: "length c \<le> length b" using assms(2) by (metis length_take min.absorb_iff1 min.cobounded1)
  have t: "take off b = take off c" using assms(1,2) by (metis min.absorb1 take_take)
  have d: "take (length c - (off + length w)) (drop (off + length w) b) = drop (off + length w) c"
    using assms(2) by (metis drop_take)
  show ?thesis using assms(1,3) lc t d by (cases "off + length w \<le> length c") (simp_all add: put_at_def max_def)
qed

lemma put_at_one: "q < length b \<Longrightarrow> put_at b q [x] = b[q := x]"
  by (simp add: put_at_def upd_conv_take_nth_drop)

lemma mstream_write_run:
  assumes "ms_rep s a fl cap (c, p)" and "length bs < 2 ^ 31"
  shows "\<exists>t. mstream_write a bs (int (length bs)) s = Ok (fst (fst (bf_op fl cap (Wr bs) (c, p)))) t \<and>
    ms_rep t a fl cap (snd (bf_op fl cap (Wr bs) (c, p)))"
proof (cases "can_write fl")
  case False
  then show ?thesis using assms(1)
    by (auto simp: mstream_write_def can_write_def ms_get_def mem_fail_def bnd_def ms_rep_def)
next
  case True
  from assms(1) obtain m b where m: "streams s a = Some m" "bufs s (ms_buf m) = Some b" "ms_flags m = fl" "ms_rsize m = cap" "cap \<le> length b"
    "ms_vsize m = length c" "take (length c) b = c" "ms_curpos m = p" "p \<le> length c" "length c \<le> cap" "0 < cap" "cap < 2 ^ 31"
    by (auto simp: ms_rep_def)
  define off where "off = (if appends fl then length c else p)"
  define w where "w = take (cap - off) bs"
  define q where "q = off + length w"
  have o: "off \<le> length c" "off \<le> cap" "off < 2 ^ 31" "q \<le> cap" "q < 2 ^ 31" using m by (auto simp: off_def q_def w_def)
  define b1 where "b1 = put_at b off w"
  define b2 where "b2 = (if length c < q \<and> fl AND (MS_READ OR MS_WRITE) = (MS_READ OR MS_WRITE) \<and> q < cap then b1[q := CHR 0x00] else b1)"
  define b3 where "b3 = (if can_read fl then b2 else ends_at cap q b2)"
  have l: "length b1 = length b" "length b2 = length b" using o m by (auto simp: b1_def b2_def length_put_at q_def w_def)
  let ?m = "m\<lparr>ms_curpos := q, ms_vsize := max (length c) q\<rparr>"
  have run: "mstream_write a bs (int (length bs)) s = Ok (int (length w)) (s\<lparr>bufs := (bufs s)(ms_buf m \<mapsto> b3), streams := (streams s)(a \<mapsto> ?m)\<rparr>)"
  proof -
    have off': "int_of_size (if ms_flags m AND MS_APPEND \<noteq> 0 then ms_vsize m else ms_curpos m) = int off"
      using m o(3) by (simp add: off_def appends_def)
    have nw: "int_of_size (min (size_of_int (int (length bs))) (size_of_int (int (ms_rsize m) - int off))) = int (length w)"
      using assms(2) m(4,12) o(2) by (simp add: w_def min.commute)
    have sz: "size_of_int (int (length w)) = length w" "size_of_int (int off + int (length w)) = q" using o(5) by (simp_all add: q_def)
    have lw: "\<not> length bs < length w" "take (length w) bs = w" by (simp_all add: w_def min_def)
    define s1 where "s1 = s\<lparr>bufs := (bufs s)(ms_buf m \<mapsto> b1)\<rparr>"
    define s2 where "s2 = s\<lparr>bufs := (bufs s)(ms_buf m \<mapsto> b2)\<rparr>"
    define s3 where "s3 = s\<lparr>bufs := (bufs s)(ms_buf m \<mapsto> b3)\<rparr>"
    have w1: "buf_write (ms_buf m) (int off) w s = Ok () s1"
      using buf_write_run [OF m(2), of off w] o(4) m(5) by (simp add: q_def s1_def b1_def)
    have w2: "(if ms_vsize m < q \<and> ms_flags m AND (MS_READ OR MS_WRITE) = (MS_READ OR MS_WRITE) \<and> q < ms_rsize m
        then buf_write (ms_buf m) (int q) [CHR 0x00] else ret ()) s1 = Ok () s2"
      using buf_write_run [of s1 "ms_buf m" b1 q "[CHR 0x00]"] l(1) m(3-6) by (simp add: s1_def s2_def b2_def put_at_one)
    have w3: "(if ms_flags m AND (MS_WRITE OR MS_APPEND) \<noteq> 0 \<and> ms_flags m AND MS_READ = 0
        then if q < ms_rsize m then buf_write (ms_buf m) (int q) [CHR 0x00] else buf_write (ms_buf m) (int (ms_rsize m) - 1) [CHR 0x00]
        else ret ()) s2 = Ok () s3"
    proof (cases "can_read fl")
      case True
      then show ?thesis using m(3) by (simp add: can_read_def s2_def s3_def b3_def)
    next
      case False
      have "fl AND (MS_WRITE OR MS_APPEND) \<noteq> 0" using \<open>can_write fl\<close> by (simp add: can_write_def or.commute)
      moreover have "bufs s2 (ms_buf m) = Some b2" by (simp add: s2_def)
      note wr = buf_write_run [OF this, of q "[CHR 0x00]"] buf_write_run [OF this, of "cap - 1" "[CHR 0x00]"]
      have "q < cap \<Longrightarrow> buf_write (ms_buf m) (int q) [CHR 0x00] s2 = Ok () s3"
        using wr(1) m(5) l(2) False by (simp add: s2_def s3_def b3_def ends_at_def put_at_one)
      moreover have "\<not> q < cap \<Longrightarrow> buf_write (ms_buf m) (int (cap - 1)) [CHR 0x00] s2 = Ok () s3"
        using wr(2) m(5,11) l(2) False by (simp add: s2_def s3_def b3_def ends_at_def put_at_one del: of_nat_diff)
      moreover have "int (ms_rsize m) - 1 = int (cap - 1)" using m(4,11) by simp
      ultimately show ?thesis using False unfolding can_read_def m(3,4) by (simp only: simp_thms if_True if_False not_not split: if_split) blast
    qed
    have g: "ms_get a s = Ok m s" using m(1) by (simp add: ms_get_def)
    have fl: "\<not> ms_flags m AND (MS_APPEND OR MS_WRITE) = 0" using \<open>can_write fl\<close> m(3) by (simp add: can_write_def)
    show ?thesis unfolding mstream_write_def
      by (simp only: bnd_def g fl outcome.case Let_def off' nw sz lw w1 w2 w3 if_False) (simp add: ms_set_def s3_def m(6))
  qed
  define c3 where "c3 = (if can_read fl then put_at c off w else ends_at cap q (put_at c off w))"
  have t3: "take (max (length c) q) b3 = c3"
  proof -
    have t1: "take (max (length c) q) b1 = put_at c off w"
      unfolding b1_def q_def using o(1,4) m(5,7) by (intro take_put_at) (simp_all add: q_def)
    have t2: "take (max (length c) q) b2 = put_at c off w" using t1 by (auto simp: b2_def take_update_cancel max_def)
    show ?thesis using t2 by (simp add: c3_def b3_def ends_at_def take_update_swap)
  qed
  have bf: "bf_op fl cap (Wr bs) (c, p) = ((int (length w), []), c3, q)"
    using True by (simp add: Let_def off_def [symmetric] w_def [symmetric] q_def [symmetric] c3_def del: length_take)
  have len: "length c3 = max (length c) q" "length b3 = length b" using o(1) l(2)
    by (auto simp: c3_def b3_def ends_at_def length_put_at q_def)
  have "ms_rep (s\<lparr>bufs := (bufs s)(ms_buf m \<mapsto> b3), streams := (streams s)(a \<mapsto> ?m)\<rparr>) a fl cap (c3, q)"
    unfolding ms_rep_def by (intro exI [of _ ?m] exI [of _ b3]) (use m o t3 len in simp)
  then show ?thesis using run bf by simp
qed

lemma ms_op_run:
  assumes "ms_rep s a fl cap cp" and "mop_ok cap op"
  shows "\<exists>t. ms_op a op s = Ok (fst (bf_op fl cap op cp)) t \<and> ms_rep t a fl cap (snd (bf_op fl cap op cp))"
proof (cases op)
  case (Rd n)
  then show ?thesis using mstream_read_run [of s a fl cap "fst cp" "snd cp" n] assms by (simp add: ms_op_def mop_ok_def del: bf_op.simps)
next
  case (Wr bs)
  have "snd (fst (bf_op fl cap (Wr bs) (fst cp, snd cp))) = []" by (simp only: bf_op.simps Let_def split: if_split) simp
  moreover from Wr obtain t where "mstream_write a bs (int (length bs)) s = Ok (fst (fst (bf_op fl cap (Wr bs) (fst cp, snd cp)))) t"
    "ms_rep t a fl cap (snd (bf_op fl cap (Wr bs) (fst cp, snd cp)))"
    using mstream_write_run [of s a fl cap "fst cp" "snd cp" bs] assms by (auto simp: mop_ok_def simp del: bf_op.simps)
  ultimately show ?thesis using Wr
    by (intro exI [of _ t]) (simp add: ms_op_def bnd_def prod_eq_iff del: bf_op.simps)
next
  case (Sk i wh)
  have "snd (fst (bf_op fl cap (Sk i wh) (fst cp, snd cp))) = []" by (simp only: bf_op.simps Let_def split: if_split) simp
  moreover from Sk obtain t where "mstream_seek a i wh s = Ok (fst (fst (bf_op fl cap (Sk i wh) (fst cp, snd cp)))) t"
    "ms_rep t a fl cap (snd (bf_op fl cap (Sk i wh) (fst cp, snd cp)))"
    using mstream_seek_run [of s a fl cap "fst cp" "snd cp" i wh] assms by (auto simp del: bf_op.simps)
  ultimately show ?thesis using Sk
    by (intro exI [of _ t]) (simp add: ms_op_def bnd_def prod_eq_iff del: bf_op.simps)
qed

fun ms_run :: "nat \<Rightarrow> mop list \<Rightarrow> (mspace, (int \<times> bytes) list) prog" where
  "ms_run a [] = ret []"
| "ms_run a (op # ops) = bnd (ms_op a op) (\<lambda>r. bnd (ms_run a ops) (\<lambda>rs. ret (r # rs)))"

fun bf_run :: "32 word \<Rightarrow> nat \<Rightarrow> mop list \<Rightarrow> bytes \<times> nat \<Rightarrow> (int \<times> bytes) list \<times> bytes \<times> nat" where
  "bf_run fl cap [] cp = ([], cp)"
| "bf_run fl cap (op # ops) cp =
     (let (r, cp') = bf_op fl cap op cp; (rs, cp'') = bf_run fl cap ops cp' in (r # rs, cp''))"

lemma ms_run_refines:
  assumes "ms_rep s a fl cap cp" and "\<forall>op \<in> set ops. mop_ok cap op"
  shows "\<exists>t. ms_run a ops s = Ok (fst (bf_run fl cap ops cp)) t \<and> ms_rep t a fl cap (snd (bf_run fl cap ops cp))"
  using assms
proof (induction ops arbitrary: s cp)
  case (Cons op ops)
  from ms_op_run [OF Cons.prems(1), of op] Cons.prems(2) obtain u where u: "ms_op a op s = Ok (fst (bf_op fl cap op cp)) u"
    "ms_rep u a fl cap (snd (bf_op fl cap op cp))" by auto
  from Cons.IH [OF u(2)] Cons.prems(2) obtain t where "ms_run a ops u = Ok (fst (bf_run fl cap ops (snd (bf_op fl cap op cp)))) t"
    "ms_rep t a fl cap (snd (bf_run fl cap ops (snd (bf_op fl cap op cp))))" by auto
  then show ?case using u(1) by (intro exI [of _ t]) (simp add: bnd_def split_def Let_def)
qed simp

subsection \<open>Opening\<close>

text \<open>The types that are accepted, and their flags: \<open>r\<close>, \<open>w\<close> or \<open>a\<close>, and then \<open>+\<close> and \<open>b\<close> in any number.\<close>

definition base_flags :: "char \<Rightarrow> 32 word" where
  "base_flags c = (if c = CHR ''r'' then MS_READ else if c = CHR ''w'' then MS_WRITE OR MS_TRUNCATE else if c = CHR ''a'' then MS_APPEND else 0)"

lemma type_to_flags_tail:
  "fl \<noteq> 0 \<Longrightarrow> type_to_flags fl t = (if set t \<subseteq> {CHR ''+'', CHR ''b''} then (if CHR ''+'' \<in> set t then fl OR (MS_READ OR MS_WRITE) else fl) else 0)"
proof (induction t arbitrary: fl)
  case (Cons c t)
  have nz: "fl OR (MS_READ OR MS_WRITE) \<noteq> 0" using Cons.prems by (simp add: ms_flag_defs or_eq_0_iff)
  have idem: "(fl OR (MS_READ OR MS_WRITE)) OR (MS_READ OR MS_WRITE) = fl OR (MS_READ OR MS_WRITE)" by (simp add: or.assoc)
  show ?case using Cons.IH [OF nz] Cons.IH [OF Cons.prems] Cons.prems idem by auto
qed simp

lemma type_to_flags_eq:
  "type_to_flags 0 type = (case type of [] \<Rightarrow> 0 | c # t \<Rightarrow>
     if base_flags c \<noteq> 0 \<and> set t \<subseteq> {CHR ''+'', CHR ''b''}
     then (if CHR ''+'' \<in> set t then base_flags c OR (MS_READ OR MS_WRITE) else base_flags c) else 0)"
  by (cases type) (auto simp: base_flags_def type_to_flags_tail ms_flag_defs)

text \<open>The content and position a stream on the caller's buffer starts with.\<close>

definition first_state :: "32 word \<Rightarrow> nat \<Rightarrow> bytes \<Rightarrow> bytes \<times> nat" where
  "first_state fl sz b = (if appends fl then (let c = takeWhile (\<lambda>x. x \<noteq> CHR 0x00) (take sz b) in (c, length c))
     else if fl AND MS_TRUNCATE \<noteq> 0 then ([], 0) else (take sz b, 0))"

lemma fmemopen_run:
  assumes "denied s = []" and "bufs s buf = Some b" and "buf \<noteq> 0" and "0 < sz" and "sz \<le> length b" and "sz < 2 ^ 31" and "0 < mem_top s"
    and "type_to_flags 0 type \<noteq> 0"
  shows "\<exists>t. fmemopen buf sz type s = Ok (mem_top s) t \<and>
    ms_rep t (mem_top s) (type_to_flags 0 type) sz (first_state (type_to_flags 0 type) sz b) \<and> bufs t = bufs s"
proof -
  define fl where "fl = type_to_flags 0 type"
  let ?c = "takeWhile (\<lambda>x. x \<noteq> CHR 0x00) (take sz b)"
  have lc: "length ?c \<le> sz" by (rule order_trans [OF length_takeWhile_le]) simp
  have tk: "take (length ?c) b = ?c" by (metis take_take min.absorb1 lc takeWhile_eq_take)
  have ne: "\<not> (length ?c < sz \<and> length b \<le> length ?c)" using assms(5) by linarith
  show ?thesis unfolding fmemopen_def fl_def [symmetric]
    using assms lc tk ne
    by (auto simp: fl_def [symmetric] mem_alloc_def granted_def choose_buf_def find_end_off_def buf_at_def ms_set_def bnd_def Let_def ms_rep_def
        first_state_def appends_def)
qed

subsection \<open>What the stream promises\<close>

text \<open>
  C31. A stream that \<open>fmemopen\<close> makes of a caller's buffer, with any type it accepts, behaves as a bounded file: every sequence of reads, writes and seeks gives the results, the content and the
  position of \<open>bf_run\<close>, started with the whole buffer, nothing, or the string in the buffer, as the type demands; no access leaves the buffer.
\<close>

theorem mem_stream_refines:
  assumes "denied s = []" and "bufs s buf = Some b" and "buf \<noteq> 0" and "0 < sz" and "sz \<le> length b" and "sz < 2 ^ 31" and "0 < mem_top s"
    and "fl = type_to_flags 0 type" and "fl \<noteq> 0" and "\<forall>op \<in> set ops. mop_ok sz op"
  shows "\<exists>t. bnd (fmemopen buf sz type) (\<lambda>fp. ms_run fp ops) s = Ok (fst (bf_run fl sz ops (first_state fl sz b))) t \<and>
    ms_rep t (mem_top s) fl sz (snd (bf_run fl sz ops (first_state fl sz b)))"
proof -
  from fmemopen_run [OF assms(1-7), of type] assms(8,9) obtain u where u: "fmemopen buf sz type s = Ok (mem_top s) u"
    "ms_rep u (mem_top s) fl sz (first_state fl sz b)" by auto
  from ms_run_refines [OF u(2) assms(10)] u(1) show ?thesis by (auto simp: bnd_def)
qed

definition demo_mem :: mspace where
  "demo_mem = \<lparr>bufs = [1 \<mapsto> ''abc'' @ replicate 5 (CHR 0x00)], streams = Map.empty, mem_top = 2, denied = [], rubbish = [], m_errno = 0\<rparr>"

theorem mem_stream_refines_witness:
  "\<exists>t. bnd (fmemopen 1 8 ''a+'') (\<lambda>fp. ms_run fp [Wr ''de'', Sk 1 SEEK_SET, Rd 9]) demo_mem = Ok [(2, []), (1, []), (4, ''bcde'')] t"
proof -
  let ?fl = "0x07 :: 32 word"
  have fl: "?fl = type_to_flags 0 ''a+''" by (simp add: ms_flag_defs)
  have m: "denied demo_mem = []" "bufs demo_mem 1 = Some (''abc'' @ replicate 5 (CHR 0x00))" "(1 :: nat) \<noteq> 0" "(0 :: nat) < 8"
    "8 \<le> length (''abc'' @ replicate 5 (CHR 0x00))" "(8 :: nat) < 2 ^ 31" "0 < mem_top demo_mem" "?fl \<noteq> 0"
    "\<forall>op \<in> set [Wr ''de'', Sk 1 SEEK_SET, Rd 9]. mop_ok 8 op"
    by (simp_all add: demo_mem_def mop_ok_def)
  have "first_state ?fl 8 (''abc'' @ replicate 5 (CHR 0x00)) = (''abc'', 3)" by (simp add: first_state_def appends_def ms_flag_defs)
  then have "fst (bf_run ?fl 8 [Wr ''de'', Sk 1 SEEK_SET, Rd 9] (first_state ?fl 8 (''abc'' @ replicate 5 (CHR 0x00)))) = [(2, []), (1, []), (4, ''bcde'')]"
    by (simp add: can_write_def can_read_def appends_def ms_flag_defs put_at_def Let_def)
  then show ?thesis using mem_stream_refines [OF m(1-7) fl m(8,9)] by auto
qed

text \<open>
  The offset of a write is an \<open>int\<close>: appending to a stream that holds between \<open>2\<^sup>3\<^sup>1\<close> and \<open>2\<^sup>3\<^sup>2\<close> bytes writes before the start of the buffer.
\<close>

theorem mem_append_wraps:
  assumes "streams s a = Some m" and "bufs s (ms_buf m) = Some b" and "ms_rsize m \<le> length b" and "ms_rsize m < 2 ^ 63" and "ms_flags m AND MS_APPEND \<noteq> 0"
    and "2 ^ 31 \<le> ms_vsize m" and "ms_vsize m < 2 ^ 32" and "ms_vsize m \<le> ms_rsize m" and "length bs < 2 ^ 31"
  shows "mstream_write a bs (int (length bs)) s = Abort (Undefined ''write outside a buffer'') s"
proof -
  define off where "off = int_of_size (ms_vsize m)"
  have off: "off = int (ms_vsize m) - 2 ^ 32"
  proof -
    have "signed_take_bit 31 (int (ms_vsize m)) = signed_take_bit 31 (int (ms_vsize m) - 2 ^ 32)"
      using signed_take_bit_take_bit [of 31 32 "int (ms_vsize m)"] signed_take_bit_take_bit [of 31 32 "int (ms_vsize m) - 2 ^ 32"]
      by (simp add: take_bit_eq_mod)
    also have "\<dots> = int (ms_vsize m) - 2 ^ 32" using assms(6,7) by (intro signed_take_bit_int_eq_self) simp_all
    finally show ?thesis by (simp add: off_def int_of_size_def)
  qed
  have "int (ms_rsize m) - off = int (ms_rsize m + 2 ^ 32 - ms_vsize m)" using assms(7) by (simp add: off of_nat_diff)
  then have "size_of_int (int (ms_rsize m) - off) = ms_rsize m + 2 ^ 32 - ms_vsize m"
    using assms(4) size_of_int_nat [of "ms_rsize m + 2 ^ 32 - ms_vsize m"] by simp
  moreover have "2 ^ 31 \<le> ms_rsize m + 2 ^ 32 - ms_vsize m" using assms(7,8) by simp
  ultimately have "int_of_size (min (size_of_int (int (length bs))) (size_of_int (int (ms_rsize m) - off))) = int (length bs)"
    using assms(9) by (simp add: min_def)
  note nw = this
  have w: "ms_flags m AND (MS_APPEND OR MS_WRITE) \<noteq> 0"
  proof
    assume "ms_flags m AND (MS_APPEND OR MS_WRITE) = 0"
    then have "(ms_flags m AND (MS_APPEND OR MS_WRITE)) AND MS_APPEND = 0" by simp
    moreover have "(MS_APPEND OR MS_WRITE) AND MS_APPEND = MS_APPEND" by (simp add: ms_flag_defs)
    ultimately show False using assms(5) by (simp add: and.assoc)
  qed
  have sz: "size_of_int (int (length bs)) = length bs" using assms(9) by simp
  have "off < 0" using off assms(7) by simp
  then have bw: "buf_write (ms_buf m) off bs s = Abort (Undefined ''write outside a buffer'') s"
    using assms(2) by (simp add: buf_write_def buf_at_def bnd_def)
  have o': "int_of_size (if ms_flags m AND MS_APPEND \<noteq> 0 then ms_vsize m else ms_curpos m) = off" using assms(5) by (simp add: off_def)
  show ?thesis unfolding mstream_write_def
    using assms(1) w bw nw sz by (simp add: ms_get_def bnd_def Let_def o')
qed

theorem mem_append_wraps_witness:
  "mstream_write 1 ''x'' 1 (demo_mem\<lparr>bufs := [1 \<mapsto> replicate 2147483650 (CHR 0x61)],
      streams := [1 \<mapsto> \<lparr>ms_buf = 1, ms_rsize = 2147483650, ms_vsize = 2147483648, ms_curpos = 0, ms_flags = MS_APPEND\<rparr>]\<rparr>) =
   Abort (Undefined ''write outside a buffer'') (demo_mem\<lparr>bufs := [1 \<mapsto> replicate 2147483650 (CHR 0x61)],
      streams := [1 \<mapsto> \<lparr>ms_buf = 1, ms_rsize = 2147483650, ms_vsize = 2147483648, ms_curpos = 0, ms_flags = MS_APPEND\<rparr>]\<rparr>)"
proof -
  let ?m = "\<lparr>ms_buf = 1, ms_rsize = 2147483650, ms_vsize = 2147483648, ms_curpos = 0, ms_flags = MS_APPEND\<rparr>"
  let ?s = "demo_mem\<lparr>bufs := [1 \<mapsto> replicate 2147483650 (CHR 0x61)], streams := [1 \<mapsto> ?m]\<rparr>"
  have "streams ?s 1 = Some ?m" "bufs ?s (ms_buf ?m) = Some (replicate 2147483650 (CHR 0x61))"
    "ms_rsize ?m \<le> length (replicate 2147483650 (CHR 0x61))" "ms_rsize ?m < 2 ^ 63" "ms_flags ?m AND MS_APPEND \<noteq> 0"
    "2 ^ 31 \<le> ms_vsize ?m" "ms_vsize ?m < 2 ^ 32" "ms_vsize ?m \<le> ms_rsize ?m" "length ''x'' < 2 ^ 31"
    by (simp_all add: MS_APPEND_def)
  from mem_append_wraps [OF this] show ?thesis by (simp)
qed

end
