(* ===== verification/Foo_Table.thy ===== *)
theory Foo_Table
  imports Linked_List
begin

section \<open>Reference-counted objects in a hash table: \<open>threads/mutex2.c\<close>, \<open>mutex3.c\<close>, \<open>spinlock.c\<close>\<close>

text \<open>
  The three programs have the same interface: \<open>foo_alloc\<close> makes an object with one reference, \<open>foo_find\<close> looks one up
  and takes a reference, \<open>foo_hold\<close> takes another, \<open>foo_rele\<close> gives one up and frees the object with the last. They differ
  in what protects the count: the lock of the object (\<open>mutex2.c\<close>), or the lock of the table, a mutex
  (\<open>mutex3.c\<close>) or a spin lock (\<open>spinlock.c\<close>). Definitions carry the suffix \<open>_m2\<close>, \<open>_m3\<close>, \<open>_sp\<close>.

  A lock is \<open>Raw\<close> before it is initialised and after it is destroyed; taking a held lock does not return to a thread that runs
  alone, and every other misuse has no meaning (\<open>Undefined\<close>), as have the use of freed memory and the
  overflow of a count. \<open>malloc\<close>, the initialisation of a lock and the creation of a thread fail as a schedule says.

  Locale \<open>refcount\<close> is the contract of the four operations, stated on a list of objects with their counts, the newest first;
  each program is an interpretation. The interleavings of threads that use \<open>mutex2.c\<close>, whose \<open>foo_rele\<close> lets go of
  one lock before it takes the other, are a step relation in theory \<open>Foo_Threads\<close>.
\<close>

datatype lockst = Raw | Free | Held

record foo =
  f_count :: int
  f_lock :: lockst
  f_id :: "32 word"
  f_next :: nat

datatype said = Hold_said nat "32 word" | Release_said nat "32 word" | Free_said | Thread_said nat

record table =
  fh :: "nat \<Rightarrow> nat"
  hashlock :: lockst
  foos :: "foo heap"
  fbrk :: nat
  fjunk :: foo
  ffail :: "bool list"
  fout :: "said list"

abbreviation NHASH :: nat where "NHASH \<equiv> 29"

definition HASH :: "32 word \<Rightarrow> nat" where
  "HASH i = unat (signed i :: 64 word) mod NHASH"

subsection \<open>Memory and locks\<close>

definition attempt :: "'r \<Rightarrow> (table, 'r) prog \<Rightarrow> (table, 'r) prog" where
  "attempt bad m = (\<lambda>s. case ffail s of
      [] \<Rightarrow> m s
    | True # fs \<Rightarrow> Ok bad (s\<lparr>ffail := fs\<rparr>)
    | False # fs \<Rightarrow> m (s\<lparr>ffail := fs\<rparr>))"

definition foo_get :: "nat \<Rightarrow> (foo \<Rightarrow> 'a) \<Rightarrow> (table, 'a) prog" where
  "foo_get a f = (\<lambda>s. case if a = 0 then None else foos s a of
      None \<Rightarrow> Abort (Undefined ''foo dereference'') s | Some n \<Rightarrow> Ok (f n) s)"

definition foo_set :: "nat \<Rightarrow> (foo \<Rightarrow> foo) \<Rightarrow> (table, unit) prog" where
  "foo_set a f = (\<lambda>s. case at a f (foos s) of
      None \<Rightarrow> Abort (Undefined ''foo dereference'') s | Some h \<Rightarrow> Ok () (s\<lparr>foos := h\<rparr>))"

definition malloc_foo :: "(table, nat) prog" where
  "malloc_foo = attempt 0 (\<lambda>s. Ok (fbrk s) (s\<lparr>fbrk := Suc (fbrk s), foos := (foos s)(fbrk s \<mapsto> fjunk s)\<rparr>))"

definition free_foo :: "nat \<Rightarrow> (table, unit) prog" where
  "free_foo a = bnd (foo_get a (\<lambda>_. ())) (\<lambda>_. modify (\<lambda>s. s\<lparr>foos := (foos s)(a := None)\<rparr>))"

definition say :: "said \<Rightarrow> (table, unit) prog" where
  "say m = modify (\<lambda>s. s\<lparr>fout := fout s @ [m]\<rparr>)"

definition hash_init :: "(table, int) prog" where
  "hash_init = attempt 12 (\<lambda>s. Ok 0 (s\<lparr>hashlock := Free\<rparr>))"

definition hash_lock :: "(table, unit) prog" where
  "hash_lock = (\<lambda>s. case hashlock s of
      Free \<Rightarrow> Ok () (s\<lparr>hashlock := Held\<rparr>) | Held \<Rightarrow> Hang | Raw \<Rightarrow> Abort (Undefined ''hash lock'') s)"

definition hash_unlock :: "(table, unit) prog" where
  "hash_unlock = (\<lambda>s. if hashlock s = Held then Ok () (s\<lparr>hashlock := Free\<rparr>) else Abort (Undefined ''hash unlock'') s)"

definition hash_destroy :: "(table, unit) prog" where
  "hash_destroy = (\<lambda>s. if hashlock s = Free then Ok () (s\<lparr>hashlock := Raw\<rparr>) else Abort (Undefined ''hash destroy'') s)"

definition lock_init :: "nat \<Rightarrow> (table, int) prog" where
  "lock_init a = attempt 12 (bnd (foo_set a (\<lambda>n. n\<lparr>f_lock := Free\<rparr>)) (\<lambda>_. ret 0))"

definition foo_lock :: "nat \<Rightarrow> (table, unit) prog" where
  "foo_lock a = bnd (foo_get a f_lock) (\<lambda>l. case l of
      Free \<Rightarrow> foo_set a (\<lambda>n. n\<lparr>f_lock := Held\<rparr>) | Held \<Rightarrow> hang | Raw \<Rightarrow> halt (Undefined ''foo lock''))"

definition foo_unlock :: "nat \<Rightarrow> (table, unit) prog" where
  "foo_unlock a = bnd (foo_get a f_lock) (\<lambda>l.
     if l = Held then foo_set a (\<lambda>n. n\<lparr>f_lock := Free\<rparr>) else halt (Undefined ''foo unlock''))"

definition lock_destroy :: "nat \<Rightarrow> (table, unit) prog" where
  "lock_destroy a = bnd (foo_get a f_lock) (\<lambda>l.
     if l = Free then foo_set a (\<lambda>n. n\<lparr>f_lock := Raw\<rparr>) else halt (Undefined ''foo lock destroy''))"

definition INT_MAX :: int where "INT_MAX = 2 ^ 31 - 1"

definition count_inc :: "nat \<Rightarrow> (table, unit) prog" where
  "count_inc a = bnd (foo_get a f_count) (\<lambda>c.
     if INT_MAX \<le> c then halt (Undefined ''count overflow'') else foo_set a (\<lambda>n. n\<lparr>f_count := c + 1\<rparr>))"

definition count_dec :: "nat \<Rightarrow> (table, unit) prog" where
  "count_dec a = bnd (foo_get a f_count) (\<lambda>c.
     if c = - INT_MAX - 1 then halt (Undefined ''count overflow'') else foo_set a (\<lambda>n. n\<lparr>f_count := c - 1\<rparr>))"

subsection \<open>The loops: searching a bucket and unlinking\<close>

text \<open>Fuel bounds the nodes visited, by the addresses given out so far: a longer walk goes round in a circle.\<close>

fun search_loop :: "nat \<Rightarrow> nat \<Rightarrow> 32 word \<Rightarrow> (table, nat) prog" where
  "search_loop 0 fp i = (if fp = 0 then ret 0 else hang)"
| "search_loop (Suc fuel) fp i =
     (if fp = 0 then ret 0
      else
        bnd (foo_get fp f_id) (\<lambda>j.
        if j = i then ret fp
        else bnd (foo_get fp f_next) (\<lambda>nx. search_loop fuel nx i)))"

definition search :: "32 word \<Rightarrow> (table, nat) prog" where
  "search i = bnd (gets fbrk) (\<lambda>fuel. bnd (gets (\<lambda>s. fh s (HASH i))) (\<lambda>fp. search_loop fuel fp i))"

fun prev_loop :: "nat \<Rightarrow> nat \<Rightarrow> nat \<Rightarrow> (table, nat) prog" where
  "prev_loop 0 tfp fp = hang"
| "prev_loop (Suc fuel) tfp fp =
     bnd (foo_get tfp f_next) (\<lambda>nx. if nx \<noteq> fp then prev_loop fuel nx fp else ret tfp)"

definition unlink_foo :: "nat \<Rightarrow> (table, unit) prog" where
  "unlink_foo fp =
     bnd (foo_get fp f_id) (\<lambda>i.
     bnd (gets (\<lambda>s. fh s (HASH i))) (\<lambda>tfp.
     if tfp = fp
     then bnd (foo_get fp f_next) (\<lambda>nx. modify (\<lambda>s. s\<lparr>fh := (fh s)(HASH i := nx)\<rparr>))
     else
       bnd (gets fbrk) (\<lambda>fuel.
       bnd (prev_loop fuel tfp fp) (\<lambda>tfp.
       bnd (foo_get fp f_next) (\<lambda>nx.
       foo_set tfp (\<lambda>n. n\<lparr>f_next := nx\<rparr>))))))"

subsection \<open>\<open>mutex2.c\<close>: the count under the lock of the object\<close>

text \<open>The routines are composed of the pieces between the points where they may wait for a lock.\<close>

definition link_foo :: "32 word \<Rightarrow> nat \<Rightarrow> (table, unit) prog" where
  "link_foo i fp =
     bnd (gets (\<lambda>s. fh s (HASH i))) (\<lambda>hd.
     bnd (foo_set fp (\<lambda>n. n\<lparr>f_next := hd\<rparr>)) (\<lambda>_.
     modify (\<lambda>s. s\<lparr>fh := (fh s)(HASH i := fp)\<rparr>)))"

definition alloc_enter :: "32 word \<Rightarrow> (table, nat) prog" where
  "alloc_enter i =
     bnd malloc_foo (\<lambda>fp.
     if fp \<noteq> 0 then
       bnd (foo_set fp (\<lambda>n. n\<lparr>f_count := 1\<rparr>)) (\<lambda>_.
       bnd (foo_set fp (\<lambda>n. n\<lparr>f_id := i\<rparr>)) (\<lambda>_.
       bnd (lock_init fp) (\<lambda>err.
       if err \<noteq> 0 then bnd (free_foo fp) (\<lambda>_. ret 0)
       else
         bnd hash_lock (\<lambda>_.
         bnd (link_foo i fp) (\<lambda>_.
         ret fp)))))
     else ret fp)"

definition alloc_leave :: "nat \<Rightarrow> (table, unit) prog" where
  "alloc_leave fp = bnd (foo_lock fp) (\<lambda>_. bnd hash_unlock (\<lambda>_. foo_unlock fp))"

definition foo_alloc_m2 :: "32 word \<Rightarrow> (table, nat) prog" where
  "foo_alloc_m2 i =
     bnd (alloc_enter i) (\<lambda>fp.
     if fp = 0 then ret fp else bnd (alloc_leave fp) (\<lambda>_. ret fp))"

definition foo_hold_m2 :: "nat \<Rightarrow> (table, unit) prog" where
  "foo_hold_m2 fp = bnd (foo_lock fp) (\<lambda>_. bnd (count_inc fp) (\<lambda>_. foo_unlock fp))"

definition find_enter :: "32 word \<Rightarrow> (table, nat) prog" where
  "find_enter i =
     bnd hash_lock (\<lambda>_.
     bnd (search i) (\<lambda>fp.
     if fp = 0 then bnd hash_unlock (\<lambda>_. ret fp) else ret fp))"

definition find_leave :: "nat \<Rightarrow> (table, unit) prog" where
  "find_leave fp = bnd (foo_hold_m2 fp) (\<lambda>_. hash_unlock)"

definition foo_find_m2 :: "32 word \<Rightarrow> (table, nat) prog" where
  "foo_find_m2 i =
     bnd (find_enter i) (\<lambda>fp.
     if fp = 0 then ret fp else bnd (find_leave fp) (\<lambda>_. ret fp))"

text \<open>\<open>rele_check\<close> tells whether the routine is done.\<close>

definition rele_check :: "nat \<Rightarrow> (table, bool) prog" where
  "rele_check fp =
     bnd (foo_lock fp) (\<lambda>_.
     bnd (foo_get fp f_count) (\<lambda>c.
     if c = 1 then bnd (foo_unlock fp) (\<lambda>_. ret False)
     else bnd (count_dec fp) (\<lambda>_. bnd (foo_unlock fp) (\<lambda>_. ret True))))"

definition rele_recheck :: "nat \<Rightarrow> (table, unit) prog" where
  "rele_recheck fp =
     bnd (foo_lock fp) (\<lambda>_.
     bnd (foo_get fp f_count) (\<lambda>c.
     if c \<noteq> 1 then
       bnd (count_dec fp) (\<lambda>_.
       bnd (foo_unlock fp) (\<lambda>_.
       hash_unlock))
     else
       bnd (unlink_foo fp) (\<lambda>_.
       bnd hash_unlock (\<lambda>_.
       bnd (foo_unlock fp) (\<lambda>_.
       bnd (lock_destroy fp) (\<lambda>_.
       free_foo fp))))))"

definition foo_rele_m2 :: "nat \<Rightarrow> (table, unit) prog" where
  "foo_rele_m2 fp =
     bnd (rele_check fp) (\<lambda>done.
     if done then ret ()
     else bnd hash_lock (\<lambda>_. rele_recheck fp))"

subsection \<open>\<open>mutex3.c\<close>: the count under the lock of the table\<close>

definition foo_alloc_m3 :: "32 word \<Rightarrow> (table, nat) prog" where
  "foo_alloc_m3 i =
     bnd malloc_foo (\<lambda>fp.
     if fp \<noteq> 0 then
       bnd (foo_set fp (\<lambda>n. n\<lparr>f_count := 1\<rparr>)) (\<lambda>_.
       bnd (foo_set fp (\<lambda>n. n\<lparr>f_id := i\<rparr>)) (\<lambda>_.
       bnd (lock_init fp) (\<lambda>err.
       if err \<noteq> 0 then bnd (free_foo fp) (\<lambda>_. ret 0)
       else
         bnd hash_lock (\<lambda>_.
         bnd (link_foo i fp) (\<lambda>_.
         bnd (foo_lock fp) (\<lambda>_.
         bnd hash_unlock (\<lambda>_.
         bnd (foo_unlock fp) (\<lambda>_.
         ret fp))))))))
     else ret fp)"

definition foo_hold_m3 :: "nat \<Rightarrow> nat \<Rightarrow> (table, unit) prog" where
  "foo_hold_m3 self fp =
     bnd hash_lock (\<lambda>_.
     bnd (count_inc fp) (\<lambda>_.
     bnd (foo_get fp f_id) (\<lambda>i.
     bnd (say (Hold_said self i)) (\<lambda>_.
     hash_unlock))))"

definition foo_find_m3 :: "32 word \<Rightarrow> (table, nat) prog" where
  "foo_find_m3 i =
     bnd hash_lock (\<lambda>_.
     bnd (search i) (\<lambda>fp.
     bnd (if fp \<noteq> 0 then count_inc fp else ret ()) (\<lambda>_.
     bnd hash_unlock (\<lambda>_.
     ret fp))))"

definition foo_rele_m3 :: "nat \<Rightarrow> nat \<Rightarrow> (table, unit) prog" where
  "foo_rele_m3 self fp =
     bnd hash_lock (\<lambda>_.
     bnd (foo_get fp f_id) (\<lambda>i.
     bnd (say (Release_said self i)) (\<lambda>_.
     bnd (count_dec fp) (\<lambda>_.
     bnd (foo_get fp f_count) (\<lambda>c.
     if c = 0 then
       bnd (unlink_foo fp) (\<lambda>_.
       bnd hash_unlock (\<lambda>_.
       bnd (lock_destroy fp) (\<lambda>_.
       free_foo fp)))
     else hash_unlock)))))"

subsection \<open>\<open>spinlock.c\<close>: the same with spin locks\<close>

definition foo_alloc_sp :: "32 word \<Rightarrow> (table, nat) prog" where
  "foo_alloc_sp i =
     bnd malloc_foo (\<lambda>fp.
     if fp \<noteq> 0 then
       bnd (foo_set fp (\<lambda>n. n\<lparr>f_count := 1\<rparr>)) (\<lambda>_.
       bnd (foo_set fp (\<lambda>n. n\<lparr>f_id := i\<rparr>)) (\<lambda>_.
       bnd (lock_init fp) (\<lambda>err.
       if err \<noteq> 0 then bnd (free_foo fp) (\<lambda>_. ret 0)
       else
         bnd hash_lock (\<lambda>_.
         bnd (link_foo i fp) (\<lambda>_.
         bnd (foo_lock fp) (\<lambda>_.
         bnd hash_unlock (\<lambda>_.
         bnd (foo_unlock fp) (\<lambda>_.
         ret fp))))))))
     else ret fp)"

definition foo_hold_sp :: "nat \<Rightarrow> nat \<Rightarrow> (table, unit) prog" where
  "foo_hold_sp self fp =
     bnd hash_lock (\<lambda>_.
     bnd (count_inc fp) (\<lambda>_.
     bnd (foo_get fp f_id) (\<lambda>i.
     bnd (say (Hold_said self i)) (\<lambda>_.
     hash_unlock))))"

definition foo_find_sp :: "32 word \<Rightarrow> (table, nat) prog" where
  "foo_find_sp i =
     bnd hash_lock (\<lambda>_.
     bnd (search i) (\<lambda>fp.
     bnd (if fp \<noteq> 0 then count_inc fp else ret ()) (\<lambda>_.
     bnd hash_unlock (\<lambda>_.
     ret fp))))"

definition foo_rele_sp :: "nat \<Rightarrow> nat \<Rightarrow> (table, unit) prog" where
  "foo_rele_sp self fp =
     bnd hash_lock (\<lambda>_.
     bnd (foo_get fp f_id) (\<lambda>i.
     bnd (say (Release_said self i)) (\<lambda>_.
     bnd (count_dec fp) (\<lambda>_.
     bnd (foo_get fp f_count) (\<lambda>c.
     if c = 0 then
       bnd (unlink_foo fp) (\<lambda>_.
       bnd hash_unlock (\<lambda>_.
       bnd (lock_destroy fp) (\<lambda>_.
       bnd (free_foo fp) (\<lambda>_.
       say Free_said))))
     else hash_unlock)))))"

text \<open>
  The programs: \<open>main\<close> makes an object, gives it to two threads that each take and give up a reference, waits for
  both and gives up its own. The schedule says which thread's next call comes first.
\<close>

definition thr_fn1_m3 :: "nat \<Rightarrow> nat \<Rightarrow> (table, unit) prog list" where
  "thr_fn1_m3 self fp = [foo_hold_m3 self fp, foo_rele_m3 self fp]"

definition thr_fn1_sp :: "nat \<Rightarrow> nat \<Rightarrow> (table, unit) prog list" where
  "thr_fn1_sp self fp = [foo_hold_sp self fp, foo_rele_sp self fp]"

fun sequence :: "(table, unit) prog list \<Rightarrow> (table, unit) prog" where
  "sequence [] = ret ()"
| "sequence (m # ms) = bnd m (\<lambda>_. sequence ms)"

fun interleave :: "bool list \<Rightarrow> (table, unit) prog list \<Rightarrow> (table, unit) prog list \<Rightarrow> (table, unit) prog list" where
  "interleave (True # bs) (m # ms) ns = m # interleave bs ms ns"
| "interleave (False # bs) ms (n # ns) = n # interleave bs ms ns"
| "interleave bs ms ns = ms @ ns"

definition pthread_create :: "(table, int) prog" where
  "pthread_create = attempt 11 (ret 0)"

definition main_m3 :: "bool list \<Rightarrow> (table, unit) prog" where
  "main_m3 sched =
     bnd (foo_alloc_m3 1) (\<lambda>fp.
     if fp = 0 then halt (Err_exit ''can't foo_alloc'')
     else
       bnd (say (Thread_said 0)) (\<lambda>_.
       bnd pthread_create (\<lambda>err.
       if err \<noteq> 0 then halt (Err_exit ''can't create thread 1'')
       else
         bnd pthread_create (\<lambda>err.
         if err \<noteq> 0 then halt (Err_exit ''can't create thread 1'')
         else
           bnd (sequence (interleave sched (thr_fn1_m3 1 fp) (thr_fn1_m3 2 fp))) (\<lambda>_.
           bnd (foo_rele_m3 0 fp) (\<lambda>_.
           halt (Exit 0)))))))"

definition main_sp :: "bool list \<Rightarrow> (table, unit) prog" where
  "main_sp sched =
     bnd hash_init (\<lambda>err.
     if err \<noteq> 0 then halt (Err_exit ''pthread_spin_init failed.'')
     else
       bnd (foo_alloc_sp 1) (\<lambda>fp.
       if fp = 0 then halt (Err_exit ''can't foo_alloc'')
       else
         bnd (say (Thread_said 0)) (\<lambda>_.
         bnd pthread_create (\<lambda>err.
         if err \<noteq> 0 then halt (Err_exit ''can't create thread 1'')
         else
           bnd pthread_create (\<lambda>err.
           if err \<noteq> 0 then halt (Err_exit ''can't create thread 1'')
           else
             bnd (sequence (interleave sched (thr_fn1_sp 1 fp) (thr_fn1_sp 2 fp))) (\<lambda>_.
             bnd (foo_rele_sp 0 fp) (\<lambda>_.
             bnd hash_destroy (\<lambda>_.
             halt (Exit 0)))))))))"

end
