(* ===== verification/Foo_Refine.thy ===== *)
theory Foo_Refine
  imports Foo_Table
begin

section \<open>The object table implements reference counting\<close>

text \<open>
  The abstract table \<open>spec\<close> is a list of objects with their counts, the newest first; \<open>rep l s a\<close> relates a state of the
  program whose table lock is in state \<open>l\<close> to it: each bucket is the chain of the objects that hash to it, in this order, and
  memory holds these objects and nothing else. Locale \<open>refcount\<close> is the contract, its client a sequence of calls; the
  three programs are interpretations of it.
\<close>

type_synonym obj = "nat \<times> 32 word \<times> nat"

record spec =
  objs :: "obj list"
  next_addr :: nat
  failures :: "bool list"

definition adjust :: "nat \<Rightarrow> nat \<Rightarrow> obj list \<Rightarrow> obj list" where
  "adjust a c os = map (\<lambda>(b, d, k). (b, d, if b = a then c else k)) os"

definition without :: "nat \<Rightarrow> obj list \<Rightarrow> obj list" where
  "without a os = filter (\<lambda>p. fst p \<noteq> a) os"

definition count_of :: "spec \<Rightarrow> nat \<Rightarrow> nat" where
  "count_of a p = (case map_of (objs a) p of None \<Rightarrow> 0 | Some (d, c) \<Rightarrow> c)"

definition set_count :: "nat \<Rightarrow> nat \<Rightarrow> spec \<Rightarrow> spec" where
  "set_count p c a = a\<lparr>objs := (if c = 0 then without p (objs a) else adjust p c (objs a))\<rparr>"

definition spec_alloc :: "32 word \<Rightarrow> spec \<Rightarrow> nat \<times> spec" where
  "spec_alloc i a = (case failures a of
      True # fs \<Rightarrow> (0, a\<lparr>failures := fs\<rparr>)
    | False # True # fs \<Rightarrow> (0, a\<lparr>next_addr := Suc (next_addr a), failures := fs\<rparr>)
    | fs \<Rightarrow> (next_addr a, a\<lparr>objs := (next_addr a, i, 1) # objs a, next_addr := Suc (next_addr a), failures := drop 2 fs\<rparr>))"

definition spec_lookup :: "32 word \<Rightarrow> spec \<Rightarrow> nat" where
  "spec_lookup i a = (case find (\<lambda>(p, d, c). d = i) (objs a) of None \<Rightarrow> 0 | Some (p, d, c) \<Rightarrow> p)"

definition spec_hold :: "nat \<Rightarrow> spec \<Rightarrow> spec" where
  "spec_hold p a = set_count p (count_of a p + 1) a"

definition spec_find :: "32 word \<Rightarrow> spec \<Rightarrow> nat \<times> spec" where
  "spec_find i a = (let p = spec_lookup i a in (p, if p = 0 then a else spec_hold p a))"

definition spec_rele :: "nat \<Rightarrow> spec \<Rightarrow> spec" where
  "spec_rele p a = set_count p (count_of a p - 1) a"

subsection \<open>The relation\<close>

interpretation fc: chained f_next "\<lambda>a n. n\<lparr>f_next := a\<rparr>"
  by unfold_locales simp

definition bucket :: "obj list \<Rightarrow> nat \<Rightarrow> nat list" where
  "bucket os i = map fst (filter (\<lambda>(p, d, c). HASH d = i) os)"

definition linked_foos :: "foo heap \<Rightarrow> (nat \<Rightarrow> nat) \<Rightarrow> obj list \<Rightarrow> bool" where
  "linked_foos h f os \<longleftrightarrow> (\<forall>i. fc.chain h (f i) (bucket os i))"

definition obj_at :: "foo heap \<Rightarrow> nat \<Rightarrow> obj \<Rightarrow> bool" where
  "obj_at h k = (\<lambda>(p, d, c). 0 < p \<and> p < k \<and> 0 < c \<and>
     (\<exists>n. h p = Some n \<and> f_count n = int c \<and> f_id n = d \<and> f_lock n = Free))"

definition stored :: "foo heap \<Rightarrow> nat \<Rightarrow> obj list \<Rightarrow> bool" where
  "stored h k os \<longleftrightarrow> 0 < k \<and> distinct (map fst os) \<and> (\<forall>x\<in>set os. obj_at h k x) \<and> (\<forall>p. p \<notin> fst ` set os \<longrightarrow> h p = None)"

definition rep :: "lockst \<Rightarrow> table \<Rightarrow> spec \<Rightarrow> bool" where
  "rep l s a \<longleftrightarrow> hashlock s = l \<and> linked_foos (foos s) (fh s) (objs a) \<and> stored (foos s) (next_addr a) (objs a) \<and>
     fbrk s = next_addr a \<and> ffail s = failures a"

lemma map_fst_adjust [simp]: "map fst (adjust p c os) = map fst os"
  by (simp add: adjust_def case_prod_beta o_def)

lemma bucket_adjust [simp]: "bucket (adjust p c os) i = bucket os i"
proof (induction os)
  case (Cons x os)
  obtain q d k where x: "x = (q, d, k)" by (cases x)
  show ?case using Cons by (simp add: bucket_def adjust_def x)
qed (simp add: bucket_def adjust_def)

lemma bucket_Nil [simp]: "bucket [] i = []"
  by (simp add: bucket_def)

lemma bucket_Cons [simp]: "bucket ((p, d, c) # os) i = (if HASH d = i then p # bucket os i else bucket os i)"
  by (simp add: bucket_def)

lemma set_bucket: "set (bucket os i) \<subseteq> fst ` set os"
  by (auto simp: bucket_def)

lemma distinct_bucket: "distinct (map fst os) \<Longrightarrow> distinct (bucket os i)"
  by (simp add: bucket_def distinct_map_filter)

lemma bucket_without: "bucket (without p os) i = filter (\<lambda>q. q \<noteq> p) (bucket os i)"
  by (induction os) (auto simp: bucket_def without_def)

lemma set_without: "set (without p os) = {x \<in> set os. fst x \<noteq> p}"
  by (auto simp: without_def)

lemma distinct_without: "distinct (map fst os) \<Longrightarrow> distinct (map fst (without p os))"
  by (simp add: without_def distinct_map_filter)

lemma stored_obj: "stored h k os \<Longrightarrow> x \<in> set os \<Longrightarrow> obj_at h k x"
  by (simp add: stored_def)

lemma stored_distinct: "stored h k os \<Longrightarrow> distinct (map fst os)"
  by (simp add: stored_def)

lemma storedD:
  assumes "stored h k os" and "(p, d, c) \<in> set os"
  obtains n where "h p = Some n" "f_count n = int c" "f_id n = d" "f_lock n = Free" "0 < p" "p < k" "0 < c" "map_of os p = Some (d, c)"
  using stored_obj [OF assms] stored_distinct [OF assms(1)] assms(2) by (auto simp: obj_at_def)

lemma stored_live:
  assumes "stored h k os"
  shows "h p = None \<longleftrightarrow> map_of os p = None"
proof (cases "p \<in> fst ` set os")
  case True
  then obtain d c where "(p, d, c) \<in> set os" by force
  then show ?thesis by (rule storedD [OF assms]) simp
next
  case False
  then have "h p = None" using assms by (simp add: stored_def)
  moreover have "map_of os p = None" using False by (simp add: map_of_eq_None_iff)
  ultimately show ?thesis by simp
qed

lemma bucket_fuel:
  assumes "stored h k os"
  shows "length (bucket os i) < k"
proof -
  have "q \<in> {1..<k}" if q: "q \<in> set (bucket os i)" for q
  proof -
    obtain d c where "(q, d, c) \<in> set os" using q set_bucket [of os i] by force
    then show ?thesis by (rule storedD [OF assms]) simp
  qed
  then have "set (bucket os i) \<subseteq> {1..<k}" by blast
  then have "card (set (bucket os i)) \<le> card {1..<k}" by (intro card_mono) simp_all
  moreover have "0 < k" using assms by (simp add: stored_def)
  ultimately show ?thesis using distinct_card [OF distinct_bucket [OF stored_distinct [OF assms], of i]] by simp
qed

subsection \<open>Single steps\<close>

lemma foo_get_run [simp]: "foos s p = Some n \<Longrightarrow> 0 < p \<Longrightarrow> foo_get p f s = Ok (f n) s"
  by (simp add: foo_get_def)

lemma foo_set_run [simp]: "foos s p = Some n \<Longrightarrow> 0 < p \<Longrightarrow> foo_set p f s = Ok () (s\<lparr>foos := (foos s)(p \<mapsto> f n)\<rparr>)"
  by (simp add: foo_set_def at_def)

lemma foo_lock_run [simp]:
  "foos s p = Some n \<Longrightarrow> 0 < p \<Longrightarrow> f_lock n = Free \<Longrightarrow>
    foo_lock p s = Ok () (s\<lparr>foos := (foos s)(p \<mapsto> n\<lparr>f_lock := Held\<rparr>)\<rparr>)"
  by (simp add: foo_lock_def bnd_def)

lemma foo_unlock_run [simp]:
  "foos s p = Some n \<Longrightarrow> 0 < p \<Longrightarrow> f_lock n = Held \<Longrightarrow>
    foo_unlock p s = Ok () (s\<lparr>foos := (foos s)(p \<mapsto> n\<lparr>f_lock := Free\<rparr>)\<rparr>)"
  by (simp add: foo_unlock_def bnd_def)

lemma lock_destroy_run [simp]:
  "foos s p = Some n \<Longrightarrow> 0 < p \<Longrightarrow> f_lock n = Free \<Longrightarrow>
    lock_destroy p s = Ok () (s\<lparr>foos := (foos s)(p \<mapsto> n\<lparr>f_lock := Raw\<rparr>)\<rparr>)"
  by (simp add: lock_destroy_def bnd_def)

lemma free_foo_run [simp]: "foos s p = Some n \<Longrightarrow> 0 < p \<Longrightarrow> free_foo p s = Ok () (s\<lparr>foos := (foos s)(p := None)\<rparr>)"
  by (simp add: free_foo_def bnd_def)

lemma count_inc_run [simp]:
  "foos s p = Some n \<Longrightarrow> 0 < p \<Longrightarrow> f_count n < INT_MAX \<Longrightarrow>
    count_inc p s = Ok () (s\<lparr>foos := (foos s)(p \<mapsto> n\<lparr>f_count := f_count n + 1\<rparr>)\<rparr>)"
  by (simp add: count_inc_def bnd_def)

lemma count_dec_run [simp]:
  "foos s p = Some n \<Longrightarrow> 0 < p \<Longrightarrow> 0 < f_count n \<Longrightarrow>
    count_dec p s = Ok () (s\<lparr>foos := (foos s)(p \<mapsto> n\<lparr>f_count := f_count n - 1\<rparr>)\<rparr>)"
  by (simp add: count_dec_def bnd_def INT_MAX_def)

lemma hash_lock_run [simp]: "hashlock s = Free \<Longrightarrow> hash_lock s = Ok () (s\<lparr>hashlock := Held\<rparr>)"
  by (simp add: hash_lock_def)

lemma hash_unlock_run [simp]: "hashlock s = Held \<Longrightarrow> hash_unlock s = Ok () (s\<lparr>hashlock := Free\<rparr>)"
  by (simp add: hash_unlock_def)

subsection \<open>Searching and unlinking\<close>

lemma search_loop_run:
  assumes "fc.chain (foos s) p (map fst os)" and "length os \<le> fuel"
    and "\<And>q d c. (q, d, c) \<in> set os \<Longrightarrow> \<exists>n. foos s q = Some n \<and> f_id n = d"
  shows "search_loop fuel p i s = Ok (case find (\<lambda>(q, d, c). d = i) os of None \<Rightarrow> 0 | Some (q, d, c) \<Rightarrow> q) s"
  using assms
proof (induction os arbitrary: p fuel)
  case Nil
  then show ?case by (cases fuel) simp_all
next
  case (Cons x os)
  obtain q d c where x: "x = (q, d, c)" by (cases x)
  obtain f where f: "fuel = Suc f" using Cons.prems(2) by (cases fuel) auto
  obtain n where n: "foos s q = Some n" "f_id n = d" using Cons.prems(3) [of q d c] x by auto
  have p: "p = q" "0 < q" and ch: "fc.chain (foos s) (f_next n) (map fst os)" using Cons.prems(1) n x by auto
  have "search_loop f (f_next n) i s = Ok (case find (\<lambda>(q, d, c). d = i) os of None \<Rightarrow> 0 | Some (q, d, c) \<Rightarrow> q) s"
    using Cons.IH [OF ch] Cons.prems(2,3) f by fastforce
  then show ?case using n p by (simp add: f x bnd_def)
qed

lemma find_bucket:
  "find (\<lambda>(p, d, c). d = i) (filter (\<lambda>(p, d, c). HASH d = HASH i) os) = find (\<lambda>(p, d, c). d = i) os"
  by (induction os) auto

lemma search_run:
  assumes "linked_foos (foos s) (fh s) os" and "stored (foos s) (fbrk s) os"
  shows "search i s = Ok (case find (\<lambda>(q, d, c). d = i) os of None \<Rightarrow> 0 | Some (q, d, c) \<Rightarrow> q) s"
proof -
  let ?bs = "filter (\<lambda>(p, d, c). HASH d = HASH i) os"
  have "fc.chain (foos s) (fh s (HASH i)) (map fst ?bs)" using assms(1) by (simp add: linked_foos_def bucket_def)
  moreover have "length ?bs \<le> fbrk s" using bucket_fuel [OF assms(2), of "HASH i"] by (simp add: bucket_def)
  moreover have "\<exists>n. foos s q = Some n \<and> f_id n = d" if "(q, d, c) \<in> set ?bs" for q d c
    using that storedD [OF assms(2), of q d c] by auto
  ultimately have "search_loop (fbrk s) (fh s (HASH i)) i s = Ok (case find (\<lambda>(q, d, c). d = i) ?bs of None \<Rightarrow> 0 | Some (q, d, c) \<Rightarrow> q) s"
    by (rule search_loop_run)
  then show ?thesis by (simp add: search_def bnd_def find_bucket)
qed

lemma prev_loop_run:
  assumes "fc.chain (foos s) (hd us) (us @ p # vs)" and "us \<noteq> []" and "length us \<le> fuel"
  shows "prev_loop fuel (hd us) p s = Ok (last us) s"
  using assms
proof (induction us arbitrary: fuel)
  case (Cons u us)
  have "p \<notin> set us" using fc.chain_distinct [OF Cons.prems(1)] by auto
  obtain f where f: "fuel = Suc f" using Cons.prems(3) by (cases fuel) auto
  obtain n where n: "foos s u = Some n" "0 < u" and ch: "fc.chain (foos s) (f_next n) (us @ p # vs)"
    using Cons.prems(1) by auto
  show ?case
  proof (cases us)
    case Nil
    then show ?thesis using n ch f by (simp add: bnd_def)
  next
    case (Cons w ws)
    then have "f_next n = w" "w \<noteq> p" using ch \<open>p \<notin> set us\<close> by auto
    then show ?thesis using n ch f Cons Cons.IH [of f] Cons.prems(3) by (simp add: bnd_def)
  qed
qed simp

text \<open>A heap that differs in the links only, and at \<open>p\<close>.\<close>

definition relinked :: "nat \<Rightarrow> foo heap \<Rightarrow> foo heap \<Rightarrow> bool" where
  "relinked p h h' \<longleftrightarrow> (\<forall>q. q \<noteq> p \<longrightarrow> map_option (f_next_update (\<lambda>_. 0)) (h q) = map_option (f_next_update (\<lambda>_. 0)) (h' q))"

lemma relinked_obj:
  assumes "relinked p h h'" and "obj_at h k (q, d, c)" and "q \<noteq> p"
  shows "obj_at h' k (q, d, c)"
proof -
  obtain n where n: "h q = Some n" "f_count n = int c" "f_id n = d" "f_lock n = Free" using assms(2) by (auto simp: obj_at_def)
  have "map_option (f_next_update (\<lambda>_. 0)) (h q) = map_option (f_next_update (\<lambda>_. 0)) (h' q)"
    using assms(1,3) by (simp add: relinked_def)
  then obtain n' where n': "h' q = Some n'" "n\<lparr>f_next := 0\<rparr> = n'\<lparr>f_next := 0\<rparr>" using n(1) by (cases "h' q") auto
  then have "f_count n' = f_count n \<and> f_id n' = f_id n \<and> f_lock n' = f_lock n" by (cases n; cases n') simp
  then show ?thesis using n n'(1) assms(2) by (simp add: obj_at_def)
qed

lemma stored_without:
  assumes S: "stored h k os" and R: "relinked p h h'" and "h' p = None"
  shows "stored h' k (without p os)"
proof -
  have "obj_at h' k x" if x: "x \<in> set (without p os)" for x
  proof -
    obtain q d c where "x = (q, d, c)" by (rule prod_cases3)
    then show ?thesis using x stored_obj [OF S, of x] relinked_obj [OF R, of k q d c] by (simp add: set_without)
  qed
  moreover have "h' q = None" if "q \<notin> fst ` set (without p os)" for q
  proof (cases "q = p")
    case False
    then have "q \<notin> fst ` set os" using that by (force simp: set_without)
    then have "h q = None" using S by (simp add: stored_def)
    then show ?thesis using R False unfolding relinked_def by (metis map_option_is_None)
  qed (simp add: assms(3))
  ultimately show ?thesis using S distinct_without by (simp add: stored_def)
qed

lemma bucket_has:
  assumes "distinct (map fst os)" and "(p, d, c) \<in> set os"
  shows "p \<in> set (bucket os i) \<longleftrightarrow> i = HASH d"
  using assms by (force simp: bucket_def dest: eq_key_imp_eq_value)

lemma unlink_run:
  assumes L: "linked_foos h (fh s) os" and S: "stored h (fbrk s) os" and m: "(p, d, c) \<in> set os" "h p = Some m"
    and h: "foos s = h(p \<mapsto> n)" and n: "f_next n = f_next m" "f_id n = d"
  shows "\<exists>F H. unlink_foo p s = Ok () (s\<lparr>fh := F, foos := H\<rparr>) \<and> H p = Some n \<and>
    linked_foos (H(p := None)) F (without p os) \<and> stored (H(p := None)) (fbrk s) (without p os)"
proof -
  have p: "0 < p" "p < fbrk s" using stored_obj [OF S m(1)] by (simp_all add: obj_at_def)
  have sp: "foos s p = Some n" by (simp add: h)
  have ch: "fc.chain (foos s) (fh s i) (bucket os i)" for i
    using L fc.chain_field [of h p m n] m(2) n(1) by (simp add: linked_foos_def h)
  have dist: "distinct (bucket os i)" for i using distinct_bucket [OF stored_distinct [OF S]] .
  have only: "p \<in> set (bucket os i) \<longleftrightarrow> i = HASH d" for i using bucket_has [OF stored_distinct [OF S] m(1)] .
  then obtain us vs where b: "bucket os (HASH d) = us @ p # vs" by (metis split_list)
  have nin: "p \<notin> set us" "p \<notin> set vs" using dist [of "HASH d"] by (auto simp: b)
  have "filter (\<lambda>q. q \<noteq> p) us = us" "filter (\<lambda>q. q \<noteq> p) vs = vs" using nin by (auto simp: filter_id_conv)
  then have rest: "bucket (without p os) (HASH d) = us @ vs" by (simp add: bucket_without b)
  have oth: "bucket (without p os) i = bucket os i" if "i \<noteq> HASH d" for i
    using that only [of i] by (auto simp: bucket_without filter_id_conv)
  note b' = ch [of "HASH d", unfolded b]
  show ?thesis
  proof (cases "us = []")
    case True
    let ?F = "(fh s)(HASH d := f_next n)"
    have hd: "fh s (HASH d) = p" using b' True by simp
    have "unlink_foo p s = Ok () (s\<lparr>fh := ?F, foos := foos s\<rparr>)" using sp p n hd by (simp add: unlink_foo_def bnd_def)
    moreover have "linked_foos ((foos s)(p := None)) ?F (without p os)"
      unfolding linked_foos_def
    proof
      fix i
      show "fc.chain ((foos s)(p := None)) (?F i) (bucket (without p os) i)"
        using ch [of i] b' True rest oth [of i] only [of i] nin sp by (cases "i = HASH d") auto
    qed
    moreover have "stored ((foos s)(p := None)) (fbrk s) (without p os)"
      by (rule stored_without [OF S]) (simp_all add: relinked_def h)
    ultimately show ?thesis using sp by blast
  next
    case False
    define q where "q = last us"
    obtain ws where us: "us = ws @ [q]" using False unfolding q_def by (metis append_butlast_last_id)
    obtain k where k: "foos s q = Some k" "0 < q" using fc.chain_alloc [OF b', of q] us by auto
    have qp: "q \<noteq> p" using nin us by auto
    have hd: "fh s (HASH d) = hd us" using b' False by (cases us) auto
    have "length us \<le> fbrk s" using bucket_fuel [OF S, of "HASH d"] by (simp add: b)
    then have pl: "prev_loop (fbrk s) (fh s (HASH d)) p s = Ok q s"
      using prev_loop_run [of s us p vs "fbrk s"] b' False hd by (simp add: q_def)
    let ?H = "(foos s)(q \<mapsto> k\<lparr>f_next := f_next n\<rparr>)"
    have "hd us \<noteq> p" using nin False by (metis hd_in_set)
    then have run: "unlink_foo p s = Ok () (s\<lparr>fh := fh s, foos := ?H\<rparr>)" using sp p n k hd pl by (simp add: unlink_foo_def bnd_def)
    have here: "fc.chain ?H (fh s (HASH d)) (us @ vs)"
      using fc.chain_skip [of "foos s" "fh s (HASH d)" ws q p vs k n] b' us k sp by simp
    have qd: "q \<notin> set (bucket os i)" if "i \<noteq> HASH d" for i
    proof -
      have "q \<in> set (bucket os (HASH d))" using us b by simp
      then obtain e c' where e: "(q, e, c') \<in> set os" "HASH e = HASH d" by (auto simp: bucket_def)
      show ?thesis using bucket_has [OF stored_distinct [OF S] e(1), of i] e(2) that by simp
    qed
    have there: "fc.chain ?H (fh s i) (bucket os i)" if "i \<noteq> HASH d" for i using ch [of i] qd [OF that] by simp
    have "linked_foos (?H(p := None)) (fh s) (without p os)"
      unfolding linked_foos_def
    proof
      fix i
      have "p \<notin> set (bucket (without p os) i)" by (simp add: bucket_without)
      moreover have "fc.chain ?H (fh s i) (bucket (without p os) i)" using here there rest oth by (cases "i = HASH d") simp_all
      ultimately show "fc.chain (?H(p := None)) (fh s i) (bucket (without p os) i)" using fc.chain_other by blast
    qed
    moreover have "stored (?H(p := None)) (fbrk s) (without p os)"
      by (rule stored_without [OF S]) (use k qp in \<open>auto simp: relinked_def h\<close>)
    moreover have "?H p = Some n" using qp sp by simp
    ultimately show ?thesis using run by blast
  qed
qed

subsection \<open>What keeps the relation\<close>

lemma rep_lock: "rep l s a \<Longrightarrow> rep l' (s\<lparr>hashlock := l'\<rparr>) a"
  by (simp add: rep_def)

lemma rep_say: "rep l (s\<lparr>fout := w\<rparr>) a = rep l s a"
  by (simp add: rep_def)

lemma rep_live:
  assumes "rep l s a" and "map_of (objs a) p = Some (d, c)"
  obtains n where "foos s p = Some n" "f_count n = int c" "f_id n = d" "f_lock n = Free" "0 < p" "0 < c" "p < next_addr a"
proof -
  have "stored (foos s) (fbrk s) (objs a)" "fbrk s = next_addr a" using assms(1) by (simp_all add: rep_def)
  then show ?thesis using storedD map_of_SomeD [OF assms(2)] that by metis
qed

lemma rep_count:
  assumes r: "rep l s a" and p: "map_of (objs a) p = Some (d, c)" and n: "foos s p = Some n"
    and n': "f_count n' = int c'" "f_id n' = d" "f_lock n' = Free" "f_next n' = f_next n" and c': "0 < c'"
  shows "rep l (s\<lparr>foos := (foos s)(p \<mapsto> n')\<rparr>) (set_count p c' a)"
proof -
  have S: "stored (foos s) (fbrk s) (objs a)" and L: "linked_foos (foos s) (fh s) (objs a)" using r by (simp_all add: rep_def)
  have "obj_at ((foos s)(p \<mapsto> n')) (fbrk s) x" if x: "x \<in> set (adjust p c' (objs a))" for x
  proof -
    obtain q e k where q: "(q, e, k) \<in> set (objs a)" "x = (q, e, if q = p then c' else k)" using x by (auto simp: adjust_def)
    show ?thesis
    proof (cases "q = p")
      case True
      then have "e = d" using p map_of_is_SomeI [OF stored_distinct [OF S] q(1)] by simp
      then show ?thesis using stored_obj [OF S q(1)] q(2) True n' c' by (simp add: obj_at_def)
    next
      case False
      then show ?thesis using stored_obj [OF S q(1)] q(2) by (simp add: obj_at_def)
    qed
  qed
  moreover have "fst ` set (adjust p c' (objs a)) = fst ` set (objs a)" by (metis map_fst_adjust set_map)
  moreover have "p \<in> fst ` set (objs a)" using map_of_SomeD [OF p] by force
  ultimately have "stored ((foos s)(p \<mapsto> n')) (fbrk s) (adjust p c' (objs a))"
    using S by (auto simp: stored_def)
  moreover have "linked_foos ((foos s)(p \<mapsto> n')) (fh s) (adjust p c' (objs a))"
    using L fc.chain_field [of "foos s" p n n'] n n'(4) by (simp add: linked_foos_def)
  ultimately show ?thesis using r c' by (simp add: rep_def set_count_def)
qed

lemma rep_unlink:
  assumes r: "rep l s0 a" and p: "map_of (objs a) p = Some (d, c)" and m: "foos s0 p = Some m"
    and s: "s = s0\<lparr>foos := (foos s0)(p \<mapsto> n), fout := w\<rparr>" and n: "f_next n = f_next m" "f_id n = d"
  shows "\<exists>t. unlink_foo p s = Ok () t \<and> foos t p = Some n \<and> hashlock t = l \<and> rep l (t\<lparr>foos := (foos t)(p := None)\<rparr>) (set_count p 0 a)"
proof -
  have "linked_foos (foos s0) (fh s) (objs a)" "stored (foos s0) (fbrk s) (objs a)" using r s by (simp_all add: rep_def)
  from unlink_run [OF this map_of_SomeD [OF p] m _ n] s
  obtain F H where "unlink_foo p s = Ok () (s\<lparr>fh := F, foos := H\<rparr>)" "H p = Some n"
    "linked_foos (H(p := None)) F (without p (objs a))" "stored (H(p := None)) (fbrk s) (without p (objs a))" by auto
  then show ?thesis using r s by (intro exI [of _ "s\<lparr>fh := F, foos := H\<rparr>"]) (simp add: rep_def set_count_def)
qed

lemma rep_link:
  assumes r: "rep l s a" and n: "f_count n = 1" "f_id n = i" "f_lock n = Free" "f_next n = fh s (HASH i)"
    and t: "foos t = (foos s)(fbrk s \<mapsto> n)" "fh t = (fh s)(HASH i := fbrk s)" "fbrk t = Suc (fbrk s)"
    and b: "b = a\<lparr>objs := (fbrk s, i, 1) # objs a, next_addr := Suc (fbrk s), failures := ffail t\<rparr>"
  shows "rep (hashlock t) t b"
proof -
  have S: "stored (foos s) (fbrk s) (objs a)" and L: "linked_foos (foos s) (fh s) (objs a)" using r by (simp_all add: rep_def)
  have lt: "q < fbrk s \<and> 0 < q" if "q \<in> fst ` set (objs a)" for q
    using that stored_obj [OF S] by (auto simp: obj_at_def)
  then have new: "fbrk s \<notin> fst ` set (objs a)" by blast
  have "obj_at (foos t) (fbrk t) x" if "x \<in> set (objs a)" for x
    using stored_obj [OF S that] new that t by (cases x) (force simp: obj_at_def)
  moreover have "obj_at (foos t) (fbrk t) (fbrk s, i, 1)" using S n t by (simp add: obj_at_def stored_def)
  ultimately have "stored (foos t) (fbrk t) (objs b)" using S new t by (auto simp: stored_def b)
  moreover have "fc.chain (foos t) (fh t j) (bucket (objs b) j)" for j
  proof -
    have "fbrk s \<notin> set (bucket (objs a) j)" using new set_bucket by blast
    then have "fc.chain (foos t) (fh s j) (bucket (objs a) j)" using L t(1) by (simp add: linked_foos_def)
    moreover have "0 < fbrk s" using S by (simp add: stored_def)
    ultimately show ?thesis using t n by (cases "HASH i = j") (simp_all add: b)
  qed
  ultimately show ?thesis using t b by (simp add: rep_def linked_foos_def)
qed

subsection \<open>The pieces of \<open>mutex2.c\<close>\<close>

text \<open>\<open>live a p\<close>: the address is one of an object; \<open>room a p\<close>: one more reference does not overflow its count.\<close>

definition live :: "spec \<Rightarrow> nat \<Rightarrow> bool" where
  "live a p \<longleftrightarrow> map_of (objs a) p \<noteq> None"

definition room :: "spec \<Rightarrow> nat \<Rightarrow> bool" where
  "room a p \<longleftrightarrow> int (count_of a p) < INT_MAX"

lemma liveE:
  assumes "rep l s a" and "live a p"
  obtains d n where "map_of (objs a) p = Some (d, count_of a p)" "foos s p = Some n" "f_count n = int (count_of a p)" "f_id n = d"
    "f_lock n = Free" "0 < p" "0 < count_of a p" "p < next_addr a"
proof -
  obtain d c where m: "map_of (objs a) p = Some (d, c)" using assms(2) by (auto simp: live_def)
  then have "count_of a p = c" by (simp add: count_of_def)
  then show ?thesis using rep_live [OF assms(1) m] m that by metis
qed

lemma relock:
  assumes "foos s p = Some n" and "f_lock n = Free"
  shows "s\<lparr>foos := (foos s)(p \<mapsto> n\<lparr>f_lock := Free\<rparr>)\<rparr> = s"
proof -
  have "n\<lparr>f_lock := Free\<rparr> = n" using assms(2) by (cases n) simp
  then have "(foos s)(p \<mapsto> n\<lparr>f_lock := Free\<rparr>) = foos s" using assms(1) by (simp add: fun_upd_idem)
  then show ?thesis by simp
qed

lemma hold_piece:
  assumes r: "rep l s a" and p: "live a p" "room a p"
  shows "\<exists>t. foo_hold_m2 p s = Ok () t \<and> rep l t (spec_hold p a)"
proof -
  obtain d n where n: "map_of (objs a) p = Some (d, count_of a p)" "foos s p = Some n" "f_count n = int (count_of a p)" "f_id n = d"
    "f_lock n = Free" "0 < p" "0 < count_of a p" using r p(1) by (rule liveE)
  have "foo_hold_m2 p s = Ok () (s\<lparr>foos := (foos s)(p \<mapsto> n\<lparr>f_count := int (count_of a p + 1), f_lock := Free\<rparr>)\<rparr>)"
    using n p(2) by (simp add: foo_hold_m2_def bnd_def room_def add.commute)
  moreover have "rep l (s\<lparr>foos := (foos s)(p \<mapsto> n\<lparr>f_count := int (count_of a p + 1), f_lock := Free\<rparr>)\<rparr>) (spec_hold p a)"
    unfolding spec_hold_def by (rule rep_count [OF r n(1,2)]) (use n in simp_all)
  ultimately show ?thesis by blast
qed

lemma check_piece:
  assumes r: "rep l s a" and p: "live a p"
  shows "\<exists>t. rele_check p s = Ok (count_of a p \<noteq> 1) t \<and> rep l t (if count_of a p = 1 then a else spec_rele p a)"
proof -
  obtain d n where n: "map_of (objs a) p = Some (d, count_of a p)" "foos s p = Some n" "f_count n = int (count_of a p)" "f_id n = d"
    "f_lock n = Free" "0 < p" "0 < count_of a p" using r p by (rule liveE)
  show ?thesis
  proof (cases "count_of a p = 1")
    case True
    then have "rele_check p s = Ok False s" using n relock [OF n(2,5)] by (simp add: rele_check_def bnd_def)
    then show ?thesis using r True by auto
  next
    case False
    let ?t = "s\<lparr>foos := (foos s)(p \<mapsto> n\<lparr>f_count := int (count_of a p - 1), f_lock := Free\<rparr>)\<rparr>"
    have "rele_check p s = Ok True ?t" using n False by (simp add: rele_check_def bnd_def of_nat_diff)
    moreover have "rep l ?t (spec_rele p a)"
      unfolding spec_rele_def by (rule rep_count [OF r n(1,2)]) (use n False in simp_all)
    ultimately show ?thesis using False by auto
  qed
qed

lemma recheck_piece:
  assumes r: "rep Held s a" and p: "live a p"
  shows "\<exists>t. rele_recheck p s = Ok () t \<and> rep Free t (spec_rele p a)"
proof -
  obtain d n where n: "map_of (objs a) p = Some (d, count_of a p)" "foos s p = Some n" "f_count n = int (count_of a p)" "f_id n = d"
    "f_lock n = Free" "0 < p" "0 < count_of a p" using r p by (rule liveE)
  have hl: "hashlock s = Held" using r by (simp add: rep_def)
  show ?thesis
  proof (cases "count_of a p = 1")
    case True
    let ?s = "s\<lparr>foos := (foos s)(p \<mapsto> n\<lparr>f_lock := Held\<rparr>)\<rparr>"
    obtain t where t: "unlink_foo p ?s = Ok () t" "foos t p = Some (n\<lparr>f_lock := Held\<rparr>)" "hashlock t = Held"
      and rt: "rep Held (t\<lparr>foos := (foos t)(p := None)\<rparr>) (set_count p 0 a)"
      using rep_unlink [OF r n(1,2), where s = ?s and n = "n\<lparr>f_lock := Held\<rparr>" and w = "fout s"] n(4) by auto
    have "rele_recheck p s = Ok () (t\<lparr>foos := (foos t)(p := None), hashlock := Free\<rparr>)"
      using n True t by (simp add: rele_recheck_def bnd_def)
    then show ?thesis using rep_lock [OF rt, of Free] True by (simp add: spec_rele_def)
  next
    case False
    let ?t = "s\<lparr>foos := (foos s)(p \<mapsto> n\<lparr>f_count := int (count_of a p - 1), f_lock := Free\<rparr>)\<rparr>"
    have "rele_recheck p s = Ok () (?t\<lparr>hashlock := Free\<rparr>)" using n False hl by (simp add: rele_recheck_def bnd_def of_nat_diff)
    moreover have "rep Held ?t (spec_rele p a)"
      unfolding spec_rele_def by (rule rep_count [OF r n(1,2)]) (use n False in simp_all)
    ultimately show ?thesis using rep_lock by blast
  qed
qed

lemma leave_piece:
  assumes r: "rep Held s a" and p: "live a p"
  shows "\<exists>t. alloc_leave p s = Ok () t \<and> rep Free t a"
proof -
  obtain d n where n: "map_of (objs a) p = Some (d, count_of a p)" "foos s p = Some n" "f_count n = int (count_of a p)" "f_id n = d"
    "f_lock n = Free" "0 < p" using r p by (rule liveE)
  have "hashlock s = Held" using r by (simp add: rep_def)
  then have "alloc_leave p s = Ok () (s\<lparr>foos := (foos s)(p \<mapsto> n\<lparr>f_lock := Free\<rparr>), hashlock := Free\<rparr>)"
    using n by (simp add: alloc_leave_def bnd_def)
  then have "alloc_leave p s = Ok () (s\<lparr>hashlock := Free\<rparr>)" using relock [OF n(2,5)] by simp
  then show ?thesis using rep_lock [OF r] by blast
qed

lemma lookup_live:
  assumes "spec_lookup i a \<noteq> 0"
  shows "live a (spec_lookup i a)"
proof -
  obtain p d c where f: "find (\<lambda>(p, d, c). d = i) (objs a) = Some (p, d, c)"
    using assms by (cases "find (\<lambda>(p, d, c). d = i) (objs a)") (auto simp: spec_lookup_def)
  then have "(p, d, c) \<in> set (objs a)" by (auto simp: find_Some_iff in_set_conv_nth)
  then have "p \<in> fst ` set (objs a)" by force
  then show ?thesis using f by (simp add: spec_lookup_def live_def map_of_eq_None_iff)
qed

lemma find_piece:
  assumes r: "rep Free s a"
  shows "\<exists>t. find_enter i s = Ok (spec_lookup i a) t \<and> rep (if spec_lookup i a = 0 then Free else Held) t a"
proof -
  let ?s = "s\<lparr>hashlock := Held\<rparr>"
  have rh: "rep Held ?s a" using rep_lock [OF r] .
  then have "search i ?s = Ok (spec_lookup i a) ?s" using search_run [of ?s "objs a" i] by (simp add: rep_def spec_lookup_def)
  moreover have "hashlock s = Free" using r by (simp add: rep_def)
  ultimately show ?thesis using rep_lock [OF r, of Free] rh by (auto simp: find_enter_def bnd_def)
qed

lemma find_leave_piece:
  assumes "rep Held s a" and "live a p" and "room a p"
  shows "\<exists>t. find_leave p s = Ok () t \<and> rep Free t (spec_hold p a)"
proof -
  obtain t where t: "foo_hold_m2 p s = Ok () t" "rep Held t (spec_hold p a)" using hold_piece [OF assms] by blast
  then have "find_leave p s = Ok () (t\<lparr>hashlock := Free\<rparr>)" by (simp add: find_leave_def bnd_def rep_def)
  then show ?thesis using rep_lock [OF t(2)] by blast
qed

text \<open>Allocation, by what the schedule makes of \<open>malloc\<close> and of the initialisation of the lock.\<close>

lemma rep_free_addr:
  assumes r: "rep l s a"
  shows "0 < fbrk s" "foos s (fbrk s) = None" "fbrk s = next_addr a"
proof -
  have S: "stored (foos s) (fbrk s) (objs a)" using r by (simp add: rep_def)
  then show "0 < fbrk s" by (simp add: stored_def)
  have "fbrk s \<notin> fst ` set (objs a)" using stored_obj [OF S] by (fastforce simp: obj_at_def)
  then show "foos s (fbrk s) = None" using S by (simp add: stored_def)
  show "fbrk s = next_addr a" using r by (simp add: rep_def)
qed

lemma alloc_ok:
  assumes r: "rep Free s a" and f: "ffail s = [] \<or> ffail s = [False] \<or> (\<exists>fs. ffail s = False # False # fs)"
  shows "\<exists>t. alloc_enter i s = Ok (fbrk s) t \<and>
    rep Held t (a\<lparr>objs := (fbrk s, i, 1) # objs a, next_addr := Suc (fbrk s), failures := drop 2 (ffail s)\<rparr>)"
proof -
  define n where "n = (fjunk s)\<lparr>f_count := 1, f_id := i, f_lock := Free, f_next := fh s (HASH i)\<rparr>"
  define t where "t = s\<lparr>fbrk := Suc (fbrk s), foos := (foos s)(fbrk s \<mapsto> n), ffail := drop 2 (ffail s), hashlock := Held,
    fh := (fh s)(HASH i := fbrk s)\<rparr>"
  note k = rep_free_addr [OF r]
  have "hashlock s = Free" using r by (simp add: rep_def)
  then have "alloc_enter i s = Ok (fbrk s) t"
    using f k(1) by (elim disjE exE)
      (simp_all add: alloc_enter_def bnd_def malloc_foo_def attempt_def lock_init_def link_foo_def t_def n_def)
  moreover have "rep (hashlock t) t (a\<lparr>objs := (fbrk s, i, 1) # objs a, next_addr := Suc (fbrk s), failures := ffail t\<rparr>)"
    by (rule rep_link [OF r, where n = n]) (simp_all add: t_def n_def)
  ultimately show ?thesis by (auto simp: t_def)
qed

lemma alloc_refused:
  assumes r: "rep l s a" and f: "fst (spec_alloc i a) = 0"
  shows "\<exists>t. alloc_enter i s = Ok 0 t \<and> rep l t (snd (spec_alloc i a))"
proof -
  note k = rep_free_addr [OF r]
  have fa: "ffail s = failures a" using r by (simp add: rep_def)
  consider fs where "ffail s = True # fs" | fs where "ffail s = False # True # fs"
    using f k fa by (auto simp: spec_alloc_def split: list.splits bool.splits)
  then show ?thesis
  proof cases
    case 1
    then have "alloc_enter i s = Ok 0 (s\<lparr>ffail := fs\<rparr>)" by (simp add: alloc_enter_def bnd_def malloc_foo_def attempt_def)
    moreover have "spec_alloc i a = (0, a\<lparr>failures := fs\<rparr>)" using 1 fa by (simp add: spec_alloc_def)
    ultimately show ?thesis using r by (simp add: rep_def)
  next
    case 2
    have u: "(foos s)(fbrk s := None) = foos s" using k(2) by (simp add: fun_upd_idem)
    have "alloc_enter i s = Ok 0 (s\<lparr>fbrk := Suc (fbrk s), foos := (foos s)(fbrk s := None), ffail := fs\<rparr>)"
      using 2 k(1) by (simp add: alloc_enter_def bnd_def malloc_foo_def attempt_def lock_init_def)
    moreover have "stored (foos s) (Suc (next_addr a)) (objs a)" using r by (fastforce simp: rep_def stored_def obj_at_def)
    moreover have "spec_alloc i a = (0, a\<lparr>next_addr := Suc (next_addr a), failures := fs\<rparr>)" using 2 fa by (simp add: spec_alloc_def)
    ultimately show ?thesis using r u by (simp add: rep_def)
  qed
qed

lemma alloc_granted:
  assumes r: "rep l s a" and f: "fst (spec_alloc i a) \<noteq> 0"
  shows "ffail s = [] \<or> ffail s = [False] \<or> (\<exists>fs. ffail s = False # False # fs)"
    and "spec_alloc i a = (fbrk s, a\<lparr>objs := (fbrk s, i, 1) # objs a, next_addr := Suc (fbrk s), failures := drop 2 (ffail s)\<rparr>)"
  using f r by (auto simp: spec_alloc_def rep_def split: list.splits bool.splits)

lemma alloc_waits:
  assumes r: "rep Held s a" and f: "fst (spec_alloc i a) \<noteq> 0"
  shows "alloc_enter i s = Hang"
proof -
  have "hashlock s = Held" "0 < fbrk s" using r rep_free_addr [OF r] by (simp_all add: rep_def)
  then show ?thesis using alloc_granted(1) [OF r f] by (elim disjE exE)
    (simp_all add: alloc_enter_def bnd_def malloc_foo_def attempt_def lock_init_def hash_lock_def)
qed

lemma alloc_piece:
  assumes r: "rep Free s a"
  shows "\<exists>t. alloc_enter i s = Ok (fst (spec_alloc i a)) t \<and>
    rep (if fst (spec_alloc i a) = 0 then Free else Held) t (snd (spec_alloc i a))"
  using alloc_refused [OF r, of i] alloc_granted [OF r, of i] alloc_ok [OF r, of i] by (cases "fst (spec_alloc i a) = 0") auto

subsection \<open>The contract and its clients\<close>

datatype foo_op = Alloc "32 word" | Find "32 word" | Hold nat nat | Rele nat nat

text \<open>What a client may do: use an object it knows to be there, and not overflow its count.\<close>

definition allowed :: "foo_op \<Rightarrow> spec \<Rightarrow> bool" where
  "allowed x a = (case x of
      Alloc i \<Rightarrow> True
    | Find i \<Rightarrow> spec_lookup i a \<noteq> 0 \<longrightarrow> room a (spec_lookup i a)
    | Hold self p \<Rightarrow> live a p \<and> room a p
    | Rele self p \<Rightarrow> live a p)"

definition spec_step :: "foo_op \<Rightarrow> spec \<Rightarrow> nat \<times> spec" where
  "spec_step x a = (case x of
      Alloc i \<Rightarrow> spec_alloc i a
    | Find i \<Rightarrow> spec_find i a
    | Hold self p \<Rightarrow> (p, spec_hold p a)
    | Rele self p \<Rightarrow> (p, spec_rele p a))"

fun spec_run :: "foo_op list \<Rightarrow> spec \<Rightarrow> (nat list \<times> spec) option" where
  "spec_run [] a = Some ([], a)"
| "spec_run (x # xs) a =
     (if allowed x a
      then map_option (\<lambda>(rs, b). (fst (spec_step x a) # rs, b)) (spec_run xs (snd (spec_step x a)))
      else None)"

fun foo_run :: "(foo_op \<Rightarrow> (table, nat) prog) \<Rightarrow> foo_op list \<Rightarrow> (table, nat list) prog" where
  "foo_run f [] = ret []"
| "foo_run f (x # xs) = bnd (f x) (\<lambda>r. bnd (foo_run f xs) (\<lambda>rs. ret (r # rs)))"

locale refcount =
  fixes do :: "foo_op \<Rightarrow> (table, nat) prog"
  assumes step: "rep Free s a \<Longrightarrow> allowed x a \<Longrightarrow> \<exists>t. do x s = Ok (fst (spec_step x a)) t \<and> rep Free t (snd (spec_step x a))"
begin

lemma run:
  assumes "rep Free s a" and "spec_run xs a = Some (rs, b)"
  shows "\<exists>t. foo_run do xs s = Ok rs t \<and> rep Free t b"
  using assms
proof (induction xs arbitrary: s a rs)
  case Nil
  then show ?case by simp
next
  case (Cons x xs)
  from Cons.prems(2) obtain rs' where x: "allowed x a" "spec_run xs (snd (spec_step x a)) = Some (rs', b)" "rs = fst (spec_step x a) # rs'"
    by (auto split: if_splits)
  from step [OF Cons.prems(1) x(1)] obtain t where t: "do x s = Ok (fst (spec_step x a)) t" "rep Free t (snd (spec_step x a))" by blast
  from Cons.IH [OF t(2) x(2)] obtain u where "foo_run do xs t = Ok rs' u" "rep Free u b" by blast
  then show ?case using t(1) x(3) by (simp add: bnd_def)
qed

end

definition do_m2 :: "foo_op \<Rightarrow> (table, nat) prog" where
  "do_m2 x = (case x of
      Alloc i \<Rightarrow> foo_alloc_m2 i
    | Find i \<Rightarrow> foo_find_m2 i
    | Hold self p \<Rightarrow> bnd (foo_hold_m2 p) (\<lambda>_. ret p)
    | Rele self p \<Rightarrow> bnd (foo_rele_m2 p) (\<lambda>_. ret p))"

definition do_m3 :: "foo_op \<Rightarrow> (table, nat) prog" where
  "do_m3 x = (case x of
      Alloc i \<Rightarrow> foo_alloc_m3 i
    | Find i \<Rightarrow> foo_find_m3 i
    | Hold self p \<Rightarrow> bnd (foo_hold_m3 self p) (\<lambda>_. ret p)
    | Rele self p \<Rightarrow> bnd (foo_rele_m3 self p) (\<lambda>_. ret p))"

definition do_sp :: "foo_op \<Rightarrow> (table, nat) prog" where
  "do_sp x = (case x of
      Alloc i \<Rightarrow> foo_alloc_sp i
    | Find i \<Rightarrow> foo_find_sp i
    | Hold self p \<Rightarrow> bnd (foo_hold_sp self p) (\<lambda>_. ret p)
    | Rele self p \<Rightarrow> bnd (foo_rele_sp self p) (\<lambda>_. ret p))"

subsubsection \<open>The operations of the three programs\<close>

lemma bnd_if: "bnd (if b then m else n) f = (if b then bnd m f else bnd n f)"
  by simp

lemma alloc_m2_run:
  assumes "rep Free s a"
  shows "\<exists>t. foo_alloc_m2 i s = Ok (fst (spec_alloc i a)) t \<and> rep Free t (snd (spec_alloc i a))"
proof -
  obtain t where t: "alloc_enter i s = Ok (fst (spec_alloc i a)) t"
    "rep (if fst (spec_alloc i a) = 0 then Free else Held) t (snd (spec_alloc i a))" using alloc_piece [OF assms] by blast
  show ?thesis
  proof (cases "fst (spec_alloc i a) = 0")
    case True
    then show ?thesis using t by (auto simp: foo_alloc_m2_def bnd_def)
  next
    case False
    then have "live (snd (spec_alloc i a)) (fst (spec_alloc i a))" by (auto simp: spec_alloc_def live_def split: list.splits bool.splits)
    then obtain u where "alloc_leave (fst (spec_alloc i a)) t = Ok () u" "rep Free u (snd (spec_alloc i a))"
      using leave_piece [of t "snd (spec_alloc i a)" "fst (spec_alloc i a)"] t(2) False by auto
    then show ?thesis using t(1) False by (auto simp: foo_alloc_m2_def bnd_def)
  qed
qed

lemma bnd_eq: "(\<And>x t. f x t = g x t) \<Longrightarrow> bnd m f = bnd m g"
  by (simp add: bnd_def fun_eq_iff split: outcome.split)

lemma alloc_m3_eq: "foo_alloc_m3 i = foo_alloc_m2 i"
  unfolding foo_alloc_m3_def foo_alloc_m2_def alloc_enter_def alloc_leave_def bnd_assoc bnd_if bnd_ret
  by (rule bnd_eq) (auto simp: bnd_assoc bnd_if cong: if_cong)

lemma alloc_sp_eq: "foo_alloc_sp i = foo_alloc_m3 i"
  by (simp add: foo_alloc_sp_def foo_alloc_m3_def)

lemma find_m2_run:
  assumes "rep Free s a" and "spec_lookup i a \<noteq> 0 \<longrightarrow> room a (spec_lookup i a)"
  shows "\<exists>t. foo_find_m2 i s = Ok (fst (spec_find i a)) t \<and> rep Free t (snd (spec_find i a))"
proof -
  obtain t where t: "find_enter i s = Ok (spec_lookup i a) t" "rep (if spec_lookup i a = 0 then Free else Held) t a"
    using find_piece [OF assms(1)] by blast
  show ?thesis
  proof (cases "spec_lookup i a = 0")
    case True
    then show ?thesis using t by (auto simp: foo_find_m2_def bnd_def spec_find_def)
  next
    case False
    then obtain u where "find_leave (spec_lookup i a) t = Ok () u" "rep Free u (spec_hold (spec_lookup i a) a)"
      using find_leave_piece [of t a "spec_lookup i a"] t(2) lookup_live assms(2) by auto
    then show ?thesis using t(1) False by (auto simp: foo_find_m2_def bnd_def spec_find_def Let_def)
  qed
qed

lemma rele_m2_run:
  assumes r: "rep Free s a" and p: "live a p"
  shows "\<exists>t. foo_rele_m2 p s = Ok () t \<and> rep Free t (spec_rele p a)"
proof -
  obtain t where t: "rele_check p s = Ok (count_of a p \<noteq> 1) t" "rep Free t (if count_of a p = 1 then a else spec_rele p a)"
    using check_piece [OF assms] by blast
  show ?thesis
  proof (cases "count_of a p = 1")
    case True
    then obtain u where "rele_recheck p (t\<lparr>hashlock := Held\<rparr>) = Ok () u" "rep Free u (spec_rele p a)"
      using recheck_piece [OF _ p, of "t\<lparr>hashlock := Held\<rparr>"] rep_lock [of Free t a Held] t(2) by auto
    moreover have "hashlock t = Free" using t(2) by (simp add: rep_def)
    ultimately show ?thesis using t(1) True by (auto simp: foo_rele_m2_def bnd_def)
  next
    case False
    then show ?thesis using t by (auto simp: foo_rele_m2_def bnd_def)
  qed
qed

lemma hold_m3_run:
  assumes r: "rep Free s a" and p: "live a p" "room a p"
  shows "\<exists>t. foo_hold_m3 self p s = Ok () t \<and> rep Free t (spec_hold p a)"
proof -
  obtain d n where n: "map_of (objs a) p = Some (d, count_of a p)" "foos s p = Some n" "f_count n = int (count_of a p)" "f_id n = d"
    "f_lock n = Free" "0 < p" "0 < count_of a p" using r p(1) by (rule liveE)
  let ?t = "s\<lparr>foos := (foos s)(p \<mapsto> n\<lparr>f_count := int (count_of a p + 1)\<rparr>)\<rparr>"
  have "hashlock s = Free" using r by (simp add: rep_def)
  then have "foo_hold_m3 self p s = Ok () (?t\<lparr>fout := fout s @ [Hold_said self d], hashlock := Free\<rparr>)"
    using n p(2) by (simp add: foo_hold_m3_def bnd_def say_def room_def add.commute)
  moreover have "rep Free ?t (spec_hold p a)"
    unfolding spec_hold_def by (rule rep_count [OF r n(1,2)]) (use n in simp_all)
  ultimately show ?thesis using rep_lock [of Free "?t\<lparr>fout := fout s @ [Hold_said self d]\<rparr>" _ Free] by (auto simp: rep_say)
qed

lemma find_m3_run:
  assumes r: "rep Free s a" and i: "spec_lookup i a \<noteq> 0 \<longrightarrow> room a (spec_lookup i a)"
  shows "\<exists>t. foo_find_m3 i s = Ok (fst (spec_find i a)) t \<and> rep Free t (snd (spec_find i a))"
proof -
  let ?s = "s\<lparr>hashlock := Held\<rparr>" and ?p = "spec_lookup i a"
  have rh: "rep Held ?s a" using rep_lock [OF r] .
  then have sr: "search i ?s = Ok ?p ?s" using search_run [of ?s "objs a" i] by (simp add: rep_def spec_lookup_def)
  have hl: "hashlock s = Free" using r by (simp add: rep_def)
  show ?thesis
  proof (cases "?p = 0")
    case True
    then show ?thesis using sr hl rep_lock [OF r, of Free] by (auto simp: foo_find_m3_def bnd_def spec_find_def)
  next
    case False
    obtain d n where n: "map_of (objs a) ?p = Some (d, count_of a ?p)" "foos s ?p = Some n" "f_count n = int (count_of a ?p)" "f_id n = d"
      "f_lock n = Free" "0 < ?p" "0 < count_of a ?p" using r lookup_live [OF False] by (rule liveE)
    let ?t = "s\<lparr>foos := (foos s)(?p \<mapsto> n\<lparr>f_count := int (count_of a ?p + 1)\<rparr>)\<rparr>"
    have "foo_find_m3 i s = Ok ?p (?t\<lparr>hashlock := Free\<rparr>)"
      using sr hl n False i by (simp add: foo_find_m3_def bnd_def room_def add.commute)
    moreover have "rep Free ?t (spec_hold ?p a)"
      unfolding spec_hold_def by (rule rep_count [OF r n(1,2)]) (use n in simp_all)
    ultimately show ?thesis using rep_lock [of Free ?t _ Free] False by (auto simp: spec_find_def Let_def)
  qed
qed

lemma rele_m3_run:
  assumes r: "rep Free s a" and p: "live a p"
  shows "\<exists>t. foo_rele_m3 self p s = Ok () t \<and> rep Free t (spec_rele p a)"
proof -
  obtain d n where n: "map_of (objs a) p = Some (d, count_of a p)" "foos s p = Some n" "f_count n = int (count_of a p)" "f_id n = d"
    "f_lock n = Free" "0 < p" "0 < count_of a p" using r p by (rule liveE)
  let ?n = "n\<lparr>f_count := int (count_of a p - 1)\<rparr>" and ?w = "fout s @ [Release_said self d]"
  let ?t = "s\<lparr>foos := (foos s)(p \<mapsto> ?n), fout := ?w\<rparr>" and ?s = "s\<lparr>hashlock := Held\<rparr>"
  have hl: "hashlock s = Free" using r by (simp add: rep_def)
  show ?thesis
  proof (cases "count_of a p = 1")
    case True
    let ?u = "s\<lparr>hashlock := Held, fout := ?w, foos := (foos s)(p \<mapsto> ?n)\<rparr>"
    obtain t where t: "unlink_foo p ?u = Ok () t" "foos t p = Some ?n" "hashlock t = Held"
      and rt: "rep Held (t\<lparr>foos := (foos t)(p := None)\<rparr>) (set_count p 0 a)"
      using rep_unlink [OF rep_lock [OF r, of Held] n(1), where s = ?u and n = ?n and w = ?w] n(2,4) by auto
    have "foo_rele_m3 self p s = Ok () (t\<lparr>foos := (foos t)(p := None), hashlock := Free\<rparr>)"
      using n True t hl by (simp add: foo_rele_m3_def bnd_def say_def)
    then show ?thesis using rep_lock [OF rt, of Free] True by (simp add: spec_rele_def)
  next
    case False
    have "foo_rele_m3 self p s = Ok () (?t\<lparr>hashlock := Free\<rparr>)"
      using n False hl by (simp add: foo_rele_m3_def bnd_def say_def of_nat_diff)
    moreover have "rep Free (s\<lparr>foos := (foos s)(p \<mapsto> ?n)\<rparr>) (spec_rele p a)"
      unfolding spec_rele_def by (rule rep_count [OF r n(1,2)]) (use n False in simp_all)
    ultimately show ?thesis using rep_lock [of Free ?t _ Free] by (auto simp: rep_say)
  qed
qed

lemma rele_sp_run:
  assumes "rep Free s a" and "live a p"
  shows "\<exists>t. foo_rele_sp self p s = Ok () t \<and> rep Free t (spec_rele p a)"
proof -
  obtain t where t: "foo_rele_m3 self p s = Ok () t" "rep Free t (spec_rele p a)" using rele_m3_run [OF assms] by blast
  have "foo_rele_sp self p s = Ok () t \<or> foo_rele_sp self p s = Ok () (t\<lparr>fout := fout t @ [Free_said]\<rparr>)"
    using t(1) by (auto simp: foo_rele_sp_def foo_rele_m3_def bnd_def say_def split: outcome.splits if_splits)
  then show ?thesis using t(2) by (auto simp: rep_say)
qed

lemma and_return: "\<exists>t. m s = Ok () t \<and> R t \<Longrightarrow> \<exists>t. bnd m (\<lambda>_. ret p) s = Ok p t \<and> R t"
  by (auto simp: bnd_def)

interpretation m2: refcount do_m2
proof
  fix s a x
  assume "rep Free s a" and "allowed x a"
  then show "\<exists>t. do_m2 x s = Ok (fst (spec_step x a)) t \<and> rep Free t (snd (spec_step x a))"
    by (cases x) (simp_all add: do_m2_def spec_step_def allowed_def alloc_m2_run find_m2_run and_return hold_piece rele_m2_run)
qed

interpretation m3: refcount do_m3
proof
  fix s a x
  assume "rep Free s a" and "allowed x a"
  then show "\<exists>t. do_m3 x s = Ok (fst (spec_step x a)) t \<and> rep Free t (snd (spec_step x a))"
    by (cases x) (simp_all add: do_m3_def spec_step_def allowed_def alloc_m3_eq alloc_m2_run find_m3_run and_return hold_m3_run rele_m3_run)
qed

lemma hold_sp_eq: "foo_hold_sp self p = foo_hold_m3 self p" and find_sp_eq: "foo_find_sp i = foo_find_m3 i"
  by (simp_all add: foo_hold_sp_def foo_hold_m3_def foo_find_sp_def foo_find_m3_def)

interpretation sp: refcount do_sp
proof
  fix s a x
  assume "rep Free s a" and "allowed x a"
  then show "\<exists>t. do_sp x s = Ok (fst (spec_step x a)) t \<and> rep Free t (snd (spec_step x a))"
    by (cases x) (simp_all add: do_sp_def spec_step_def allowed_def alloc_sp_eq alloc_m3_eq hold_sp_eq find_sp_eq
        alloc_m2_run find_m3_run and_return hold_m3_run rele_sp_run)
qed

subsection \<open>Counts are references\<close>

text \<open>The references taken on \<open>p\<close> less those given up, by the calls and their results.\<close>

definition ref_change :: "nat \<Rightarrow> foo_op \<Rightarrow> nat \<Rightarrow> int" where
  "ref_change p x r = (if r \<noteq> p then 0 else case x of Rele self q \<Rightarrow> -1 | _ \<Rightarrow> 1)"

fun refs :: "nat \<Rightarrow> foo_op list \<Rightarrow> nat list \<Rightarrow> int" where
  "refs p (x # xs) (r # rs) = ref_change p x r + refs p xs rs"
| "refs p xs rs = 0"

lemma map_of_adjust: "map_of (adjust p c os) q = (if q = p then map_option (\<lambda>(d, k). (d, c)) (map_of os p) else map_of os q)"
  by (induction os) (auto simp: adjust_def)

lemma map_of_without: "map_of (without p os) q = (if q = p then None else map_of os q)"
  by (induction os) (auto simp: without_def)

lemma count_of_set: "live a p \<Longrightarrow> count_of (set_count p c a) q = (if q = p then c else count_of a q)"
  by (auto simp: count_of_def set_count_def live_def map_of_adjust map_of_without)

lemma count_pos: "rep l s a \<Longrightarrow> live a p \<Longrightarrow> 0 < count_of a p"
  by (erule (1) liveE)

lemma count_of_step:
  assumes r: "rep l s a" and x: "allowed x a" and p: "p \<noteq> 0"
  shows "int (count_of (snd (spec_step x a)) p) = int (count_of a p) + ref_change p x (fst (spec_step x a))"
proof (cases x)
  case (Alloc i)
  have "map_of (objs a) (next_addr a) = None"
    using stored_live [of "foos s" "fbrk s" "objs a" "next_addr a"] rep_free_addr [OF r] r by (simp add: rep_def)
  then show ?thesis using p Alloc
    by (auto simp: spec_step_def spec_alloc_def ref_change_def count_of_def split: list.splits bool.splits)
next
  case (Find i)
  then show ?thesis using x p lookup_live [of i a]
    by (auto simp: spec_step_def spec_find_def Let_def ref_change_def allowed_def spec_hold_def count_of_set)
next
  case (Hold self q)
  then show ?thesis using x by (auto simp: spec_step_def ref_change_def allowed_def spec_hold_def count_of_set)
next
  case (Rele self q)
  then have "live a q" "0 < count_of a q" using x count_pos [OF r] by (auto simp: allowed_def)
  then show ?thesis using Rele by (auto simp: spec_step_def ref_change_def spec_rele_def count_of_set)
qed

lemma count_of_run:
  assumes "rep Free s a" and "spec_run xs a = Some (rs, b)" and p: "p \<noteq> 0"
  shows "int (count_of b p) = int (count_of a p) + refs p xs rs"
  using assms(1,2)
proof (induction xs arbitrary: s a rs)
  case (Cons x xs)
  from Cons.prems(2) obtain rs' where x: "allowed x a" "spec_run xs (snd (spec_step x a)) = Some (rs', b)" "rs = fst (spec_step x a) # rs'"
    by (auto split: if_splits)
  from m2.step [OF Cons.prems(1) x(1)] obtain t where "rep Free t (snd (spec_step x a))" by blast
  from Cons.IH [OF this x(2)] count_of_step [OF Cons.prems(1) x(1) p] show ?case using x(3) by simp
qed simp

lemma rep_counts:
  assumes "rep l s a"
  shows "foos s p = None \<longleftrightarrow> count_of a p = 0" and "foos s p = Some n \<Longrightarrow> f_count n = int (count_of a p)"
proof -
  have S: "stored (foos s) (next_addr a) (objs a)" using assms by (simp add: rep_def)
  have "live a p \<longleftrightarrow> foos s p \<noteq> None" using stored_live [OF S] by (simp add: live_def)
  moreover have "live a p \<longleftrightarrow> count_of a p \<noteq> 0" using count_pos [OF assms, of p] by (cases "map_of (objs a) p") (auto simp: live_def count_of_def)
  ultimately show "foos s p = None \<longleftrightarrow> count_of a p = 0" by blast
  show "f_count n = int (count_of a p)" if "foos s p = Some n"
    using liveE [OF assms, of p] that \<open>live a p \<longleftrightarrow> foos s p \<noteq> None\<close> by auto
qed

subsection \<open>Properties\<close>

definition fresh_table :: "table \<Rightarrow> bool" where
  "fresh_table s \<longleftrightarrow> hashlock s = Free \<and> fh s = (\<lambda>_. 0) \<and> foos s = (\<lambda>_. None) \<and> 0 < fbrk s"

definition no_objects :: "table \<Rightarrow> spec" where
  "no_objects s = \<lparr>objs = [], next_addr = fbrk s, failures = ffail s\<rparr>"

lemma fresh_rep: "fresh_table s \<Longrightarrow> rep Free s (no_objects s)"
  by (simp add: fresh_table_def rep_def no_objects_def linked_foos_def stored_def)

text \<open>
  C32: the three programs implement the same abstract table. Whatever sequence of allowed calls is made, on whatever table and with
  whatever failures of \<open>malloc\<close> and of the initialisation of locks, the routines of \<open>mutex2.c\<close>, of \<open>mutex3.c\<close>
  and of \<open>spinlock.c\<close> all return, with the same results, which are those of the list of objects with counts, and their hash tables
  and memory represent this list again: no object leaks, none is used after it was freed, every lock is free.
\<close>

theorem foo_table_refines:
  assumes "rep Free s a" and "spec_run xs a = Some (rs, b)"
  shows "(\<exists>t. foo_run do_m2 xs s = Ok rs t \<and> rep Free t b) \<and>
         (\<exists>t. foo_run do_m3 xs s = Ok rs t \<and> rep Free t b) \<and>
         (\<exists>t. foo_run do_sp xs s = Ok rs t \<and> rep Free t b)"
  using m2.run [OF assms] m3.run [OF assms] sp.run [OF assms] by blast

text \<open>
  C33: an object lives exactly as long as it has references. After any allowed sequence of calls on an empty table, an
  address holds an object if and only if more references were taken on it (by \<open>foo_alloc\<close>, \<open>foo_find\<close> and \<open>foo_hold\<close>) than
  were given up by \<open>foo_rele\<close>, and the count in the object is the difference.
\<close>

theorem foo_lives_while_referenced:
  assumes "fresh_table s" and "spec_run xs (no_objects s) = Some (rs, b)" and "p \<noteq> 0" and "d = do_m2 \<or> d = do_m3 \<or> d = do_sp"
  shows "\<exists>t. foo_run d xs s = Ok rs t \<and> 0 \<le> refs p xs rs \<and>
    (case foos t p of None \<Rightarrow> refs p xs rs = 0 | Some n \<Rightarrow> 0 < refs p xs rs \<and> f_count n = refs p xs rs)"
proof -
  note r = fresh_rep [OF assms(1)]
  have c: "int (count_of b p) = refs p xs rs" using count_of_run [OF r assms(2,3)] by (simp add: no_objects_def count_of_def)
  obtain t where "foo_run d xs s = Ok rs t" "rep Free t b"
    using m2.run [OF r assms(2)] m3.run [OF r assms(2)] sp.run [OF r assms(2)] assms(4) by blast
  then show ?thesis using rep_counts [of Free t b p] c by (cases "foos t p") auto
qed

text \<open>The witnesses: two objects in one bucket, a failed allocation, a find, releases in the other order.\<close>

definition sample_table :: table where
  "sample_table = \<lparr>fh = \<lambda>_. 0, hashlock = Free, foos = \<lambda>_. None, fbrk = 1,
     fjunk = \<lparr>f_count = 7, f_lock = Raw, f_id = 0, f_next = 9\<rparr>, ffail = [False, False, False, True], fout = []\<rparr>"

definition sample_ops :: "foo_op list" where
  "sample_ops = [Alloc 5, Alloc 6, Alloc 34, Find 5, Hold 2 1, Rele 1 1, Rele 1 3, Rele 2 1]"

lemma sample_run:
  "\<exists>b. spec_run sample_ops (no_objects sample_table) = Some ([1, 0, 3, 1, 1, 1, 3, 1], b)"
  by (simp add: sample_ops_def sample_table_def no_objects_def allowed_def spec_step_def spec_alloc_def spec_find_def
      spec_lookup_def spec_hold_def spec_rele_def set_count_def count_of_def live_def room_def adjust_def without_def INT_MAX_def Let_def)

lemma sample_fresh: "fresh_table sample_table"
  by (simp add: fresh_table_def sample_table_def)

theorem foo_table_refines_witness:
  "\<exists>t b. foo_run do_m2 sample_ops sample_table = Ok [1, 0, 3, 1, 1, 1, 3, 1] t \<and> rep Free t b"
  using sample_run foo_table_refines [OF fresh_rep [OF sample_fresh]] by blast

theorem foo_lives_while_referenced_witness:
  "\<exists>t. foo_run do_m3 sample_ops sample_table = Ok [1, 0, 3, 1, 1, 1, 3, 1] t \<and>
    (case foos t 1 of None \<Rightarrow> False | Some n \<Rightarrow> f_count n = 1)"
proof -
  obtain b where b: "spec_run sample_ops (no_objects sample_table) = Some ([1, 0, 3, 1, 1, 1, 3, 1], b)" using sample_run by blast
  have "refs 1 sample_ops [1, 0, 3, 1, 1, 1, 3, 1] = 1" by (simp add: sample_ops_def ref_change_def)
  then show ?thesis
    using foo_lives_while_referenced [OF sample_fresh b, of 1 do_m3] by (auto split: option.splits)
qed

subsection \<open>The programs\<close>







lemma interleave_Nil [simp]: "interleave bs [] ns = ns" "interleave bs ms [] = ms"
proof -
  show "interleave bs [] ns = ns" by (induction bs "[] :: (table, unit) prog list" ns rule: interleave.induct) simp_all
  show "interleave bs ms [] = ms" by (induction bs ms "[] :: (table, unit) prog list" rule: interleave.induct) simp_all
qed







end
