(* ===== verification/Foo_Threads.thy ===== *)
theory Foo_Threads
  imports Foo_Refine
begin

section \<open>Threads that share the objects of \<open>threads/mutex2.c\<close>\<close>

text \<open>
  In \<open>mutex2.c\<close> a count is protected by the lock of its object, the table by another lock, and \<open>foo_rele\<close> lets go of the
  first before it waits for the second: another thread may find the object in between. Here any number of threads run the routines at the
  same time. A thread is between calls (\<open>Idle\<close>) or inside a routine, about to take its next lock; one step of the system is one
  piece of one thread (theory \<open>Foo_Table\<close>), from taking a lock to the point where the thread would wait for the next. Such a piece
  touches only what its locks protect. A piece that hits a held lock does not return, so the thread waits.

  \<open>own\<close> counts the references each thread has been given and has not begun to give up: what a client may use. A thread may take a
  reference to any object some thread owns a reference to, as in the source, where the pointer is handed to new threads.
\<close>

datatype pc = Idle | In_alloc nat | In_find nat | In_rele nat | In_last nat

record sys =
  tbl :: table
  pcs :: "nat \<Rightarrow> pc"
  own :: "nat \<Rightarrow> nat \<Rightarrow> nat"

fun piece :: "pc \<Rightarrow> foo_op \<Rightarrow> (table, nat) prog" where
  "piece Idle (Alloc i) = alloc_enter i"
| "piece Idle (Find i) = find_enter i"
| "piece Idle (Hold self p) = bnd (foo_hold_m2 p) (\<lambda>_. ret p)"
| "piece Idle (Rele self p) = bnd (rele_check p) (\<lambda>done. ret (if done then 0 else p))"
| "piece (In_alloc p) x = bnd (alloc_leave p) (\<lambda>_. ret p)"
| "piece (In_find p) x = bnd (find_leave p) (\<lambda>_. ret p)"
| "piece (In_rele p) x = bnd hash_lock (\<lambda>_. ret p)"
| "piece (In_last p) x = bnd (rele_recheck p) (\<lambda>_. ret p)"

fun after :: "pc \<Rightarrow> foo_op \<Rightarrow> nat \<Rightarrow> pc" where
  "after Idle (Alloc i) r = (if r = 0 then Idle else In_alloc r)"
| "after Idle (Find i) r = (if r = 0 then Idle else In_find r)"
| "after Idle (Hold self p) r = Idle"
| "after Idle (Rele self p) r = (if r = 0 then Idle else In_rele r)"
| "after (In_rele p) x r = In_last p"
| "after k x r = Idle"

fun gains :: "pc \<Rightarrow> foo_op \<Rightarrow> nat \<Rightarrow> nat" where
  "gains Idle (Hold self p) q = (if q = p then 1 else 0)"
| "gains (In_alloc p) x q = (if q = p then 1 else 0)"
| "gains (In_find p) x q = (if q = p then 1 else 0)"
| "gains k x q = 0"

fun loses :: "pc \<Rightarrow> foo_op \<Rightarrow> nat \<Rightarrow> nat" where
  "loses Idle (Rele self p) q = (if q = p then 1 else 0)"
| "loses k x q = 0"

text \<open>What a client may ask for, in a system of \<open>n\<close> threads.\<close>

fun asks :: "nat \<Rightarrow> sys \<Rightarrow> nat \<Rightarrow> foo_op \<Rightarrow> bool" where
  "asks n c t (Hold self p) \<longleftrightarrow> pcs c t = Idle \<longrightarrow> (\<exists>u<n. 0 < own c u p)"
| "asks n c t (Rele self p) \<longleftrightarrow> pcs c t = Idle \<longrightarrow> 0 < own c t p"
| "asks n c t x \<longleftrightarrow> True"

inductive mstep :: "nat \<Rightarrow> sys \<Rightarrow> sys \<Rightarrow> bool" for n :: nat where
  step: "t < n \<Longrightarrow> asks n c t x \<Longrightarrow> piece (pcs c t) x (tbl c) = Ok r s \<Longrightarrow>
    mstep n c (c\<lparr>tbl := s, pcs := (pcs c)(t := after (pcs c t) x r),
      own := (own c)(t := (\<lambda>q. own c t q + gains (pcs c t) x q - loses (pcs c t) x q))\<rparr>)"

inductive reachable :: "nat \<Rightarrow> sys \<Rightarrow> bool" for n :: nat where
  init: "fresh_table s \<Longrightarrow> reachable n \<lparr>tbl = s, pcs = \<lambda>_. Idle, own = \<lambda>_ _. 0\<rparr>"
| next_step: "reachable n c \<Longrightarrow> mstep n c c' \<Longrightarrow> reachable n c'"

subsection \<open>The invariant\<close>

text \<open>References a thread has inside a routine, and whether it is there with the lock of the table.\<close>

fun pend :: "pc \<Rightarrow> nat \<Rightarrow> nat" where
  "pend (In_alloc p) q = (if q = p then 1 else 0)"
| "pend (In_rele p) q = (if q = p then 1 else 0)"
| "pend (In_last p) q = (if q = p then 1 else 0)"
| "pend k q = 0"

fun inside :: "pc \<Rightarrow> bool" where
  "inside (In_alloc p) = True"
| "inside (In_find p) = True"
| "inside (In_last p) = True"
| "inside k = False"

definition total :: "nat \<Rightarrow> sys \<Rightarrow> nat \<Rightarrow> nat" where
  "total n c q = (\<Sum>t<n. own c t q + pend (pcs c t) q)"

definition sane :: "spec \<Rightarrow> pc \<Rightarrow> bool" where
  "sane a k = (case k of In_find p \<Rightarrow> live a p | _ \<Rightarrow> True)"

definition agrees :: "nat \<Rightarrow> sys \<Rightarrow> lockst \<Rightarrow> spec \<Rightarrow> bool" where
  "agrees n c l a \<longleftrightarrow> rep l (tbl c) a \<and> l \<noteq> Raw \<and>
     (\<forall>q. total n c q = count_of a q) \<and>
     (\<forall>t<n. sane a (pcs c t)) \<and>
     (\<Sum>t<n. if inside (pcs c t) then 1 else 0 :: nat) = (if l = Held then 1 else 0)"

text \<open>What every step keeps, by how the piece changes the abstract table and the thread's share of it.\<close>

lemma agrees_step:
  assumes A: "agrees n c l a" and t: "t < n"
    and r: "rep l' s b" "l' \<noteq> Raw"
    and cnt: "\<And>q. count_of b q + own c t q + pend (pcs c t) q = count_of a q + o' q + pend k q"
    and lk: "(if l' = Held then 1 else 0) + (if inside (pcs c t) then 1 else 0) = (if l = Held then 1 else 0) + (if inside k then 1 else (0::nat))"
    and k: "sane b k" and others: "\<And>u. u < n \<Longrightarrow> u \<noteq> t \<Longrightarrow> sane a (pcs c u) \<Longrightarrow> sane b (pcs c u)"
  shows "agrees n (c\<lparr>tbl := s, pcs := (pcs c)(t := k), own := (own c)(t := o')\<rparr>) l' b" (is "agrees n ?c l' b")
proof -
  have "total n ?c q = count_of b q" for q
  proof -
    have "total n ?c q + (own c t q + pend (pcs c t) q) = total n c q + (o' q + pend k q)"
      unfolding total_def using sum_change [OF t, of "\<lambda>u. own ?c u q + pend (pcs ?c u) q" "\<lambda>u. own c u q + pend (pcs c u) q"] by simp
    then show ?thesis using A cnt [of q] by (simp add: agrees_def)
  qed
  moreover have "(\<Sum>u<n. if inside (pcs ?c u) then 1 else 0 :: nat) = (if l' = Held then 1 else 0)"
    using sum_change [OF t, of "\<lambda>u. if inside (pcs ?c u) then 1 else 0 :: nat" "\<lambda>u. if inside (pcs c u) then 1 else 0"] A lk
    by (simp add: agrees_def)
  moreover have "sane b (pcs ?c u)" if "u < n" for u using A k others that by (simp add: agrees_def)
  ultimately show ?thesis using r by (simp add: agrees_def)
qed

subsection \<open>Counts and liveness under the abstract operations\<close>

lemma live_set: "live (set_count p k a) q \<longleftrightarrow> live a q \<and> (k \<noteq> 0 \<or> q \<noteq> p)"
  by (auto simp: live_def set_count_def map_of_adjust map_of_without)

lemma live_alloc: "live a q \<Longrightarrow> live (snd (spec_alloc i a)) q"
  by (auto simp: live_def spec_alloc_def split: list.splits bool.splits)

lemma live_count: "rep l s a \<Longrightarrow> live a p \<longleftrightarrow> 0 < count_of a p"
  using count_pos [of l s a p] by (auto simp: live_def count_of_def split: option.splits)

lemma count_zero: "rep l s a \<Longrightarrow> count_of a 0 = 0"
  by (metis liveE live_count less_irrefl not_gr0)

lemma count_alloc:
  assumes "rep l s a"
  shows "count_of (snd (spec_alloc i a)) q = count_of a q + (if fst (spec_alloc i a) = q \<and> q \<noteq> 0 then 1 else 0)"
proof (cases "q = 0")
  case True
  obtain b where "next_addr a \<noteq> 0" using rep_free_addr [OF assms] by simp
  then show ?thesis using True count_zero [OF assms]
    by (auto simp: spec_alloc_def count_of_def split: list.splits bool.splits)
next
  case False
  then show ?thesis using count_of_step [OF assms, of "Alloc i" q] by (auto simp: allowed_def spec_step_def ref_change_def split: if_splits)
qed

lemma count_hold: "live a p \<Longrightarrow> count_of (spec_hold p a) q = count_of a q + (if q = p then 1 else 0)"
  by (simp add: spec_hold_def count_of_set)

lemma count_rele: "rep l s a \<Longrightarrow> live a p \<Longrightarrow> count_of (spec_rele p a) q + (if q = p then 1 else 0) = count_of a q"
  using count_pos [of l s a p] by (simp add: spec_rele_def count_of_set)

lemma sane_simps [simp]:
  "sane a Idle" "sane a (In_alloc p)" "sane a (In_rele p)" "sane a (In_last p)" "sane a (In_find p) \<longleftrightarrow> live a p"
  by (simp_all add: sane_def)

lemma sane_mono: "sane a k \<Longrightarrow> (\<And>q. live a q \<Longrightarrow> live b q) \<Longrightarrow> sane b k"
  by (auto simp: sane_def split: pc.splits)

lemma hold_full:
  assumes "rep l s a" and "live a p" and "\<not> room a p"
  shows "\<exists>u. foo_hold_m2 p s = Abort (Undefined ''count overflow'') u"
proof -
  obtain n where n: "foos s p = Some n" "f_count n = int (count_of a p)" "f_lock n = Free" "0 < p" using assms(1,2) by (rule liveE)
  then show ?thesis using assms(3) by (simp add: foo_hold_m2_def bnd_def count_inc_def room_def)
qed

subsection \<open>One step\<close>

text \<open>What one piece of thread \<open>t\<close> does: it waits for the lock of the table, it overflows a count, or it leads to a state that agrees again.\<close>

definition moved :: "sys \<Rightarrow> nat \<Rightarrow> foo_op \<Rightarrow> nat \<Rightarrow> table \<Rightarrow> sys" where
  "moved c t x r s = c\<lparr>tbl := s, pcs := (pcs c)(t := after (pcs c t) x r),
      own := (own c)(t := (\<lambda>q. own c t q + gains (pcs c t) x q - loses (pcs c t) x q))\<rparr>"

definition runs_well :: "nat \<Rightarrow> sys \<Rightarrow> nat \<Rightarrow> foo_op \<Rightarrow> bool" where
  "runs_well n c t x \<longleftrightarrow> (\<exists>r s l b. piece (pcs c t) x (tbl c) = Ok r s \<and> agrees n (moved c t x r s) l b)"

definition waits :: "sys \<Rightarrow> nat \<Rightarrow> foo_op \<Rightarrow> lockst \<Rightarrow> bool" where
  "waits c t x l \<longleftrightarrow> piece (pcs c t) x (tbl c) = Hang \<and> l = Held \<and> \<not> inside (pcs c t)"

definition overflows :: "sys \<Rightarrow> nat \<Rightarrow> foo_op \<Rightarrow> spec \<Rightarrow> bool" where
  "overflows c t x a \<longleftrightarrow> (\<exists>p. INT_MAX \<le> int (count_of a p)) \<and> (\<exists>e u. piece (pcs c t) x (tbl c) = Abort e u)"

lemma own_live:
  assumes "agrees n c l a" and "t < n" and "0 < own c t p + pend (pcs c t) p"
  shows "live a p"
proof -
  have "own c t p + pend (pcs c t) p \<le> total n c p"
    unfolding total_def by (rule sum_member [OF assms(2), of "\<lambda>t. own c t p + pend (pcs c t) p"])
  then have "0 < count_of a p" "rep l (tbl c) a" using assms(1,3) by (auto simp: agrees_def)
  then show ?thesis using live_count by blast
qed

lemma inside_held:
  assumes "agrees n c l a" and "t < n" and "inside (pcs c t)"
  shows "l = Held" and "u < n \<Longrightarrow> u \<noteq> t \<Longrightarrow> \<not> inside (pcs c u)"
proof -
  let ?f = "\<lambda>t. if inside (pcs c t) then 1 else 0 :: nat"
  have S: "(\<Sum>t<n. ?f t) = (if l = Held then 1 else 0)" using assms(1) by (simp add: agrees_def)
  then show l: "l = Held" using sum_member [OF assms(2), of ?f] assms(3) by (simp split: if_splits)
  show "\<not> inside (pcs c u)" if "u < n" "u \<noteq> t"
  proof
    assume "inside (pcs c u)"
    then have "(\<Sum>v\<in>{t, u}. ?f v) = 2" using assms(3) that(2) by simp
    moreover have "(\<Sum>v\<in>{t, u}. ?f v) \<le> (\<Sum>v<n. ?f v)" using assms(2) that(1) by (intro sum_mono2) auto
    ultimately show False using S l by simp
  qed
qed

lemma step_alloc:
  assumes A: "agrees n c l a" and t: "t < n" "pcs c t = Idle"
  shows "runs_well n c t (Alloc i) \<or> waits c t (Alloc i) l"
proof (cases "fst (spec_alloc i a) = 0 \<or> l = Free")
  case True
  have r: "rep l (tbl c) a" and l: "l \<noteq> Raw" using A by (auto simp: agrees_def)
  let ?r = "fst (spec_alloc i a)" and ?b = "snd (spec_alloc i a)" and ?l = "if fst (spec_alloc i a) = 0 then l else Held"
  obtain s where s: "alloc_enter i (tbl c) = Ok ?r s" "rep ?l s ?b"
    using alloc_refused [OF r, of i] alloc_piece [of "tbl c" a i] r True by (cases "?r = 0") auto
  have "agrees n (moved c t (Alloc i) ?r s) ?l ?b"
    unfolding moved_def
    by (rule agrees_step [OF A t(1) s(2)])
      (use l True t(2) count_alloc [OF r] live_alloc in \<open>auto elim: sane_mono\<close>)
  then show ?thesis using s(1) t(2) by (auto simp: runs_well_def)
next
  case False
  then have "l = Held" using A by (cases l) (auto simp: agrees_def)
  then show ?thesis using alloc_waits [of "tbl c" a i] A False t(2) by (auto simp: waits_def agrees_def)
qed

lemma step_find:
  assumes A: "agrees n c l a" and t: "t < n" "pcs c t = Idle"
  shows "runs_well n c t (Find i) \<or> waits c t (Find i) l"
proof (cases "l = Free")
  case True
  have r: "rep Free (tbl c) a" using A True by (simp add: agrees_def)
  let ?r = "spec_lookup i a"
  obtain s where s: "find_enter i (tbl c) = Ok ?r s" "rep (if ?r = 0 then Free else Held) s a" using find_piece [OF r] by blast
  have "agrees n (moved c t (Find i) ?r s) (if ?r = 0 then Free else Held) a"
    unfolding moved_def
    by (rule agrees_step [OF A t(1) s(2)]) (use True t(2) lookup_live in auto)
  then show ?thesis using s(1) t(2) by (auto simp: runs_well_def)
next
  case False
  then have "l = Held" using A by (cases l) (auto simp: agrees_def)
  then show ?thesis using A t(2) by (auto simp: waits_def find_enter_def bnd_def hash_lock_def agrees_def rep_def)
qed

lemma step_hold:
  assumes A: "agrees n c l a" and t: "t < n" "pcs c t = Idle" and p: "live a p"
  shows "runs_well n c t (Hold self p) \<or> overflows c t (Hold self p) a"
proof (cases "room a p")
  case True
  have r: "rep l (tbl c) a" and l: "l \<noteq> Raw" using A by (auto simp: agrees_def)
  obtain s where s: "foo_hold_m2 p (tbl c) = Ok () s" "rep l s (spec_hold p a)" using hold_piece [OF r p True] by blast
  have "agrees n (moved c t (Hold self p) p s) l (spec_hold p a)"
    unfolding moved_def
    by (rule agrees_step [OF A t(1) s(2) l])
      (use t(2) count_hold [OF p] in \<open>auto simp: spec_hold_def live_set elim: sane_mono\<close>)
  then show ?thesis using s(1) t(2) by (auto simp: runs_well_def bnd_def)
next
  case False
  then obtain u where "foo_hold_m2 p (tbl c) = Abort (Undefined ''count overflow'') u" using hold_full [of l "tbl c" a p] A p by (auto simp: agrees_def)
  then show ?thesis using False t(2) by (auto simp: overflows_def room_def bnd_def not_less)
qed

lemma step_rele:
  assumes A: "agrees n c l a" and t: "t < n" "pcs c t = Idle" and p: "0 < own c t p"
  shows "runs_well n c t (Rele self p)"
proof -
  have r: "rep l (tbl c) a" and l: "l \<noteq> Raw" using A by (auto simp: agrees_def)
  have lv: "live a p" using own_live [OF A t(1), of p] p by simp
  have p0: "p \<noteq> 0" using lv r by (metis live_count count_zero less_irrefl)
  obtain s where s: "rele_check p (tbl c) = Ok (count_of a p \<noteq> 1) s" "rep l s (if count_of a p = 1 then a else spec_rele p a)"
    using check_piece [OF r lv] by blast
  show ?thesis
  proof (cases "count_of a p = 1")
    case True
    have "agrees n (moved c t (Rele self p) p s) l a"
      unfolding moved_def by (rule agrees_step [OF A t(1) _ l]) (use s True t(2) p p0 in auto)
    then show ?thesis using s(1) t(2) True by (auto simp: runs_well_def bnd_def)
  next
    case False
    have "agrees n (moved c t (Rele self p) 0 s) l (spec_rele p a)"
      unfolding moved_def
    proof (rule agrees_step [OF A t(1) _ l])
      fix q
      show "count_of (spec_rele p a) q + own c t q + pend (pcs c t) q = count_of a q +
        (own c t q + gains (pcs c t) (Rele self p) q - loses (pcs c t) (Rele self p) q) + pend (after (pcs c t) (Rele self p) 0) q"
        using count_rele [OF r lv, of q] p t(2) by auto
    qed (use s False t(2) count_pos [OF r lv] in \<open>auto simp: spec_rele_def live_set elim: sane_mono\<close>)
    then show ?thesis using s(1) t(2) False by (auto simp: runs_well_def bnd_def)
  qed
qed

lemma step_in_alloc:
  assumes A: "agrees n c l a" and t: "t < n" "pcs c t = In_alloc p"
  shows "runs_well n c t x"
proof -
  have l: "l = Held" using inside_held(1) [OF A t(1)] t(2) by simp
  then have r: "rep Held (tbl c) a" using A by (simp add: agrees_def)
  have lv: "live a p" using own_live [OF A t(1), of p] t(2) by simp
  obtain s where s: "alloc_leave p (tbl c) = Ok () s" "rep Free s a" using leave_piece [OF r lv] by blast
  have "agrees n (moved c t x p s) Free a"
    unfolding moved_def by (rule agrees_step [OF A t(1) s(2)]) (use t(2) l in auto)
  then show ?thesis using s(1) t(2) by (auto simp: runs_well_def bnd_def)
qed

lemma step_in_find:
  assumes A: "agrees n c l a" and t: "t < n" "pcs c t = In_find p"
  shows "runs_well n c t x \<or> overflows c t x a"
proof -
  have l: "l = Held" using inside_held(1) [OF A t(1)] t(2) by simp
  then have r: "rep Held (tbl c) a" using A by (simp add: agrees_def)
  have "sane a (pcs c t)" using A t(1) by (simp add: agrees_def)
  then have lv: "live a p" using t(2) by simp
  show ?thesis
  proof (cases "room a p")
    case True
    obtain s where s: "find_leave p (tbl c) = Ok () s" "rep Free s (spec_hold p a)" using find_leave_piece [OF r lv True] by blast
    have "agrees n (moved c t x p s) Free (spec_hold p a)"
      unfolding moved_def
      by (rule agrees_step [OF A t(1) s(2)])
        (use t(2) l count_hold [OF lv] in \<open>auto simp: spec_hold_def live_set elim: sane_mono\<close>)
    then show ?thesis using s(1) t(2) by (auto simp: runs_well_def bnd_def)
  next
    case False
    then obtain u where "foo_hold_m2 p (tbl c) = Abort (Undefined ''count overflow'') u" using hold_full [OF r lv] by blast
    then show ?thesis using False t(2) by (auto simp: overflows_def room_def find_leave_def bnd_def not_less)
  qed
qed

lemma step_in_rele:
  assumes A: "agrees n c l a" and t: "t < n" "pcs c t = In_rele p"
  shows "runs_well n c t x \<or> waits c t x l"
proof (cases "l = Free")
  case True
  then have r: "rep Free (tbl c) a" using A by (simp add: agrees_def)
  then have "hashlock (tbl c) = Free" by (simp add: rep_def)
  moreover have "agrees n (moved c t x p ((tbl c)\<lparr>hashlock := Held\<rparr>)) Held a"
    unfolding moved_def by (rule agrees_step [OF A t(1) rep_lock [OF r]]) (use t(2) True in auto)
  ultimately show ?thesis using t(2) by (auto simp: runs_well_def bnd_def)
next
  case False
  then have "l = Held" using A by (cases l) (auto simp: agrees_def)
  then show ?thesis using A t(2) by (auto simp: waits_def bnd_def hash_lock_def agrees_def rep_def)
qed

lemma step_in_last:
  assumes A: "agrees n c l a" and t: "t < n" "pcs c t = In_last p"
  shows "runs_well n c t x"
proof -
  have l: "l = Held" using inside_held(1) [OF A t(1)] t(2) by simp
  then have r: "rep Held (tbl c) a" using A by (simp add: agrees_def)
  have lv: "live a p" using own_live [OF A t(1), of p] t(2) by simp
  obtain s where s: "rele_recheck p (tbl c) = Ok () s" "rep Free s (spec_rele p a)" using recheck_piece [OF r lv] by blast
  have "agrees n (moved c t x p s) Free (spec_rele p a)"
    unfolding moved_def
  proof (rule agrees_step [OF A t(1) s(2)])
    fix q
    show "count_of (spec_rele p a) q + own c t q + pend (pcs c t) q = count_of a q +
      (own c t q + gains (pcs c t) x q - loses (pcs c t) x q) + pend (after (pcs c t) x p) q"
      using count_rele [OF r lv, of q] t(2) by auto
  next
    fix u
    assume "u < n" "u \<noteq> t" "sane a (pcs c u)"
    then have "\<not> inside (pcs c u)" using inside_held(2) [OF A t(1)] t(2) by simp
    then show "sane (spec_rele p a) (pcs c u)" by (cases "pcs c u") simp_all
  qed (use t(2) l in auto)
  then show ?thesis using s(1) t(2) by (auto simp: runs_well_def bnd_def)
qed

lemma one_step:
  assumes A: "agrees n c l a" and t: "t < n" "asks n c t x"
  shows "runs_well n c t x \<or> waits c t x l \<or> overflows c t x a"
proof (cases "pcs c t")
  case Idle
  show ?thesis
  proof (cases x)
    case (Hold self p)
    then obtain u where "u < n" "0 < own c u p" using t(2) Idle by auto
    then have "live a p" using own_live [OF A, of u p] by simp
    then show ?thesis using step_hold [OF A t(1) Idle] Hold by blast
  qed (use step_alloc [OF A t(1) Idle] step_find [OF A t(1) Idle] step_rele [OF A t(1) Idle] t(2) Idle in auto)
qed (use step_in_alloc [OF A t(1)] step_in_find [OF A t(1)] step_in_rele [OF A t(1)] step_in_last [OF A t(1)] in blast)+

lemma reachable_agrees: "reachable n c \<Longrightarrow> \<exists>l a. agrees n c l a"
proof (induction rule: reachable.induct)
  case (init s)
  have "agrees n \<lparr>tbl = s, pcs = \<lambda>_. Idle, own = \<lambda>_ _. 0\<rparr> Free (no_objects s)"
    using fresh_rep [OF init] by (simp add: agrees_def total_def count_of_def no_objects_def)
  then show ?case by blast
next
  case (next_step c c')
  then obtain l a where A: "agrees n c l a" by blast
  from next_step(2) obtain t x r s where t: "t < n" "asks n c t x" "piece (pcs c t) x (tbl c) = Ok r s" "c' = moved c t x r s"
    by (cases rule: mstep.cases) (auto simp: moved_def)
  from one_step [OF A t(1,2)] t(3) have "runs_well n c t x" by (auto simp: waits_def overflows_def)
  then show ?case using t(3,4) by (auto simp: runs_well_def)
qed

subsection \<open>Property\<close>

text \<open>
  C35: the two locks of \<open>mutex2.c\<close> protect the objects. In every state that any number of threads can reach by any interleaving of
  the pieces of \<open>foo_alloc\<close>, \<open>foo_hold\<close>, \<open>foo_find\<close> and \<open>foo_rele\<close>, an object is in memory exactly while threads have references to it,
  and its count is their number, those of threads inside \<open>foo_alloc\<close> and \<open>foo_rele\<close> included. No thread can do anything undefined next (use
  freed memory, misuse a lock, follow a broken chain), as long as no count is at its largest value; and when a thread has to wait,
  another one holds the lock of the table, and that one can go on: there is no deadlock.
\<close>

theorem foo_threads_safe:
  assumes "reachable n c"
  shows "(\<forall>p. case foos (tbl c) p of None \<Rightarrow> total n c p = 0 | Some f \<Rightarrow> 0 < total n c p \<and> f_count f = int (total n c p)) \<and>
    (\<forall>t<n. \<forall>x. asks n c t x \<and> (\<forall>p. int (total n c p) < INT_MAX) \<longrightarrow>
      (case piece (pcs c t) x (tbl c) of
         Ok r s \<Rightarrow> True
       | Abort e s \<Rightarrow> False
       | Hang \<Rightarrow> (\<exists>u<n. inside (pcs c u) \<and> (\<forall>y. \<exists>r s. piece (pcs c u) y (tbl c) = Ok r s))))"
proof -
  obtain l a where A: "agrees n c l a" using reachable_agrees [OF assms] by blast
  then have r: "rep l (tbl c) a" and tot: "\<And>p. total n c p = count_of a p" by (simp_all add: agrees_def)
  have "case foos (tbl c) p of None \<Rightarrow> total n c p = 0 | Some f \<Rightarrow> 0 < total n c p \<and> f_count f = int (total n c p)" for p
    using rep_counts [OF r, of p] tot [of p] by (cases "foos (tbl c) p") auto
  moreover have "case piece (pcs c t) x (tbl c) of Ok r s \<Rightarrow> True | Abort e s \<Rightarrow> False
       | Hang \<Rightarrow> (\<exists>u<n. inside (pcs c u) \<and> (\<forall>y. \<exists>r s. piece (pcs c u) y (tbl c) = Ok r s))"
    if t: "t < n" and x: "asks n c t x" and small: "\<And>p. int (total n c p) < INT_MAX" for t x
  proof -
    have no: "\<not> overflows c u y a" for u y using small tot by (auto simp: overflows_def not_le)
    show ?thesis
    proof (cases "waits c t x l")
      case True
      then have "(\<Sum>t<n. if inside (pcs c t) then 1 else 0 :: nat) = 1" using A by (simp add: waits_def agrees_def)
      then obtain u where u: "u < n" "inside (pcs c u)" by (metis (mono_tags, lifting) lessThan_iff sum.neutral zero_neq_one)
      have w: "runs_well n c u y" for y
        using step_in_alloc [OF A u(1)] step_in_find [OF A u(1)] step_in_last [OF A u(1)] no u(2) by (cases "pcs c u") auto
      have "\<exists>r s. piece (pcs c u) y (tbl c) = Ok r s" for y using w [of y] unfolding runs_well_def by blast
      then have "\<exists>u<n. inside (pcs c u) \<and> (\<forall>y. \<exists>r s. piece (pcs c u) y (tbl c) = Ok r s)" using u by blast
      then show ?thesis using True by (simp add: waits_def)
    next
      case False
      then show ?thesis using one_step [OF A t x] no by (auto simp: runs_well_def)
    qed
  qed
  ultimately show ?thesis by blast
qed

text \<open>Thread 0 is inside \<open>foo_alloc\<close>, thread 1 looks for the object and has to wait.\<close>

definition sample_sys :: sys where
  "sample_sys = \<lparr>tbl = sample_table, pcs = \<lambda>_. Idle, own = \<lambda>_ _. 0\<rparr>"

theorem foo_threads_safe_witness:
  "\<exists>c. reachable 2 c \<and> pcs c 0 = In_alloc 1 \<and> piece (pcs c 1) (Find 5) (tbl c) = Hang \<and>
    (\<exists>u<2. inside (pcs c u) \<and> (\<exists>r s. piece (pcs c u) (Find 5) (tbl c) = Ok r s))"
proof -
  obtain s where s: "alloc_enter 5 sample_table = Ok 1 s" "hashlock s = Held"
    by (simp add: alloc_enter_def bnd_def malloc_foo_def attempt_def lock_init_def link_foo_def sample_table_def)
  define c where "c = moved sample_sys 0 (Alloc 5) 1 s"
  have "reachable 2 sample_sys" unfolding sample_sys_def by (rule reachable.init [OF sample_fresh])
  moreover have "mstep 2 sample_sys c"
    unfolding c_def moved_def by (rule mstep.step) (use s in \<open>simp_all add: sample_sys_def\<close>)
  ultimately have c: "reachable 2 c" by (rule reachable.next_step)
  have pc: "pcs c 0 = In_alloc 1" "pcs c 1 = Idle" "tbl c = s" "own c = (\<lambda>_ _. 0)"
    by (auto simp: c_def moved_def sample_sys_def)
  have h: "piece (pcs c 1) (Find 5) (tbl c) = Hang" using s(2) pc by (simp add: find_enter_def bnd_def hash_lock_def)
  have "total 2 c p \<le> 2" for p using pc by (simp add: total_def numeral_2_eq_2)
  then have "int (total 2 c p) \<le> 2" for p by (metis of_nat_le_iff of_nat_numeral)
  then have "int (total 2 c p) < INT_MAX" for p using le_less_trans [of "int (total 2 c p)" 2 INT_MAX] by (simp add: INT_MAX_def)
  moreover have "asks 2 c 1 (Find 5)" by simp
  ultimately have "\<exists>u<2. inside (pcs c u) \<and> (\<forall>y. \<exists>r s. piece (pcs c u) y (tbl c) = Ok r s)"
    using foo_threads_safe [OF c, THEN conjunct2, rule_format, of 1 "Find 5"] h by simp
  then show ?thesis using c pc(1) h by blast
qed

end
