(* ===== verification/Sem_Set.thy ===== *)
theory Sem_Set
  imports Prelude
begin

section \<open>Semaphores on System V sets: \<open>lib/semaph.c\<close>\<close>

text \<open>
  A semaphore is a set of three: [0] is its value, [1] counts down from \<open>BIGCOUNT\<close> the processes that have it open, [2] is a lock. The
  library leans on the kernel: operations of one \<open>semop\<close> take place together or not at all, and those with \<open>SEM_UNDO\<close> are
  taken back when the process exits.

  The kernel is modelled with what the library uses: the key table, the sets with their values and the adjustments kept for each process, calls
  that have to wait, sets removed while somebody waits (\<open>EIDRM\<close>) or before the call (\<open>EINVAL\<close>). A routine of the
  library is a machine that makes one system call per step (\<open>create_step\<close>, \<open>open_step\<close>, \<open>close_step\<close>, \<open>rm_step\<close>, \<open>op_step\<close>),
  since between any two calls other processes run. The states of the machines are named by the call that is due; the interleaving of the processes
  and the properties are in theory \<open>Sem_Procs\<close>.
\<close>

subsection \<open>The kernel's semaphore sets\<close>

datatype sembuf = Sembuf (sem_num: nat) (sem_op: int) (sem_undo: bool)

record semset =
  sv :: "nat \<Rightarrow> int"
  adj :: "nat \<Rightarrow> nat \<Rightarrow> int"

record ksem =
  ids :: "int \<Rightarrow> int option"
  sets :: "int \<Rightarrow> semset option"
  nid :: nat
  refuse :: "bool list"

datatype answer = Val int | Errno int | Sleep

abbreviation EINVAL' :: int where "EINVAL' \<equiv> 22"
abbreviation ERANGE :: int where "ERANGE \<equiv> 34"
abbreviation EIDRM :: int where "EIDRM \<equiv> 43"
abbreviation SEMVMX :: int where "SEMVMX \<equiv> 32767"

datatype ops_result = Done semset | Blocked | Failed int

definition one_op :: "nat \<Rightarrow> sembuf \<Rightarrow> semset \<Rightarrow> semset" where
  "one_op p b s = s\<lparr>sv := (sv s)(sem_num b := sv s (sem_num b) + sem_op b),
     adj := (if sem_undo b then (adj s)(p := (adj s p)(sem_num b := adj s p (sem_num b) - sem_op b)) else adj s)\<rparr>"

fun run_ops :: "nat \<Rightarrow> sembuf list \<Rightarrow> semset \<Rightarrow> ops_result" where
  "run_ops p [] s = Done s"
| "run_ops p (b # bs) s =
     (if sem_op b = 0 then (if sv s (sem_num b) = 0 then run_ops p bs s else Blocked)
      else if sv s (sem_num b) + sem_op b < 0 then Blocked
      else if SEMVMX < sv s (sem_num b) + sem_op b then Failed ERANGE
      else run_ops p bs (one_op p b s))"

text \<open>A removed set: a process that was asleep on it is woken with \<open>EIDRM\<close>, a new call gets \<open>EINVAL\<close>.\<close>

definition semop :: "nat \<Rightarrow> bool \<Rightarrow> int \<Rightarrow> sembuf list \<Rightarrow> ksem \<Rightarrow> answer \<times> ksem" where
  "semop p asleep i bs k = (case sets k i of
      None \<Rightarrow> (Errno (if asleep then EIDRM else EINVAL'), k)
    | Some s \<Rightarrow> (case run_ops p bs s of
          Done t \<Rightarrow> (Val 0, k\<lparr>sets := (sets k)(i \<mapsto> t)\<rparr>)
        | Blocked \<Rightarrow> (Sleep, k)
        | Failed e \<Rightarrow> (Errno e, k)))"

definition new_set :: semset where
  "new_set = \<lparr>sv = \<lambda>_. 0, adj = \<lambda>_ _. 0\<rparr>"

definition semget :: "int \<Rightarrow> bool \<Rightarrow> ksem \<Rightarrow> answer \<times> ksem" where
  "semget key creat k = (case refuse k of
      True # fs \<Rightarrow> (Errno 28, k\<lparr>refuse := fs\<rparr>)
    | fs \<Rightarrow> (let k = k\<lparr>refuse := drop 1 fs\<rparr> in case ids k key of
          Some i \<Rightarrow> (Val i, k)
        | None \<Rightarrow> if creat then (Val (int (nid k)), k\<lparr>ids := (ids k)(key \<mapsto> int (nid k)), sets := (sets k)(int (nid k) \<mapsto> new_set), nid := Suc (nid k)\<rparr>)
            else (Errno 2, k)))"

definition getval :: "int \<Rightarrow> nat \<Rightarrow> ksem \<Rightarrow> answer" where
  "getval i j k = (case sets k i of None \<Rightarrow> Errno EINVAL' | Some s \<Rightarrow> Val (sv s j))"

text \<open>\<open>SETVAL\<close> clears the adjustments of this semaphore in every process.\<close>

definition setval :: "int \<Rightarrow> nat \<Rightarrow> int \<Rightarrow> ksem \<Rightarrow> answer \<times> ksem" where
  "setval i j v k = (case sets k i of
      None \<Rightarrow> (Errno EINVAL', k)
    | Some s \<Rightarrow> if v < 0 \<or> SEMVMX < v then (Errno ERANGE, k)
        else (Val 0, k\<lparr>sets := (sets k)(i \<mapsto> s\<lparr>sv := (sv s)(j := v), adj := (\<lambda>p. (adj s p)(j := 0))\<rparr>)\<rparr>))"

definition rmid :: "int \<Rightarrow> ksem \<Rightarrow> answer \<times> ksem" where
  "rmid i k = (case sets k i of
      None \<Rightarrow> (Errno EINVAL', k)
    | Some s \<Rightarrow> (Val 0, k\<lparr>sets := (sets k)(i := None), ids := (\<lambda>key. if ids k key = Some i then None else ids k key)\<rparr>))"

definition undo_set :: "nat \<Rightarrow> semset \<Rightarrow> semset" where
  "undo_set p s = s\<lparr>sv := (\<lambda>j. max 0 (sv s j + adj s p j)), adj := (adj s)(p := (\<lambda>_. 0))\<rparr>"

definition sem_exit :: "nat \<Rightarrow> ksem \<Rightarrow> ksem" where
  "sem_exit p k = k\<lparr>sets := (\<lambda>i. map_option (undo_set p) (sets k i))\<rparr>"

subsection \<open>The library\<close>

definition BIGCOUNT :: int where "BIGCOUNT = 10000"

definition op_lock :: "sembuf list" where "op_lock = [Sembuf 2 0 False, Sembuf 2 1 True]"
definition op_endcreate :: "sembuf list" where "op_endcreate = [Sembuf 1 (-1) True, Sembuf 2 (-1) True]"
definition op_open :: "sembuf list" where "op_open = [Sembuf 1 (-1) True]"
definition op_close :: "sembuf list" where "op_close = [Sembuf 2 0 False, Sembuf 2 1 True, Sembuf 1 1 True]"
definition op_unlock :: "sembuf list" where "op_unlock = [Sembuf 2 (-1) True]"
definition op_op :: "int \<Rightarrow> sembuf list" where "op_op v = [Sembuf 0 v True]"

text \<open>The system call that is due; parameters are what the routine still needs.\<close>

datatype create_pc =
    Cr_get int int       \<comment> \<open>key, initial value: \<open>semget\<close>\<close>
  | Cr_lock int int int  \<comment> \<open>key, initial value, id: \<open>semop\<close> with \<open>op_lock\<close>\<close>
  | Cr_getval int int    \<comment> \<open>initial value, id: \<open>GETVAL\<close> of [1]\<close>
  | Cr_set0 int int      \<comment> \<open>initial value, id: \<open>SETVAL\<close> of [0]\<close>
  | Cr_set1 int          \<comment> \<open>id: \<open>SETVAL\<close> of [1]\<close>
  | Cr_end int           \<comment> \<open>id: \<open>semop\<close> with \<open>op_endcreate\<close>\<close>

datatype open_pc = Op_get int | Op_dec int
datatype close_pc = Cl_lock int | Cl_getval int | Cl_rm int | Cl_unlock int
datatype pc = Out | Create create_pc | Open open_pc | Close close_pc | Rm int | Semop int int

datatype 'p step = Go 'p | Wait | Return int | Dies reason

definition IPC_PRIVATE :: int where "IPC_PRIVATE = 0"

definition sem_create :: "int \<Rightarrow> int \<Rightarrow> create_pc step" where
  "sem_create key initval = (if key = IPC_PRIVATE then Return (-1) else if key = -1 then Return (-1) else Go (Cr_get key initval))"

fun create_step :: "nat \<Rightarrow> bool \<Rightarrow> create_pc \<Rightarrow> ksem \<Rightarrow> ksem \<times> create_pc step" where
  "create_step p z (Cr_get key v) k = (case semget key True k of
      (Val i, k) \<Rightarrow> (k, Go (Cr_lock key v i)) | (_, k) \<Rightarrow> (k, Return (-1)))"
| "create_step p z (Cr_lock key v i) k = (case semop p z i op_lock k of
      (Val r, k) \<Rightarrow> (k, Go (Cr_getval v i))
    | (Errno e, k) \<Rightarrow> (k, if e = EINVAL' then Go (Cr_get key v) else Dies (Err_sys ''can't lock''))
    | (Sleep, k) \<Rightarrow> (k, Wait))"
| "create_step p z (Cr_getval v i) k = (case getval i 1 k of
      Val r \<Rightarrow> (k, Go (if r = 0 then Cr_set0 v i else Cr_end i)) | _ \<Rightarrow> (k, Dies (Err_sys ''can't GETVAL'')))"
| "create_step p z (Cr_set0 v i) k = (case setval i 0 v k of
      (Val r, k) \<Rightarrow> (k, Go (Cr_set1 i)) | (_, k) \<Rightarrow> (k, Dies (Err_sys ''can SETVAL[0]'')))"
| "create_step p z (Cr_set1 i) k = (case setval i 1 BIGCOUNT k of
      (Val r, k) \<Rightarrow> (k, Go (Cr_end i)) | (_, k) \<Rightarrow> (k, Dies (Err_sys ''can SETVAL[1]'')))"
| "create_step p z (Cr_end i) k = (case semop p z i op_endcreate k of
      (Val r, k) \<Rightarrow> (k, Return i) | (Errno e, k) \<Rightarrow> (k, Dies (Err_sys ''can't end create'')) | (Sleep, k) \<Rightarrow> (k, Wait))"

definition sem_open :: "int \<Rightarrow> open_pc step" where
  "sem_open key = (if key = IPC_PRIVATE then Return (-1) else if key = -1 then Return (-1) else Go (Op_get key))"

fun open_step :: "nat \<Rightarrow> bool \<Rightarrow> open_pc \<Rightarrow> ksem \<Rightarrow> ksem \<times> open_pc step" where
  "open_step p z (Op_get key) k = (case semget key False k of
      (Val i, k) \<Rightarrow> (k, Go (Op_dec i)) | (_, k) \<Rightarrow> (k, Return (-1)))"
| "open_step p z (Op_dec i) k = (case semop p z i op_open k of
      (Val r, k) \<Rightarrow> (k, Return i) | (Errno e, k) \<Rightarrow> (k, Dies (Err_sys ''can't open'')) | (Sleep, k) \<Rightarrow> (k, Wait))"

definition rm_step :: "int \<Rightarrow> ksem \<Rightarrow> ksem \<times> 'p step" where
  "rm_step i k = (case rmid i k of
      (Val r, k) \<Rightarrow> (k, Return 0) | (_, k) \<Rightarrow> (k, Dies (Err_sys ''can't IPC_RMID'')))"

definition sem_close :: "int \<Rightarrow> close_pc step" where
  "sem_close i = Go (Cl_lock i)"

fun close_step :: "nat \<Rightarrow> bool \<Rightarrow> close_pc \<Rightarrow> ksem \<Rightarrow> ksem \<times> close_pc step" where
  "close_step p z (Cl_lock i) k = (case semop p z i op_close k of
      (Val r, k) \<Rightarrow> (k, Go (Cl_getval i)) | (Errno e, k) \<Rightarrow> (k, Dies (Err_sys ''can't semop'')) | (Sleep, k) \<Rightarrow> (k, Wait))"
| "close_step p z (Cl_getval i) k = (case getval i 1 k of
      Val r \<Rightarrow> (k, if BIGCOUNT < r then Dies (Err_dump ''sem[1] > BIGCOUNT'')
                   else if r = BIGCOUNT then Go (Cl_rm i) else Go (Cl_unlock i))
    | _ \<Rightarrow> (k, Dies (Err_sys ''can't GETVAL'')))"
| "close_step p z (Cl_rm i) k = rm_step i k"
| "close_step p z (Cl_unlock i) k = (case semop p z i op_unlock k of
      (Val r, k) \<Rightarrow> (k, Return 0) | (Errno e, k) \<Rightarrow> (k, Dies (Err_sys ''can't unlock'')) | (Sleep, k) \<Rightarrow> (k, Wait))"

definition sem_op_call :: "int \<Rightarrow> int \<Rightarrow> pc step" where
  "sem_op_call i v = (if v = 0 then Dies (Err_sys ''can't have value == 0'') else Go (Semop i v))"

definition sem_wait :: "int \<Rightarrow> pc step" where "sem_wait i = sem_op_call i (-1)"
definition sem_signal :: "int \<Rightarrow> pc step" where "sem_signal i = sem_op_call i 1"

definition op_step :: "nat \<Rightarrow> bool \<Rightarrow> int \<Rightarrow> int \<Rightarrow> ksem \<Rightarrow> ksem \<times> pc step" where
  "op_step p z i v k = (case semop p z i (op_op v) k of
      (Val r, k) \<Rightarrow> (k, Return 0) | (Errno e, k) \<Rightarrow> (k, Dies (Err_sys ''sem_op error'')) | (Sleep, k) \<Rightarrow> (k, Wait))"

subsection \<open>Processes\<close>

lemma map_step_iff:
  "map_step f y = Wait \<longleftrightarrow> y = Wait" "map_step f y = Dies r \<longleftrightarrow> y = Dies r" "map_step f y = Return v \<longleftrightarrow> y = Return v"
  "map_step f y = Go x \<longleftrightarrow> (\<exists>u. y = Go u \<and> x = f u)"
  by (cases y; auto)+

fun pc_step :: "nat \<Rightarrow> bool \<Rightarrow> pc \<Rightarrow> ksem \<Rightarrow> ksem \<times> pc step" where
  "pc_step p z Out k = (k, Return 0)"
| "pc_step p z (Create x) k = apsnd (map_step Create) (create_step p z x k)"
| "pc_step p z (Open x) k = apsnd (map_step Open) (open_step p z x k)"
| "pc_step p z (Close x) k = apsnd (map_step Close) (close_step p z x k)"
| "pc_step p z (Rm i) k = rm_step i k"
| "pc_step p z (Semop i v) k = op_step p z i v k"

datatype request = Sem_create int int | Sem_open int | Sem_close int | Sem_rm int | Sem_wait int | Sem_signal int | Sem_op int int

primrec enter :: "request \<Rightarrow> pc step" where
  "enter (Sem_create key v) = map_step Create (sem_create key v)"
| "enter (Sem_open key) = map_step Open (sem_open key)"
| "enter (Sem_close i) = map_step Close (sem_close i)"
| "enter (Sem_rm i) = Go (Rm i)"
| "enter (Sem_wait i) = sem_wait i"
| "enter (Sem_signal i) = sem_signal i"
| "enter (Sem_op i v) = sem_op_call i v"

end
