(* ===== verification/Sem_Procs.thy ===== *)
theory Sem_Procs
  imports Sem_Set
begin

section \<open>Processes that share semaphores of \<open>lib/semaph.c\<close>\<close>

text \<open>
  Any number of processes call the library, one system call of one process at a time; a process may exit at any moment, and the kernel then
  undoes its operations. \<open>held c p i\<close> counts the times process \<open>p\<close> has opened set \<open>i\<close> and not begun to close it.
  \<open>sreach n b c\<close>: state \<open>c\<close> of \<open>n\<close> processes can be reached with fewer than \<open>BIGCOUNT\<close> references to a set at any time; the
  processes use \<open>sem_open\<close> and \<open>sem_rm\<close> only if \<open>b\<close>. They close and operate on what they have open only.

  The invariant \<open>set_ok\<close> says what the three members of a set are at any moment; it is kept by every step of every routine.
\<close>

record sem_sys =
  kern :: ksem
  pcs :: "nat \<Rightarrow> pc"
  asleep :: "nat \<Rightarrow> bool"
  held :: "nat \<Rightarrow> int \<Rightarrow> nat"

text \<open>References taken and given up by a step that leads from \<open>x\<close> to \<open>y\<close>.\<close>

definition taken :: "pc \<Rightarrow> pc step \<Rightarrow> int \<Rightarrow> nat" where
  "taken x y i = (case y of
      Return v \<Rightarrow> (case x of
          Create (Cr_end j) \<Rightarrow> if i = j then 1 else 0
        | Open (Op_dec j) \<Rightarrow> if i = j then 1 else 0
        | _ \<Rightarrow> 0)
    | _ \<Rightarrow> 0)"

definition given :: "pc \<Rightarrow> pc step \<Rightarrow> int \<Rightarrow> nat" where
  "given x y i = (case y of
      Go v \<Rightarrow> (case x of Close (Cl_lock j) \<Rightarrow> if i = j then 1 else 0 | _ \<Rightarrow> 0)
    | _ \<Rightarrow> 0)"

definition exits :: "nat \<Rightarrow> sem_sys \<Rightarrow> sem_sys" where
  "exits p c = c\<lparr>kern := sem_exit p (kern c), pcs := (pcs c)(p := Out), asleep := (asleep c)(p := False), held := (held c)(p := (\<lambda>_. 0))\<rparr>"

definition moves_to :: "nat \<Rightarrow> ksem \<Rightarrow> pc \<Rightarrow> bool \<Rightarrow> (int \<Rightarrow> nat) \<Rightarrow> sem_sys \<Rightarrow> sem_sys" where
  "moves_to p k x z h c = c\<lparr>kern := k, pcs := (pcs c)(p := x), asleep := (asleep c)(p := z), held := (held c)(p := h)\<rparr>"

definition advance :: "nat \<Rightarrow> pc step \<Rightarrow> (int \<Rightarrow> nat) \<Rightarrow> ksem \<Rightarrow> sem_sys \<Rightarrow> sem_sys" where
  "advance p y h k c = (case y of
      Go x \<Rightarrow> moves_to p k x False h c
    | Wait \<Rightarrow> moves_to p k (pcs c p) True h c
    | Return v \<Rightarrow> moves_to p k Out False h c
    | Dies r \<Rightarrow> exits p (c\<lparr>kern := k\<rparr>))"

primrec may :: "bool \<Rightarrow> (int \<Rightarrow> nat) \<Rightarrow> request \<Rightarrow> bool" where
  "may b h (Sem_create key v) = True"
| "may b h (Sem_open key) = b"
| "may b h (Sem_close i) = (0 < h i)"
| "may b h (Sem_rm i) = b"
| "may b h (Sem_wait i) = (0 < h i)"
| "may b h (Sem_signal i) = (0 < h i)"
| "may b h (Sem_op i v) = (0 < h i)"

definition after_step :: "nat \<Rightarrow> ksem \<Rightarrow> pc step \<Rightarrow> sem_sys \<Rightarrow> sem_sys" where
  "after_step p k y c = advance p y (\<lambda>i. held c p i + taken (pcs c p) y i - given (pcs c p) y i) k c"

inductive sstep :: "nat \<Rightarrow> bool \<Rightarrow> sem_sys \<Rightarrow> sem_sys \<Rightarrow> bool" for n :: nat and b :: bool where
  call: "p < n \<Longrightarrow> pcs c p = Out \<Longrightarrow> may b (held c p) q \<Longrightarrow> sstep n b c (advance p (enter q) (held c p) (kern c) c)"
| run: "p < n \<Longrightarrow> pcs c p \<noteq> Out \<Longrightarrow> pc_step p (asleep c p) (pcs c p) (kern c) = (k, y) \<Longrightarrow> sstep n b c (after_step p k y c)"
| exit: "p < n \<Longrightarrow> sstep n b c (exits p c)"

definition nothing :: "bool list \<Rightarrow> sem_sys" where
  "nothing fs = \<lparr>kern = \<lparr>ids = \<lambda>_. None, sets = \<lambda>_. None, nid = 0, refuse = fs\<rparr>, pcs = \<lambda>_. Out, asleep = \<lambda>_. False, held = \<lambda>_ _. 0\<rparr>"

definition users :: "nat \<Rightarrow> sem_sys \<Rightarrow> int \<Rightarrow> int" where
  "users n c i = (\<Sum>p<n. int (held c p i))"

inductive sreach :: "nat \<Rightarrow> bool \<Rightarrow> sem_sys \<Rightarrow> bool" for n :: nat and b :: bool where
  init: "sreach n b (nothing fs)"
| next_step: "sreach n b c \<Longrightarrow> sstep n b c c' \<Longrightarrow> (\<And>i. users n c' i < BIGCOUNT) \<Longrightarrow> sreach n b c'"

subsection \<open>The invariant\<close>

text \<open>Inside the lock of set \<open>i\<close>; about to initialise it; about to end \<open>sem_create\<close>.\<close>

definition crit :: "pc \<Rightarrow> int \<Rightarrow> bool" where
  "crit x i = (case x of
      Create (Cr_getval v j) \<Rightarrow> i = j | Create (Cr_set0 v j) \<Rightarrow> i = j | Create (Cr_set1 j) \<Rightarrow> i = j | Create (Cr_end j) \<Rightarrow> i = j
    | Close (Cl_getval j) \<Rightarrow> i = j | Close (Cl_rm j) \<Rightarrow> i = j | Close (Cl_unlock j) \<Rightarrow> i = j
    | _ \<Rightarrow> False)"

definition initing :: "pc \<Rightarrow> int \<Rightarrow> bool" where
  "initing x i = (case x of Create (Cr_set0 v j) \<Rightarrow> i = j | Create (Cr_set1 j) \<Rightarrow> i = j | _ \<Rightarrow> False)"

definition ending :: "pc \<Rightarrow> int \<Rightarrow> bool" where
  "ending x i = (case x of Create (Cr_end j) \<Rightarrow> i = j | Close (Cl_getval j) \<Rightarrow> i = j | Close (Cl_rm j) \<Rightarrow> i = j | Close (Cl_unlock j) \<Rightarrow> i = j | _ \<Rightarrow> False)"

lemma crit_simps [simp]:
  "\<not> crit Out i" "\<not> crit (Open z) i" "\<not> crit (Rm j) i" "\<not> crit (Semop j v) i"
  "\<not> crit (Create (Cr_get key v)) i" "\<not> crit (Create (Cr_lock key v j)) i"
  "crit (Create (Cr_getval v j)) i \<longleftrightarrow> i = j" "crit (Create (Cr_set0 v j)) i \<longleftrightarrow> i = j"
  "crit (Create (Cr_set1 j)) i \<longleftrightarrow> i = j" "crit (Create (Cr_end j)) i \<longleftrightarrow> i = j"
  "\<not> crit (Close (Cl_lock j)) i" "crit (Close (Cl_getval j)) i \<longleftrightarrow> i = j" "crit (Close (Cl_rm j)) i \<longleftrightarrow> i = j"
  "crit (Close (Cl_unlock j)) i \<longleftrightarrow> i = j"
  by (simp_all add: crit_def)

lemma initing_simps [simp]:
  "\<not> initing Out i" "\<not> initing (Open z) i" "\<not> initing (Rm j) i" "\<not> initing (Semop j v) i" "\<not> initing (Close y) i"
  "\<not> initing (Create (Cr_get key v)) i" "\<not> initing (Create (Cr_lock key v j)) i" "\<not> initing (Create (Cr_getval v j)) i"
  "initing (Create (Cr_set0 v j)) i \<longleftrightarrow> i = j" "initing (Create (Cr_set1 j)) i \<longleftrightarrow> i = j" "\<not> initing (Create (Cr_end j)) i"
  by (simp_all add: initing_def)

lemma ending_simps [simp]:
  "\<not> ending Out i" "\<not> ending (Open z) i" "\<not> ending (Rm j) i" "\<not> ending (Semop j v) i"
  "\<not> ending (Create (Cr_get key v)) i" "\<not> ending (Create (Cr_lock key v j)) i" "\<not> ending (Create (Cr_getval v j)) i"
  "\<not> ending (Create (Cr_set0 v j)) i" "\<not> ending (Create (Cr_set1 j)) i" "ending (Create (Cr_end j)) i \<longleftrightarrow> i = j"
  "\<not> ending (Close (Cl_lock j)) i" "ending (Close (Cl_getval j)) i \<longleftrightarrow> i = j" "ending (Close (Cl_rm j)) i \<longleftrightarrow> i = j"
  "ending (Close (Cl_unlock j)) i \<longleftrightarrow> i = j"
  by (simp_all add: ending_def)

lemma initing_crit: "initing x i \<Longrightarrow> crit x i" and ending_crit: "ending x i \<Longrightarrow> crit x i"
  by (auto simp: initing_def ending_def crit_def split: pc.splits create_pc.splits close_pc.splits)

definition inside :: "nat \<Rightarrow> sem_sys \<Rightarrow> int \<Rightarrow> int" where
  "inside n c i = (\<Sum>p<n. if crit (pcs c p) i then 1 else 0)"

definition set_ok :: "nat \<Rightarrow> sem_sys \<Rightarrow> int \<Rightarrow> semset \<Rightarrow> bool" where
  "set_ok n c i s \<longleftrightarrow>
     (\<forall>p<n. adj s p 2 = (if crit (pcs c p) i then -1 else 0)) \<and> sv s 2 = inside n c i \<and> sv s 2 \<le> 1 \<and>
     (\<forall>p<n. adj s p 1 = int (held c p i)) \<and>
     (if sv s 1 = 0 then \<forall>p<n. held c p i = 0 else sv s 1 = BIGCOUNT - users n c i) \<and>
     (\<forall>p<n. initing (pcs c p) i \<longrightarrow> sv s 1 = 0) \<and> (\<forall>p<n. ending (pcs c p) i \<longrightarrow> sv s 1 \<noteq> 0)"

definition sem_inv :: "nat \<Rightarrow> sem_sys \<Rightarrow> bool" where
  "sem_inv n c \<longleftrightarrow> (\<forall>i s. sets (kern c) i = Some s \<longrightarrow> set_ok n c i s) \<and>
     (\<forall>i. int (nid (kern c)) \<le> i \<longrightarrow> sets (kern c) i = None \<and> (\<forall>p<n. \<not> crit (pcs c p) i \<and> held c p i = 0)) \<and>
     (\<forall>i. users n c i < BIGCOUNT) \<and> (\<forall>p<n. \<forall>i. pcs c p = Close (Cl_lock i) \<longrightarrow> 0 < held c p i)"

lemma inv_init: "sem_inv n (nothing fs)"
  by (simp add: sem_inv_def nothing_def users_def BIGCOUNT_def)

lemma inside_other:
  assumes "set_ok n c i s" and "p < n" and "crit (pcs c p) i" and "q < n" and "q \<noteq> p"
  shows "\<not> crit (pcs c q) i"
proof
  assume "crit (pcs c q) i"
  let ?f = "\<lambda>p. if crit (pcs c p) i then 1 else 0 :: int"
  have "(\<Sum>v\<in>{p, q}. ?f v) = 2" using assms \<open>crit (pcs c q) i\<close> by simp
  moreover have "(\<Sum>v\<in>{p, q}. ?f v) \<le> (\<Sum>v<n. ?f v)" using assms by (intro sum_mono2) auto
  ultimately show False using assms(1) by (simp add: set_ok_def inside_def)
qed

lemma inside_one:
  assumes "set_ok n c i s" and "p < n" and "crit (pcs c p) i"
  shows "sv s 2 = 1"
proof -
  have "(if crit (pcs c p) i then 1 else 0 :: int) \<le> inside n c i" unfolding inside_def using assms(2) by (intro member_le_sum) auto
  then show ?thesis using assms by (simp add: set_ok_def)
qed

text \<open>Changing one process and one set.\<close>

lemma set_ok_step:
  assumes ok: "set_ok n c i s" and p: "p < n" and c': "pcs c' = (pcs c)(p := x)" "held c' = (held c)(p := h)"
    and a2: "\<And>q. q < n \<Longrightarrow> adj s' q 2 = (if q = p then (if crit x i then -1 else 0) else adj s q 2)"
    and v2: "sv s' 2 + (if crit (pcs c p) i then 1 else 0) = sv s 2 + (if crit x i then 1 else 0)" "sv s' 2 \<le> 1"
    and a1: "\<And>q. q < n \<Longrightarrow> adj s' q 1 = (if q = p then int (h i) else adj s q 1)"
    and v1: "sv s' 1 = 0 \<and> sv s 1 = 0 \<and> h i = 0 \<or>
       sv s' 1 \<noteq> 0 \<and> sv s 1 \<noteq> 0 \<and> sv s' 1 + int (h i) = sv s 1 + int (held c p i) \<or>
       sv s' 1 = BIGCOUNT \<and> sv s 1 = 0 \<and> h i = 0 \<and> crit (pcs c p) i"
    and x: "initing x i \<Longrightarrow> sv s' 1 = 0" "ending x i \<Longrightarrow> sv s' 1 \<noteq> 0"
  shows "set_ok n c' i s'"
proof -
  have "inside n c' i + (if crit (pcs c p) i then 1 else 0) = inside n c i + (if crit x i then 1 else 0)"
    unfolding inside_def using sum_change [OF p, of "\<lambda>q. if crit (pcs c' q) i then 1 else 0 :: int" "\<lambda>q. if crit (pcs c q) i then 1 else 0"]
    by (simp add: c')
  then have 2: "sv s' 2 = inside n c' i" using v2(1) ok by (simp add: set_ok_def)
  have u: "users n c' i + int (held c p i) = users n c i + int (h i)"
    unfolding users_def using sum_change [OF p, of "\<lambda>q. int (held c' q i)" "\<lambda>q. int (held c q i)"] by (simp add: c')
  have none: "users n c i = 0" if "sv s 1 = 0" using ok that by (simp add: set_ok_def users_def)
  have B: "BIGCOUNT \<noteq> 0" by (simp add: BIGCOUNT_def)
  have 1: "if sv s' 1 = 0 then \<forall>q<n. held c' q i = 0 else sv s' 1 = BIGCOUNT - users n c' i"
    using v1
  proof (elim disjE conjE)
    assume "sv s' 1 = BIGCOUNT" "sv s 1 = 0" "h i = 0"
    moreover have "held c p i = 0" using ok p \<open>sv s 1 = 0\<close> by (simp add: set_ok_def)
    ultimately show ?thesis using u none B by simp
  qed (use ok u in \<open>auto simp: set_ok_def c'\<close>)
  have q: "(initing (pcs c' q) i \<longrightarrow> sv s' 1 = 0) \<and> (ending (pcs c' q) i \<longrightarrow> sv s' 1 \<noteq> 0)" if "q < n" for q
  proof (cases "q = p")
    case False
    then have "\<not> crit (pcs c q) i" if "crit (pcs c p) i" using inside_other [OF ok p that \<open>q < n\<close>] by simp
    then show ?thesis using v1 False ok \<open>q < n\<close> B initing_crit ending_crit by (auto simp: set_ok_def c')
  qed (use x in \<open>simp add: c'\<close>)
  have A2: "\<forall>q<n. adj s' q 2 = (if crit (pcs c' q) i then -1 else 0)" and A1: "\<forall>q<n. adj s' q 1 = int (held c' q i)"
    using ok a1 a2 by (auto simp: set_ok_def c')
  show ?thesis unfolding set_ok_def using A2 2 v2(2) A1 1 q by blast
qed

lemma set_ok_frame:
  assumes ok: "set_ok n c i s" and p: "p < n" and c': "pcs c' = (pcs c)(p := x)" "held c' = (held c)(p := h)"
    and same: "crit x i = crit (pcs c p) i" "initing x i \<Longrightarrow> initing (pcs c p) i" "ending x i \<Longrightarrow> ending (pcs c p) i" "h i = held c p i"
  shows "set_ok n c' i s"
  by (rule set_ok_step [OF ok p c']) (use ok p same in \<open>auto simp: set_ok_def split: if_splits\<close>)

subsection \<open>Every step keeps the invariant\<close>

lemma moves_to_fields [simp]:
  "kern (moves_to p k x z h c) = k" "pcs (moves_to p k x z h c) = (pcs c)(p := x)" "held (moves_to p k x z h c) = (held c)(p := h)"
  by (simp_all add: moves_to_def)

lemma invD:
  assumes "sem_inv n c"
  shows "sets (kern c) i = Some s \<Longrightarrow> set_ok n c i s" and "users n c i < BIGCOUNT"
    and "int (nid (kern c)) \<le> i \<Longrightarrow> sets (kern c) i = None"
    and "int (nid (kern c)) \<le> i \<Longrightarrow> p < n \<Longrightarrow> \<not> crit (pcs c p) i \<and> held c p i = 0"
    and "p < n \<Longrightarrow> pcs c p = Close (Cl_lock i) \<Longrightarrow> 0 < held c p i"
  using assms unfolding sem_inv_def by blast+

lemma inv_move:
  assumes I: "sem_inv n c" and p: "p < n"
    and frame: "\<And>i s. sets k i = Some s \<Longrightarrow> i \<noteq> j \<Longrightarrow> sets (kern c) i = Some s"
    and pc: "\<And>i. i \<noteq> j \<Longrightarrow> crit x i = crit (pcs c p) i \<and> (initing x i \<longrightarrow> initing (pcs c p) i) \<and> (ending x i \<longrightarrow> ending (pcs c p) i)"
    and h: "\<And>i. i \<noteq> j \<Longrightarrow> h i = held c p i"
    and at_j: "\<And>s. sets k j = Some s \<Longrightarrow> set_ok n (moves_to p k x z h c) j s"
    and new: "\<And>i. int (nid k) \<le> i \<Longrightarrow> sets k i = None \<and> \<not> crit x i \<and> h i = 0" "nid (kern c) \<le> nid k"
    and small: "\<And>i. users n (moves_to p k x z h c) i < BIGCOUNT"
    and cl: "\<And>i. x = Close (Cl_lock i) \<Longrightarrow> 0 < h i"
  shows "sem_inv n (moves_to p k x z h c)"
  unfolding sem_inv_def
proof (intro conjI allI impI)
  fix i s assume "sets (kern (moves_to p k x z h c)) i = Some s"
  then show "set_ok n (moves_to p k x z h c) i s"
    using at_j set_ok_frame [OF invD(1) [OF I] p, of i s "moves_to p k x z h c" x h] frame pc h by (cases "i = j") auto
qed (use new small cl invD(4,5) [OF I] in auto)

text \<open>Steps that leave the kernel's sets alone.\<close>

lemma inv_same:
  assumes I: "sem_inv n c" and p: "p < n" and k: "sets k = sets (kern c)" "nid k = nid (kern c)"
    and pc: "\<And>i. crit x i = crit (pcs c p) i"
    and sv: "\<And>i s. sets k i = Some s \<Longrightarrow> (initing x i \<longrightarrow> sv s 1 = 0) \<and> (ending x i \<longrightarrow> sv s 1 \<noteq> 0)"
    and cl: "\<And>i. x = Close (Cl_lock i) \<Longrightarrow> 0 < held c p i"
  shows "sem_inv n (moves_to p k x z (held c p) c)"
  unfolding sem_inv_def
proof (intro conjI allI impI)
  fix i s assume s: "sets (kern (moves_to p k x z (held c p) c)) i = Some s"
  then have ok: "set_ok n c i s" using invD(1) [OF I, of i s] k by simp
  show "set_ok n (moves_to p k x z (held c p) c) i s"
    by (rule set_ok_step [OF ok p, where x = x and h = "held c p"]) (use ok p pc sv s in \<open>auto simp: set_ok_def split: if_splits\<close>)
next
  fix i show "users n (moves_to p k x z (held c p) c) i < BIGCOUNT" using invD(2) [OF I, of i] by (simp add: users_def)
next
  fix q i assume "q < n" "pcs (moves_to p k x z (held c p) c) q = Close (Cl_lock i)"
  then show "0 < held (moves_to p k x z (held c p) c) q i" using cl [of i] invD(5) [OF I, of q i] by (cases "q = p") simp_all
qed (use k pc p invD(3,4) [OF I] in auto)

lemma undo_sets: "sets (sem_exit p k) i = map_option (undo_set p) (sets k i)" "nid (sem_exit p k) = nid k"
  by (simp_all add: sem_exit_def)

lemma set_ok_users:
  assumes "sem_inv n c" and "set_ok n c i s" and "p < n"
  shows "0 \<le> sv s 1" "sv s 1 \<le> BIGCOUNT" "sv s 1 = 0 \<Longrightarrow> held c p i = 0" "sv s 1 \<noteq> 0 \<Longrightarrow> sv s 1 = BIGCOUNT - users n c i"
    "sv s 1 + int (held c p i) \<le> BIGCOUNT"
proof -
  have u: "users n c i < BIGCOUNT" "int (held c p i) \<le> users n c i"
    using invD(2) [OF assms(1)] assms(3) by (auto simp: users_def intro!: member_le_sum)
  then show "0 \<le> sv s 1" "sv s 1 \<le> BIGCOUNT" "sv s 1 = 0 \<Longrightarrow> held c p i = 0" "sv s 1 \<noteq> 0 \<Longrightarrow> sv s 1 = BIGCOUNT - users n c i"
    "sv s 1 + int (held c p i) \<le> BIGCOUNT"
    using assms(2,3) by (auto simp: set_ok_def BIGCOUNT_def split: if_splits)
qed

lemma inv_exit:
  assumes I: "sem_inv n c" and p: "p < n"
  shows "sem_inv n (exits p c)"
  unfolding sem_inv_def
proof (intro conjI allI impI)
  fix i s' assume "sets (kern (exits p c)) i = Some s'"
  then obtain s where s: "sets (kern c) i = Some s" "s' = undo_set p s" by (auto simp: exits_def undo_sets)
  then have ok: "set_ok n c i s" using invD(1) [OF I] by blast
  note u = set_ok_users [OF I ok p]
  have a: "adj s p 1 = int (held c p i)" "adj s p 2 = (if crit (pcs c p) i then -1 else 0)" using ok p by (auto simp: set_ok_def)
  have 2: "sv s 2 = 1 \<or> \<not> crit (pcs c p) i" using inside_one [OF ok p] by blast
  have 0: "0 \<le> sv s 2" "sv s 2 \<le> 1" using ok by (auto simp: set_ok_def inside_def intro!: sum_nonneg)
  show "set_ok n (exits p c) i s'"
  proof (rule set_ok_step [OF ok p, where x = Out and h = "\<lambda>_. 0"])
    show "sv s' 1 = 0 \<and> sv s 1 = 0 \<and> (0::nat) = 0 \<or> sv s' 1 \<noteq> 0 \<and> sv s 1 \<noteq> 0 \<and> sv s' 1 + int 0 = sv s 1 + int (held c p i) \<or>
      sv s' 1 = BIGCOUNT \<and> sv s 1 = 0 \<and> (0::nat) = 0 \<and> crit (pcs c p) i"
      using u a by (cases "sv s 1 = 0") (auto simp: s undo_set_def)
  qed (use a 0 2 in \<open>auto simp: s undo_set_def exits_def\<close>)
next
  fix i
  have "users n (exits p c) i \<le> users n c i" unfolding users_def by (intro sum_mono) (simp add: exits_def)
  then show "users n (exits p c) i < BIGCOUNT" using invD(2) [OF I, of i] by simp
qed (use invD(3,4,5) [OF I] in \<open>auto simp: exits_def undo_sets\<close>)

text \<open>The operations of the library on a set.\<close>

lemma run_lock: "run_ops p op_lock s = (if sv s 2 = 0 then Done (one_op p (Sembuf 2 1 True) s) else Blocked)"
  by (simp add: op_lock_def)

lemma run_open: "run_ops p op_open s = Done t \<Longrightarrow> 0 < sv s 1 \<and> t = one_op p (Sembuf 1 (-1) True) s"
  by (simp add: op_open_def split: if_splits)

lemma run_endcreate:
  "run_ops p op_endcreate s = Done t \<Longrightarrow> 0 < sv s 1 \<and> t = one_op p (Sembuf 2 (-1) True) (one_op p (Sembuf 1 (-1) True) s)"
  by (simp add: op_endcreate_def split: if_splits)

lemma run_close:
  "run_ops p op_close s = Done t \<Longrightarrow> sv s 2 = 0 \<and> t = one_op p (Sembuf 1 1 True) (one_op p (Sembuf 2 1 True) s)"
  by (simp add: op_close_def split: if_splits)

lemma run_unlock: "run_ops p op_unlock s = Done t \<Longrightarrow> t = one_op p (Sembuf 2 (-1) True) s"
  by (simp add: op_unlock_def split: if_splits)

lemma one_op_simps [simp]:
  "sv (one_op p (Sembuf m v True) s) j = sv s j + (if j = m then v else 0)"
  "adj (one_op p (Sembuf m v True) s) q j = adj s q j - (if q = p \<and> j = m then v else 0)"
  by (simp_all add: one_op_def)

lemma run_op:
  assumes "run_ops p (op_op v) s = Done t"
  shows "sv t j = sv s j + (if j = 0 then v else 0)" "adj t q j = adj s q j - (if q = p \<and> j = 0 then v else 0)"
  using assms by (auto simp: op_op_def split: if_splits)

lemma semop_Val:
  assumes "semop p z i bs k = (Val r, k')"
  obtains s t where "sets k i = Some s" "run_ops p bs s = Done t" "k' = k\<lparr>sets := (sets k)(i \<mapsto> t)\<rparr>"
  using assms by (auto simp: semop_def split: option.splits ops_result.splits)

lemma semop_not_Val: "semop p z i bs k = (Errno e, k') \<Longrightarrow> k' = k" "semop p z i bs k = (Sleep, k') \<Longrightarrow> k' = k"
  by (auto simp: semop_def split: option.splits ops_result.splits)

lemma setval_Val:
  assumes "setval i j v k = (Val r, k')"
  obtains s where "sets k i = Some s" "k' = k\<lparr>sets := (sets k)(i \<mapsto> s\<lparr>sv := (sv s)(j := v), adj := (\<lambda>p. (adj s p)(j := 0))\<rparr>)\<rparr>"
  using assms by (auto simp: setval_def split: option.splits if_splits)

lemma setval_not_Val: "setval i j v k = (Errno e, k') \<Longrightarrow> k' = k" "setval i j v k = (Sleep, k') \<Longrightarrow> k' = k"
  by (auto simp: setval_def split: option.splits if_splits)

lemma getval_Val: "getval i j k = Val r \<longleftrightarrow> (\<exists>s. sets k i = Some s \<and> r = sv s j)"
  by (auto simp: getval_def split: option.splits)

lemma rmid_Val:
  assumes "rmid i k = (Val r, k')"
  shows "sets k' = (sets k)(i := None) \<and> nid k' = nid k"
  using assms by (auto simp: rmid_def split: option.splits)

lemma rmid_not_Val: "rmid i k = (Errno e, k') \<Longrightarrow> k' = k" "rmid i k = (Sleep, k') \<Longrightarrow> k' = k"
  by (auto simp: rmid_def split: option.splits)

lemma semget_same:
  assumes "semget key creat k = (a, k')"
  shows "sets k' = sets k \<and> nid k' = nid k \<or>
    creat \<and> a = Val (int (nid k)) \<and> sets k' = (sets k)(int (nid k) \<mapsto> new_set) \<and> nid k' = Suc (nid k)"
  using assms by (auto simp: semget_def Let_def split: list.splits bool.splits option.splits if_splits)

text \<open>A step that ends the process or has to wait changes nothing.\<close>

lemma stuck_same:
  assumes "pc_step p z x k = (k', y)" and "y = Wait \<or> (\<exists>r. y = Dies r)"
  shows "k' = k"
proof (cases x)
  case (Create u)
  then obtain y' where "create_step p z u k = (k', y')" "y' = Wait \<or> (\<exists>r. y' = Dies r)"
    using assms by (cases "create_step p z u k") (auto simp: map_step_iff)
  then show ?thesis
    by (cases u) (auto split: prod.splits answer.splits if_splits dest: semop_not_Val setval_not_Val)
next
  case (Open u)
  then obtain y' where "open_step p z u k = (k', y')" "y' = Wait \<or> (\<exists>r. y' = Dies r)"
    using assms by (cases "open_step p z u k") (auto simp: map_step_iff)
  then show ?thesis
    by (cases u) (auto split: prod.splits answer.splits if_splits dest: semop_not_Val)
next
  case (Close u)
  then obtain y' where "close_step p z u k = (k', y')" "y' = Wait \<or> (\<exists>r. y' = Dies r)"
    using assms by (cases "close_step p z u k") (auto simp: map_step_iff)
  then show ?thesis
    by (cases u) (auto simp: rm_step_def split: prod.splits answer.splits if_splits dest: semop_not_Val rmid_not_Val)
qed (use assms in \<open>auto simp: rm_step_def op_step_def split: prod.splits answer.splits dest: semop_not_Val rmid_not_Val\<close>)

text \<open>A step of process \<open>p\<close> that changes set \<open>j\<close> from \<open>s\<close> to \<open>s'\<close>.\<close>

lemma inv_set:
  assumes I: "sem_inv n c" and p: "p < n" and s: "sets (kern c) j = Some s"
    and k: "sets k = (sets (kern c))(j \<mapsto> s')" "nid k = nid (kern c)"
    and pc: "\<And>i. i \<noteq> j \<Longrightarrow> \<not> crit x i \<and> \<not> crit (pcs c p) i"
    and h: "\<And>i. i \<noteq> j \<Longrightarrow> h i = held c p i"
    and small: "\<And>i. users n (moves_to p k x z h c) i < BIGCOUNT"
    and cl: "\<And>i. x \<noteq> Close (Cl_lock i)"
    and a2: "\<And>q. q < n \<Longrightarrow> adj s' q 2 = (if q = p then (if crit x j then -1 else 0) else adj s q 2)"
    and v2: "sv s' 2 + (if crit (pcs c p) j then 1 else 0) = sv s 2 + (if crit x j then 1 else 0)" "sv s' 2 \<le> 1"
    and a1: "\<And>q. q < n \<Longrightarrow> adj s' q 1 = (if q = p then int (h j) else adj s q 1)"
    and v1: "sv s' 1 = 0 \<and> sv s 1 = 0 \<and> h j = 0 \<or>
       sv s' 1 \<noteq> 0 \<and> sv s 1 \<noteq> 0 \<and> sv s' 1 + int (h j) = sv s 1 + int (held c p j) \<or>
       sv s' 1 = BIGCOUNT \<and> sv s 1 = 0 \<and> h j = 0 \<and> crit (pcs c p) j"
    and x: "initing x j \<Longrightarrow> sv s' 1 = 0" "ending x j \<Longrightarrow> sv s' 1 \<noteq> 0"
  shows "sem_inv n (moves_to p k x z h c)"
proof (rule inv_move [OF I p, where j = j])
  have "set_ok n (moves_to p k x z h c) j s'"
    by (rule set_ok_step [OF invD(1) [OF I s] p moves_to_fields(2,3)]) (fact a2 v2 a1 v1 x)+
  then show "set_ok n (moves_to p k x z h c) j t" if "sets k j = Some t" for t using that k by simp
  fix i assume "int (nid k) \<le> i"
  moreover have "j < int (nid (kern c))" using invD(3) [OF I, of j] s by (metis linorder_not_le option.discI)
  ultimately show "sets k i = None \<and> \<not> crit x i \<and> h i = 0" using k pc h invD(3,4) [OF I] p by fastforce
next
  fix i assume "i \<noteq> j"
  then have "\<not> initing x i" "\<not> ending x i" using pc initing_crit ending_crit by blast+
  then show "crit x i = crit (pcs c p) i \<and> (initing x i \<longrightarrow> initing (pcs c p) i) \<and> (ending x i \<longrightarrow> ending (pcs c p) i)"
    using pc [OF \<open>i \<noteq> j\<close>] by simp
qed (use k h small cl in \<open>auto split: if_splits\<close>)

lemma users_same [simp]: "users n (moves_to p k x z (held c p) c) i = users n c i"
  by (simp add: users_def)

lemma set_okD:
  assumes "set_ok n c i s"
  shows "q < n \<Longrightarrow> adj s q 2 = (if crit (pcs c q) i then -1 else 0)" "sv s 2 \<le> 1" "q < n \<Longrightarrow> adj s q 1 = int (held c q i)"
    "q < n \<Longrightarrow> initing (pcs c q) i \<Longrightarrow> sv s 1 = 0" "q < n \<Longrightarrow> ending (pcs c q) i \<Longrightarrow> sv s 1 \<noteq> 0"
    "sv s 1 = 0 \<Longrightarrow> q < n \<Longrightarrow> held c q i = 0"
  using assms by (auto simp: set_ok_def)

text \<open>The same when the references do not change.\<close>

lemma inv_set_same:
  assumes I: "sem_inv n c" and p: "p < n" and s: "sets (kern c) j = Some s"
    and k: "sets k = (sets (kern c))(j \<mapsto> s')" "nid k = nid (kern c)"
    and pc: "\<And>i. i \<noteq> j \<Longrightarrow> \<not> crit x i \<and> \<not> crit (pcs c p) i" and cl: "\<And>i. x \<noteq> Close (Cl_lock i)"
    and a2: "\<And>q. adj s' q 2 = (if q = p then (if crit x j then -1 else 0) else adj s q 2)"
    and v2: "sv s' 2 + (if crit (pcs c p) j then 1 else 0) = sv s 2 + (if crit x j then 1 else 0)" "sv s' 2 \<le> 1"
    and a1: "\<And>q. q < n \<Longrightarrow> adj s' q 1 = adj s q 1"
    and v1: "sv s' 1 = sv s 1 \<or> sv s' 1 = BIGCOUNT \<and> sv s 1 = 0 \<and> crit (pcs c p) j"
    and x: "initing x j \<Longrightarrow> sv s' 1 = 0" "ending x j \<Longrightarrow> sv s' 1 \<noteq> 0"
  shows "sem_inv n (moves_to p k x z (held c p) c)"
proof (rule inv_set [OF I p s k pc])
  note D = set_okD [OF invD(1) [OF I s]]
  show "users n (moves_to p k x z (held c p) c) i < BIGCOUNT" for i using invD(2) [OF I] by simp
  show "adj s' q 1 = (if q = p then int (held c p j) else adj s q 1)" if "q < n" for q using a1 [OF that] D(3) [OF that] by simp
  show "sv s' 1 = 0 \<and> sv s 1 = 0 \<and> held c p j = 0 \<or> sv s' 1 \<noteq> 0 \<and> sv s 1 \<noteq> 0 \<and> sv s' 1 + int (held c p j) = sv s 1 + int (held c p j) \<or>
      sv s' 1 = BIGCOUNT \<and> sv s 1 = 0 \<and> held c p j = 0 \<and> crit (pcs c p) j" using v1 D(6) [OF _ p] by (cases "sv s 1 = 0") auto
qed (use cl a2 v2 x in auto)

text \<open>A step that removes set \<open>j\<close>.\<close>

lemma inv_remove:
  assumes I: "sem_inv n c" and p: "p < n" and k: "sets k = (sets (kern c))(j := None)" "nid k = nid (kern c)"
    and pc: "\<And>i. i \<noteq> j \<Longrightarrow> \<not> crit (pcs c p) i"
  shows "sem_inv n (moves_to p k Out z (held c p) c)"
  by (rule inv_move [OF I p, where j = j])
    (use k pc invD [OF I] p in \<open>auto split: if_splits\<close>)

lemma after_step_simps:
  "after_step p k (Go x) c = moves_to p k x False (\<lambda>i. held c p i - given (pcs c p) (Go x) i) c"
  "after_step p k (Return v) c = moves_to p k Out False (\<lambda>i. held c p i + taken (pcs c p) (Return v) i) c"
  "after_step p k Wait c = moves_to p k (pcs c p) True (held c p) c"
  "after_step p k (Dies r) c = exits p (c\<lparr>kern := k\<rparr>)"
  by (simp_all add: after_step_def advance_def taken_def given_def)

lemmas change_defs = taken_def given_def

lemma inv_get:
  assumes I: "sem_inv n c" and p: "p < n" and x: "\<And>i. \<not> crit (pcs c p) i" "\<And>i. \<not> crit x i" "\<And>i. x \<noteq> Close (Cl_lock i)"
    and g: "semget key creat (kern c) = (a, k)"
  shows "sem_inv n (moves_to p k x z (held c p) c)"
proof -
  have nx: "\<not> initing x i" "\<not> ending x i" for i using x(2) initing_crit ending_crit by blast+
  from semget_same [OF g] show ?thesis
  proof (elim disjE conjE)
    assume "sets k = sets (kern c)" "nid k = nid (kern c)"
    then show ?thesis by (rule inv_same [OF I p]) (use x nx in auto)
  next
    let ?j = "int (nid (kern c))"
    assume k: "sets k = (sets (kern c))(?j \<mapsto> new_set)" "nid k = Suc (nid (kern c))"
    have new: "\<not> crit (pcs c q) ?j \<and> held c q ?j = 0" if "q < n" for q using invD(4) [OF I, of ?j q] that by simp
    then have ne: "\<not> initing (pcs c q) ?j \<and> \<not> ending (pcs c q) ?j" if "q < n" for q using that initing_crit ending_crit by blast
    have "\<not> crit (pcs (moves_to p k x z (held c p) c) q) ?j" if "q < n" for q using new [OF that] x(2) by simp
    then have "inside n (moves_to p k x z (held c p) c) ?j = 0" unfolding inside_def by (intro sum.neutral) simp
    then have "set_ok n (moves_to p k x z (held c p) c) ?j new_set"
      using new ne x nx by (auto simp: set_ok_def new_set_def)
    then show ?thesis
      by (intro inv_move [OF I p, where j = ?j]) (use k x nx invD [OF I] p in \<open>auto simp: users_def split: if_splits\<close>)
  qed
qed

lemma create_inv:
  assumes I: "sem_inv n c" and p: "p < n" "pcs c p = Create u" and y: "create_step p z u (kern c) = (k, y)"
    and go: "y \<noteq> Wait" "\<And>r. y \<noteq> Dies r"
    and small: "\<And>i. users n (after_step p k (map_step Create y) c) i < BIGCOUNT"
  shows "sem_inv n (after_step p k (map_step Create y) c)"
proof (cases u)
  case (Cr_get key v)
  obtain a where g: "semget key True (kern c) = (a, k)" "y = (case a of Val i \<Rightarrow> Go (Cr_lock key v i) | _ \<Rightarrow> Return (-1))"
    using y Cr_get by (auto split: prod.splits answer.splits)
  have c: "\<not> crit (pcs c p) i" for i using p(2) Cr_get by simp
  show ?thesis using g(2) p(2) Cr_get inv_get [OF I p(1) c _ _ g(1)]
    by (cases a) (simp_all add: after_step_simps change_defs)
next
  case (Cr_lock key v j)
  consider "k = kern c" "y = Go (Cr_get key v)" | r where "semop p z j op_lock (kern c) = (Val r, k)" "y = Go (Cr_getval v j)"
    using y go Cr_lock by (auto split: prod.splits answer.splits if_splits dest: semop_not_Val)
  then show ?thesis
  proof cases
    case 1
    have "sem_inv n (moves_to p (kern c) (Create (Cr_get key v)) False (held c p) c)"
      by (rule inv_same [OF I p(1)]) (use p(2) Cr_lock in auto)
    then show ?thesis using 1 p(2) Cr_lock by (simp add: after_step_simps change_defs)
  next
    case 2
    obtain s t where s: "sets (kern c) j = Some s" "run_ops p op_lock s = Done t" "k = (kern c)\<lparr>sets := (sets (kern c))(j \<mapsto> t)\<rparr>"
      using 2(1) by (rule semop_Val)
    have t: "sv s 2 = 0" "t = one_op p (Sembuf 2 1 True) s" using s(2) by (simp_all add: run_lock split: if_splits)
    have ok: "set_ok n c j s" using invD(1) [OF I s(1)] .
    have "sem_inv n (moves_to p k (Create (Cr_getval v j)) False (held c p) c)"
      by (rule inv_set_same [OF I p(1) s(1), where s' = t])
        (use s(3) p(2) Cr_lock set_okD(1) [OF ok p(1)] t in simp_all)
    then show ?thesis using 2 p(2) Cr_lock by (simp add: after_step_simps change_defs)
  qed
next
  case (Cr_getval v j)
  obtain r where r: "getval j 1 (kern c) = Val r" using y go(2) Cr_getval by (cases "getval j 1 (kern c)") auto
  then have ky: "k = kern c" "y = Go (if r = 0 then Cr_set0 v j else Cr_end j)" using y Cr_getval by simp_all
  obtain s' where s': "sets (kern c) j = Some s'" "r = sv s' 1" using r unfolding getval_Val by blast
  note s = s'(1) ky
  have "sem_inv n (moves_to p k (Create (if r = 0 then Cr_set0 v j else Cr_end j)) False (held c p) c)"
    by (rule inv_same [OF I p(1)]) (use s s'(2) p(2) Cr_getval in auto)
  then show ?thesis using s p(2) Cr_getval by (simp add: after_step_simps change_defs)
next
  case (Cr_set0 v j)
  then obtain r where r: "setval j 0 v (kern c) = (Val r, k)" "y = Go (Cr_set1 j)"
    using y go by (auto split: prod.splits answer.splits)
  obtain s where s: "sets (kern c) j = Some s"
    "k = (kern c)\<lparr>sets := (sets (kern c))(j \<mapsto> s\<lparr>sv := (sv s)(0 := v), adj := (\<lambda>p. (adj s p)(0 := 0))\<rparr>)\<rparr>"
    using r(1) by (rule setval_Val)
  have ok: "set_ok n c j s" using invD(1) [OF I s(1)] .
  have "sem_inv n (moves_to p k (Create (Cr_set1 j)) False (held c p) c)"
    by (rule inv_set_same [OF I p(1) s(1), where s' = "s\<lparr>sv := (sv s)(0 := v), adj := (\<lambda>p. (adj s p)(0 := 0))\<rparr>"])
      (use s(2) p(2) Cr_set0 set_okD(1,2,4) [OF ok] p(1) in simp_all)
  then show ?thesis using r p(2) Cr_set0 by (simp add: after_step_simps change_defs)
next
  case (Cr_set1 j)
  then obtain r where r: "setval j 1 BIGCOUNT (kern c) = (Val r, k)" "y = Go (Cr_end j)"
    using y go by (auto split: prod.splits answer.splits)
  obtain s where s: "sets (kern c) j = Some s"
    "k = (kern c)\<lparr>sets := (sets (kern c))(j \<mapsto> s\<lparr>sv := (sv s)(1 := BIGCOUNT), adj := (\<lambda>p. (adj s p)(1 := 0))\<rparr>)\<rparr>"
    using r(1) by (rule setval_Val)
  have ok: "set_ok n c j s" using invD(1) [OF I s(1)] .
  then have z: "sv s 1 = 0" "\<forall>q<n. held c q j = 0 \<and> adj s q 1 = 0" using p Cr_set1 by (auto simp: set_ok_def split: if_splits)
  have B: "BIGCOUNT \<noteq> 0" by (simp add: BIGCOUNT_def)
  have "sem_inv n (moves_to p k (Create (Cr_end j)) False (held c p) c)"
    by (rule inv_set_same [OF I p(1) s(1), where s' = "s\<lparr>sv := (sv s)(1 := BIGCOUNT), adj := (\<lambda>p. (adj s p)(1 := 0))\<rparr>"])
      (use s(2) p Cr_set1 set_okD(1,2) [OF ok] z B in simp_all)
  then show ?thesis using r p(2) Cr_set1 by (simp add: after_step_simps change_defs)
next
  case (Cr_end j)
  then obtain r where r: "semop p z j op_endcreate (kern c) = (Val r, k)" "y = Return j"
    using y go by (auto split: prod.splits answer.splits)
  obtain s t where s: "sets (kern c) j = Some s" "run_ops p op_endcreate s = Done t" "k = (kern c)\<lparr>sets := (sets (kern c))(j \<mapsto> t)\<rparr>"
    using r(1) by (rule semop_Val)
  have t: "0 < sv s 1" "t = one_op p (Sembuf 2 (-1) True) (one_op p (Sembuf 1 (-1) True) s)" using run_endcreate [OF s(2)] by simp_all
  have ok: "set_ok n c j s" using invD(1) [OF I s(1)] .
  let ?h = "(held c p)(j := held c p j + 1)"
  have st: "after_step p k (map_step Create y) c = moves_to p k Out False ?h c"
    using r p(2) Cr_end by (auto simp: after_step_simps change_defs fun_eq_iff intro!: arg_cong [where f = "\<lambda>h. moves_to p k Out False h c"])
  have "users n (moves_to p k Out False ?h c) j = users n c j + 1"
    unfolding users_def using sum_change [OF p(1), of "\<lambda>q. int (held (moves_to p k Out False ?h c) q j)" "\<lambda>q. int (held c q j)"] by simp
  then have "users n c j + 1 < BIGCOUNT" using small [of j] st by simp
  then have "sv s 1 \<noteq> 1" using set_ok_users(4) [OF I ok p(1)] t(1) by auto
  moreover have "users n (moves_to p k Out False ?h c) i < BIGCOUNT" for i using small [of i] st by simp
  ultimately have "sem_inv n (moves_to p k Out False ?h c)"
    by (intro inv_set [OF I p(1) s(1), where s' = t])
      (use s(3) t p Cr_end inside_one [OF ok p(1)] set_okD(1,3) [OF ok] in simp_all)
  then show ?thesis using st by simp
qed

text \<open>One more reference to set \<open>j\<close>, with \<open>users\<close> below the limit.\<close>

lemma one_more_user:
  assumes I: "sem_inv n c" and p: "p < n" and ok: "set_ok n c j s" and v: "0 < sv s 1"
    and small: "users n (moves_to p k x z ((held c p)(j := held c p j + 1)) c) j < BIGCOUNT"
  shows "sv s 1 \<noteq> 1"
proof -
  let ?h = "(held c p)(j := held c p j + 1)"
  have "users n (moves_to p k x z ?h c) j = users n c j + 1"
    unfolding users_def using sum_change [OF p, of "\<lambda>q. int (held (moves_to p k x z ?h c) q j)" "\<lambda>q. int (held c q j)"] by simp
  then show ?thesis using small set_ok_users(4) [OF I ok p] v by auto
qed

lemma open_inv:
  assumes I: "sem_inv n c" and p: "p < n" "pcs c p = Open u" and y: "open_step p z u (kern c) = (k, y)"
    and go: "y \<noteq> Wait" "\<And>r. y \<noteq> Dies r"
    and small: "\<And>i. users n (after_step p k (map_step Open y) c) i < BIGCOUNT"
  shows "sem_inv n (after_step p k (map_step Open y) c)"
proof (cases u)
  case (Op_get key)
  obtain a where g: "semget key False (kern c) = (a, k)" "y = (case a of Val i \<Rightarrow> Go (Op_dec i) | _ \<Rightarrow> Return (-1))"
    using y Op_get by (auto split: prod.splits answer.splits)
  have c: "\<not> crit (pcs c p) i" for i using p(2) Op_get by simp
  show ?thesis using g(2) p(2) Op_get inv_get [OF I p(1) c _ _ g(1)]
    by (cases a) (simp_all add: after_step_simps change_defs)
next
  case (Op_dec j)
  then obtain r where r: "semop p z j op_open (kern c) = (Val r, k)" "y = Return j"
    using y go by (auto split: prod.splits answer.splits)
  obtain s t where s: "sets (kern c) j = Some s" "run_ops p op_open s = Done t" "k = (kern c)\<lparr>sets := (sets (kern c))(j \<mapsto> t)\<rparr>"
    using r(1) by (rule semop_Val)
  have t: "0 < sv s 1" "t = one_op p (Sembuf 1 (-1) True) s" using run_open [OF s(2)] by simp_all
  have ok: "set_ok n c j s" using invD(1) [OF I s(1)] .
  let ?h = "(held c p)(j := held c p j + 1)"
  have st: "after_step p k (map_step Open y) c = moves_to p k Out False ?h c"
    using r p(2) Op_dec by (auto simp: after_step_simps change_defs fun_eq_iff intro!: arg_cong [where f = "\<lambda>h. moves_to p k Out False h c"])
  have us: "users n (moves_to p k Out False ?h c) i < BIGCOUNT" for i using small [of i] st by simp
  then have "sv s 1 \<noteq> 1" using one_more_user [OF I p(1) ok t(1)] by blast
  then have "sem_inv n (moves_to p k Out False ?h c)"
    by (intro inv_set [OF I p(1) s(1), where s' = t]) (use s(3) t p Op_dec us set_okD(1,2,3) [OF ok] in simp_all)
  then show ?thesis using st by simp
qed

lemma close_inv:
  assumes I: "sem_inv n c" and p: "p < n" "pcs c p = Close u" and y: "close_step p z u (kern c) = (k, y)"
    and go: "y \<noteq> Wait" "\<And>r. y \<noteq> Dies r"
    and small: "\<And>i. users n (after_step p k (map_step Close y) c) i < BIGCOUNT"
  shows "sem_inv n (after_step p k (map_step Close y) c)"
proof (cases u)
  case (Cl_lock j)
  then obtain r where r: "semop p z j op_close (kern c) = (Val r, k)" "y = Go (Cl_getval j)"
    using y go by (auto split: prod.splits answer.splits)
  obtain s t where s: "sets (kern c) j = Some s" "run_ops p op_close s = Done t" "k = (kern c)\<lparr>sets := (sets (kern c))(j \<mapsto> t)\<rparr>"
    using r(1) by (rule semop_Val)
  have t: "sv s 2 = 0" "t = one_op p (Sembuf 1 1 True) (one_op p (Sembuf 2 1 True) s)" using run_close [OF s(2)] by simp_all
  have ok: "set_ok n c j s" using invD(1) [OF I s(1)] .
  have hd: "0 < held c p j" using invD(5) [OF I p(1)] p(2) Cl_lock by simp
  then have v: "0 < sv s 1" using set_ok_users(1,3) [OF I ok p(1)] by fastforce
  let ?h = "(held c p)(j := held c p j - 1)" and ?x = "Close (Cl_getval j)"
  have st: "after_step p k (map_step Close y) c = moves_to p k ?x False ?h c"
    using r p(2) Cl_lock by (auto simp: after_step_simps change_defs fun_eq_iff intro!: arg_cong [where f = "\<lambda>h. moves_to p k ?x False h c"])
  have us: "users n (moves_to p k ?x False ?h c) i < BIGCOUNT" for i using small [of i] st by simp
  have "sem_inv n (moves_to p k ?x False ?h c)"
    by (rule inv_set [OF I p(1) s(1), where s' = t])
      (use s(3) t p Cl_lock us v hd set_okD(1,3) [OF ok] in \<open>simp_all add: of_nat_diff\<close>)
  then show ?thesis using st by simp
next
  case (Cl_getval j)
  obtain r where r: "getval j 1 (kern c) = Val r" using y go(2) Cl_getval by (cases "getval j 1 (kern c)") auto
  then have ky: "k = kern c" "y = Go (if r = BIGCOUNT then Cl_rm j else Cl_unlock j)"
    using y go(2) Cl_getval by (auto split: if_splits)
  obtain s where s: "sets (kern c) j = Some s" "r = sv s 1" using r unfolding getval_Val by blast
  have "sv s 1 \<noteq> 0" using set_okD(5) [OF invD(1) [OF I s(1)] p(1)] p(2) Cl_getval by simp
  then have "sem_inv n (moves_to p k (Close (if r = BIGCOUNT then Cl_rm j else Cl_unlock j)) False (held c p) c)"
    by (intro inv_same [OF I p(1)]) (use s ky p(2) Cl_getval in \<open>auto split: if_splits\<close>)
  then show ?thesis using ky p(2) Cl_getval by (simp add: after_step_simps change_defs)
next
  case (Cl_rm j)
  then obtain r where r: "rmid j (kern c) = (Val r, k)" "y = Return 0"
    using y go by (auto simp: rm_step_def split: prod.splits answer.splits)
  have "sem_inv n (moves_to p k Out False (held c p) c)"
    by (rule inv_remove [OF I p(1), where j = j]) (use rmid_Val [OF r(1)] p(2) Cl_rm in auto)
  then show ?thesis using r p(2) Cl_rm by (simp add: after_step_simps change_defs)
next
  case (Cl_unlock j)
  then obtain r where r: "semop p z j op_unlock (kern c) = (Val r, k)" "y = Return 0"
    using y go by (auto split: prod.splits answer.splits)
  obtain s t where s: "sets (kern c) j = Some s" "run_ops p op_unlock s = Done t" "k = (kern c)\<lparr>sets := (sets (kern c))(j \<mapsto> t)\<rparr>"
    using r(1) by (rule semop_Val)
  have t: "t = one_op p (Sembuf 2 (-1) True) s" using run_unlock [OF s(2)] .
  have ok: "set_ok n c j s" using invD(1) [OF I s(1)] .
  have "sem_inv n (moves_to p k Out False (held c p) c)"
    by (rule inv_set_same [OF I p(1) s(1), where s' = t])
      (use s(3) t p Cl_unlock set_okD(1,2) [OF ok] in simp_all)
  then show ?thesis using r p(2) Cl_unlock by (simp add: after_step_simps change_defs)
qed

lemma op_inv:
  assumes I: "sem_inv n c" and p: "p < n" "pcs c p = Semop j v" and y: "op_step p z j v (kern c) = (k, y)"
    and go: "y \<noteq> Wait" "\<And>r. y \<noteq> Dies r"
  shows "sem_inv n (after_step p k y c)"
proof -
  obtain r where r: "semop p z j (op_op v) (kern c) = (Val r, k)" "y = Return 0"
    using y go by (auto simp: op_step_def split: prod.splits answer.splits)
  obtain s t where s: "sets (kern c) j = Some s" "run_ops p (op_op v) s = Done t" "k = (kern c)\<lparr>sets := (sets (kern c))(j \<mapsto> t)\<rparr>"
    using r(1) by (rule semop_Val)
  note t = run_op [OF s(2)]
  have ok: "set_ok n c j s" using invD(1) [OF I s(1)] .
  have "sem_inv n (moves_to p k Out False (held c p) c)"
    by (rule inv_set_same [OF I p(1) s(1), where s' = t])
      (use s(3) t p set_okD(1,2) [OF ok] in simp_all)
  then show ?thesis using r p(2) by (simp add: after_step_simps change_defs)
qed

lemma run_inv:
  assumes I: "sem_inv n c" and p: "p < n" "pcs c p \<noteq> Out" and y: "pc_step p z (pcs c p) (kern c) = (k, y)"
    and small: "\<And>i. users n (after_step p k y c) i < BIGCOUNT"
  shows "sem_inv n (after_step p k y c)"
proof -
  consider "y = Wait" | r where "y = Dies r" | "y \<noteq> Wait" "\<And>r. y \<noteq> Dies r" by (cases y) auto
  then show ?thesis
  proof cases
    case 1
    have "sem_inv n (moves_to p (kern c) (pcs c p) True (held c p) c)"
      by (rule inv_same [OF I p(1)]) (use invD(1,5) [OF I] p(1) set_okD(4,5) in blast)+
    then show ?thesis using 1 stuck_same [OF y] by (simp add: after_step_simps)
  next
    case 2
    then show ?thesis using inv_exit [OF I p(1)] stuck_same [OF y] by (simp add: after_step_simps)
  next
    case 3
    show ?thesis
    proof (cases "pcs c p")
      case (Create u)
      then obtain y' where "create_step p z u (kern c) = (k, y')" "y = map_step Create y'"
        using y by (cases "create_step p z u (kern c)") auto
      then show ?thesis using create_inv [OF I p(1) Create, of z k y'] 3 small by (auto simp: map_step_iff)
    next
      case (Open u)
      then obtain y' where "open_step p z u (kern c) = (k, y')" "y = map_step Open y'"
        using y by (cases "open_step p z u (kern c)") auto
      then show ?thesis using open_inv [OF I p(1) Open, of z k y'] 3 small by (auto simp: map_step_iff)
    next
      case (Close u)
      then obtain y' where "close_step p z u (kern c) = (k, y')" "y = map_step Close y'"
        using y by (cases "close_step p z u (kern c)") auto
      then show ?thesis using close_inv [OF I p(1) Close, of z k y'] 3 small by (auto simp: map_step_iff)
    next
      case (Rm j)
      then obtain r where r: "rmid j (kern c) = (Val r, k)" "y = Return 0"
        using y 3 by (auto simp: rm_step_def split: prod.splits answer.splits)
      have "sem_inv n (moves_to p k Out False (held c p) c)"
        by (rule inv_remove [OF I p(1), where j = j]) (use rmid_Val [OF r(1)] Rm in auto)
      then show ?thesis using r Rm by (simp add: after_step_simps change_defs)
    next
      case (Semop j v)
      then show ?thesis using op_inv [OF I p(1) Semop, of z k y] y 3 by simp
    qed (use p in simp)
  qed
qed

lemma enter_pc:
  assumes "enter q = Go x" and "may b h q"
  shows "\<not> crit x i" "x = Close (Cl_lock i) \<Longrightarrow> 0 < h i"
  using assms by (cases q; auto simp: sem_create_def sem_open_def sem_close_def sem_wait_def sem_signal_def sem_op_call_def split: if_splits)+

lemma call_inv:
  assumes I: "sem_inv n c" and p: "p < n" "pcs c p = Out" and q: "may b (held c p) q"
  shows "sem_inv n (advance p (enter q) (held c p) (kern c) c)"
proof (cases "enter q")
  case (Go x)
  have "\<not> initing x i" "\<not> ending x i" for i using enter_pc(1) [OF Go q] initing_crit ending_crit by blast+
  then have "sem_inv n (moves_to p (kern c) x False (held c p) c)"
    by (intro inv_same [OF I p(1)]) (use p(2) enter_pc [OF Go q] in auto)
  then show ?thesis using Go by (simp add: advance_def)
next
  case (Return v)
  have "sem_inv n (moves_to p (kern c) Out False (held c p) c)" by (rule inv_same [OF I p(1)]) (use p(2) in auto)
  then show ?thesis using Return by (simp add: advance_def)
next
  case (Dies r)
  then show ?thesis using inv_exit [OF I p(1)] by (simp add: advance_def)
next
  case Wait
  have "sem_inv n (moves_to p (kern c) (pcs c p) True (held c p) c)" by (rule inv_same [OF I p(1)]) (use p(2) in auto)
  then show ?thesis using Wait by (simp add: advance_def)
qed

lemma sreach_inv: "sreach n b c \<Longrightarrow> sem_inv n c"
proof (induction rule: sreach.induct)
  case (init fs)
  show ?case by (rule inv_init)
next
  case (next_step c c')
  from next_step(2) show ?case
  proof cases
    case (run p k y)
    then show ?thesis using run_inv [OF next_step(4), of p "asleep c p" k y] next_step(3) by simp
  qed (use call_inv [OF next_step(4)] inv_exit [OF next_step(4)] in auto)
qed

end
