(* ===== verification/Sem_Props.thy ===== *)
theory Sem_Props
  imports Sem_Procs
begin

section \<open>Properties of the semaphore library\<close>

text \<open>
  What the invariant of theory \<open>Sem_Procs\<close> gives, a second invariant for processes that use neither \<open>sem_open\<close> nor \<open>sem_rm\<close>, and
  two runs that show where the library's protection ends. \<open>exec\<close> runs a list of actions; a run of fewer than \<open>BIGCOUNT\<close>
  actions is one of \<open>sreach\<close>.
\<close>

subsection \<open>Users keep their set\<close>

fun plain :: "pc \<Rightarrow> bool" where
  "plain (Open x) = False"
| "plain (Rm i) = False"
| "plain x = True"

definition safe :: "nat \<Rightarrow> sem_sys \<Rightarrow> bool" where
  "safe n c \<longleftrightarrow> (\<forall>p<n. plain (pcs c p) \<and> (\<forall>i. 0 < held c p i \<or> crit (pcs c p) i \<longrightarrow> sets (kern c) i \<noteq> None) \<and>
     (\<forall>i. pcs c p = Close (Cl_rm i) \<longrightarrow> users n c i = 0))"

lemma users_move:
  assumes "p < n"
  shows "users n (moves_to p k x z h c) i + int (held c p i) = users n c i + int (h i)"
  unfolding users_def using sum_change [OF assms, of "\<lambda>q. int (held (moves_to p k x z h c) q i)" "\<lambda>q. int (held c q i)"] by simp

lemma users_nonneg: "0 \<le> users n c i"
  by (simp add: users_def sum_nonneg)

lemma users_held: "p < n \<Longrightarrow> int (held c p i) \<le> users n c i"
  unfolding users_def by (rule member_le_sum) simp_all

lemma safe_move:
  assumes I: "sem_inv n c" and S: "safe n c" and p: "p < n"
    and keep: "\<And>i. sets (kern c) i \<noteq> None \<Longrightarrow> sets k i \<noteq> None \<or> pcs c p = Close (Cl_rm i)"
    and x: "plain x" "\<And>i. 0 < h i \<or> crit x i \<Longrightarrow> sets k i \<noteq> None"
      "\<And>i. x = Close (Cl_rm i) \<Longrightarrow> users n (moves_to p k x z h c) i = 0"
    and gain: "\<And>i. held c p i < h i \<Longrightarrow> crit (pcs c p) i"
  shows "safe n (moves_to p k x z h c)"
proof -
  have "sets k i \<noteq> None" if q: "q < n" "q \<noteq> p" and i: "0 < held c q i \<or> crit (pcs c q) i" for q i
  proof (rule ccontr)
    assume no: "\<not> sets k i \<noteq> None"
    have ex: "sets (kern c) i \<noteq> None" using S q i by (auto simp: safe_def)
    then have rm: "pcs c p = Close (Cl_rm i)" using keep no by blast
    then have "users n c i = 0" using S p by (simp add: safe_def)
    then have "held c q i = 0" using users_held [OF q(1), of c i] by simp
    moreover obtain s where "sets (kern c) i = Some s" using ex by blast
    then have "\<not> crit (pcs c q) i" using inside_other [OF invD(1) [OF I] p _ q] rm by simp
    ultimately show False using i by simp
  qed
  moreover have "users n (moves_to p k x z h c) i = 0" if q: "q < n" "q \<noteq> p" and i: "pcs c q = Close (Cl_rm i)" for q i
  proof -
    obtain s where s: "sets (kern c) i = Some s" using S q i by (fastforce simp: safe_def)
    then have "\<not> crit (pcs c p) i" using inside_other [OF invD(1) [OF I s] q(1) _ p] q(2) i by auto
    then have "h i \<le> held c p i" using gain by (meson not_le)
    moreover have "users n c i = 0" using S q i by (simp add: safe_def)
    ultimately show ?thesis using users_move [OF p, of k x z h c i] users_nonneg [of n "moves_to p k x z h c" i] by simp
  qed
  ultimately show ?thesis using S x by (auto simp: safe_def)
qed

lemma safe_exit:
  assumes S: "safe n c" and p: "p < n"
  shows "safe n (exits p c)"
proof -
  have "users n (exits p c) i = 0" if "users n c i = 0" for i
  proof -
    have "users n (exits p c) i \<le> users n c i" unfolding users_def by (intro sum_mono) (simp add: exits_def)
    then show ?thesis using that users_nonneg [of n "exits p c" i] by simp
  qed
  then show ?thesis using S by (auto simp: safe_def exits_def undo_sets)
qed

lemma semget_keeps: "semget key creat k = (a, k') \<Longrightarrow> sets k i \<noteq> None \<Longrightarrow> sets k' i \<noteq> None"
  using semget_same [of key creat k a k'] by auto

lemma safe_create:
  assumes I: "sem_inv n c" and S: "safe n c" and p: "p < n" "pcs c p = Create u" and y: "create_step p z u (kern c) = (k, y)"
    and go: "y \<noteq> Wait" "\<And>r. y \<noteq> Dies r"
  shows "safe n (after_step p k (map_step Create y) c)"
proof -
  have pS: "\<And>i. 0 < held c p i \<or> crit (pcs c p) i \<Longrightarrow> sets (kern c) i \<noteq> None" using S p(1) by (auto simp: safe_def)
  have keep: "\<And>i. sets (kern c) i \<noteq> None \<Longrightarrow> sets k i \<noteq> None"
    using y go by (cases u) (auto split: prod.splits answer.splits if_splits elim!: semop_Val setval_Val dest: semget_keeps semop_not_Val)
  show ?thesis
  proof (cases y)
    case (Go w)
    have w: "crit (Create w) i \<Longrightarrow> sets k i \<noteq> None" for i
      using y Go pS [of i] keep [of i] p(2) by (cases u) (auto split: prod.splits answer.splits if_splits elim!: semop_Val setval_Val)
    have "safe n (moves_to p k (Create w) False (held c p) c)"
      by (rule safe_move [OF I S p(1)]) (use keep pS w in auto)
    then show ?thesis using Go p(2) by (simp add: after_step_simps change_defs)
  next
    case (Return v)
    let ?h = "\<lambda>i. held c p i + taken (pcs c p) (Return v) i"
    have t: "0 < taken (pcs c p) (Return v) i \<Longrightarrow> crit (pcs c p) i" for i
      using p(2) by (cases u) (simp_all add: taken_def split: if_splits)
    have "safe n (moves_to p k Out False ?h c)"
      by (rule safe_move [OF I S p(1)]) (use keep pS t in auto)
    then show ?thesis using Return by (simp add: after_step_simps)
  qed (use go in auto)
qed

lemma safe_close:
  assumes I: "sem_inv n c" and S: "safe n c" and p: "p < n" "pcs c p = Close u" and y: "close_step p z u (kern c) = (k, y)"
    and go: "y \<noteq> Wait" "\<And>r. y \<noteq> Dies r"
  shows "safe n (after_step p k (map_step Close y) c)"
proof -
  have pS: "\<And>i. 0 < held c p i \<or> crit (pcs c p) i \<Longrightarrow> sets (kern c) i \<noteq> None" using S p(1) by (auto simp: safe_def)
  have keep: "\<And>i. sets (kern c) i \<noteq> None \<Longrightarrow> sets k i \<noteq> None \<or> u = Cl_rm i"
    using y go by (cases u) (auto simp: rm_step_def split: prod.splits answer.splits if_splits elim!: semop_Val dest!: rmid_Val)
  show ?thesis
  proof (cases y)
    case (Go w)
    have nr: "u \<noteq> Cl_rm i" for i using y Go by (auto simp: rm_step_def split: prod.splits answer.splits)
    have w: "crit (Close w) i \<Longrightarrow> sets k i \<noteq> None" for i
      using y Go pS [of i] keep [of i] nr p(2) by (cases u) (auto split: prod.splits answer.splits if_splits elim!: semop_Val)
    have nl: "w \<noteq> Cl_lock i" for i using y Go by (cases u) (auto simp: rm_step_def split: prod.splits answer.splits if_splits)
    have last: "users n c i = 0" if "w = Cl_rm i" for i
    proof -
      have u: "u = Cl_getval i" using y Go that by (cases u) (auto simp: rm_step_def split: prod.splits answer.splits if_splits)
      then have "getval i 1 (kern c) = Val BIGCOUNT"
        using y Go that by (cases "getval i 1 (kern c)") (auto split: if_splits)
      then obtain s where s: "sets (kern c) i = Some s" "sv s 1 = BIGCOUNT" unfolding getval_Val by metis
      then show ?thesis using set_ok_users(4) [OF I invD(1) [OF I s(1)] p(1)] by (simp add: BIGCOUNT_def)
    qed
    let ?h = "\<lambda>i. held c p i - given (pcs c p) (Go (Close w)) i"
    have "safe n (moves_to p k (Close w) False ?h c)"
    proof (rule safe_move [OF I S p(1)])
      fix i assume "Close w = Close (Cl_rm i)"
      then have "users n c i = 0" using last by simp
      then show "users n (moves_to p k (Close w) False ?h c) i = 0"
        using users_move [OF p(1), of k "Close w" False ?h c i] users_nonneg [of n "moves_to p k (Close w) False ?h c" i] by simp
    qed (use keep pS w nr in auto)
    then show ?thesis using Go by (simp add: after_step_simps)
  next
    case (Return v)
    have "safe n (moves_to p k Out False (held c p) c)"
    proof (rule safe_move [OF I S p(1)])
      fix i assume i: "0 < held c p i \<or> crit Out i"
      then have "u \<noteq> Cl_rm i" using S p users_held [OF p(1), of c i] by (auto simp: safe_def)
      moreover have "sets (kern c) i \<noteq> None" using pS i by simp
      ultimately show "sets k i \<noteq> None" using keep by blast
    qed (use keep p(2) in auto)
    then show ?thesis using Return p(2) by (simp add: after_step_simps change_defs)
  qed (use go in auto)
qed

lemma safe_run:
  assumes I: "sem_inv n c" and S: "safe n c" and p: "p < n" "pcs c p \<noteq> Out" and y: "pc_step p z (pcs c p) (kern c) = (k, y)"
  shows "safe n (after_step p k y c)"
proof -
  have pl: "plain (pcs c p)" using S p by (simp add: safe_def)
  consider "y = Wait" | r where "y = Dies r" | "y \<noteq> Wait" "\<And>r. y \<noteq> Dies r" by (cases y) auto
  then show ?thesis
  proof cases
    case 1
    then show ?thesis using S stuck_same [OF y] by (auto simp: after_step_simps safe_def)
  next
    case 2
    then show ?thesis using safe_exit [OF S p(1)] stuck_same [OF y] by (simp add: after_step_simps)
  next
    case 3
    show ?thesis
    proof (cases "pcs c p")
      case (Create u)
      then obtain y' where "create_step p z u (kern c) = (k, y')" "y = map_step Create y'"
        using y by (cases "create_step p z u (kern c)") auto
      then show ?thesis using safe_create [OF I S p(1) Create, of z k y'] 3 by (auto simp: map_step_iff)
    next
      case (Close u)
      then obtain y' where "close_step p z u (kern c) = (k, y')" "y = map_step Close y'"
        using y by (cases "close_step p z u (kern c)") auto
      then show ?thesis using safe_close [OF I S p(1) Close, of z k y'] 3 by (auto simp: map_step_iff)
    next
      case (Semop j v)
      then obtain r where r: "semop p z j (op_op v) (kern c) = (Val r, k)" "y = Return 0"
        using y 3 by (auto simp: op_step_def split: prod.splits answer.splits)
      have "safe n (moves_to p k Out False (held c p) c)"
        by (rule safe_move [OF I S p(1)]) (use S p(1) r(1) in \<open>auto simp: safe_def elim!: semop_Val\<close>)
      then show ?thesis using r Semop by (simp add: after_step_simps change_defs)
    qed (use p pl in auto)
  qed
qed

lemma enter_plain:
  assumes "enter q = Go x" and "may False h q"
  shows "plain x" "x \<noteq> Close (Cl_rm i)"
  using assms by (cases q; auto simp: sem_create_def sem_open_def sem_close_def sem_wait_def sem_signal_def sem_op_call_def split: if_splits)+

lemma safe_call:
  assumes I: "sem_inv n c" and S: "safe n c" and p: "p < n" "pcs c p = Out" and q: "may False (held c p) q"
  shows "safe n (advance p (enter q) (held c p) (kern c) c)"
proof -
  have pS: "\<And>i. 0 < held c p i \<Longrightarrow> sets (kern c) i \<noteq> None" using S p(1) by (auto simp: safe_def)
  have m: "safe n (moves_to p (kern c) x z (held c p) c)" if "plain x" "\<And>i. \<not> crit x i" for x z
    by (rule safe_move [OF I S p(1)]) (use that pS in \<open>auto dest: crit_simps(13) [THEN iffD2]\<close>)
  show ?thesis
    using m [OF enter_plain(1) enter_pc(1)] m [of Out] safe_exit [OF S p(1)] p(2) q by (cases "enter q") (auto simp: advance_def)
qed

lemma sreach_safe: "sreach n False c \<Longrightarrow> safe n c"
proof (induction rule: sreach.induct)
  case (init fs)
  show ?case by (simp add: safe_def nothing_def)
next
  case (next_step c c')
  note I = sreach_inv [OF next_step(1)]
  from next_step(2) show ?case
  proof cases
    case (run p k y)
    then show ?thesis using safe_run [OF I next_step(4)] by blast
  qed (use safe_call [OF I next_step(4)] safe_exit [OF next_step(4)] in auto)
qed

subsection \<open>Runs\<close>

datatype action = Call nat request | Step nat | Quit nat

definition act :: "nat \<Rightarrow> bool \<Rightarrow> action \<Rightarrow> sem_sys \<Rightarrow> sem_sys option" where
  "act n b a c = (case a of
      Call p q \<Rightarrow> if p < n \<and> pcs c p = Out \<and> may b (held c p) q then Some (advance p (enter q) (held c p) (kern c) c) else None
    | Step p \<Rightarrow> if p < n \<and> pcs c p \<noteq> Out then (case pc_step p (asleep c p) (pcs c p) (kern c) of (k, y) \<Rightarrow> Some (after_step p k y c)) else None
    | Quit p \<Rightarrow> if p < n then Some (exits p c) else None)"

fun exec :: "nat \<Rightarrow> bool \<Rightarrow> action list \<Rightarrow> sem_sys \<Rightarrow> sem_sys option" where
  "exec n b [] c = Some c"
| "exec n b (a # as) c = (case act n b a c of None \<Rightarrow> None | Some d \<Rightarrow> exec n b as d)"

lemma act_sstep: "act n b a c = Some d \<Longrightarrow> sstep n b c d"
  by (auto simp: act_def split: action.splits if_splits prod.splits intro: sstep.intros)

lemma users_exits: "p < n \<Longrightarrow> users n (exits p c) i \<le> users n c i"
  unfolding users_def by (intro sum_mono) (simp add: exits_def)

lemma users_advance:
  assumes "p < n" and "h i \<le> held c p i + 1"
  shows "users n (advance p y h k c) i \<le> users n c i + 1"
proof -
  have "int (h i) \<le> int (held c p i) + 1" using assms(2) by simp
  then have "users n (moves_to p k x z h c) i \<le> users n c i + 1" for x z using users_move [OF assms(1), of k x z h c i] by simp
  moreover have "users n (c\<lparr>kern := k\<rparr>) i = users n c i" by (simp add: users_def)
  then have "users n (exits p (c\<lparr>kern := k\<rparr>)) i \<le> users n c i + 1" using users_exits [OF assms(1), of "c\<lparr>kern := k\<rparr>" i] by simp
  ultimately show ?thesis by (cases y) (simp_all add: advance_def)
qed

lemma users_sstep: "sstep n b c d \<Longrightarrow> users n d i \<le> users n c i + 1"
proof (induction rule: sstep.induct)
  case (run p c k y)
  have "held c p i + taken (pcs c p) y i - given (pcs c p) y i \<le> held c p i + 1"
    by (auto simp: taken_def split: step.splits pc.splits create_pc.splits open_pc.splits)
  then show ?case unfolding after_step_def using users_advance [OF run(1), of "\<lambda>i. held c p i + taken (pcs c p) y i - given (pcs c p) y i"] by simp
next
  case (exit p c)
  then show ?case using users_exits [of p n c i] by simp
qed (simp add: users_advance)

lemma exec_sreach:
  assumes "exec n b as c = Some d" and "sreach n b c" and "\<And>i. users n c i + int (length as) < BIGCOUNT"
  shows "sreach n b d"
  using assms
proof (induction as arbitrary: c)
  case (Cons a as)
  then obtain e where e: "act n b a c = Some e" "exec n b as e = Some d" by (auto split: option.splits)
  have s: "sstep n b c e" using act_sstep [OF e(1)] .
  have u: "users n e i + int (length as) < BIGCOUNT" for i using users_sstep [OF s, of i] Cons.prems(3) [of i] by simp
  have "users n e i < BIGCOUNT" for i using u [of i] by simp
  then have "sreach n b e" using sreach.next_step [OF Cons.prems(2) s] by blast
  then show ?case using Cons.IH [OF e(2)] u by blast
qed simp

lemma exec_from_start: "exec n b as (nothing fs) = Some d \<Longrightarrow> length as < 10000 \<Longrightarrow> sreach n b d"
  by (rule exec_sreach [OF _ sreach.init]) (simp_all add: users_def nothing_def BIGCOUNT_def)

definition created :: "action list" where
  "created = [Call 0 (Sem_create 7 5), Step 0, Step 0, Step 0, Step 0, Step 0, Step 0]"


lemmas run_defs = act_def nothing_def sem_create_def sem_open_def sem_close_def IPC_PRIVATE_def advance_def moves_to_def after_step_def
  semget_def semop_def op_lock_def op_open_def op_close_def op_endcreate_def new_set_def one_op_def getval_def setval_def rmid_def rm_step_def
  BIGCOUNT_def taken_def given_def

lemma created_run:
  "\<exists>c s. exec 2 b created (nothing []) = Some c \<and> sets (kern c) 0 = Some s \<and> sv s 0 = 5 \<and> sv s 1 = 9999 \<and> held c 0 0 = 1"
  by (simp add: created_def run_defs)



subsection \<open>Properties\<close>

text \<open>
  C36: what the members of a semaphore set mean at any moment. Whatever the processes do, in any interleaving of their system
  calls and with processes that exit anywhere, at most one of them is between locking and unlocking a set, [2] is 1 while there is
  one and 0 otherwise, and [1] is \<open>BIGCOUNT\<close> less the references to the set, or 0 before the set is initialised, when it has none. In
  particular \<open>sem_close\<close> never finds [1] above \<open>BIGCOUNT\<close>: its call of \<open>err_dump\<close> is unreachable.
\<close>

theorem sem_members:
  assumes "sreach n b c"
  shows "(\<forall>i s. sets (kern c) i = Some s \<longrightarrow>
      (\<forall>p q. p < n \<and> q < n \<and> crit (pcs c p) i \<and> crit (pcs c q) i \<longrightarrow> p = q) \<and>
      sv s 2 = (if \<exists>p<n. crit (pcs c p) i then 1 else 0) \<and>
      (sv s 1 = BIGCOUNT - users n c i \<or> sv s 1 = 0 \<and> users n c i = 0)) \<and>
    (\<forall>p<n. \<forall>k m. pc_step p (asleep c p) (pcs c p) (kern c) \<noteq> (k, Dies (Err_dump m)))"
proof -
  note I = sreach_inv [OF assms]
  have "(\<forall>p q. p < n \<and> q < n \<and> crit (pcs c p) i \<and> crit (pcs c q) i \<longrightarrow> p = q) \<and>
      sv s 2 = (if \<exists>p<n. crit (pcs c p) i then 1 else 0) \<and> (sv s 1 = BIGCOUNT - users n c i \<or> sv s 1 = 0 \<and> users n c i = 0)"
    if s: "sets (kern c) i = Some s" for i s
  proof -
    have ok: "set_ok n c i s" using invD(1) [OF I s] .
    have "inside n c i = 0" if "\<not> (\<exists>p<n. crit (pcs c p) i)" unfolding inside_def by (rule sum.neutral) (use that in auto)
    then have "sv s 2 = (if \<exists>p<n. crit (pcs c p) i then 1 else 0)" using inside_one [OF ok] ok by (auto simp: set_ok_def)
    moreover have "sv s 1 = BIGCOUNT - users n c i \<or> sv s 1 = 0 \<and> users n c i = 0"
      using ok by (auto simp: set_ok_def users_def split: if_splits)
    ultimately show ?thesis using inside_other [OF ok] by blast
  qed
  moreover have "pc_step p (asleep c p) (pcs c p) (kern c) \<noteq> (k, Dies (Err_dump m))" if p: "p < n" for p k m
  proof
    assume st: "pc_step p (asleep c p) (pcs c p) (kern c) = (k, Dies (Err_dump m))"
    then obtain i r where r: "pcs c p = Close (Cl_getval i)" "getval i 1 (kern c) = Val r" "BIGCOUNT < r"
    proof (cases "pcs c p")
      case (Close u)
      then show ?thesis using st that
        by (cases u) (auto simp: map_step_iff rm_step_def apsnd_def map_prod_def split: prod.splits answer.splits if_splits)
    next
      case (Create u)
      then show ?thesis using st by (cases u) (auto simp: map_step_iff apsnd_def map_prod_def split: prod.splits answer.splits if_splits)
    next
      case (Open u)
      then show ?thesis using st by (cases u) (auto simp: map_step_iff apsnd_def map_prod_def split: prod.splits answer.splits if_splits)
    qed (use st in \<open>auto simp: rm_step_def op_step_def split: prod.splits answer.splits\<close>)
    then obtain s where s: "sets (kern c) i = Some s" "BIGCOUNT < sv s 1" unfolding getval_Val by metis
    then show False using set_ok_users(2) [OF I invD(1) [OF I s(1)] p] by simp
  qed
  ultimately show ?thesis by blast
qed

theorem sem_members_witness:
  "\<exists>c s. sreach 2 True c \<and> sets (kern c) 0 = Some s \<and> sv s 2 = (if \<exists>p<2. crit (pcs c p) 0 then 1 else 0) \<and>
    (sv s 1 = BIGCOUNT - users 2 c 0 \<or> sv s 1 = 0 \<and> users 2 c 0 = 0)"
proof -
  obtain c s where c: "exec 2 True created (nothing []) = Some c" "sets (kern c) 0 = Some s" using created_run by blast
  have "sreach 2 True c" by (rule exec_from_start [OF c(1)]) (simp add: created_def)
  then show ?thesis using sem_members [of 2 True c] c(2) by blast
qed

text \<open>
  C37: a set is not removed while it is in use. If the processes get at their semaphores through \<open>sem_create\<close> and leave them through
  \<open>sem_close\<close> or by exiting, a set that a process has open is always there, initialised, with [1] below \<open>BIGCOUNT\<close>: the call of
  \<open>sem_rm\<close> in \<open>sem_close\<close> hits only a set nobody uses any more.
\<close>

theorem sem_set_stays:
  assumes "sreach n False c" and "p < n" and "0 < held c p i"
  shows "\<exists>s. sets (kern c) i = Some s \<and> 0 < sv s 1 \<and> sv s 1 = BIGCOUNT - users n c i"
proof -
  note I = sreach_inv [OF assms(1)]
  obtain s where s: "sets (kern c) i = Some s" using sreach_safe [OF assms(1)] assms(2,3) by (fastforce simp: safe_def)
  note u = set_ok_users [OF I invD(1) [OF I s] assms(2)]
  have "sv s 1 \<noteq> 0" using u(3) assms(3) by auto
  then show ?thesis using s u(1,4) by auto
qed

theorem sem_set_stays_witness:
  "\<exists>c s. sreach 2 False c \<and> 0 < held c 0 0 \<and> sets (kern c) 0 = Some s \<and> 0 < sv s 1 \<and> sv s 1 = BIGCOUNT - users 2 c 0"
proof -
  obtain c where c: "exec 2 False created (nothing []) = Some c" "held c 0 0 = 1" using created_run by blast
  have "sreach 2 False c" by (rule exec_from_start [OF c(1)]) (simp add: created_def)
  then show ?thesis using sem_set_stays [of 2 c 0 0] c(2) by auto
qed


end
