(* ===== verification/Job_Queue.thy ===== *)
theory Job_Queue
  imports Linked_List
begin

section \<open>A job queue served by threads: \<open>threads/queue.c\<close>, \<open>threads/rwlock.c\<close>\<close>

text \<open>
  Both programs keep jobs in a doubly linked list under a reader-writer lock. \<open>main\<close> reads lines and appends a job for the thread named by
  the first character; each of the three threads runs \<open>handle_job\<close>: it waits until the queue is not empty, looks for a job of its own, prints and
  removes it, and otherwise waits to be told of new jobs. In \<open>queue.c\<close> each thread has its own mutex and condition variable,
  in \<open>rwlock.c\<close> there is one of each for all.

  The routines are cut, as in theory \<open>Foo_Table\<close>, at the points where a thread may have to wait: for a mutex that
  stays locked over several pieces, or on a condition. The reader-writer lock is taken and given back within one piece. \<open>q_waits\<close> has the
  threads that wait on a condition, \<open>q_woken\<close> those that have been told to go on. Threads are known by the number of the order of
  their creation; condition variables wake nobody who was not signalled.
\<close>

record qjob =
  j_next :: nat
  j_prev :: nat
  j_id :: nat
  j_content :: string

datatype qsaid = Empty_said nat | Got_said nat | Done_said nat string | Not_found_said nat | Not_supported_said | Append_said nat | Error_said string

record jqueue =
  q_head :: nat
  q_tail :: nat
  q_lock :: bool
  q_mutex :: "nat \<Rightarrow> bool"
  q_thread :: "nat \<Rightarrow> nat"
  q_waits :: "nat \<Rightarrow> nat list"
  q_woken :: "nat \<Rightarrow> bool"
  q_jobs :: "qjob heap"
  q_brk :: nat
  q_junk :: qjob
  q_fails :: "bool list"
  q_out :: "qsaid list"
  q_gone :: bool

abbreviation NTHREAD :: nat where "NTHREAD \<equiv> 3"

subsection \<open>Memory, locks, conditions\<close>

definition may_fail :: "'r \<Rightarrow> (jqueue, 'r) prog \<Rightarrow> (jqueue, 'r) prog" where
  "may_fail bad m = (\<lambda>s. case q_fails s of
      [] \<Rightarrow> m s
    | True # fs \<Rightarrow> Ok bad (s\<lparr>q_fails := fs\<rparr>)
    | False # fs \<Rightarrow> m (s\<lparr>q_fails := fs\<rparr>))"

definition qj_get :: "nat \<Rightarrow> (qjob \<Rightarrow> 'a) \<Rightarrow> (jqueue, 'a) prog" where
  "qj_get a f = (\<lambda>s. case if a = 0 then None else q_jobs s a of
      None \<Rightarrow> Abort (Undefined ''job dereference'') s | Some n \<Rightarrow> Ok (f n) s)"

definition qj_set :: "nat \<Rightarrow> (qjob \<Rightarrow> qjob) \<Rightarrow> (jqueue, unit) prog" where
  "qj_set a f = (\<lambda>s. case at a f (q_jobs s) of
      None \<Rightarrow> Abort (Undefined ''job dereference'') s | Some h \<Rightarrow> Ok () (s\<lparr>q_jobs := h\<rparr>))"

definition malloc_qjob :: "(jqueue, nat) prog" where
  "malloc_qjob = may_fail 0 (\<lambda>s. Ok (q_brk s) (s\<lparr>q_brk := Suc (q_brk s), q_jobs := (q_jobs s)(q_brk s \<mapsto> q_junk s)\<rparr>))"

definition free_qjob :: "nat \<Rightarrow> (jqueue, unit) prog" where
  "free_qjob a = bnd (qj_get a (\<lambda>_. ())) (\<lambda>_. modify (\<lambda>s. s\<lparr>q_jobs := (q_jobs s)(a := None)\<rparr>))"

definition qsay :: "qsaid \<Rightarrow> (jqueue, unit) prog" where
  "qsay m = modify (\<lambda>s. s\<lparr>q_out := q_out s @ [m]\<rparr>)"

definition rw_lock :: "(jqueue, unit) prog" where
  "rw_lock = mutex_lock q_lock q_lock_update"

definition rw_unlock :: "(jqueue, unit) prog" where
  "rw_unlock = mutex_unlock q_lock q_lock_update"

definition m_lock :: "nat \<Rightarrow> (jqueue, unit) prog" where
  "m_lock i = mutex_lock (\<lambda>s. q_mutex s i) (\<lambda>f s. s\<lparr>q_mutex := (q_mutex s)(i := f (q_mutex s i))\<rparr>)"

definition m_unlock :: "nat \<Rightarrow> (jqueue, unit) prog" where
  "m_unlock i = mutex_unlock (\<lambda>s. q_mutex s i) (\<lambda>f s. s\<lparr>q_mutex := (q_mutex s)(i := f (q_mutex s i))\<rparr>)"

text \<open>\<open>pthread_cond_wait\<close> is two pieces: it lets go of the mutex and waits, and goes on when it was woken and has the mutex again.\<close>

definition cond_sleep :: "nat \<Rightarrow> nat \<Rightarrow> (jqueue, unit) prog" where
  "cond_sleep i self = bnd (modify (\<lambda>s. s\<lparr>q_waits := (q_waits s)(i := q_waits s i @ [self])\<rparr>)) (\<lambda>_. m_unlock i)"

definition cond_wake :: "nat \<Rightarrow> nat \<Rightarrow> (jqueue, unit) prog" where
  "cond_wake i self = (\<lambda>s. if q_woken s self then m_lock i (s\<lparr>q_woken := (q_woken s)(self := False)\<rparr>) else Hang)"

definition cond_signal :: "nat \<Rightarrow> (jqueue, unit) prog" where
  "cond_signal i = modify (\<lambda>s. case q_waits s i of
      [] \<Rightarrow> s
    | w # ws \<Rightarrow> s\<lparr>q_waits := (q_waits s)(i := ws), q_woken := (q_woken s)(w := True)\<rparr>)"

definition cond_broadcast :: "nat \<Rightarrow> (jqueue, unit) prog" where
  "cond_broadcast i = modify (\<lambda>s. s\<lparr>q_waits := (q_waits s)(i := []), q_woken := (\<lambda>w. w \<in> set (q_waits s i) \<or> q_woken s w)\<rparr>)"

subsection \<open>The queue\<close>

fun init_conds :: "nat \<Rightarrow> (jqueue, int) prog" where
  "init_conds 0 = ret 0"
| "init_conds (Suc n) =
     bnd (may_fail 12 (ret 0)) (\<lambda>err.
     if err \<noteq> 0 then ret err
     else
       bnd (may_fail 12 (ret 0)) (\<lambda>err.
       if err \<noteq> 0 then ret err else init_conds n))"

definition clear_queue :: "(jqueue, unit) prog" where
  "clear_queue = modify (\<lambda>s. s\<lparr>q_head := 0, q_tail := 0\<rparr>)"

definition queue_init_n :: "nat \<Rightarrow> (jqueue, int) prog" where
  "queue_init_n n =
     bnd clear_queue (\<lambda>_.
     bnd (may_fail 12 (bnd (modify (\<lambda>s. s\<lparr>q_lock := False\<rparr>)) (\<lambda>_. ret 0))) (\<lambda>err.
     if err \<noteq> 0 then ret err
     else bnd (modify (\<lambda>s. s\<lparr>q_mutex := (\<lambda>_. False), q_waits := (\<lambda>_. [])\<rparr>)) (\<lambda>_. init_conds n)))"

definition queue_init_q :: "(jqueue, int) prog" where
  "queue_init_q = queue_init_n NTHREAD"

definition queue_init_rw :: "(jqueue, int) prog" where
  "queue_init_rw = queue_init_n 1"

definition thread_index :: "nat \<Rightarrow> jqueue \<Rightarrow> nat" where
  "thread_index t s = (case find (\<lambda>i. q_thread s i = t) [0..<NTHREAD] of None \<Rightarrow> NTHREAD | Some i \<Rightarrow> i)"

definition link_front :: "nat \<Rightarrow> (jqueue, unit) prog" where
  "link_front jp =
     bnd rw_lock (\<lambda>_.
     bnd (gets q_head) (\<lambda>hd.
     bnd (qj_set jp (\<lambda>j. j\<lparr>j_next := hd\<rparr>)) (\<lambda>_.
     bnd (qj_set jp (\<lambda>j. j\<lparr>j_prev := 0\<rparr>)) (\<lambda>_.
     bnd (if hd \<noteq> 0 then qj_set hd (\<lambda>j. j\<lparr>j_prev := jp\<rparr>) else modify (\<lambda>s. s\<lparr>q_tail := jp\<rparr>)) (\<lambda>_.
     bnd (modify (\<lambda>s. s\<lparr>q_head := jp\<rparr>)) (\<lambda>_.
     rw_unlock))))))"

definition link_back :: "nat \<Rightarrow> (jqueue, unit) prog" where
  "link_back jp =
     bnd rw_lock (\<lambda>_.
     bnd (gets q_tail) (\<lambda>tl.
     bnd (qj_set jp (\<lambda>j. j\<lparr>j_next := 0\<rparr>)) (\<lambda>_.
     bnd (qj_set jp (\<lambda>j. j\<lparr>j_prev := tl\<rparr>)) (\<lambda>_.
     bnd (if tl \<noteq> 0 then qj_set tl (\<lambda>j. j\<lparr>j_next := jp\<rparr>) else modify (\<lambda>s. s\<lparr>q_head := jp\<rparr>)) (\<lambda>_.
     bnd (modify (\<lambda>s. s\<lparr>q_tail := jp\<rparr>)) (\<lambda>_.
     rw_unlock))))))"

text \<open>
  The part of \<open>job_insert\<close> and \<open>job_append\<close> of \<open>queue.c\<close> up to the signal; \<open>NTHREAD\<close>: it gave up. A job for an unknown thread
  leaks.
\<close>

definition put_job :: "(nat \<Rightarrow> (jqueue, unit) prog) \<Rightarrow> qjob \<Rightarrow> (jqueue, nat) prog" where
  "put_job link j =
     bnd malloc_qjob (\<lambda>jp.
     if jp = 0 then ret NTHREAD
     else
       bnd (qj_set jp (\<lambda>_. j)) (\<lambda>_.
       bnd (gets (thread_index (j_id j))) (\<lambda>i.
       if i = NTHREAD then ret NTHREAD
       else
         bnd (m_lock i) (\<lambda>_.
         bnd (link jp) (\<lambda>_.
         bnd (m_unlock i) (\<lambda>_.
         ret i))))))"

definition job_insert_q :: "qjob \<Rightarrow> (jqueue, int) prog" where
  "job_insert_q j = bnd (put_job link_front j) (\<lambda>i. if i = NTHREAD then ret (-1) else bnd (cond_signal i) (\<lambda>_. ret 0))"

definition job_append_q :: "qjob \<Rightarrow> (jqueue, int) prog" where
  "job_append_q j = bnd (put_job link_back j) (\<lambda>i. if i = NTHREAD then ret (-1) else bnd (cond_signal i) (\<lambda>_. ret 0))"

definition job_insert_rw :: "qjob \<Rightarrow> (jqueue, int) prog" where
  "job_insert_rw j =
     bnd malloc_qjob (\<lambda>jp.
     if jp = 0 then ret (-1)
     else bnd (qj_set jp (\<lambda>_. j)) (\<lambda>_. bnd (link_front jp) (\<lambda>_. ret 0)))"

definition job_append_rw :: "qjob \<Rightarrow> (jqueue, int) prog" where
  "job_append_rw j =
     bnd malloc_qjob (\<lambda>jp.
     if jp = 0 then ret (-1)
     else bnd (qj_set jp (\<lambda>_. j)) (\<lambda>_. bnd (link_back jp) (\<lambda>_. ret 0)))"

definition job_remove :: "nat \<Rightarrow> (jqueue, unit) prog" where
  "job_remove jp =
     bnd rw_lock (\<lambda>_.
     bnd (gets q_head) (\<lambda>hd.
     bnd (gets q_tail) (\<lambda>tl.
     bnd (if jp = hd then
            bnd (qj_get jp j_next) (\<lambda>nx.
            bnd (modify (\<lambda>s. s\<lparr>q_head := nx\<rparr>)) (\<lambda>_.
            if tl = jp then modify (\<lambda>s. s\<lparr>q_tail := 0\<rparr>)
            else bnd (qj_get jp j_prev) (\<lambda>pv. qj_set nx (\<lambda>j. j\<lparr>j_prev := pv\<rparr>))))
          else if jp = tl then
            bnd (qj_get jp j_prev) (\<lambda>pv.
            bnd (modify (\<lambda>s. s\<lparr>q_tail := pv\<rparr>)) (\<lambda>_.
            bnd (qj_get jp j_next) (\<lambda>nx. qj_set pv (\<lambda>j. j\<lparr>j_next := nx\<rparr>))))
          else
            bnd (qj_get jp j_prev) (\<lambda>pv.
            bnd (qj_get jp j_next) (\<lambda>nx.
            bnd (qj_set pv (\<lambda>j. j\<lparr>j_next := nx\<rparr>)) (\<lambda>_.
            qj_set nx (\<lambda>j. j\<lparr>j_prev := pv\<rparr>))))) (\<lambda>_.
     bnd (free_qjob jp) (\<lambda>_.
     rw_unlock)))))"

fun find_loop :: "nat \<Rightarrow> nat \<Rightarrow> nat \<Rightarrow> (jqueue, nat) prog" where
  "find_loop 0 jp t = (if jp = 0 then ret 0 else hang)"
| "find_loop (Suc fuel) jp t =
     (if jp = 0 then ret 0
      else
        bnd (qj_get jp j_id) (\<lambda>i.
        if i = t then ret jp
        else bnd (qj_get jp j_next) (\<lambda>nx. find_loop fuel nx t)))"

definition job_find :: "nat \<Rightarrow> (jqueue, nat) prog" where
  "job_find t =
     bnd rw_lock (\<lambda>_.
     bnd (gets q_brk) (\<lambda>fuel.
     bnd (gets q_head) (\<lambda>hd.
     bnd (find_loop fuel hd t) (\<lambda>jp.
     bnd rw_unlock (\<lambda>_.
     ret jp)))))"

subsection \<open>The threads\<close>

text \<open>
  \<open>handle_piece self i\<close>: the next piece of \<open>handle_job\<close> in the thread \<open>self\<close> that uses mutex and condition \<open>i\<close>, from where it is to where it is
  next. Only \<open>queue.c\<close> starts at \<open>H_start\<close>, where the thread looks for its number.
\<close>

datatype hpc = H_off | H_start | H_top | H_empty | H_find | H_remove nat | H_relock | H_woken | H_done

definition check_empty :: "nat \<Rightarrow> nat \<Rightarrow> (jqueue, hpc) prog" where
  "check_empty self i =
     bnd (gets (\<lambda>s. q_tail s = 0 \<or> q_head s = 0)) (\<lambda>e.
     if e then bnd (qsay (Empty_said self)) (\<lambda>_. bnd (cond_sleep i self) (\<lambda>_. ret H_empty))
     else ret H_find)"

fun handle_piece :: "nat \<Rightarrow> nat \<Rightarrow> hpc \<Rightarrow> (jqueue, hpc) prog" where
  "handle_piece self i H_off = hang"
| "handle_piece self i H_start = bnd (gets (thread_index self)) (\<lambda>j. ret (if j = NTHREAD then H_done else H_top))"
| "handle_piece self i H_top = bnd (m_lock i) (\<lambda>_. check_empty self i)"
| "handle_piece self i H_empty = bnd (cond_wake i self) (\<lambda>_. bnd (qsay (Got_said self)) (\<lambda>_. check_empty self i))"
| "handle_piece self i H_find =
     bnd (job_find self) (\<lambda>jp.
     if jp \<noteq> 0 then
       bnd (qj_get jp j_content) (\<lambda>t.
       bnd (qj_get jp j_id) (\<lambda>j.
       bnd (qsay (Done_said j t)) (\<lambda>_.
       ret (H_remove jp))))
     else
       bnd (qsay (Not_found_said self)) (\<lambda>_.
       bnd (m_unlock i) (\<lambda>_.
       ret H_relock)))"
| "handle_piece self i (H_remove jp) = bnd (job_remove jp) (\<lambda>_. bnd (m_unlock i) (\<lambda>_. ret H_top))"
| "handle_piece self i H_relock = bnd (m_lock i) (\<lambda>_. bnd (cond_sleep i self) (\<lambda>_. ret H_woken))"
| "handle_piece self i H_woken = bnd (cond_wake i self) (\<lambda>_. bnd (m_unlock i) (\<lambda>_. ret H_top))"
| "handle_piece self i H_done = hang"

text \<open>The thread a line is for, by its first character; 0: not supported.\<close>

definition line_thread :: "string \<Rightarrow> nat" where
  "line_thread l = (case l of
      c # cs \<Rightarrow> let i = int (of_char c) - int (of_char (CHR ''0'')) in if 1 \<le> i \<and> i \<le> int NTHREAD then nat i else 0
    | [] \<Rightarrow> 0)"

definition line_job :: "string \<Rightarrow> jqueue \<Rightarrow> qjob" where
  "line_job l s = (q_junk s)\<lparr>j_id := q_thread s (line_thread l - 1), j_content := l\<rparr>"

text \<open>
  The part of \<open>main\<close> from reading a line to the signal: the index of the condition to signal, or \<open>NTHREAD\<close>. In
  \<open>rwlock.c\<close> it is main that locks the mutex around \<open>job_append\<close>, and it broadcasts even when nothing was appended.
\<close>

definition line_piece_q :: "string \<Rightarrow> (jqueue, nat) prog" where
  "line_piece_q l =
     (if line_thread l \<noteq> 0 then bnd (gets (line_job l)) (\<lambda>j. put_job link_back j)
      else bnd (qsay Not_supported_said) (\<lambda>_. ret NTHREAD))"

definition signal_piece_q :: "string \<Rightarrow> nat \<Rightarrow> (jqueue, unit) prog" where
  "signal_piece_q l i =
     bnd (if i = NTHREAD then ret () else cond_signal i) (\<lambda>_.
     bnd (gets (\<lambda>s. j_id (line_job l s))) (\<lambda>t. qsay (Append_said t)))"

definition line_piece_rw :: "string \<Rightarrow> (jqueue, nat) prog" where
  "line_piece_rw l =
     (if line_thread l \<noteq> 0 then
        bnd (gets (line_job l)) (\<lambda>j.
        bnd (m_lock 0) (\<lambda>_.
        bnd (job_append_rw j) (\<lambda>r.
        bnd (qsay (Append_said (j_id j))) (\<lambda>_.
        bnd (m_unlock 0) (\<lambda>_.
        ret (if r = 0 then 0 else NTHREAD))))))
      else bnd (qsay Not_supported_said) (\<lambda>_. ret NTHREAD))"

definition signal_piece_rw :: "(jqueue, unit) prog" where
  "signal_piece_rw = cond_broadcast 0"

text \<open>\<open>pthread_create\<close> is two pieces: the new thread may run before its identifier is stored.\<close>

definition create_piece :: "(jqueue, int) prog" where
  "create_piece = may_fail 11 (ret 0)"

definition store_piece :: "nat \<Rightarrow> (jqueue, unit) prog" where
  "store_piece k = modify (\<lambda>s. s\<lparr>q_thread := (q_thread s)(k := Suc k)\<rparr>)"

text \<open>What \<open>main\<close> of \<open>rwlock.c\<close> does at the end of its input, while the threads run.\<close>

definition destroy_piece :: "(jqueue, unit) prog" where
  "destroy_piece = modify (\<lambda>s. s\<lparr>q_gone := True\<rparr>)"

end
