(* ===== verification/Job_System.thy ===== *)
theory Job_System
  imports Job_Queue
begin

section \<open>The threads of \<open>threads/queue.c\<close> and \<open>threads/rwlock.c\<close>\<close>

text \<open>
  \<open>main\<close> and the three threads run \<open>handle_job\<close> in any interleaving of their pieces (theory \<open>Job_Queue\<close>); \<open>mx\<close> gives the mutex and
  condition a thread uses in each program. \<open>acc\<close> records the jobs that were put into the queue. When \<open>main\<close> ends the
  process, nothing runs any more; between the moment \<open>main\<close> of \<open>rwlock.c\<close> frees the queue and its exit, what a thread does has no meaning.
\<close>

datatype variant = Queue_c | Rwlock_c

primrec mx :: "variant \<Rightarrow> nat \<Rightarrow> nat" where
  "mx Queue_c w = w"
| "mx Rwlock_c w = 0"

datatype mpc = M_create nat | M_store nat | M_read | M_signal string nat | M_join nat | M_destroy | M_exit | M_over int

record qsys =
  qs :: jqueue
  wpc :: "nat \<Rightarrow> hpc"
  mpc :: mpc
  input :: "string list"
  acc :: "(nat \<times> string) list"

definition alive :: "(jqueue, 'a) prog \<Rightarrow> (jqueue, 'a) prog" where
  "alive m = (\<lambda>s. if q_gone s then Abort (Undefined ''queue used after it was freed'') s else m s)"

primrec line_piece :: "variant \<Rightarrow> string \<Rightarrow> (jqueue, nat) prog" where
  "line_piece Queue_c l = line_piece_q l"
| "line_piece Rwlock_c l = line_piece_rw l"

primrec signal_piece :: "variant \<Rightarrow> string \<Rightarrow> nat \<Rightarrow> (jqueue, unit) prog" where
  "signal_piece Queue_c l i = signal_piece_q l i"
| "signal_piece Rwlock_c l i = signal_piece_rw"

definition over :: "qsys \<Rightarrow> bool" where
  "over c = (case mpc c of M_over e \<Rightarrow> True | _ \<Rightarrow> False)"

definition worker_step :: "variant \<Rightarrow> nat \<Rightarrow> qsys \<Rightarrow> qsys option" where
  "worker_step v w c =
     (if over c then None
      else case alive (handle_piece (Suc w) (mx v w) (wpc c w)) (qs c) of
          Ok h s \<Rightarrow> Some (c\<lparr>qs := s, wpc := (wpc c)(w := h)\<rparr>)
        | _ \<Rightarrow> None)"

definition main_step :: "variant \<Rightarrow> qsys \<Rightarrow> qsys option" where
  "main_step v c = (case mpc c of
      M_create k \<Rightarrow>
        if k = NTHREAD then Some (c\<lparr>mpc := M_read\<rparr>)
        else (case create_piece (qs c) of
            Ok err s \<Rightarrow> Some (if err \<noteq> 0 then c\<lparr>qs := s\<lparr>q_out := q_out s @ [Error_said ''pthread_create failed'']\<rparr>, mpc := M_over 1\<rparr>
              else c\<lparr>qs := s, wpc := (wpc c)(k := (if v = Queue_c then H_start else H_top)), mpc := M_store k\<rparr>)
          | _ \<Rightarrow> None)
    | M_store k \<Rightarrow> (case store_piece k (qs c) of Ok u s \<Rightarrow> Some (c\<lparr>qs := s, mpc := M_create (Suc k)\<rparr>) | _ \<Rightarrow> None)
    | M_read \<Rightarrow> (case input c of
          [] \<Rightarrow> Some (c\<lparr>mpc := (if v = Queue_c then M_join 0 else M_destroy)\<rparr>)
        | l # ls \<Rightarrow> (case line_piece v l (qs c) of
              Ok i s \<Rightarrow> Some (c\<lparr>qs := s, input := ls, mpc := (if line_thread l = 0 then M_read else M_signal l i),
                acc := (if i = NTHREAD then acc c else acc c @ [(line_thread l - 1, l)])\<rparr>)
            | _ \<Rightarrow> None))
    | M_signal l i \<Rightarrow> (case signal_piece v l i (qs c) of Ok u s \<Rightarrow> Some (c\<lparr>qs := s, mpc := M_read\<rparr>) | _ \<Rightarrow> None)
    | M_join k \<Rightarrow>
        if k = NTHREAD then Some (c\<lparr>mpc := M_over 0\<rparr>)
        else if wpc c k = H_done then Some (c\<lparr>mpc := M_join (Suc k)\<rparr>) else None
    | M_destroy \<Rightarrow> (case destroy_piece (qs c) of Ok u s \<Rightarrow> Some (c\<lparr>qs := s, mpc := M_exit\<rparr>) | _ \<Rightarrow> None)
    | M_exit \<Rightarrow> Some (c\<lparr>mpc := M_over 0\<rparr>)
    | M_over e \<Rightarrow> None)"

primrec init_piece :: "variant \<Rightarrow> (jqueue, int) prog" where
  "init_piece Queue_c = queue_init_q"
| "init_piece Rwlock_c = queue_init_rw"

text \<open>The start of \<open>main\<close>: the queue is allocated and initialised, or the process ends.\<close>

definition main_start :: "variant \<Rightarrow> jqueue \<Rightarrow> string list \<Rightarrow> qsys" where
  "main_start v s ls = (case may_fail False (ret True) s of
      Ok True t \<Rightarrow> (case init_piece v t of
          Ok err u \<Rightarrow> \<lparr>qs = (if err \<noteq> 0 then u\<lparr>q_out := q_out u @ [Error_said ''queue_init failed'']\<rparr> else u), wpc = (\<lambda>_. H_off),
            mpc = (if err \<noteq> 0 then M_over 1 else M_create 0), input = ls, acc = []\<rparr>
        | _ \<Rightarrow> \<lparr>qs = t, wpc = (\<lambda>_. H_off), mpc = M_over 1, input = ls, acc = []\<rparr>)
    | _ \<Rightarrow> \<lparr>qs = s, wpc = (\<lambda>_. H_off), mpc = M_over 1, input = ls, acc = []\<rparr>)"

inductive qstep :: "variant \<Rightarrow> qsys \<Rightarrow> qsys \<Rightarrow> bool" for v :: variant where
  worker: "w < NTHREAD \<Longrightarrow> worker_step v w c = Some d \<Longrightarrow> qstep v c d"
| main: "main_step v c = Some d \<Longrightarrow> qstep v c d"

definition no_jobs :: "jqueue \<Rightarrow> bool" where
  "no_jobs s \<longleftrightarrow> q_jobs s = (\<lambda>_. None) \<and> 0 < q_brk s \<and> q_out s = [] \<and> \<not> q_gone s \<and> \<not> q_lock s"

inductive qreach :: "variant \<Rightarrow> qsys \<Rightarrow> bool" for v :: variant where
  start: "no_jobs s \<Longrightarrow> qreach v (main_start v s ls)"
| next_step: "qreach v c \<Longrightarrow> qstep v c d \<Longrightarrow> qreach v d"

end
