(* ===== verification/Job_Lists.thy ===== *)
theory Job_Lists
  imports Job_Queue
begin

section \<open>The job queue as a list\<close>

text \<open>
  \<open>qrep s xs\<close>: the queue links the jobs at the addresses \<open>xs\<close>, nobody has the reader-writer lock, and the next address is fresh.
  The list operations of \<open>queue.c\<close> and \<open>rwlock.c\<close> change the list at its ends, take a job out of the middle, find the first job of a thread;
  none of them changes the content of a job. The proofs rest on an interpretation of locale \<open>links\<close>.
\<close>

interpretation ql: links j_next j_prev "\<lambda>a j. j\<lparr>j_next := a\<rparr>" "\<lambda>a j. j\<lparr>j_prev := a\<rparr>"
  by unfold_locales simp_all

definition item :: "qjob heap \<Rightarrow> nat \<Rightarrow> (nat \<times> string) option" where
  "item h a = map_option (\<lambda>j. (j_id j, j_content j)) (h a)"

definition qrep :: "jqueue \<Rightarrow> nat list \<Rightarrow> bool" where
  "qrep s xs \<longleftrightarrow> ql.dlist (q_jobs s) (q_head s) (q_tail s) xs \<and> \<not> q_lock s \<and> 0 < q_brk s \<and> (\<forall>a. q_brk s \<le> a \<longrightarrow> q_jobs s a = None)"

lemma qj_get_run [simp]: "q_jobs s a = Some j \<Longrightarrow> 0 < a \<Longrightarrow> qj_get a f s = Ok (f j) s"
  by (simp add: qj_get_def)

lemma qj_set_run [simp]: "q_jobs s a = Some j \<Longrightarrow> 0 < a \<Longrightarrow> qj_set a f s = Ok () (s\<lparr>q_jobs := (q_jobs s)(a \<mapsto> f j)\<rparr>)"
  by (simp add: qj_set_def at_def)

lemma rw_lock_run [simp]: "\<not> q_lock s \<Longrightarrow> rw_lock s = Ok () (s\<lparr>q_lock := True\<rparr>)"
  by (simp add: rw_lock_def mutex_lock_def)

lemma rw_unlock_run [simp]: "q_lock s \<Longrightarrow> rw_unlock s = Ok () (s\<lparr>q_lock := False\<rparr>)"
  by (simp add: rw_unlock_def mutex_unlock_def)

lemma item_relink:
  assumes "h a = Some j" and "j_id j' = j_id j" and "j_content j' = j_content j"
  shows "item (h(a \<mapsto> j')) = item h"
  using assms by (auto simp: item_def fun_eq_iff)

lemma qrepD:
  assumes "qrep s xs"
  shows "\<not> q_lock s" "ql.dlist (q_jobs s) (q_head s) (q_tail s) xs" "x \<in> set xs \<Longrightarrow> 0 < x \<and> x < q_brk s \<and> (\<exists>j. q_jobs s x = Some j)"
    "distinct xs"
proof -
  show d: "ql.dlist (q_jobs s) (q_head s) (q_tail s) xs" and "\<not> q_lock s" using assms by (simp_all add: qrep_def)
  show "distinct xs" using ql.dlistD(5) [OF d] .
  show "0 < x \<and> x < q_brk s \<and> (\<exists>j. q_jobs s x = Some j)" if x: "x \<in> set xs"
  proof -
    obtain j where "q_jobs s x = Some j" using ql.dlistD(4) [OF d x] by blast
    moreover have "x < q_brk s"
    proof (rule ccontr)
      assume "\<not> x < q_brk s"
      then have "q_jobs s x = None" using assms by (simp add: qrep_def)
      then show False using \<open>q_jobs s x = Some j\<close> by simp
    qed
    ultimately show ?thesis using ql.dlistD(3) [OF d x] by simp
  qed
qed

lemma qrep_fuel: "qrep s xs \<Longrightarrow> length xs < q_brk s"
proof -
  assume r: "qrep s xs"
  have "set xs \<subseteq> {1..<q_brk s}" using qrepD(3) [OF r] by fastforce
  then have "card (set xs) \<le> card {1..<q_brk s}" by (intro card_mono) simp_all
  moreover have "0 < q_brk s" using r by (simp add: qrep_def)
  ultimately show ?thesis using distinct_card [OF qrepD(4) [OF r]] by simp
qed

lemma link_back_run:
  assumes d: "ql.dlist (q_jobs s) (q_head s) (q_tail s) xs" and l: "\<not> q_lock s"
    and a: "a \<notin> set xs" "0 < a" "q_jobs s a = Some j"
  shows "\<exists>H hd. link_back a s = Ok () (s\<lparr>q_jobs := H, q_head := hd, q_tail := a, q_lock := False\<rparr>) \<and>
    ql.dlist H hd a (xs @ [a]) \<and> item H = item (q_jobs s)"
proof -
  let ?j = "j\<lparr>j_next := 0, j_prev := q_tail s\<rparr>"
  let ?h = "(q_jobs s)(a \<mapsto> ?j)"
  have d': "ql.dlist ?h (q_head s) (q_tail s) xs" using d a(1) by (simp add: ql.dlist_other)
  have i: "item ?h = item (q_jobs s)" using a(3) by (rule item_relink) simp_all
  show ?thesis
  proof (cases "q_tail s = 0")
    case True
    have "ql.dlist ?h a a (xs @ [a])" by (rule ql.dlist_append(1) [OF d' a(1), of ?j]) (use a True in simp_all)
    moreover have "link_back a s = Ok () (s\<lparr>q_jobs := ?h, q_head := a, q_tail := a, q_lock := False\<rparr>)"
      using True l a by (simp add: link_back_def bnd_def)
    ultimately show ?thesis using i by blast
  next
    case False
    obtain m where m: "?h (q_tail s) = Some m" "ql.dlist (?h(q_tail s \<mapsto> m\<lparr>j_next := a\<rparr>)) (q_head s) a (xs @ [a])"
      using ql.dlist_append(2) [OF d' a(1), of ?j] a False by auto
    have "link_back a s = Ok () (s\<lparr>q_jobs := ?h(q_tail s \<mapsto> m\<lparr>j_next := a\<rparr>), q_head := q_head s, q_tail := a, q_lock := False\<rparr>)"
      using False l a m(1) by (simp add: link_back_def bnd_def)
    moreover have "item (?h(q_tail s \<mapsto> m\<lparr>j_next := a\<rparr>)) = item ?h" using m(1) by (rule item_relink) simp_all
    ultimately show ?thesis using m(2) i by metis
  qed
qed

lemma link_front_run:
  assumes d: "ql.dlist (q_jobs s) (q_head s) (q_tail s) xs" and l: "\<not> q_lock s"
    and a: "a \<notin> set xs" "0 < a" "q_jobs s a = Some j"
  shows "\<exists>H tl. link_front a s = Ok () (s\<lparr>q_jobs := H, q_head := a, q_tail := tl, q_lock := False\<rparr>) \<and>
    ql.dlist H a tl (a # xs) \<and> item H = item (q_jobs s)"
proof -
  let ?j = "j\<lparr>j_next := q_head s, j_prev := 0\<rparr>"
  let ?h = "(q_jobs s)(a \<mapsto> ?j)"
  have d': "ql.dlist ?h (q_head s) (q_tail s) xs" using d a(1) by (simp add: ql.dlist_other)
  have i: "item ?h = item (q_jobs s)" using a(3) by (rule item_relink) simp_all
  show ?thesis
  proof (cases "q_head s = 0")
    case True
    have "ql.dlist ?h a a (a # xs)" by (rule ql.dlist_push(1) [OF d' a(1), of ?j]) (use a True in simp_all)
    moreover have "link_front a s = Ok () (s\<lparr>q_jobs := ?h, q_head := a, q_tail := a, q_lock := False\<rparr>)"
      using True l a by (simp add: link_front_def bnd_def)
    ultimately show ?thesis using i by blast
  next
    case False
    obtain m where m: "?h (q_head s) = Some m" "ql.dlist (?h(q_head s \<mapsto> m\<lparr>j_prev := a\<rparr>)) a (q_tail s) (a # xs)"
      using ql.dlist_push(2) [OF d' a(1), of ?j] a False by auto
    have "link_front a s = Ok () (s\<lparr>q_jobs := ?h(q_head s \<mapsto> m\<lparr>j_prev := a\<rparr>), q_head := a, q_tail := q_tail s, q_lock := False\<rparr>)"
      using False l a m(1) by (simp add: link_front_def bnd_def)
    moreover have "item (?h(q_head s \<mapsto> m\<lparr>j_prev := a\<rparr>)) = item ?h" using m(1) by (rule item_relink) simp_all
    ultimately show ?thesis using m(2) i by metis
  qed
qed

lemma job_remove_run:
  assumes r: "qrep s (us @ x # vs)"
  shows "\<exists>H hd tl. job_remove x s = Ok () (s\<lparr>q_jobs := H, q_head := hd, q_tail := tl, q_lock := False\<rparr>) \<and>
    ql.dlist H hd tl (us @ vs) \<and> item H = (item (q_jobs s))(x := None)"
proof -
  note d = qrepD(2) [OF r] and l = qrepD(1) [OF r]
  have x: "x \<notin> set (us @ vs)" using qrepD(4) [OF r] by simp
  obtain n where n: "q_jobs s x = Some n" "0 < x" using qrepD(3) [OF r, of x] by auto
  note cases4 = ql.dlist_remove [OF d n(1)]
  have fin: "ql.dlist (H(x := None)) hd tl (us @ vs)" if "ql.dlist H hd tl (us @ vs)" for H hd tl
    using that x by (simp add: ql.dlist_other)
  have it: "item (H(x := None)) = (item (q_jobs s))(x := None)" if "item H = item (q_jobs s)" for H
    using that by (auto simp: item_def fun_eq_iff)
  consider "us = []" "vs = []" | "us = []" "vs \<noteq> []" | "us \<noteq> []" "vs = []" | "us \<noteq> []" "vs \<noteq> []" by blast
  then show ?thesis
  proof cases
    case 1
    then have c: "j_next n = 0" "j_prev n = 0" "q_head s = x" "q_tail s = x" using cases4(1) by auto
    have "job_remove x s = Ok () (s\<lparr>q_jobs := (q_jobs s)(x := None), q_head := 0, q_tail := 0, q_lock := False\<rparr>)"
      using c n l by (simp add: job_remove_def bnd_def free_qjob_def)
    then show ?thesis using it 1 by auto
  next
    case 2
    then obtain m where c: "j_next n \<noteq> 0" "j_next n \<noteq> x" "j_prev n = 0" "q_head s = x" "q_tail s \<noteq> x"
      and m: "q_jobs s (j_next n) = Some m" "ql.dlist ((q_jobs s)(j_next n \<mapsto> m\<lparr>j_prev := 0\<rparr>)) (j_next n) (q_tail s) vs"
      using cases4(2) by auto
    let ?H = "(q_jobs s)(j_next n \<mapsto> m\<lparr>j_prev := 0\<rparr>)"
    have "item ?H = item (q_jobs s)" using m(1) by (rule item_relink) simp_all
    moreover have "job_remove x s = Ok () (s\<lparr>q_jobs := ?H(x := None), q_head := j_next n, q_tail := q_tail s, q_lock := False\<rparr>)"
      using c m(1) n l by (simp add: job_remove_def bnd_def free_qjob_def)
    ultimately show ?thesis using it fin [of ?H] m(2) 2 by (metis append_Nil)
  next
    case 3
    then obtain m where c: "j_next n = 0" "j_prev n \<noteq> 0" "j_prev n \<noteq> x" "q_tail s = x" "q_head s \<noteq> x"
      and m: "q_jobs s (j_prev n) = Some m" "ql.dlist ((q_jobs s)(j_prev n \<mapsto> m\<lparr>j_next := 0\<rparr>)) (q_head s) (j_prev n) us"
      using cases4(3) by auto
    let ?H = "(q_jobs s)(j_prev n \<mapsto> m\<lparr>j_next := 0\<rparr>)"
    have "item ?H = item (q_jobs s)" using m(1) by (rule item_relink) simp_all
    moreover have "job_remove x s = Ok () (s\<lparr>q_jobs := ?H(x := None), q_head := q_head s, q_tail := j_prev n, q_lock := False\<rparr>)"
      using c m(1) n l by (simp add: job_remove_def bnd_def free_qjob_def)
    ultimately show ?thesis using it fin [of ?H] m(2) 3 by (metis append_Nil2)
  next
    case 4
    then obtain ma mb where c: "j_next n \<noteq> 0" "j_prev n \<noteq> 0" "j_next n \<noteq> x" "j_prev n \<noteq> x" "j_next n \<noteq> j_prev n" "q_head s \<noteq> x" "q_tail s \<noteq> x"
      and m: "q_jobs s (j_prev n) = Some ma" "q_jobs s (j_next n) = Some mb"
      "ql.dlist ((q_jobs s)(j_prev n \<mapsto> ma\<lparr>j_next := j_next n\<rparr>, j_next n \<mapsto> mb\<lparr>j_prev := j_prev n\<rparr>)) (q_head s) (q_tail s) (us @ vs)"
      using cases4(4) by auto
    let ?G = "(q_jobs s)(j_prev n \<mapsto> ma\<lparr>j_next := j_next n\<rparr>)" and ?b = "mb\<lparr>j_prev := j_prev n\<rparr>"
    have "item ?G = item (q_jobs s)" using m(1) by (rule item_relink) simp_all
    moreover have "item (?G(j_next n \<mapsto> ?b)) = item ?G" by (rule item_relink [of _ _ mb]) (use m(2) c in simp_all)
    moreover have "job_remove x s = Ok () (s\<lparr>q_jobs := ?G(j_next n \<mapsto> ?b, x := None), q_head := q_head s, q_tail := q_tail s, q_lock := False\<rparr>)"
      using c m(1,2) n l by (simp add: job_remove_def bnd_def free_qjob_def)
    ultimately show ?thesis using it fin [OF m(3)] by metis
  qed
qed

subsection \<open>Finding, and new jobs\<close>

lemma find_loop_run:
  assumes "ql.seg (q_jobs s) p a xs 0 l" and "length xs \<le> fuel"
  shows "find_loop fuel a t s = Ok (case find (\<lambda>x. map_option fst (item (q_jobs s) x) = Some t) xs of None \<Rightarrow> 0 | Some x \<Rightarrow> x) s"
  using assms
proof (induction xs arbitrary: p a fuel)
  case Nil
  then show ?case by (cases fuel) simp_all
next
  case (Cons x xs)
  obtain f where f: "fuel = Suc f" "length xs \<le> f" using Cons.prems(2) by (cases fuel) auto
  obtain n where n: "a = x" "0 < x" "q_jobs s x = Some n" "ql.seg (q_jobs s) x (j_next n) xs 0 l" using Cons.prems(1) by auto
  then show ?case using Cons.IH [OF n(4) f(2)] by (simp add: f bnd_def item_def)
qed

definition first_of :: "nat \<Rightarrow> jqueue \<Rightarrow> nat list \<Rightarrow> nat option" where
  "first_of t s xs = find (\<lambda>x. map_option fst (item (q_jobs s) x) = Some t) xs"

lemma job_find_run:
  assumes r: "qrep s xs"
  shows "job_find t s = Ok (case first_of t s xs of None \<Rightarrow> 0 | Some x \<Rightarrow> x) s"
proof -
  let ?s = "s\<lparr>q_lock := True\<rparr>"
  have "ql.seg (q_jobs ?s) 0 (q_head s) xs 0 (q_tail s)" using qrepD(2) [OF r] by (simp add: ql.dlist_def)
  moreover have "length xs \<le> q_brk s" using qrep_fuel [OF r] by simp
  ultimately have "find_loop (q_brk s) (q_head s) t ?s = Ok (case first_of t s xs of None \<Rightarrow> 0 | Some x \<Rightarrow> x) ?s"
    using find_loop_run [of ?s 0 "q_head s" xs "q_tail s" "q_brk s" t] by (simp add: first_of_def)
  moreover have "s\<lparr>q_lock := False\<rparr> = s" using qrepD(1) [OF r] by simp
  ultimately show ?thesis using qrepD(1) [OF r] by (simp add: job_find_def bnd_def)
qed

text \<open>The state after a job was put at the end of the queue: a new address, the others as they were.\<close>

definition appended :: "jqueue \<Rightarrow> nat list \<Rightarrow> nat \<times> string \<Rightarrow> jqueue \<Rightarrow> bool" where
  "appended s xs i t \<longleftrightarrow> qrep t (xs @ [q_brk s]) \<and> item (q_jobs t) = (item (q_jobs s))(q_brk s \<mapsto> i) \<and>
     q_mutex t = q_mutex s \<and> q_thread t = q_thread s \<and> q_waits t = q_waits s \<and> q_woken t = q_woken s \<and> q_gone t = q_gone s"

lemma append_core:
  assumes r: "qrep s xs" and u: "u = s\<lparr>q_brk := Suc (q_brk s), q_jobs := (q_jobs s)(q_brk s \<mapsto> j), q_fails := fs, q_mutex := mu\<rparr>"
  shows "\<exists>H hd. link_back (q_brk s) u = Ok () (u\<lparr>q_jobs := H, q_head := hd, q_tail := q_brk s, q_lock := False\<rparr>) \<and>
    appended s xs (j_id j, j_content j) (u\<lparr>q_jobs := H, q_head := hd, q_tail := q_brk s, q_lock := False, q_mutex := q_mutex s, q_out := ot\<rparr>)"
proof -
  let ?a = "q_brk s"
  have new: "?a \<notin> set xs" "0 < ?a" using qrepD(3) [OF r, of ?a] r by (auto simp: qrep_def)
  have d: "ql.dlist (q_jobs u) (q_head u) (q_tail u) xs" using qrepD(2) [OF r] new by (simp add: u ql.dlist_other)
  obtain H hd where h: "link_back ?a u = Ok () (u\<lparr>q_jobs := H, q_head := hd, q_tail := ?a, q_lock := False\<rparr>)"
    "ql.dlist H hd ?a (xs @ [?a])" "item H = item (q_jobs u)"
    using link_back_run [OF d _ new, of j] qrepD(1) [OF r] by (auto simp: u)
  have i: "item H = (item (q_jobs s))(?a \<mapsto> (j_id j, j_content j))" using h(3) by (auto simp: u item_def fun_eq_iff)
  have "H b = None" if "Suc ?a \<le> b" for b
  proof -
    have "item H b = None" using i that r by (simp add: item_def qrep_def)
    then show ?thesis by (simp add: item_def)
  qed
  then show ?thesis using h(1,2) i by (auto simp: appended_def qrep_def u)
qed

end
