(* ===== verification/Job_Threads.thy ===== *)
theory Job_Threads
  imports Job_System Job_Lists
begin

section \<open>The invariant of the job queue programs\<close>

text \<open>
  \<open>jinv v c xs\<close>: the queue links the jobs at \<open>xs\<close>; threads between finding and removing a job have their mutex, alone; a job about to be
  removed is the first of its thread; and for every thread the jobs it has reported as done, followed by those still queued for it, are the jobs
  \<open>main\<close> accepted for it, in order. Every step keeps it.
\<close>

subsection \<open>The invariant\<close>

fun done_by :: "nat \<Rightarrow> qsaid list \<Rightarrow> string list" where
  "done_by t [] = []"
| "done_by t (Done_said u d # ms) = (if u = t then d # done_by t ms else done_by t ms)"
| "done_by t (m # ms) = done_by t ms"

lemma done_by_append [simp]: "done_by t (ms @ ns) = done_by t ms @ done_by t ns"
  by (induction t ms rule: done_by.induct) simp_all

definition queued :: "nat \<Rightarrow> jqueue \<Rightarrow> nat list \<Rightarrow> string list" where
  "queued t s xs = map snd (filter (\<lambda>x. fst x = t) (map (\<lambda>a. the (item (q_jobs s) a)) xs))"

definition accepted :: "nat \<Rightarrow> qsys \<Rightarrow> string list" where
  "accepted w c = map snd (filter (\<lambda>x. fst x = w) (acc c))"

fun removing :: "hpc \<Rightarrow> bool" where
  "removing (H_remove p) = True"
| "removing h = False"

fun has_mutex :: "hpc \<Rightarrow> bool" where
  "has_mutex H_find = True"
| "has_mutex (H_remove p) = True"
| "has_mutex h = False"

definition left :: "nat \<Rightarrow> hpc \<Rightarrow> jqueue \<Rightarrow> nat list \<Rightarrow> string list" where
  "left t h s xs = (if removing h then tl (queued t s xs) else queued t s xs)"

text \<open>The threads that run, and those whose identifier is stored.\<close>

definition created :: "mpc \<Rightarrow> nat \<Rightarrow> bool" where
  "created m k = (case m of M_create n \<Rightarrow> k < n | M_store n \<Rightarrow> k \<le> n | _ \<Rightarrow> k < NTHREAD)"

definition stored :: "mpc \<Rightarrow> nat \<Rightarrow> bool" where
  "stored m k = (case m of M_create n \<Rightarrow> k < n | M_store n \<Rightarrow> k < n | _ \<Rightarrow> k < NTHREAD)"

definition next_thread :: "mpc \<Rightarrow> nat" where
  "next_thread m = (case m of M_create n \<Rightarrow> n | M_store n \<Rightarrow> Suc n | _ \<Rightarrow> 0)"

definition locked :: "variant \<Rightarrow> (nat \<Rightarrow> hpc) \<Rightarrow> (nat \<Rightarrow> bool) \<Rightarrow> bool" where
  "locked v f m \<longleftrightarrow> (\<forall>w<NTHREAD. has_mutex (f w) \<longrightarrow> m (mx v w)) \<and>
     (\<forall>w<NTHREAD. \<forall>u<NTHREAD. has_mutex (f w) \<and> has_mutex (f u) \<and> mx v w = mx v u \<longrightarrow> w = u)"

definition jinv :: "variant \<Rightarrow> qsys \<Rightarrow> nat list \<Rightarrow> bool" where
  "jinv v c xs \<longleftrightarrow> qrep (qs c) xs \<and> locked v (wpc c) (q_mutex (qs c)) \<and> (\<forall>w<NTHREAD. \<not> created (mpc c) w \<longrightarrow> wpc c w = H_off) \<and>
     (\<forall>k. stored (mpc c) k \<longrightarrow> q_thread (qs c) k = Suc k) \<and> next_thread (mpc c) \<le> NTHREAD \<and>
     (\<forall>w<NTHREAD. \<forall>p. wpc c w = H_remove p \<longrightarrow> first_of (Suc w) (qs c) xs = Some p) \<and>
     (\<forall>w<NTHREAD. done_by (Suc w) (q_out (qs c)) @ left (Suc w) (wpc c w) (qs c) xs = accepted w c)"

subsection \<open>Lists of jobs by thread\<close>

lemma queued_cong: "(\<And>a. a \<in> set xs \<Longrightarrow> item (q_jobs s) a = item (q_jobs t) a) \<Longrightarrow> queued k s xs = queued k t xs"
  unfolding queued_def by (metis (mono_tags, lifting) map_eq_conv)

lemma first_of_cong: "(\<And>a. a \<in> set xs \<Longrightarrow> item (q_jobs s) a = item (q_jobs t) a) \<Longrightarrow> first_of k s xs = first_of k t xs"
  unfolding first_of_def by (induction xs) auto

lemma queued_append [simp]: "queued k s (xs @ ys) = queued k s xs @ queued k s ys"
  by (simp add: queued_def)

lemma item_in: "qrep s xs \<Longrightarrow> a \<in> set xs \<Longrightarrow> \<exists>i. item (q_jobs s) a = Some i"
  using qrepD(3) [of s xs a] by (auto simp: item_def)

lemma first_of_None:
  assumes "qrep s xs" and "first_of k s xs = None"
  shows "queued k s xs = []"
proof -
  have "map_option fst (item (q_jobs s) a) \<noteq> Some k" if "a \<in> set xs" for a
    using assms(2) that by (auto simp: first_of_def find_None_iff)
  then have "fst (the (item (q_jobs s) a)) \<noteq> k" if "a \<in> set xs" for a using item_in [OF assms(1) that] that by fastforce
  then show ?thesis by (simp add: queued_def filter_empty_conv)
qed

text \<open>The first job of thread \<open>k\<close> in the queue.\<close>

lemma find_split:
  assumes "find P xs = Some p"
  shows "\<exists>us vs. xs = us @ p # vs \<and> P p \<and> (\<forall>a\<in>set us. \<not> P a)"
  using assms
proof (induction xs)
  case (Cons x xs)
  show ?case
  proof (cases "P x")
    case True
    then have "x # xs = [] @ p # xs \<and> P p" using Cons.prems by simp
    then show ?thesis by fastforce
  next
    case False
    then obtain us vs where "xs = us @ p # vs" "P p" "\<forall>a\<in>set us. \<not> P a" using Cons by auto
    then have "x # xs = (x # us) @ p # vs \<and> P p \<and> (\<forall>a\<in>set (x # us). \<not> P a)" using False by simp
    then show ?thesis by blast
  qed
qed simp

lemma first_of_split:
  assumes "qrep s xs" and "first_of k s xs = Some p"
  shows "\<exists>us vs d. xs = us @ p # vs \<and> item (q_jobs s) p = Some (k, d) \<and> queued k s us = [] \<and> queued k s xs = d # queued k s vs"
proof -
  obtain us vs where s: "xs = us @ p # vs" "map_option fst (item (q_jobs s) p) = Some k"
    "\<forall>a\<in>set us. map_option fst (item (q_jobs s) a) \<noteq> Some k"
    using find_split [OF assms(2) [unfolded first_of_def]] by blast
  obtain d where d: "item (q_jobs s) p = Some (k, d)" using s(2) by auto
  have "fst (the (item (q_jobs s) a)) \<noteq> k" if "a \<in> set us" for a using item_in [OF assms(1), of a] s(1,3) that by fastforce
  then have "queued k s us = []" by (simp add: queued_def filter_empty_conv)
  then show ?thesis using d s(1) by (auto simp: queued_def)
qed

subsection \<open>The pieces of a thread\<close>

text \<open>A piece that leaves the list alone and reports no job as done.\<close>

definition same_list :: "jqueue \<Rightarrow> jqueue \<Rightarrow> bool" where
  "same_list s t \<longleftrightarrow> q_head t = q_head s \<and> q_tail t = q_tail s \<and> q_lock t = q_lock s \<and> q_brk t = q_brk s \<and> q_jobs t = q_jobs s \<and>
     q_thread t = q_thread s \<and> q_gone t = q_gone s \<and> (\<forall>k. done_by k (q_out t) = done_by k (q_out s))"

fun quiet :: "hpc \<Rightarrow> bool" where
  "quiet H_find = False"
| "quiet (H_remove p) = False"
| "quiet h = True"

lemma m_lock_run: "m_lock i s = (if q_mutex s i then Hang else Ok () (s\<lparr>q_mutex := (q_mutex s)(i := True)\<rparr>))"
  by (simp add: m_lock_def mutex_lock_def)

lemma m_unlock_run: "q_mutex s i \<Longrightarrow> m_unlock i s = Ok () (s\<lparr>q_mutex := (q_mutex s)(i := False)\<rparr>)"
  by (simp add: m_unlock_def mutex_unlock_def)

lemmas piece_defs = bnd_def check_empty_def cond_sleep_def cond_wake_def qsay_def same_list_def m_lock_run m_unlock_run fun_upd_idem

lemma quiet_piece:
  assumes "quiet h"
  shows "\<exists>h' t. handle_piece self i h s = Ok h' t \<and> same_list s t \<and> \<not> removing h' \<and>
      (if has_mutex h' then \<not> q_mutex s i \<and> q_mutex t = (q_mutex s)(i := True) else q_mutex t = q_mutex s)
    \<or> handle_piece self i h s = Hang"
proof (cases h)
  case H_top
  then show ?thesis by (simp add: piece_defs)
next
  case H_empty
  then show ?thesis by (simp add: piece_defs)
next
  case H_relock
  then show ?thesis by (simp add: piece_defs)
next
  case H_woken
  then show ?thesis by (simp add: piece_defs)
qed (use assms in \<open>simp_all add: piece_defs\<close>)

lemma find_job_piece:
  assumes r: "qrep s xs" and "q_mutex s i"
  shows "handle_piece self i H_find s = (case first_of self s xs of
      None \<Rightarrow> Ok H_relock (s\<lparr>q_out := q_out s @ [Not_found_said self], q_mutex := (q_mutex s)(i := False)\<rparr>)
    | Some p \<Rightarrow> Ok (H_remove p) (s\<lparr>q_out := q_out s @ [Done_said self (hd (queued self s xs))]\<rparr>))"
proof (cases "first_of self s xs")
  case None
  then show ?thesis using assms by (simp add: job_find_run [OF r] bnd_def qsay_def m_unlock_run)
next
  case (Some p)
  obtain us vs d where p: "xs = us @ p # vs" "item (q_jobs s) p = Some (self, d)" "queued self s xs = d # queued self s vs"
    using first_of_split [OF r Some] by blast
  then obtain j where "q_jobs s p = Some j" "j_id j = self" "j_content j = d" "0 < p" using qrepD(3) [OF r, of p] by (auto simp: item_def)
  then show ?thesis using Some p(3) by (simp add: job_find_run [OF r] bnd_def qsay_def)
qed

text \<open>What is left of the list when the first job of a thread is taken out: nothing changes for the others.\<close>

definition taken :: "nat \<Rightarrow> jqueue \<Rightarrow> nat list \<Rightarrow> jqueue \<Rightarrow> nat list \<Rightarrow> bool" where
  "taken k s xs t ys \<longleftrightarrow> qrep t ys \<and> queued k t ys = tl (queued k s xs) \<and>
     (\<forall>u. u \<noteq> k \<longrightarrow> queued u t ys = queued u s xs \<and> first_of u t ys = first_of u s xs)"

lemma first_of_append: "first_of k s (xs @ ys) = (case first_of k s xs of None \<Rightarrow> first_of k s ys | Some x \<Rightarrow> Some x)"
  unfolding first_of_def by (induction xs) simp_all

lemma remove_piece:
  assumes r: "qrep s xs" and f: "first_of self s xs = Some p" and m: "q_mutex s i"
  shows "\<exists>t ys. handle_piece self i (H_remove p) s = Ok H_top t \<and> taken self s xs t ys \<and> q_mutex t = (q_mutex s)(i := False) \<and>
    q_thread t = q_thread s \<and> q_out t = q_out s \<and> q_gone t = q_gone s"
proof -
  obtain us vs d where p: "xs = us @ p # vs" "item (q_jobs s) p = Some (self, d)" "queued self s us = []" "queued self s xs = d # queued self s vs"
    using first_of_split [OF r f] by blast
  obtain H hd tl where h: "job_remove p s = Ok () (s\<lparr>q_jobs := H, q_head := hd, q_tail := tl, q_lock := False\<rparr>)"
    "ql.dlist H hd tl (us @ vs)" "item H = (item (q_jobs s))(p := None)"
    using job_remove_run [of s us p vs] r p(1) by blast
  let ?t = "s\<lparr>q_jobs := H, q_head := hd, q_tail := tl, q_lock := False, q_mutex := (q_mutex s)(i := False)\<rparr>"
  have pn: "p \<notin> set (us @ vs)" using qrepD(4) [OF r] p(1) by simp
  have same: "item (q_jobs ?t) a = item (q_jobs s) a" if "a \<in> set (us @ vs)" for a using that pn h(3) by auto
  have "H a = None" if "q_brk s \<le> a" for a
  proof -
    have "item H a = None" using h(3) that r by (simp add: item_def qrep_def)
    then show ?thesis by (simp add: item_def)
  qed
  then have rt: "qrep ?t (us @ vs)" using h(2) r by (simp add: qrep_def)
  have q: "queued u ?t (us @ vs) = queued u s (us @ vs)" and g: "first_of u ?t (us @ vs) = first_of u s (us @ vs)" for u
    by (rule queued_cong, rule same, assumption) (rule first_of_cong, rule same, assumption)
  have "queued u s (us @ vs) = queued u s xs \<and> first_of u s (us @ vs) = first_of u s xs" if "u \<noteq> self" for u
  proof -
    have "first_of u s (p # vs) = first_of u s vs" using p(2) that by (simp add: first_of_def)
    then show ?thesis using p(1,2) that by (simp add: queued_def first_of_append split: option.split)
  qed
  then have "taken self s xs ?t (us @ vs)" using rt q g p(3,4) by (simp add: taken_def)
  moreover have "handle_piece self i (H_remove p) s = Ok H_top ?t" using h(1) m by (simp add: bnd_def m_unlock_run)
  ultimately show ?thesis by (intro exI [of _ ?t] exI [of _ "us @ vs"]) simp
qed

subsection \<open>The mutexes\<close>

lemma locked_take:
  assumes "locked v f m" and "\<not> m (mx v w)"
  shows "locked v (f(w := h)) (m(mx v w := True))"
  using assms unfolding locked_def by (metis fun_upd_apply)

lemma locked_off:
  assumes "locked v f m" and "\<not> has_mutex h"
  shows "locked v (f(w := h)) m"
  using assms unfolding locked_def by (metis fun_upd_apply)

lemma locked_give:
  assumes "locked v f m" and "has_mutex (f w)" and "\<not> has_mutex h" and "w < NTHREAD"
  shows "locked v (f(w := h)) (m(mx v w := False))"
  using assms unfolding locked_def by (metis fun_upd_apply)

lemma locked_keep:
  assumes "locked v f m" and "has_mutex (f w)" and "w < NTHREAD"
  shows "locked v (f(w := h)) m"
  using assms unfolding locked_def by (metis fun_upd_apply)

lemma locked_held: "locked v f m \<Longrightarrow> has_mutex (f w) \<Longrightarrow> w < NTHREAD \<Longrightarrow> m (mx v w)"
  by (simp add: locked_def)

subsection \<open>Steps of the threads\<close>

lemma same_list_facts:
  assumes "same_list s t"
  shows "qrep t xs = qrep s xs" "queued k t xs = queued k s xs" "first_of k t xs = first_of k s xs" "done_by k (q_out t) = done_by k (q_out s)"
    "q_thread t = q_thread s" "q_gone t = q_gone s"
  using assms by (simp_all add: same_list_def qrep_def queued_def first_of_def)

lemma jinvD:
  assumes "jinv v c xs"
  shows "qrep (qs c) xs" "locked v (wpc c) (q_mutex (qs c))" "stored (mpc c) k \<Longrightarrow> q_thread (qs c) k = Suc k"
    "next_thread (mpc c) \<le> NTHREAD" "w < NTHREAD \<Longrightarrow> wpc c w = H_remove p \<Longrightarrow> first_of (Suc w) (qs c) xs = Some p"
    "w < NTHREAD \<Longrightarrow> done_by (Suc w) (q_out (qs c)) @ left (Suc w) (wpc c w) (qs c) xs = accepted w c"
  using assms by (simp_all add: jinv_def)

lemma accepted_qs [simp]: "accepted k (c\<lparr>qs := s, wpc := f\<rparr>) = accepted k c"
  by (simp add: accepted_def)

lemma jinv_quiet:
  assumes j: "jinv v c xs" and "same_list (qs c) t" and "\<not> removing (wpc c w) \<and> wpc c w \<noteq> H_off" and "\<not> removing h" and "locked v ((wpc c)(w := h)) (q_mutex t)"
  shows "jinv v (c\<lparr>qs := t, wpc := (wpc c)(w := h)\<rparr>) xs"
proof -
  note f = same_list_facts [OF assms(2)]
  have "left k h t xs = left k (wpc c w) (qs c) xs" "left k g t xs = left k g (qs c) xs" for k g using assms(3,4) f by (simp_all add: left_def)
  then show ?thesis using j assms(3-5) f by (auto simp: jinv_def)
qed

lemma worker_piece:
  assumes j: "jinv v c xs" and w: "w < NTHREAD"
  shows "(\<exists>h t ys. handle_piece (Suc w) (mx v w) (wpc c w) (qs c) = Ok h t \<and> jinv v (c\<lparr>qs := t, wpc := (wpc c)(w := h)\<rparr>) ys \<and>
      q_gone t = q_gone (qs c))
    \<or> handle_piece (Suc w) (mx v w) (wpc c w) (qs c) = Hang"
proof -
  let ?s = "qs c" and ?i = "mx v w" and ?p = "handle_piece (Suc w) (mx v w) (wpc c w) (qs c)"
  note r = jinvD(1) [OF j] and l = jinvD(2) [OF j]
  consider "quiet (wpc c w)" | "wpc c w = H_find" | p where "wpc c w = H_remove p" by (cases "wpc c w") auto
  then show ?thesis
  proof cases
    case 1
    consider h t where "?p = Ok h t" "same_list ?s t" "\<not> removing h"
        "if has_mutex h then \<not> q_mutex ?s ?i \<and> q_mutex t = (q_mutex ?s)(?i := True) else q_mutex t = q_mutex ?s"
      | "?p = Hang" using quiet_piece [OF 1, of "Suc w" ?i ?s] by blast
    then show ?thesis
    proof cases
      case (1 h t)
      have nr: "\<not> removing (wpc c w) \<and> wpc c w \<noteq> H_off" using \<open>quiet (wpc c w)\<close> 1(1) by (cases "wpc c w") (auto simp: hang_def)
      from 1 have "locked v ((wpc c)(w := h)) (q_mutex t)" using locked_take [OF l] locked_off [OF l] by (auto split: if_splits)
      then show ?thesis using jinv_quiet [OF j 1(2) nr 1(3)] 1(1) same_list_facts(6) [OF 1(2)] by blast
    qed simp
  next
    case 2
    have m: "q_mutex ?s ?i" using locked_held [OF l _ w] 2 by simp
    show ?thesis
    proof (cases "first_of (Suc w) ?s xs")
      case None
      let ?t = "?s\<lparr>q_out := q_out ?s @ [Not_found_said (Suc w)], q_mutex := (q_mutex ?s)(?i := False)\<rparr>"
      have "jinv v (c\<lparr>qs := ?t, wpc := (wpc c)(w := H_relock)\<rparr>) xs"
        by (rule jinv_quiet [OF j]) (use 2 locked_give [OF l _ _ w] in \<open>auto simp: same_list_def\<close>)
      then show ?thesis using find_job_piece [OF r m, of "Suc w"] 2 None by fastforce
    next
      case (Some p)
      let ?t = "?s\<lparr>q_out := q_out ?s @ [Done_said (Suc w) (hd (queued (Suc w) ?s xs))]\<rparr>"
      have nn: "queued (Suc w) ?s xs \<noteq> []" using first_of_split [OF r Some] by auto
      have q: "qrep ?t xs = qrep ?s xs" "queued k ?t xs = queued k ?s xs" "first_of k ?t xs = first_of k ?s xs" for k
        by (simp_all add: qrep_def queued_def first_of_def)
      have "locked v ((wpc c)(w := H_remove p)) (q_mutex ?t)" using locked_keep [OF l _ w] 2 by simp
      then have "jinv v (c\<lparr>qs := ?t, wpc := (wpc c)(w := H_remove p)\<rparr>) xs"
        using j 2 Some nn q by (auto simp: jinv_def left_def)
      then show ?thesis using find_job_piece [OF r m, of "Suc w"] 2 Some by fastforce
    qed
  next
    case (3 p)
    have m: "q_mutex ?s ?i" using locked_held [OF l _ w] 3 by simp
    obtain t ys where t: "handle_piece (Suc w) ?i (H_remove p) ?s = Ok H_top t" "taken (Suc w) ?s xs t ys" "q_mutex t = (q_mutex ?s)(?i := False)"
      "q_thread t = q_thread ?s" "q_out t = q_out ?s" "q_gone t = q_gone ?s"
      using remove_piece [OF r jinvD(5) [OF j w 3] m] by blast
    have "locked v ((wpc c)(w := H_top)) (q_mutex t)" using locked_give [OF l _ _ w] 3 t(3) by simp
    then have "jinv v (c\<lparr>qs := t, wpc := (wpc c)(w := H_top)\<rparr>) ys"
      using j 3 t(2,4,5) w by (auto simp: jinv_def taken_def left_def)
    then show ?thesis using t(1,6) 3 by auto
  qed
qed

subsection \<open>Steps of \<open>main\<close>\<close>

text \<open>A piece of \<open>main\<close> that takes a line: the list is as it was, or the job is at its end.\<close>

definition took_line :: "string \<Rightarrow> jqueue \<Rightarrow> nat list \<Rightarrow> nat \<Rightarrow> jqueue \<Rightarrow> nat list \<Rightarrow> bool" where
  "took_line l s xs i t ys \<longleftrightarrow> (if i = NTHREAD then same_list s t \<and> ys = xs \<and> q_mutex t = q_mutex s
     else line_thread l \<noteq> 0 \<and> appended s xs (line_thread l, l) t \<and> ys = xs @ [q_brk s] \<and> (\<forall>k. done_by k (q_out t) = done_by k (q_out s)))"

lemma line_thread_le: "line_thread l \<le> NTHREAD"
  by (auto simp: line_thread_def Let_def split: list.splits)

lemma thread_index_run:
  assumes "\<forall>k<NTHREAD. q_thread s k = Suc k" and "k < NTHREAD"
  shows "thread_index (Suc k) s = k"
proof -
  consider "k = 0" | "k = 1" | "k = 2" using assms(2) by linarith
  then show ?thesis using assms(1) by cases (simp_all add: thread_index_def upt_rec)
qed

lemma malloc_qjob_cases:
  obtains fs where "malloc_qjob s = Ok (q_brk s) (s\<lparr>q_fails := fs, q_brk := Suc (q_brk s), q_jobs := (q_jobs s)(q_brk s \<mapsto> q_junk s)\<rparr>)"
    | fs where "malloc_qjob s = Ok 0 (s\<lparr>q_fails := fs\<rparr>)"
proof (cases "q_fails s")
  case Nil
  then have "malloc_qjob s = Ok (q_brk s) (s\<lparr>q_fails := q_fails s, q_brk := Suc (q_brk s), q_jobs := (q_jobs s)(q_brk s \<mapsto> q_junk s)\<rparr>)"
    by (simp add: malloc_qjob_def may_fail_def)
  then show ?thesis by (rule that(1))
next
  case (Cons b fs)
  then show ?thesis using that by (cases b) (simp_all add: malloc_qjob_def may_fail_def)
qed

lemma line_job_facts:
  assumes "\<forall>k<NTHREAD. q_thread s k = Suc k" and "line_thread l \<noteq> 0"
  shows "j_id (line_job l s) = line_thread l" "j_content (line_job l s) = l" "line_thread l - 1 < NTHREAD"
    "q_thread u = q_thread s \<Longrightarrow> thread_index (line_thread l) u = line_thread l - 1"
  using assms line_thread_le [of l] thread_index_run [of u "line_thread l - 1"] by (simp_all add: line_job_def)

lemma put_job_run:
  assumes r: "qrep s xs" and t: "\<forall>k<NTHREAD. q_thread s k = Suc k" and l: "line_thread l \<noteq> 0"
  shows "(\<exists>i t ys. put_job link_back (line_job l s) s = Ok i t \<and> took_line l s xs i t ys) \<or> put_job link_back (line_job l s) s = Hang"
proof (cases s rule: malloc_qjob_cases)
  case (1 fs)
  let ?k = "line_thread l - 1" and ?j = "line_job l s" and ?a = "q_brk s"
  let ?u = "s\<lparr>q_fails := fs, q_brk := Suc ?a, q_jobs := (q_jobs s)(?a \<mapsto> ?j), q_mutex := (q_mutex s)(?k := True)\<rparr>"
  have u: "?u = s\<lparr>q_brk := Suc ?a, q_jobs := (q_jobs s)(?a \<mapsto> ?j), q_fails := fs, q_mutex := (q_mutex s)(?k := True)\<rparr>"
    by (rule jqueue.equality) simp_all
  note j = line_job_facts [OF t l]
  have a: "0 < ?a" using r by (simp add: qrep_def)
  obtain H hd where h: "link_back ?a ?u = Ok () (?u\<lparr>q_jobs := H, q_head := hd, q_tail := ?a, q_lock := False\<rparr>)"
    "appended s xs (line_thread l, l) (?u\<lparr>q_jobs := H, q_head := hd, q_tail := ?a, q_lock := False, q_mutex := q_mutex s, q_out := q_out s\<rparr>)"
    using append_core [OF r u, where ot = "q_out s"] j by auto
  show ?thesis
  proof (cases "q_mutex s ?k")
    case True
    then show ?thesis using 1 a j by (simp add: put_job_def bnd_def m_lock_run)
  next
    case False
    then have "put_job link_back ?j s = Ok ?k (?u\<lparr>q_jobs := H, q_head := hd, q_tail := ?a, q_lock := False, q_mutex := q_mutex s, q_out := q_out s\<rparr>)"
      using 1 a h(1) j by (simp add: put_job_def bnd_def m_lock_run m_unlock_run fun_upd_idem)
    moreover have "?k \<noteq> NTHREAD" using j(3) by simp
    ultimately show ?thesis using h(2) l by (fastforce simp: took_line_def)
  qed
next
  case (2 fs)
  then have "put_job link_back (line_job l s) s = Ok NTHREAD (s\<lparr>q_fails := fs\<rparr>)" by (simp add: put_job_def bnd_def)
  then show ?thesis by (auto simp: took_line_def same_list_def)
qed

lemma line_piece_rw_run:
  assumes r: "qrep s xs" and t: "\<forall>k<NTHREAD. q_thread s k = Suc k" and l: "line_thread l \<noteq> 0"
  shows "(\<exists>i t ys. line_piece_rw l s = Ok i t \<and> took_line l s xs i t ys) \<or> line_piece_rw l s = Hang"
proof (cases "q_mutex s 0")
  case True
  then show ?thesis using l by (simp add: line_piece_rw_def bnd_def m_lock_run)
next
  case m: False
  let ?v = "s\<lparr>q_mutex := (q_mutex s)(0 := True)\<rparr>" and ?j = "line_job l s" and ?a = "q_brk s"
  let ?said = "q_out s @ [Append_said (line_thread l)]"
  note j = line_job_facts [OF t l]
  have a: "0 < ?a" using r by (simp add: qrep_def)
  show ?thesis
  proof (cases ?v rule: malloc_qjob_cases)
    case (1 fs)
    let ?u = "s\<lparr>q_mutex := (q_mutex s)(0 := True), q_fails := fs, q_brk := Suc ?a, q_jobs := (q_jobs s)(?a \<mapsto> ?j)\<rparr>"
    have u: "?u = s\<lparr>q_brk := Suc ?a, q_jobs := (q_jobs s)(?a \<mapsto> ?j), q_fails := fs, q_mutex := (q_mutex s)(0 := True)\<rparr>"
      by (rule jqueue.equality) simp_all
    obtain H hd where h: "link_back ?a ?u = Ok () (?u\<lparr>q_jobs := H, q_head := hd, q_tail := ?a, q_lock := False\<rparr>)"
      "appended s xs (line_thread l, l) (?u\<lparr>q_jobs := H, q_head := hd, q_tail := ?a, q_lock := False, q_mutex := q_mutex s, q_out := ?said\<rparr>)"
      using append_core [OF r u, where ot = ?said] j by auto
    have "line_piece_rw l s = Ok 0 (?u\<lparr>q_jobs := H, q_head := hd, q_tail := ?a, q_lock := False, q_mutex := q_mutex s, q_out := ?said\<rparr>)"
      using 1 a h(1) j m l by (simp add: line_piece_rw_def job_append_rw_def qsay_def bnd_def m_lock_run m_unlock_run fun_upd_idem)
    then show ?thesis using h(2) l by (fastforce simp: took_line_def)
  next
    case (2 fs)
    have "line_piece_rw l s = Ok NTHREAD (s\<lparr>q_fails := fs, q_out := ?said\<rparr>)"
      using 2 m l j by (simp add: line_piece_rw_def job_append_rw_def qsay_def bnd_def m_lock_run m_unlock_run fun_upd_idem)
    then show ?thesis by (auto simp: took_line_def same_list_def)
  qed
qed

lemma line_piece_run:
  assumes "qrep s xs" and "\<forall>k<NTHREAD. q_thread s k = Suc k"
  shows "(\<exists>i t ys. line_piece v l s = Ok i t \<and> took_line l s xs i t ys) \<or> line_piece v l s = Hang"
proof (cases "line_thread l = 0")
  case True
  then have "line_piece v l s = Ok NTHREAD (s\<lparr>q_out := q_out s @ [Not_supported_said]\<rparr>)"
    by (cases v) (simp_all add: line_piece_q_def line_piece_rw_def bnd_def qsay_def)
  then show ?thesis by (auto simp: took_line_def same_list_def)
next
  case False
  then show ?thesis using put_job_run [OF assms False] line_piece_rw_run [OF assms False] by (cases v) (auto simp: line_piece_q_def bnd_def)
qed

text \<open>The invariant after a line.\<close>

lemma took_line_jinv:
  assumes j: "jinv v c xs" and t: "took_line l (qs c) xs i t ys" and m: "created m = created (mpc c)" "stored m = stored (mpc c)" "next_thread m = 0"
  shows "jinv v (c\<lparr>qs := t, input := ls, mpc := m, acc := (if i = NTHREAD then acc c else acc c @ [(line_thread l - 1, l)])\<rparr>) ys"
proof (cases "i = NTHREAD")
  case True
  then have s: "same_list (qs c) t" "ys = xs" "q_mutex t = q_mutex (qs c)" using t by (simp_all add: took_line_def)
  note f = same_list_facts [OF s(1)]
  have "left k h t xs = left k h (qs c) xs" for k h using f by (simp add: left_def)
  then show ?thesis using j True s(2,3) f m by (simp add: jinv_def accepted_def)
next
  case False
  then have a: "line_thread l \<noteq> 0" "appended (qs c) xs (line_thread l, l) t" "ys = xs @ [q_brk (qs c)]"
    "\<forall>k. done_by k (q_out t) = done_by k (q_out (qs c))" using t by (simp_all add: took_line_def)
  note r = jinvD(1) [OF j]
  have "q_brk (qs c) \<notin> set xs" using qrepD(3) [OF r, of "q_brk (qs c)"] by auto
  then have same: "item (q_jobs t) b = item (q_jobs (qs c)) b" if "b \<in> set xs" for b using a(2) that by (auto simp: appended_def)
  have q: "queued k t ys = queued k (qs c) xs @ (if k = line_thread l then [l] else [])" for k
    using queued_cong [of xs t "qs c", OF same] a(2,3) by (simp add: appended_def queued_def)
  have f: "first_of k t ys = Some p" if "first_of k (qs c) xs = Some p" for k p
    using first_of_cong [of xs t "qs c", OF same] that a(3) by (simp add: first_of_append)
  have "left (Suc w) (wpc c w) t ys = left (Suc w) (wpc c w) (qs c) xs @ (if Suc w = line_thread l then [l] else [])" if "w < NTHREAD" for w
  proof (cases "removing (wpc c w)")
    case True
    then obtain p where "wpc c w = H_remove p" by (cases "wpc c w") auto
    then have "queued (Suc w) (qs c) xs \<noteq> []" using first_of_split [OF r jinvD(5) [OF j that]] by fastforce
    then show ?thesis using True q by (simp add: left_def)
  qed (simp add: left_def q)
  then show ?thesis using j False a f m by (auto simp: jinv_def accepted_def appended_def)
qed

lemma jinv_out:
  assumes "jinv v c xs" and "same_list (qs c) t" and "q_mutex t = q_mutex (qs c)" and "created m = created (mpc c)"
    and "stored m = stored (mpc c)" and "next_thread m \<le> NTHREAD"
  shows "jinv v (c\<lparr>qs := t, mpc := m\<rparr>) xs"
proof -
  note f = same_list_facts [OF assms(2)]
  have "left k h t xs = left k h (qs c) xs" for k h using f by (simp add: left_def)
  then show ?thesis using assms(1,3-6) f by (simp add: jinv_def accepted_def)
qed

lemma jinv_mpc:
  assumes "jinv v c xs" and "created m = created (mpc c)" and "stored m = stored (mpc c)" and "next_thread m \<le> NTHREAD"
  shows "jinv v (c\<lparr>mpc := m\<rparr>) xs"
  using jinv_out [of v c xs "qs c" m] assms by (simp add: same_list_def)

lemma created_simps [simp]:
  "created (M_create n) = (\<lambda>k. k < n)" "created (M_store n) = (\<lambda>k. k \<le> n)" "created M_read = (\<lambda>k. k < NTHREAD)"
  "created (M_signal l i) = (\<lambda>k. k < NTHREAD)" "created (M_join n) = (\<lambda>k. k < NTHREAD)" "created M_destroy = (\<lambda>k. k < NTHREAD)"
  "created M_exit = (\<lambda>k. k < NTHREAD)"
  by (simp_all add: created_def fun_eq_iff)

lemma stored_simps [simp]:
  "stored (M_create n) = (\<lambda>k. k < n)" "stored (M_store n) = (\<lambda>k. k < n)" "stored M_read = (\<lambda>k. k < NTHREAD)"
  "stored (M_signal l i) = (\<lambda>k. k < NTHREAD)" "stored (M_join n) = (\<lambda>k. k < NTHREAD)" "stored M_destroy = (\<lambda>k. k < NTHREAD)"
  "stored M_exit = (\<lambda>k. k < NTHREAD)"
  by (simp_all add: stored_def fun_eq_iff)

lemma next_thread_simps [simp]:
  "next_thread (M_create n) = n" "next_thread (M_store n) = Suc n" "next_thread M_read = 0" "next_thread (M_signal l i) = 0"
  "next_thread (M_join n) = 0" "next_thread M_destroy = 0" "next_thread M_exit = 0"
  by (simp_all add: next_thread_def)

lemma signal_piece_run: "\<exists>t. signal_piece v l i s = Ok () t \<and> same_list s t \<and> q_mutex t = q_mutex s"
  by (cases v; cases "q_waits s i")
    (simp_all add: signal_piece_q_def signal_piece_rw_def cond_signal_def cond_broadcast_def bnd_def qsay_def same_list_def)

lemma create_jinv:
  assumes j: "jinv v c xs" and "mpc c = M_create k" and k: "k < NTHREAD"
  shows "jinv v (c\<lparr>qs := (qs c)\<lparr>q_fails := fs\<rparr>, wpc := (wpc c)(k := (if v = Queue_c then H_start else H_top)), mpc := M_store k\<rparr>) xs"
proof -
  let ?t = "(qs c)\<lparr>q_fails := fs\<rparr>"
  have "qrep ?t xs = qrep (qs c) xs" "left n g ?t xs = left n g (qs c) xs" "first_of n ?t xs = first_of n (qs c) xs" for n g
    by (simp_all add: qrep_def left_def queued_def first_of_def)
  moreover have "wpc c k = H_off" using j assms(2) k by (simp add: jinv_def)
  then have "left n (if v = Queue_c then H_start else H_top) (qs c) xs = left n (wpc c k) (qs c) xs" for n by (simp add: left_def)
  moreover have "locked v ((wpc c)(k := (if v = Queue_c then H_start else H_top))) (q_mutex (qs c))" using jinvD(2) [OF j] by (auto intro: locked_off)
  ultimately show ?thesis using j assms(2) k by (auto simp: jinv_def accepted_def)
qed

lemma store_jinv:
  assumes j: "jinv v c xs" and "mpc c = M_store k"
  shows "jinv v (c\<lparr>qs := (qs c)\<lparr>q_thread := (q_thread (qs c))(k := Suc k)\<rparr>, mpc := M_create (Suc k)\<rparr>) xs"
proof -
  let ?t = "(qs c)\<lparr>q_thread := (q_thread (qs c))(k := Suc k)\<rparr>"
  have "qrep ?t xs = qrep (qs c) xs" "left n g ?t xs = left n g (qs c) xs" "first_of n ?t xs = first_of n (qs c) xs" for n g
    by (simp_all add: qrep_def left_def queued_def first_of_def)
  then show ?thesis using j assms(2) by (auto simp: jinv_def accepted_def less_Suc_eq less_Suc_eq_le)
qed

lemma main_jinv:
  assumes j: "jinv v c xs" and m: "main_step v c = Some d"
  shows "over d \<or> (\<exists>ys. jinv v d ys)"
proof (cases "mpc c")
  case (M_create k)
  show ?thesis
  proof (cases "k = NTHREAD")
    case True
    then show ?thesis using m M_create jinv_mpc [OF j, of M_read] by (auto simp: main_step_def)
  next
    case False
    then have k: "k < NTHREAD" using jinvD(4) [OF j] M_create by simp
    have none: "jinv v (c\<lparr>wpc := (wpc c)(k := (if v = Queue_c then H_start else H_top)), mpc := M_store k\<rparr>) xs"
      using create_jinv [OF j M_create k, of "q_fails (qs c)"] by simp
    consider "q_fails (qs c) = []" | fs where "q_fails (qs c) = False # fs" | fs where "q_fails (qs c) = True # fs" by (cases "q_fails (qs c)") auto
    then show ?thesis
      using m M_create False create_jinv [OF j M_create k] none
      by cases (auto simp: main_step_def create_piece_def may_fail_def over_def)
  qed
next
  case (M_store k)
  then show ?thesis using m store_jinv [OF j M_store] by (auto simp: main_step_def store_piece_def)
next
  case M_read
  have t: "\<forall>k<NTHREAD. q_thread (qs c) k = Suc k" using jinvD(3) [OF j] M_read by simp
  show ?thesis
  proof (cases "input c")
    case Nil
    then show ?thesis using m M_read jinv_mpc [OF j, of "if v = Queue_c then M_join 0 else M_destroy"] by (auto simp: main_step_def split: if_splits)
  next
    case (Cons l ls)
    then obtain i u ys where "line_piece v l (qs c) = Ok i u" "took_line l (qs c) xs i u ys"
      using line_piece_run [OF jinvD(1) [OF j] t, of v l] m M_read by (fastforce simp: main_step_def)
    then show ?thesis using took_line_jinv [OF j, of l i u ys "if line_thread l = 0 then M_read else M_signal l i" ls] m M_read Cons
      by (auto simp: main_step_def split: if_splits)
  qed
next
  case (M_signal l i)
  then show ?thesis using signal_piece_run [of v l i "qs c"] jinv_out [OF j, of _ M_read] m by (force simp: main_step_def)
next
  case (M_join k)
  then show ?thesis using m jinv_mpc [OF j, of "M_join (Suc k)"] by (auto simp: main_step_def over_def split: if_splits)
next
  case M_destroy
  let ?t = "(qs c)\<lparr>q_gone := True\<rparr>"
  have "qrep ?t xs = qrep (qs c) xs" "left n g ?t xs = left n g (qs c) xs" "first_of n ?t xs = first_of n (qs c) xs" for n g
    by (simp_all add: qrep_def left_def queued_def first_of_def)
  then have "jinv v (c\<lparr>qs := ?t, mpc := M_exit\<rparr>) xs" using j M_destroy by (simp add: jinv_def accepted_def)
  then show ?thesis using m M_destroy by (auto simp: main_step_def destroy_piece_def)
qed (use m in \<open>auto simp: main_step_def over_def\<close>)

subsection \<open>Every reachable state\<close>

lemma init_conds_run: "\<exists>err t. init_conds n s = Ok err t \<and> (\<exists>fs. t = s\<lparr>q_fails := fs\<rparr>)"
proof (induction n arbitrary: s)
  case 0
  have "init_conds 0 s = Ok 0 (s\<lparr>q_fails := q_fails s\<rparr>)" by simp
  then show ?case by blast
next
  case (Suc n)
  have m: "\<exists>err fs. may_fail 12 (ret 0) u = Ok (err :: int) (u\<lparr>q_fails := fs\<rparr>)" for u
  proof (cases "q_fails u")
    case Nil
    then have "may_fail 12 (ret 0) u = Ok (0 :: int) (u\<lparr>q_fails := q_fails u\<rparr>)" by (simp add: may_fail_def)
    then show ?thesis by blast
  qed (auto simp: may_fail_def split: bool.split)
  obtain e1 f1 where "may_fail 12 (ret 0) s = Ok (e1 :: int) (s\<lparr>q_fails := f1\<rparr>)" using m [of s] by blast
  moreover obtain e2 f2 where "may_fail 12 (ret 0) (s\<lparr>q_fails := f1\<rparr>) = Ok (e2 :: int) (s\<lparr>q_fails := f2\<rparr>)"
    using m [of "s\<lparr>q_fails := f1\<rparr>"] by auto
  moreover obtain e t fs where "init_conds n (s\<lparr>q_fails := f2\<rparr>) = Ok e t" "t = s\<lparr>q_fails := fs\<rparr>" using Suc.IH [of "s\<lparr>q_fails := f2\<rparr>"] by auto
  ultimately show ?case by (auto simp: bnd_def)
qed

lemma init_piece_run:
  assumes "no_jobs s"
  shows "\<exists>err t. init_piece v s = Ok err t \<and> (err = 0 \<longrightarrow> no_jobs t \<and> q_head t = 0 \<and> q_tail t = 0)"
proof -
  let ?c = "s\<lparr>q_head := 0, q_tail := 0\<rparr>"
  obtain n where n: "init_piece v s = queue_init_n n s" by (cases v) (auto simp: queue_init_q_def queue_init_rw_def)
  have ok: "\<exists>err t. init_conds n u = Ok err t \<and> (err = 0 \<longrightarrow> no_jobs t \<and> q_head t = 0 \<and> q_tail t = 0)"
    if "no_jobs u" "q_head u = 0" "q_tail u = 0" for u
    using init_conds_run [of n u] that by (auto simp: no_jobs_def)
  have u: "no_jobs (?c\<lparr>q_lock := False, q_mutex := m, q_waits := w\<rparr>)"
    "no_jobs (?c\<lparr>q_fails := fs, q_lock := False, q_mutex := m, q_waits := w\<rparr>)" for fs m w
    using assms by (simp_all add: no_jobs_def)
  show ?thesis
  proof (cases "q_fails s")
    case Nil
    then show ?thesis using ok [OF u(1)] by (simp add: n queue_init_n_def clear_queue_def bnd_def may_fail_def)
  next
    case (Cons b fs)
    then show ?thesis using ok [OF u(2)] by (cases b) (auto simp: n queue_init_n_def clear_queue_def bnd_def may_fail_def)
  qed
qed

lemma main_start_jinv:
  assumes "no_jobs s"
  shows "over (main_start v s ls) \<or> jinv v (main_start v s ls) []"
proof -
  have go: "over (main_start v s ls) \<or> jinv v (main_start v s ls) []" if t: "may_fail False (ret True) s = Ok True t" and n: "no_jobs t" for t
  proof -
    obtain err u where u: "init_piece v t = Ok err u" "err = 0 \<longrightarrow> no_jobs u \<and> q_head u = 0 \<and> q_tail u = 0" using init_piece_run [OF n] by blast
    show ?thesis
    proof (cases "err = 0")
      case True
      then have "qrep u []" using u(2) by (simp add: qrep_def no_jobs_def)
      then show ?thesis using True t u
        by (simp add: main_start_def jinv_def locked_def left_def queued_def accepted_def no_jobs_def)
    qed (use t u in \<open>simp add: main_start_def over_def\<close>)
  qed
  have "no_jobs (s\<lparr>q_fails := fs\<rparr>)" for fs using assms by (simp add: no_jobs_def)
  then show ?thesis using go assms
    by (cases "q_fails s") (auto simp: may_fail_def main_start_def over_def split: bool.splits)
qed

lemma worker_jinv:
  assumes "jinv v c xs" and "w < NTHREAD" and "worker_step v w c = Some d"
  shows "\<exists>ys. jinv v d ys"
  using worker_piece [OF assms(1,2)] assms(3) by (auto simp: worker_step_def alive_def split: if_splits)

theorem jobs_inv: "qreach v c \<Longrightarrow> over c \<or> (\<exists>xs. jinv v c xs)"
proof (induction rule: qreach.induct)
  case (start s ls)
  then show ?case using main_start_jinv by blast
next
  case (next_step c d)
  show ?case
  proof (cases "over c")
    case True
    then have "\<not> qstep v c d" by (auto simp: qstep.simps worker_step_def main_step_def over_def split: mpc.splits)
    then show ?thesis using next_step by blast
  next
    case False
    then obtain xs where j: "jinv v c xs" using next_step by blast
    show ?thesis using \<open>qstep v c d\<close>
    proof cases
      case (worker w)
      then show ?thesis using worker_jinv [OF j] by blast
    next
      case main
      then show ?thesis using main_jinv [OF j] by blast
    qed
  qed
qed

end
