(* ===== verification/Job_Props.thy ===== *)
theory Job_Props
  imports Job_Threads
begin

section \<open>Properties of the job queue programs\<close>

text \<open>A state of the programs' memory before \<open>main\<close>, and the execution of a given schedule: \<open>None\<close> is \<open>main\<close>, \<open>Some w\<close> a thread.\<close>

definition q_fresh :: jqueue where
  "q_fresh = \<lparr>q_head = 0, q_tail = 0, q_lock = False, q_mutex = (\<lambda>_. False), q_thread = (\<lambda>_. 0), q_waits = (\<lambda>_. []), q_woken = (\<lambda>_. False),
     q_jobs = (\<lambda>_. None), q_brk = 1, q_junk = \<lparr>j_next = 0, j_prev = 0, j_id = 0, j_content = []\<rparr>, q_fails = [], q_out = [], q_gone = False\<rparr>"

fun exec_schedule :: "variant \<Rightarrow> nat option list \<Rightarrow> qsys \<Rightarrow> qsys option" where
  "exec_schedule v [] c = Some c"
| "exec_schedule v (a # as) c =
     (case (case a of None \<Rightarrow> main_step v c | Some w \<Rightarrow> if w < NTHREAD then worker_step v w c else None) of
        None \<Rightarrow> None
      | Some d \<Rightarrow> exec_schedule v as d)"

lemma exec_schedule_reach: "exec_schedule v as c = Some d \<Longrightarrow> qreach v c \<Longrightarrow> qreach v d"
proof (induction as arbitrary: c)
  case (Cons a as)
  then have "\<exists>e. qstep v c e \<and> exec_schedule v as e = Some d"
    by (fastforce split: option.splits if_splits intro: qstep.intros)
  then show ?case using Cons.IH Cons.prems(2) qreach.next_step by blast
qed simp

lemma q_fresh_no_jobs: "no_jobs q_fresh"
  by (simp add: q_fresh_def no_jobs_def)

lemmas system_defs = main_start_def main_step_def worker_step_def alive_def over_def queue_init_q_def queue_init_rw_def queue_init_n_def clear_queue_def
  may_fail_def create_piece_def store_piece_def line_piece_q_def line_piece_rw_def put_job_def job_append_rw_def malloc_qjob_def qj_get_def qj_set_def at_def
  link_back_def rw_lock_def rw_unlock_def mutex_lock_def mutex_unlock_def m_lock_def m_unlock_def check_empty_def cond_sleep_def cond_wake_def
  cond_signal_def cond_broadcast_def signal_piece_q_def signal_piece_rw_def qsay_def job_find_def job_remove_def free_qjob_def line_job_def
  line_thread_def thread_index_def bnd_def numeral_2_eq_2 numeral_3_eq_3 upt_rec hang_def

text \<open>
  \<open>main\<close> starts the threads and appends a job for the second one. The first thread finds nothing for itself and lets go of its mutex; \<open>main\<close> appends a job
  for it and signals, before the thread waits.
\<close>

definition lost_run :: "nat option list" where
  "lost_run = [None, None, None, None, None, None, None, None, None, Some 0, Some 0, Some 0, None, None, Some 0, None,
     Some 1, Some 1, Some 1, Some 1, Some 1, Some 1, Some 1, Some 2, Some 2, Some 2, Some 2]"

lemma lost_run_ends:
  "\<exists>c. exec_schedule Queue_c lost_run (main_start Queue_c q_fresh [''2a'', ''1b'']) = Some c \<and> mpc c = M_join 0 \<and> input c = [] \<and>
     wpc c = (\<lambda>w. if w < NTHREAD then H_woken else H_off) \<and> \<not> q_woken (qs c) 1 \<and> \<not> q_woken (qs c) 2 \<and> \<not> q_woken (qs c) 3 \<and>
     \<not> q_gone (qs c) \<and> done_by 1 (q_out (qs c)) = [] \<and> done_by 2 (q_out (qs c)) = [''2a''] \<and> acc c = [(1, ''2a''), (0, ''1b'')]"
  by (simp add: lost_run_def q_fresh_def system_defs) (auto simp: fun_eq_iff)

lemma lost_run_reach:
  assumes "exec_schedule Queue_c lost_run (main_start Queue_c q_fresh ls) = Some c"
  shows "qreach Queue_c c"
  using exec_schedule_reach [OF assms] qreach.start [OF q_fresh_no_jobs] by blast

text \<open>A thread of \<open>queue.c\<close> that runs before its identifier is stored does not find itself and ends: the jobs for it are never done.\<close>

lemma early_thread_ends:
  "\<exists>c. exec_schedule Queue_c [None, Some 0] (main_start Queue_c q_fresh ls) = Some c \<and> wpc c 0 = H_done"
  by (simp add: q_fresh_def system_defs)



text \<open>
  C40: A wake-up of \<open>queue.c\<close> can be lost, because \<open>handle_job\<close> gives its mutex back before it waits: there is a reachable state in which the input is
  used up and a job for the first thread is in the queue, but all threads wait, \<open>main\<close> waits for the first one to end, and nothing can move any more.
\<close>

theorem wakeup_lost:
  "\<exists>c xs. qreach Queue_c c \<and> mpc c = M_join 0 \<and> input c = [] \<and> qrep (qs c) xs \<and> queued 1 (qs c) xs = [''1b''] \<and>
     wpc c = (\<lambda>w. if w < NTHREAD then H_woken else H_off) \<and> (\<forall>d. \<not> qstep Queue_c c d)"
proof -
  obtain c where c: "exec_schedule Queue_c lost_run (main_start Queue_c q_fresh [''2a'', ''1b'']) = Some c" "mpc c = M_join 0" "input c = []"
    "wpc c = (\<lambda>w. if w < NTHREAD then H_woken else H_off)" "\<not> q_woken (qs c) 1" "\<not> q_woken (qs c) 2" "\<not> q_woken (qs c) 3"
    "done_by 1 (q_out (qs c)) = []" "acc c = [(1, ''2a''), (0, ''1b'')]" using lost_run_ends by blast
  note r = lost_run_reach [OF c(1)]
  obtain xs where j: "jinv Queue_c c xs" using jobs_inv [OF r] c(2) by (auto simp: over_def)
  have "queued 1 (qs c) xs = [''1b'']" using jinvD(6) [OF j, of 0] c(4,8,9) by (simp add: left_def accepted_def)
  moreover have "\<not> q_woken (qs c) (Suc w)" if w: "w < NTHREAD" for w
  proof -
    consider "w = 0" | "w = 1" | "w = 2" using w by linarith
    then show ?thesis using c(5-7) by cases (simp_all add: numeral_2_eq_2 numeral_3_eq_3)
  qed
  then have "worker_step Queue_c w c = None" if "w < NTHREAD" for w using that c(4)
    by (simp add: worker_step_def alive_def bnd_def cond_wake_def)
  then have "\<not> qstep Queue_c c d" for d using c(2,4) by (auto simp: qstep.simps main_step_def)
  ultimately show ?thesis using r c(2,3,4) jinvD(1) [OF j] by blast
qed

end
