(* ===== verification/Open_Model.thy ===== *)
theory Open_Model
  imports Stream_IO
begin

section \<open>The open server: \<open>ipc2/\<close>, and passing descriptors: \<open>lib/sendfd.c\<close>, \<open>lib/recvfd.c\<close>, \<open>lib/senderr.c\<close>, \<open>lib/bufargs.c\<close>\<close>

text \<open>
  A client asks for a file by name; the server opens it and passes the open descriptor back over a UNIX socket, or a message and an error
  status. There are two servers with the same task: \<open>opend\<close>, with a loop around \<open>select\<close> and another around \<open>poll\<close>, and \<open>open_server\<close>, a
  rewrite; \<open>opend.fe\<close> is the part of \<open>opend\<close> that serves one client. Definitions for \<open>open_server\<close> carry the suffix \<open>_os\<close>, those for \<open>opend.fe\<close> the suffix \<open>_fe\<close>.

  Record \<open>oserv\<close> has the server's variables beside its environment. \<open>sv_ctl fd\<close> lists the open files that were passed over socket \<open>fd\<close>, each with the
  position in the byte stream it travels with. \<open>sv_pending\<close> are the connections waiting to be accepted, each with the pathname the client has
  bound; \<open>sv_stat\<close> is what \<open>stat\<close> says about a pathname. \<open>sv_ready\<close> says for every coming call of \<open>select\<close> or \<open>poll\<close> which descriptors it reports, and
  whether \<open>poll\<close> reports that the peer hung up.
\<close>

record Client =
  cl_fd :: int
  cl_uid :: int

record statbuf =
  st_sock :: bool
  st_mode :: int
  st_atime :: int
  st_ctime :: int
  st_mtime :: int
  st_uid :: int

record oserv = net +
  errmsg :: string
  pathname :: string
  oflag_arg :: int
  clients :: "Client list option"
  cmptr :: bool
  sv_ctl :: "int \<Rightarrow> (nat \<times> ofd) list"
  sv_pending :: "(string \<times> sock) list"
  sv_stat :: "string \<Rightarrow> statbuf option"
  sv_time :: int
  sv_ready :: "(int \<times> bool) list list"
  sv_junk :: int
  sv_stdout :: string

subsection \<open>Splitting a request into arguments\<close>

definition white :: "char \<Rightarrow> bool" where
  "white c \<longleftrightarrow> c \<in> {CHR '' '', CHR 0x09, CHR 0x0A}"

text \<open>\<open>strtok\<close> on the string left over from the last call: the token, and what is left.\<close>

definition strtok :: "string \<Rightarrow> (string \<times> string) option" where
  "strtok s = (let r = dropWhile white s in
     if r = [] then None else Some (takeWhile (\<lambda>c. \<not> white c) r, tl (dropWhile (\<lambda>c. \<not> white c) r)))"

lemma strtok_shorter: "strtok s = Some (t, r) \<Longrightarrow> length r < length s"
proof -
  assume a: "strtok s = Some (t, r)"
  let ?d = "dropWhile white s"
  have "?d \<noteq> []" and r: "r = tl (dropWhile (\<lambda>c. \<not> white c) ?d)" using a by (auto simp: strtok_def Let_def split: if_splits)
  then have "\<not> white (hd ?d)" by (simp add: hd_dropWhile)
  then have "length (dropWhile (\<lambda>c. \<not> white c) ?d) < length ?d" using \<open>?d \<noteq> []\<close> by (cases ?d) (simp_all add: length_dropWhile_le le_imp_less_Suc)
  moreover have "length ?d \<le> length s" by (rule length_dropWhile_le)
  ultimately show ?thesis unfolding r by simp
qed

abbreviation MAXARGC :: nat where "MAXARGC \<equiv> 50"

text \<open>The loop of \<open>buf_args\<close>: the arguments after the first, given their number so far; \<open>None\<close>: too many.\<close>

function more_args :: "nat \<Rightarrow> string \<Rightarrow> string list option" where
  "more_args argc s = (case strtok s of
      None \<Rightarrow> Some []
    | Some (t, r) \<Rightarrow> if MAXARGC - 1 \<le> Suc argc then None else map_option ((#) t) (more_args (Suc argc) r))"
  by pat_completeness auto
termination by (relation "measure (\<lambda>(n, s). length s)") (auto dest: strtok_shorter)

declare more_args.simps [simp del]

text \<open>The first argument is the buffer itself: white space in front of the first token belongs to it.\<close>

definition buf_args :: "string \<Rightarrow> (string list \<Rightarrow> ('s, int) prog) \<Rightarrow> ('s, int) prog" where
  "buf_args buf optfunc = (case strtok buf of
      None \<Rightarrow> ret (-1)
    | Some (t, r) \<Rightarrow> (case more_args 0 r of
          None \<Rightarrow> ret (-1)
        | Some args \<Rightarrow> optfunc ((takeWhile white buf @ t) # args)))"

definition cli_args :: "string list \<Rightarrow> (oserv, int) prog" where
  "cli_args argv =
     (if length argv \<noteq> 3 \<or> argv ! 0 \<noteq> ''open''
      then bnd (modify (\<lambda>s. s\<lparr>errmsg := ''usage: <pathname> <oflag>'' @ [CHR 0x0A]\<rparr>)) (\<lambda>_. ret (-1))
      else bnd (modify (\<lambda>s. s\<lparr>pathname := argv ! 1, oflag_arg := atoi (argv ! 2)\<rparr>)) (\<lambda>_. ret 0))"

text \<open>
  \<open>open_server\<close> splits with \<open>strsep\<close>, which gives an empty argument between two white characters, into an array of \<open>strlen(buf) + 1 + sizeof(NULL)\<close> bytes:
  a pointer stored beyond it has no meaning.
\<close>

fun strsep_all :: "string \<Rightarrow> string list" where
  "strsep_all [] = [[]]"
| "strsep_all (c # s) = (if white c then [] # strsep_all s else case strsep_all s of [] \<Rightarrow> [[c]] | t # ts \<Rightarrow> (c # t) # ts)"

definition buf_args_os :: "string \<Rightarrow> (string list \<Rightarrow> ('z kern_scheme, int) prog) \<Rightarrow> ('z kern_scheme, int) prog" where
  "buf_args_os buf optfunc =
     bnd (syscall False (ret True)) (\<lambda>ok.
     if \<not> ok then ret (-1)
     else if length buf + 1 + 8 < 8 * (length (strsep_all buf) + 1) then halt (Undefined ''store past the end of argv'')
     else optfunc (strsep_all buf))"

subsection \<open>Passing descriptors\<close>

text \<open>\<open>sendmsg\<close> of a few bytes, with the open file behind a descriptor or none.\<close>

definition sys_sendmsg :: "int \<Rightarrow> bytes \<Rightarrow> int option \<Rightarrow> (oserv, int) prog" where
  "sys_sendmsg fd bs pass = (\<lambda>s.
     case (case pass of None \<Rightarrow> Some [] | Some p \<Rightarrow> map_option (\<lambda>d. [d]) (k_ofd s p)) of
       None \<Rightarrow> fail EBADF (-1) s
     | Some ds \<Rightarrow>
         (case n_sock s fd of
            None \<Rightarrow> fail 88 (-1) s
          | Some k \<Rightarrow>
              bnd (net_write fd bs) (\<lambda>n.
              bnd (if 0 < n then modify (\<lambda>t. t\<lparr>sv_ctl := (sv_ctl t)(fd := sv_ctl t fd @ map (Pair (length (sk_out k))) ds)\<rparr>) else ret ()) (\<lambda>_.
              ret n)) s))"

definition status_byte :: "int \<Rightarrow> char" where
  "status_byte fd = (let c = (- fd) mod 256 in char_of (nat (if c = 0 then 1 else c)))"

definition send_fd :: "int \<Rightarrow> int \<Rightarrow> (oserv, int) prog" where
  "send_fd fd fd_to_send =
     (if fd_to_send < 0 then
        bnd (sys_sendmsg fd [NUL, status_byte fd_to_send] None) (\<lambda>n.
        ret (if n \<noteq> 2 then -1 else 0))
      else
        bnd (gets cmptr) (\<lambda>old.
        bnd (if old then ret True else syscall False (ret True)) (\<lambda>ok.
        bnd (modify (\<lambda>s. s\<lparr>cmptr := ok\<rparr>)) (\<lambda>_.
        if \<not> ok then ret (-1)
        else
          bnd (sys_sendmsg fd [NUL, NUL] (Some fd_to_send)) (\<lambda>n.
          ret (if n \<noteq> 2 then -1 else 0))))))"

definition send_err :: "int \<Rightarrow> int \<Rightarrow> string \<Rightarrow> (oserv, int) prog" where
  "send_err fd errcode msg =
     bnd (if 0 < length msg then bnd (writen fd msg) (\<lambda>n. ret (n = int (length msg))) else ret True) (\<lambda>ok.
     if \<not> ok then ret (-1)
     else
       bnd (send_fd fd (if 0 \<le> errcode then -1 else errcode)) (\<lambda>r.
       if r < 0 then ret (-1) else ret 0))"

subsection \<open>Serving a request\<close>

definition NL :: string where
  "NL = [CHR 0x0A]"

text \<open>The flags of \<open>open\<close> the development knows, from their bits; the access mode is in the two lowest.\<close>

definition oflags_of :: "int \<Rightarrow> oflag set" where
  "oflags_of n = (if n mod 4 = 1 then {O_WRONLY} else if n mod 4 = 2 then {O_RDWR} else {}) \<union>
     (if n div 64 mod 2 = 1 then {O_CREAT} else {}) \<union> (if n div 512 mod 2 = 1 then {O_TRUNC} else {})"

definition pr_uid :: "int \<Rightarrow> string" where
  "pr_uid uid = fmt_d (signed_take_bit 31 uid)"

text \<open>\<open>snprintf\<close> into \<open>errmsg\<close>, with size \<open>MAXLINE - 1\<close>.\<close>

definition set_errmsg :: "string \<Rightarrow> (oserv, unit) prog" where
  "set_errmsg m = modify (\<lambda>s. s\<lparr>errmsg := take (MAXLINE - 2) m\<rparr>)"

definition unterminated :: "bytes \<Rightarrow> string" where
  "unterminated buf = ''not null terminated: '' @ pad_left (length buf) (cstr buf) @ NL"

definition cant_open :: "(oserv, unit) prog" where
  "cant_open = bnd (gets (\<lambda>s. ''can't open '' @ pathname s @ '': '' @ k_strerror s (k_errno s) @ NL)) set_errmsg"

text \<open>A format without arguments: what is printed, unless a conversion asks for one.\<close>

fun plain_format :: "string \<Rightarrow> string option" where
  "plain_format [] = Some []"
| "plain_format (c # s) =
     (if c = CHR ''%'' then (case s of [] \<Rightarrow> None | d # r \<Rightarrow> if d = CHR ''%'' then map_option ((#) c) (plain_format r) else None)
      else map_option ((#) c) (plain_format s))"

definition log_format :: "string \<Rightarrow> (oserv, unit) prog" where
  "log_format f = (case plain_format f of None \<Rightarrow> halt (Undefined ''format with missing arguments'') | Some m \<Rightarrow> log_msg m)"

definition open_arg :: "(oserv, int) prog" where
  "open_arg = bnd (gets pathname) (\<lambda>p. bnd (gets oflag_arg) (\<lambda>n. sys_open p (oflags_of n)))"

definition handle_request :: "bytes \<Rightarrow> int \<Rightarrow> int \<Rightarrow> (oserv, unit) prog" where
  "handle_request buf clifd uid =
     (if last buf \<noteq> NUL then
        bnd (set_errmsg (''request from uid '' @ pr_uid uid @ '' '' @ unterminated buf)) (\<lambda>_.
        bnd (gets errmsg) (\<lambda>e.
        bnd (send_err clifd (-1) e) (\<lambda>_. ret ())))
      else
        bnd (log_msg (''request: '' @ cstr buf @ '', from uid '' @ pr_uid uid)) (\<lambda>_.
        bnd (buf_args (cstr buf) cli_args) (\<lambda>r.
        if r < 0 then
          bnd (gets errmsg) (\<lambda>e.
          bnd (send_err clifd (-1) e) (\<lambda>_.
          log_format e))
        else
          bnd open_arg (\<lambda>newfd.
          if newfd < 0 then
            bnd cant_open (\<lambda>_.
            bnd (gets errmsg) (\<lambda>e.
            bnd (send_err clifd (-1) e) (\<lambda>_.
            log_format e)))
          else
            bnd (send_fd clifd newfd) (\<lambda>q.
            if q < 0 then log_sys ''send_fd error''
            else
              bnd (gets pathname) (\<lambda>p.
              bnd (log_msg (''sent fd '' @ fmt_d newfd @ '' over fd '' @ fmt_d clifd @ '' for '' @ p)) (\<lambda>_.
              bnd (net_close newfd) (\<lambda>_.
              ret ()))))))))"

definition handle_request_fe :: "bytes \<Rightarrow> int \<Rightarrow> (oserv, unit) prog" where
  "handle_request_fe buf fd =
     (if last buf \<noteq> NUL then
        bnd (set_errmsg (''request '' @ unterminated buf)) (\<lambda>_.
        bnd (gets errmsg) (\<lambda>e.
        bnd (send_err fd (-1) e) (\<lambda>_. ret ())))
      else
        bnd (buf_args (cstr buf) cli_args) (\<lambda>r.
        if r < 0 then bnd (gets errmsg) (\<lambda>e. bnd (send_err fd (-1) e) (\<lambda>_. ret ()))
        else
          bnd open_arg (\<lambda>newfd.
          if newfd < 0 then
            bnd cant_open (\<lambda>_.
            bnd (gets errmsg) (\<lambda>e.
            bnd (send_err fd (-1) e) (\<lambda>_. ret ())))
          else
            bnd (send_fd fd newfd) (\<lambda>q.
            if q < 0 then err_sys ''send_fd error''
            else bnd (net_close newfd) (\<lambda>_. ret ())))))"

text \<open>The main loop of \<open>opend.fe\<close>: one read is one request.\<close>

fun main_fe :: "nat \<Rightarrow> (oserv, unit) prog" where
  "main_fe 0 = hang"
| "main_fe (Suc fuel) =
     bnd (net_read 0 MAXLINE) (\<lambda>(nread, buf).
     if nread < 0 then err_sys ''read error on stream pipe''
     else if nread = 0 then halt (Exit 0)
     else bnd (handle_request_fe buf 1) (\<lambda>_. main_fe fuel))"

definition printf :: "string \<Rightarrow> (oserv, unit) prog" where
  "printf m = modify (\<lambda>s. s\<lparr>sv_stdout := sv_stdout s @ m\<rparr>)"

definition print_exit :: "string \<Rightarrow> (oserv, 'a) prog" where
  "print_exit m = bnd (printf m) (\<lambda>_. halt (Exit 1))"

definition errno_str :: "oserv \<Rightarrow> string" where
  "errno_str s = k_strerror s (k_errno s)"

definition handle_request_os :: "bytes \<Rightarrow> int \<Rightarrow> int \<Rightarrow> (oserv, unit) prog" where
  "handle_request_os buf fd uid =
     (if last buf \<noteq> NUL then
        bnd (set_errmsg (''request from uid '' @ pr_uid uid @ '' '' @ unterminated buf)) (\<lambda>_.
        bnd (gets errmsg) (\<lambda>e.
        bnd (send_err fd (-1) e) (\<lambda>_. ret ())))
      else
        bnd (printf (''request: '' @ cstr buf @ '', from uid '' @ pr_uid uid @ '' '' @ NL)) (\<lambda>_.
        bnd (buf_args_os (cstr buf) cli_args) (\<lambda>r.
        if r < 0 then
          bnd (gets errmsg) (\<lambda>e.
          bnd (send_err fd (-1) e) (\<lambda>_.
          printf (e @ NL)))
        else
          bnd open_arg (\<lambda>new_fd.
          if new_fd < 0 then
            bnd cant_open (\<lambda>_.
            bnd (gets errmsg) (\<lambda>e.
            bnd (send_err fd (-1) e) (\<lambda>_.
            printf (e @ NL))))
          else
            bnd (send_fd fd new_fd) (\<lambda>q.
            if q < 0 then bnd (gets errno_str) (\<lambda>t. print_exit (''send_fd error, '' @ t))
            else
              bnd (gets pathname) (\<lambda>p.
              bnd (printf (''sent fd '' @ fmt_d new_fd @ '' over fd '' @ fmt_d fd @ '' for '' @ p @ '' '' @ NL)) (\<lambda>_.
              bnd (net_close new_fd) (\<lambda>_.
              ret ()))))))))"

end
