(* ===== verification/Open_Loops.thy ===== *)
theory Open_Loops
  imports Open_Model
begin

section \<open>The clients of the open server and its loops\<close>

text \<open>
  The table of clients (\<open>opend/client.c\<close>, \<open>open_server/client_management.c\<close>), accepting a connection (\<open>lib/servaccept.c\<close>), and the two ways to wait for
  clients: \<open>loop.select.c\<close> looks through the table, \<open>loop.poll.c\<close> keeps an array of its own beside it. A pass of a loop is one routine. The name \<open>serv_listen\<close>
  binds is not followed further.
\<close>

subsection \<open>The table\<close>

abbreviation NALLOC :: nat where "NALLOC \<equiv> 10"

definition client_alloc :: "(oserv, unit) prog \<Rightarrow> (oserv, unit) prog" where
  "client_alloc no_memory =
     bnd (syscall False (ret True)) (\<lambda>ok.
     if \<not> ok then no_memory
     else modify (\<lambda>s. s\<lparr>clients := Some ((case clients s of None \<Rightarrow> [] | Some cs \<Rightarrow> cs) @ replicate NALLOC \<lparr>cl_fd = -1, cl_uid = sv_junk s\<rparr>)\<rparr>))"

definition slot_of :: "int \<Rightarrow> oserv \<Rightarrow> nat option" where
  "slot_of fd s = (case clients s of None \<Rightarrow> None | Some cs \<Rightarrow> find (\<lambda>i. cl_fd (cs ! i) = fd) [0..<length cs])"

definition set_slot :: "nat \<Rightarrow> int \<Rightarrow> int \<Rightarrow> oserv \<Rightarrow> oserv" where
  "set_slot i fd uid s = s\<lparr>clients := map_option (\<lambda>cs. cs[i := \<lparr>cl_fd = fd, cl_uid = uid\<rparr>]) (clients s)\<rparr>"

text \<open>The search with its \<open>goto again\<close>; two rounds are enough.\<close>

fun client_again :: "nat \<Rightarrow> (oserv, unit) prog \<Rightarrow> int \<Rightarrow> int \<Rightarrow> (oserv, nat) prog" where
  "client_again 0 no_memory fd uid = hang"
| "client_again (Suc fuel) no_memory fd uid =
     bnd (gets (slot_of (-1))) (\<lambda>i. case i of
         Some i \<Rightarrow> bnd (modify (set_slot i fd uid)) (\<lambda>_. ret i)
       | None \<Rightarrow> bnd (client_alloc no_memory) (\<lambda>_. client_again fuel no_memory fd uid))"

definition client_add_with :: "(oserv, unit) prog \<Rightarrow> int \<Rightarrow> int \<Rightarrow> (oserv, nat) prog" where
  "client_add_with no_memory fd uid =
     bnd (gets (\<lambda>s. clients s = None)) (\<lambda>first.
     bnd (if first then client_alloc no_memory else ret ()) (\<lambda>_.
     client_again 2 no_memory fd uid))"

definition client_add :: "int \<Rightarrow> int \<Rightarrow> (oserv, nat) prog" where
  "client_add = client_add_with (err_sys ''can't alloc for client array'')"

definition client_add_os :: "int \<Rightarrow> int \<Rightarrow> (oserv, nat) prog" where
  "client_add_os = client_add_with (bnd (gets errno_str) (\<lambda>t. print_exit (''realloc error, '' @ t @ NL)))"

definition client_del_with :: "(oserv, unit) prog \<Rightarrow> int \<Rightarrow> (oserv, unit) prog" where
  "client_del_with lost fd =
     bnd (gets (slot_of fd)) (\<lambda>i. case i of
         Some i \<Rightarrow> modify (\<lambda>s. set_slot i (-1) (case clients s of None \<Rightarrow> 0 | Some cs \<Rightarrow> cl_uid (cs ! i)) s)
       | None \<Rightarrow> lost)"

definition client_del :: "int \<Rightarrow> (oserv, unit) prog" where
  "client_del fd = client_del_with (log_quit (''can't find client entry for fd '' @ fmt_d fd)) fd"

definition client_del_os :: "int \<Rightarrow> (oserv, unit) prog" where
  "client_del_os fd = client_del_with (print_exit (''can't find client entry for fd '' @ fmt_d fd @ '' '' @ NL)) fd"

subsection \<open>Connections\<close>

definition sys_accept :: "int \<Rightarrow> (oserv, int \<times> string) prog" where
  "sys_accept listenfd = syscall (-1, []) (\<lambda>s. case sv_pending s of
      [] \<Rightarrow> Hang
    | (name, k) # ps \<Rightarrow>
        (case free_fd s of
           None \<Rightarrow> fail EMFILE (-1, []) s
         | Some fd \<Rightarrow> Ok (fd, name)
             (s\<lparr>sv_pending := ps, k_ofd := (k_ofd s)(fd \<mapsto> \<lparr>of_ino = k_nino s, of_pos = 0, of_flags = {O_RDWR}\<rparr>), k_nino := Suc (k_nino s),
                n_sock := (n_sock s)(fd \<mapsto> k), sv_ctl := (sv_ctl s)(fd := [])\<rparr>)))"

abbreviation STALE :: int where "STALE \<equiv> 30"

definition reject :: "int \<Rightarrow> int \<Rightarrow> (oserv, int \<times> int) prog" where
  "reject clifd rval =
     bnd (gets k_errno) (\<lambda>err.
     bnd (net_close clifd) (\<lambda>_.
     bnd (modify (\<lambda>s. s\<lparr>k_errno := err\<rparr>)) (\<lambda>_.
     ret (rval, 0))))"

text \<open>The result and the user id. The buffer for the name has the size of a pointer, since the 1 is added inside \<open>sizeof\<close>.\<close>

definition serv_accept :: "int \<Rightarrow> (oserv, int \<times> int) prog" where
  "serv_accept listenfd =
     bnd (syscall False (ret True)) (\<lambda>ok.
     if \<not> ok then ret (-1, 0)
     else
       bnd (sys_accept listenfd) (\<lambda>(clifd, name).
       if clifd < 0 then ret (-2, 0)
       else if 8 < length name + 1 then halt (Undefined ''store past the end of name'')
       else
         bnd (syscall None (\<lambda>s. case sv_stat s name of None \<Rightarrow> fail ENOENT None s | Some b \<Rightarrow> Ok (Some b) s)) (\<lambda>st. case st of
             None \<Rightarrow> reject clifd (-3)
           | Some b \<Rightarrow>
               if \<not> st_sock b then reject clifd (-4)
               else if st_mode b mod 64 \<noteq> 0 \<or> st_mode b div 64 mod 8 \<noteq> 7 then reject clifd (-5)
               else
                 bnd (gets sv_time) (\<lambda>now.
                 if st_atime b < now - STALE \<or> st_ctime b < now - STALE \<or> st_mtime b < now - STALE then reject clifd (-6)
                 else
                   bnd (syscall () (modify (\<lambda>s. s\<lparr>sv_stat := (sv_stat s)(name := None)\<rparr>))) (\<lambda>_.
                   ret (clifd, st_uid b))))))"

definition serv_listen :: "string \<Rightarrow> (oserv, int) prog" where
  "serv_listen name =
     (if 108 \<le> length name then bnd (modify (\<lambda>s. s\<lparr>k_errno := 36\<rparr>)) (\<lambda>_. ret (-1))
      else
        bnd sys_socket (\<lambda>fd.
        if fd < 0 then ret (-2)
        else
          bnd (sys_unlink name) (\<lambda>_.
          bnd (syscall (-1) (ret 0)) (\<lambda>b.
          if b < (0 :: int) then bnd (reject fd (-3)) (\<lambda>r. ret (fst r))
          else
            bnd (syscall (-1) (ret 0)) (\<lambda>c.
            if c < (0 :: int) then bnd (reject fd (-4)) (\<lambda>r. ret (fst r))
            else
              bnd (syscall (-1) (ret 0)) (\<lambda>l.
              if l < (0 :: int) then bnd (reject fd (-5)) (\<lambda>r. ret (fst r))
              else ret fd))))))"

subsection \<open>Waiting with \<open>select\<close>\<close>

record lsel =
  ls_listen :: int
  ls_all :: "int set"
  ls_maxfd :: int
  ls_maxi :: int

text \<open>The descriptors the kernel reports; a call for which nothing is ever ready does not return.\<close>

definition sys_wait :: "(oserv, (int \<times> bool) list option) prog" where
  "sys_wait = syscall None (\<lambda>s. case sv_ready s of [] \<Rightarrow> Hang | r # rs \<Rightarrow> Ok (Some r) (s\<lparr>sv_ready := rs\<rparr>))"

definition entry :: "nat \<Rightarrow> (oserv, Client) prog" where
  "entry i = (\<lambda>s. case clients s of
      None \<Rightarrow> Abort (Undefined ''client is a null pointer'') s
    | Some cs \<Rightarrow> if i < length cs then Ok (cs ! i) s else Abort (Undefined ''index past the end of client'') s)"

definition closed_msg :: "int \<Rightarrow> int \<Rightarrow> string" where
  "closed_msg uid fd = ''closed: uid '' @ pr_uid uid @ '', fd '' @ fmt_d fd"

definition new_msg :: "int \<Rightarrow> int \<Rightarrow> string" where
  "new_msg uid fd = ''new connection: uid '' @ pr_uid uid @ '', fd '' @ fmt_d fd"

text \<open>The loop over the table, from the indices that are left; the result is the set of descriptors still watched.\<close>

fun sel_clients :: "int set \<Rightarrow> nat list \<Rightarrow> int set \<Rightarrow> (oserv, int set) prog" where
  "sel_clients rset [] allset = ret allset"
| "sel_clients rset (i # is) allset =
     bnd (entry i) (\<lambda>c.
     if cl_fd c < 0 \<or> cl_fd c \<notin> rset then sel_clients rset is allset
     else
       bnd (net_read (cl_fd c) MAXLINE) (\<lambda>(nread, buf).
       if nread < 0 then log_sys (''read error on fd '' @ fmt_d (cl_fd c))
       else if nread = 0 then
         bnd (log_msg (closed_msg (cl_uid c) (cl_fd c))) (\<lambda>_.
         bnd (client_del (cl_fd c)) (\<lambda>_.
         bnd (net_close (cl_fd c)) (\<lambda>_.
         sel_clients rset is (allset - {cl_fd c}))))
       else
         bnd (handle_request buf (cl_fd c) (cl_uid c)) (\<lambda>_.
         sel_clients rset is allset)))"

definition sel_start :: "(oserv, lsel) prog" where
  "sel_start =
     bnd (serv_listen ''/tmp/opend.socket'') (\<lambda>listenfd.
     if listenfd < 0 then log_sys ''serv_listen error''
     else ret \<lparr>ls_listen = listenfd, ls_all = {listenfd}, ls_maxfd = listenfd, ls_maxi = -1\<rparr>)"

definition sel_pass :: "lsel \<Rightarrow> (oserv, lsel) prog" where
  "sel_pass L =
     bnd sys_wait (\<lambda>r. case r of
         None \<Rightarrow> log_sys ''select error''
       | Some ready \<Rightarrow>
           let rset = {fd \<in> set (map fst ready). fd \<in> ls_all L \<and> fd \<le> ls_maxfd L} in
           if ls_listen L \<in> rset then
             bnd (serv_accept (ls_listen L)) (\<lambda>(clifd, uid).
             if clifd < 0 then log_sys (''serv_accept error: '' @ fmt_d clifd)
             else
               bnd (client_add clifd uid) (\<lambda>i.
               bnd (log_msg (new_msg uid clifd)) (\<lambda>_.
               ret (L\<lparr>ls_all := insert clifd (ls_all L), ls_maxfd := max clifd (ls_maxfd L), ls_maxi := max (int i) (ls_maxi L)\<rparr>))))
           else
             bnd (sel_clients rset [0..<nat (ls_maxi L + 1)] (ls_all L)) (\<lambda>a.
             ret (L\<lparr>ls_all := a\<rparr>)))"

text \<open>
  \<open>open_server/server_unix_sock.c\<close> has the two library routines under names of its own. \<open>open_server/loop.c\<close> counts the ready descriptors down and stops when
  all are served.
\<close>

definition server_listen :: "string \<Rightarrow> (oserv, int) prog" where
  "server_listen = serv_listen"

definition server_accept :: "int \<Rightarrow> (oserv, int \<times> int) prog" where
  "server_accept = serv_accept"

definition sel_start_os :: "(oserv, lsel) prog" where
  "sel_start_os =
     bnd (server_listen ''/tmp/opend.socket'') (\<lambda>listen_fd.
     if listen_fd < 0 then bnd (gets errno_str) (\<lambda>t. print_exit (''server_listen error, '' @ fmt_d listen_fd @ '', '' @ t @ NL))
     else
       bnd (printf (''fd:'' @ fmt_d listen_fd @ '' listening'' @ NL)) (\<lambda>_.
       ret \<lparr>ls_listen = listen_fd, ls_all = {listen_fd}, ls_maxfd = listen_fd, ls_maxi = -1\<rparr>))"

fun sel_clients_os :: "int set \<Rightarrow> nat \<Rightarrow> nat list \<Rightarrow> int set \<Rightarrow> (oserv, int set) prog" where
  "sel_clients_os rset n [] allset = ret allset"
| "sel_clients_os rset n (i # is) allset =
     (if n = 0 then ret allset
      else
        bnd (entry i) (\<lambda>c.
        if cl_fd c < 0 \<or> cl_fd c \<notin> rset then sel_clients_os rset n is allset
        else
          bnd (net_read (cl_fd c) MAXLINE) (\<lambda>(nread, buf).
          if nread < 0 then bnd (gets errno_str) (\<lambda>t. print_exit (''read error on fd '' @ fmt_d (cl_fd c) @ '' '' @ t @ NL))
          else if nread = 0 then
            bnd (printf (closed_msg (cl_uid c) (cl_fd c) @ '' '' @ NL)) (\<lambda>_.
            bnd (client_del_os (cl_fd c)) (\<lambda>_.
            bnd (net_close (cl_fd c)) (\<lambda>_.
            sel_clients_os rset (n - 1) is (allset - {cl_fd c}))))
          else
            bnd (handle_request_os buf (cl_fd c) (cl_uid c)) (\<lambda>_.
            sel_clients_os rset (n - 1) is allset))))"

definition sel_pass_os :: "lsel \<Rightarrow> (oserv, lsel) prog" where
  "sel_pass_os L =
     bnd sys_wait (\<lambda>r. case r of
         None \<Rightarrow> bnd (gets errno_str) (\<lambda>t. print_exit (''select error, -1, '' @ t @ NL))
       | Some ready \<Rightarrow>
           let rset = {fd \<in> set (map fst ready). fd \<in> ls_all L \<and> fd \<le> ls_maxfd L} in
           if ls_listen L \<in> rset then
             bnd (server_accept (ls_listen L)) (\<lambda>(connect_fd, uid).
             if connect_fd < 0 then bnd (gets errno_str) (\<lambda>t. print_exit (''server_accept error, '' @ fmt_d connect_fd @ '', '' @ t @ NL))
             else
               bnd (client_add_os connect_fd uid) (\<lambda>i.
               bnd (printf (new_msg uid connect_fd @ '' '' @ NL)) (\<lambda>_.
               ret (L\<lparr>ls_all := insert connect_fd (ls_all L), ls_maxfd := max connect_fd (ls_maxfd L), ls_maxi := max (int i) (ls_maxi L)\<rparr>))))
           else
             bnd (printf (fmt_d (int (card rset)) @ '' connections is ready to read.'' @ NL)) (\<lambda>_.
             bnd (sel_clients_os rset (card rset) [0..<nat (ls_maxi L + 1)] (ls_all L)) (\<lambda>a.
             ret (L\<lparr>ls_all := a\<rparr>))))"

subsection \<open>Waiting with \<open>poll\<close>\<close>

record pollfd =
  p_fd :: int
  p_in :: bool
  p_hup :: bool

record lpoll =
  lp_fds :: "pollfd list"
  lp_num :: nat

definition no_pollfd :: pollfd where
  "no_pollfd = \<lparr>p_fd = -1, p_in = False, p_hup = False\<rparr>"

definition poll_start :: "(oserv, lpoll) prog" where
  "poll_start =
     bnd (syscall False (ret True)) (\<lambda>ok.
     if \<not> ok then err_sys ''malloc error''
     else
       bnd (serv_listen ''/tmp/opend.socket'') (\<lambda>listenfd.
       if listenfd < 0 then log_sys ''serv_listen error''
       else
         bnd (client_add listenfd 0) (\<lambda>_.
         ret \<lparr>lp_fds = (replicate NALLOC no_pollfd)[0 := no_pollfd\<lparr>p_fd := listenfd\<rparr>], lp_num = 1\<rparr>)))"

text \<open>What \<open>poll\<close> reports in the first \<open>n\<close> entries.\<close>

definition revents :: "(int \<times> bool) list \<Rightarrow> nat \<Rightarrow> pollfd list \<Rightarrow> pollfd list" where
  "revents ready n ps = map (\<lambda>p. p\<lparr>p_in := (case map_of ready (p_fd p) of None \<Rightarrow> False | Some h \<Rightarrow> True),
     p_hup := (map_of ready (p_fd p) = Some True)\<rparr>) (take n ps) @ drop n ps"

definition grow_pollfd :: "pollfd list \<Rightarrow> (oserv, pollfd list) prog" where
  "grow_pollfd ps =
     bnd (syscall False (ret True)) (\<lambda>ok.
     if \<not> ok then err_sys ''realloc error'' else ret (ps @ replicate NALLOC no_pollfd))"

definition poll_accept :: "lpoll \<Rightarrow> (oserv, lpoll) prog" where
  "poll_accept P =
     bnd (serv_accept (p_fd (lp_fds P ! 0))) (\<lambda>(clifd, uid).
     if clifd < 0 then log_sys (''serv_accept error: '' @ fmt_d clifd)
     else
       bnd (client_add clifd uid) (\<lambda>_.
       bnd (if lp_num P = length (lp_fds P) then grow_pollfd (lp_fds P) else ret (lp_fds P)) (\<lambda>ps.
       bnd (log_msg (new_msg uid clifd)) (\<lambda>_.
       ret \<lparr>lp_fds = ps[lp_num P := no_pollfd\<lparr>p_fd := clifd\<rparr>], lp_num = Suc (lp_num P)\<rparr>))))"

text \<open>A client that is gone: the last entry of the array takes its place, and its index is looked at again.\<close>

definition pack :: "nat \<Rightarrow> lpoll \<Rightarrow> lpoll" where
  "pack i P = \<lparr>lp_fds = (if i < lp_num P - 1 then (lp_fds P)[i := lp_fds P ! (lp_num P - 1)] else lp_fds P), lp_num = lp_num P - 1\<rparr>"

definition poll_hungup :: "nat \<Rightarrow> int \<Rightarrow> (oserv, unit) prog" where
  "poll_hungup i fd =
     bnd (entry i) (\<lambda>c.
     bnd (log_msg (closed_msg (cl_uid c) fd)) (\<lambda>_.
     bnd (client_del fd) (\<lambda>_.
     bnd (net_close fd) (\<lambda>_.
     ret ()))))"

function poll_clients :: "nat \<Rightarrow> lpoll \<Rightarrow> oserv \<Rightarrow> (lpoll, oserv) outcome" where
  "poll_clients i P s =
     (if lp_num P \<le> i then Ok P s
      else
        let p = lp_fds P ! i;
            gone = (\<lambda>s. case poll_hungup i (p_fd p) s of
                Ok u t \<Rightarrow> poll_clients i (pack i P) t
              | Abort r t \<Rightarrow> Abort r t
              | Hang \<Rightarrow> Hang) in
        if p_hup p then gone s
        else if p_in p then
          (case net_read (p_fd p) MAXLINE s of
             Ok (nread, buf) t \<Rightarrow>
               if nread < 0 then log_sys (''read error on fd '' @ fmt_d (p_fd p)) t
               else if nread = 0 then gone t
               else (case bnd (entry i) (\<lambda>c. handle_request buf (p_fd p) (cl_uid c)) t of
                   Ok u v \<Rightarrow> poll_clients (Suc i) P v
                 | Abort r v \<Rightarrow> Abort r v
                 | Hang \<Rightarrow> Hang)
           | Abort r t \<Rightarrow> Abort r t
           | Hang \<Rightarrow> Hang)
        else poll_clients (Suc i) P s)"
  by pat_completeness auto
termination by (relation "measure (\<lambda>(i, P, s). lp_num P - i)") (auto simp: pack_def)

declare poll_clients.simps [simp del]

definition poll_pass :: "lpoll \<Rightarrow> (oserv, lpoll) prog" where
  "poll_pass P =
     bnd sys_wait (\<lambda>r. case r of
         None \<Rightarrow> log_sys ''poll error''
       | Some ready \<Rightarrow>
           let Q = P\<lparr>lp_fds := revents ready (lp_num P) (lp_fds P)\<rparr> in
           bnd (if p_in (lp_fds Q ! 0) then poll_accept Q else ret Q) (\<lambda>Q.
           poll_clients 1 Q))"

end
