(* ===== verification/Open_Client.thy ===== *)
theory Open_Client
  imports Open_Model
begin

section \<open>The client of the open server: \<open>lib/recvfd.c\<close>, \<open>ipc2/open/open.c\<close>, \<open>ipc2/open.fe/open.c\<close>\<close>

text \<open>
  Record \<open>ocli\<close> is the environment of the client: \<open>oc_in\<close> is what the coming calls of \<open>recvmsg\<close> find, each a piece of the byte stream and the open file
  that comes with it, if any. A call delivers at most as many bytes as the buffer holds and leaves the rest of the piece.
\<close>

record ocli = net +
  oc_ptr :: bool
  oc_in :: "(bytes \<times> ofd option) list"

text \<open>The count, the bytes, and the descriptor the control buffer holds, if a whole one arrived.\<close>

definition sys_recvmsg :: "nat \<Rightarrow> (ocli, int \<times> bytes \<times> int option) prog" where
  "sys_recvmsg n = syscall (-1, [], None) (\<lambda>s. case oc_in s of
      [] \<Rightarrow> Ok (0, [], None) s
    | (bs, d) # r \<Rightarrow>
        let t = s\<lparr>oc_in := (if length bs \<le> n then r else (drop n bs, None) # r)\<rparr>; got = take n bs in
        (case d of
           None \<Rightarrow> Ok (int (length got), got, None) t
         | Some f \<Rightarrow>
             (case free_fd s of
                None \<Rightarrow> Ok (int (length got), got, None) t
              | Some fd \<Rightarrow> Ok (int (length got), got, Some fd) (t\<lparr>k_ofd := (k_ofd s)(fd \<mapsto> f)\<rparr>))))"

text \<open>
  The loop over the bytes just read: it goes on after a null byte, but the null byte must be the last but one, so there is at most one. The result
  is the status (\<open>-1\<close>: none yet), the descriptor and the count without the last two bytes.
\<close>

definition scan_status :: "bytes \<Rightarrow> int option \<Rightarrow> int \<Rightarrow> int \<Rightarrow> (ocli, int \<times> int \<times> nat) prog" where
  "scan_status buf ctl status newfd =
     (let i = length (cstr buf); nr = length buf in
      if nr \<le> i then ret (status, newfd, nr)
      else if i + 1 \<noteq> nr - 1 then err_dump ''message format error''
      else
        let st = int (of_char (buf ! (i + 1))) in
        if st = 0 then (case ctl of
            None \<Rightarrow> err_dump ''status = 0 but no fd''
          | Some fd \<Rightarrow> ret (0, fd, nr - 2))
        else ret (st, - st, nr - 2))"

fun recv_loop :: "nat \<Rightarrow> (int \<Rightarrow> bytes \<Rightarrow> (ocli, int) prog) \<Rightarrow> int \<Rightarrow> int \<Rightarrow> (ocli, int) prog" where
  "recv_loop 0 userfunc status newfd = hang"
| "recv_loop (Suc fuel) userfunc status newfd =
     bnd (gets oc_ptr) (\<lambda>old.
     bnd (if old then ret True else syscall False (ret True)) (\<lambda>ok.
     bnd (modify (\<lambda>s. s\<lparr>oc_ptr := ok\<rparr>)) (\<lambda>_.
     if \<not> ok then ret (-1)
     else
       bnd (sys_recvmsg MAXLINE) (\<lambda>(nr, buf, ctl).
       if nr < 0 then bnd (err_ret ''recvmsg error'') (\<lambda>_. ret (-1))
       else if nr = 0 then bnd (err_ret ''connection closed by server'') (\<lambda>_. ret (-1))
       else
         bnd (scan_status buf ctl status newfd) (\<lambda>(status, newfd, n).
         bnd (if 0 < n then bnd (userfunc 2 (take n buf)) (\<lambda>w. ret (w = int n)) else ret True) (\<lambda>good.
         if \<not> good then ret (-1)
         else if 0 \<le> status then ret newfd
         else recv_loop fuel userfunc status newfd))))))"

text \<open>The loop ends at the latest when the stream does: every pass takes a byte of it.\<close>

definition recv_fd :: "(int \<Rightarrow> bytes \<Rightarrow> (ocli, int) prog) \<Rightarrow> (ocli, int) prog" where
  "recv_fd userfunc = bnd (gets (\<lambda>s. Suc (length (concat (map fst (oc_in s)))))) (\<lambda>fuel. recv_loop fuel userfunc (-1) 0)"

definition write_stderr :: "int \<Rightarrow> bytes \<Rightarrow> (ocli, int) prog" where
  "write_stderr fd bs = (if fd = 2 then syscall (-1) (\<lambda>s. Ok (int (length bs)) (s\<lparr>k_stderr := k_stderr s @ bs\<rparr>)) else sys_write fd bs)"

text \<open>
  The three parts of the request \<open>csopen\<close> writes; \<open>bsz\<close> is the size of its buffer for the flag: 12 in \<open>open/open.c\<close>, 10 in \<open>open.fe/open.c\<close>.
\<close>

definition csopen_iov :: "string \<Rightarrow> int \<Rightarrow> bytes list" where
  "csopen_iov name oflag = [''open '', name, '' '' @ fmt_d oflag @ [NUL]]"

definition csopen_ask :: "nat \<Rightarrow> int \<Rightarrow> string \<Rightarrow> int \<Rightarrow> (ocli, int) prog" where
  "csopen_ask bsz csfd name oflag =
     (if bsz < length ('' '' @ fmt_d oflag) + 1 then halt (Undefined ''flag too long for its buffer'')
      else
        bnd (net_writev csfd (csopen_iov name oflag)) (\<lambda>n.
        if n \<noteq> int (length (concat (csopen_iov name oflag))) then bnd (err_ret ''writev error'') (\<lambda>_. ret (-1))
        else recv_fd write_stderr))"

end
