(* ===== verification/Open_Answers.thy ===== *)
theory Open_Answers
  imports Open_Client
begin

section \<open>Answers of the open server, from one end of the socket to the other\<close>

text \<open>
  An answer is a text without null bytes, a null byte and a status byte; with status 0 the last two bytes bring an open file. \<open>answered fd s msg st ds t\<close>: from
  state \<open>s\<close> to \<open>t\<close> the server has put such an answer on socket \<open>fd\<close>. \<open>cut_answer msg st d segs\<close>: the pieces \<open>segs\<close> in which it may arrive, the last two
  bytes, which were sent by one call, together.
\<close>

definition answered :: "int \<Rightarrow> oserv \<Rightarrow> string \<Rightarrow> char \<Rightarrow> ofd list \<Rightarrow> oserv \<Rightarrow> bool" where
  "answered fd s msg st ds t \<longleftrightarrow> (\<exists>k. n_sock s fd = Some k \<and> n_sock t = (n_sock s)(fd \<mapsto> k\<lparr>sk_out := sk_out k @ msg @ [NUL, st]\<rparr>) \<and>
     sv_ctl t = (sv_ctl s)(fd := sv_ctl s fd @ map (Pair (length (sk_out k @ msg))) ds))"

definition cut_answer :: "string \<Rightarrow> char \<Rightarrow> ofd option \<Rightarrow> (bytes \<times> ofd option) list \<Rightarrow> bool" where
  "cut_answer msg st d segs \<longleftrightarrow> (\<exists>ts u. segs = map (\<lambda>t. (t, None)) ts @ [(u @ [NUL, st], d)] \<and> concat ts @ u = msg \<and> [] \<notin> set ts \<and>
     (\<forall>t\<in>set ts. length t \<le> MAXLINE) \<and> length u + 2 \<le> MAXLINE)"

subsection \<open>Sending\<close>

definition takes_all :: "int \<Rightarrow> oserv \<Rightarrow> bool" where
  "takes_all fd s \<longleftrightarrow> (\<exists>k. n_sock s fd = Some k \<and> sk_wr k = [])"

lemma net_write_all:
  "n_sock s fd = Some k \<Longrightarrow> sk_wr k = [] \<Longrightarrow> net_write fd bs s = Ok (int (length bs)) (s\<lparr>n_sock := (n_sock s)(fd \<mapsto> k\<lparr>sk_out := sk_out k @ bs\<rparr>)\<rparr>)"
  by (simp add: net_write_def)

lemma writen_taken:
  fixes s :: oserv
  assumes "n_sock s fd = Some k" and "sk_wr k = []"
  shows "writen fd bs s = Ok (int (length bs)) (s\<lparr>n_sock := (n_sock s)(fd \<mapsto> k\<lparr>sk_out := sk_out k @ bs\<rparr>)\<rparr>)"
proof (cases bs)
  case Nil
  have "k\<lparr>sk_out := sk_out k @ []\<rparr> = k" by simp
  then show ?thesis using assms Nil by (simp add: writen_def fun_upd_idem)
next
  case (Cons b cs)
  have "writen_loop (length cs) fd n [] t = Ok (int n) t" for n and t :: oserv by (cases "length cs") simp_all
  then show ?thesis using assms Cons by (simp add: writen_def bnd_def net_write_all)
qed

lemma send_fd_run:
  assumes "takes_all fd s" and "k_faults s = []" and "p < 0 \<or> k_ofd s p = Some d"
  shows "\<exists>t. send_fd fd p s = Ok 0 t \<and> answered fd s [] (if p < 0 then status_byte p else NUL) (if p < 0 then [] else [d]) t \<and>
    (\<exists>n c m. t = s\<lparr>n_sock := n, sv_ctl := c, cmptr := m\<rparr>)"
proof -
  obtain k where k: "n_sock s fd = Some k" "sk_wr k = []" using assms(1) by (auto simp: takes_all_def)
  let ?b = "if p < 0 then status_byte p else NUL" and ?ds = "if p < 0 then [] else [d]"
  let ?t = "s\<lparr>n_sock := (n_sock s)(fd \<mapsto> k\<lparr>sk_out := sk_out k @ [NUL, ?b]\<rparr>), sv_ctl := (sv_ctl s)(fd := sv_ctl s fd @ map (Pair (length (sk_out k))) ?ds),
    cmptr := (if p < 0 then cmptr s else True)\<rparr>"
  have "send_fd fd p s = Ok 0 ?t"
  proof (cases "p < 0")
    case True
    have "s\<lparr>n_sock := n, sv_ctl := c, cmptr := cmptr s\<rparr> = s\<lparr>n_sock := n, sv_ctl := c\<rparr>" for n c by simp
    then show ?thesis using True k by (simp add: send_fd_def bnd_def sys_sendmsg_def net_write_all)
  next
    case False
    then have "k_ofd s p = Some d" using assms(3) by simp
    moreover have "s\<lparr>cmptr := True, n_sock := n, sv_ctl := c\<rparr> = s\<lparr>n_sock := n, sv_ctl := c, cmptr := True\<rparr>" for n c
      by (rule oserv.equality) simp_all
    ultimately show ?thesis using False k assms(2) by (simp add: send_fd_def bnd_def sys_sendmsg_def net_write_all)
  qed
  moreover have "answered fd s [] ?b ?ds ?t" using k by (auto simp: answered_def)
  ultimately show ?thesis by blast
qed

lemma answered_after_text:
  assumes k: "n_sock s fd = Some k" and a: "answered fd (s\<lparr>n_sock := (n_sock s)(fd \<mapsto> k\<lparr>sk_out := sk_out k @ msg\<rparr>)\<rparr>) [] st ds t"
  shows "answered fd s msg st ds t"
  using assms by (auto simp: answered_def)

lemma send_err_run:
  assumes "takes_all fd s" and "k_faults s = []"
  shows "\<exists>t. send_err fd errcode msg s = Ok 0 t \<and> answered fd s msg (status_byte (if 0 \<le> errcode then -1 else errcode)) [] t \<and>
    (\<exists>n c m. t = s\<lparr>n_sock := n, sv_ctl := c, cmptr := m\<rparr>)"
proof -
  obtain k where k: "n_sock s fd = Some k" "sk_wr k = []" using assms(1) by (auto simp: takes_all_def)
  let ?e = "if 0 \<le> errcode then -1 else errcode"
  let ?u = "s\<lparr>n_sock := (n_sock s)(fd \<mapsto> k\<lparr>sk_out := sk_out k @ msg\<rparr>)\<rparr>"
  have "takes_all fd ?u" "k_faults ?u = []" "?e < 0" using k assms(2) by (simp_all add: takes_all_def)
  then obtain t where t: "send_fd fd ?e ?u = Ok 0 t" "answered fd ?u [] (status_byte ?e) [] t" "\<exists>n c m. t = ?u\<lparr>n_sock := n, sv_ctl := c, cmptr := m\<rparr>"
    using send_fd_run [of fd ?u ?e] by auto
  have "msg = [] \<Longrightarrow> ?u = s" using k by (simp add: fun_upd_idem)
  then have "send_err fd errcode msg s = Ok 0 t" using t(1) k by (cases "msg = []") (simp_all add: send_err_def bnd_def writen_taken)
  then show ?thesis using answered_after_text [OF k(1) t(2)] t(3) by fastforce
qed

subsection \<open>Receiving\<close>

text \<open>The client after it has read the pieces of an answer: the text is on its standard error, and the open file has a descriptor.\<close>

definition got_text :: "string \<Rightarrow> (bytes \<times> ofd option) list \<Rightarrow> ocli \<Rightarrow> ocli" where
  "got_text m rest c = c\<lparr>oc_ptr := True, oc_in := rest, k_stderr := k_stderr c @ m\<rparr>"

definition got_fd :: "ofd option \<Rightarrow> ocli \<Rightarrow> int option \<times> ocli" where
  "got_fd d c = (case d of None \<Rightarrow> (None, c) | Some f \<Rightarrow> (case free_fd c of None \<Rightarrow> (None, c) | Some fd \<Rightarrow> (Some fd, c\<lparr>k_ofd := (k_ofd c)(fd \<mapsto> f)\<rparr>)))"

lemma recv_text:
  assumes "k_faults c = []" and "oc_in c = (t, None) # r" and "t \<noteq> []" and "length t \<le> MAXLINE" and "NUL \<notin> set t"
  shows "recv_loop (Suc fuel) write_stderr (-1) nf c = recv_loop fuel write_stderr (-1) nf (got_text t r c)"
  using assms by (simp add: bnd_def sys_recvmsg_def scan_status_def cstr_id write_stderr_def got_text_def)

text \<open>A status byte is a number from 1 to 255, or 0 for an open file.\<close>

definition recv_result :: "char \<Rightarrow> int option \<Rightarrow> int" where
  "recv_result st fd = (if st = NUL then (case fd of None \<Rightarrow> 0 | Some n \<Rightarrow> n) else - int (of_char st))"

lemma of_char_NUL: "(of_char st :: nat) = 0 \<longleftrightarrow> st = NUL"
proof -
  have "(of_char st :: nat) = of_char NUL \<longleftrightarrow> st = NUL" by (rule of_char_eq_iff)
  then show ?thesis by simp
qed

lemma recv_last:
  assumes "k_faults c = []" and "oc_in c = (u @ [NUL, st], d) # r" and "length u + 2 \<le> MAXLINE" and "NUL \<notin> set u"
    and "d \<noteq> None \<Longrightarrow> free_fd c \<noteq> None" and "st = NUL \<longleftrightarrow> d \<noteq> None"
  shows "recv_loop (Suc fuel) write_stderr (-1) nf c = Ok (recv_result st (fst (got_fd d c))) (got_text u r (snd (got_fd d c)))"
proof -
  have n: "cstr (u @ [NUL, st]) = u" using cstr_append_NUL [OF assms(4)] by simp
  have idx: "(u @ [NUL, st]) ! (length u + 1) = st" by (simp add: nth_append)
  have st: "int (of_char st) = 0 \<longleftrightarrow> st = NUL" using of_char_NUL by simp
  show ?thesis
  proof (cases d)
    case None
    then show ?thesis using assms n idx st
      by (cases "u = []") (simp_all add: bnd_def sys_recvmsg_def scan_status_def write_stderr_def got_text_def got_fd_def recv_result_def Let_def)
  next
    case (Some f)
    then obtain fd where "free_fd c = Some fd" using assms(5) by auto
    moreover have "free_fd (c\<lparr>oc_ptr := True\<rparr>) = free_fd c" by (simp add: free_fd_def)
    ultimately show ?thesis using assms n idx st Some
      by (cases "u = []") (simp_all add: bnd_def sys_recvmsg_def scan_status_def write_stderr_def got_text_def got_fd_def recv_result_def Let_def)
  qed
qed

lemma recv_pieces:
  assumes "k_faults c = []" and "oc_in c = map (\<lambda>t. (t, None)) ts @ (u @ [NUL, st], d) # r" and "[] \<notin> set ts" and "\<forall>t\<in>set ts. length t \<le> MAXLINE"
    and "length u + 2 \<le> MAXLINE" and "NUL \<notin> set (concat ts @ u)" and "d \<noteq> None \<Longrightarrow> free_fd c \<noteq> None" and "st = NUL \<longleftrightarrow> d \<noteq> None"
    and "length ts < fuel"
  shows "recv_loop fuel write_stderr (-1) nf c = Ok (recv_result st (fst (got_fd d c))) (got_text (concat ts @ u) r (snd (got_fd d c)))"
  using assms
proof (induction ts arbitrary: c fuel)
  case Nil
  then obtain f where "fuel = Suc f" by (cases fuel) auto
  then show ?case using recv_last [of c u st d r f nf] Nil by simp
next
  case (Cons t ts)
  then obtain f where f: "fuel = Suc f" "length ts < f" by (cases fuel) auto
  let ?r = "map (\<lambda>t. (t, None)) ts @ (u @ [NUL, st], d) # r"
  have "recv_loop fuel write_stderr (-1) nf c = recv_loop f write_stderr (-1) nf (got_text t ?r c)"
    unfolding f(1) by (rule recv_text) (use Cons.prems in auto)
  moreover have fd: "free_fd (got_text t ?r c) = free_fd c" by (simp add: free_fd_def got_text_def)
  have "recv_loop f write_stderr (-1) nf (got_text t ?r c) =
      Ok (recv_result st (fst (got_fd d (got_text t ?r c)))) (got_text (concat ts @ u) r (snd (got_fd d (got_text t ?r c))))"
    by (rule Cons.IH) (use Cons.prems f(2) fd in \<open>auto simp: got_text_def\<close>)
  moreover have "fst (got_fd d (got_text t ?r c)) = fst (got_fd d c)" using fd by (auto simp: got_fd_def split: option.split)
  moreover have "got_text (concat ts @ u) r (snd (got_fd d (got_text t ?r c))) = got_text (concat (t # ts) @ u) r (snd (got_fd d c))"
    unfolding got_fd_def fd by (rule ocli.equality) (auto simp: got_text_def split: option.split)
  ultimately show ?case by simp
qed

lemma recv_fd_run:
  assumes "k_faults c = []" and "oc_in c = segs @ r" and "cut_answer msg st d segs" and "NUL \<notin> set msg"
    and "d \<noteq> None \<Longrightarrow> free_fd c \<noteq> None" and "st = NUL \<longleftrightarrow> d \<noteq> None"
  shows "recv_fd write_stderr c = Ok (recv_result st (fst (got_fd d c))) (got_text msg r (snd (got_fd d c)))"
proof -
  obtain ts u where t: "segs = map (\<lambda>t. (t, None)) ts @ [(u @ [NUL, st], d)]" "concat ts @ u = msg" "[] \<notin> set ts"
    "\<forall>t\<in>set ts. length t \<le> MAXLINE" "length u + 2 \<le> MAXLINE" using assms(3) by (auto simp: cut_answer_def)
  have "length ts \<le> length (concat ts)" using t(3)
  proof (induction ts)
    case (Cons x ts)
    then show ?case by (cases x) auto
  qed simp
  then have "length ts < Suc (length (concat (map fst (oc_in c))))" by (simp add: assms(2) t(1) comp_def)
  then have "recv_loop (Suc (length (concat (map fst (oc_in c))))) write_stderr (-1) 0 c =
      Ok (recv_result st (fst (got_fd d c))) (got_text (concat ts @ u) r (snd (got_fd d c)))"
    by (intro recv_pieces) (use assms t in auto)
  then show ?thesis using t(2) by (simp add: recv_fd_def)
qed

end
