(* ===== verification/Open_Serve.thy ===== *)
theory Open_Serve
  imports Open_Answers
begin

section \<open>Requests of the client at the open server\<close>

text \<open>
  The request \<open>csopen\<close> writes is taken apart by \<open>buf_args\<close> into the name and the flag it was made of, as long as the name has no white space; the
  server then opens the file and answers, on every branch.
\<close>

definition plain_name :: "string \<Rightarrow> bool" where
  "plain_name name \<longleftrightarrow> name \<noteq> [] \<and> (\<forall>c\<in>set name. \<not> white c \<and> c \<noteq> NUL)"

definition request :: "string \<Rightarrow> int \<Rightarrow> bytes" where
  "request name fl = concat (csopen_iov name fl)"

lemma request_eq: "request name fl = ''open '' @ name @ '' '' @ fmt_d fl @ [NUL]"
  by (simp add: request_def csopen_iov_def)

lemma takeWhile_all: "(\<And>c. c \<in> set a \<Longrightarrow> P c) \<Longrightarrow> b = [] \<or> \<not> P (hd b) \<Longrightarrow> takeWhile P (a @ b) = a"
  by (cases b) (simp_all add: takeWhile_append)

lemma dropWhile_all: "(\<And>c. c \<in> set a \<Longrightarrow> P c) \<Longrightarrow> b = [] \<or> \<not> P (hd b) \<Longrightarrow> dropWhile P (a @ b) = b"
  by (cases b) (simp_all add: dropWhile_append)

lemma strtok_token:
  assumes "t \<noteq> []" and "\<forall>c\<in>set t. \<not> white c" and "r = [] \<or> white (hd r)"
  shows "strtok (t @ r) = Some (t, tl r)"
proof -
  obtain a as where t: "t = a # as" "\<not> white a" using assms(1,2) by (cases t) auto
  then have "dropWhile white (t @ r) = t @ r" by simp
  moreover have "takeWhile (\<lambda>c. \<not> white c) (t @ r) = t" by (rule takeWhile_all) (use assms in auto)
  moreover have "dropWhile (\<lambda>c. \<not> white c) (t @ r) = r" by (rule dropWhile_all) (use assms in auto)
  ultimately show ?thesis using assms(1) by (simp add: strtok_def)
qed

lemma digit_not_white: "isdigit c \<Longrightarrow> \<not> white c \<and> c \<noteq> NUL"
  by (auto simp: isdigit_def white_def)

lemma fmt_d_plain:
  assumes "0 \<le> fl"
  shows "fmt_d fl \<noteq> []" "\<forall>c\<in>set (fmt_d fl). \<not> white c \<and> c \<noteq> NUL"
  using fmt_d_nat_digits [of _ "nat fl"] fmt_d_nat_nonempty [of "nat fl"] assms digit_not_white by auto

lemma cstr_request:
  assumes "plain_name name" and "0 \<le> fl"
  shows "cstr (request name fl) = ''open '' @ name @ '' '' @ fmt_d fl"
proof -
  have "NUL \<notin> set (''open '' @ name @ '' '' @ fmt_d fl)" using assms(1) fmt_d_plain(2) [OF assms(2)] by (auto simp: plain_name_def)
  from cstr_append_NUL [OF this, of "[]"] show ?thesis by (simp add: request_eq)
qed

lemma strtok_Nil [simp]: "strtok [] = None"
  by (simp add: strtok_def)

lemma buf_args_request:
  assumes n: "plain_name name" and f: "0 \<le> fl"
  shows "buf_args (cstr (request name fl)) g = g [''open'', name, fmt_d fl]"
proof -
  note d = fmt_d_plain [OF f]
  have "strtok (''open'' @ '' '' @ name @ '' '' @ fmt_d fl) = Some (''open'', name @ '' '' @ fmt_d fl)"
    using strtok_token [of "''open''" "'' '' @ name @ '' '' @ fmt_d fl"] by (simp add: white_def)
  moreover have "strtok (name @ '' '' @ fmt_d fl) = Some (name, fmt_d fl)"
    using strtok_token [of name "'' '' @ fmt_d fl"] n by (simp add: plain_name_def white_def)
  moreover have "strtok (fmt_d fl) = Some (fmt_d fl, [])"
    using strtok_token [of "fmt_d fl" "[]"] d by simp
  ultimately show ?thesis
    by (simp add: buf_args_def cstr_request [OF n f] more_args.simps white_def)
qed

lemma strsep_token: "\<forall>c\<in>set t. \<not> white c \<Longrightarrow> strsep_all t = [t]"
  by (induction t) simp_all

lemma strsep_append: "\<forall>c\<in>set t. \<not> white c \<Longrightarrow> white w \<Longrightarrow> strsep_all (t @ w # r) = t # strsep_all r"
  by (induction t) simp_all

lemma strsep_request:
  assumes n: "plain_name name" and f: "0 \<le> fl"
  shows "strsep_all (cstr (request name fl)) = [''open'', name, fmt_d fl]"
proof -
  have "strsep_all (name @ CHR '' '' # fmt_d fl) = [name, fmt_d fl]"
    using strsep_append [of name "CHR '' ''" "fmt_d fl"] strsep_token [of "fmt_d fl"] n fmt_d_plain(2) [OF f] by (simp add: plain_name_def white_def)
  then have "strsep_all (''open'' @ CHR '' '' # name @ CHR '' '' # fmt_d fl) = [''open'', name, fmt_d fl]" by (simp add: white_def)
  then show ?thesis using cstr_request [OF n f] by simp
qed

lemma atoi_fmt_d: "0 \<le> fl \<Longrightarrow> fl < 2 ^ 31 \<Longrightarrow> atoi (fmt_d fl) = fl"
  using atoi_fmt_wd [of "nat fl" "[]" 0] by (simp add: fmt_wd_def pad_left_def)

subsection \<open>Opening and answering\<close>

text \<open>The file a name stands for, or the new one that is made for it.\<close>

definition file_of :: "string \<Rightarrow> oflag set \<Rightarrow> oserv \<Rightarrow> nat option" where
  "file_of name flags s = (case k_dir s name of Some ino \<Rightarrow> Some ino | None \<Rightarrow> if O_CREAT \<in> flags then Some (k_nino s) else None)"

text \<open>What opening and answering leave alone.\<close>

definition served_frame :: "oserv \<Rightarrow> oserv \<Rightarrow> bool" where
  "served_frame s t \<longleftrightarrow> k_faults t = k_faults s \<and> k_maxfd t = k_maxfd s \<and> clients t = clients s \<and> sv_pending t = sv_pending s \<and>
     sv_stat t = sv_stat s \<and> sv_ready t = sv_ready s \<and> k_strerror t = k_strerror s"

lemma served_frame_refl [simp]: "served_frame s s"
  by (simp add: served_frame_def)

lemma served_frame_trans: "served_frame s t \<Longrightarrow> served_frame t u \<Longrightarrow> served_frame s u"
  by (simp add: served_frame_def)

lemma put_log_oserv [simp]:
  "n_sock (put_log l s) = n_sock s" "sv_ctl (put_log l s) = sv_ctl s" "clients (put_log l s) = clients s" "errmsg (put_log l s) = errmsg s"
  "pathname (put_log l s) = pathname s" "oflag_arg (put_log l s) = oflag_arg s" "sv_pending (put_log l s) = sv_pending s"
  "sv_stat (put_log l s) = sv_stat s" "sv_ready (put_log l s) = sv_ready s" "n_closed (put_log l s) = n_closed s"
  for s :: oserv
  by (simp_all add: put_log_def)

lemma answered_cong:
  "n_sock s' = n_sock s \<Longrightarrow> sv_ctl s' = sv_ctl s \<Longrightarrow> n_sock t' = n_sock t \<Longrightarrow> sv_ctl t' = sv_ctl t \<Longrightarrow> answered fd s' m st ds t' = answered fd s m st ds t"
  by (simp add: answered_def)

lemma takes_all_cong: "n_sock t = n_sock s \<Longrightarrow> takes_all fd t = takes_all fd s"
  by (simp add: takes_all_def)

lemma parse_run:
  assumes "plain_name name" and "0 \<le> fl" and "fl < 2 ^ 31"
  shows "bnd (buf_args (cstr (request name fl)) cli_args) h s = h 0 (s\<lparr>pathname := name, oflag_arg := fl\<rparr>)"
    and "k_faults s = [] \<Longrightarrow> 23 \<le> length (cstr (request name fl)) \<Longrightarrow>
      bnd (buf_args_os (cstr (request name fl)) cli_args) h s = h 0 (s\<lparr>pathname := name, oflag_arg := fl\<rparr>)"
    and "k_faults s = [] \<Longrightarrow> length (cstr (request name fl)) < 23 \<Longrightarrow>
      bnd (buf_args_os (cstr (request name fl)) cli_args) h s = Abort (Undefined ''store past the end of argv'') s"
  using assms by (simp_all add: buf_args_request cli_args_def atoi_fmt_d bnd_def buf_args_os_def strsep_request)

lemma open_arg_run:
  assumes "k_faults s = []" and "free_fd s = Some fd" and "file_of (pathname s) (oflags_of (oflag_arg s)) s = Some ino"
  shows "\<exists>u. open_arg s = Ok fd u \<and> k_ofd u = (k_ofd s)(fd \<mapsto> \<lparr>of_ino = ino, of_pos = 0, of_flags = oflags_of (oflag_arg s)\<rparr>) \<and>
    n_sock u = n_sock s \<and> sv_ctl u = sv_ctl s \<and> served_frame s u \<and> pathname u = pathname s"
  using assms by (auto simp: open_arg_def sys_open_def bnd_def file_of_def served_frame_def split: option.splits if_splits)

lemma open_arg_fails:
  assumes "k_faults s = []" and "free_fd s = None \<or> file_of (pathname s) (oflags_of (oflag_arg s)) s = None"
  shows "open_arg s = Ok (-1) (s\<lparr>k_errno := (if free_fd s = None then EMFILE else ENOENT)\<rparr>)"
  using assms by (auto simp: open_arg_def sys_open_def bnd_def file_of_def split: option.splits if_splits)

text \<open>Sending the descriptor and closing it, the end of all three versions of \<open>handle_request\<close>.\<close>

lemma pass_on:
  assumes "k_faults u = []" and "takes_all clifd u" and "k_ofd u fd = Some d" and "0 \<le> fd" and "n_sock u fd = None"
  shows "\<exists>v. send_fd clifd fd u = Ok 0 v \<and> answered clifd u [] NUL [d] v \<and> served_frame u v \<and> k_ofd v = k_ofd u \<and> n_sock v fd = None \<and> pathname v = pathname u"
proof -
  obtain v where v: "send_fd clifd fd u = Ok 0 v" "answered clifd u [] NUL [d] v" "\<exists>n c m. v = u\<lparr>n_sock := n, sv_ctl := c, cmptr := m\<rparr>"
    using send_fd_run [of clifd u fd d] assms by auto
  moreover have "fd \<noteq> clifd" using assms(2,5) by (auto simp: takes_all_def)
  then have "n_sock v fd = None" using v(2) assms(5) by (auto simp: answered_def)
  moreover have "served_frame u v" "k_ofd v = k_ofd u" "pathname v = pathname u" using v(3) by (auto simp: served_frame_def)
  ultimately show ?thesis by blast
qed

lemma close_opened:
  assumes "k_faults v = []" and "k_ofd v fd = Some d" and "n_sock v fd = None"
  shows "\<exists>w. net_close fd v = Ok 0 w \<and> k_ofd w = (k_ofd v)(fd := None) \<and> n_sock w = n_sock v \<and> sv_ctl w = sv_ctl v \<and> served_frame v w"
proof -
  have "(n_sock v)(fd := None) = n_sock v" using assms(3) by (simp add: fun_upd_idem)
  then show ?thesis using assms by (simp add: net_close_def sys_close_def bnd_def served_frame_def)
qed

subsection \<open>The rest of a request, for every way of logging\<close>

text \<open>
  Locale \<open>logger\<close>: a routine that reports a message, when the message is \<open>fine\<close>, and leaves everything else alone. The servers report to the system log, with a
  message or with a format, on standard output, or not at all.
\<close>

definition same_server :: "oserv \<Rightarrow> oserv \<Rightarrow> bool" where
  "same_server s t \<longleftrightarrow> served_frame s t \<and> k_ofd t = k_ofd s \<and> k_dir t = k_dir s \<and> k_nino t = k_nino s \<and> k_errno t = k_errno s \<and> n_sock t = n_sock s \<and>
     sv_ctl t = sv_ctl s \<and> pathname t = pathname s \<and> oflag_arg t = oflag_arg s \<and> errmsg t = errmsg s"

locale logger =
  fixes say :: "string \<Rightarrow> (oserv, unit) prog" and fine :: "string \<Rightarrow> bool"
  assumes say: "fine m \<Longrightarrow> \<exists>t. say m s = Ok () t \<and> same_server s t"
begin

lemma serve_opens:
  assumes f: "k_faults s = []" and k: "takes_all clifd s" and fd: "free_fd s = Some fd" and ino: "file_of (pathname s) (oflags_of (oflag_arg s)) s = Some ino"
    and n: "n_sock s fd = None" and fine: "\<And>p. fine (report fd p)"
  shows "\<exists>t. bnd open_arg (\<lambda>newfd. if newfd < 0 then E else bnd (send_fd clifd newfd) (\<lambda>q. if q < 0 then F
      else bnd (gets pathname) (\<lambda>p. bnd (say (report newfd p)) (\<lambda>_. bnd (net_close newfd) (\<lambda>_. ret ()))))) s = Ok () t \<and>
    answered clifd s [] NUL [\<lparr>of_ino = ino, of_pos = 0, of_flags = oflags_of (oflag_arg s)\<rparr>] t \<and> k_ofd t = k_ofd s \<and> served_frame s t"
proof -
  let ?d = "\<lparr>of_ino = ino, of_pos = 0, of_flags = oflags_of (oflag_arg s)\<rparr>"
  have fd0: "0 \<le> fd" "k_ofd s fd = None" using free_fd_Some [OF fd] by simp_all
  obtain u where u: "open_arg s = Ok fd u" "k_ofd u = (k_ofd s)(fd \<mapsto> ?d)" "n_sock u = n_sock s" "sv_ctl u = sv_ctl s" "served_frame s u"
    using open_arg_run [OF f fd ino] by blast
  have "k_faults u = []" using u(5) f by (simp add: served_frame_def)
  then obtain v where v: "send_fd clifd fd u = Ok 0 v" "answered clifd u [] NUL [?d] v" "served_frame u v" "k_ofd v = k_ofd u" "n_sock v fd = None"
    using pass_on [of u clifd fd ?d] u k fd0 n takes_all_cong [OF u(3)] by auto
  obtain w where w: "say (report fd (pathname v)) v = Ok () w" "same_server v w" using say [OF fine] by blast
  have "k_faults w = []" "k_ofd w fd = Some ?d" "n_sock w fd = None"
    using w(2) v u f by (simp_all add: same_server_def served_frame_def)
  then obtain t where t: "net_close fd w = Ok 0 t" "k_ofd t = (k_ofd w)(fd := None)" "n_sock t = n_sock w" "sv_ctl t = sv_ctl w" "served_frame w t"
    using close_opened by blast
  have "k_ofd t = k_ofd s" using t(2) w(2) v(4) u(2) fd0 by (simp add: same_server_def fun_upd_idem)
  moreover have "answered clifd s [] NUL [?d] t"
    using v(2) t(3,4) w(2) u(3,4) by (simp add: same_server_def answered_def)
  moreover have "served_frame s t" using u(5) v(3) w(2) t(5) by (auto simp: same_server_def intro: served_frame_trans)
  ultimately show ?thesis using u(1) v(1) w(1) t(1) fd0 by (simp add: bnd_def)
qed

lemma answer_error:
  assumes f: "k_faults s = []" and k: "takes_all clifd s" and fine: "fine (errmsg s)"
  shows "\<exists>t. bnd (gets errmsg) (\<lambda>e. bnd (send_err clifd (-1) e) (\<lambda>_. say e)) s = Ok () t \<and> answered clifd s (errmsg s) (CHR 0x01) [] t \<and>
    k_ofd t = k_ofd s \<and> served_frame s t"
proof -
  have st: "status_byte (-1) = CHR 0x01" by (simp add: status_byte_def char_of_def bit_Suc_0_iff)
  obtain u where u: "send_err clifd (-1) (errmsg s) s = Ok 0 u" "answered clifd s (errmsg s) (CHR 0x01) [] u"
      "\<exists>n c m. u = s\<lparr>n_sock := n, sv_ctl := c, cmptr := m\<rparr>" using send_err_run [OF k f, of "-1" "errmsg s"] st by auto
  obtain t where t: "say (errmsg s) u = Ok () t" "same_server u t" using say [OF fine] by blast
  have "answered clifd s (errmsg s) (CHR 0x01) [] t" using u(2) t(2) by (simp add: same_server_def answered_def)
  moreover have "k_ofd t = k_ofd s" "served_frame s t" using u(3) t(2) by (auto simp: same_server_def served_frame_def)
  ultimately show ?thesis using u(1) t(1) by (auto simp: bnd_def)
qed

lemma serve_refuses:
  assumes f: "k_faults s = []" and k: "takes_all clifd s" and no: "free_fd s = None \<or> file_of (pathname s) (oflags_of (oflag_arg s)) s = None"
    and m: "msg = take (MAXLINE - 2) (''can't open '' @ pathname s @ '': '' @ k_strerror s (if free_fd s = None then EMFILE else ENOENT) @ NL)"
    and fine: "fine msg"
  shows "\<exists>t. bnd open_arg (\<lambda>newfd. if newfd < 0 then bnd cant_open (\<lambda>_. bnd (gets errmsg) (\<lambda>e. bnd (send_err clifd (-1) e) (\<lambda>_. say e)))
      else G newfd) s = Ok () t \<and> answered clifd s msg (CHR 0x01) [] t \<and> k_ofd t = k_ofd s \<and> served_frame s t"
proof -
  let ?u = "s\<lparr>k_errno := (if free_fd s = None then EMFILE else ENOENT), errmsg := msg\<rparr>"
  have u: "k_faults ?u = []" "takes_all clifd ?u" "errmsg ?u = msg" using f k by (simp_all add: takes_all_def)
  obtain t where t: "bnd (gets errmsg) (\<lambda>e. bnd (send_err clifd (-1) e) (\<lambda>_. say e)) ?u = Ok () t" "answered clifd ?u msg (CHR 0x01) [] t"
    "k_ofd t = k_ofd ?u" "served_frame ?u t" using answer_error [OF u(1,2)] u(3) fine by auto
  let ?E = "\<lambda>e. bnd (send_err clifd (-1) e) (\<lambda>_. say e)"
  have c: "cant_open (s\<lparr>k_errno := (if free_fd s = None then EMFILE else ENOENT)\<rparr>) = Ok () ?u" by (simp add: cant_open_def set_errmsg_def m)
  have "bnd open_arg (\<lambda>newfd. if newfd < 0 then bnd cant_open (\<lambda>_. bnd (gets errmsg) ?E) else G newfd) s = bnd (gets errmsg) ?E ?u"
    unfolding bnd_Ok [of open_arg, OF open_arg_fails [OF f no]] by (subst if_P, simp) (rule bnd_Ok [of cant_open, OF c])
  with t(1) have "bnd open_arg (\<lambda>newfd. if newfd < 0 then bnd cant_open (\<lambda>_. bnd (gets errmsg) ?E) else G newfd) s = Ok () t" by simp
  moreover have "answered clifd s msg (CHR 0x01) [] t" using t(2) by (simp add: answered_def)
  moreover have "k_ofd t = k_ofd s" "served_frame s t" using t(3,4) by (simp_all add: served_frame_def)
  ultimately show ?thesis by blast
qed

end

interpretation lm: logger log_msg "\<lambda>m. True"
  by unfold_locales (simp add: same_server_def served_frame_def)

interpretation lf: logger log_format "\<lambda>m. plain_format m \<noteq> None"
  by unfold_locales (auto simp: log_format_def same_server_def served_frame_def)

interpretation lp: logger printf "\<lambda>m. True"
  by unfold_locales (simp add: printf_def same_server_def served_frame_def)

interpretation ln: logger "\<lambda>m. ret ()" "\<lambda>m. True"
  by unfold_locales (simp add: same_server_def served_frame_def)

subsection \<open>Whole requests\<close>

text \<open>A server that can answer on \<open>clifd\<close>: no call fails, the socket takes what is written, and sockets are open descriptors.\<close>

definition can_answer :: "int \<Rightarrow> oserv \<Rightarrow> bool" where
  "can_answer clifd s \<longleftrightarrow> k_faults s = [] \<and> takes_all clifd s \<and> (\<forall>fd. n_sock s fd \<noteq> None \<longrightarrow> k_ofd s fd \<noteq> None)"

text \<open>The answer to the request for a file: with the file, or with the reason why not.\<close>

definition refusal :: "string \<Rightarrow> oserv \<Rightarrow> string" where
  "refusal name s = take (MAXLINE - 2) (''can't open '' @ name @ '': '' @ k_strerror s (if free_fd s = None then EMFILE else ENOENT) @ NL)"

definition answer_of :: "string \<Rightarrow> int \<Rightarrow> oserv \<Rightarrow> string \<times> char \<times> ofd option" where
  "answer_of name fl s = (case (free_fd s, file_of name (oflags_of fl) s) of
      (Some fd, Some ino) \<Rightarrow> ([], NUL, Some \<lparr>of_ino = ino, of_pos = 0, of_flags = oflags_of fl\<rparr>)
    | _ \<Rightarrow> (refusal name s, CHR 0x01, None))"

definition answers :: "string \<Rightarrow> int \<Rightarrow> int \<Rightarrow> oserv \<Rightarrow> oserv \<Rightarrow> bool" where
  "answers name fl clifd s t \<longleftrightarrow> k_ofd t = k_ofd s \<and> served_frame s t \<and>
     (case answer_of name fl s of (msg, st, d) \<Rightarrow> answered clifd s msg st (case d of None \<Rightarrow> [] | Some f \<Rightarrow> [f]) t)"

lemma last_request [simp]: "last (request name fl) = NUL"
  by (simp add: request_eq)

lemma answers_of_parsed:
  assumes a: "same_server (s\<lparr>pathname := name, oflag_arg := fl\<rparr>) u" and c: "can_answer clifd s"
    and ok: "\<And>fd ino. free_fd u = Some fd \<Longrightarrow> file_of name (oflags_of fl) u = Some ino \<Longrightarrow> n_sock u fd = None \<Longrightarrow>
      \<exists>t. m u = Ok () t \<and> answered clifd u [] NUL [\<lparr>of_ino = ino, of_pos = 0, of_flags = oflags_of fl\<rparr>] t \<and> k_ofd t = k_ofd u \<and> served_frame u t"
    and no: "free_fd u = None \<or> file_of name (oflags_of fl) u = None \<Longrightarrow>
      \<exists>t. m u = Ok () t \<and> answered clifd u (refusal name u) (CHR 0x01) [] t \<and> k_ofd t = k_ofd u \<and> served_frame u t"
  shows "\<exists>t. m u = Ok () t \<and> answers name fl clifd s t"
proof -
  have f: "free_fd u = free_fd s" "file_of name (oflags_of fl) u = file_of name (oflags_of fl) s" "refusal name u = refusal name s"
    using a by (simp_all add: same_server_def served_frame_def free_fd_def file_of_def refusal_def split: option.split)
  have fr: "served_frame u t \<Longrightarrow> served_frame s t" "k_ofd u = k_ofd s" "answered clifd u x y z t = answered clifd s x y z t" for t x y z
    using a by (simp_all add: same_server_def served_frame_def answered_def)
  show ?thesis
  proof (cases "free_fd s = None \<or> file_of name (oflags_of fl) s = None")
    case True
    then obtain t where "m u = Ok () t" "answered clifd s (refusal name s) (CHR 0x01) [] t" "k_ofd t = k_ofd s" "served_frame s t" using no f fr by metis
    moreover have "answers name fl clifd s t"
      using True calculation(2-4) by (cases "free_fd s") (auto simp: answers_def answer_of_def)
    ultimately show ?thesis by blast
  next
    case False
    then obtain fd ino where i: "free_fd s = Some fd" "file_of name (oflags_of fl) s = Some ino" by auto
    then have "n_sock u fd = None" using c free_fd_Some [OF i(1)] a by (auto simp: can_answer_def same_server_def)
    then show ?thesis using ok [of fd ino] i f fr by (fastforce simp: answers_def answer_of_def)
  qed
qed

text \<open>The three servers differ in how they report a sent descriptor and a refusal.\<close>

lemma request_answered:
  assumes l: "same_server s l" and c: "can_answer clifd s" and lg: "logger say1 fine1" "logger say2 fine2"
    and fine: "\<And>fd p. fine1 (report fd p)" "fine2 (refusal name s)"
  shows "\<exists>t. bnd open_arg (\<lambda>newfd. if newfd < 0 then bnd cant_open (\<lambda>_. bnd (gets errmsg) (\<lambda>e. bnd (send_err clifd (-1) e) (\<lambda>_. say2 e)))
      else bnd (send_fd clifd newfd) (\<lambda>q. if q < 0 then F
        else bnd (gets pathname) (\<lambda>p. bnd (say1 (report newfd p)) (\<lambda>_. bnd (net_close newfd) (\<lambda>_. ret ())))))
      (l\<lparr>pathname := name, oflag_arg := fl\<rparr>) = Ok () t \<and> answers name fl clifd s t"
proof -
  let ?u = "l\<lparr>pathname := name, oflag_arg := fl\<rparr>"
  have f: "k_faults ?u = []" "takes_all clifd ?u" using c l by (simp_all add: can_answer_def same_server_def served_frame_def takes_all_def)
  have r: "refusal name ?u = refusal name s" using l by (simp add: refusal_def same_server_def served_frame_def free_fd_def)
  show ?thesis
  proof (rule answers_of_parsed [OF _ c])
    show "same_server (s\<lparr>pathname := name, oflag_arg := fl\<rparr>) ?u" using l by (simp add: same_server_def served_frame_def)
  qed (use logger.serve_opens [OF lg(1), where s = ?u and clifd = clifd and report = report] fine f
      logger.serve_refuses [OF lg(2), where s = ?u and clifd = clifd and msg = "refusal name ?u"] r in \<open>simp_all add: refusal_def\<close>)
qed

lemma handle_request_answers:
  assumes n: "plain_name name" "0 \<le> fl" "fl < 2 ^ 31" and c: "can_answer clifd s" and p: "plain_format (refusal name s) \<noteq> None"
  shows "\<exists>t. handle_request (request name fl) clifd uid s = Ok () t \<and> answers name fl clifd s t"
proof -
  let ?req = "''request: '' @ cstr (request name fl) @ '', from uid '' @ pr_uid uid"
  obtain l where l: "log_msg ?req s = Ok () l" "same_server s l" using lm.say [of ?req s] by blast
  show ?thesis
    unfolding handle_request_def
    by (simp only: last_request if_False simp_thms bnd_Ok [of "log_msg _", OF l(1)] parse_run(1) [OF n] less_irrefl)
      (rule request_answered [OF l(2) c lm.logger_axioms lf.logger_axioms TrueI p,
        where report = "\<lambda>newfd p. ''sent fd '' @ fmt_d newfd @ '' over fd '' @ fmt_d clifd @ '' for '' @ p"])
qed

lemma handle_request_fe_answers:
  assumes n: "plain_name name" "0 \<le> fl" "fl < 2 ^ 31" and c: "can_answer fd s"
  shows "\<exists>t. handle_request_fe (request name fl) fd s = Ok () t \<and> answers name fl fd s t"
proof -
  have g: "bnd (gets f) (\<lambda>_. m) = m" for f and m :: "(oserv, unit) prog" by (simp add: fun_eq_iff)
  have "same_server s s" by (simp add: same_server_def)
  from request_answered [OF this c ln.logger_axioms ln.logger_axioms TrueI TrueI, where F = "err_sys ''send_fd error''" and name = name and fl = fl]
  show ?thesis unfolding handle_request_fe_def by (simp only: last_request if_False simp_thms parse_run(1) [OF n] bnd_ret g less_irrefl)
qed

lemma handle_request_os_answers:
  assumes n: "plain_name name" "0 \<le> fl" "fl < 2 ^ 31" and c: "can_answer fd s"
  shows "23 \<le> length (cstr (request name fl)) \<Longrightarrow> \<exists>t. handle_request_os (request name fl) fd uid s = Ok () t \<and> answers name fl fd s t"
    and "length (cstr (request name fl)) < 23 \<Longrightarrow>
      \<exists>t. handle_request_os (request name fl) fd uid s = Abort (Undefined ''store past the end of argv'') t"
proof -
  let ?req = "''request: '' @ cstr (request name fl) @ '', from uid '' @ pr_uid uid @ '' '' @ NL"
  obtain l where l: "printf ?req s = Ok () l" "same_server s l" using lp.say [of ?req s] by blast
  have f: "k_faults l = []" using l(2) c by (simp add: same_server_def served_frame_def can_answer_def)
  have "logger (\<lambda>e. printf (e @ NL)) (\<lambda>m. True)" by unfold_locales (use lp.say in blast)
  then show "23 \<le> length (cstr (request name fl)) \<Longrightarrow> \<exists>t. handle_request_os (request name fl) fd uid s = Ok () t \<and> answers name fl fd s t"
    unfolding handle_request_os_def
    by (simp only: last_request if_False simp_thms bnd_Ok [of "printf _", OF l(1)] parse_run(2) [OF n f] less_irrefl)
      (rule request_answered [OF l(2) c lp.logger_axioms _ TrueI TrueI,
        where report = "\<lambda>newfd p. ''sent fd '' @ fmt_d newfd @ '' over fd '' @ fmt_d fd @ '' for '' @ p @ '' '' @ NL"])
  show "length (cstr (request name fl)) < 23 \<Longrightarrow> \<exists>t. handle_request_os (request name fl) fd uid s = Abort (Undefined ''store past the end of argv'') t"
    unfolding handle_request_os_def
    by (simp only: last_request if_False simp_thms bnd_Ok [of "printf _", OF l(1)] parse_run(3) [OF n f]) blast
qed

end
