(* ===== verification/Open_Table.thy ===== *)
theory Open_Table
  imports Open_Loops Open_Serve
begin

section \<open>The table of clients as a map, and the loop around \<open>select\<close>\<close>

text \<open>
  \<open>client_table s\<close> is the map from the descriptors of the clients to their user ids that the array stands for, \<open>table_ok\<close> that no descriptor is in it twice. \<open>client_add\<close> and
  \<open>client_del\<close> are an update and a removal.
\<close>

definition slots :: "oserv \<Rightarrow> Client list" where
  "slots s = (case clients s of None \<Rightarrow> [] | Some cs \<Rightarrow> cs)"

definition used :: "Client list \<Rightarrow> (int \<times> int) list" where
  "used cs = map (\<lambda>c. (cl_fd c, cl_uid c)) (filter (\<lambda>c. cl_fd c \<noteq> -1) cs)"

definition client_table :: "oserv \<Rightarrow> int \<rightharpoonup> int" where
  "client_table s = map_of (used (slots s))"

definition table_ok :: "oserv \<Rightarrow> bool" where
  "table_ok s \<longleftrightarrow> distinct (map fst (used (slots s)))"

lemma used_append [simp]: "used (xs @ ys) = used xs @ used ys"
  by (simp add: used_def)

lemma used_Cons: "used (c # cs) = (if cl_fd c \<noteq> -1 then (cl_fd c, cl_uid c) # used cs else used cs)"
  by (simp add: used_def)

lemma used_free [simp]: "used (replicate n \<lparr>cl_fd = -1, cl_uid = u\<rparr>) = []"
  by (simp add: used_def)

lemma slot_split:
  assumes "slot_of fd s = Some i"
  shows "i < length (slots s) \<and> cl_fd (slots s ! i) = fd \<and> (\<exists>cs. clients s = Some cs) \<and>
    slots s = take i (slots s) @ slots s ! i # drop (Suc i) (slots s)"
  using assms by (auto simp: slot_of_def slots_def find_Some_iff id_take_nth_drop split: option.splits)

lemma slot_None:
  assumes "slot_of fd s = None" and "c \<in> set (slots s)"
  shows "cl_fd c \<noteq> fd"
  using assms by (auto simp: slot_of_def slots_def find_None_iff in_set_conv_nth split: option.splits)

lemma set_slot_slots:
  assumes "slot_of fd s = Some i"
  shows "slots (set_slot i f u s) = take i (slots s) @ \<lparr>cl_fd = f, cl_uid = u\<rparr> # drop (Suc i) (slots s)"
  using assms slot_split [OF assms] by (auto simp: set_slot_def slots_def upd_conv_take_nth_drop)

definition but_table :: "oserv \<Rightarrow> oserv" where
  "but_table s = s\<lparr>k_faults := [], clients := None\<rparr>"

text \<open>The first free slot is found, possibly after the array has grown.\<close>

lemma client_again_run:
  assumes "slot_of (-1) s = Some i"
  shows "client_again (Suc n) m fd uid s = Ok i (set_slot i fd uid s)"
  using assms by (simp add: bnd_def)

lemma client_alloc_run:
  assumes "client_alloc m s = Ok () t" and "\<And>u. m u \<noteq> Ok () t"
  shows "slots t = slots s @ replicate NALLOC \<lparr>cl_fd = -1, cl_uid = sv_junk s\<rparr> \<and> but_table t = but_table s"
  using assms by (auto simp: client_alloc_def bnd_def slots_def syscall_def but_table_def split: list.splits option.splits if_splits outcome.splits)

lemma grown_slot:
  assumes "slots s = cs @ replicate NALLOC \<lparr>cl_fd = -1, cl_uid = u\<rparr>"
  shows "\<exists>i. slot_of (-1) s = Some i"
proof (rule ccontr)
  assume "\<not> ?thesis"
  then have "slot_of (-1) s = None" by (cases "slot_of (-1) s") auto
  moreover have "\<lparr>cl_fd = -1, cl_uid = u\<rparr> \<in> set (slots s)" by (simp add: assms)
  ultimately show False using slot_None [of "-1" s] by fastforce
qed

text \<open>What a new client changes.\<close>

definition added :: "int \<Rightarrow> int \<Rightarrow> oserv \<Rightarrow> nat \<Rightarrow> oserv \<Rightarrow> bool" where
  "added fd uid s i t \<longleftrightarrow> client_table t = (client_table s)(fd \<mapsto> uid) \<and> table_ok t \<and> i < length (slots t) \<and> slots t ! i = \<lparr>cl_fd = fd, cl_uid = uid\<rparr> \<and>
     length (slots s) \<le> length (slots t) \<and> (\<forall>j<length (slots t). j \<noteq> i \<longrightarrow> (if j < length (slots s) then slots t ! j = slots s ! j else cl_fd (slots t ! j) = -1)) \<and>
     but_table t = but_table s"

lemma table_insert:
  assumes "table_ok s" and "used (slots s) = used a @ used b" and "slots t = a @ \<lparr>cl_fd = fd, cl_uid = uid\<rparr> # b" and "fd \<noteq> -1" and "fd \<notin> dom (client_table s)"
  shows "client_table t = (client_table s)(fd \<mapsto> uid) \<and> table_ok t"
proof -
  have n: "fd \<notin> fst ` set (used a)" "fd \<notin> fst ` set (used b)" using assms(2,5) by (simp_all add: client_table_def dom_map_of_conv_image_fst)
  then have "map_of (used a) fd = None" by (simp add: map_of_eq_None_iff)
  then have "map_of (used a @ (fd, uid) # used b) = (map_of (used a @ used b))(fd \<mapsto> uid)"
    using n by (auto simp: fun_eq_iff map_add_def split: option.split)
  then show ?thesis using assms n by (auto simp: client_table_def table_ok_def used_Cons)
qed

lemma fill_slot:
  assumes ok: "table_ok s" and u: "slots u = slots s @ replicate n \<lparr>cl_fd = -1, cl_uid = j\<rparr>" "but_table u = but_table s"
    and i: "slot_of (-1) u = Some i" and fd: "fd \<noteq> -1" "fd \<notin> dom (client_table s)"
  shows "added fd uid s i (set_slot i fd uid u)"
proof -
  let ?t = "set_slot i fd uid u"
  note sp = slot_split [OF i]
  have t: "slots ?t = take i (slots u) @ \<lparr>cl_fd = fd, cl_uid = uid\<rparr> # drop (Suc i) (slots u)" by (rule set_slot_slots [OF i])
  have "used (slots u) = used (take i (slots u)) @ used (slots u ! i # drop (Suc i) (slots u))" using sp by (metis used_append)
  then have us: "used (slots s) = used (take i (slots u)) @ used (drop (Suc i) (slots u))" using sp u(1) by (simp add: used_Cons)
  have il: "i < length (slots u)" using sp by simp
  have len: "length (slots ?t) = length (slots u)" unfolding t using il by simp
  have nth: "slots ?t ! j = (if j = i then \<lparr>cl_fd = fd, cl_uid = uid\<rparr> else slots u ! j)" if "j < length (slots u)" for j
    using il that unfolding t by (auto simp: nth_append min_def)
  have "but_table ?t = but_table s" using u(2) by (simp add: set_slot_def but_table_def)
  moreover have "(if j < length (slots s) then slots ?t ! j = slots s ! j else cl_fd (slots ?t ! j) = -1)" if "j < length (slots ?t)" "j \<noteq> i" for j
    using nth [of j] that len u(1) by (auto simp: nth_append)
  ultimately show ?thesis using table_insert [OF ok us t fd] nth [of i] sp len u(1) by (simp add: added_def)
qed

lemma client_add_run:
  assumes r: "client_add_with m fd uid s = Ok i t" and m: "\<And>u t. m u \<noteq> Ok () t" and ok: "table_ok s" and fd: "fd \<noteq> -1" "fd \<notin> dom (client_table s)"
  shows "added fd uid s i t"
proof -
  have grown: "added fd uid s i t" if u: "client_alloc m s = Ok () u" and a: "client_again (Suc n) m fd uid u = Ok i t" for u n
  proof -
    have g: "slots u = slots s @ replicate NALLOC \<lparr>cl_fd = -1, cl_uid = sv_junk s\<rparr>" "but_table u = but_table s"
      using client_alloc_run [OF u m] by simp_all
    obtain j where j: "slot_of (-1) u = Some j" using grown_slot [OF g(1)] by blast
    have "added fd uid s j (set_slot j fd uid u)" by (rule fill_slot [OF ok g j fd])
    then show ?thesis using a [unfolded client_again_run [OF j]] by auto
  qed
  show ?thesis
  proof (cases "clients s")
    case None
    then show ?thesis using r grown [of _ 1] by (auto simp: client_add_with_def numeral_2_eq_2 simp del: client_again.simps elim!: bnd_OkE)
  next
    case (Some cs)
    then have start: "client_again 2 m fd uid s = Ok i t" using r by (simp add: client_add_with_def del: client_again.simps)
    show ?thesis
    proof (cases "slot_of (-1) s")
      case None
      then have "bnd (client_alloc m) (\<lambda>_. client_again 1 m fd uid) s = Ok i t" using start by (simp add: numeral_2_eq_2)
      then show ?thesis using grown [of _ 0] by (auto simp del: client_again.simps elim!: bnd_OkE)
    next
      case i: (Some j)
      have "added fd uid s j (set_slot j fd uid s)"
        by (rule fill_slot [OF ok, where n = 0]) (use i fd in simp_all)
      then show ?thesis using client_again_run [OF i, of 1 m fd uid] start by (auto simp: numeral_2_eq_2)
    qed
  qed
qed

text \<open>It returns or ends the server, in two rounds of its loop at most.\<close>

lemma client_add_returns: "client_add fd uid s \<noteq> Hang"
proof -
  let ?m = "err_sys ''can't alloc for client array'' :: (oserv, unit) prog"
  have grown: "bnd (client_alloc ?m) (\<lambda>_. client_again (Suc n) ?m fd uid) s \<noteq> Hang" for n s
  proof (cases "client_alloc ?m s")
    case (Ok x u)
    then have g: "slots u = slots s @ replicate NALLOC \<lparr>cl_fd = -1, cl_uid = sv_junk s\<rparr>" using client_alloc_run [of ?m s u] by simp
    obtain j where j: "slot_of (-1) u = Some j" using grown_slot [OF g] by blast
    show ?thesis using Ok client_again_run [OF j] by (simp add: bnd_def del: client_again.simps)
  next
    case Hang
    then show ?thesis by (auto simp: client_alloc_def bnd_def syscall_def split: list.splits option.splits)
  qed (simp add: bnd_def)
  have "client_again 2 ?m fd uid s \<noteq> Hang"
    using grown [of 0 s] by (cases "slot_of (-1) s") (simp_all add: numeral_2_eq_2 bnd_def [of "gets _"] bnd_def [of "modify _"])
  then show ?thesis using grown [of 1 s] unfolding client_add_def client_add_with_def
    by (simp add: bnd_def [of "gets _"] bnd_def [of "ret _"] numeral_2_eq_2 del: client_again.simps)
qed

lemma client_del_run:
  assumes ok: "table_ok s" and fd: "fd \<in> dom (client_table s)"
  shows "\<exists>t. client_del_with m fd s = Ok () t \<and> client_table t = (client_table s)(fd := None) \<and> table_ok t \<and> length (slots t) = length (slots s) \<and>
    (\<forall>j<length (slots s). slots t ! j = (if cl_fd (slots s ! j) = fd then (slots s ! j)\<lparr>cl_fd := -1\<rparr> else slots s ! j)) \<and> but_table t = but_table s"
proof -
  have "\<exists>c\<in>set (slots s). cl_fd c = fd \<and> cl_fd c \<noteq> -1" using fd by (auto simp: client_table_def used_def dom_map_of_conv_image_fst)
  then obtain i where i: "slot_of fd s = Some i" and fd1: "fd \<noteq> -1" using slot_None [of fd s] by (cases "slot_of fd s") auto
  note sp = slot_split [OF i]
  let ?c = "slots s ! i" and ?a = "take i (slots s)" and ?b = "drop (Suc i) (slots s)"
  let ?t = "set_slot i (-1) (cl_uid ?c) s"
  have t: "slots ?t = ?a @ \<lparr>cl_fd = -1, cl_uid = cl_uid ?c\<rparr> # ?b" by (rule set_slot_slots [OF i])
  have us: "used (slots s) = used ?a @ (fd, cl_uid ?c) # used ?b" "used (slots ?t) = used ?a @ used ?b"
  proof -
    have "used (slots s) = used ?a @ used (?c # ?b)" using sp by (metis used_append)
    then show "used (slots s) = used ?a @ (fd, cl_uid ?c) # used ?b" using sp fd1 by (simp add: used_Cons)
    show "used (slots ?t) = used ?a @ used ?b" unfolding t by (simp add: used_Cons)
  qed
  have d: "fd \<notin> fst ` set (used ?a)" "fd \<notin> fst ` set (used ?b)" using ok us(1) by (auto simp: table_ok_def)
  have "map_of (used ?a) fd = None" "map_of (used ?b) fd = None" using d by (simp_all add: map_of_eq_None_iff)
  then have "client_table ?t = (client_table s)(fd := None)" by (auto simp: client_table_def us fun_eq_iff map_add_def split: option.split)
  moreover have "table_ok ?t" using ok by (auto simp: table_ok_def us)
  moreover have "client_del_with m fd s = Ok () ?t" using i sp by (auto simp: client_del_with_def slots_def)
  moreover have "slots ?t ! j = (if cl_fd (slots s ! j) = fd then (slots s ! j)\<lparr>cl_fd := -1\<rparr> else slots s ! j)" if "j < length (slots s)" for j
  proof (cases "j = i")
    case True
    then show ?thesis using sp unfolding t by (simp add: nth_append min_def)
  next
    case False
    have "cl_fd (slots s ! j) \<noteq> fd"
    proof
      assume e: "cl_fd (slots s ! j) = fd"
      have "slots s ! j \<in> set ?a \<or> slots s ! j \<in> set ?b"
      proof (cases "j < i")
        case True
        then have "?a ! j = slots s ! j" "j < length ?a" using that by simp_all
        then show ?thesis by (metis nth_mem)
      next
        case False
        then have "?b ! (j - Suc i) = slots s ! j" "j - Suc i < length ?b" using that \<open>j \<noteq> i\<close> by simp_all
        then show ?thesis by (metis nth_mem)
      qed
      then show False using d e fd1 by (auto simp: used_def image_iff)
    qed
    then show ?thesis using False sp that unfolding t by (auto simp: nth_append min_def)
  qed
  moreover have "length (slots ?t) = length (slots s)" using sp t by auto
  moreover have "but_table ?t = but_table s" by (simp add: set_slot_def but_table_def)
  ultimately show ?thesis by blast
qed

end
