(* ===== verification/Open_Select.thy ===== *)
theory Open_Select
  imports Open_Table
begin

section \<open>The loop around \<open>select\<close> keeps its books\<close>

text \<open>
  \<open>sel_ok L s\<close> relates the variables of the loop to the table of clients: the watched descriptors are the listening one and those of the clients, all of
  them open; the two limits of the loop are large enough. Every pass keeps this, whatever calls fail and whatever clients send, and a pass never ends because the
  table is not what the loop takes it for.
\<close>

subsection \<open>What serving a request leaves alone\<close>

definition books :: "oserv \<Rightarrow> Client list option \<times> int set" where
  "books s = (clients s, dom (k_ofd s))"

lemma books_syscall [keeps_intros]: "keeps books m \<Longrightarrow> keeps books (syscall bad m)"
  by (auto simp: keeps_def syscall_def books_def split: list.splits option.splits)

lemma books_sys [keeps_intros]: "keeps books (sys_write fd bs)" "keeps books (sys_read fd n)"
proof -
  show "keeps books (sys_write fd bs)" unfolding sys_write_def
    by (rule books_syscall) (auto simp: keeps_def books_def Let_def split: option.splits if_splits)
  show "keeps books (sys_read fd n)" unfolding sys_read_def
    by (rule books_syscall) (auto simp: keeps_def books_def Let_def split: option.splits if_splits)
qed

lemma books_net [keeps_intros]: "keeps books (net_write fd bs)" "keeps books (net_read fd n)"
  using books_sys by (auto simp: keeps_def net_write_def net_read_def books_def split: option.splits list.splits sent.splits prod.splits sum.splits)

lemma books_writen_loop: "keeps books (writen_loop fuel fd n ptr)"
  by (induction fuel arbitrary: ptr) (auto intro!: keeps_intros)

lemma books_log [keeps_intros]: "keeps books (log_msg m)" "keeps books (log_sys m :: (oserv, 'a) prog)" "keeps books (log_quit m :: (oserv, 'a) prog)"
  "keeps books (err_sys m :: (oserv, 'a) prog)"
  by (auto simp: keeps_def books_def)

lemma books_log_format [keeps_intros]: "keeps books (log_format f)"
  unfolding log_format_def by (intro keeps_intros)

lemma books_send [keeps_intros]: "keeps books (writen fd bs)" "keeps books (send_fd fd p)" "keeps books (send_err fd e m)"
proof -
  show w: "keeps books (writen fd bs)" for bs unfolding writen_def by (rule books_writen_loop)
  have "keeps books (sys_sendmsg fd bs pass)" for bs pass
  proof -
    have "keeps books (bnd (net_write fd bs) (\<lambda>n. bnd (if 0 < n then modify (\<lambda>t. t\<lparr>sv_ctl := (sv_ctl t)(fd := sv_ctl t fd @ c)\<rparr>) else ret ()) (\<lambda>_. ret n)))" for c
      by (intro keeps_intros) (simp add: books_def)
    then show ?thesis by (auto simp: keeps_def sys_sendmsg_def books_def split: option.splits)
  qed
  then show s: "keeps books (send_fd fd p)" for p unfolding send_fd_def by (intro keeps_intros) (simp_all add: books_def)
  show "keeps books (send_err fd e m)" unfolding send_err_def by (intro keeps_intros w s)
qed

lemma books_buf_args [keeps_intros]: "keeps books (buf_args b cli_args)"
  unfolding buf_args_def cli_args_def by (intro keeps_intros) (simp_all add: books_def)

lemma books_cant_open [keeps_intros]: "keeps books (set_errmsg m)" "keeps books cant_open"
  unfolding cant_open_def set_errmsg_def by (intro keeps_intros, simp add: books_def)+

text \<open>The descriptor that is opened for a client is a new one, and closed again unless that fails.\<close>

lemma syscall_OkE:
  assumes "syscall bad m s = Ok x t"
  obtains fs where "m (s\<lparr>k_faults := fs\<rparr>) = Ok x t" | fs e where "x = bad" "t = s\<lparr>k_faults := fs, k_errno := e\<rparr>"
proof (cases "k_faults s")
  case Nil
  have "s\<lparr>k_faults := k_faults s\<rparr> = s" by simp
  then have "m (s\<lparr>k_faults := k_faults s\<rparr>) = Ok x t" using assms Nil by (simp only: syscall_def list.case)
  then show ?thesis by (rule that(1))
next
  case (Cons f fs)
  then show ?thesis using assms that by (cases f) (auto simp: syscall_def)
qed

lemma open_arg_books:
  assumes "open_arg s = Ok newfd u"
  shows "clients u = clients s \<and> (if newfd < 0 then dom (k_ofd u) = dom (k_ofd s) else newfd \<notin> dom (k_ofd s) \<and> dom (k_ofd u) = insert newfd (dom (k_ofd s)))"
proof -
  have "sys_open (pathname s) (oflags_of (oflag_arg s)) s = Ok newfd u" using assms by (simp add: open_arg_def)
  then show ?thesis unfolding sys_open_def
  proof (cases rule: syscall_OkE)
    case (1 fs)
    then show ?thesis using free_fd_Some [of "s\<lparr>k_faults := fs\<rparr>"] by (auto split: option.splits if_splits)
  qed auto
qed

lemma net_close_books:
  fixes s :: oserv
  assumes "net_close fd s = Ok r t"
  shows "clients t = clients s \<and> (dom (k_ofd t) = dom (k_ofd s) \<or> dom (k_ofd t) = dom (k_ofd s) - {fd})"
proof -
  obtain q u where u: "sys_close fd s = Ok q u" and b: "clients t = clients u \<and> k_ofd t = k_ofd u"
    using assms by (auto simp: net_close_def elim!: bnd_OkE split: if_splits)
  have "clients u = clients s \<and> (dom (k_ofd u) = dom (k_ofd s) \<or> dom (k_ofd u) = dom (k_ofd s) - {fd})"
    using u unfolding sys_close_def
  proof (cases rule: syscall_OkE)
    case (1 fs)
    then have "u = s\<lparr>k_faults := fs, k_errno := EBADF\<rparr> \<or> (\<exists>l. u = s\<lparr>k_faults := fs, k_ofd := (k_ofd s)(fd := None), k_lock := l\<rparr>)"
      by (cases "k_ofd s fd") auto
    then show ?thesis by (elim disjE exE) simp_all
  qed simp
  then show ?thesis using b by simp
qed

text \<open>Serving a request leaves the table alone and every descriptor open that was open.\<close>

definition grows :: "oserv \<Rightarrow> oserv \<Rightarrow> bool" where
  "grows s t \<longleftrightarrow> clients t = clients s \<and> dom (k_ofd s) \<subseteq> dom (k_ofd t)"

lemma grows_keeps: "keeps books m \<Longrightarrow> m s = Ok x t \<Longrightarrow> grows s t"
  by (auto simp: keeps_def books_def grows_def)

lemma grows_trans: "grows s t \<Longrightarrow> grows t u \<Longrightarrow> grows s u"
  by (auto simp: grows_def)

lemma serve_grows:
  assumes "bnd open_arg (\<lambda>newfd. if newfd < 0 then E else bnd (send_fd clifd newfd) (\<lambda>q. if q < 0 then log_sys m
      else bnd (gets pathname) (\<lambda>p. bnd (log_msg (f newfd p)) (\<lambda>_. bnd (net_close newfd) (\<lambda>_. ret ()))))) s = Ok () t"
    and E: "keeps books E"
  shows "grows s t"
proof -
  obtain newfd u where u: "open_arg s = Ok newfd u" and r: "(if newfd < 0 then E else bnd (send_fd clifd newfd) (\<lambda>q. if q < 0 then log_sys m
      else bnd (gets pathname) (\<lambda>p. bnd (log_msg (f newfd p)) (\<lambda>_. bnd (net_close newfd) (\<lambda>_. ret ()))))) u = Ok () t"
    using assms(1) by (rule bnd_OkE)
  note o = open_arg_books [OF u]
  show ?thesis
  proof (cases "newfd < 0")
    case True
    then have "grows u t" using r grows_keeps [OF E] by simp
    then show ?thesis using o True by (simp add: grows_def)
  next
    case False
    then obtain q v where v: "send_fd clifd newfd u = Ok q v" and r2: "(if q < 0 then log_sys m
      else bnd (gets pathname) (\<lambda>p. bnd (log_msg (f newfd p)) (\<lambda>_. bnd (net_close newfd) (\<lambda>_. ret ())))) v = Ok () t"
      using r by (auto elim!: bnd_OkE simp del: log_halt)
    have bv: "books v = books u" using books_send(2) v by (rule keepsD)
    have nq: "\<not> q < 0" using r2 by auto
    let ?w = "put_log (err_line False (k_strerror v 0) (f newfd (pathname v))) v"
    obtain z where c: "net_close newfd ?w = Ok z t" using r2 nq by (auto simp: bnd_def split: outcome.splits)
    have "clients v = clients s" "dom (k_ofd v) = insert newfd (dom (k_ofd s))" "newfd \<notin> dom (k_ofd s)" using bv o False by (simp_all add: books_def)
    then show ?thesis using net_close_books [OF c] unfolding grows_def put_log_kern put_log_oserv
      by (elim conjE disjE) (simp_all add: subset_insertI subset_Diff_insert)
  qed
qed

lemma handle_request_grows:
  assumes "handle_request buf clifd uid s = Ok () t"
  shows "grows s t"
proof -
  let ?error = "bnd (gets errmsg) (\<lambda>e. bnd (send_err clifd (-1) e) (\<lambda>_. log_format e))"
  have e: "keeps books ?error" "keeps books (bnd cant_open (\<lambda>_. ?error))" by (intro keeps_intros)+
  show ?thesis
  proof (cases "last buf \<noteq> NUL")
    case True
    have k: "keeps books (bnd (set_errmsg m) (\<lambda>_. bnd (gets errmsg) (\<lambda>e. bnd (send_err clifd (-1) e) (\<lambda>_. ret ()))))" for m by (intro keeps_intros)
    show ?thesis using assms True unfolding handle_request_def by (simp only: if_True simp_thms) (drule grows_keeps [OF k])
  next
    case False
    obtain x l where l: "log_msg (''request: '' @ cstr buf @ '', from uid '' @ pr_uid uid) s = Ok x l" and r: "bnd (buf_args (cstr buf) cli_args) (\<lambda>r. if r < 0 then ?error
      else bnd open_arg (\<lambda>newfd. if newfd < 0 then bnd cant_open (\<lambda>_. ?error) else bnd (send_fd clifd newfd) (\<lambda>q. if q < 0 then log_sys ''send_fd error''
      else bnd (gets pathname) (\<lambda>p. bnd (log_msg (''sent fd '' @ fmt_d newfd @ '' over fd '' @ fmt_d clifd @ '' for '' @ p)) (\<lambda>_.
        bnd (net_close newfd) (\<lambda>_. ret ())))))) l = Ok () t"
      using assms False unfolding handle_request_def by (simp only: if_False simp_thms) (erule bnd_OkE)
    from r obtain q u where u: "buf_args (cstr buf) cli_args l = Ok q u" and r2: "(if q < 0 then ?error
      else bnd open_arg (\<lambda>newfd. if newfd < 0 then bnd cant_open (\<lambda>_. ?error) else bnd (send_fd clifd newfd) (\<lambda>q. if q < 0 then log_sys ''send_fd error''
      else bnd (gets pathname) (\<lambda>p. bnd (log_msg (''sent fd '' @ fmt_d newfd @ '' over fd '' @ fmt_d clifd @ '' for '' @ p)) (\<lambda>_.
        bnd (net_close newfd) (\<lambda>_. ret ())))))) u = Ok () t" by (rule bnd_OkE)
    have "grows u t" using r2 serve_grows [OF _ e(2)] grows_keeps [OF e(1)] by (cases "q < 0") (simp_all only: if_True if_False)
    then show ?thesis using grows_keeps [OF books_log(1) l] grows_keeps [OF books_buf_args u] by (blast intro: grows_trans)
  qed
qed

subsection \<open>The reasons for which serving a client ends the server\<close>

definition outside :: "reason set" where
  "outside = range Log_sys \<union> range Err_sys \<union> {Undefined ''format with missing arguments'', Undefined ''store past the end of name''}"

lemma ends_syscall [ends_intros]: "ends_in R m \<Longrightarrow> ends_in R (syscall bad m)"
  by (auto simp: ends_in_def syscall_def split: list.splits option.splits)

lemma ends_net [ends_intros]: "ends_in R (net_write fd bs :: (oserv, int) prog)" "ends_in R (net_read fd n :: (oserv, int \<times> bytes) prog)"
  "ends_in R (sys_open p f :: (oserv, int) prog)" "ends_in R (sys_close fd :: (oserv, int) prog)" "ends_in R (sys_accept fd)"
  by (auto simp: ends_in_def net_write_def net_read_def sys_write_def sys_read_def sys_open_def sys_close_def sys_accept_def syscall_def Let_def
      split: option.splits list.splits sent.splits prod.splits sum.splits if_splits)

lemma ends_writen [ends_intros]: "ends_in R (writen fd bs :: (oserv, int) prog)"
proof -
  have "ends_in R (writen_loop fuel fd n ptr :: (oserv, int) prog)" for fuel n ptr
    by (induction fuel arbitrary: ptr) (auto intro!: ends_intros)
  then show ?thesis by (simp add: writen_def)
qed

lemma ends_log [ends_intros]: "ends_in R (log_msg m :: (oserv, unit) prog)" "ends_in outside (log_sys m :: (oserv, 'a) prog)"
  "ends_in outside (err_sys m :: (oserv, 'a) prog)" "ends_in outside (log_format m)"
  by (auto simp: ends_in_def outside_def log_format_def split: option.splits)

lemma ends_send [ends_intros]: "ends_in R (send_fd fd p)" "ends_in R (send_err fd e m)"
proof -
  have "ends_in R (sys_sendmsg fd bs pass)" for bs pass
  proof -
    have "ends_in R (bnd (net_write fd bs) (\<lambda>n. bnd (if 0 < n then modify (\<lambda>t :: oserv. t\<lparr>sv_ctl := (sv_ctl t)(fd := sv_ctl t fd @ c)\<rparr>) else ret ()) (\<lambda>_. ret n)))" for c
      by (intro ends_intros)
    then show ?thesis by (auto simp: ends_in_def sys_sendmsg_def split: option.splits)
  qed
  then show s: "ends_in R (send_fd fd p)" for p unfolding send_fd_def by (intro ends_intros)
  show "ends_in R (send_err fd e m)" unfolding send_err_def by (intro ends_intros s)
qed

lemma ends_net_close [ends_intros]: "ends_in R (net_close fd :: (oserv, int) prog)"
  unfolding net_close_def by (intro ends_intros)

lemma ends_handle_request: "ends_in outside (handle_request buf fd uid)"
  unfolding handle_request_def set_errmsg_def cant_open_def open_arg_def buf_args_def cli_args_def by (intro ends_intros)

lemma ends_serv_accept: "ends_in outside (serv_accept fd)"
proof -
  have r: "ends_in outside (reject clifd rval)" for clifd rval unfolding reject_def by (intro ends_intros)
  have st: "ends_in outside (\<lambda>s. case sv_stat s name of None \<Rightarrow> fail ENOENT None s | Some b \<Rightarrow> Ok (Some b) s)" for name
    by (simp add: ends_in_def split: option.splits)
  show ?thesis unfolding serv_accept_def by (intro ends_intros r st) (simp_all add: outside_def)
qed

subsection \<open>The invariant\<close>

definition sel_ok :: "lsel \<Rightarrow> oserv \<Rightarrow> bool" where
  "sel_ok L s \<longleftrightarrow> table_ok s \<and> ls_all L = insert (ls_listen L) (dom (client_table s)) \<and> ls_listen L \<notin> dom (client_table s) \<and> ls_listen L \<in> dom (k_ofd s) \<and>
     0 \<le> ls_listen L \<and> ls_listen L \<le> ls_maxfd L \<and> (\<forall>fd\<in>dom (client_table s). 0 \<le> fd \<and> fd \<le> ls_maxfd L \<and> fd \<in> dom (k_ofd s)) \<and>
     (\<forall>j<length (slots s). cl_fd (slots s ! j) \<noteq> -1 \<longrightarrow> int j \<le> ls_maxi L) \<and> -1 \<le> ls_maxi L \<and> ls_maxi L < int (length (slots s))"

lemma table_cong: "clients t = clients s \<Longrightarrow> client_table t = client_table s \<and> table_ok t = table_ok s \<and> slots t = slots s"
  by (simp add: client_table_def table_ok_def slots_def)

lemma but_tableD:
  assumes "but_table t = but_table s"
  shows "k_ofd t = k_ofd s" "sv_pending t = sv_pending s"
  using arg_cong [OF assms, of k_ofd] arg_cong [OF assms, of sv_pending] by (simp_all add: but_table_def)

lemma sel_ok_grows:
  assumes "sel_ok L s" and "grows s t"
  shows "sel_ok L t"
proof -
  have "client_table t = client_table s \<and> table_ok t = table_ok s \<and> slots t = slots s" using assms(2) table_cong [of t s] by (simp add: grows_def)
  moreover have "fd \<in> dom (k_ofd t)" if "fd \<in> dom (k_ofd s)" for fd using assms(2) that by (auto simp: grows_def)
  ultimately show ?thesis using assms(1) unfolding sel_ok_def by simp
qed

text \<open>An entry of the table that is in use.\<close>

lemma slot_in_table:
  assumes "table_ok s" and "j < length (slots s)" and "cl_fd (slots s ! j) \<noteq> -1"
  shows "client_table s (cl_fd (slots s ! j)) = Some (cl_uid (slots s ! j))"
proof -
  have "(cl_fd (slots s ! j), cl_uid (slots s ! j)) \<in> set (used (slots s))" using assms(2,3) by (auto simp: used_def)
  then show ?thesis using assms(1) by (simp add: client_table_def table_ok_def)
qed

lemma entry_run: "i < length (slots s) \<Longrightarrow> entry i s = Ok (slots s ! i) s"
  by (auto simp: entry_def slots_def split: option.splits)

text \<open>A client that is gone.\<close>

lemma gone_run:
  assumes ok: "sel_ok L s" and fd: "fd \<in> dom (client_table s)"
  shows "\<exists>t. client_del fd s = Ok () t \<and> client_table t = (client_table s)(fd := None) \<and> length (slots t) = length (slots s) \<and>
    (\<forall>u r. net_close fd t = Ok r u \<longrightarrow> client_table u = (client_table s)(fd := None) \<and> length (slots u) = length (slots s) \<and> sel_ok (L\<lparr>ls_all := ls_all L - {fd}\<rparr>) u)"
proof -
  obtain t where t: "client_del fd s = Ok () t" "client_table t = (client_table s)(fd := None)" "table_ok t" "length (slots t) = length (slots s)"
    "\<And>j. j < length (slots s) \<Longrightarrow> slots t ! j = (if cl_fd (slots s ! j) = fd then (slots s ! j)\<lparr>cl_fd := -1\<rparr> else slots s ! j)" "but_table t = but_table s"
    using client_del_run [OF _ fd] ok unfolding client_del_def sel_ok_def by blast
  have nl: "ls_listen L \<noteq> fd" using ok fd by (auto simp: sel_ok_def)
  have j: "cl_fd (slots s ! j) \<noteq> -1" if "j < length (slots s)" "cl_fd (slots t ! j) \<noteq> -1" for j using that t(5) [of j] by (auto split: if_splits)
  have "sel_ok (L\<lparr>ls_all := ls_all L - {fd}\<rparr>) u \<and> client_table u = (client_table s)(fd := None) \<and> length (slots u) = length (slots s)" if u: "net_close fd t = Ok r u" for u r
  proof -
    have c: "client_table u = client_table t \<and> table_ok u = table_ok t \<and> slots u = slots t" using net_close_books [OF u] table_cong by blast
    have d: "x \<in> dom (k_ofd u)" if "x \<in> dom (k_ofd s)" "x \<noteq> fd" for x using net_close_books [OF u] but_tableD(1) [OF t(6)] that by auto
    show ?thesis using ok t(2,3,4) j nl c d unfolding sel_ok_def by (auto simp: dom_def)
  qed
  then show ?thesis using t(1,2,4) by blast
qed

subsection \<open>A pass\<close>

text \<open>The clients a pass may leave behind: some may be gone, the others have the user id they had.\<close>

definition fewer :: "oserv \<Rightarrow> oserv \<Rightarrow> bool" where
  "fewer s t \<longleftrightarrow> client_table t \<subseteq>\<^sub>m client_table s \<and> length (slots t) = length (slots s)"

lemma fewer_trans: "fewer s t \<Longrightarrow> fewer t u \<Longrightarrow> fewer s u"
  unfolding fewer_def using map_le_trans by fastforce

lemma grows_fewer: "grows s t \<Longrightarrow> fewer s t"
  using table_cong [of t s] by (simp add: grows_def fewer_def)

lemma fewer_del: "client_table t = (client_table s)(fd := None) \<Longrightarrow> length (slots t) = length (slots s) \<Longrightarrow> fewer s t"
  by (auto simp: fewer_def map_le_def)

lemma sel_clients_run:
  assumes "sel_ok (L\<lparr>ls_all := a\<rparr>) s" and "\<forall>i\<in>set is. i < length (slots s)"
  shows "(\<forall>a' t. sel_clients rset is a s = Ok a' t \<longrightarrow> sel_ok (L\<lparr>ls_all := a'\<rparr>) t \<and> fewer s t) \<and>
    (\<forall>r t. sel_clients rset is a s = Abort r t \<longrightarrow> r \<in> outside)"
  using assms
proof (induction "is" arbitrary: a s)
  case Nil
  then show ?case by (simp add: fewer_def)
next
  case (Cons i "is")
  let ?c = "slots s ! i"
  have e: "entry i s = Ok ?c s" using entry_run Cons.prems(2) by simp
  have IH: "(\<forall>a' u. sel_clients rset is b t = Ok a' u \<longrightarrow> sel_ok (L\<lparr>ls_all := a'\<rparr>) u \<and> fewer s u) \<and> (\<forall>r u. sel_clients rset is b t = Abort r u \<longrightarrow> r \<in> outside)"
    if "sel_ok (L\<lparr>ls_all := b\<rparr>) t" "fewer s t" for b t
  proof -
    have "\<forall>i\<in>set is. i < length (slots t)" using Cons.prems(2) that(2) by (simp add: fewer_def)
    then show ?thesis using Cons.IH [OF that(1)] fewer_trans [OF that(2)] by blast
  qed
  show ?case
  proof (cases "cl_fd ?c < 0 \<or> cl_fd ?c \<notin> rset")
    case True
    have "fewer s s" by (simp add: fewer_def)
    then show ?thesis using True e IH [OF Cons.prems(1)] by (simp add: bnd_def)
  next
    case False
    then have fd: "client_table s (cl_fd ?c) = Some (cl_uid ?c)" using slot_in_table [of s i] Cons.prems by (auto simp: sel_ok_def)
    show ?thesis
    proof (cases "net_read (cl_fd ?c) MAXLINE s")
      case (Ok nb t)
      obtain n buf where nb: "nb = (n, buf)" by (cases nb)
      have g: "grows s t" using grows_keeps [OF books_net(2) Ok] .
      note okt = sel_ok_grows [OF Cons.prems(1) g]
      have step: "sel_clients rset (i # is) a s = (if n < 0 then log_sys (''read error on fd '' @ fmt_d (cl_fd ?c)) t
        else if n = 0 then bnd (log_msg (closed_msg (cl_uid ?c) (cl_fd ?c))) (\<lambda>_. bnd (client_del (cl_fd ?c)) (\<lambda>_. bnd (net_close (cl_fd ?c)) (\<lambda>_.
          sel_clients rset is (a - {cl_fd ?c})))) t
        else bnd (handle_request buf (cl_fd ?c) (cl_uid ?c)) (\<lambda>_. sel_clients rset is a) t)"
        using False e Ok nb by (simp add: bnd_Ok [of "entry i", OF e] bnd_Ok [of "net_read _ _", OF Ok] del: log_run)
      consider "n < 0" | "n = 0" | "0 < n" by linarith
      then show ?thesis
      proof cases
        case 1
        then show ?thesis using step by (simp add: outside_def)
      next
        case 2
        let ?t = "put_log (err_line False (k_strerror t 0) (closed_msg (cl_uid ?c) (cl_fd ?c))) t"
        have g': "grows t ?t" by (simp add: grows_def)
        have "cl_fd ?c \<in> dom (client_table ?t)" using fd g g' table_cong by (metis domI grows_def)
        from gone_run [OF sel_ok_grows [OF okt g'] this] obtain u where u: "client_del (cl_fd ?c) ?t = Ok () u"
          "\<And>v r. net_close (cl_fd ?c) u = Ok r v \<Longrightarrow> fewer ?t v \<and> sel_ok (L\<lparr>ls_all := a - {cl_fd ?c}\<rparr>) v" using fewer_del by auto
        have step2: "sel_clients rset (i # is) a s = bnd (net_close (cl_fd ?c)) (\<lambda>_. sel_clients rset is (a - {cl_fd ?c})) u"
          using step 2 u(1) by (simp add: bnd_def [of "log_msg _"] bnd_def [of "client_del _"])
        show ?thesis
        proof (cases "net_close (cl_fd ?c) u")
          case o: (Ok r v)
          have f: "fewer s v" using grows_fewer [OF g] grows_fewer [OF g'] u(2) [OF o] by (blast intro: fewer_trans)
          have "sel_clients rset (i # is) a s = sel_clients rset is (a - {cl_fd ?c}) v" unfolding step2 by (rule bnd_Ok [of "net_close _", OF o])
          then show ?thesis using IH [OF conjunct2 [OF u(2) [OF o]] f] by (simp only:)
        next
          case (Abort r v)
          then show ?thesis using ends_inD [OF ends_net_close [of "{}"] Abort] by simp
        qed (use step2 in \<open>simp add: bnd_def\<close>)
      next
        case 3
        then have step3: "sel_clients rset (i # is) a s = bnd (handle_request buf (cl_fd ?c) (cl_uid ?c)) (\<lambda>_. sel_clients rset is a) t" using step by simp
        show ?thesis
        proof (cases "handle_request buf (cl_fd ?c) (cl_uid ?c) t")
          case h: (Ok r v)
          have g2: "grows t v" using handle_request_grows h by simp
          have f: "fewer s v" using grows_fewer [OF g] grows_fewer [OF g2] by (blast intro: fewer_trans)
          have "sel_clients rset (i # is) a s = sel_clients rset is a v" unfolding step3 by (rule bnd_Ok [of "handle_request _ _ _", OF h])
          then show ?thesis using IH [OF sel_ok_grows [OF okt g2] f] by (simp only:)
        next
          case (Abort r v)
          then show ?thesis using ends_inD [OF ends_handle_request Abort] step3 by (simp add: bnd_def)
        qed (use step3 in \<open>simp add: bnd_def\<close>)
      qed
    next
      case (Abort r t)
      then show ?thesis using ends_inD [OF ends_net(2) [of "{}"] Abort] by simp
    qed (use False e in \<open>simp add: bnd_def\<close>)
  qed
qed

lemma reject_neg: "reject fd r s = Ok (c, u) t \<Longrightarrow> c = r"
  by (auto simp: reject_def elim!: bnd_OkE)

lemma books_stat [keeps_intros]:
  "keeps books (\<lambda>s. case sv_stat s name of None \<Rightarrow> fail ENOENT None s | Some b \<Rightarrow> Ok (Some b) s)"
  by (auto simp: keeps_def books_def split: option.splits)

lemma sys_accept_books:
  assumes "sys_accept fd s = Ok (clifd, name) t"
  shows "clifd < 0 \<or> clients t = clients s \<and> clifd \<notin> dom (k_ofd s) \<and> dom (k_ofd t) = insert clifd (dom (k_ofd s))"
  using assms unfolding sys_accept_def
proof (cases rule: syscall_OkE)
  case (1 fs)
  then show ?thesis using free_fd_Some [of "s\<lparr>k_faults := fs\<rparr>"] by (auto split: option.splits list.splits)
qed auto

lemma serv_accept_books:
  assumes "serv_accept fd s = Ok (clifd, uid) t" and c: "0 \<le> clifd"
  shows "clients t = clients s \<and> clifd \<notin> dom (k_ofd s) \<and> dom (k_ofd t) = insert clifd (dom (k_ofd s))"
proof -
  obtain ok u where u: "syscall False (ret True) s = Ok ok u" "ok"
    using assms by (auto simp: serv_accept_def elim!: bnd_OkE split: if_splits)
  have bu: "books u = books s" using keepsD [OF books_syscall [OF keeps_ret] u(1)] .
  obtain clifd' name v where v: "sys_accept fd u = Ok (clifd', name) v" and r: "0 \<le> clifd'" "books t = books v" "clifd = clifd'"
  proof -
    have un: "keeps books (syscall () (modify (\<lambda>s. s\<lparr>sv_stat := (sv_stat s)(name := None)\<rparr>)))" for name
      by (intro keeps_intros) (simp add: books_def)
    show ?thesis using assms u that
      by (auto simp: serv_accept_def elim!: bnd_OkE split: if_splits option.splits
          dest!: reject_neg keepsD [OF un] keepsD [OF books_syscall [OF books_stat]])
  qed
  show ?thesis using sys_accept_books [OF v] r bu by (auto simp: books_def)
qed

text \<open>A new client.\<close>

lemma sel_ok_new:
  assumes ok: "sel_ok L s" and u: "clients u = clients s" "clifd \<notin> dom (k_ofd s)" "dom (k_ofd u) = insert clifd (dom (k_ofd s))" and c: "0 \<le> clifd"
    and a: "added clifd uid u i t"
  shows "sel_ok (L\<lparr>ls_all := insert clifd (ls_all L), ls_maxfd := max clifd (ls_maxfd L), ls_maxi := max (int i) (ls_maxi L)\<rparr>) t \<and>
    client_table t = (client_table s)(clifd \<mapsto> uid) \<and> clifd \<notin> dom (client_table s)"
proof -
  have su: "client_table u = client_table s" "slots u = slots s" using table_cong [OF u(1)] by simp_all
  have t: "client_table t = (client_table s)(clifd \<mapsto> uid)" "table_ok t" "i < length (slots t)" "length (slots s) \<le> length (slots t)" "k_ofd t = k_ofd u"
    using a su but_tableD(1) [of t u] by (simp_all add: added_def)
  have new: "clifd \<notin> dom (client_table s)" "clifd \<noteq> ls_listen L" using ok u(2) unfolding sel_ok_def by blast+
  have "int j \<le> max (int i) (ls_maxi L)" if "j < length (slots t)" "cl_fd (slots t ! j) \<noteq> -1" for j
  proof (cases "j = i")
    case False
    then have "j < length (slots s)" "slots t ! j = slots s ! j" using a su that by (auto simp: added_def split: if_splits)
    then show ?thesis using ok that unfolding sel_ok_def by fastforce
  qed simp
  moreover have "0 \<le> fd \<and> fd \<le> max clifd (ls_maxfd L) \<and> fd \<in> dom (k_ofd t)" if "fd \<in> dom (client_table t)" for fd
  proof (cases "fd = clifd")
    case False
    then have "0 \<le> fd \<and> fd \<le> ls_maxfd L \<and> fd \<in> dom (k_ofd s)" using that t(1) ok unfolding sel_ok_def by auto
    then show ?thesis using t(5) u(3) by auto
  qed (use c t(5) u(3) in auto)
  moreover have "-1 \<le> ls_maxi L \<and> ls_maxi L < int (length (slots s)) \<and> ls_listen L \<in> dom (k_ofd t) \<and> 0 \<le> ls_listen L \<and> ls_listen L \<le> ls_maxfd L \<and>
      ls_listen L \<notin> dom (client_table t) \<and> ls_all L = insert (ls_listen L) (dom (client_table s))"
    using ok t(1,5) u(3) new unfolding sel_ok_def by auto
  ultimately show ?thesis using t(1-4) new(1) unfolding sel_ok_def by (simp add: insert_commute le_max_iff_disj)
qed

lemma no_memory_aborts: "err_sys m u \<noteq> Ok () (t :: oserv)"
  by simp

lemma client_add_ends: "ends_in outside (client_add fd uid)"
proof -
  have al: "ends_in outside (client_alloc (err_sys m))" for m unfolding client_alloc_def by (intro ends_intros)
  have "client_again 2 m fd uid = bnd (gets (slot_of (-1))) (\<lambda>i. case i of Some i \<Rightarrow> bnd (modify (set_slot i fd uid)) (\<lambda>_. ret i)
     | None \<Rightarrow> bnd (client_alloc m) (\<lambda>_. bnd (gets (slot_of (-1))) (\<lambda>i. case i of Some i \<Rightarrow> bnd (modify (set_slot i fd uid)) (\<lambda>_. ret i)
     | None \<Rightarrow> bnd (client_alloc m) (\<lambda>_. hang))))" for m by (simp add: numeral_2_eq_2)
  then show ?thesis unfolding client_add_def client_add_with_def by (simp only:) (intro ends_intros al)
qed

lemma sel_pass_accepts:
  assumes ok: "sel_ok L s" and run: "bnd (serv_accept (ls_listen L)) (\<lambda>(clifd, uid).
      if clifd < 0 then log_sys (''serv_accept error: '' @ fmt_d clifd)
      else bnd (client_add clifd uid) (\<lambda>i. bnd (log_msg (new_msg uid clifd)) (\<lambda>_.
        ret (L\<lparr>ls_all := insert clifd (ls_all L), ls_maxfd := max clifd (ls_maxfd L), ls_maxi := max (int i) (ls_maxi L)\<rparr>)))) s = Ok L' t"
  shows "sel_ok L' t \<and> client_table s \<subseteq>\<^sub>m client_table t \<and> ls_listen L' = ls_listen L"
proof -
  obtain clifd uid u where u: "serv_accept (ls_listen L) s = Ok (clifd, uid) u" and r: "(if clifd < 0 then log_sys (''serv_accept error: '' @ fmt_d clifd)
      else bnd (client_add clifd uid) (\<lambda>i. bnd (log_msg (new_msg uid clifd)) (\<lambda>_.
        ret (L\<lparr>ls_all := insert clifd (ls_all L), ls_maxfd := max clifd (ls_maxfd L), ls_maxi := max (int i) (ls_maxi L)\<rparr>)))) u = Ok L' t"
    using run by (elim bnd_OkE) (auto split: prod.splits)
  then have c: "0 \<le> clifd" by (auto split: if_splits)
  note b = serv_accept_books [OF u c]
  obtain i v where v: "client_add clifd uid u = Ok i v" and l: "L' = L\<lparr>ls_all := insert clifd (ls_all L), ls_maxfd := max clifd (ls_maxfd L), ls_maxi := max (int i) (ls_maxi L)\<rparr>"
    "grows v t" using r c by (auto simp: bnd_def grows_def split: outcome.splits)
  have "clifd \<notin> dom (client_table u)" "table_ok u" using ok b table_cong [of u s] unfolding sel_ok_def by (auto dest: spec)
  then have "added clifd uid u i v" using client_add_run [OF v [unfolded client_add_def] no_memory_aborts] c by simp
  from sel_ok_new [OF ok _ _ _ c this] b have n: "sel_ok L' v" "client_table v = (client_table s)(clifd \<mapsto> uid)" "clifd \<notin> dom (client_table s)" using l(1) by blast+
  have "client_table t = client_table v" using l(2) table_cong [of t v] by (simp add: grows_def)
  moreover have "client_table s \<subseteq>\<^sub>m client_table v" using n(2,3) by (auto simp: map_le_def)
  ultimately show ?thesis using sel_ok_grows [OF n(1) l(2)] l(1) by simp
qed

lemma sel_pass_run:
  assumes ok: "sel_ok L s"
  shows "sel_pass L s = Ok L' t \<Longrightarrow> sel_ok L' t \<and> ls_listen L' = ls_listen L \<and> (\<forall>fd uid. client_table s fd = Some uid \<longrightarrow> client_table t fd \<in> {None, Some uid})"
    and "sel_pass L s = Abort r t \<Longrightarrow> r \<in> outside"
proof -
  let ?rset = "\<lambda>ready. {fd \<in> set (map fst ready). fd \<in> ls_all L \<and> fd \<le> ls_maxfd L}"
  let ?new = "bnd (serv_accept (ls_listen L)) (\<lambda>(clifd, uid). if clifd < 0 then log_sys (''serv_accept error: '' @ fmt_d clifd)
      else bnd (client_add clifd uid) (\<lambda>i. bnd (log_msg (new_msg uid clifd)) (\<lambda>_.
        ret (L\<lparr>ls_all := insert clifd (ls_all L), ls_maxfd := max clifd (ls_maxfd L), ls_maxi := max (int i) (ls_maxi L)\<rparr>))))"
  let ?old = "\<lambda>ready. bnd (sel_clients (?rset ready) [0..<nat (ls_maxi L + 1)] (ls_all L)) (\<lambda>a. ret (L\<lparr>ls_all := a\<rparr>))"
  have w: "keeps books sys_wait" unfolding sys_wait_def by (rule books_syscall) (auto simp: keeps_def books_def split: list.splits)
  have we: "ends_in {} sys_wait" unfolding sys_wait_def by (rule ends_syscall) (auto simp: ends_in_def split: list.splits)
  have idx: "\<forall>i\<in>set [0..<nat (ls_maxi L + 1)]. i < length (slots u)" if "sel_ok L u" for u using that unfolding sel_ok_def by auto
  have def: "sel_pass L u = bnd sys_wait (\<lambda>q. case q of None \<Rightarrow> log_sys ''select error''
      | Some ready \<Rightarrow> if ls_listen L \<in> ?rset ready then ?new else ?old ready) u" for u unfolding sel_pass_def Let_def by (rule refl)
  show "sel_ok L' t \<and> ls_listen L' = ls_listen L \<and> (\<forall>fd uid. client_table s fd = Some uid \<longrightarrow> client_table t fd \<in> {None, Some uid})" if run: "sel_pass L s = Ok L' t"
  proof -
    obtain q u where u: "sys_wait s = Ok q u" and r: "(case q of None \<Rightarrow> log_sys ''select error''
      | Some ready \<Rightarrow> if ls_listen L \<in> ?rset ready then ?new else ?old ready) u = Ok L' t" using run unfolding def by (rule bnd_OkE)
    have g: "grows s u" using grows_keeps [OF w u] .
    have tu: "client_table u = client_table s" using g table_cong [of u s] by (simp add: grows_def)
    note oku = sel_ok_grows [OF ok g]
    obtain ready where q: "q = Some ready" using r by (cases q) auto
    show ?thesis
    proof (cases "ls_listen L \<in> ?rset ready")
      case True
      then have "?new u = Ok L' t" using r q by simp
      from sel_pass_accepts [OF oku this] show ?thesis using tu by (auto simp: map_le_def dom_def)
    next
      case False
      then obtain a where a: "sel_clients (?rset ready) [0..<nat (ls_maxi L + 1)] (ls_all L) u = Ok a t" "L' = L\<lparr>ls_all := a\<rparr>"
        using r q by (auto elim!: bnd_OkE)
      have "sel_ok (L\<lparr>ls_all := ls_all L\<rparr>) u" using oku by simp
      from sel_clients_run [OF this idx [OF oku]] a have "sel_ok L' t" "fewer u t" by blast+
      moreover have "client_table t fd \<in> {None, Some uid}" if "client_table s fd = Some uid" for fd uid
        using \<open>fewer u t\<close> that tu by (cases "client_table t fd") (auto simp: fewer_def map_le_def dom_def)
      ultimately show ?thesis using a(2) by simp
    qed
  qed
  show "r \<in> outside" if run: "sel_pass L s = Abort r t"
  proof (cases "sys_wait s")
    case (Ok q u)
    note oku = sel_ok_grows [OF ok grows_keeps [OF w Ok]]
    have r: "(case q of None \<Rightarrow> log_sys ''select error'' | Some ready \<Rightarrow> if ls_listen L \<in> ?rset ready then ?new else ?old ready) u = Abort r t"
      using run unfolding def bnd_Ok [of sys_wait, OF Ok] .
    have new: "ends_in outside ?new" by (intro ends_intros ends_serv_accept client_add_ends)
    show ?thesis
    proof (cases q)
      case None
      then show ?thesis using r by (auto simp: outside_def)
    next
      case (Some ready)
      have "sel_ok (L\<lparr>ls_all := ls_all L\<rparr>) u" using oku by simp
      from sel_clients_run [OF this idx [OF oku], of "?rset ready"] r Some ends_inD [OF new]
      show ?thesis by (cases "ls_listen L \<in> ?rset ready") (auto simp: bnd_def [of "sel_clients _ _ _"] split: outcome.splits)
    qed
  next
    case (Abort q u)
    then show ?thesis using ends_inD [OF we Abort] by simp
  qed (use run def in \<open>simp add: bnd_def\<close>)
qed

text \<open>The states of the loop.\<close>

inductive sel_reach :: "lsel \<Rightarrow> oserv \<Rightarrow> bool" where
  started: "clients s = None \<Longrightarrow> sel_start s = Ok L t \<Longrightarrow> sel_reach L t"
| passed: "sel_reach L s \<Longrightarrow> sel_pass L s = Ok L' t \<Longrightarrow> sel_reach L' t"
| outside_world: "sel_reach L s \<Longrightarrow> grows s t \<Longrightarrow> sel_reach L t"

lemma serv_listen_books:
  assumes "serv_listen name s = Ok fd t" and "0 \<le> fd"
  shows "clients t = clients s \<and> fd \<in> dom (k_ofd t)"
proof -
  have k: "keeps books (sys_unlink name)" "keeps books (syscall (-1) (ret (0 :: int)))"
    unfolding sys_unlink_def by (intro keeps_intros; auto simp: keeps_def books_def split: option.splits)+
  obtain u where u: "sys_socket s = Ok fd u" and b: "books t = books u"
    using assms by (auto simp: serv_listen_def elim!: bnd_OkE split: if_splits dest!: reject_neg keepsD [OF k(1)] keepsD [OF k(2)])
  have "clients u = clients s \<and> fd \<in> dom (k_ofd u)" using u assms(2) unfolding sys_socket_def
    by (cases rule: syscall_OkE) (auto split: option.splits)
  then show ?thesis using b by (simp add: books_def)
qed

lemma sel_reach_ok: "sel_reach L s \<Longrightarrow> sel_ok L s"
proof (induction rule: sel_reach.induct)
  case (started s L t)
  obtain fd where fd: "serv_listen ''/tmp/opend.socket'' s = Ok fd t" "0 \<le> fd" "L = \<lparr>ls_listen = fd, ls_all = {fd}, ls_maxfd = fd, ls_maxi = -1\<rparr>"
    using started(2) by (auto simp: sel_start_def elim!: bnd_OkE split: if_splits)
  have "clients t = None" "fd \<in> dom (k_ofd t)" using serv_listen_books [OF fd(1,2)] started(1) by simp_all
  then show ?case using fd by (simp add: sel_ok_def client_table_def table_ok_def slots_def used_def)
next
  case (passed L s L' t)
  then show ?case using sel_pass_run(1) by blast
next
  case (outside_world L s t)
  then show ?case using sel_ok_grows by blast
qed

end
