(* ===== verification/Open_Props.thy ===== *)
theory Open_Props
  imports Open_Select
begin

section \<open>Properties of the open server\<close>























end
