(* ===== verification/Rot13_Model.thy ===== *)
theory Rot13_Model
  imports Apue_Base
begin

section \<open>Translating a file: \<open>advio/rot13a.c\<close> and, with asynchronous I/O, \<open>advio/rot13c2.c\<close>\<close>

text \<open>
  Both programs copy a file and rotate its letters by 13 places. The first reads and writes block by block; the second keeps up to \<open>NBUF\<close> requests under way that the kernel
  completes in any order, and waits with \<open>aio_suspend\<close> when there is nothing to do. It is a machine: a step is one pass through the \<open>switch\<close>
  for one buffer, one test at the end of the inner loop, or the completion of a request by the kernel, which can come between any two of them.
\<close>

definition BSZ :: nat where "BSZ = 4096"

definition NBUF :: nat where "NBUF = 8"

definition isalpha :: "nat \<Rightarrow> bool" where
  "isalpha n \<longleftrightarrow> 65 \<le> n \<and> n \<le> 90 \<or> 97 \<le> n \<and> n \<le> 122"

text \<open>\<open>translate\<close> computes with an \<open>unsigned char\<close>.\<close>

definition translate :: "char \<Rightarrow> char" where
  "translate c = (let n = of_char c :: nat in
     if isalpha n then
       char_of ((if 110 \<le> n then n - 13 else if 97 \<le> n then n + 13 else if 78 \<le> n then n - 13 else n + 13) mod 256)
     else c)"

subsection \<open>\<open>rot13a.c\<close>\<close>

text \<open>Both programs open their files in the same way.\<close>

definition open_files :: "string list \<Rightarrow> ('z kern_scheme, int \<times> int) prog" where
  "open_files argv =
     (if length argv \<noteq> 3 then err_quit ''usage: rot13 infile outfile''
      else
        bnd (sys_open (argv ! 1) {}) (\<lambda>ifd.
        if ifd < 0 then err_sys (''can't open '' @ argv ! 1)
        else
          bnd (sys_open (argv ! 2) {O_RDWR, O_CREAT, O_TRUNC}) (\<lambda>ofd.
          if ofd < 0 then err_sys (''can't create '' @ argv ! 2)
          else ret (ifd, ofd))))"

fun rot13_loop :: "nat \<Rightarrow> int \<Rightarrow> int \<Rightarrow> ('z kern_scheme, unit) prog" where
  "rot13_loop 0 ifd ofd = hang"
| "rot13_loop (Suc fuel) ifd ofd =
     bnd (sys_read ifd BSZ) (\<lambda>(n, buf).
     if 0 < n then
       bnd (sys_write ofd (map translate buf)) (\<lambda>nw.
       if nw \<noteq> n then (if nw < 0 then err_sys ''write failed'' else err_quit (''short write ('' @ fmt_d nw @ ''/'' @ fmt_d n @ '')''))
       else rot13_loop fuel ifd ofd)
     else ret ())"

text \<open>A pass reads at least one byte of the file.\<close>

definition in_size :: "int \<Rightarrow> 'z kern_scheme \<Rightarrow> nat" where
  "in_size fd s = (case k_ofd s fd of None \<Rightarrow> 0 | Some d \<Rightarrow> length (k_data s (of_ino d)))"

definition rot13a_main :: "string list \<Rightarrow> ('z kern_scheme, unit) prog" where
  "rot13a_main argv =
     bnd (open_files argv) (\<lambda>(ifd, ofd).
     bnd (gets (\<lambda>s. Suc (in_size ifd s))) (\<lambda>fuel.
     bnd (rot13_loop fuel ifd ofd) (\<lambda>_.
     bnd (syscall (-1) (ret (0 :: int))) (\<lambda>_.
     halt (Exit 0)))))"

subsection \<open>\<open>rot13c2.c\<close>\<close>

datatype rwop = UNUSED | READ_PENDING | WRITE_PENDING

text \<open>
  What the kernel knows of a request: under way, or done with the value of \<open>aio_error\<close> (-1: that call fails) and that of \<open>aio_return\<close>.
\<close>

datatype aio = Idle | Reading | Writing | Done int int

record abuf =
  op :: rwop
  last_blk :: bool
  aio_fildes :: int
  aio_offset :: nat
  aio_nbytes :: nat
  adata :: bytes
  aio :: aio

record rot =
  bufs :: "abuf list"
  aiolist :: "bool list"
  numop :: int
  off :: nat
  st_size :: nat
  ifd :: int
  ofd :: int
  contents :: "int \<Rightarrow> bytes"

definition set_buf :: "nat \<Rightarrow> abuf \<Rightarrow> rot \<Rightarrow> rot" where
  "set_buf i b r = r\<lparr>bufs := (bufs r)[i := b]\<rparr>"

definition init_bufs :: "bytes \<Rightarrow> abuf list" where
  "init_bufs junk = replicate NBUF \<lparr>op = UNUSED, last_blk = False, aio_fildes = 0, aio_offset = 0, aio_nbytes = 0, adata = junk, aio = Idle\<rparr>"

definition rot_start :: "bytes \<Rightarrow> nat \<Rightarrow> int \<Rightarrow> int \<Rightarrow> rot" where
  "rot_start content sz i j = \<lparr>bufs = init_bufs (replicate BSZ NUL), aiolist = replicate NBUF False, numop = 0, off = 0, st_size = sz, ifd = i, ofd = j,
     contents = (\<lambda>_. [])(i := content)\<rparr>"

text \<open>An unused buffer: read the next block, if there is one. \<open>fails\<close> says whether the call that starts a request fails.\<close>

definition start_read :: "bool \<Rightarrow> nat \<Rightarrow> rot \<Rightarrow> reason + rot" where
  "start_read fails i r =
     (if off r < st_size r then
        let b = (bufs r ! i)\<lparr>op := READ_PENDING, aio_fildes := ifd r, aio_offset := off r, last_blk := last_blk (bufs r ! i) \<or> st_size r \<le> off r + BSZ,
                  aio_nbytes := BSZ, aio := Reading\<rparr> in
        if fails then Inl (Err_sys ''aio_read failed'')
        else Inr (set_buf i b (r\<lparr>off := off r + BSZ, aiolist := (aiolist r)[i := True], numop := numop r + 1\<rparr>))
      else Inr r)"

definition read_complete :: "bool \<Rightarrow> nat \<Rightarrow> int \<Rightarrow> int \<Rightarrow> rot \<Rightarrow> reason + rot" where
  "read_complete fails i err n r =
     (let b = bufs r ! i in
      if err \<noteq> 0 then Inl (if err = -1 then Err_sys ''aio_error failed'' else Err_exit ''read failed'')
      else if n < 0 then Inl (Err_sys ''aio_return failed'')
      else if n \<noteq> int BSZ \<and> \<not> last_blk b then Inl (Err_quit (''short read ('' @ fmt_d n @ ''/'' @ fmt_d (int BSZ) @ '')''))
      else if fails then Inl (Err_sys ''aio_write failed'')
      else Inr (set_buf i (b\<lparr>adata := map translate (take (nat n) (adata b)) @ drop (nat n) (adata b), op := WRITE_PENDING, aio_fildes := ofd r, aio_nbytes := nat n,
                 aio := Writing\<rparr>) r))"

definition write_complete :: "nat \<Rightarrow> int \<Rightarrow> int \<Rightarrow> rot \<Rightarrow> reason + rot" where
  "write_complete i err n r =
     (let b = bufs r ! i in
      if err \<noteq> 0 then Inl (if err = -1 then Err_sys ''aio_error failed'' else Err_exit ''write failed'')
      else if n < 0 then Inl (Err_sys ''aio_return failed'')
      else if n \<noteq> int (aio_nbytes b) then Inl (Err_quit (''short write ('' @ fmt_d n @ ''/'' @ fmt_d (int BSZ) @ '')''))
      else Inr (set_buf i (b\<lparr>op := UNUSED\<rparr>) (r\<lparr>aiolist := (aiolist r)[i := False], numop := numop r - 1\<rparr>)))"

definition visit :: "bool \<Rightarrow> nat \<Rightarrow> rot \<Rightarrow> reason + rot" where
  "visit fails i r = (case op (bufs r ! i) of
      UNUSED \<Rightarrow> start_read fails i r
    | READ_PENDING \<Rightarrow> (case aio (bufs r ! i) of Done err n \<Rightarrow> read_complete fails i err n r | _ \<Rightarrow> Inr r)
    | WRITE_PENDING \<Rightarrow> (case aio (bufs r ! i) of Done err n \<Rightarrow> write_complete i err n r | _ \<Rightarrow> Inr r))"

text \<open>Where the program is: before the buffer with index \<open>i\<close>, at the end of the inner loop, before \<open>aio_fsync\<close>, ended.\<close>

datatype rpc = Visit nat | Suspend | Fsync | Ended reason

definition is_done :: "abuf \<Rightarrow> bool" where
  "is_done b \<longleftrightarrow> (case aio b of Done err n \<Rightarrow> True | _ \<Rightarrow> False)"

definition can_resume :: "rot \<Rightarrow> bool" where
  "can_resume r \<longleftrightarrow> (\<exists>i<NBUF. aiolist r ! i \<and> is_done (bufs r ! i))"

text \<open>
  The kernel completes a request on the file behind the descriptor; a write of no bytes leaves the file alone. With \<open>faulty\<close> any call may fail and a write may
  store only a part of its bytes.
\<close>

definition write_file :: "nat \<Rightarrow> nat \<Rightarrow> rot \<Rightarrow> rot" where
  "write_file i n r =
     (let b = bufs r ! i; bs = take n (adata b) in
      if bs = [] then r else r\<lparr>contents := (contents r)(aio_fildes b := put_at (contents r (aio_fildes b)) (aio_offset b) bs)\<rparr>)"

definition fill_buf :: "nat \<Rightarrow> rot \<Rightarrow> abuf" where
  "fill_buf i r =
     (let b = bufs r ! i; bs = get_at (contents r (aio_fildes b)) (aio_offset b) (aio_nbytes b) in
      b\<lparr>adata := bs @ drop (length bs) (adata b), aio := Done 0 (int (length bs))\<rparr>)"

inductive rstep :: "bool \<Rightarrow> rpc \<times> rot \<Rightarrow> rpc \<times> rot \<Rightarrow> bool" for faulty :: bool where
  visits: "i < NBUF \<Longrightarrow> (fails \<longrightarrow> faulty) \<Longrightarrow> visit fails i r = Inr r' \<Longrightarrow>
    rstep faulty (Visit i, r) (if Suc i < NBUF then Visit (Suc i) else Suspend, r')"
| gives_up: "i < NBUF \<Longrightarrow> (fails \<longrightarrow> faulty) \<Longrightarrow> visit fails i r = Inl e \<Longrightarrow> rstep faulty (Visit i, r) (Ended e, r)"
| finished: "numop r = 0 \<Longrightarrow> st_size r \<le> off r \<Longrightarrow> rstep faulty (Suspend, r) (Fsync, r)"
| again: "numop r = 0 \<Longrightarrow> off r < st_size r \<Longrightarrow> rstep faulty (Suspend, r) (Visit 0, r)"
| resumes: "numop r \<noteq> 0 \<Longrightarrow> can_resume r \<Longrightarrow> rstep faulty (Suspend, r) (Visit 0, r)"
| suspend_fails: "faulty \<Longrightarrow> numop r \<noteq> 0 \<Longrightarrow> rstep faulty (Suspend, r) (Ended (Err_sys ''aio_suspend failed''), r)"
| syncs: "rstep faulty (Fsync, r) (Ended (Exit 0), r)"
| sync_fails: "faulty \<Longrightarrow> rstep faulty (Fsync, r) (Ended (Err_sys ''aio_fsync failed''), r)"
| read_done: "i < NBUF \<Longrightarrow> (\<forall>e. pc \<noteq> Ended e) \<Longrightarrow> aio (bufs r ! i) = Reading \<Longrightarrow> rstep faulty (pc, r) (pc, set_buf i (fill_buf i r) r)"
| write_done: "i < NBUF \<Longrightarrow> (\<forall>e. pc \<noteq> Ended e) \<Longrightarrow> aio (bufs r ! i) = Writing \<Longrightarrow> n = aio_nbytes (bufs r ! i) \<or> faulty \<and> n < aio_nbytes (bufs r ! i) \<Longrightarrow>
    rstep faulty (pc, r) (pc, set_buf i ((bufs r ! i)\<lparr>aio := Done 0 (int n)\<rparr>) (write_file i n r))"
| request_fails: "faulty \<Longrightarrow> i < NBUF \<Longrightarrow> (\<forall>e. pc \<noteq> Ended e) \<Longrightarrow> aio (bufs r ! i) \<in> {Reading, Writing} \<Longrightarrow> err \<noteq> 0 \<Longrightarrow>
    rstep faulty (pc, r) (pc, set_buf i ((bufs r ! i)\<lparr>aio := Done err n\<rparr>) r)"

inductive_cases rstepE: "rstep faulty (pc, r) c"

end
