(* ===== verification/Rot13_Inv.thy ===== *)
theory Rot13_Inv
  imports Rot13_Model
begin

section \<open>The invariant of \<open>rot13c2.c\<close>\<close>

text \<open>
  Every block whose offset is below \<open>off\<close> is either in the hands of one buffer, at a stage that its fields tell, or translated in the output. Blocks
  in different buffers are different, so a write to the output leaves the others alone.
\<close>

subsection \<open>Blocks of a file\<close>

definition block_done :: "bytes \<Rightarrow> bytes \<Rightarrow> nat \<Rightarrow> bool" where
  "block_done input output p \<longleftrightarrow> (\<forall>q. p \<le> q \<and> q < p + BSZ \<and> q < length input \<longrightarrow> q < length output \<and> output ! q = translate (input ! q))"

lemma nth_put_at:
  assumes "q < max (length f) (p + length bs)"
  shows "put_at f p bs ! q = (if p \<le> q \<and> q < p + length bs then bs ! (q - p) else if q < length f then f ! q else NUL)"
  using assms by (auto simp: put_at_def nth_append min_def not_less)

lemma block_done_write:
  assumes "BSZ dvd p" and "BSZ dvd k" and "bs \<noteq> []" and "length bs \<le> BSZ"
  shows "p \<noteq> k \<Longrightarrow> block_done input output p \<Longrightarrow> block_done input (put_at output k bs) p"
    and "bs = map translate (get_at input k BSZ) \<Longrightarrow> block_done input (put_at output k bs) k"
proof -
  have B: "0 < BSZ" by (simp add: BSZ_def)
  assume "p \<noteq> k" and b: "block_done input output p"
  then have apart: "p + BSZ \<le> k \<or> k + BSZ \<le> p"
  proof -
    obtain x y where xy: "p = BSZ * x" "k = BSZ * y" using assms(1,2) by (auto elim!: dvdE)
    then have "Suc x \<le> y \<or> Suc y \<le> x" using \<open>p \<noteq> k\<close> by (cases x y rule: linorder_cases) auto
    then have "BSZ * Suc x \<le> BSZ * y \<or> BSZ * Suc y \<le> BSZ * x" by (metis mult_le_mono2)
    then show ?thesis using xy by (simp add: add.commute)
  qed
  show "block_done input (put_at output k bs) p" unfolding block_done_def
  proof (intro allI impI)
    fix q assume q: "p \<le> q \<and> q < p + BSZ \<and> q < length input"
    then have "q < length output" "output ! q = translate (input ! q)" using b by (auto simp: block_done_def)
    then show "q < length (put_at output k bs) \<and> put_at output k bs ! q = translate (input ! q)"
      using q apart assms(4) by (auto simp: length_put_at nth_put_at)
  qed
next
  assume bs: "bs = map translate (get_at input k BSZ)"
  show "block_done input (put_at output k bs) k" unfolding block_done_def
  proof (intro allI impI)
    fix q assume q: "k \<le> q \<and> q < k + BSZ \<and> q < length input"
    then have l: "q < k + length bs" using bs by (auto simp: length_get_at)
    then have "q - k < length (get_at input k BSZ)" using bs q by (auto simp: length_get_at)
    then have "bs ! (q - k) = translate (input ! q)" using bs q by (simp add: get_at_def)
    then show "q < length (put_at output k bs) \<and> put_at output k bs ! q = translate (input ! q)"
      using l q by (simp add: length_put_at nth_put_at)
  qed
qed

lemma block_done_empty: "get_at input p BSZ = [] \<Longrightarrow> block_done input output p"
  by (auto simp: block_done_def get_at_def)

lemma all_blocks_done:
  assumes "\<And>p. BSZ dvd p \<Longrightarrow> p < m \<Longrightarrow> block_done input output p" and "length output \<le> min m (length input)" and "BSZ dvd m"
  shows "output = map translate (take m input)"
proof -
  have B: "0 < BSZ" by (simp add: BSZ_def)
  have all: "q < length output \<and> output ! q = translate (input ! q)" if "q < m" "q < length input" for q
  proof -
    let ?p = "BSZ * (q div BSZ)"
    have "?p \<le> q" "q < ?p + BSZ" using B dividend_less_times_div [of BSZ q] by simp_all
    moreover have "block_done input output ?p" using assms(1) [of ?p] \<open>?p \<le> q\<close> that(1) by simp
    ultimately show ?thesis using that(2) by (simp add: block_done_def)
  qed
  have "length output = min m (length input)"
  proof (rule ccontr)
    assume "length output \<noteq> min m (length input)"
    then have "length output < m" "length output < length input" using assms(2) by auto
    then show False using all by blast
  qed
  then show ?thesis using all by (intro nth_equalityI) auto
qed

subsection \<open>Buffers\<close>

abbreviation pending :: "abuf \<Rightarrow> bool" where
  "pending b \<equiv> op b \<noteq> UNUSED"

definition input_block :: "rot \<Rightarrow> abuf \<Rightarrow> bytes" where
  "input_block r b = get_at (contents r (ifd r)) (aio_offset b) BSZ"

definition read_ok :: "rot \<Rightarrow> abuf \<Rightarrow> bool" where
  "read_ok r b \<longleftrightarrow> aio_fildes b = ifd r \<and> aio_nbytes b = BSZ \<and> (last_blk b \<or> aio_offset b + BSZ < st_size r) \<and> (case aio b of
      Reading \<Rightarrow> True
    | Done e n \<Rightarrow> e = 0 \<longrightarrow> n = int (length (input_block r b)) \<and> take (length (input_block r b)) (adata b) = input_block r b
    | _ \<Rightarrow> False)"

definition write_ok :: "rot \<Rightarrow> abuf \<Rightarrow> bool" where
  "write_ok r b \<longleftrightarrow> aio_fildes b = ofd r \<and> aio_nbytes b = length (input_block r b) \<and> take (aio_nbytes b) (adata b) = map translate (input_block r b) \<and> (case aio b of
      Writing \<Rightarrow> True
    | Done e n \<Rightarrow> e = 0 \<longrightarrow> n = int (aio_nbytes b) \<longrightarrow> block_done (contents r (ifd r)) (contents r (ofd r)) (aio_offset b)
    | _ \<Rightarrow> False)"

definition buf_ok :: "rot \<Rightarrow> abuf \<Rightarrow> bool" where
  "buf_ok r b \<longleftrightarrow> length (adata b) = BSZ \<and> (case op b of
      UNUSED \<Rightarrow> aio b \<noteq> Reading \<and> aio b \<noteq> Writing
    | READ_PENDING \<Rightarrow> read_ok r b
    | WRITE_PENDING \<Rightarrow> write_ok r b) \<and> (pending b \<longrightarrow> BSZ dvd aio_offset b \<and> aio_offset b < off r)"

definition rinv :: "rot \<Rightarrow> bool" where
  "rinv r \<longleftrightarrow> length (bufs r) = NBUF \<and> length (aiolist r) = NBUF \<and> ifd r \<noteq> ofd r \<and> BSZ dvd off r \<and> off r < st_size r + BSZ \<and>
     (\<forall>i<NBUF. buf_ok r (bufs r ! i) \<and> (aiolist r ! i \<longleftrightarrow> pending (bufs r ! i))) \<and>
     numop r = (\<Sum>i<NBUF. of_bool (pending (bufs r ! i))) \<and>
     (\<forall>i<NBUF. \<forall>j<NBUF. i \<noteq> j \<longrightarrow> pending (bufs r ! i) \<longrightarrow> pending (bufs r ! j) \<longrightarrow> aio_offset (bufs r ! i) \<noteq> aio_offset (bufs r ! j)) \<and>
     (\<forall>p. BSZ dvd p \<longrightarrow> p < off r \<longrightarrow> (\<exists>i<NBUF. pending (bufs r ! i) \<and> aio_offset (bufs r ! i) = p) \<or> block_done (contents r (ifd r)) (contents r (ofd r)) p) \<and>
     length (contents r (ofd r)) \<le> min (off r) (length (contents r (ifd r)))"

subsection \<open>Steps keep it\<close>

lemma set_buf_simps [simp]:
  "bufs (set_buf i b r) = (bufs r)[i := b]" "aiolist (set_buf i b r) = aiolist r" "numop (set_buf i b r) = numop r" "off (set_buf i b r) = off r"
  "st_size (set_buf i b r) = st_size r" "ifd (set_buf i b r) = ifd r" "ofd (set_buf i b r) = ofd r" "contents (set_buf i b r) = contents r"
  by (simp_all add: set_buf_def)

lemma buf_ok_set_buf [simp]: "buf_ok (set_buf i b r) c = buf_ok r c"
  by (simp add: buf_ok_def read_ok_def write_ok_def input_block_def cong: aio.case_cong rwop.case_cong)

lemma pending_sum:
  assumes "length bs = NBUF" and "i < NBUF"
  shows "(\<Sum>j<NBUF. of_bool (pending (bs[i := b] ! j))) = (\<Sum>j<NBUF. of_bool (pending (bs ! j))) - of_bool (pending (bs ! i)) + (of_bool (pending b) :: int)"
  using sum_change [of i NBUF "\<lambda>j. of_bool (pending (bs[i := b] ! j)) :: int" "\<lambda>j. of_bool (pending (bs ! j))"] assms by simp

text \<open>A buffer goes to another stage with the same block.\<close>

lemma rinv_stage:
  assumes r: "rinv r" and i: "i < NBUF" and b: "pending (bufs r ! i)" "pending b" "aio_offset b = aio_offset (bufs r ! i)" "buf_ok r b"
  shows "rinv (set_buf i b r)"
proof -
  have len: "length (bufs r) = NBUF" using r by (simp add: rinv_def)
  have at: "pending ((bufs r)[i := b] ! j) = pending (bufs r ! j)" "aio_offset ((bufs r)[i := b] ! j) = aio_offset (bufs r ! j)" if "j < NBUF" for j
    using that b i len by (auto simp: nth_list_update)
  have "numop r = (\<Sum>j<NBUF. of_bool (pending ((bufs r)[i := b] ! j)))" using pending_sum [OF len i, of b] b r by (simp add: rinv_def)
  moreover have "buf_ok r ((bufs r)[i := b] ! j) \<and> (aiolist r ! j \<longleftrightarrow> pending ((bufs r)[i := b] ! j))" if "j < NBUF" for j
    using that r b i len at [of j] by (cases "j = i") (auto simp: rinv_def)
  ultimately show ?thesis using r len at unfolding rinv_def by (simp add: rinv_def cong: conj_cong)
qed

lemma read_complete_rinv:
  assumes "rinv r" and "i < NBUF" and "op (bufs r ! i) = READ_PENDING" and "aio (bufs r ! i) = Done err n" and "read_complete fails i err n r = Inr r'"
  shows "rinv r'"
proof -
  let ?b = "bufs r ! i"
  let ?c = "?b\<lparr>adata := map translate (take (nat n) (adata ?b)) @ drop (nat n) (adata ?b), op := WRITE_PENDING, aio_fildes := ofd r, aio_nbytes := nat n, aio := Writing\<rparr>"
  have e: "err = 0" and r': "r' = set_buf i ?c r" using assms(5) by (auto simp: read_complete_def Let_def split: if_splits)
  have b: "buf_ok r ?b" using assms(1,2) by (simp add: rinv_def)
  then have n: "n = int (length (input_block r ?b))" "take (length (input_block r ?b)) (adata ?b) = input_block r ?b" "length (adata ?b) = BSZ"
    using assms(3,4) e by (simp_all add: buf_ok_def read_ok_def)
  have "input_block r ?c = input_block r ?b" by (simp add: input_block_def)
  moreover have "length (input_block r ?b) \<le> BSZ" by (simp add: input_block_def length_get_at)
  ultimately have "buf_ok r ?c" using b n assms(3) by (simp add: buf_ok_def write_ok_def)
  then show ?thesis unfolding r' using rinv_stage [OF assms(1,2), of ?c] assms(3) by simp
qed

lemma fill_buf_rinv:
  assumes "rinv r" and "i < NBUF" and "aio (bufs r ! i) = Reading"
  shows "rinv (set_buf i (fill_buf i r) r)"
proof -
  have b: "buf_ok r (bufs r ! i)" using assms(1,2) by (simp add: rinv_def)
  then have o: "op (bufs r ! i) = READ_PENDING" "aio_fildes (bufs r ! i) = ifd r" "aio_nbytes (bufs r ! i) = BSZ"
    using assms(3) by (auto simp: buf_ok_def write_ok_def read_ok_def split: rwop.splits)
  have "length (input_block r (bufs r ! i)) \<le> BSZ" by (simp add: input_block_def length_get_at)
  moreover have "fill_buf i r = (bufs r ! i)\<lparr>adata := input_block r (bufs r ! i) @ drop (length (input_block r (bufs r ! i))) (adata (bufs r ! i)),
      aio := Done 0 (int (length (input_block r (bufs r ! i))))\<rparr>" using o by (simp add: fill_buf_def input_block_def Let_def)
  ultimately have "buf_ok r (fill_buf i r)" using b o by (simp add: buf_ok_def read_ok_def input_block_def)
  moreover have "pending (fill_buf i r)" "aio_offset (fill_buf i r) = aio_offset (bufs r ! i)" using o by (simp_all add: fill_buf_def Let_def)
  ultimately show ?thesis using rinv_stage [OF assms(1,2)] o(1) by simp
qed

lemma request_fails_rinv:
  assumes "rinv r" and "i < NBUF" and "aio (bufs r ! i) \<in> {Reading, Writing}" and "err \<noteq> 0"
  shows "rinv (set_buf i ((bufs r ! i)\<lparr>aio := Done err n\<rparr>) r)"
proof -
  have b: "buf_ok r (bufs r ! i)" using assms(1,2) by (simp add: rinv_def)
  have "pending (bufs r ! i)" using b assms(3) by (auto simp: buf_ok_def)
  moreover have "buf_ok r ((bufs r ! i)\<lparr>aio := Done err n\<rparr>)"
    using b assms(3,4) by (auto simp: buf_ok_def read_ok_def write_ok_def input_block_def split: rwop.splits)
  ultimately show ?thesis using rinv_stage [OF assms(1,2)] by simp
qed

lemma write_complete_rinv:
  assumes r: "rinv r" and i: "i < NBUF" and o: "op (bufs r ! i) = WRITE_PENDING" "aio (bufs r ! i) = Done err n" and w: "write_complete i err n r = Inr r'"
  shows "rinv r'"
proof -
  let ?b = "bufs r ! i" and ?bs = "(bufs r)[i := (bufs r ! i)\<lparr>op := UNUSED\<rparr>]" and ?al = "(aiolist r)[i := False]"
  have e: "err = 0" "n = int (aio_nbytes ?b)" and r': "r' = set_buf i (?b\<lparr>op := UNUSED\<rparr>) (r\<lparr>aiolist := ?al, numop := numop r - 1\<rparr>)"
    using w by (auto simp: write_complete_def Let_def split: if_splits)
  have len: "length (bufs r) = NBUF" "length (aiolist r) = NBUF" using r by (simp_all add: rinv_def)
  have b: "buf_ok r ?b" using r i by (simp add: rinv_def)
  then have fin: "block_done (contents r (ifd r)) (contents r (ofd r)) (aio_offset ?b)" using o e by (simp add: buf_ok_def write_ok_def)
  have at: "?bs ! j = (if j = i then ?b\<lparr>op := UNUSED\<rparr> else bufs r ! j)" if "j < NBUF" for j using that i len by (simp add: nth_list_update)
  have ok: "buf_ok r' c = buf_ok r c" for c by (simp add: r' buf_ok_def read_ok_def write_ok_def input_block_def cong: aio.case_cong rwop.case_cong)
  have bufs_ok: "buf_ok r (?bs ! j) \<and> (?al ! j \<longleftrightarrow> pending (?bs ! j))" if "j < NBUF" for j
    using that r b o i len at [OF that] by (cases "j = i") (auto simp: rinv_def buf_ok_def)
  have sum: "numop r - 1 = (\<Sum>j<NBUF. of_bool (pending (?bs ! j)))" using pending_sum [OF len(1) i, of "?b\<lparr>op := UNUSED\<rparr>"] o r by (simp add: rinv_def)
  have dist: "aio_offset (?bs ! j) \<noteq> aio_offset (?bs ! k)" if "j < NBUF" "k < NBUF" "j \<noteq> k" "pending (?bs ! j)" "pending (?bs ! k)" for j k
    using r that at [of j] at [of k] by (auto simp: rinv_def split: if_splits)
  have blocks: "(\<exists>j<NBUF. pending (?bs ! j) \<and> aio_offset (?bs ! j) = p) \<or> block_done (contents r (ifd r)) (contents r (ofd r)) p" if "BSZ dvd p" "p < off r" for p
  proof (cases "p = aio_offset ?b")
    case False
    then show ?thesis using r that at unfolding rinv_def by (metis (no_types, lifting))
  qed (use fin in simp)
  show ?thesis using r len sum bufs_ok dist blocks unfolding rinv_def ok by (simp add: r')
qed

lemma start_read_rinv:
  assumes r: "rinv r" and i: "i < NBUF" and o: "op (bufs r ! i) = UNUSED" and w: "start_read fails i r = Inr r'"
  shows "rinv r'"
proof (cases "off r < st_size r")
  case False
  then show ?thesis using r w by (simp add: start_read_def)
next
  case True
  let ?b = "bufs r ! i"
  let ?c = "?b\<lparr>op := READ_PENDING, aio_fildes := ifd r, aio_offset := off r, last_blk := last_blk ?b \<or> st_size r \<le> off r + BSZ, aio_nbytes := BSZ, aio := Reading\<rparr>"
  let ?bs = "(bufs r)[i := ?c]" and ?al = "(aiolist r)[i := True]"
  have r': "r' = set_buf i ?c (r\<lparr>off := off r + BSZ, aiolist := ?al, numop := numop r + 1\<rparr>)"
    using w True by (auto simp: start_read_def Let_def split: if_splits)
  have len: "length (bufs r) = NBUF" "length (aiolist r) = NBUF" and d: "BSZ dvd off r" using r by (simp_all add: rinv_def)
  have B: "0 < BSZ" by (simp add: BSZ_def)
  have at: "?bs ! j = (if j = i then ?c else bufs r ! j)" if "j < NBUF" for j using that i len by (simp add: nth_list_update)
  have b: "buf_ok r ?b" using r i by (simp add: rinv_def)
  have older: "buf_ok r' c" if "buf_ok r c" for c
    using that by (auto simp: r' buf_ok_def read_ok_def write_ok_def input_block_def split: rwop.splits aio.splits)
  have "buf_ok r' ?c" using b d B by (auto simp: buf_ok_def read_ok_def r')
  then have bufs_ok: "buf_ok r' (?bs ! j) \<and> (?al ! j \<longleftrightarrow> pending (?bs ! j))" if "j < NBUF" for j
    using that r i len at [OF that] older by (cases "j = i") (auto simp: rinv_def)
  have sum: "numop r + 1 = (\<Sum>j<NBUF. of_bool (pending (?bs ! j)))" using pending_sum [OF len(1) i, of ?c] o r by (simp add: rinv_def)
  have below: "aio_offset (bufs r ! j) < off r" if "j < NBUF" "pending (bufs r ! j)" for j using r that by (simp add: rinv_def buf_ok_def)
  have dist: "aio_offset (?bs ! j) \<noteq> aio_offset (?bs ! k)" if "j < NBUF" "k < NBUF" "j \<noteq> k" "pending (?bs ! j)" "pending (?bs ! k)" for j k
    using r that at [of j] at [of k] below [of j] below [of k] unfolding rinv_def by (auto split: if_splits)
  have blocks: "(\<exists>j<NBUF. pending (?bs ! j) \<and> aio_offset (?bs ! j) = p) \<or> block_done (contents r (ifd r)) (contents r (ofd r)) p" if p: "BSZ dvd p" "p < off r + BSZ" for p
  proof (cases "p < off r")
    case True
    from r p(1) True consider j where "j < NBUF" "pending (bufs r ! j)" "aio_offset (bufs r ! j) = p" | "block_done (contents r (ifd r)) (contents r (ofd r)) p"
      unfolding rinv_def by blast
    then show ?thesis
    proof cases
      case 1
      then have "j \<noteq> i" using o by auto
      then show ?thesis using 1 at [of j] by auto
    qed simp
  next
    case False
    obtain x y where xy: "p = BSZ * x" "off r = BSZ * y" using p(1) d by (auto elim!: dvdE)
    have "BSZ * y \<le> BSZ * x" using xy False by (metis not_less)
    moreover have "BSZ * x < BSZ * Suc y" using xy p by (simp add: add.commute)
    ultimately have "y \<le> x" "x < Suc y" using B by (metis mult_le_cancel1, metis mult_less_cancel1)
    then have "p = off r" using xy by simp
    then show ?thesis using at [OF i] i by auto
  qed
  show ?thesis using r len sum bufs_ok dist blocks True d unfolding rinv_def by (simp add: r')
qed

text \<open>A write that the kernel completes, whole or in part.\<close>

lemma write_file_simps [simp]:
  "bufs (write_file i n r) = bufs r" "aiolist (write_file i n r) = aiolist r" "numop (write_file i n r) = numop r" "off (write_file i n r) = off r"
  "st_size (write_file i n r) = st_size r" "ifd (write_file i n r) = ifd r" "ofd (write_file i n r) = ofd r"
  by (simp_all add: write_file_def Let_def)

lemma write_file_contents:
  assumes r: "rinv r" and i: "i < NBUF" and w: "aio (bufs r ! i) = Writing" and n: "n \<le> aio_nbytes (bufs r ! i)"
  defines "k \<equiv> aio_offset (bufs r ! i)"
  shows "contents (write_file i n r) (ifd r) = contents r (ifd r)"
    and "BSZ dvd p \<Longrightarrow> p \<noteq> k \<Longrightarrow> block_done (contents r (ifd r)) (contents r (ofd r)) p \<Longrightarrow> block_done (contents r (ifd r)) (contents (write_file i n r) (ofd r)) p"
    and "n = aio_nbytes (bufs r ! i) \<Longrightarrow> block_done (contents r (ifd r)) (contents (write_file i n r) (ofd r)) k"
    and "length (contents (write_file i n r) (ofd r)) \<le> min (off r) (length (contents r (ifd r)))"
proof -
  let ?b = "bufs r ! i" and ?in = "contents r (ifd r)" and ?out = "contents r (ofd r)"
  have b: "buf_ok r ?b" and ne: "ifd r \<noteq> ofd r" and len: "length ?out \<le> min (off r) (length ?in)" and dv: "BSZ dvd off r" using r i by (simp_all add: rinv_def)
  then have o: "op ?b = WRITE_PENDING" "aio_fildes ?b = ofd r" "aio_nbytes ?b = length (input_block r ?b)" "take (aio_nbytes ?b) (adata ?b) = map translate (input_block r ?b)"
    "BSZ dvd k" "k < off r" using w by (auto simp: buf_ok_def write_ok_def read_ok_def k_def split: rwop.splits)
  let ?bs = "map translate (take n (input_block r ?b))"
  have bs: "take n (adata ?b) = ?bs"
  proof -
    have "take n (adata ?b) = take n (take (aio_nbytes ?b) (adata ?b))" using n by simp
    then show ?thesis using o(4) by (simp add: take_map)
  qed
  have c: "contents (write_file i n r) (ofd r) = (if ?bs = [] then ?out else put_at ?out k ?bs)"
    unfolding write_file_def Let_def bs by (simp add: o(2) k_def)
  have lb: "length ?bs \<le> BSZ" "length ?bs \<le> length ?in - k" by (simp_all add: input_block_def length_get_at k_def)
  show "contents (write_file i n r) (ifd r) = ?in" using o(2) ne by (simp add: write_file_def Let_def)
  show "block_done ?in (contents (write_file i n r) (ofd r)) p" if "BSZ dvd p" "p \<noteq> k" "block_done ?in ?out p"
    using block_done_write(1) [OF that(1) o(5), of ?bs ?in ?out] that lb(1) by (auto simp: c)
  show "block_done ?in (contents (write_file i n r) (ofd r)) k" if "n = aio_nbytes ?b"
  proof -
    have e: "?bs = map translate (get_at ?in k BSZ)" using that o(3) by (simp add: input_block_def k_def)
    show ?thesis
    proof (cases "?bs = []")
      case True
      then have "get_at ?in k BSZ = []" using e by (metis map_is_Nil_conv)
      then show ?thesis using block_done_empty by blast
    next
      case False
      then show ?thesis using block_done_write(2) [OF o(5,5) False lb(1) e] c by simp
    qed
  qed
  show "length (contents (write_file i n r) (ofd r)) \<le> min (off r) (length ?in)"
  proof (cases "?bs = []")
    case False
    then have "0 < length ?bs" by blast
    then have "k < length ?in" "k + length ?bs \<le> length ?in" using lb(2) by linarith+
    moreover have "k + BSZ \<le> off r"
    proof -
      obtain x y where xy: "k = BSZ * x" "off r = BSZ * y" using o(5) dv by (auto elim!: dvdE)
      have "BSZ * Suc x \<le> BSZ * y" using o(6) xy by (intro mult_le_mono2) (metis Suc_leI mult_less_cancel1)
      then show ?thesis using xy by simp
    qed
    ultimately show ?thesis using len lb(1) False by (simp add: c length_put_at)
  qed (use len c in simp)
qed

lemma write_done_rinv:
  assumes r: "rinv r" and i: "i < NBUF" and w: "aio (bufs r ! i) = Writing" and n: "n \<le> aio_nbytes (bufs r ! i)"
  shows "rinv (set_buf i ((bufs r ! i)\<lparr>aio := Done 0 (int n)\<rparr>) (write_file i n r))"
proof -
  let ?b = "bufs r ! i" and ?w = "write_file i n r"
  let ?c = "?b\<lparr>aio := Done 0 (int n)\<rparr>"
  let ?r = "set_buf i ?c ?w"
  note f = write_file_contents [OF r i w n]
  have len: "length (bufs r) = NBUF" using r by (simp add: rinv_def)
  have b: "buf_ok r ?b" using r i by (simp add: rinv_def)
  then have o: "op ?b = WRITE_PENDING" using w by (auto simp: buf_ok_def read_ok_def split: rwop.splits)
  have at: "(bufs r)[i := ?c] ! j = (if j = i then ?c else bufs r ! j)" if "j < NBUF" for j using that i len by (simp add: nth_list_update)
  have c: "buf_ok ?w ?c" using b o w f(1,3) by (auto simp: buf_ok_def write_ok_def input_block_def)
  have other: "buf_ok ?w (bufs r ! j)" if "j < NBUF" "j \<noteq> i" for j
  proof -
    have bj: "buf_ok r (bufs r ! j)" and ne: "pending (bufs r ! j) \<Longrightarrow> aio_offset (bufs r ! j) \<noteq> aio_offset ?b" using r that i o by (auto simp: rinv_def)
    show ?thesis using bj ne f(1) f(2) [of "aio_offset (bufs r ! j)"]
      by (auto simp: buf_ok_def read_ok_def write_ok_def input_block_def split: rwop.splits aio.splits)
  qed
  have bufs_ok: "buf_ok ?w ((bufs r)[i := ?c] ! j) \<and> (aiolist r ! j \<longleftrightarrow> pending ((bufs r)[i := ?c] ! j))" if "j < NBUF" for j
    using that r i at [OF that] c other o by (cases "j = i") (auto simp: rinv_def)
  have sum: "numop r = (\<Sum>j<NBUF. of_bool (pending ((bufs r)[i := ?c] ! j)))" using pending_sum [OF len i, of ?c] o r by (simp add: rinv_def)
  have dist: "aio_offset ((bufs r)[i := ?c] ! j) \<noteq> aio_offset ((bufs r)[i := ?c] ! k)"
    if "j < NBUF" "k < NBUF" "j \<noteq> k" "pending ((bufs r)[i := ?c] ! j)" "pending ((bufs r)[i := ?c] ! k)" for j k
    using r that at [of j] at [of k] by (auto simp: rinv_def split: if_splits)
  have blocks: "(\<exists>j<NBUF. pending ((bufs r)[i := ?c] ! j) \<and> aio_offset ((bufs r)[i := ?c] ! j) = p) \<or> block_done (contents r (ifd r)) (contents ?w (ofd r)) p"
    if p: "BSZ dvd p" "p < off r" for p
  proof (cases "p = aio_offset ?b")
    case True
    then show ?thesis using at [OF i] i o by auto
  next
    case False
    from r p consider j where "j < NBUF" "pending (bufs r ! j)" "aio_offset (bufs r ! j) = p" | "block_done (contents r (ifd r)) (contents r (ofd r)) p"
      unfolding rinv_def by blast
    then show ?thesis
    proof cases
      case 1
      then have "j \<noteq> i" using False by auto
      then show ?thesis using 1 at [of j] by auto
    next
      case 2
      then show ?thesis using f(2) [OF p(1) False] by blast
    qed
  qed
  show ?thesis using r len sum bufs_ok dist blocks f(1,4) unfolding rinv_def by simp
qed

end
