(* ===== verification/Rot13_Run.thy ===== *)
theory Rot13_Run
  imports Rot13_Inv
begin

section \<open>Runs of \<open>rot13c2.c\<close>: the invariant, progress and an end\<close>

fun cinv :: "rpc \<times> rot \<Rightarrow> bool" where
  "cinv (pc, r) \<longleftrightarrow> rinv r \<and> (case pc of Visit i \<Rightarrow> i < NBUF | Suspend \<Rightarrow> True | Fsync \<Rightarrow> numop r = 0 \<and> st_size r \<le> off r
     | Ended e \<Rightarrow> e = Exit 0 \<longrightarrow> numop r = 0 \<and> st_size r \<le> off r)"

lemma visit_rinv: "rinv r \<Longrightarrow> i < NBUF \<Longrightarrow> visit fails i r = Inr r' \<Longrightarrow> rinv r'"
  by (auto simp: visit_def split: rwop.splits aio.splits intro: start_read_rinv read_complete_rinv write_complete_rinv)

lemma visit_Inl: "visit fails i r = Inl e \<Longrightarrow> e \<noteq> Exit 0"
  by (auto simp: visit_def start_read_def read_complete_def write_complete_def Let_def split: rwop.splits aio.splits if_splits)

lemma start_cinv: "i \<noteq> j \<Longrightarrow> cinv (Visit 0, rot_start data sz i j)"
  by (auto simp: rinv_def rot_start_def init_bufs_def buf_ok_def NBUF_def BSZ_def)

lemma step_cinv:
  assumes "rstep faulty c d" and "cinv c"
  shows "cinv d"
  using assms
proof (induction rule: rstep.induct)
  case (visits i fails r r')
  then show ?case using visit_rinv by auto
next
  case (gives_up i fails r e)
  then show ?case using visit_Inl by auto
next
  case (read_done i pc r)
  then show ?case using fill_buf_rinv by (auto split: rpc.splits)
next
  case (write_done i pc r n)
  then show ?case using write_done_rinv [of r i n] by (auto split: rpc.splits)
next
  case (request_fails i pc r err n)
  then show ?case using request_fails_rinv by (auto split: rpc.splits)
qed (auto simp: NBUF_def)

subsection \<open>What does not change\<close>

definition setting :: "rot \<Rightarrow> int \<times> int \<times> nat \<times> bytes" where
  "setting r = (ifd r, ofd r, st_size r, contents r (ifd r))"

lemma visit_setting: "visit fails i r = Inr r' \<Longrightarrow> setting r' = setting r"
  by (auto simp: visit_def start_read_def read_complete_def write_complete_def setting_def Let_def split: rwop.splits aio.splits if_splits)

lemma step_setting:
  assumes "rstep faulty c d" and "cinv c"
  shows "setting (snd d) = setting (snd c)"
  using assms
proof (induction rule: rstep.induct)
  case (visits i fails r r')
  then show ?case using visit_setting by simp
next
  case (write_done i pc r n)
  then have "n \<le> aio_nbytes (bufs r ! i)" by auto
  then show ?case using write_file_contents(1) [of r i n] write_done by (auto simp: setting_def)
qed (simp_all add: setting_def)

lemma run_keeps:
  assumes "(rstep faulty)\<^sup>*\<^sup>* c d" and "cinv c"
  shows "cinv d \<and> setting (snd d) = setting (snd c)"
  using assms by (induction rule: rtranclp_induct) (auto dest: step_cinv step_setting simp del: cinv.simps)

subsection \<open>The end\<close>

lemma none_pending:
  assumes "rinv r" and "numop r = 0" and "i < NBUF"
  shows "op (bufs r ! i) = UNUSED"
proof (rule ccontr)
  assume p: "op (bufs r ! i) \<noteq> UNUSED"
  have "(\<Sum>j<NBUF. of_bool (pending (bufs r ! j)) :: int) = 0" using assms by (simp add: rinv_def)
  then show False using p assms(3) by (subst (asm) sum_nonneg_eq_0_iff) auto
qed

lemma ended_output:
  assumes "rinv r" and "numop r = 0"
  shows "contents r (ofd r) = map translate (take (off r) (contents r (ifd r)))"
proof (rule all_blocks_done)
  fix p assume p: "BSZ dvd p" "p < off r"
  then have "(\<exists>i<NBUF. pending (bufs r ! i) \<and> aio_offset (bufs r ! i) = p) \<or> block_done (contents r (ifd r)) (contents r (ofd r)) p"
    using assms(1) unfolding rinv_def by blast
  then show "block_done (contents r (ifd r)) (contents r (ofd r)) p" using none_pending [OF assms] by blast
qed (use assms(1) in \<open>simp_all add: rinv_def\<close>)

subsection \<open>Progress\<close>

lemma pending_cases:
  assumes "rinv r" and "i < NBUF" and "pending (bufs r ! i)"
  shows "aio (bufs r ! i) = Reading \<or> aio (bufs r ! i) = Writing \<or> is_done (bufs r ! i)"
proof -
  have "buf_ok r (bufs r ! i)" using assms by (simp add: rinv_def)
  then show ?thesis using assms(3) by (auto simp: buf_ok_def read_ok_def write_ok_def is_done_def split: rwop.splits aio.splits)
qed

lemma progress:
  assumes "cinv (pc, r)" and "\<forall>e. pc \<noteq> Ended e"
  shows "\<exists>d. rstep faulty (pc, r) d"
proof (cases pc)
  case (Visit i)
  then have i: "i < NBUF" using assms(1) by simp
  show ?thesis
  proof (cases "visit False i r")
    case (Inl e)
    then show ?thesis using rstep.gives_up [OF i, of False faulty r e] Visit by auto
  next
    case (Inr r')
    then show ?thesis using rstep.visits [OF i, of False faulty r r'] Visit by blast
  qed
next
  case Suspend
  show ?thesis
  proof (cases "numop r = 0")
    case True
    then show ?thesis using Suspend rstep.finished [of r faulty] rstep.again [of r faulty] by (cases "st_size r \<le> off r") (auto simp: not_le)
  next
    case False
    have r: "rinv r" using assms(1) by simp
    have "\<exists>i<NBUF. pending (bufs r ! i)"
    proof (rule ccontr)
      assume "\<not> ?thesis"
      then have "(\<Sum>i<NBUF. of_bool (pending (bufs r ! i)) :: int) = 0" by simp
      then show False using r False by (simp add: rinv_def)
    qed
    then obtain i where i: "i < NBUF" "pending (bufs r ! i)" by blast
    consider "aio (bufs r ! i) = Reading" | "aio (bufs r ! i) = Writing" | "is_done (bufs r ! i)" using pending_cases [OF r i] by blast
    then show ?thesis
    proof cases
      case 1
      then show ?thesis using rstep.read_done [OF i(1)] assms(2) by blast
    next
      case 2
      then show ?thesis using rstep.write_done [OF i(1)] assms(2) by blast
    next
      case 3
      then have "can_resume r" using i r by (auto simp: can_resume_def rinv_def)
      then show ?thesis using rstep.resumes False Suspend by blast
    qed
  qed
next
  case Fsync
  then show ?thesis using rstep.syncs by blast
qed (use assms(2) in simp)

subsection \<open>Every run ends\<close>

text \<open>
  The work left: five units for a block that has not been read, and fewer at each stage of a buffer. A step that does no work brings the program nearer to a
  buffer it can do something with, or to \<open>aio_suspend\<close>, which waits for one.
\<close>

definition stage :: "abuf \<Rightarrow> nat" where
  "stage b = (case op b of UNUSED \<Rightarrow> 0 | READ_PENDING \<Rightarrow> if is_done b then 3 else 4 | WRITE_PENDING \<Rightarrow> if is_done b then 1 else 2)"

definition work :: "rot \<Rightarrow> nat" where
  "work r = 5 * ((st_size r - off r + (BSZ - 1)) div BSZ) + (\<Sum>i<NBUF. stage (bufs r ! i))"

definition productive :: "rot \<Rightarrow> nat \<Rightarrow> bool" where
  "productive r i \<longleftrightarrow> (if op (bufs r ! i) = UNUSED then off r < st_size r else is_done (bufs r ! i))"

fun rank :: "rpc \<Rightarrow> rot \<Rightarrow> nat" where
  "rank (Visit i) r = (if \<exists>j<NBUF. i \<le> j \<and> productive r j then NBUF - i else NBUF - i + NBUF + 3)"
| "rank Suspend r = (if \<exists>j<NBUF. productive r j then NBUF + 2 else 2)"
| "rank Fsync r = 1"
| "rank (Ended e) r = 0"

fun togo :: "rpc \<times> rot \<Rightarrow> nat" where
  "togo (pc, r) = work r * (2 * NBUF + 4) + rank pc r"

lemma rank_bound: "rank pc r < 2 * NBUF + 4"
  by (cases pc) auto

lemma less_work: "work r' < work r \<Longrightarrow> togo (pc', r') < togo (pc, r)"
proof -
  assume "work r' < work r"
  then have "(work r' + 1) * (2 * NBUF + 4) \<le> work r * (2 * NBUF + 4)" by (intro mult_le_mono1) simp
  then show ?thesis using rank_bound [of pc' r'] by simp
qed

lemma set_buf_work:
  assumes "length (bufs r) = NBUF" and "i < NBUF"
  shows "work (set_buf i b r) + stage (bufs r ! i) = work r + stage b"
  using sum_change [of i NBUF "\<lambda>j. stage ((bufs r)[i := b] ! j)" "\<lambda>j. stage (bufs r ! j)"] assms by (simp add: work_def)

lemma visit_work:
  assumes r: "rinv r" and i: "i < NBUF" and v: "visit fails i r = Inr r'"
  shows "if productive r i then work r' < work r else r' = r"
proof -
  have len: "length (bufs r) = NBUF" using r by (simp add: rinv_def)
  have B: "0 < BSZ" by (simp add: BSZ_def)
  show ?thesis
  proof (cases "op (bufs r ! i)")
    case UNUSED
    show ?thesis
    proof (cases "off r < st_size r")
      case False
      then show ?thesis using v UNUSED by (simp add: visit_def start_read_def productive_def)
    next
      case True
      let ?s = "r\<lparr>off := off r + BSZ, aiolist := (aiolist r)[i := True], numop := numop r + 1\<rparr>"
      obtain b where b: "r' = set_buf i b ?s" "stage b = 4"
        using v UNUSED True by (auto simp: visit_def start_read_def stage_def is_done_def Let_def split: if_splits)
      have d: "(st_size r - off r + (BSZ - 1)) div BSZ = Suc ((st_size r - (off r + BSZ) + (BSZ - 1)) div BSZ)"
      proof (cases "st_size r \<le> off r + BSZ")
        case le: True
        have "(st_size r - off r + (BSZ - 1)) div BSZ = 1" using True le B by (intro div_nat_eqI) auto
        then show ?thesis using le B by simp
      next
        case False
        then have "st_size r - off r + (BSZ - 1) = st_size r - (off r + BSZ) + (BSZ - 1) + BSZ" by simp
        then show ?thesis using B by (simp only: div_add_self2)
      qed
      have "work (set_buf i b ?s) + stage (bufs ?s ! i) = work ?s + stage b" by (rule set_buf_work) (use len i in simp_all)
      moreover have "work r = work ?s + 5" unfolding work_def d by simp
      ultimately show ?thesis using b True UNUSED by (simp add: productive_def stage_def)
    qed
  next
    case READ_PENDING
    show ?thesis
    proof (cases "aio (bufs r ! i)")
      case (Done err n)
      then obtain b where b: "r' = set_buf i b r" "stage b = 2"
        using v READ_PENDING by (auto simp: visit_def read_complete_def stage_def is_done_def Let_def split: if_splits)
      have "stage (bufs r ! i) = 3" using READ_PENDING Done by (simp add: stage_def is_done_def)
      moreover have "productive r i" using READ_PENDING Done by (simp add: productive_def is_done_def)
      ultimately show ?thesis using set_buf_work [OF len i, of b] b by simp
    qed (use v READ_PENDING in \<open>auto simp: visit_def productive_def is_done_def\<close>)
  next
    case WRITE_PENDING
    show ?thesis
    proof (cases "aio (bufs r ! i)")
      case (Done err n)
      let ?s = "r\<lparr>aiolist := (aiolist r)[i := False], numop := numop r - 1\<rparr>"
      obtain b where b: "r' = set_buf i b ?s" "stage b = 0"
        using v WRITE_PENDING Done by (auto simp: visit_def write_complete_def stage_def Let_def split: if_splits)
      have "stage (bufs r ! i) = 1" using WRITE_PENDING Done by (simp add: stage_def is_done_def)
      moreover have "work (set_buf i b ?s) + stage (bufs ?s ! i) = work ?s + stage b" by (rule set_buf_work) (use len i in simp_all)
      moreover have "work ?s = work r" "productive r i" using WRITE_PENDING Done by (simp_all add: work_def productive_def is_done_def)
      ultimately show ?thesis using b by simp
    qed (use v WRITE_PENDING in \<open>auto simp: visit_def productive_def is_done_def\<close>)
  qed
qed

lemma rank_visit:
  assumes "i < NBUF" and "\<not> productive r i"
  shows "rank (if Suc i < NBUF then Visit (Suc i) else Suspend) r < rank (Visit i) r"
proof (cases "\<exists>j<NBUF. i \<le> j \<and> productive r j")
  case True
  then obtain j where "j < NBUF" "Suc i \<le> j" "productive r j" using assms(2) by (metis Suc_leI le_neq_implies_less)
  then show ?thesis by auto
next
  case False
  then have "\<not> (\<exists>j<NBUF. Suc i \<le> j \<and> productive r j)" by auto
  then show ?thesis using False assms(1) by auto
qed

lemma kernel_work:
  assumes r: "rinv r" and i: "i < NBUF" and a: "aio (bufs r ! i) \<in> {Reading, Writing}" and b: "op b = op (bufs r ! i)" "is_done b"
    and s: "bufs s = bufs r" "off s = off r" "st_size s = st_size r"
  shows "work (set_buf i b s) < work r"
proof -
  have "pending (bufs r ! i)" using r i a by (auto simp: rinv_def buf_ok_def)
  moreover have "\<not> is_done (bufs r ! i)" using a by (auto simp: is_done_def)
  ultimately have "stage b < stage (bufs r ! i)" using b by (auto simp: stage_def split: rwop.splits)
  moreover have "work (set_buf i b s) + stage (bufs r ! i) = work r + stage b"
    using set_buf_work [of s i b] r i s by (simp add: rinv_def work_def)
  ultimately show ?thesis by simp
qed

lemma step_togo:
  assumes "rstep faulty c d" and "cinv c"
  shows "togo d < togo c"
  using assms
proof (induction rule: rstep.induct)
  case (visits i fails r r')
  then have w: "if productive r i then work r' < work r else r' = r" using visit_work by simp
  show ?case
  proof (cases "productive r i")
    case True
    then show ?thesis using w by (simp only: if_True) (rule less_work)
  next
    case False
    then show ?thesis using w rank_visit [OF visits(1) False] by (simp del: rank.simps)
  qed
next
  case (again r)
  then have "productive r 0" using none_pending [of r 0] by (simp add: productive_def NBUF_def)
  then have "\<exists>j<NBUF. productive r j" by (intro exI [of _ 0]) (simp add: NBUF_def)
  then show ?case by auto
next
  case (resumes r)
  then obtain i where "i < NBUF" "aiolist r ! i" "is_done (bufs r ! i)" by (auto simp: can_resume_def)
  then have "i < NBUF \<and> productive r i" using resumes by (auto simp: productive_def rinv_def)
  then show ?case by auto
next
  case (read_done i pc r)
  have "op (fill_buf i r) = op (bufs r ! i)" "is_done (fill_buf i r)" by (simp_all add: fill_buf_def is_done_def Let_def)
  then show ?case using read_done by (intro less_work kernel_work) auto
next
  case (write_done i pc r n)
  then show ?case by (intro less_work kernel_work) (auto simp: is_done_def)
next
  case (request_fails i pc r err n)
  then show ?case by (intro less_work kernel_work) (auto simp: is_done_def)
qed auto

lemma run_togo:
  assumes "(rstep faulty ^^ n) c d" and "cinv c"
  shows "cinv d \<and> togo d + n \<le> togo c"
  using assms
proof (induction n arbitrary: d)
  case (Suc n)
  then obtain e where e: "(rstep faulty ^^ n) c e" "rstep faulty e d" by auto
  then show ?case using Suc step_cinv [OF e(2)] step_togo [OF e(2)] by fastforce
qed simp

subsection \<open>Without failures\<close>

definition clean :: "rot \<Rightarrow> bool" where
  "clean r \<longleftrightarrow> (\<forall>i<NBUF. \<forall>e n. pending (bufs r ! i) \<longrightarrow> aio (bufs r ! i) = Done e n \<longrightarrow> e = 0 \<and> (op (bufs r ! i) = WRITE_PENDING \<longrightarrow> n = int (aio_nbytes (bufs r ! i))))"

lemma clean_set_buf:
  assumes "clean s" and "length (bufs s) = NBUF" and "\<And>e n. pending b \<Longrightarrow> aio b = Done e n \<Longrightarrow> e = 0 \<and> (op b = WRITE_PENDING \<longrightarrow> n = int (aio_nbytes b))"
  shows "clean (set_buf i b s)"
  unfolding clean_def
proof (intro allI impI)
  fix j e n
  assume "j < NBUF" and "pending (bufs (set_buf i b s) ! j)" and "aio (bufs (set_buf i b s) ! j) = Done e n"
  then show "e = 0 \<and> (op (bufs (set_buf i b s) ! j) = WRITE_PENDING \<longrightarrow> n = int (aio_nbytes (bufs (set_buf i b s) ! j)))"
    using assms by (cases "i = j") (auto simp: clean_def)
qed

lemma clean_cong: "bufs s = bufs r \<Longrightarrow> clean s = clean r"
  by (simp add: clean_def)

lemma clean_upd [simp]: "clean (r\<lparr>off := x\<rparr>) = clean r" "clean (r\<lparr>aiolist := y, numop := z\<rparr>) = clean r"
  by (rule clean_cong, simp)+

lemma visit_clean:
  assumes "clean r" and "rinv r" and "visit False i r = Inr r'"
  shows "clean r'"
proof -
  have "length (bufs r) = NBUF" using assms(2) by (simp add: rinv_def)
  then show ?thesis using assms(1,3)
    by (auto simp: visit_def start_read_def read_complete_def write_complete_def Let_def split: rwop.splits aio.splits if_splits intro!: clean_set_buf)
qed

lemma visit_no_error:
  assumes "clean r" and "rinv r" and "i < NBUF" and "st_size r = length (contents r (ifd r))"
  shows "visit False i r \<noteq> Inl e"
proof (cases "op (bufs r ! i)")
  case UNUSED
  then show ?thesis by (simp add: visit_def start_read_def)
next
  case READ_PENDING
  show ?thesis
  proof (cases "aio (bufs r ! i)")
    case (Done err n)
    have "buf_ok r (bufs r ! i)" using assms(2,3) by (simp add: rinv_def)
    then have b: "err = 0 \<longrightarrow> n = int (length (input_block r (bufs r ! i)))" "last_blk (bufs r ! i) \<or> aio_offset (bufs r ! i) + BSZ < st_size r"
      using READ_PENDING Done by (simp_all add: buf_ok_def read_ok_def)
    have "err = 0" using assms(1,3) READ_PENDING Done by (simp add: clean_def)
    moreover have "\<not> last_blk (bufs r ! i) \<Longrightarrow> length (input_block r (bufs r ! i)) = BSZ" using b(2) assms(4) by (simp add: input_block_def length_get_at)
    ultimately show ?thesis using READ_PENDING Done b(1) by (auto simp: visit_def read_complete_def Let_def)
  qed (use READ_PENDING in \<open>simp_all add: visit_def\<close>)
next
  case WRITE_PENDING
  then show ?thesis using assms(1,3) by (auto simp: visit_def write_complete_def clean_def Let_def split: aio.splits)
qed

definition smooth_run :: "rpc \<times> rot \<Rightarrow> bool" where
  "smooth_run c \<longleftrightarrow> cinv c \<and> clean (snd c) \<and> st_size (snd c) = length (contents (snd c) (ifd (snd c))) \<and> (\<forall>e. fst c = Ended e \<longrightarrow> e = Exit 0)"

lemma step_smooth:
  assumes "rstep False c d" and "smooth_run c"
  shows "smooth_run d"
proof -
  have c: "cinv d" "setting (snd d) = setting (snd c)" using step_cinv [OF assms(1)] step_setting [OF assms(1)] assms(2) by (simp_all add: smooth_run_def)
  from assms have "clean (snd d) \<and> (\<forall>e. fst d = Ended e \<longrightarrow> e = Exit 0)"
  proof (induction rule: rstep.induct)
    case (visits i fails r r')
    then show ?case using visit_clean [of r i r'] by (auto simp: smooth_run_def)
  next
    case (gives_up i fails r e)
    then show ?case using visit_no_error [of r i e] by (auto simp: smooth_run_def)
  next
    case (read_done i pc r)
    have "aio (fill_buf i r) = Done e n \<Longrightarrow> e = 0 \<and> op (fill_buf i r) \<noteq> WRITE_PENDING" for e n
      using read_done by (auto simp: fill_buf_def Let_def smooth_run_def rinv_def buf_ok_def write_ok_def split: rwop.splits)
    then show ?case using read_done clean_set_buf [of r "fill_buf i r" i] by (auto simp: smooth_run_def rinv_def)
  next
    case (write_done i pc r n)
    have "clean (set_buf i ((bufs r ! i)\<lparr>aio := Done 0 (int n)\<rparr>) (write_file i n r))"
      by (rule clean_set_buf) (use write_done clean_cong [of "write_file i n r" r] in \<open>auto simp: smooth_run_def rinv_def\<close>)
    then show ?case using write_done by (simp add: smooth_run_def)
  qed (auto simp: smooth_run_def)
  then show ?thesis using c assms(2) unfolding smooth_run_def setting_def by (metis prod.inject)
qed

lemma run_smooth: "(rstep False)\<^sup>*\<^sup>* c d \<Longrightarrow> smooth_run c \<Longrightarrow> smooth_run d"
  by (induction rule: rtranclp_induct) (auto intro: step_smooth)

lemma start_smooth: "i \<noteq> j \<Longrightarrow> smooth_run (Visit 0, rot_start data (length data) i j)"
  using start_cinv [of i j data "length data"] by (simp add: smooth_run_def clean_def rot_start_def init_bufs_def)

end
