(* ===== verification/Rot13_Props.thy ===== *)
theory Rot13_Props
  imports Rot13_Run
begin

section \<open>The two programs agree\<close>

subsection \<open>\<open>translate\<close>\<close>




subsection \<open>\<open>rot13a.c\<close>\<close>







end
