(* ===== verification/Tty_Modes.thy ===== *)
theory Tty_Modes
  imports Posix_Kernel "HOL-Library.Word"
begin

section \<open>Terminal modes: \<open>lib/ttymodes.c\<close>\<close>

text \<open>
  \<open>tty_cbreak\<close> and \<open>tty_raw\<close> put a terminal into a mode and keep its settings, \<open>tty_reset\<close> brings them back. The terminals are part of the state: \<open>tt_set n old new\<close> says
  what the \<open>n\<close>-th call of \<open>tcsetattr\<close> makes of the settings \<open>old\<close> when it is asked for \<open>new\<close>. It may fail (\<open>None\<close>) and, as its manual says, it may make only some of the changes and
  still succeed. \<open>tt_get n\<close> says whether the \<open>n\<close>-th call of \<open>tcgetattr\<close> fails. The values of the flags are those of Linux.
\<close>

unbundle bit_operations_syntax

record termios =
  c_iflag :: "32 word"
  c_oflag :: "32 word"
  c_cflag :: "32 word"
  c_lflag :: "32 word"
  c_cc :: "nat \<Rightarrow> 8 word"

datatype ttymode = RESET | RAW | CBREAK

record ttys =
  save_termios :: termios
  ttysavefd :: int
  ttystate :: ttymode
  tt_errno :: int
  tt_term :: "int \<Rightarrow> termios option"
  tt_gets :: nat
  tt_sets :: nat
  tt_get :: "nat \<Rightarrow> int option"
  tt_set :: "nat \<Rightarrow> termios \<Rightarrow> termios \<Rightarrow> termios option"




subsection \<open>The modes\<close>






subsection \<open>The routines\<close>






definition tty_termios :: "(ttys, termios) prog" where
  "tty_termios = gets save_termios"

subsection \<open>A change of mode\<close>








subsection \<open>A session\<close>













end
