(* ===== verification/Ftw_Model.thy ===== *)
theory Ftw_Model
  imports Apue_Base
begin

section \<open>Walking a directory tree: \<open>filedir/ftw8.c\<close>, with \<open>lib/pathalloc.c\<close>\<close>

text \<open>
  Record \<open>ftw\<close> has the variables of both files. \<open>fullpath\<close> is the string in the buffer, \<open>pathlen\<close> the size of the buffer; a store behind its end is undefined behaviour. The file system
  is seen through the calls: \<open>fs_lstat\<close> gives the type of a pathname or an error number, \<open>fs_dir\<close> the names \<open>readdir\<close> delivers for the string given to \<open>opendir\<close>, dot and
  dot-dot among them. The counters are \<open>long\<close>; they stay below the number of files.
\<close>

datatype ftype = S_IFREG | S_IFDIR | S_IFBLK | S_IFCHR | S_IFIFO | S_IFLNK | S_IFSOCK

datatype ftwtype = FTW_F | FTW_D | FTW_DNR | FTW_NS

record ftw = kern +
  pathmax :: int
  posix_version :: int
  xsi_version :: int
  fullpath :: string
  pathlen :: nat
  nreg :: int
  ndir :: int
  nblk :: int
  nchr :: int
  nfifo :: int
  nslink :: int
  nsock :: int
  fs_lstat :: "string \<Rightarrow> int + ftype"
  fs_dir :: "string \<Rightarrow> int + string list"
  sc_version :: int
  sc_xopen_version :: int
  pc_path_max :: "int + int"

subsection \<open>\<open>path_alloc\<close>\<close>

abbreviation PATH_MAX_GUESS :: int where "PATH_MAX_GUESS \<equiv> 1024"

text \<open>\<open>pathconf\<close> fails with an error number, 0 for a limit that is indeterminate. The result is the size of the new buffer.\<close>

definition get_versions :: "ftw \<Rightarrow> ftw" where
  "get_versions s = s\<lparr>posix_version := (if posix_version s = 0 then sc_version s else posix_version s),
     xsi_version := (if xsi_version s = 0 then sc_xopen_version s else xsi_version s)\<rparr>"

definition path_alloc :: "(ftw, nat) prog" where
  "path_alloc =
     bnd (modify get_versions) (\<lambda>_.
     bnd (gets pathmax) (\<lambda>m.
     bnd (if m \<noteq> 0 then ret ()
          else
            bnd (modify (\<lambda>s. s\<lparr>k_errno := 0\<rparr>)) (\<lambda>_.
            bnd (gets pc_path_max) (\<lambda>r. case r of
                Inl e \<Rightarrow>
                  bnd (modify (\<lambda>s. s\<lparr>pathmax := -1, k_errno := e\<rparr>)) (\<lambda>_.
                  if e = 0 then modify (\<lambda>s. s\<lparr>pathmax := PATH_MAX_GUESS\<rparr>) else err_sys ''pathconf error for _PC_PATH_MAX'')
              | Inr v \<Rightarrow> modify (\<lambda>s. s\<lparr>pathmax := v + 1\<rparr>)))) (\<lambda>_.
     bnd (gets (\<lambda>s. if posix_version s < 200112 \<and> xsi_version s < 4 then pathmax s + 1 else pathmax s)) (\<lambda>size.
     bnd (syscall False (ret True)) (\<lambda>ok.
     if \<not> ok then err_sys ''malloc error for pathname'' else ret (nat size))))))"

subsection \<open>The walk\<close>

abbreviation NAME_MAX :: nat where "NAME_MAX \<equiv> 255"

definition sys_lstat :: "string \<Rightarrow> (ftw, ftype option) prog" where
  "sys_lstat p = syscall None (\<lambda>s. case fs_lstat s p of Inl e \<Rightarrow> fail e None s | Inr m \<Rightarrow> Ok (Some m) s)"

definition sys_opendir :: "string \<Rightarrow> (ftw, string list option) prog" where
  "sys_opendir p = syscall None (\<lambda>s. case fs_dir s p of Inl e \<Rightarrow> fail e None s | Inr ns \<Rightarrow> Ok (Some ns) s)"

text \<open>A string is stored in the buffer if it fits with its null byte.\<close>

definition store_path :: "string \<Rightarrow> (ftw, unit) prog" where
  "store_path p = (\<lambda>s. if length p < pathlen s then Ok () (s\<lparr>fullpath := p\<rparr>) else Abort (Undefined ''store past the end of fullpath'') s)"

definition expand_path :: "nat \<Rightarrow> (ftw, unit) prog" where
  "expand_path n =
     bnd (gets pathlen) (\<lambda>l.
     if l < n + NAME_MAX + 2 then
       bnd (modify (\<lambda>s. s\<lparr>pathlen := 2 * l\<rparr>)) (\<lambda>_.
       bnd (syscall False (ret True)) (\<lambda>ok.
       if ok then ret () else err_sys ''realloc failed''))
     else ret ())"

text \<open>
  The names of a directory one after the other: \<open>descend\<close> is the recursive call, \<open>n\<close> the length of the pathname with its slash, \<open>r\<close> the value of \<open>ret\<close>.
\<close>

fun each_name :: "(ftw, int) prog \<Rightarrow> nat \<Rightarrow> string list \<Rightarrow> int \<Rightarrow> (ftw, int) prog" where
  "each_name descend n [] r = ret r"
| "each_name descend n (d_name # ns) r =
     (if d_name = ''.'' \<or> d_name = ''..'' then each_name descend n ns r
      else
        bnd (gets fullpath) (\<lambda>p.
        bnd (store_path (take n p @ d_name)) (\<lambda>_.
        bnd descend (\<lambda>r.
        if r \<noteq> 0 then ret r else each_name descend n ns r))))"

text \<open>Reading a directory whose pathname, with a slash behind it, is in the buffer.\<close>

definition read_names :: "(ftw, int) prog \<Rightarrow> (string \<Rightarrow> ftype option \<Rightarrow> ftwtype \<Rightarrow> (ftw, int) prog) \<Rightarrow> string \<Rightarrow> ftype option \<Rightarrow> int \<Rightarrow> (ftw, int) prog" where
  "read_names descend func p st r =
     bnd (sys_opendir (p @ ''/'')) (\<lambda>dp. case dp of
         None \<Rightarrow> func (p @ ''/'') st FTW_DNR
       | Some names \<Rightarrow>
           bnd (each_name descend (Suc (length p)) names r) (\<lambda>r.
           bnd (modify (\<lambda>s. s\<lparr>fullpath := take (length p) (fullpath s)\<rparr>)) (\<lambda>_.
           bnd (syscall (-1) (ret 0)) (\<lambda>c.
           bnd (if c < (0 :: int) then bnd (gets fullpath) (\<lambda>q. err_ret (''can't close directory '' @ q)) else ret ()) (\<lambda>_.
           ret r)))))"

text \<open>\<open>depth\<close> bounds the nesting of directories.\<close>

fun dopath :: "nat \<Rightarrow> (string \<Rightarrow> ftype option \<Rightarrow> ftwtype \<Rightarrow> (ftw, int) prog) \<Rightarrow> (ftw, int) prog" where
  "dopath 0 func = hang"
| "dopath (Suc depth) func =
     bnd (gets fullpath) (\<lambda>p.
     bnd (sys_lstat p) (\<lambda>st.
     if st = None then func p None FTW_NS
     else if st \<noteq> Some S_IFDIR then func p st FTW_F
     else
       bnd (func p st FTW_D) (\<lambda>r.
       if r \<noteq> 0 then ret r
       else
         bnd (expand_path (length p)) (\<lambda>_.
         bnd (store_path (p @ ''/'')) (\<lambda>_.
         read_names (dopath depth func) func p st r)))))"

definition myftw :: "nat \<Rightarrow> string \<Rightarrow> (string \<Rightarrow> ftype option \<Rightarrow> ftwtype \<Rightarrow> (ftw, int) prog) \<Rightarrow> (ftw, int) prog" where
  "myftw depth pathname func =
     bnd path_alloc (\<lambda>l.
     bnd (modify (\<lambda>s. s\<lparr>pathlen := l\<rparr>)) (\<lambda>_.
     bnd (if l \<le> length pathname then
            bnd (modify (\<lambda>s. s\<lparr>pathlen := length pathname * 2\<rparr>)) (\<lambda>_.
            bnd (syscall False (ret True)) (\<lambda>ok.
            if ok then ret () else err_sys ''realloc failed''))
          else ret ()) (\<lambda>_.
     bnd (store_path pathname) (\<lambda>_.
     dopath depth func))))"

definition myfunc :: "string \<Rightarrow> ftype option \<Rightarrow> ftwtype \<Rightarrow> (ftw, int) prog" where
  "myfunc pathname st ty =
     bnd (case ty of
        FTW_F \<Rightarrow> (case st of
            Some S_IFREG \<Rightarrow> modify (\<lambda>s. s\<lparr>nreg := nreg s + 1\<rparr>)
          | Some S_IFBLK \<Rightarrow> modify (\<lambda>s. s\<lparr>nblk := nblk s + 1\<rparr>)
          | Some S_IFCHR \<Rightarrow> modify (\<lambda>s. s\<lparr>nchr := nchr s + 1\<rparr>)
          | Some S_IFIFO \<Rightarrow> modify (\<lambda>s. s\<lparr>nfifo := nfifo s + 1\<rparr>)
          | Some S_IFLNK \<Rightarrow> modify (\<lambda>s. s\<lparr>nslink := nslink s + 1\<rparr>)
          | Some S_IFSOCK \<Rightarrow> modify (\<lambda>s. s\<lparr>nsock := nsock s + 1\<rparr>)
          | Some S_IFDIR \<Rightarrow> err_dump (''for S_IFDIR for '' @ pathname)
          | None \<Rightarrow> ret ())
      | FTW_D \<Rightarrow> modify (\<lambda>s. s\<lparr>ndir := ndir s + 1\<rparr>)
      | FTW_DNR \<Rightarrow> err_ret (''can't read directory '' @ pathname)
      | FTW_NS \<Rightarrow> err_ret (''stat error for '' @ pathname)) (\<lambda>_.
     ret 0)"

text \<open>\<open>main\<close> up to its output: the seven counts and the total their percentages are of.\<close>

definition ftw_main :: "nat \<Rightarrow> string list \<Rightarrow> (ftw, int \<times> int) prog" where
  "ftw_main depth argv =
     (if length argv \<noteq> 2 then err_quit ''usage:  ftw  <starting-pathname>''
      else
        bnd (myftw depth (argv ! 1) myfunc) (\<lambda>r.
        bnd (gets (\<lambda>s. nreg s + ndir s + nblk s + nchr s + nfifo s + nslink s + nsock s)) (\<lambda>ntot.
        ret (r, if ntot = 0 then 1 else ntot))))"

end
