(* ===== verification/Ftw_Props.thy ===== *)
theory Ftw_Props
  imports Ftw_Model
begin

section \<open>What the walk counts\<close>

text \<open>
  A tree of files as the calls show it: what cannot be examined, files other than directories, directories that cannot be read, and directories with their names
  in the order \<open>readdir\<close> delivers them. \<open>seen L D d p T\<close>: tree \<open>T\<close>, with at most \<open>d\<close> levels, is at pathname \<open>p\<close>.
\<close>

datatype ftree = Unstat int | Leaf ftype | Unread int | Dir "(string \<times> ftree) list"

definition dotted :: "string \<Rightarrow> bool" where
  "dotted x \<longleftrightarrow> x = ''.'' \<or> x = ''..''"

inductive seen :: "(string \<Rightarrow> int + ftype) \<Rightarrow> (string \<Rightarrow> int + string list) \<Rightarrow> nat \<Rightarrow> string \<Rightarrow> ftree \<Rightarrow> bool" for L D where
  seen_unstat: "L p = Inl e \<Longrightarrow> seen L D (Suc d) p (Unstat e)"
| seen_leaf: "L p = Inr m \<Longrightarrow> m \<noteq> S_IFDIR \<Longrightarrow> seen L D (Suc d) p (Leaf m)"
| seen_unread: "L p = Inr S_IFDIR \<Longrightarrow> D (p @ ''/'') = Inl e \<Longrightarrow> seen L D (Suc d) p (Unread e)"
| seen_dir: "L p = Inr S_IFDIR \<Longrightarrow> D (p @ ''/'') = Inr names \<Longrightarrow> filter (\<lambda>x. \<not> dotted x) names = map fst es \<Longrightarrow> (\<forall>x\<in>set names. length x \<le> NAME_MAX) \<Longrightarrow>
    (\<forall>x T. (x, T) \<in> set es \<longrightarrow> seen L D d (p @ ''/'' @ x) T) \<Longrightarrow> seen L D (Suc d) p (Dir es)"

text \<open>The types of the files of a tree, and the messages about those that cannot be examined or read, with the error numbers.\<close>

fun types :: "ftree \<Rightarrow> ftype list" where
  "types (Unstat e) = []"
| "types (Leaf m) = [m]"
| "types (Unread e) = [S_IFDIR]"
| "types (Dir es) = S_IFDIR # concat (map (\<lambda>(x, T). types T) es)"

fun complaints :: "string \<Rightarrow> ftree \<Rightarrow> (string \<times> int) list" where
  "complaints p (Unstat e) = [(''stat error for '' @ p, e)]"
| "complaints p (Leaf m) = []"
| "complaints p (Unread e) = [(''can't read directory '' @ p @ ''/'', e)]"
| "complaints p (Dir es) = concat (map (\<lambda>(x, T). complaints (p @ ''/'' @ x) T) es)"

definition counter :: "ftw \<Rightarrow> ftype \<Rightarrow> int" where
  "counter s m = (case m of S_IFREG \<Rightarrow> nreg s | S_IFDIR \<Rightarrow> ndir s | S_IFBLK \<Rightarrow> nblk s | S_IFCHR \<Rightarrow> nchr s | S_IFIFO \<Rightarrow> nfifo s | S_IFLNK \<Rightarrow> nslink s
     | S_IFSOCK \<Rightarrow> nsock s)"

definition printed :: "ftw \<Rightarrow> (string \<times> int) list \<Rightarrow> string" where
  "printed s ms = concat (map (\<lambda>(m, e). err_line True (k_strerror s e) m) ms)"

subsection \<open>What a part of the walk does\<close>

definition walked :: "ftype list \<Rightarrow> (string \<times> int) list \<Rightarrow> ftw \<Rightarrow> ftw \<Rightarrow> bool" where
  "walked ts ms s t \<longleftrightarrow> fs_lstat t = fs_lstat s \<and> fs_dir t = fs_dir s \<and> k_strerror t = k_strerror s \<and> k_faults t = [] \<and> pathlen s \<le> pathlen t \<and>
     (\<forall>m. counter t m = counter s m + int (count_list ts m)) \<and> k_stderr t = k_stderr s @ printed s ms"

lemma walked_trans: "walked ts ms s t \<Longrightarrow> walked ts' ms' t u \<Longrightarrow> walked (ts @ ts') (ms @ ms') s u"
  by (auto simp: walked_def printed_def)

lemma walked_same: "walked ts ms s t \<Longrightarrow> walked [] [] t u \<Longrightarrow> walked ts ms s u"
  using walked_trans by fastforce

text \<open>A buffer that holds its string, and is never small.\<close>

definition fits :: "ftw \<Rightarrow> bool" where
  "fits s \<longleftrightarrow> length (fullpath s) < pathlen s \<and> 256 \<le> pathlen s"

lemma myfunc_run:
  assumes "k_faults s = []"
  shows "m \<noteq> S_IFDIR \<Longrightarrow> \<exists>t. myfunc p (Some m) FTW_F s = Ok 0 t \<and> walked [m] [] s t \<and> fullpath t = fullpath s \<and> pathlen t = pathlen s"
    and "\<exists>t. myfunc p st FTW_D s = Ok 0 t \<and> walked [S_IFDIR] [] s t \<and> fullpath t = fullpath s \<and> pathlen t = pathlen s"
    and "\<exists>t. myfunc p st FTW_DNR s = Ok 0 t \<and> walked [] [(''can't read directory '' @ p, k_errno s)] s t \<and> fullpath t = fullpath s \<and> pathlen t = pathlen s"
    and "\<exists>t. myfunc p st FTW_NS s = Ok 0 t \<and> walked [] [(''stat error for '' @ p, k_errno s)] s t \<and> fullpath t = fullpath s \<and> pathlen t = pathlen s"
  using assms by (cases m; auto simp: myfunc_def walked_def counter_def printed_def bnd_def err_ret_def err_doit_def split: ftype.splits)+

lemma each_name_dots: "each_name descend n names r = each_name descend n (filter (\<lambda>x. \<not> dotted x) names) r"
  by (induction names arbitrary: r) (auto simp: dotted_def bnd_def split: outcome.splits)

definition ready :: "(string \<Rightarrow> int + ftype) \<Rightarrow> (string \<Rightarrow> int + string list) \<Rightarrow> string \<Rightarrow> ftw \<Rightarrow> bool" where
  "ready L D p s \<longleftrightarrow> fs_lstat s = L \<and> fs_dir s = D \<and> k_faults s = [] \<and> fits s \<and> (\<exists>q. fullpath s = p @ q)"

definition walks :: "nat \<Rightarrow> string \<Rightarrow> ftree \<Rightarrow> ftw \<Rightarrow> bool" where
  "walks d p T s \<longleftrightarrow> (\<exists>t. dopath d myfunc s = Ok 0 t \<and> walked (types T) (complaints p T) s t \<and> ready (fs_lstat s) (fs_dir s) p t)"

lemma store_path_run: "length p < pathlen s \<Longrightarrow> store_path p s = Ok () (s\<lparr>fullpath := p\<rparr>)"
  by (simp add: store_path_def)

lemma walked_path [simp]: "walked ts ms (s\<lparr>fullpath := p\<rparr>) t = walked ts ms s t"
  by (simp add: walked_def counter_def printed_def cong: ftype.case_cong)

lemma each_name_run:
  assumes "\<And>x T s. (x, T) \<in> set es \<Longrightarrow> ready L D (p @ ''/'' @ x) s \<Longrightarrow> fullpath s = p @ ''/'' @ x \<Longrightarrow> walks d (p @ ''/'' @ x) T s"
    and "\<And>x. x \<in> fst ` set es \<Longrightarrow> length x \<le> NAME_MAX \<and> \<not> dotted x" and "ready L D (p @ ''/'') s" and "length p + NAME_MAX + 2 \<le> pathlen s"
  shows "\<exists>t. each_name (dopath d myfunc) (Suc (length p)) (map fst es) 0 s = Ok 0 t \<and>
    walked (concat (map (\<lambda>(x, T). types T) es)) (concat (map (\<lambda>(x, T). complaints (p @ ''/'' @ x) T) es)) s t \<and> ready L D (p @ ''/'') t"
  using assms
proof (induction es arbitrary: s)
  case Nil
  then show ?case by (auto simp: walked_def printed_def ready_def)
next
  case (Cons xT es)
  obtain x T where xT: "xT = (x, T)" by (cases xT)
  let ?s = "s\<lparr>fullpath := p @ ''/'' @ x\<rparr>"
  have x: "length x \<le> NAME_MAX" "\<not> dotted x" using Cons.prems(2) [of x] xT by simp_all
  obtain q where q: "fullpath s = p @ ''/'' @ q" and env: "fs_lstat s = L" "fs_dir s = D" "k_faults s = []" "fits s" using Cons.prems(3) by (auto simp: ready_def)
  have tk: "take (Suc (length p)) (fullpath s) @ x = p @ ''/'' @ x" using q by simp
  have st: "store_path (p @ ''/'' @ x) s = Ok () ?s" by (rule store_path_run) (use x Cons.prems(4) in simp)
  have "ready L D (p @ ''/'' @ x) ?s" using env x Cons.prems(4) by (auto simp: ready_def fits_def)
  then obtain t where t: "dopath d myfunc ?s = Ok 0 t" "walked (types T) (complaints (p @ ''/'' @ x) T) s t" "ready L D (p @ ''/'' @ x) t"
    using Cons.prems(1) [of x T ?s] xT env by (auto simp: walks_def)
  have "ready L D (p @ ''/'') t" "length p + NAME_MAX + 2 \<le> pathlen t" using t(2,3) Cons.prems(4) by (auto simp: ready_def walked_def)
  from Cons.IH [OF Cons.prems(1) Cons.prems(2) this] obtain u where u: "each_name (dopath d myfunc) (Suc (length p)) (map fst es) 0 t = Ok 0 u"
    "walked (concat (map (\<lambda>(x, T). types T) es)) (concat (map (\<lambda>(x, T). complaints (p @ ''/'' @ x) T) es)) t u" "ready L D (p @ ''/'') u" by auto
  have "each_name (dopath d myfunc) (Suc (length p)) (map fst (xT # es)) 0 s = Ok 0 u"
    using x(2) xT tk st t(1) u(1) by (simp add: dotted_def bnd_def)
  then show ?case using walked_trans [OF t(2) u(2)] u(3) xT by auto
qed

lemma expand_run:
  assumes "k_faults s = []" and "fits s" and "n = length (fullpath s)"
  shows "\<exists>t. expand_path n s = Ok () t \<and> walked [] [] s t \<and> fullpath t = fullpath s \<and> n + NAME_MAX + 2 \<le> pathlen t"
  using assms by (auto simp: expand_path_def bnd_def syscall_def fits_def walked_def counter_def printed_def split: ftype.splits)

text \<open>A directory: it is counted, the buffer is made large enough, the slash is appended.\<close>

lemma dopath_enter:
  assumes "ready L D p s" and "fullpath s = p" and "L p = Inr S_IFDIR"
  shows "\<exists>u. walked [S_IFDIR] [] s u \<and> ready L D (p @ ''/'') u \<and> length p + NAME_MAX + 2 \<le> pathlen u \<and>
    dopath (Suc d) myfunc s = read_names (dopath d myfunc) myfunc p (Some S_IFDIR) 0 u"
proof -
  have l: "sys_lstat p s = Ok (Some S_IFDIR) s" using assms by (simp add: sys_lstat_def syscall_def ready_def)
  obtain t where t: "myfunc p (Some S_IFDIR) FTW_D s = Ok 0 t" "walked [S_IFDIR] [] s t" "fullpath t = p" "pathlen t = pathlen s"
    using myfunc_run(2) [of s p "Some S_IFDIR"] assms by (auto simp: ready_def)
  have "k_faults t = []" "fits t" using t assms by (auto simp: walked_def fits_def ready_def)
  then obtain v where v: "expand_path (length p) t = Ok () v" "walked [] [] t v" "fullpath v = p" "length p + NAME_MAX + 2 \<le> pathlen v"
    using expand_run [of t "length p"] t(3) by auto
  let ?u = "v\<lparr>fullpath := p @ ''/''\<rparr>"
  have st: "store_path (p @ ''/'') v = Ok () ?u" by (rule store_path_run) (use v(4) in simp)
  have w: "walked [S_IFDIR] [] s v" using walked_same [OF t(2) v(2)] .
  then have "walked [S_IFDIR] [] s ?u" by (simp add: walked_def counter_def printed_def cong: ftype.case_cong)
  moreover have "ready L D (p @ ''/'') ?u" using w v(4) assms(1) by (auto simp: ready_def walked_def fits_def)
  moreover have "length p + NAME_MAX + 2 \<le> pathlen ?u" using v(4) by simp
  ultimately show ?thesis by (rule_tac exI [of _ ?u]) (use l t(1) v(1) st assms(2) in \<open>simp add: bnd_def\<close>)
qed

lemma dopath_run:
  assumes "seen L D d p T"
  shows "ready L D p s \<Longrightarrow> fullpath s = p \<Longrightarrow> walks d p T s"
  using assms
proof (induction arbitrary: s rule: seen.induct)
  case (seen_unstat p e d)
  let ?s = "s\<lparr>k_errno := e\<rparr>"
  have l: "sys_lstat p s = Ok None ?s" using seen_unstat by (simp add: sys_lstat_def syscall_def ready_def)
  obtain t where "myfunc p None FTW_NS ?s = Ok 0 t" "walked [] [(''stat error for '' @ p, e)] ?s t" "fullpath t = fullpath s" "pathlen t = pathlen s"
    using myfunc_run(4) [of ?s p None] seen_unstat by (auto simp: ready_def)
  then show ?case using l seen_unstat by (auto simp: walks_def bnd_def ready_def fits_def walked_def counter_def printed_def cong: ftype.case_cong)
next
  case (seen_leaf p m d)
  have l: "sys_lstat p s = Ok (Some m) s" using seen_leaf by (simp add: sys_lstat_def syscall_def ready_def)
  obtain t where "myfunc p (Some m) FTW_F s = Ok 0 t" "walked [m] [] s t" "fullpath t = fullpath s" "pathlen t = pathlen s"
    using myfunc_run(1) [of s m p] seen_leaf by (auto simp: ready_def)
  then show ?case using l seen_leaf by (auto simp: walks_def bnd_def ready_def fits_def walked_def)
next
  case (seen_unread p e d)
  obtain u where u: "walked [S_IFDIR] [] s u" "ready L D (p @ ''/'') u"
    and run: "dopath (Suc d) myfunc s = read_names (dopath d myfunc) myfunc p (Some S_IFDIR) 0 u"
    using dopath_enter [OF seen_unread.prems seen_unread.hyps(1), of d] by blast
  let ?u = "u\<lparr>k_errno := e\<rparr>"
  have o: "sys_opendir (p @ ''/'') u = Ok None ?u" using u(2) seen_unread.hyps(2) by (simp add: sys_opendir_def syscall_def ready_def)
  obtain t where t: "myfunc (p @ ''/'') (Some S_IFDIR) FTW_DNR ?u = Ok 0 t" "walked [] [(''can't read directory '' @ p @ ''/'', e)] ?u t" "fullpath t = fullpath u" "pathlen t = pathlen u"
    using myfunc_run(3) [of ?u "p @ ''/''" "Some S_IFDIR"] u(2) by (auto simp: ready_def)
  have "walked [] [(''can't read directory '' @ p @ ''/'', e)] u t" using t(2) by (simp add: walked_def counter_def printed_def cong: ftype.case_cong)
  note w = walked_trans [OF u(1) this]
  have "dopath (Suc d) myfunc s = Ok 0 t" using run o t(1) by (simp add: read_names_def bnd_def del: dopath.simps)
  moreover have "ready (fs_lstat s) (fs_dir s) p t" using w u(2) t(3,4) by (auto simp: ready_def walked_def fits_def)
  ultimately show ?case using w by (auto simp: walks_def simp del: dopath.simps)
next
  case (seen_dir p names es d)
  obtain u where u: "walked [S_IFDIR] [] s u" "ready L D (p @ ''/'') u" "length p + NAME_MAX + 2 \<le> pathlen u"
    and run: "dopath (Suc d) myfunc s = read_names (dopath d myfunc) myfunc p (Some S_IFDIR) 0 u"
    using dopath_enter [OF seen_dir.prems seen_dir.hyps(1), of d] by blast
  have o: "sys_opendir (p @ ''/'') u = Ok (Some names) u" using u(2) seen_dir.hyps(2) by (simp add: sys_opendir_def syscall_def ready_def)
  have nm: "length x \<le> NAME_MAX \<and> \<not> dotted x" if "x \<in> fst ` set es" for x
  proof -
    have "x \<in> set (filter (\<lambda>x. \<not> dotted x) names)" using that seen_dir.hyps(3) by (metis set_map)
    then show ?thesis using seen_dir.hyps(4) by simp
  qed
  obtain t where t: "each_name (dopath d myfunc) (Suc (length p)) (map fst es) 0 u = Ok 0 t"
    "walked (concat (map (\<lambda>(x, T). types T) es)) (concat (map (\<lambda>(x, T). complaints (p @ ''/'' @ x) T) es)) u t" "ready L D (p @ ''/'') t"
    using each_name_run [OF _ nm u(2,3), where d = d] seen_dir.IH by blast
  let ?t = "t\<lparr>fullpath := p\<rparr>"
  have e: "each_name (dopath d myfunc) (Suc (length p)) names 0 u = Ok 0 t" using t(1) each_name_dots [of _ _ names] seen_dir.hyps(3) by simp
  have "dopath (Suc d) myfunc s = Ok 0 ?t" using run o e t(3)
    by (auto simp: read_names_def bnd_def ready_def syscall_def simp del: dopath.simps)
  moreover have w: "walked (types (Dir es)) (complaints p (Dir es)) s t" using walked_trans [OF u(1) t(2)] by simp
  moreover have "ready (fs_lstat s) (fs_dir s) p ?t" using t(3) seen_dir.prems(1) by (auto simp: ready_def fits_def)
  moreover have "walked (types (Dir es)) (complaints p (Dir es)) s ?t" using w by (simp add: walked_def counter_def printed_def cong: ftype.case_cong)
  ultimately show ?case unfolding walks_def by blast
qed

subsection \<open>The program\<close>

text \<open>The buffer \<open>path_alloc\<close> makes is not small when \<open>PATH_MAX\<close> is not.\<close>

definition room :: "ftw \<Rightarrow> bool" where
  "room s \<longleftrightarrow> (if pathmax s \<noteq> 0 then 256 \<le> pathmax s else (case pc_path_max s of Inl e \<Rightarrow> e = 0 | Inr v \<Rightarrow> 255 \<le> v))"

lemma path_alloc_run:
  assumes "k_faults s = []" and "room s"
  shows "\<exists>l t. path_alloc s = Ok l t \<and> 256 \<le> l \<and> pathlen t = pathlen s \<and> walked [] [] s t"
proof -
  define u where "u = get_versions s"
  have u: "walked [] [] s u" "k_faults u = []" "room u" "pathlen u = pathlen s"
    using assms by (simp_all add: u_def get_versions_def walked_def counter_def printed_def room_def cong: ftype.case_cong)
  have c: "counter (v\<lparr>pathmax := a\<rparr>) = counter v" "counter (v\<lparr>k_errno := a\<rparr>) = counter v" for a b v by (simp_all add: fun_eq_iff counter_def cong: ftype.case_cong)
  have "\<exists>l t. path_alloc s = Ok l t \<and> 256 \<le> l \<and> pathlen t = pathlen u \<and> walked [] [] u t"
    using u(2,3) by (auto simp: path_alloc_def u_def [symmetric] bnd_def syscall_def room_def walked_def printed_def c split: sum.splits)
  then show ?thesis using u walked_same [OF u(1)] by auto
qed

lemma myftw_run:
  assumes "k_faults s = []" and "room s" and "seen (fs_lstat s) (fs_dir s) d path T" and "pathlen s = 0"
  shows "\<exists>t. myftw d path myfunc s = Ok 0 t \<and> walked (types T) (complaints path T) s t"
proof -
  obtain l t where t: "path_alloc s = Ok l t" "256 \<le> l" "pathlen t = pathlen s" "walked [] [] s t" using path_alloc_run [OF assms(1,2)] by blast
  let ?l = "if l \<le> length path then length path * 2 else l"
  let ?u = "t\<lparr>pathlen := ?l, fullpath := path\<rparr>"
  have f: "k_faults t = []" using t(4) by (simp add: walked_def)
  have run: "myftw d path myfunc s = dopath d myfunc ?u" using t(1,2) f by (auto simp: myftw_def bnd_def syscall_def store_path_def)
  have w: "walked [] [] s ?u" using t(4) assms(4) by (simp add: walked_def counter_def printed_def cong: ftype.case_cong)
  have "ready (fs_lstat s) (fs_dir s) path ?u" using w t(2) by (auto simp: ready_def walked_def fits_def)
  then have "walks d path T ?u" using dopath_run [OF assms(3)] by simp
  then obtain v where v: "dopath d myfunc ?u = Ok 0 v" "walked (types T) (complaints path T) ?u v" by (auto simp: walks_def)
  show ?thesis using run v(1) walked_trans [OF w v(2)] by auto
qed

lemma types_total: "(\<Sum>m\<in>{S_IFREG, S_IFDIR, S_IFBLK, S_IFCHR, S_IFIFO, S_IFLNK, S_IFSOCK}. count_list ts m) = length ts"
proof (induction ts)
  case (Cons m ts)
  then show ?case by (cases m) simp_all
qed simp

definition demo_ftw :: ftw where
  "demo_ftw = \<lparr>k_dir = Map.empty, k_data = (\<lambda>_. []), k_nino = 0, k_ofd = Map.empty, k_maxfd = 2, k_lock = (\<lambda>_ _. F_UNLCK), k_olocks = [], k_faults = [],
     k_errno = 0, k_strerror = (\<lambda>_. ''denied''), k_stderr = [], pathmax = 4096, posix_version = 0, xsi_version = 0, fullpath = [], pathlen = 0,
     nreg = 0, ndir = 0, nblk = 0, nchr = 0, nfifo = 0, nslink = 0, nsock = 0,
     fs_lstat = (\<lambda>p. if p \<in> {''/a'', ''/a/c''} then Inr S_IFDIR else if p = ''/a/b'' then Inr S_IFREG else Inl 2),
     fs_dir = (\<lambda>p. if p = ''/a/'' then Inr [''.'', ''b'', ''..'', ''c''] else Inl 13),
     sc_version = 200809, sc_xopen_version = 700, pc_path_max = Inl 0\<rparr>"

text \<open>
  C23: \<open>ftw8.c\<close> visits a whole tree. For any tree of files that the calls show at the pathname, with directories nested to any depth, names of any legal length and
  files that cannot be examined or read among them, the program counts every file once under its type, prints a message for each one it cannot examine or read, in the
  order of the walk, and returns 0; the total is the number of files counted, or 1 when there is none. The buffer for pathnames is never too small.
\<close>

theorem ftw_counts_all:
  assumes "k_faults s = []" and "room s" and "seen (fs_lstat s) (fs_dir s) depth path T" and "pathlen s = 0" and "\<And>m. counter s m = 0"
  shows "\<exists>t. ftw_main depth [prog, path] s = Ok (0, if types T = [] then 1 else int (length (types T))) t \<and>
    (\<forall>m. counter t m = int (count_list (types T) m)) \<and> k_stderr t = k_stderr s @ printed s (complaints path T)"
proof -
  obtain t where t: "myftw depth path myfunc s = Ok 0 t" "walked (types T) (complaints path T) s t" using myftw_run [OF assms(1-4)] by blast
  have c: "counter t m = int (count_list (types T) m)" for m using t(2) assms(5) by (simp add: walked_def)
  have "int (length (types T)) = nreg t + ndir t + nblk t + nchr t + nfifo t + nslink t + nsock t"
    unfolding types_total [symmetric] using c [of S_IFREG] c [of S_IFDIR] c [of S_IFBLK] c [of S_IFCHR] c [of S_IFIFO] c [of S_IFLNK] c [of S_IFSOCK]
    by (simp add: counter_def)
  then have "ftw_main depth [prog, path] s = Ok (0, if types T = [] then 1 else int (length (types T))) t"
    using t(1) by (auto simp: ftw_main_def bnd_def)
  then show ?thesis using c t(2) by (auto simp: walked_def)
qed

theorem ftw_counts_all_witness:
  "\<exists>t. ftw_main 2 [''ftw'', ''/a''] demo_ftw = Ok (0, 3) t \<and> nreg t = 1 \<and> ndir t = 2 \<and> k_stderr t = ''can't read directory /a/c/: denied'' @ [CHR 0x0A]"
proof -
  let ?T = "Dir [(''b'', Leaf S_IFREG), (''c'', Unread 13)]"
  have "seen (fs_lstat demo_ftw) (fs_dir demo_ftw) (Suc (Suc 0)) ''/a'' ?T"
    by (rule seen_dir [where names = "[''.'', ''b'', ''..'', ''c'']"]) (auto simp: demo_ftw_def dotted_def intro!: seen_leaf seen_unread)
  moreover have "counter demo_ftw m = 0" for m by (cases m) (simp_all add: counter_def demo_ftw_def)
  moreover have "k_faults demo_ftw = []" "room demo_ftw" "pathlen demo_ftw = 0" by (simp_all add: demo_ftw_def room_def)
  ultimately obtain t where t: "ftw_main (Suc (Suc 0)) [''ftw'', ''/a''] demo_ftw = Ok (0, 3) t" "\<And>m. counter t m = int (count_list (types ?T) m)"
    "k_stderr t = k_stderr demo_ftw @ printed demo_ftw (complaints ''/a'' ?T)"
    using ftw_counts_all [of demo_ftw "Suc (Suc 0)" "''/a''" ?T "''ftw''"] by auto
  have "nreg t = 1" "ndir t = 2" using t(2) [of S_IFREG] t(2) [of S_IFDIR] by (simp_all add: counter_def)
  moreover have "k_stderr t = ''can't read directory /a/c/: denied'' @ [CHR 0x0A]"
    using t(3) by (simp add: printed_def err_line_def MAXLINE_def demo_ftw_def Let_def)
  ultimately show ?thesis using t(1) by (auto simp: numeral_2_eq_2)
qed

end
