(* ===== verification/Barrier_Sort.thy ===== *)
theory Barrier_Sort
  imports Prelude "HOL-Library.Multiset"
begin

section \<open>Sorting in parallel: \<open>threads/barrier.c\<close>\<close>

text \<open>
  Eight threads sort a part of the array each and meet \<open>main\<close> at a barrier; then \<open>main\<close> merges the parts. \<open>heapsort\<close> is not in the repository: it is a parameter \<open>hs\<close> of the model, and
  what the program relies on is \<open>sorts hs\<close>. A thread works on its part alone, so its sorting is one step; the threads are started one by one and do their steps in any
  order.
\<close>

definition NTHR :: nat where "NTHR = 8"

definition NUMNUM :: nat where "NUMNUM = 8000000"

definition TNUM :: nat where "TNUM = NUMNUM div NTHR"

definition LONG_MAX :: int where "LONG_MAX = 2 ^ 63 - 1"

definition complong :: "int \<Rightarrow> int \<Rightarrow> int" where
  "complong l1 l2 = (if l1 = l2 then 0 else if l1 < l2 then -1 else 1)"

definition sorts :: "((int \<Rightarrow> int \<Rightarrow> int) \<Rightarrow> int list \<Rightarrow> int list) \<Rightarrow> bool" where
  "sorts hs \<longleftrightarrow> (\<forall>xs. mset (hs complong xs) = mset xs \<and> sorted_wrt (\<lambda>x y. complong x y \<le> 0) (hs complong xs))"

subsection \<open>Merging\<close>

text \<open>The inner loop, over the indices that are left: the least number found so far and \<open>minidx\<close>, which keeps its value from the last pass if none is found.\<close>

fun pick :: "int list \<Rightarrow> nat list \<Rightarrow> nat list \<Rightarrow> int \<times> nat option \<Rightarrow> int \<times> nat option" where
  "pick nums idx [] best = best"
| "pick nums idx (i # is) best =
     pick nums idx is (if idx ! i < (i + 1) * TNUM \<and> nums ! (idx ! i) < fst best then (nums ! (idx ! i), Some i) else best)"

fun merge_loop :: "nat \<Rightarrow> int list \<Rightarrow> nat list \<Rightarrow> nat option \<Rightarrow> int list \<Rightarrow> reason + int list" where
  "merge_loop 0 nums idx minidx snums = Inr snums"
| "merge_loop (Suc k) nums idx minidx snums =
     (case snd (pick nums idx [0..<NTHR] (LONG_MAX, minidx)) of
        None \<Rightarrow> Inl (Undefined ''minidx is not set'')
      | Some i \<Rightarrow>
          if idx ! i < length nums then merge_loop k nums (idx[i := idx ! i + 1]) (Some i) (snums @ [nums ! (idx ! i)])
          else Inl (Undefined ''index past the end of nums''))"

definition merge :: "int list \<Rightarrow> reason + int list" where
  "merge nums = merge_loop NUMNUM nums (map (\<lambda>i. i * TNUM) [0..<NTHR]) None []"

subsection \<open>The threads\<close>

datatype thr_pc = Unborn | Sorting | At_barrier | Released

datatype main_pc = Creating nat | Main_at_barrier | Merging | Finished "reason + int list"

record bsys =
  nums :: "int list"
  thr :: "nat \<Rightarrow> thr_pc"
  main_at :: main_pc

definition sort_part :: "((int \<Rightarrow> int \<Rightarrow> int) \<Rightarrow> int list \<Rightarrow> int list) \<Rightarrow> nat \<Rightarrow> int list \<Rightarrow> int list" where
  "sort_part hs idx xs = take idx xs @ hs complong (take TNUM (drop idx xs)) @ drop (idx + TNUM) xs"

inductive bstep :: "((int \<Rightarrow> int \<Rightarrow> int) \<Rightarrow> int list \<Rightarrow> int list) \<Rightarrow> bsys \<Rightarrow> bsys \<Rightarrow> bool" for hs where
  create: "main_at s = Creating i \<Longrightarrow> i < NTHR \<Longrightarrow> bstep hs s (s\<lparr>thr := (thr s)(i := Sorting), main_at := Creating (Suc i)\<rparr>)"
| create_fails: "main_at s = Creating i \<Longrightarrow> i < NTHR \<Longrightarrow> bstep hs s (s\<lparr>main_at := Finished (Inl (Err_exit ''can't create thread''))\<rparr>)"
| waits: "main_at s = Creating NTHR \<Longrightarrow> bstep hs s (s\<lparr>main_at := Main_at_barrier\<rparr>)"
| thr_fn: "t < NTHR \<Longrightarrow> thr s t = Sorting \<Longrightarrow> (\<forall>r. main_at s \<noteq> Finished r) \<Longrightarrow>
    bstep hs s (s\<lparr>nums := sort_part hs (t * TNUM) (nums s), thr := (thr s)(t := At_barrier)\<rparr>)"
| barrier: "main_at s = Main_at_barrier \<Longrightarrow> (\<forall>t<NTHR. thr s t = At_barrier) \<Longrightarrow> bstep hs s (s\<lparr>thr := (\<lambda>t. Released), main_at := Merging\<rparr>)"
| merges: "main_at s = Merging \<Longrightarrow> bstep hs s (s\<lparr>main_at := Finished (merge (nums s))\<rparr>)"

definition bstart :: "int list \<Rightarrow> bsys" where
  "bstart xs = \<lparr>nums = xs, thr = (\<lambda>t. Unborn), main_at = Creating 0\<rparr>"

subsection \<open>Parts of the array\<close>

definition part :: "nat \<Rightarrow> int list \<Rightarrow> int list" where
  "part t xs = take TNUM (drop (t * TNUM) xs)"

lemma sizes: "NTHR * TNUM = NUMNUM" "0 < TNUM"
  by (simp_all add: NTHR_def TNUM_def NUMNUM_def)

lemma sorted_complong: "sorted_wrt (\<lambda>x y. complong x y \<le> 0) xs = sorted xs"
proof -
  have "(complong x y \<le> 0) = (x \<le> y)" for x y by (simp add: complong_def)
  then show ?thesis by simp
qed

lemma sortsD:
  assumes "sorts hs"
  shows "sorted (hs complong xs)" "mset (hs complong xs) = mset xs" "length (hs complong xs) = length xs"
proof -
  show s: "sorted (hs complong xs)" "mset (hs complong xs) = mset xs" using assms by (simp_all add: sorts_def sorted_complong)
  then show "length (hs complong xs) = length xs" by (metis size_mset)
qed

lemma part_prefix: "u * TNUM + TNUM \<le> length a \<Longrightarrow> part u (a @ r) = part u a"
  by (simp add: part_def)

lemma part_suffix: "length a + length b \<le> u * TNUM \<Longrightarrow> part u (a @ b @ c) = take TNUM (drop (u * TNUM - (length a + length b)) c)"
  by (simp add: part_def)

lemma sort_part_facts:
  assumes hs: "sorts hs" and len: "length xs = NUMNUM" and t: "t < NTHR"
  shows "length (sort_part hs (t * TNUM) xs) = NUMNUM" and "mset (sort_part hs (t * TNUM) xs) = mset xs" and "sorted (part t (sort_part hs (t * TNUM) xs))"
    and "u \<noteq> t \<Longrightarrow> u < NTHR \<Longrightarrow> part u (sort_part hs (t * TNUM) xs) = part u xs"
proof -
  let ?a = "take (t * TNUM) xs" and ?b = "take TNUM (drop (t * TNUM) xs)" and ?c = "drop (t * TNUM + TNUM) xs"
  have "Suc t * TNUM \<le> NTHR * TNUM" using t by (intro mult_le_mono1) simp
  then have fit: "t * TNUM + TNUM \<le> length xs" using sizes len by simp
  have xs: "xs = ?a @ ?b @ ?c" by (metis append_take_drop_id drop_drop add.commute)
  have sp: "sort_part hs (t * TNUM) xs = ?a @ hs complong ?b @ ?c" by (simp add: sort_part_def)
  have l: "length ?a = t * TNUM" "length (hs complong ?b) = TNUM" using fit sortsD(3) [OF hs, of ?b] by simp_all
  show "length (sort_part hs (t * TNUM) xs) = NUMNUM" unfolding sp using l fit len by simp
  show "mset (sort_part hs (t * TNUM) xs) = mset xs" unfolding sp by (subst (4) xs) (simp add: sortsD(2) [OF hs])
  have "part t (sort_part hs (t * TNUM) xs) = hs complong ?b" unfolding sp part_def using l by simp
  then show "sorted (part t (sort_part hs (t * TNUM) xs))" using sortsD(1) [OF hs] by simp
  have lb: "length ?b = TNUM" using fit by simp
  show "part u (sort_part hs (t * TNUM) xs) = part u xs" if "u \<noteq> t" "u < NTHR"
  proof (cases "u < t")
    case True
    then have "Suc u * TNUM \<le> t * TNUM" by (intro mult_le_mono1) simp
    then have "u * TNUM + TNUM \<le> length ?a" using l(1) by simp
    then have "part u (?a @ r) = part u ?a" for r by (rule part_prefix)
    then show ?thesis unfolding sp by (metis xs)
  next
    case False
    then have "Suc t * TNUM \<le> u * TNUM" using that by (intro mult_le_mono1) simp
    then have "length ?a + TNUM \<le> u * TNUM" using l(1) by simp
    then have "part u (?a @ b @ ?c) = take TNUM (drop (u * TNUM - (length ?a + TNUM)) ?c)" if "length b = TNUM" for b using part_suffix [of ?a b u] that by simp
    then show ?thesis unfolding sp using l(2) lb by (metis xs)
  qed
qed

subsection \<open>The merge\<close>

definition rest_of :: "int list \<Rightarrow> nat list \<Rightarrow> nat \<Rightarrow> int list" where
  "rest_of xs idx i = take ((i + 1) * TNUM - idx ! i) (drop (idx ! i) xs)"

definition in_parts :: "int list \<Rightarrow> nat list \<Rightarrow> bool" where
  "in_parts xs idx \<longleftrightarrow> length xs = NUMNUM \<and> length idx = NTHR \<and> (\<forall>i<NTHR. i * TNUM \<le> idx ! i \<and> idx ! i \<le> (i + 1) * TNUM)"

lemma part_bound: "i < NTHR \<Longrightarrow> (i + 1) * TNUM \<le> NUMNUM"
  using mult_le_mono1 [of "i + 1" NTHR TNUM] sizes(1) by simp

lemma rest_of_cases:
  assumes "in_parts xs idx" and "i < NTHR"
  shows "if idx ! i < (i + 1) * TNUM then rest_of xs idx i = xs ! (idx ! i) # rest_of xs (idx[i := idx ! i + 1]) i \<and> idx ! i < length xs else rest_of xs idx i = []"
proof (cases "idx ! i < (i + 1) * TNUM")
  case True
  then have l: "idx ! i < length xs" using part_bound [OF assms(2)] assms(1) by (simp add: in_parts_def)
  have "Suc ((i + 1) * TNUM - (idx ! i + 1)) = (i + 1) * TNUM - idx ! i" using True by simp
  then have "take ((i + 1) * TNUM - idx ! i) (xs ! (idx ! i) # drop (Suc (idx ! i)) xs) = xs ! (idx ! i) # take ((i + 1) * TNUM - (idx ! i + 1)) (drop (Suc (idx ! i)) xs)"
    by (metis take_Suc_Cons)
  then show ?thesis using True l assms by (simp add: rest_of_def in_parts_def Cons_nth_drop_Suc)
qed (simp add: rest_of_def)

lemma rest_of_other: "j \<noteq> i \<Longrightarrow> rest_of xs (idx[i := k]) j = rest_of xs idx j"
  by (simp add: rest_of_def)

text \<open>The inner loop finds the least of the first numbers that are left.\<close>

lemma pick_least:
  assumes "in_parts xs idx" and "\<forall>i\<in>set is. i < NTHR"
  shows "fst (pick xs idx is best) \<le> fst best \<and> (\<forall>i\<in>set is. rest_of xs idx i \<noteq> [] \<longrightarrow> fst (pick xs idx is best) \<le> hd (rest_of xs idx i)) \<and>
    (pick xs idx is best = best \<or> (\<exists>i\<in>set is. snd (pick xs idx is best) = Some i \<and> rest_of xs idx i \<noteq> [] \<and> fst (pick xs idx is best) = hd (rest_of xs idx i)))"
  using assms(2)
proof (induction "is" arbitrary: best)
  case (Cons i "is")
  let ?b = "if idx ! i < (i + 1) * TNUM \<and> xs ! (idx ! i) < fst best then (xs ! (idx ! i), Some i) else best"
  have i: "i < NTHR" using Cons.prems by simp
  note lc = rest_of_cases [OF assms(1) i]
  have IH: "fst (pick xs idx is ?b) \<le> fst ?b \<and> (\<forall>i\<in>set is. rest_of xs idx i \<noteq> [] \<longrightarrow> fst (pick xs idx is ?b) \<le> hd (rest_of xs idx i)) \<and>
    (pick xs idx is ?b = ?b \<or> (\<exists>i\<in>set is. snd (pick xs idx is ?b) = Some i \<and> rest_of xs idx i \<noteq> [] \<and> fst (pick xs idx is ?b) = hd (rest_of xs idx i)))"
    using Cons by simp
  have b: "fst ?b \<le> fst best" "rest_of xs idx i \<noteq> [] \<Longrightarrow> fst ?b \<le> hd (rest_of xs idx i)" "?b = best \<or> ?b = (hd (rest_of xs idx i), Some i) \<and> rest_of xs idx i \<noteq> []"
    using lc by (auto split: if_splits)
  have p: "pick xs idx (i # is) best = pick xs idx is ?b" by simp
  show ?case unfolding p
  proof (intro conjI)
    show "fst (pick xs idx is ?b) \<le> fst best" using IH b(1) by linarith
    show "\<forall>j\<in>set (i # is). rest_of xs idx j \<noteq> [] \<longrightarrow> fst (pick xs idx is ?b) \<le> hd (rest_of xs idx j)" using IH b(2) by fastforce
    show "pick xs idx is ?b = best \<or> (\<exists>j\<in>set (i # is). snd (pick xs idx is ?b) = Some j \<and> rest_of xs idx j \<noteq> [] \<and> fst (pick xs idx is ?b) = hd (rest_of xs idx j))"
      using IH b(3) by (metis (no_types, lifting) fst_conv list.set_intros(1,2) snd_conv)
  qed
qed simp

definition merging :: "int list \<Rightarrow> nat list \<Rightarrow> int list \<Rightarrow> bool" where
  "merging xs idx snums \<longleftrightarrow> in_parts xs idx \<and> sorted snums \<and> (\<forall>i<NTHR. sorted (rest_of xs idx i)) \<and>
     (\<forall>x\<in>set snums. \<forall>i<NTHR. \<forall>y\<in>set (rest_of xs idx i). x \<le> y) \<and> mset snums + (\<Sum>i<NTHR. mset (rest_of xs idx i)) = mset xs"

lemma merge_step:
  assumes m: "merging xs idx snums" and big: "\<forall>x\<in>set xs. x < LONG_MAX" and k: "length snums < NUMNUM"
  shows "\<exists>i. snd (pick xs idx [0..<NTHR] (LONG_MAX, minidx)) = Some i \<and> idx ! i < length xs \<and> merging xs (idx[i := idx ! i + 1]) (snums @ [xs ! (idx ! i)])"
proof -
  have ip: "in_parts xs idx" and total: "mset snums + (\<Sum>i<NTHR. mset (rest_of xs idx i)) = mset xs" using m by (simp_all add: merging_def)
  have "(\<Sum>i<NTHR. mset (rest_of xs idx i)) \<noteq> {#}"
  proof
    assume "(\<Sum>i<NTHR. mset (rest_of xs idx i)) = {#}"
    then have "mset snums = mset xs" using total by simp
    then show False using k ip by (metis in_parts_def less_irrefl size_mset)
  qed
  then obtain j where j: "j < NTHR" "rest_of xs idx j \<noteq> []" by (metis (no_types, lifting) lessThan_iff mset_zero_iff sum.neutral)
  have sub: "set (rest_of xs idx i) \<subseteq> set xs" for i by (auto simp: rest_of_def dest: in_set_takeD in_set_dropD)
  define best where "best = pick xs idx [0..<NTHR] (LONG_MAX, minidx)"
  have P: "\<forall>i<NTHR. rest_of xs idx i \<noteq> [] \<longrightarrow> fst best \<le> hd (rest_of xs idx i)"
    "best = (LONG_MAX, minidx) \<or> (\<exists>i<NTHR. snd best = Some i \<and> rest_of xs idx i \<noteq> [] \<and> fst best = hd (rest_of xs idx i))"
    using pick_least [OF ip, of "[0..<NTHR]" "(LONG_MAX, minidx)"] by (auto simp: best_def)
  have "hd (rest_of xs idx j) < LONG_MAX" using big sub [of j] j(2) by (meson hd_in_set subsetD)
  then have "fst best < LONG_MAX" using P(1) j by fastforce
  then obtain i where i: "i < NTHR" "snd best = Some i" "rest_of xs idx i \<noteq> []" "fst best = hd (rest_of xs idx i)" using P(2) by auto
  let ?x = "xs ! (idx ! i)" and ?idx = "idx[i := idx ! i + 1]"
  have lc: "idx ! i < (i + 1) * TNUM" "rest_of xs idx i = ?x # rest_of xs ?idx i" "idx ! i < length xs" using rest_of_cases [OF ip i(1)] i(3) by (auto split: if_splits)
  have le: "?x \<le> y" if "n < NTHR" "y \<in> set (rest_of xs idx n)" for n y
  proof -
    have ne: "rest_of xs idx n \<noteq> []" using that(2) by auto
    have "?x \<le> hd (rest_of xs idx n)" using P(1) i(4) lc(2) that(1) ne by auto
    moreover have "hd (rest_of xs idx n) \<le> y" using m that ne by (cases "rest_of xs idx n") (auto simp: merging_def)
    ultimately show ?thesis by linarith
  qed
  have sub': "set (rest_of xs ?idx n) \<subseteq> set (rest_of xs idx n)" if "n < NTHR" for n using lc(2) rest_of_other [of n i xs idx] by (cases "n = i") auto
  have "merging xs ?idx (snums @ [?x])" unfolding merging_def
  proof (intro conjI)
    show "in_parts xs ?idx" using ip i(1) lc(1) by (auto simp: in_parts_def nth_list_update)
    show "sorted (snums @ [?x])" using m i(1) lc(2) by (auto simp: merging_def sorted_append)
    show "\<forall>n<NTHR. sorted (rest_of xs ?idx n)"
    proof (intro allI impI)
      fix n assume n: "n < NTHR"
      have "sorted (rest_of xs idx n)" using m n by (simp add: merging_def)
      then show "sorted (rest_of xs ?idx n)" using lc(2) rest_of_other [of n i xs idx] by (cases "n = i") auto
    qed
    show "\<forall>x\<in>set (snums @ [?x]). \<forall>n<NTHR. \<forall>y\<in>set (rest_of xs ?idx n). x \<le> y" using m le sub' by (auto simp: merging_def) (meson subsetD)+
    have "(\<Sum>n<NTHR. mset (rest_of xs ?idx n)) + mset (rest_of xs idx i) = (\<Sum>n<NTHR. mset (rest_of xs idx n)) + mset (rest_of xs ?idx i)"
      by (rule sum_change [OF i(1)]) (simp add: rest_of_other)
    then have e: "(\<Sum>n<NTHR. mset (rest_of xs ?idx n)) + {#?x#} = (\<Sum>n<NTHR. mset (rest_of xs idx n))" unfolding lc(2) by simp
    have "mset (snums @ [?x]) + (\<Sum>n<NTHR. mset (rest_of xs ?idx n)) = mset snums + ((\<Sum>n<NTHR. mset (rest_of xs ?idx n)) + {#?x#})" by simp
    then show "mset (snums @ [?x]) + (\<Sum>n<NTHR. mset (rest_of xs ?idx n)) = mset xs" unfolding e total .
  qed
  then show ?thesis using i(2) lc(3) by (auto simp: best_def)
qed

lemma merge_loop_run:
  assumes "merging xs idx snums" and "\<forall>x\<in>set xs. x < LONG_MAX" and "length snums + k = NUMNUM"
  shows "\<exists>ys. merge_loop k xs idx minidx snums = Inr ys \<and> sorted ys \<and> mset ys = mset xs"
  using assms
proof (induction k arbitrary: idx minidx snums)
  case 0
  then have "size (mset snums) = size (mset xs)" by (simp add: merging_def in_parts_def)
  moreover have "mset snums \<subseteq># mset xs" using 0(1) by (metis mset_subset_eq_add_left merging_def)
  ultimately have "mset snums = mset xs" by (metis mset_subset_size subset_mset.less_le nat_less_le)
  then show ?case using 0(1) by (simp add: merging_def)
next
  case (Suc k)
  obtain i where i: "snd (pick xs idx [0..<NTHR] (LONG_MAX, minidx)) = Some i" "idx ! i < length xs" "merging xs (idx[i := idx ! i + 1]) (snums @ [xs ! (idx ! i)])"
    using merge_step [OF Suc.prems(1,2), of minidx] Suc.prems(3) by auto
  show ?case using Suc.IH [OF i(3) Suc.prems(2), of "Some i"] i(1,2) Suc.prems(3) by simp
qed

lemma all_parts:
  assumes "length xs = NUMNUM"
  shows "(\<Sum>i<NTHR. mset (part i xs)) = mset xs"
proof -
  have "(\<Sum>i<n. mset (part i xs)) = mset (take (n * TNUM) xs)" for n
  proof (induction n)
    case (Suc n)
    have "take (Suc n * TNUM) xs = take (n * TNUM) xs @ part n xs" by (metis add.commute mult_Suc part_def take_add)
    then show ?case using Suc by simp
  qed simp
  then show ?thesis using assms sizes(1) by simp
qed

lemma merge_run:
  assumes "length xs = NUMNUM" and "\<forall>x\<in>set xs. x < LONG_MAX" and "\<forall>t<NTHR. sorted (part t xs)"
  shows "\<exists>ys. merge xs = Inr ys \<and> sorted ys \<and> mset ys = mset xs"
proof -
  let ?idx = "map (\<lambda>i. i * TNUM) [0..<NTHR]"
  have l: "rest_of xs ?idx i = part i xs" if "i < NTHR" for i using that by (simp add: rest_of_def part_def)
  then have "(\<Sum>i<NTHR. mset (rest_of xs ?idx i)) = mset xs" using all_parts [OF assms(1)] by simp
  then have "merging xs ?idx []" using assms l by (simp add: merging_def in_parts_def)
  then show ?thesis unfolding merge_def using merge_loop_run [of xs ?idx "[]" NUMNUM] assms(2) by simp
qed

subsection \<open>The program\<close>

definition binv :: "int list \<Rightarrow> bsys \<Rightarrow> bool" where
  "binv xs s \<longleftrightarrow> length (nums s) = NUMNUM \<and> mset (nums s) = mset xs \<and> (\<forall>t<NTHR. thr s t \<in> {At_barrier, Released} \<longrightarrow> sorted (part t (nums s))) \<and>
     (case main_at s of
        Creating i \<Rightarrow> i \<le> NTHR \<and> (\<forall>t<i. thr s t \<in> {Sorting, At_barrier}) \<and> (\<forall>t. i \<le> t \<longrightarrow> thr s t = Unborn)
      | Main_at_barrier \<Rightarrow> \<forall>t<NTHR. thr s t \<in> {Sorting, At_barrier}
      | Merging \<Rightarrow> \<forall>t<NTHR. thr s t = Released
      | Finished r \<Rightarrow> r = Inl (Err_exit ''can't create thread'') \<or> (\<exists>ys. r = Inr ys \<and> sorted ys \<and> mset ys = mset xs))"

lemma binv_step:
  assumes "bstep hs s s'" and "binv xs s" and hs: "sorts hs" and big: "\<forall>x\<in>set xs. x < LONG_MAX"
  shows "binv xs s'"
  using assms(1,2)
proof (cases rule: bstep.cases)
  case (thr_fn t)
  have len: "length (nums s) = NUMNUM" using assms(2) by (simp add: binv_def)
  note f = sort_part_facts [OF hs len thr_fn(2)]
  have "sorted (part u (sort_part hs (t * TNUM) (nums s)))" if "u < NTHR" "u = t \<or> thr s u \<in> {At_barrier, Released}" for u
    using assms(2) that f(3) f(4) [of u] by (cases "u = t") (auto simp: binv_def)
  then show ?thesis using assms(2) thr_fn f(1,2) by (auto simp: binv_def split: main_pc.splits)
next
  case merges
  have "set (nums s) = set xs" using assms(2) by (metis binv_def mset_eq_setD)
  then have "\<exists>ys. merge (nums s) = Inr ys \<and> sorted ys \<and> mset ys = mset (nums s)"
    using assms(2) merges big by (intro merge_run) (auto simp: binv_def)
  then show ?thesis using assms(2) merges by (auto simp: binv_def)
qed (auto simp: binv_def less_Suc_eq_le split: if_splits)

lemma binv_run: "(bstep hs)\<^sup>*\<^sup>* (bstart xs) s \<Longrightarrow> sorts hs \<Longrightarrow> length xs = NUMNUM \<Longrightarrow> \<forall>x\<in>set xs. x < LONG_MAX \<Longrightarrow> binv xs s"
proof (induction rule: rtranclp_induct)
  case base
  then show ?case by (simp add: binv_def bstart_def)
next
  case (step y z)
  then show ?case using binv_step by blast
qed

lemma bstep_progress:
  assumes "binv xs s" and "\<forall>r. main_at s \<noteq> Finished r"
  shows "\<exists>s'. bstep hs s s'"
proof (cases "main_at s")
  case (Creating i)
  then show ?thesis using assms(1) bstep.create [of s i hs] bstep.waits [of s hs] by (cases "i = NTHR") (auto simp: binv_def)
next
  case Main_at_barrier
  show ?thesis
  proof (cases "\<forall>t<NTHR. thr s t = At_barrier")
    case True
    then show ?thesis using Main_at_barrier bstep.barrier by blast
  next
    case False
    then obtain t where "t < NTHR" "thr s t = Sorting" using assms(1) Main_at_barrier by (auto simp: binv_def)
    then show ?thesis using bstep.thr_fn assms(2) by blast
  qed
next
  case Merging
  then show ?thesis using bstep.merges by blast
qed (use assms(2) in simp)

text \<open>Steps rest_of.\<close>

definition bleft :: "bsys \<Rightarrow> nat" where
  "bleft s = (case main_at s of Creating i \<Rightarrow> 2 * (NTHR - i) + 3 | Main_at_barrier \<Rightarrow> 2 | Merging \<Rightarrow> 1 | Finished r \<Rightarrow> 0) +
     (case main_at s of Finished r \<Rightarrow> 0 | _ \<Rightarrow> \<Sum>t<NTHR. of_bool (thr s t = Sorting))"

lemma bstep_left:
  assumes "bstep hs s s'"
  shows "bleft s' < bleft s"
  using assms
proof (cases rule: bstep.cases)
  case (create i)
  have "(\<Sum>t<NTHR. of_bool (((thr s)(i := Sorting)) t = Sorting)) + of_bool (thr s i = Sorting) = (\<Sum>t<NTHR. of_bool (thr s t = Sorting)) + (of_bool (((thr s)(i := Sorting)) i = Sorting) :: nat)"
    by (rule sum_change) (use create in auto)
  then show ?thesis using create by (auto simp: bleft_def)
next
  case (thr_fn t)
  have "(\<Sum>u<NTHR. of_bool (((thr s)(t := At_barrier)) u = Sorting)) + of_bool (thr s t = Sorting) = (\<Sum>u<NTHR. of_bool (thr s u = Sorting)) + (of_bool (((thr s)(t := At_barrier)) t = Sorting) :: nat)"
    by (rule sum_change) (use thr_fn in auto)
  then show ?thesis using thr_fn by (auto simp: bleft_def split: main_pc.splits)
qed (auto simp: bleft_def)

lemma bleft_run: "(bstep hs ^^ n) s s' \<Longrightarrow> bleft s' + n \<le> bleft s"
proof (induction n arbitrary: s')
  case (Suc n)
  then obtain u where "(bstep hs ^^ n) s u" "bstep hs u s'" by auto
  then show ?case using Suc.IH [of u] bstep_left [of hs u s'] by simp
qed simp

text \<open>
  C21: \<open>barrier.c\<close> sorts. For any numbers below \<open>LONG_MAX\<close> and whatever the order in which the threads run, no run has more than 19 steps or stops before the program has ended; it
  ends with the numbers sorted, or because a thread cannot be created. What is needed of \<open>heapsort\<close> is that it sorts by the comparison it is given.
\<close>

theorem parallel_sort_correct:
  assumes "sorts hs" and "length xs = NUMNUM" and "\<forall>x\<in>set xs. x < LONG_MAX"
  shows "((bstep hs ^^ n) (bstart xs) s \<longrightarrow> n \<le> 19) \<and>
    ((bstep hs)\<^sup>*\<^sup>* (bstart xs) s \<longrightarrow>
      ((\<forall>r. main_at s \<noteq> Finished r) \<longrightarrow> (\<exists>s'. bstep hs s s')) \<and>
      (\<forall>r. main_at s = Finished r \<longrightarrow> r = Inl (Err_exit ''can't create thread'') \<or> (\<exists>ys. r = Inr ys \<and> sorted ys \<and> mset ys = mset xs)))"
proof (intro conjI impI)
  show "n \<le> 19" if "(bstep hs ^^ n) (bstart xs) s" using bleft_run [OF that] by (simp add: bleft_def bstart_def NTHR_def)
next
  assume run: "(bstep hs)\<^sup>*\<^sup>* (bstart xs) s"
  note inv = binv_run [OF run assms]
  show "\<exists>s'. bstep hs s s'" if "\<forall>r. main_at s \<noteq> Finished r" using bstep_progress [OF inv that] .
  show "\<forall>r. main_at s = Finished r \<longrightarrow> r = Inl (Err_exit ''can't create thread'') \<or> (\<exists>ys. r = Inr ys \<and> sorted ys \<and> mset ys = mset xs)"
    using inv by (auto simp: binv_def)
qed

theorem parallel_sort_correct_witness:
  "sorts (\<lambda>c. sort) \<and> (\<exists>s'. bstep (\<lambda>c. sort) (bstart (replicate NUMNUM 1)) s')"
proof
  show s: "sorts (\<lambda>c. sort)" by (simp add: sorts_def sorted_complong)
  have "\<forall>x\<in>set (replicate NUMNUM 1). x < LONG_MAX" by (simp add: LONG_MAX_def)
  from parallel_sort_correct [OF s _ this, of 0 "bstart (replicate NUMNUM 1)"] show "\<exists>s'. bstep (\<lambda>c. sort) (bstart (replicate NUMNUM 1)) s'"
    by (simp add: bstart_def)
qed

end
