(* ===== verification/Getenv.thy ===== *)
theory Getenv
  imports Posix_Kernel
begin

section \<open>Three versions of \<open>getenv\<close>: \<open>threadctl/getenv1.c\<close>, \<open>getenv2.c\<close>, \<open>getenv3.c\<close>\<close>


record genv =
  environ :: "string list"
  envbuf :: bytes
  init_done :: bool
  env_mutex :: bool
  env_depth :: nat
  g_key :: "nat \<Rightarrow> nat option"
  g_heap :: "nat \<Rightarrow> bytes option"
  g_next :: nat
  g_junk :: "nat \<Rightarrow> bytes"
  g_nomem :: "bool list"










subsection \<open>The search is a lookup\<close>






subsection \<open>Threads keep their results\<close>

text \<open>
  \<open>bufs_ok res s\<close>: every thread has its own buffer, and \<open>res t\<close>, the value thread \<open>t\<close> got from its last successful call, is still in it.
\<close>

definition bufs_ok :: "(nat \<Rightarrow> string option) \<Rightarrow> genv \<Rightarrow> bool" where
  "bufs_ok res s \<longleftrightarrow> (\<forall>t a. g_key s t = Some a \<longrightarrow> a < g_next s \<and> g_heap s a \<noteq> None) \<and>
     (\<forall>t u a. g_key s t = Some a \<longrightarrow> g_key s u = Some a \<longrightarrow> t = u) \<and>
     (\<forall>t v. res t = Some v \<longrightarrow> (\<exists>a b. g_key s t = Some a \<and> g_heap s a = Some b \<and> cstr b = v))"





lemma bufs_ok_mutex [simp]: "bufs_ok res (s\<lparr>env_mutex := m\<rparr>) = bufs_ok res s" "bufs_ok res (s\<lparr>init_done := d\<rparr>) = bufs_ok res s"
  by (simp_all add: bufs_ok_def)


subsection \<open>All three\<close>






end
