(* ===== verification/Spec2Isabelle.thy ===== *)
theory Spec2Isabelle
  imports Db_Props Print_Props Mem_Stream Foo_Threads Sem_Props Job_Props Open_Props Rot13_Props Tty_Modes Ftw_Props Barrier_Sort Getenv
begin

text \<open>
  \<^bold>\<open>Verification of the programs of Advanced Programming in the UNIX Environment\<close>

  The repository is a collection of C programs and a small library (\<open>lib/\<close>, \<open>include/apue.h\<close>). This development models the parts with logic of
  their own: the database library, the network printing system, and the programs whose point is the sharing of data between threads or processes.

  \<^bold>\<open>How C is modelled.\<close> A routine is a function from the state of the process to an outcome (theory \<open>Prelude\<close>): \<open>Ok\<close> with a result, \<open>Abort\<close> when the process
  ends, through a routine of the err or log family or because an access has no meaning in C (\<open>Undefined\<close>), or \<open>Hang\<close> when a call blocks or a loop runs for
  ever. Structures are records, pointers are addresses into heaps that map allocated addresses to structures, address 0 is \<open>NULL\<close>. \<open>malloc\<close> and
  the system calls fail as a schedule in the state says, so a theorem about all states is one about all failures. Integers have the width of the
  source where it matters: \<open>int32_t\<close> job numbers, \<open>size_t\<close> lengths, the \<open>int\<close> offsets of memory streams, 64-bit counters. Uninitialised memory is an
  arbitrary part of the state.

  \<^bold>\<open>Common ground.\<close>
  \<^item> \<open>Prelude\<close>: outcomes, sequencing, the simplification rules that run a routine, frames (\<open>keeps\<close>), bytes of a region of a file, mutexes, sums over
    threads.
  \<^item> \<open>C_Library\<close>: strings and numbers as \<open>sprintf\<close>, \<open>atol\<close> and their kin treat them, with the round trips.
  \<^item> \<open>Posix_Kernel\<close>: files, descriptors, record locks and failing calls of one process.
  \<^item> \<open>Apue_Base\<close>, \<open>Error_Log\<close>: \<open>lib/error.c\<close>, \<open>lib/errorlog.c\<close>, \<open>lib/lockreg.c\<close>, \<open>lib/locktest.c\<close> and the lock macros of \<open>apue.h\<close>.
  \<^item> \<open>Stream_IO\<close>: \<open>lib/readn.c\<close>, \<open>lib/writen.c\<close> and the routines with time-outs of \<open>printer/util.c\<close>, on sockets that deliver and take bytes in pieces of any
    size. Locale \<open>reader\<close> has the law of a source of pieces; plain and timed reads of a socket are its interpretations.
  \<^item> \<open>Linked_List\<close>: locales \<open>links\<close> (doubly linked lists with head and tail) and \<open>chained\<close> (singly linked), interpreted by the print daemon, the job
    queues and the object tables.

  \<^bold>\<open>The database library\<close> (\<open>db/db.c\<close>, \<open>db/t4.c\<close>). \<open>Db_Model\<close> has every function of the file. \<open>Db_Format\<close> is the layout of the two files in bytes, \<open>Db_Ops\<close> the
  internal functions on it, \<open>Db_Chains\<close> the hash chains and the free list, \<open>Db_Inv\<close> the invariant that relates them to a map from keys to data, \<open>Db_Rep\<close>,
  \<open>Db_Update\<close> and \<open>Db_Store\<close> the operations on that map, \<open>Db_Open\<close> opening and closing, \<open>Db_Scan\<close> the sequential scan, \<open>Db_Frame\<close> what holds under any
  failures. Locale \<open>kv_store\<close> (\<open>Db_Client\<close>) is the contract of \<open>apue_db.h\<close>, and the library an interpretation of it. \<open>Db_Props\<close>: each operation on every
  branch, any session of calls as on a map, with failing calls too; files opened again hold the same map; a scan gives every record once; and
  where the code leaves the contract (a new index that is not initialised, keys too long for the buffer).

  \<^bold>\<open>The printing system\<close> (\<open>printer/\<close>, \<open>sockets/clconn2.c\<close>). \<open>Print_Base\<close> has the structures as bytes, the byte order, the configuration and the connection with back-off;
  \<open>Print_Jobs\<close> the job list and the job numbers; \<open>Print_Spool\<close> the client threads, the workers, signals and the restart; \<open>Print_Ipp\<close> the printer thread with
  the request it builds and the answer it reads; \<open>Print_Client\<close> the command. \<open>Print_Keep\<close>, \<open>Print_Wire\<close>, \<open>Print_Deliver\<close> and \<open>Print_Restart\<close> prove what the properties need.
  \<open>Print_Props\<close>: what the command sends is what the daemon stores and queues, in whatever pieces it arrives; a job is never lost by a pass of the
  printer thread and is delivered, in a request a decoder of IPP reads back, when the printer accepts it; accepted jobs survive a restart; job numbers;
  and the ways the daemon fails.

  \<^bold>\<open>Memory streams\<close> (\<open>exercises/fmemopen.c\<close>). \<open>Mem_Stream\<close> refines them to files of bounded size.

  \<^bold>\<open>Reference-counted objects\<close> (\<open>threads/mutex2.c\<close>, \<open>mutex3.c\<close>, \<open>spinlock.c\<close>). \<open>Foo_Table\<close> has the three programs, \<open>Foo_Refine\<close> their common contract as locale
  \<open>refcount\<close> with three interpretations, \<open>Foo_Threads\<close> all interleavings of threads on \<open>mutex2.c\<close>: counts are references, nothing undefined happens, nothing
  deadlocks.

  \<^bold>\<open>Semaphores between processes\<close> (\<open>lib/semaph.c\<close>). \<open>Sem_Set\<close> has each routine as a machine of one system call per step, \<open>Sem_Procs\<close> the processes and the invariant
  of the three members of a set, \<open>Sem_Props\<close> what follows from it and the two races.

  \<^bold>\<open>Job queues\<close> (\<open>threads/queue.c\<close>, \<open>threads/rwlock.c\<close>). \<open>Job_Queue\<close> has the operations and the pieces of the threads between two waits, \<open>Job_Lists\<close> the queue as a list,
  \<open>Job_System\<close> main and the threads as a step relation, \<open>Job_Threads\<close> the invariant, \<open>Job_Props\<close> that every thread does its jobs once and in order, and the
  wake-up that \<open>queue.c\<close> can lose.

  \<^bold>\<open>The open server\<close> (\<open>ipc2/opend/\<close>, \<open>ipc2/opend.fe/\<close>, \<open>ipc2/open_server/\<close>, \<open>ipc2/open/open.c\<close> and the routines of \<open>lib/\<close> they share). \<open>Open_Model\<close> has the splitting of
  requests, the passing of descriptors and the three versions of \<open>handle_request\<close>; \<open>Open_Loops\<close> the table of clients, accepting connections and the loops around \<open>select\<close>
  and \<open>poll\<close>; \<open>Open_Client\<close> the other end, which receives a descriptor. \<open>Open_Answers\<close> is the protocol of answers in bytes, \<open>Open_Serve\<close> a request from its bytes to its answer
  (locale \<open>logger\<close>: what the versions need of their log routines), \<open>Open_Table\<close> the table as a map, \<open>Open_Select\<close> the invariant of the loop around \<open>select\<close>. \<open>Open_Props\<close>: what is
  sent is what is received, in whatever pieces; a request is served with the file it names or the reason why not; the loop keeps its books.

  \<^bold>\<open>Translating a file\<close> (\<open>advio/rot13a.c\<close>, \<open>advio/rot13c2.c\<close>). \<open>Rot13_Model\<close> has both programs, the second as a machine whose asynchronous requests the kernel completes in any
  order; \<open>Rot13_Inv\<close> is its invariant on blocks and buffers, \<open>Rot13_Run\<close> progress, a measure that every step decreases, and runs without failures; \<open>Rot13_Props\<close> that both
  programs do the same.

  \<^bold>\<open>Terminal modes\<close> (\<open>lib/ttymodes.c\<close>). \<open>Tty_Modes\<close>: the routines on terminals that may refuse changes or make only some of them; locale \<open>tty_mode\<close> has what both modes share; the
  original settings come back.

  \<^bold>\<open>Walking a tree\<close> (\<open>filedir/ftw8.c\<close>, \<open>lib/pathalloc.c\<close>). \<open>Ftw_Model\<close> has the walk with its buffer for pathnames, \<open>Ftw_Props\<close> that it counts every file of a tree once. The
  percentages \<open>main\<close> prints are left out.

  \<^bold>\<open>Sorting in parallel\<close> (\<open>threads/barrier.c\<close>). \<open>Barrier_Sort\<close>: the threads that sort a part of the array each, the barrier and the merge, with \<open>heapsort\<close> as a parameter; the
  result is sorted in every interleaving. The timing and the printing of the result are left out.

  \<^bold>\<open>Environment lists\<close> (\<open>threadctl/getenv1.c\<close>, \<open>getenv2.c\<close>, \<open>getenv3.c\<close>). \<open>Getenv\<close>: three versions of one routine, all of them the lookup in a table; the second reports what does not
  fit, the third keeps what each thread was given.

  \<^bold>\<open>Fuel.\<close> Loops that are not structural take a number of passes, chosen so that it is enough whenever the loop ends: along hash chains and the free list one more
  than the length of the index file, since a loop that meets an offset twice never ends; copying loops one more than the bytes left, since a pass
  moves at least one byte; along a list in a heap the next free address, which exceeds its length (\<open>qrep_fuel\<close>); the walk of a tree the depth of the tree. Where fuel could run out, the
  properties state that the routine returns.

  \<^bold>\<open>Atomicity.\<close> The daemon's routines run one at a time, their mutexes being part of the state. The thread programs run in pieces: a piece begins where the
  thread may have to wait and touches only what its locks protect. In the job queues the test for an empty queue is one of these pieces although the source makes it
  without the reader-writer lock. Processes that share semaphores interleave at every system call.

  \<^bold>\<open>Not modelled.\<close> The other directories are short programs that show what one call of the kernel or of the C library does (signals, sessions, terminals, process
  control, limits), or tables generated from lists of options: their behaviour is that of code outside the repository. Of the library, the wrappers for
  signals, pseudo terminals and sleeping are left out for the same reason.
\<close>

end
